(* ===== verification/Woomem_Prelude.thy ===== *)
theory Woomem_Prelude
  imports Main "HOL-Library.Word" "HOL-Library.Monad_Syntax"
begin

unbundle bit_operations_syntax

text \<open>
  Shared vocabulary of the development: the machine integer types of the sources, checked
  array accesses (an access outside the array has no result), the arithmetic of the words
  that stand for small natural numbers, and the generic notion of a state reachable by steps
  with the rule that lifts an invariant of one step to every reachable state.
\<close>

section \<open>Types and automation\<close>

type_synonym u8 = "8 word"
type_synonym u16 = "16 word"
type_synonym u32 = "32 word"
type_synonym u64 = "64 word"

text \<open>A pointer is its \<open>uintptr_t\<close> value; \<open>0\<close> is \<open>nullptr\<close>.\<close>

type_synonym addr = u64

abbreviation w32 :: "nat \<Rightarrow> u32" where
  "w32 \<equiv> word_of_nat"

abbreviation w64 :: "nat \<Rightarrow> u64" where
  "w64 \<equiv> word_of_nat"

named_theorems word_small \<open>words that stand for small natural numbers\<close>
named_theorems array_simps \<open>checked array accesses\<close>

section \<open>Checked array accesses\<close>

text \<open>
  Reading or writing past the end of a C++ array is undefined behaviour: the model gives it no
  result (\<open>None\<close>), so a theorem that an operation returns \<open>Some\<close> also says that all its
  accesses are in range.
\<close>

definition rd :: "'a list \<Rightarrow> nat \<Rightarrow> 'a option" where
  "rd xs i = (if i < length xs then Some (xs ! i) else None)"

definition wr :: "'a list \<Rightarrow> nat \<Rightarrow> 'a \<Rightarrow> 'a list option" where
  "wr xs i v = (if i < length xs then Some (xs[i := v]) else None)"

lemma rd_in [array_simps]: "i < length xs \<Longrightarrow> rd xs i = Some (xs ! i)"
  by (simp add: rd_def)

lemma wr_in [array_simps]: "i < length xs \<Longrightarrow> wr xs i v = Some (xs[i := v])"
  by (simp add: wr_def)

text \<open>Storing one value at each index of a list, in order.\<close>

fun wr_all :: "'a list \<Rightarrow> nat list \<Rightarrow> 'a \<Rightarrow> 'a list option" where
  "wr_all xs [] v = Some xs"
| "wr_all xs (i # is) v = wr xs i v \<bind> (\<lambda>ys. wr_all ys is v)"

lemma wr_all_in:
  assumes "\<forall>i \<in> set is. i < length xs"
  shows "\<exists>ys. wr_all xs is v = Some ys \<and> length ys = length xs \<and>
           (\<forall>k < length xs. ys ! k = (if k \<in> set is then v else xs ! k))"
  using assms
proof (induction "is" arbitrary: xs)
  case (Cons i "is")
  then obtain ys where "wr_all (xs[i := v]) is v = Some ys" "length ys = length xs"
    "\<forall>k < length xs. ys ! k = (if k \<in> set is then v else xs[i := v] ! k)"
    by (metis length_list_update list.set_intros(2))
  with Cons.prems show ?case by (auto simp: wr_in nth_list_update)
qed simp

section \<open>Words that stand for small numbers\<close>

lemma unat_w32 [word_small]: "k < 2 ^ 32 \<Longrightarrow> unat (w32 k) = k"
  by (rule of_nat_inverse [OF refl]) simp

lemma unat_w64 [word_small]: "k < 2 ^ 64 \<Longrightarrow> unat (w64 k) = k"
  by (rule of_nat_inverse [OF refl]) simp

lemma unat_u32_less: "unat (x :: u32) < 2 ^ 32"
  by (rule order.strict_trans2 [OF unsigned_less]) simp

lemma unat_u64_less: "unat (x :: u64) < 2 ^ 64"
  by (rule order.strict_trans2 [OF unsigned_less]) simp

lemma w32_unat [simp]: "w32 (unat x) = x"
  by simp

lemma w64_unat: "w64 (unat x) = x"
  by simp

lemma w32_eq_iff [word_small]: "a < 2 ^ 32 \<Longrightarrow> b < 2 ^ 32 \<Longrightarrow> w32 a = w32 b \<longleftrightarrow> a = b"
  by (metis unat_w32)

lemma w32_less_iff [word_small]: "a < 2 ^ 32 \<Longrightarrow> b < 2 ^ 32 \<Longrightarrow> w32 a < w32 b \<longleftrightarrow> a < b"
  by (simp add: word_less_nat_alt unat_w32)

lemma w32_le_iff [word_small]: "a < 2 ^ 32 \<Longrightarrow> b < 2 ^ 32 \<Longrightarrow> w32 a \<le> w32 b \<longleftrightarrow> a \<le> b"
  by (simp add: word_le_nat_alt unat_w32)

lemma w32_add: "w32 a + w32 b = w32 (a + b)"
  by simp

lemma w32_diff: "b \<le> a \<Longrightarrow> w32 a - w32 b = w32 (a - b)"
  by (simp add: of_nat_diff)

lemma unat_w32_31 [word_small]: "k < 2 ^ 31 \<Longrightarrow> unat (w32 k) = k"
  by (rule unat_w32) simp

lemma unat_ucast_u32_u64 [simp]: "unat (ucast (x :: u32) :: u64) = unat x"
  by (simp add: unsigned_ucast_eq take_bit_nat_eq_self order.strict_trans [OF unsigned_less])

lemma ucast_w32: "k < 2 ^ 32 \<Longrightarrow> (ucast (w32 k) :: u64) = w64 k"
  by (rule word_eq_iff_unsigned [where ?'a = nat, THEN iffD2]) (simp add: unat_w32 unat_w64)

lemma ucast_w64: "k < 2 ^ 32 \<Longrightarrow> (ucast (w64 k) :: u32) = w32 k"
  by (rule word_eq_iff_unsigned [where ?'a = nat, THEN iffD2])
     (simp add: unat_w32 unat_w64 unsigned_ucast_eq take_bit_nat_eq_self)

section \<open>Reachable states\<close>

inductive reach :: "('s \<Rightarrow> bool) \<Rightarrow> ('s \<Rightarrow> 's \<Rightarrow> bool) \<Rightarrow> 's \<Rightarrow> bool"
  for init :: "'s \<Rightarrow> bool" and step :: "'s \<Rightarrow> 's \<Rightarrow> bool" where
  reach_init: "init s \<Longrightarrow> reach init step s"
| reach_step: "reach init step s \<Longrightarrow> step s t \<Longrightarrow> reach init step t"

text \<open>
  The contract shared by every state machine of the development: what the initial states
  satisfy and every step keeps holds in every reachable state.
\<close>

locale inductive_invariant =
  fixes init :: "'s \<Rightarrow> bool" and step :: "'s \<Rightarrow> 's \<Rightarrow> bool" and inv :: "'s \<Rightarrow> bool"
  assumes inv_init: "init s \<Longrightarrow> inv s"
    and inv_step: "inv s \<Longrightarrow> step s t \<Longrightarrow> inv t"
begin

lemma reach_inv: "reach init step s \<Longrightarrow> inv s"
  by (induction rule: reach.induct) (auto intro: inv_init inv_step)

end

end
