(* ===== verification/Woomem_Os.thy ===== *)
theory Woomem_Os
  imports Woomem_Prelude
begin

text \<open>
  The operating-system layer of \<^verbatim>\<open>src/woomem_os_mmap_unix.c\<close>. The system calls it makes are
  not part of the repository: they are the fields of the record \<open>syscalls\<close>, functions over
  an abstract kernel state \<open>'os\<close>, and what the library relies on is the predicate
  \<open>mmap_documented\<close> (POSIX: a successful anonymous mapping is non-null, not empty and lies
  inside the address space). The two preprocessor variants are the values of \<open>target\<close>.
\<close>

section \<open>System calls\<close>

datatype target = POSIX | EMSCRIPTEN

datatype prot = PROT_NONE | PROT_READ_WRITE

record 'os syscalls =
  sys_mmap :: "u64 \<Rightarrow> prot \<Rightarrow> 'os \<Rightarrow> addr \<times> 'os"
  sys_mprotect :: "addr \<Rightarrow> u64 \<Rightarrow> prot \<Rightarrow> 'os \<Rightarrow> u32 \<times> 'os"
  sys_munmap :: "addr \<Rightarrow> u64 \<Rightarrow> 'os \<Rightarrow> u32 \<times> 'os"
  sys_errno :: "'os \<Rightarrow> u32"
  sys_getpagesize :: "'os \<Rightarrow> u32"

definition MAP_FAILED :: addr where
  "MAP_FAILED = - 1"

definition mmap_documented :: "'os syscalls \<Rightarrow> bool" where
  "mmap_documented sys \<longleftrightarrow>
     (\<forall>sz p os. let r = fst (sys_mmap sys sz p os) in
        r = MAP_FAILED \<or> (r \<noteq> 0 \<and> sz \<noteq> 0 \<and> unat r + unat sz < 2 ^ 64))"

section \<open>The wrappers of the library\<close>

definition woomem_os_page_size :: "'os syscalls \<Rightarrow> 'os \<Rightarrow> u64" where
  "woomem_os_page_size sys os = ucast (sys_getpagesize sys os)"

definition woomem_os_reserve_memory ::
  "target \<Rightarrow> 'os syscalls \<Rightarrow> u64 \<Rightarrow> 'os \<Rightarrow> addr \<times> 'os" where
  "woomem_os_reserve_memory tgt sys sz os =
     (let (result, os') =
        (case tgt of
           EMSCRIPTEN \<Rightarrow> sys_mmap sys sz PROT_READ_WRITE os
         | POSIX \<Rightarrow> sys_mmap sys sz PROT_NONE os)
      in (if result = MAP_FAILED then 0 else result, os'))"

definition woomem_os_commit_memory ::
  "target \<Rightarrow> 'os syscalls \<Rightarrow> addr \<Rightarrow> u64 \<Rightarrow> 'os \<Rightarrow> u32 \<times> 'os" where
  "woomem_os_commit_memory tgt sys a sz os =
     (case tgt of
        EMSCRIPTEN \<Rightarrow> (0, os)
      | POSIX \<Rightarrow>
          (let (result, os') = sys_mprotect sys a sz PROT_READ_WRITE os
           in (if result = 0 then 0 else sys_errno sys os', os')))"

definition woomem_os_decommit_memory ::
  "target \<Rightarrow> 'os syscalls \<Rightarrow> addr \<Rightarrow> u64 \<Rightarrow> 'os \<Rightarrow> u32 \<times> 'os" where
  "woomem_os_decommit_memory tgt sys a sz os =
     (case tgt of
        EMSCRIPTEN \<Rightarrow> (0, os)
      | POSIX \<Rightarrow>
          (let (result, os') = sys_mprotect sys a sz PROT_NONE os
           in (if result = 0 then 0 else sys_errno sys os', os')))"

definition woomem_os_release_memory ::
  "'os syscalls \<Rightarrow> addr \<Rightarrow> u64 \<Rightarrow> 'os \<Rightarrow> u32 \<times> 'os" where
  "woomem_os_release_memory sys a sz os =
     (let (result, os') = sys_munmap sys a sz os
      in (if result = 0 then 0 else sys_errno sys os', os'))"

section \<open>What the wrappers promise\<close>

lemma reserve_memory_documented:
  assumes "mmap_documented sys" and "woomem_os_reserve_memory tgt sys sz os = (b, os')"
    and "b \<noteq> 0"
  shows "sz \<noteq> 0 \<and> unat b + unat sz < 2 ^ 64"
proof -
  have "\<exists>p. sys_mmap sys sz p os = (b, os') \<and> b \<noteq> MAP_FAILED"
    using assms(2,3)
    by (cases tgt) (auto simp: woomem_os_reserve_memory_def split: prod.splits if_splits)
  with assms(1) show ?thesis unfolding mmap_documented_def Let_def by (metis fst_conv)
qed

section \<open>A concrete kernel\<close>

text \<open>
  A kernel that maps every request at one fixed address while it fits and remembers the
  protection of each 32 KiB page: it satisfies the documented behaviour and is the one the
  witnesses of the development run on. The state is the list of pages made writable.
\<close>

definition demo_base :: addr where
  "demo_base = 0x100000"

definition demo_sys :: "addr list syscalls" where
  "demo_sys = \<lparr>
     sys_mmap = (\<lambda>sz p os. (if sz = 0 \<or> 0x1000000000000 \<le> sz then MAP_FAILED else demo_base, os)),
     sys_mprotect = (\<lambda>a sz p os. (0, if p = PROT_READ_WRITE then a # os else removeAll a os)),
     sys_munmap = (\<lambda>a sz os. (0, [])),
     sys_errno = (\<lambda>os. 0),
     sys_getpagesize = (\<lambda>os. 4096)\<rparr>"

lemma demo_sys_documented: "mmap_documented demo_sys"
  by (auto simp: mmap_documented_def demo_sys_def demo_base_def Let_def MAP_FAILED_def
      word_le_nat_alt not_le)

end
