(* ===== verification/Woomem_Memory.thy ===== *)
theory Woomem_Memory
  imports Woomem_Prelude
begin

text \<open>
  The data that lives inside the managed address range: \<^verbatim>\<open>PageHead\<close> of
  \<^verbatim>\<open>src/woomem_page.hpp\<close>, \<^verbatim>\<open>PageUnitAlloc\<close> and \<^verbatim>\<open>UnitHead\<close> of
  \<^verbatim>\<open>src/woomem_page_unit_alloc.hpp\<close>. The memory is one total function per
  structure type from addresses to values (a typed heap): a page head at the page address, a
  page allocator head \<open>sizeof(PageHead)\<close> bytes after it, a unit head wherever the layout puts
  one, and the machine words of the payload.
\<close>

section \<open>Sizes\<close>

definition NORMAL_PAGE_SIZE :: u64 where
  "NORMAL_PAGE_SIZE = 32768"

definition sizeof_PageHead :: u64 where
  "sizeof_PageHead = 24"

definition sizeof_PageUnitAlloc :: u64 where
  "sizeof_PageUnitAlloc = 8"

definition sizeof_UnitHead :: u64 where
  "sizeof_UnitHead = 8"

lemmas sizeof_defs =
  NORMAL_PAGE_SIZE_def sizeof_PageHead_def sizeof_PageUnitAlloc_def sizeof_UnitHead_def

section \<open>Structures\<close>

record page_head =
  m_page_count_if_huge :: u64
  m_next_page :: addr
  m_page_just_allocated :: bool

record page_unit_alloc =
  m_next_allocate_unit_offset :: u16
  m_freed_unit_offset :: u16
  m_run_out :: u8
  m_mark_as_run_out_in_global_pool :: bool
  m_unit_size_in_page :: u16

datatype unit_life = RELEASED | PENDING | UNMARKED | SELF_MARKED | FULL_MARKED

text \<open>\<open>UnitLife\<close> is an unscoped \<open>uint8_t\<close> enumeration; the sources compare its values.\<close>

fun life_code :: "unit_life \<Rightarrow> nat" where
  "life_code RELEASED = 0"
| "life_code PENDING = 1"
| "life_code UNMARKED = 2"
| "life_code SELF_MARKED = 3"
| "life_code FULL_MARKED = 4"

lemma life_code_inject: "life_code a = life_code b \<longleftrightarrow> a = b"
  by (cases a; cases b) simp_all

instantiation unit_life :: linorder
begin

definition less_eq_unit_life :: "unit_life \<Rightarrow> unit_life \<Rightarrow> bool" where
  "less_eq_unit_life a b \<longleftrightarrow> life_code a \<le> life_code b"

definition less_unit_life :: "unit_life \<Rightarrow> unit_life \<Rightarrow> bool" where
  "less_unit_life a b \<longleftrightarrow> life_code a < life_code b"

instance
  by standard (auto simp: less_eq_unit_life_def less_unit_life_def life_code_inject
    simp flip: life_code_inject)

end

record unit_head =
  m_next_free_unit_offset :: u16
  m_age :: u8
  m_timing :: u8
  m_attribute :: u8
  m_life :: unit_life

section \<open>The memory\<close>

record mem =
  page_at :: "addr \<Rightarrow> page_head"
  alloc_at :: "addr \<Rightarrow> page_unit_alloc"
  unit_at :: "addr \<Rightarrow> unit_head"
  word_at :: "addr \<Rightarrow> u64"

definition upd_page :: "addr \<Rightarrow> (page_head \<Rightarrow> page_head) \<Rightarrow> mem \<Rightarrow> mem" where
  "upd_page a f m = m\<lparr>page_at := (page_at m)(a := f (page_at m a))\<rparr>"

definition upd_alloc :: "addr \<Rightarrow> (page_unit_alloc \<Rightarrow> page_unit_alloc) \<Rightarrow> mem \<Rightarrow> mem" where
  "upd_alloc a f m = m\<lparr>alloc_at := (alloc_at m)(a := f (alloc_at m a))\<rparr>"

definition upd_unit :: "addr \<Rightarrow> (unit_head \<Rightarrow> unit_head) \<Rightarrow> mem \<Rightarrow> mem" where
  "upd_unit a f m = m\<lparr>unit_at := (unit_at m)(a := f (unit_at m a))\<rparr>"

lemmas mem_defs = upd_page_def upd_alloc_def upd_unit_def

text \<open>Memory before anything is stored in it, for the witnesses.\<close>

definition blank_mem :: mem where
  "blank_mem = \<lparr>
     page_at = (\<lambda>_. \<lparr>m_page_count_if_huge = 0, m_next_page = 0, m_page_just_allocated = False\<rparr>),
     alloc_at = (\<lambda>_. \<lparr>m_next_allocate_unit_offset = 0, m_freed_unit_offset = 0, m_run_out = 0,
       m_mark_as_run_out_in_global_pool = False, m_unit_size_in_page = 0\<rparr>),
     unit_at = (\<lambda>_. \<lparr>m_next_free_unit_offset = 0, m_age = 0, m_timing = 0, m_attribute = 0,
       m_life = RELEASED\<rparr>),
     word_at = (\<lambda>_. 0)\<rparr>"

end
