(* ===== verification/Woomem_Chunk.thy ===== *)
theory Woomem_Chunk
  imports Woomem_Os Woomem_Memory
begin

text \<open>
  \<^verbatim>\<open>Chunk\<close> of \<^verbatim>\<open>src/woomem_chunk.hpp\<close> and \<^verbatim>\<open>src/woomem_chunk.cpp\<close>: one reserved address range cut
  into pages of 32 KiB, with a table of block sizes (\<open>ch_count\<close>) and a sorted doubly linked list of
  the free blocks threaded through two index arrays. Every operation runs under the write guard
  of \<open>rwlock_\<close> (\<open>validate\<close> under its read guard), so an operation is one step here; the lock
  itself is the theory \<open>Woomem_Rwlock\<close>.

  The fields of \<open>Chunk\<close> end in an underscore in the sources; here they start with \<open>ch_\<close>
  instead (\<open>ch_count\<close> is \<open>count_\<close>).

  An operation has no result (\<open>None\<close>) where the code reads or writes outside an array, violates
  one of its own assertions or never leaves a loop. Throwing array allocations are not modelled.
\<close>

section \<open>State\<close>

definition INDEX_NULL :: u32 where
  "INDEX_NULL = 0xFFFFFFFF"

definition ALLOCATED_FLAG :: u32 where
  "ALLOCATED_FLAG = 0x80000000"

definition COUNT_MASK :: u32 where
  "COUNT_MASK = 0x7FFFFFFF"

record chunk =
  ch_base :: addr
  ch_reserved_size :: u64
  ch_total_pages :: u64
  ch_count :: "u32 list"
  ch_free_prev :: "u32 list"
  ch_free_next :: "u32 list"
  ch_free_head :: u32
  ch_commit :: "u8 list"

text \<open>A chunk together with the memory it manages and the kernel state behind it.\<close>

record 'os chunk_state =
  chunk_of :: chunk
  mem_of :: mem
  os_of :: 'os

section \<open>Address arithmetic\<close>

definition page_to_index :: "chunk \<Rightarrow> addr \<Rightarrow> u64" where
  "page_to_index c page = (page - ch_base c) div NORMAL_PAGE_SIZE"

definition index_to_page :: "chunk \<Rightarrow> u64 \<Rightarrow> addr" where
  "index_to_page c idx = ch_base c + idx * NORMAL_PAGE_SIZE"

definition addr_to_index :: "chunk \<Rightarrow> addr \<Rightarrow> u64" where
  "addr_to_index c ptr = (ptr - ch_base c) div NORMAL_PAGE_SIZE"

section \<open>Construction and destruction\<close>

definition null_chunk :: chunk where
  "null_chunk = \<lparr>ch_base = 0, ch_reserved_size = 0, ch_total_pages = 0, ch_count = [], ch_free_prev = [],
     ch_free_next = [], ch_free_head = INDEX_NULL, ch_commit = []\<rparr>"

definition Chunk :: "target \<Rightarrow> 'os syscalls \<Rightarrow> u64 \<Rightarrow> 'os \<Rightarrow> (chunk \<times> 'os) option" where
  "Chunk tgt sys reserved_size os =
     (if reserved_size = 0 then Some (null_chunk, os)
      else
        let total_pages = (reserved_size + NORMAL_PAGE_SIZE - 1) div NORMAL_PAGE_SIZE;
            reserved = total_pages * NORMAL_PAGE_SIZE;
            (base, os') = woomem_os_reserve_memory tgt sys reserved os
        in
          if base = 0 then Some (null_chunk, os')
          else
            let n = unat total_pages in
            do {
              cnt \<leftarrow> wr (replicate n 0) 0 (ucast total_pages);
              Some (\<lparr>ch_base = base, ch_reserved_size = reserved, ch_total_pages = total_pages,
                ch_count = cnt, ch_free_prev = replicate n INDEX_NULL,
                ch_free_next = replicate n INDEX_NULL, ch_free_head = 0,
                ch_commit = replicate n 0\<rparr>, os')
            })"

definition Chunk_destroy :: "'os syscalls \<Rightarrow> chunk \<Rightarrow> 'os \<Rightarrow> 'os" where
  "Chunk_destroy sys c os =
     (if ch_base c \<noteq> 0 then snd (woomem_os_release_memory sys (ch_base c) (ch_reserved_size c) os)
      else os)"

definition is_init_failed :: "chunk \<Rightarrow> bool" where
  "is_init_failed c \<longleftrightarrow> ch_base c = 0 \<and> ch_total_pages c = 0"

section \<open>Committing pages\<close>

definition commit_page ::
  "target \<Rightarrow> 'os syscalls \<Rightarrow> u64 \<Rightarrow> 'os chunk_state \<Rightarrow> (addr \<times> 'os chunk_state) option" where
  "commit_page tgt sys idx s =
     (let c = chunk_of s; p = index_to_page c idx in
      do {
        done \<leftarrow> rd (ch_commit c) (unat idx);
        if done = 0 then do {
          flags \<leftarrow> wr (ch_commit c) (unat idx) 1;
          Some (p, s\<lparr>chunk_of := c\<lparr>ch_commit := flags\<rparr>,
                     os_of := snd (woomem_os_commit_memory tgt sys p NORMAL_PAGE_SIZE (os_of s))\<rparr>)
        }
        else Some (p, s)
      })"

section \<open>The free list\<close>

definition free_list_remove :: "u32 \<Rightarrow> chunk \<Rightarrow> chunk option" where
  "free_list_remove idx c =
     do {
       prev \<leftarrow> rd (ch_free_prev c) (unat idx);
       next \<leftarrow> rd (ch_free_next c) (unat idx);
       c \<leftarrow> (if prev \<noteq> INDEX_NULL
             then do { ns \<leftarrow> wr (ch_free_next c) (unat prev) next; Some (c\<lparr>ch_free_next := ns\<rparr>) }
             else Some (c\<lparr>ch_free_head := next\<rparr>));
       c \<leftarrow> (if next \<noteq> INDEX_NULL
             then do { ps \<leftarrow> wr (ch_free_prev c) (unat next) prev; Some (c\<lparr>ch_free_prev := ps\<rparr>) }
             else Some c);
       ps \<leftarrow> wr (ch_free_prev c) (unat idx) INDEX_NULL;
       ns \<leftarrow> wr (ch_free_next c) (unat idx) INDEX_NULL;
       Some (c\<lparr>ch_free_prev := ps, ch_free_next := ns\<rparr>)
     }"

text \<open>The inner \<open>while\<close> of \<open>free_list_insert\<close>: the neighbours of \<open>idx\<close> in the sorted list.\<close>

partial_function (option) find_neighbours ::
  "u32 list \<Rightarrow> u32 \<Rightarrow> u32 \<Rightarrow> u32 \<Rightarrow> (u32 \<times> u32) option" where
  "find_neighbours nexts idx prev next =
     (if next \<noteq> INDEX_NULL \<and> next < idx
      then rd nexts (unat next) \<bind> (\<lambda>next'. find_neighbours nexts idx next next')
      else Some (prev, next))"

text \<open>The linking code at the end of \<open>free_list_insert\<close>.\<close>

definition link_block :: "u32 \<Rightarrow> u32 \<Rightarrow> u32 \<Rightarrow> u32 \<Rightarrow> chunk \<Rightarrow> chunk option" where
  "link_block idx count prev next c =
     do {
       ps \<leftarrow> wr (ch_free_prev c) (unat idx) prev;
       ns \<leftarrow> wr (ch_free_next c) (unat idx) next;
       c \<leftarrow> Some (c\<lparr>ch_free_prev := ps, ch_free_next := ns\<rparr>);
       c \<leftarrow> (if prev \<noteq> INDEX_NULL
             then do { ns \<leftarrow> wr (ch_free_next c) (unat prev) idx; Some (c\<lparr>ch_free_next := ns\<rparr>) }
             else Some (c\<lparr>ch_free_head := idx\<rparr>));
       c \<leftarrow> (if next \<noteq> INDEX_NULL
             then do { ps \<leftarrow> wr (ch_free_prev c) (unat next) idx; Some (c\<lparr>ch_free_prev := ps\<rparr>) }
             else Some c);
       cs \<leftarrow> wr (ch_count c) (unat idx) count;
       Some (c\<lparr>ch_count := cs\<rparr>)
     }"

text \<open>\<open>Some n\<close> when the block at \<open>i\<close> (if any) has \<open>n\<close> pages and touches the given side.\<close>

definition touching :: "chunk \<Rightarrow> u32 \<Rightarrow> (u32 \<Rightarrow> bool) \<Rightarrow> u32 option option" where
  "touching c i test =
     (if i \<noteq> INDEX_NULL
      then rd (ch_count c) (unat i) \<bind> (\<lambda>n. Some (if test n then Some n else None))
      else Some None)"

partial_function (option) free_list_insert :: "u32 \<Rightarrow> u32 \<Rightarrow> chunk \<Rightarrow> chunk option" where
  "free_list_insert idx count c =
     find_neighbours (ch_free_next c) idx INDEX_NULL (ch_free_head c) \<bind> (\<lambda>pn.
     touching c (fst pn) (\<lambda>prev_count. fst pn + prev_count = idx) \<bind> (\<lambda>merge_prev.
     case merge_prev of
       Some prev_count \<Rightarrow>
         free_list_remove (fst pn) c \<bind> (\<lambda>c'.
         free_list_insert (fst pn) (prev_count + count) c')
     | None \<Rightarrow>
         touching c (snd pn) (\<lambda>next_count. idx + count = snd pn) \<bind> (\<lambda>merge_next.
         case merge_next of
           Some next_count \<Rightarrow>
             free_list_remove (snd pn) c \<bind> (\<lambda>c'.
             free_list_insert idx (count + next_count) c')
         | None \<Rightarrow> link_block idx count (fst pn) (snd pn) c)))"

partial_function (option) find_block_from ::
  "u32 list \<Rightarrow> u32 list \<Rightarrow> u32 \<Rightarrow> u32 \<Rightarrow> u32 option" where
  "find_block_from counts nexts required cur =
     (if cur \<noteq> INDEX_NULL then
        rd counts (unat cur) \<bind> (\<lambda>n.
        if required \<le> (n AND COUNT_MASK) then Some cur
        else rd nexts (unat cur) \<bind> (\<lambda>cur'. find_block_from counts nexts required cur'))
      else Some INDEX_NULL)"

definition free_list_find_block :: "u32 \<Rightarrow> chunk \<Rightarrow> u32 option" where
  "free_list_find_block required c =
     find_block_from (ch_count c) (ch_free_next c) required (ch_free_head c)"

declare find_neighbours.simps [code] free_list_insert.simps [code] find_block_from.simps [code]

section \<open>Allocating pages\<close>

text \<open>The loop over \<open>commit_page(idx + j)\<close> for the given offsets \<open>j\<close>.\<close>

fun commit_pages ::
  "target \<Rightarrow> 'os syscalls \<Rightarrow> u32 \<Rightarrow> nat list \<Rightarrow> 'os chunk_state \<Rightarrow> 'os chunk_state option" where
  "commit_pages tgt sys idx [] s = Some s"
| "commit_pages tgt sys idx (j # js) s =
     commit_page tgt sys (ucast (idx + w32 j)) s \<bind> (\<lambda>(p, s'). commit_pages tgt sys idx js s')"

text \<open>The part of \<open>allocate_pages\<close> that cuts the tail off a block that is too large.\<close>

definition split_block :: "u32 \<Rightarrow> u32 \<Rightarrow> u32 \<Rightarrow> chunk \<Rightarrow> chunk option" where
  "split_block idx block_count required_pages c =
     (if required_pages < block_count then
        let left_idx = idx + required_pages; left_count = block_count - required_pages in
        do {
          cs \<leftarrow> wr (ch_count c) (unat left_idx) left_count;
          cs \<leftarrow> wr_all cs (map (\<lambda>j. unat (left_idx + w32 j)) [1..<unat left_count]) 0;
          free_list_insert left_idx left_count (c\<lparr>ch_count := cs\<rparr>)
        }
      else Some c)"

definition allocate_pages ::
  "target \<Rightarrow> 'os syscalls \<Rightarrow> u32 \<Rightarrow> 'os chunk_state \<Rightarrow> (addr \<times> 'os chunk_state) option" where
  "allocate_pages tgt sys required_pages s =
     do {
       idx \<leftarrow> free_list_find_block required_pages (chunk_of s);
       if idx = INDEX_NULL then Some (0, s)
       else do {
         n \<leftarrow> rd (ch_count (chunk_of s)) (unat idx);
         c \<leftarrow> free_list_remove idx (chunk_of s);
         c \<leftarrow> split_block idx (n AND COUNT_MASK) required_pages c;
         cs \<leftarrow> wr (ch_count c) (unat idx) (required_pages OR ALLOCATED_FLAG);
         cs \<leftarrow> wr_all cs (map (\<lambda>j. unat (idx + w32 j)) [1..<unat required_pages]) 0;
         s \<leftarrow> commit_pages tgt sys idx [0..<unat required_pages]
                (s\<lparr>chunk_of := c\<lparr>ch_count := cs\<rparr>\<rparr>);
         let page = index_to_page (chunk_of s) (ucast idx) in
         Some (page, s\<lparr>mem_of := upd_page page (\<lambda>h. h\<lparr>m_page_just_allocated := True\<rparr>) (mem_of s)\<rparr>)
       }
     }"

definition allocate_page ::
  "target \<Rightarrow> 'os syscalls \<Rightarrow> 'os chunk_state \<Rightarrow> (addr \<times> 'os chunk_state) option" where
  "allocate_page tgt sys s =
     do {
       (page, s) \<leftarrow> allocate_pages tgt sys 1 s;
       if page \<noteq> 0
       then Some (page, s\<lparr>mem_of := upd_page page (\<lambda>h. h\<lparr>m_page_count_if_huge := 0\<rparr>) (mem_of s)\<rparr>)
       else Some (page, s)
     }"

definition pages_for :: "u64 \<Rightarrow> u64" where
  "pages_for sz = (sz + NORMAL_PAGE_SIZE - 1) div NORMAL_PAGE_SIZE"

definition allocate_huge_page ::
  "target \<Rightarrow> 'os syscalls \<Rightarrow> u64 \<Rightarrow> 'os chunk_state \<Rightarrow> (addr \<times> 'os chunk_state) option" where
  "allocate_huge_page tgt sys sz s =
     (if ch_base (chunk_of s) = 0 \<or> sz = 0 then None
      else
        let required_pages = pages_for sz in
        if ch_total_pages (chunk_of s) < required_pages then Some (0, s)
        else do {
          (page, s) \<leftarrow> allocate_pages tgt sys (ucast required_pages) s;
          if page \<noteq> 0
          then Some (page,
            s\<lparr>mem_of := upd_page page (\<lambda>h. h\<lparr>m_page_count_if_huge := required_pages\<rparr>) (mem_of s)\<rparr>)
          else Some (page, s)
        })"

section \<open>Looking up and freeing pages\<close>

text \<open>
  The backward search of \<open>validate\<close>: \<open>Some None\<close> when it runs off the front of the table,
  \<open>Some (Some h)\<close> when it stops at the nonzero entry \<open>h\<close>.
\<close>

fun head_search :: "u32 list \<Rightarrow> nat \<Rightarrow> nat option option" where
  "head_search counts 0 =
     rd counts 0 \<bind> (\<lambda>n. Some (if n = 0 then None else Some 0))"
| "head_search counts (Suc i) =
     rd counts (Suc i) \<bind> (\<lambda>n. if n = 0 then head_search counts i else Some (Some (Suc i)))"

definition validate :: "addr \<Rightarrow> chunk \<Rightarrow> addr option" where
  "validate ptr c =
     (if ch_base c = 0 then None
      else if ptr < ch_base c \<or> ch_base c + ch_reserved_size c \<le> ptr then Some 0
      else
        let idx = (ptr - ch_base c) div NORMAL_PAGE_SIZE in
        do {
          h \<leftarrow> head_search (ch_count c) (unat idx);
          case h of None \<Rightarrow> Some 0
          | Some head_idx \<Rightarrow> do {
              n \<leftarrow> rd (ch_count c) head_idx;
              if n AND ALLOCATED_FLAG = 0 then Some 0
              else if head_idx + unat (n AND COUNT_MASK) \<le> unat idx then Some 0
              else Some (index_to_page c (w64 head_idx))
            }
        })"

definition free_page :: "addr \<Rightarrow> chunk \<Rightarrow> chunk option" where
  "free_page page c =
     (if ch_base c = 0 \<or> page = 0 \<or> validate page c \<noteq> Some page then None
      else
        let idx = page_to_index c page in
        do {
          n \<leftarrow> rd (ch_count c) (unat idx);
          if n AND ALLOCATED_FLAG = 0 then Some c
          else
            let block_count = n AND COUNT_MASK in
            do {
              cs \<leftarrow> wr_all (ch_count c) (map (\<lambda>j. unat (idx + w64 j)) [0..<unat block_count]) 0;
              cs \<leftarrow> wr cs (unat idx) block_count;
              free_list_insert (ucast idx) block_count (c\<lparr>ch_count := cs\<rparr>)
            }
        })"

definition get_total_size :: "chunk \<Rightarrow> u64" where
  "get_total_size c = ch_reserved_size c"

definition get_total_page_count :: "chunk \<Rightarrow> u64" where
  "get_total_page_count c = ch_total_pages c"

end
