(* ===== verification/Woomem_Blocks.thy ===== *)
theory Woomem_Blocks
  imports Woomem_Prelude
begin

text \<open>
  The abstract specification of a page allocator: the pages \<open>0, 1, \<dots>\<close> of the reserved range as a
  sequence of blocks, each a number of adjacent pages that are free or in use. Allocation takes
  the first free block that is large enough and leaves its tail free; freeing turns a block in
  use into a free one and joins it with its free neighbours. A third kind of block, \<open>Hole\<close>, is
  a block on its way between the two: it occurs inside an operation only.
\<close>

section \<open>Block sequences\<close>

datatype block = Free nat | Used nat | Hole nat

fun bsize :: "block \<Rightarrow> nat" where
  "bsize (Free n) = n"
| "bsize (Used n) = n"
| "bsize (Hole n) = n"

fun is_Free :: "block \<Rightarrow> bool" where
  "is_Free (Free n) = True"
| "is_Free b = False"

fun is_Hole :: "block \<Rightarrow> bool" where
  "is_Hole (Hole n) = True"
| "is_Hole b = False"

definition bsizes :: "block list \<Rightarrow> nat" where
  "bsizes bs = sum_list (map bsize bs)"

lemma bsizes_simps [simp]:
  "bsizes [] = 0" "bsizes (b # bs) = bsize b + bsizes bs" "bsizes (xs @ ys) = bsizes xs + bsizes ys"
  by (simp_all add: bsizes_def)

text \<open>The start pages of the free blocks, in order, when the sequence starts at page \<open>k\<close>.\<close>

fun free_starts :: "nat \<Rightarrow> block list \<Rightarrow> nat list" where
  "free_starts k [] = []"
| "free_starts k (b # bs) = (if is_Free b then [k] else []) @ free_starts (k + bsize b) bs"

text \<open>The blocks in use, as pairs of a start page and a number of pages.\<close>

fun used_blocks :: "nat \<Rightarrow> block list \<Rightarrow> (nat \<times> nat) list" where
  "used_blocks k [] = []"
| "used_blocks k (b # bs) =
     (case b of Used n \<Rightarrow> [(k, n)] | _ \<Rightarrow> []) @ used_blocks (k + bsize b) bs"

fun coalesced :: "block list \<Rightarrow> bool" where
  "coalesced (a # b # bs) = (\<not> (is_Free a \<and> is_Free b) \<and> coalesced (b # bs))"
| "coalesced bs = True"

definition blocks_wf :: "block list \<Rightarrow> bool" where
  "blocks_wf bs \<longleftrightarrow> (\<forall>b \<in> set bs. 0 < bsize b \<and> \<not> is_Hole b) \<and> coalesced bs"

section \<open>Specification of the operations\<close>

text \<open>The first free block of at least \<open>r\<close> pages, with what precedes and what follows it.\<close>

fun first_fit :: "nat \<Rightarrow> block list \<Rightarrow> (block list \<times> nat \<times> block list) option" where
  "first_fit r [] = None"
| "first_fit r (b # bs) =
     (if is_Free b \<and> r \<le> bsize b then Some ([], bsize b, bs)
      else map_option (\<lambda>(xs, n, ys). (b # xs, n, ys)) (first_fit r bs))"

definition spec_alloc :: "nat \<Rightarrow> block list \<Rightarrow> (nat \<times> block list) option" where
  "spec_alloc r bs =
     (case first_fit r bs of
        None \<Rightarrow> None
      | Some (xs, n, ys) \<Rightarrow>
          Some (bsizes xs, xs @ Used r # (if r < n then [Free (n - r)] else []) @ ys))"

text \<open>The block in use that starts at page \<open>s\<close>, with what precedes and what follows it.\<close>

fun used_at :: "nat \<Rightarrow> block list \<Rightarrow> (block list \<times> nat \<times> block list) option" where
  "used_at s [] = None"
| "used_at s (b # bs) =
     (if s = 0 \<and> (\<exists>n. b = Used n) then Some ([], bsize b, bs)
      else if s < bsize b then None
      else map_option (\<lambda>(xs, n, ys). (b # xs, n, ys)) (used_at (s - bsize b) bs))"

definition join_free :: "block list \<Rightarrow> nat \<Rightarrow> block list \<Rightarrow> block list" where
  "join_free xs n ys =
     (let (xs', l) = (if xs \<noteq> [] \<and> is_Free (last xs) then (butlast xs, bsize (last xs)) else (xs, 0));
          (ys', r) = (if ys \<noteq> [] \<and> is_Free (hd ys) then (tl ys, bsize (hd ys)) else (ys, 0))
      in xs' @ Free (l + n + r) # ys')"

definition spec_free :: "nat \<Rightarrow> block list \<Rightarrow> block list option" where
  "spec_free s bs =
     (case used_at s bs of None \<Rightarrow> None | Some (xs, n, ys) \<Rightarrow> Some (join_free xs n ys))"

text \<open>The block in use that a page belongs to.\<close>

definition owner :: "block list \<Rightarrow> nat \<Rightarrow> nat option" where
  "owner bs i = map_option fst (find (\<lambda>(s, n). s \<le> i \<and> i < s + n) (used_blocks 0 bs))"

section \<open>Lemmas on block sequences\<close>

lemma free_starts_append [simp]:
  "free_starts k (xs @ ys) = free_starts k xs @ free_starts (k + bsizes xs) ys"
  by (induction xs arbitrary: k) (simp_all add: add.assoc)

lemma used_blocks_append [simp]:
  "used_blocks k (xs @ ys) = used_blocks k xs @ used_blocks (k + bsizes xs) ys"
  by (induction xs arbitrary: k) (simp_all add: add.assoc)

lemma free_starts_range:
  assumes "\<forall>b \<in> set bs. 0 < bsize b" and "i \<in> set (free_starts k bs)"
  shows "k \<le> i \<and> i < k + bsizes bs"
  using assms
proof (induction bs arbitrary: k)
  case (Cons b bs)
  then consider "i = k" | "i \<in> set (free_starts (k + bsize b) bs)"
    by (auto split: if_splits)
  then show ?case
  proof cases
    case 1
    with Cons.prems(1) show ?thesis by simp
  next
    case 2
    with Cons.IH [OF _ 2] Cons.prems(1) show ?thesis by simp
  qed
qed simp

lemma used_blocks_range:
  assumes "(s, n) \<in> set (used_blocks k bs)"
  shows "k \<le> s \<and> s + n \<le> k + bsizes bs \<and> Used n \<in> set bs"
  using assms
proof (induction bs arbitrary: k)
  case (Cons b bs)
  then show ?case by (cases b) force+
qed simp

lemma ex_list_iff: "(\<exists>xs. P xs) \<longleftrightarrow> P [] \<or> (\<exists>x xs. P (x # xs))"
  by (metis list.exhaust)

lemma used_blocks_conv:
  "(s, n) \<in> set (used_blocks k bs) \<longleftrightarrow> (\<exists>xs ys. bs = xs @ Used n # ys \<and> s = k + bsizes xs)"
proof (induction bs arbitrary: k)
  case (Cons b bs)
  have "(s, n) \<in> set (used_blocks k (b # bs)) \<longleftrightarrow>
      (b = Used n \<and> s = k) \<or> (s, n) \<in> set (used_blocks (k + bsize b) bs)"
    by (cases b) auto
  also have "\<dots> \<longleftrightarrow> (\<exists>xs ys. b # bs = xs @ Used n # ys \<and> s = k + bsizes xs)"
    unfolding Cons.IH ex_list_iff [where P = "\<lambda>xs. \<exists>ys. b # bs = xs @ _ # ys \<and> _ xs"]
    by (auto simp: add.assoc)
  finally show ?case .
qed simp

lemma used_blocks_disjoint:
  assumes "(s, n) \<in> set (used_blocks k bs)" "(t, m) \<in> set (used_blocks k bs)" "s \<noteq> t"
  shows "s + n \<le> t \<or> t + m \<le> s"
  using assms
proof (induction bs arbitrary: k)
  case (Cons b bs)
  show ?case
  proof (cases "(s, n) \<in> set (used_blocks (k + bsize b) bs) \<and> (t, m) \<in> set (used_blocks (k + bsize b) bs)")
    case True
    with Cons show ?thesis by blast
  next
    case False
    with Cons.prems show ?thesis
      by (cases b) (auto dest!: used_blocks_range)
  qed
qed simp

lemma used_blocks_inj:
  assumes "\<forall>b \<in> set bs. 0 < bsize b"
    and "(s, n) \<in> set (used_blocks k bs)" "(s, m) \<in> set (used_blocks k bs)"
  shows "n = m"
  using assms
proof (induction bs arbitrary: k)
  case (Cons b bs)
  show ?case
  proof (cases "(s, n) \<in> set (used_blocks (k + bsize b) bs) \<and> (s, m) \<in> set (used_blocks (k + bsize b) bs)")
    case True
    with Cons show ?thesis by auto
  next
    case False
    with Cons.prems show ?thesis
      by (cases b) (auto dest!: used_blocks_range)
  qed
qed simp

lemma coalesced_append:
  "coalesced (xs @ ys) \<longleftrightarrow> coalesced xs \<and> coalesced ys \<and>
     \<not> (xs \<noteq> [] \<and> ys \<noteq> [] \<and> is_Free (last xs) \<and> is_Free (hd ys))"
proof (induction xs)
  case (Cons a xs)
  then show ?case by (cases xs; cases ys) auto
qed simp

lemma coalesced_Cons:
  "coalesced (b # bs) \<longleftrightarrow> coalesced bs \<and> \<not> (bs \<noteq> [] \<and> is_Free b \<and> is_Free (hd bs))"
  by (cases bs) auto

lemma join_free_none:
  "\<not> (xs \<noteq> [] \<and> is_Free (last xs)) \<Longrightarrow> \<not> (ys \<noteq> [] \<and> is_Free (hd ys)) \<Longrightarrow>
     join_free xs n ys = xs @ Free n # ys"
  by (auto simp: join_free_def)

lemma join_free_right:
  "\<not> (xs \<noteq> [] \<and> is_Free (last xs)) \<Longrightarrow> join_free xs n (Free m # ys) = xs @ Free (n + m) # ys"
  by (auto simp: join_free_def)

lemma join_free_left:
  "\<not> (us \<noteq> [] \<and> is_Free (last us)) \<Longrightarrow> xs = us @ [Free m] \<Longrightarrow>
     join_free us (m + n) ys = join_free xs n ys"
  by (auto simp: join_free_def)

section \<open>Properties of the specification\<close>

lemma first_fit_Some:
  "first_fit r bs = Some (xs, n, ys) \<Longrightarrow>
     bs = xs @ Free n # ys \<and> r \<le> n \<and> (\<forall>b \<in> set xs. is_Free b \<longrightarrow> bsize b < r)"
proof (induction bs arbitrary: xs)
  case (Cons b bs)
  then show ?case by (cases b) (auto split: if_splits)
qed simp

lemma first_fit_None: "first_fit r bs = None \<longleftrightarrow> (\<forall>b \<in> set bs. is_Free b \<longrightarrow> bsize b < r)"
  by (induction bs) auto

lemma used_at_conv:
  assumes "\<forall>b \<in> set bs. 0 < bsize b"
  shows "used_at s bs = Some (xs, n, ys) \<longleftrightarrow> bs = xs @ Used n # ys \<and> s = bsizes xs"
  using assms
proof (induction bs arbitrary: s xs)
  case (Cons b bs)
  show ?case
  proof (cases xs)
    case Nil
    with Cons.prems show ?thesis by (cases b) auto
  next
    case (Cons x us)
    have "used_at s (b # bs) = Some (xs, n, ys) \<longleftrightarrow>
        x = b \<and> bsize b \<le> s \<and> used_at (s - bsize b) bs = Some (us, n, ys)"
      using Cons Cons.prems by (cases b) auto
    also have "\<dots> \<longleftrightarrow> b # bs = xs @ Used n # ys \<and> s = bsizes xs"
      using Cons Cons.prems Cons.IH by auto
    finally show ?thesis .
  qed
qed simp

lemma spec_free_Some:
  assumes "\<forall>b \<in> set bs. 0 < bsize b"
  shows "spec_free s bs = Some bs' \<longleftrightarrow>
    (\<exists>xs n ys. bs = xs @ Used n # ys \<and> s = bsizes xs \<and> bs' = join_free xs n ys)"
proof -
  have "spec_free s bs = Some bs' \<longleftrightarrow>
      (\<exists>xs n ys. used_at s bs = Some (xs, n, ys) \<and> bs' = join_free xs n ys)"
    by (auto simp: spec_free_def split: option.splits)
  then show ?thesis by (simp add: used_at_conv [OF assms])
qed

lemma join_free_cases:
  obtains us l vs r where "join_free xs n ys = us @ Free (l + n + r) # vs"
    "(l = 0 \<and> xs = us \<and> \<not> (xs \<noteq> [] \<and> is_Free (last xs))) \<or> xs = us @ [Free l]"
    "(r = 0 \<and> ys = vs \<and> \<not> (ys \<noteq> [] \<and> is_Free (hd ys))) \<or> ys = Free r # vs"
proof -
  have l: "\<exists>us l. (if xs \<noteq> [] \<and> is_Free (last xs) then (butlast xs, bsize (last xs)) else (xs, 0)) = (us, l) \<and>
      ((l = 0 \<and> xs = us \<and> \<not> (xs \<noteq> [] \<and> is_Free (last xs))) \<or> xs = us @ [Free l])"
    by (cases xs rule: rev_cases; cases "last xs") auto
  have r: "\<exists>vs r. (if ys \<noteq> [] \<and> is_Free (hd ys) then (tl ys, bsize (hd ys)) else (ys, 0)) = (vs, r) \<and>
      ((r = 0 \<and> ys = vs \<and> \<not> (ys \<noteq> [] \<and> is_Free (hd ys))) \<or> ys = Free r # vs)"
    by (cases ys; cases "hd ys") auto
  from l r obtain us l vs r where
    "(if xs \<noteq> [] \<and> is_Free (last xs) then (butlast xs, bsize (last xs)) else (xs, 0)) = (us, l)"
    "(if ys \<noteq> [] \<and> is_Free (hd ys) then (tl ys, bsize (hd ys)) else (ys, 0)) = (vs, r)"
    "(l = 0 \<and> xs = us \<and> \<not> (xs \<noteq> [] \<and> is_Free (last xs))) \<or> xs = us @ [Free l]"
    "(r = 0 \<and> ys = vs \<and> \<not> (ys \<noteq> [] \<and> is_Free (hd ys))) \<or> ys = Free r # vs"
    by blast
  moreover from this(1,2) have "join_free xs n ys = us @ Free (l + n + r) # vs"
    unfolding join_free_def by (simp only: Let_def prod.case)
  ultimately show thesis by (intro that)
qed

lemma blocks_wf_join_free:
  assumes "blocks_wf (xs @ Used n # ys)"
  shows "blocks_wf (join_free xs n ys)"
proof -
  obtain us l vs r where j: "join_free xs n ys = us @ Free (l + n + r) # vs"
    "(l = 0 \<and> xs = us \<and> \<not> (xs \<noteq> [] \<and> is_Free (last xs))) \<or> xs = us @ [Free l]"
    "(r = 0 \<and> ys = vs \<and> \<not> (ys \<noteq> [] \<and> is_Free (hd ys))) \<or> ys = Free r # vs"
    by (rule join_free_cases)
  with assms show ?thesis
    by (auto simp: blocks_wf_def coalesced_append coalesced_Cons)
qed

lemma bsizes_join_free [simp]: "bsizes (join_free xs n ys) = bsizes xs + n + bsizes ys"
proof -
  obtain us l vs r where "join_free xs n ys = us @ Free (l + n + r) # vs"
    "(l = 0 \<and> xs = us \<and> \<not> (xs \<noteq> [] \<and> is_Free (last xs))) \<or> xs = us @ [Free l]"
    "(r = 0 \<and> ys = vs \<and> \<not> (ys \<noteq> [] \<and> is_Free (hd ys))) \<or> ys = Free r # vs"
    by (rule join_free_cases)
  then show ?thesis by auto
qed

lemma used_blocks_join_free:
  "used_blocks k (join_free xs n ys) = used_blocks k xs @ used_blocks (k + bsizes xs + n) ys"
proof -
  obtain us l vs r where "join_free xs n ys = us @ Free (l + n + r) # vs"
    "(l = 0 \<and> xs = us \<and> \<not> (xs \<noteq> [] \<and> is_Free (last xs))) \<or> xs = us @ [Free l]"
    "(r = 0 \<and> ys = vs \<and> \<not> (ys \<noteq> [] \<and> is_Free (hd ys))) \<or> ys = Free r # vs"
    by (rule join_free_cases)
  then show ?thesis by (auto simp: ac_simps)
qed

lemma spec_alloc_wf:
  assumes "blocks_wf bs" "0 < r" "spec_alloc r bs = Some (s, bs')"
  shows "blocks_wf bs'"
proof -
  obtain xs n ys where f: "first_fit r bs = Some (xs, n, ys)"
    and bs': "bs' = xs @ Used r # (if r < n then [Free (n - r)] else []) @ ys"
    using assms(3) by (auto simp: spec_alloc_def split: option.splits)
  from first_fit_Some [OF f] assms(1,2) show ?thesis
    unfolding bs' by (auto simp: blocks_wf_def coalesced_append coalesced_Cons)
qed

lemma spec_alloc_bsizes: "spec_alloc r bs = Some (s, bs') \<Longrightarrow> bsizes bs' = bsizes bs"
  by (auto simp: spec_alloc_def dest!: first_fit_Some split: option.splits)

lemma spec_alloc_used:
  assumes "spec_alloc r bs = Some (s, bs')"
  shows "set (used_blocks 0 bs') = insert (s, r) (set (used_blocks 0 bs))"
proof -
  obtain xs n ys where f: "first_fit r bs = Some (xs, n, ys)" and s: "s = bsizes xs"
    and bs': "bs' = xs @ Used r # (if r < n then [Free (n - r)] else []) @ ys"
    using assms by (auto simp: spec_alloc_def split: option.splits)
  from first_fit_Some [OF f] show ?thesis
    unfolding bs' s by (auto simp: ac_simps)
qed

text \<open>Freeing what was just allocated restores the block sequence.\<close>

lemma spec_alloc_free:
  assumes "blocks_wf bs" "0 < r" "spec_alloc r bs = Some (s, bs')"
  shows "spec_free s bs' = Some bs"
proof -
  obtain xs n ys where f: "first_fit r bs = Some (xs, n, ys)" and s: "s = bsizes xs"
    and bs': "bs' = xs @ Used r # (if r < n then [Free (n - r)] else []) @ ys"
    using assms(3) by (auto simp: spec_alloc_def split: option.splits)
  let ?t = "if r < n then [Free (n - r)] else []"
  have bs: "bs = xs @ Free n # ys" "r \<le> n" using first_fit_Some [OF f] by auto
  have nf: "\<not> (xs \<noteq> [] \<and> is_Free (last xs))" "\<not> (ys \<noteq> [] \<and> is_Free (hd ys))"
    using assms(1) by (auto simp: bs(1) blocks_wf_def coalesced_append coalesced_Cons)
  have "join_free xs r (?t @ ys) = bs"
    using nf bs(2) by (cases "r < n") (simp_all add: bs(1) join_free_right join_free_none)
  moreover have "\<forall>b \<in> set bs'. 0 < bsize b"
    using spec_alloc_wf [OF assms] by (simp add: blocks_wf_def)
  ultimately show ?thesis unfolding spec_free_Some [OF \<open>\<forall>b \<in> set bs'. 0 < bsize b\<close>]
    using bs' s by blast
qed

end
