(* ===== verification/Woomem_Chunk_Rep.thy ===== *)
theory Woomem_Chunk_Rep
  imports Woomem_Chunk Woomem_Blocks
begin

text \<open>
  How the tables of a chunk represent a block sequence: the free list links the start pages of
  the free blocks in ascending order, and \<open>count_\<close> holds the size of each block at its start,
  with the flag when it is in use. The entries inside a free block may be stale sizes left by
  earlier merges; what matters is that none of them carries the flag. The lemmas show that each
  free-list operation maps a represented sequence to the expected one and that the loops end.
\<close>

section \<open>Sizes as words\<close>

lemma INDEX_NULL_neq: "k < 2 ^ 31 \<Longrightarrow> w32 k \<noteq> INDEX_NULL"
  using unat_w32_31 [of k] by (auto simp: INDEX_NULL_def)

lemma flag_bits: "ALLOCATED_FLAG = 2 ^ 31" "COUNT_MASK = mask 31"
  by (simp_all add: ALLOCATED_FLAG_def COUNT_MASK_def mask_eq_exp_minus_1)

lemma and_COUNT_MASK: "w AND COUNT_MASK = take_bit 31 w"
  by (simp add: flag_bits take_bit_eq_mask)

lemma w32_mask [word_small]: "k < 2 ^ 31 \<Longrightarrow> w32 k AND COUNT_MASK = w32 k"
  by (metis and_COUNT_MASK take_bit_nat_eq_self unsigned_take_bit_eq unat_w32_31 w32_unat)

lemma flag_zero_iff: "w AND ALLOCATED_FLAG = 0 \<longleftrightarrow> unat w < 2 ^ 31" for w :: u32
proof -
  have "w AND ALLOCATED_FLAG = 0 \<longleftrightarrow> \<not> bit w 31"
    unfolding flag_bits by (metis and_exp_eq_0_iff_not_bit)
  also have "\<dots> \<longleftrightarrow> unat w < 2 ^ 31"
  proof -
    have "bit w 31 \<longleftrightarrow> bit (unat w) 31" by (simp add: bit_unsigned_iff)
    also have "\<dots> \<longleftrightarrow> odd (unat w div 2 ^ 31)" by (simp add: bit_iff_odd)
    finally have b: "bit w 31 \<longleftrightarrow> odd (unat w div 2 ^ 31)" .
    have "unat w < 2 * 2 ^ 31" by (rule order.strict_trans2 [OF unsigned_less]) simp
    then have "unat w div 2 ^ 31 < 2" by (simp add: less_mult_imp_div_less)
    then show ?thesis unfolding b by (auto simp: less_2_cases_iff div_eq_0_iff)
  qed
  finally show ?thesis .
qed

lemma or_flag:
  assumes "k < 2 ^ 31"
  shows "(w32 k OR ALLOCATED_FLAG) AND ALLOCATED_FLAG \<noteq> 0"
    and "(w32 k OR ALLOCATED_FLAG) AND COUNT_MASK = w32 k"
    and "w32 k OR ALLOCATED_FLAG \<noteq> 0"
proof -
  have "bit (w32 k OR ALLOCATED_FLAG) 31" by (simp add: flag_bits bit_or_iff bit_exp_iff)
  then show f: "(w32 k OR ALLOCATED_FLAG) AND ALLOCATED_FLAG \<noteq> 0"
    unfolding flag_bits(1) by (metis and_exp_eq_0_iff_not_bit)
  show "w32 k OR ALLOCATED_FLAG \<noteq> 0"
    using f by (metis and_zero_eq bit.conj_zero_left)
  have "take_bit 31 (w32 k OR ALLOCATED_FLAG) = take_bit 31 (w32 k)"
    by (rule bit_eqI) (auto simp: bit_take_bit_iff bit_or_iff flag_bits bit_exp_iff)
  then show "(w32 k OR ALLOCATED_FLAG) AND COUNT_MASK = w32 k"
    using assms by (metis and_COUNT_MASK w32_mask)
qed

section \<open>Doubly linked lists in two index arrays\<close>

definition first_ix :: "nat list \<Rightarrow> u32 \<Rightarrow> u32" where
  "first_ix as y = (if as = [] then y else w32 (hd as))"

definition last_ix :: "u32 \<Rightarrow> nat list \<Rightarrow> u32" where
  "last_ix p as = (if as = [] then p else w32 (last as))"

text \<open>
  \<open>linked P N p as y\<close>: the indices \<open>as\<close> are linked in this order; the predecessor of the first
  is \<open>p\<close> and the successor of the last is \<open>y\<close>.
\<close>

fun linked :: "u32 list \<Rightarrow> u32 list \<Rightarrow> u32 \<Rightarrow> nat list \<Rightarrow> u32 \<Rightarrow> bool" where
  "linked P N p [] y = True"
| "linked P N p (a # as) y =
     (a < length P \<and> a < length N \<and> P ! a = p \<and> N ! a = first_ix as y \<and> linked P N (w32 a) as y)"

lemma ix_simps [simp]:
  "first_ix [] y = y" "first_ix (a # as) y = w32 a" "last_ix p [] = p"
  "last_ix p (as @ [a]) = w32 a" "as \<noteq> [] \<Longrightarrow> last_ix p as = w32 (last as)"
  "as \<noteq> [] \<Longrightarrow> first_ix as y = w32 (hd as)"
  by (simp_all add: first_ix_def last_ix_def)

lemma first_ix_append: "first_ix (as @ bs) y = first_ix as (first_ix bs y)"
  by (cases as) simp_all

lemma last_ix_Cons: "last_ix p (a # as) = last_ix (w32 a) as"
  by (simp add: last_ix_def)

lemma linked_append:
  "linked P N p (as @ bs) y \<longleftrightarrow>
     linked P N p as (first_ix bs y) \<and> linked P N (last_ix p as) bs y"
  by (induction as arbitrary: p) (auto simp: first_ix_append last_ix_Cons simp del: ix_simps(5,6))

lemma linked_range: "linked P N p as y \<Longrightarrow> a \<in> set as \<Longrightarrow> a < length P \<and> a < length N"
  by (induction as arbitrary: p) auto

lemma linked_frame_next: "i \<notin> set as \<Longrightarrow> linked P (N[i := v]) p as y \<longleftrightarrow> linked P N p as y"
  by (induction as arbitrary: p) auto

lemma linked_frame_prev: "i \<notin> set as \<Longrightarrow> linked (P[i := v]) N p as y \<longleftrightarrow> linked P N p as y"
  by (induction as arbitrary: p) auto

lemmas linked_frame = linked_frame_next linked_frame_prev

lemma linked_set_last:
  assumes "linked P N p as y" "distinct as" "as \<noteq> []"
  shows "linked P (N[last as := z]) p as z"
proof -
  obtain bs b where as: "as = bs @ [b]" using assms(3) by (metis append_butlast_last_id)
  with assms show ?thesis by (simp add: linked_append linked_frame)
qed

lemma linked_set_first:
  assumes "linked P N p as y" "distinct as" "as \<noteq> []"
  shows "linked (P[hd as := q]) N q as y"
  using assms by (cases as) (simp_all add: linked_frame)

section \<open>The list operations on a linked list\<close>

abbreviation free_linked :: "chunk \<Rightarrow> nat list \<Rightarrow> bool" where
  "free_linked c as \<equiv>
     linked (ch_free_prev c) (ch_free_next c) INDEX_NULL as INDEX_NULL \<and>
     ch_free_head c = first_ix as INDEX_NULL \<and>
     length (ch_free_prev c) = length (ch_free_next c) \<and> length (ch_free_next c) < 2 ^ 31"

lemma free_list_remove_linked:
  assumes "free_linked c (as @ a # bs)" and "distinct (as @ a # bs)"
  obtains P N where
    "free_list_remove (w32 a) c =
       Some (c\<lparr>ch_free_prev := P, ch_free_next := N, ch_free_head := first_ix (as @ bs) INDEX_NULL\<rparr>)"
    "length P = length (ch_free_prev c)" "length N = length (ch_free_next c)"
    "linked P N INDEX_NULL (as @ bs) INDEX_NULL"
proof -
  let ?P = "ch_free_prev c" and ?N = "ch_free_next c"
  define P where "P = (if bs = [] then ?P else ?P[hd bs := last_ix INDEX_NULL as])[a := INDEX_NULL]"
  define N where "N = (if as = [] then ?N else ?N[last as := first_ix bs INDEX_NULL])[a := INDEX_NULL]"
  have lk: "linked ?P ?N INDEX_NULL as (w32 a)" "linked ?P ?N (w32 a) bs INDEX_NULL"
    and a: "a < length ?P" "a < length ?N" "?P ! a = last_ix INDEX_NULL as"
      "?N ! a = first_ix bs INDEX_NULL" "a < 2 ^ 31"
    using assms(1) by (auto simp: linked_append)
  have la: "last as < length ?N" "last as < 2 ^ 31" if "as \<noteq> []"
    using linked_range [OF lk(1), of "last as"] assms(1) that by auto
  have hb: "hd bs < length ?P" "hd bs < 2 ^ 31" if "bs \<noteq> []"
    using linked_range [OF lk(2), of "hd bs"] assms(1) that by auto
  have eq: "free_list_remove (w32 a) c =
       Some (c\<lparr>ch_free_prev := P, ch_free_next := N, ch_free_head := first_ix (as @ bs) INDEX_NULL\<rparr>)"
    using a la hb assms(1)
    by (cases "as = []"; cases "bs = []")
       (simp_all add: free_list_remove_def P_def N_def array_simps word_small INDEX_NULL_neq
         first_ix_append)
  have lP: "length P = length ?P" and lN: "length N = length ?N"
    by (simp_all add: P_def N_def)
  have d: "distinct as" "distinct bs" "a \<notin> set as" "a \<notin> set bs"
      "as \<noteq> [] \<Longrightarrow> last as \<notin> set bs" "bs \<noteq> [] \<Longrightarrow> hd bs \<notin> set as"
    using assms(2) by (auto simp: disjoint_iff)
  have "linked ?P N INDEX_NULL as (first_ix bs INDEX_NULL)"
    using lk(1) d linked_set_last [OF lk(1)] by (cases "as = []") (simp_all add: N_def linked_frame)
  then have 1: "linked P N INDEX_NULL as (first_ix bs INDEX_NULL)"
    using d by (cases "bs = []") (simp_all add: P_def linked_frame)
  have "linked P ?N (last_ix INDEX_NULL as) bs INDEX_NULL"
    using lk(2) d linked_set_first [OF lk(2)] by (cases "bs = []") (simp_all add: P_def linked_frame)
  then have 2: "linked P N (last_ix INDEX_NULL as) bs INDEX_NULL"
    using d by (cases "as = []") (simp_all add: N_def linked_frame)
  have "linked P N INDEX_NULL (as @ bs) INDEX_NULL"
    using 1 2 by (simp add: linked_append)
  then show thesis by (rule that [OF eq lP lN])
qed

lemma link_block_linked:
  assumes "free_linked c (as @ bs)" and "distinct (as @ a # bs)"
    and "a < length (ch_free_next c)" "length (ch_count c) = length (ch_free_next c)"
  obtains P N where
    "link_block (w32 a) n (last_ix INDEX_NULL as) (first_ix bs INDEX_NULL) c =
       Some (c\<lparr>ch_free_prev := P, ch_free_next := N, ch_free_head := first_ix (as @ a # bs) INDEX_NULL,
         ch_count := (ch_count c)[a := n]\<rparr>)"
    "length P = length (ch_free_prev c)" "length N = length (ch_free_next c)"
    "linked P N INDEX_NULL (as @ a # bs) INDEX_NULL"
proof -
  let ?P = "ch_free_prev c" and ?N = "ch_free_next c"
  define P where "P = (if bs = [] then id else (\<lambda>P. P[hd bs := w32 a])) (?P[a := last_ix INDEX_NULL as])"
  define N where "N = (if as = [] then id else (\<lambda>N. N[last as := w32 a])) (?N[a := first_ix bs INDEX_NULL])"
  have lk: "linked ?P ?N INDEX_NULL as (first_ix bs INDEX_NULL)"
      "linked ?P ?N (last_ix INDEX_NULL as) bs INDEX_NULL"
    using assms(1) by (auto simp: linked_append)
  have la: "last as < length ?N" "last as < 2 ^ 31" if "as \<noteq> []"
    using linked_range [OF lk(1), of "last as"] assms(1) that by auto
  have hb: "hd bs < length ?P" "hd bs < 2 ^ 31" if "bs \<noteq> []"
    using linked_range [OF lk(2), of "hd bs"] assms(1) that by auto
  have eq: "link_block (w32 a) n (last_ix INDEX_NULL as) (first_ix bs INDEX_NULL) c =
       Some (c\<lparr>ch_free_prev := P, ch_free_next := N, ch_free_head := first_ix (as @ a # bs) INDEX_NULL,
         ch_count := (ch_count c)[a := n]\<rparr>)"
    using la hb assms(1,3,4)
    by (cases "as = []"; cases "bs = []")
       (simp_all add: link_block_def P_def N_def array_simps word_small INDEX_NULL_neq
         first_ix_append)
  have lP: "length P = length ?P" and lN: "length N = length ?N"
    by (simp_all add: P_def N_def)
  have d: "distinct as" "distinct bs" "a \<notin> set as" "a \<notin> set bs"
      "as \<noteq> [] \<Longrightarrow> last as \<notin> set bs" "bs \<noteq> [] \<Longrightarrow> hd bs \<notin> set as"
    using assms(2) by (auto simp: disjoint_iff)
  have d': "as \<noteq> [] \<Longrightarrow> last as \<noteq> a" "bs \<noteq> [] \<Longrightarrow> hd bs \<noteq> a"
    using assms(2) by auto
  let ?P' = "?P[a := last_ix INDEX_NULL as]" and ?N' = "?N[a := first_ix bs INDEX_NULL]"
  have lk': "linked ?P' ?N' INDEX_NULL as (first_ix bs INDEX_NULL)"
      "linked ?P' ?N' (last_ix INDEX_NULL as) bs INDEX_NULL"
    using lk d by (simp_all add: linked_frame)
  have "linked ?P' N INDEX_NULL as (w32 a)"
    using d linked_set_last [OF lk'(1)] by (cases "as = []") (simp_all add: N_def)
  then have 1: "linked P N INDEX_NULL as (w32 a)"
    using d by (cases "bs = []") (simp_all add: P_def linked_frame)
  have "linked P ?N' (w32 a) bs INDEX_NULL"
    using d linked_set_first [OF lk'(2)] by (cases "bs = []") (simp_all add: P_def)
  then have 2: "linked P N (w32 a) bs INDEX_NULL"
    using d by (cases "as = []") (simp_all add: N_def linked_frame)
  have 3: "P ! a = last_ix INDEX_NULL as" "N ! a = first_ix bs INDEX_NULL" "a < length P" "a < length N"
    using assms(1,3) d' by (auto simp: P_def N_def)
  have "linked P N INDEX_NULL (as @ a # bs) INDEX_NULL"
    using 1 2 3 by (simp add: linked_append)
  then show thesis by (rule that [OF eq lP lN])
qed

lemma find_neighbours_linked:
  assumes "linked P N p (as @ bs) INDEX_NULL" and "\<forall>a \<in> set as. a < k" and "\<forall>b \<in> set bs. k \<le> b"
    and "k < 2 ^ 31" and "length N < 2 ^ 31"
  shows "find_neighbours N (w32 k) p (first_ix (as @ bs) INDEX_NULL) =
    Some (last_ix p as, first_ix bs INDEX_NULL)"
  using assms
proof (induction as arbitrary: p)
  case Nil
  show ?case
  proof (cases bs)
    case Nil
    then show ?thesis by (simp add: find_neighbours.simps)
  next
    case (Cons b bs')
    with Nil.prems show ?thesis
      by (auto simp: find_neighbours.simps word_small)
  qed
next
  case (Cons a as)
  then have "find_neighbours N (w32 k) (w32 a) (first_ix (as @ bs) INDEX_NULL) =
    Some (last_ix (w32 a) as, first_ix bs INDEX_NULL)"
    by simp
  with Cons.prems show ?case
    by (subst find_neighbours.simps)
       (simp add: word_small INDEX_NULL_neq array_simps last_ix_Cons)
qed

section \<open>The table of block sizes\<close>

fun block_ok :: "u32 list \<Rightarrow> nat \<Rightarrow> block \<Rightarrow> bool" where
  "block_ok cnt k (Free n) = (cnt ! k = w32 n \<and> (\<forall>j. 0 < j \<and> j < n \<longrightarrow> unat (cnt ! (k + j)) < 2 ^ 31))"
| "block_ok cnt k (Used n) =
     (cnt ! k = w32 n OR ALLOCATED_FLAG \<and> (\<forall>j. 0 < j \<and> j < n \<longrightarrow> cnt ! (k + j) = 0))"
| "block_ok cnt k (Hole n) = (\<forall>j < n. unat (cnt ! (k + j)) < 2 ^ 31)"

fun counts_ok :: "u32 list \<Rightarrow> nat \<Rightarrow> block list \<Rightarrow> bool" where
  "counts_ok cnt k [] = True"
| "counts_ok cnt k (b # bs) = (block_ok cnt k b \<and> counts_ok cnt (k + bsize b) bs)"

lemma counts_ok_append [simp]:
  "counts_ok cnt k (xs @ ys) \<longleftrightarrow> counts_ok cnt k xs \<and> counts_ok cnt (k + bsizes xs) ys"
  by (induction xs arbitrary: k) (simp_all add: add.assoc)

lemma block_ok_cong:
  assumes "0 < bsize b" and "\<And>i. k \<le> i \<Longrightarrow> i < k + bsize b \<Longrightarrow> cnt' ! i = cnt ! i"
  shows "block_ok cnt' k b \<longleftrightarrow> block_ok cnt k b"
  using assms by (cases b) auto

lemma counts_ok_cong:
  assumes "\<forall>b \<in> set bs. 0 < bsize b"
    and "\<And>i. k \<le> i \<Longrightarrow> i < k + bsizes bs \<Longrightarrow> cnt' ! i = cnt ! i"
  shows "counts_ok cnt' k bs \<longleftrightarrow> counts_ok cnt k bs"
  using assms
proof (induction bs arbitrary: k)
  case (Cons b bs)
  then have "block_ok cnt' k b = block_ok cnt k b" by (intro block_ok_cong) auto
  moreover have "counts_ok cnt' (k + bsize b) bs = counts_ok cnt (k + bsize b) bs"
    using Cons.prems by (intro Cons.IH) auto
  ultimately show ?case by simp
qed simp

lemma block_ok_Free_Hole: "n < 2 ^ 31 \<Longrightarrow> block_ok cnt k (Free n) \<Longrightarrow> block_ok cnt k (Hole n)"
proof -
  assume n: "n < 2 ^ 31" and ok: "block_ok cnt k (Free n)"
  have "unat (cnt ! (k + j)) < 2 ^ 31" if "j < n" for j
    using n ok that unat_w32_31 [OF n] by (cases "j = 0") simp_all
  then show ?thesis by simp
qed

section \<open>The representation of a block sequence\<close>

definition rep :: "chunk \<Rightarrow> block list \<Rightarrow> bool" where
  "rep c bs \<longleftrightarrow>
     bsizes bs < 2 ^ 31 \<and> (\<forall>b \<in> set bs. 0 < bsize b) \<and>
     length (ch_count c) = bsizes bs \<and> length (ch_free_prev c) = bsizes bs \<and>
     length (ch_free_next c) = bsizes bs \<and>
     free_linked c (free_starts 0 bs) \<and> counts_ok (ch_count c) 0 bs"

text \<open>What the free-list operations leave alone.\<close>

definition same_frame :: "chunk \<Rightarrow> chunk \<Rightarrow> bool" where
  "same_frame c c' \<longleftrightarrow> ch_base c' = ch_base c \<and> ch_reserved_size c' = ch_reserved_size c \<and>
     ch_total_pages c' = ch_total_pages c \<and> ch_commit c' = ch_commit c"

lemma same_frame_refl [simp]: "same_frame c c"
  by (simp add: same_frame_def)

lemma same_frame_trans: "same_frame a b \<Longrightarrow> same_frame b c \<Longrightarrow> same_frame a c"
  by (simp add: same_frame_def)

lemma free_starts_sorted:
  "\<forall>b \<in> set bs. 0 < bsize b \<Longrightarrow> sorted_wrt (<) (free_starts k bs)"
proof (induction bs arbitrary: k)
  case (Cons b bs)
  then have "\<forall>i \<in> set (free_starts (k + bsize b) bs). k < i"
    using free_starts_range [of bs _ "k + bsize b"] by force
  with Cons show ?case by simp
qed simp

lemma free_starts_distinct: "\<forall>b \<in> set bs. 0 < bsize b \<Longrightarrow> distinct (free_starts k bs)"
  using free_starts_sorted strict_sorted_iff by blast

lemma rep_remove:
  assumes "rep c (xs @ Free n # ys)"
  obtains c' where "free_list_remove (w32 (bsizes xs)) c = Some c'" "rep c' (xs @ Hole n # ys)"
    "ch_count c' = ch_count c" "same_frame c c'"
proof -
  let ?as = "free_starts 0 xs" and ?bs = "free_starts (bsizes xs + n) ys"
  have len: "length (ch_free_next c) < 2 ^ 31" and "n < 2 ^ 31" using assms by (auto simp: rep_def)
  have fs: "free_starts 0 (xs @ Free n # ys) = ?as @ bsizes xs # ?bs" by simp
  have "free_linked c (?as @ bsizes xs # ?bs)"
    using assms unfolding fs rep_def by simp
  moreover have "distinct (?as @ bsizes xs # ?bs)"
    using assms free_starts_distinct [of "xs @ Free n # ys" 0] unfolding fs rep_def by blast
  ultimately obtain P N where r:
      "free_list_remove (w32 (bsizes xs)) c = Some (c\<lparr>ch_free_prev := P, ch_free_next := N,
         ch_free_head := first_ix (?as @ ?bs) INDEX_NULL\<rparr>)" (is "_ = Some ?c'")
      "length P = length (ch_free_prev c)" "length N = length (ch_free_next c)"
      "linked P N INDEX_NULL (?as @ ?bs) INDEX_NULL"
    by (rule free_list_remove_linked)
  have "rep ?c' (xs @ Hole n # ys)"
    using assms r(2-4) \<open>n < 2 ^ 31\<close> block_ok_Free_Hole [of n "ch_count c" "bsizes xs"]
    by (simp add: rep_def del: ix_simps(5,6) block_ok.simps)
  with r(1) show thesis by (rule that) (simp_all add: same_frame_def)
qed

lemma rep_link:
  assumes "rep c (xs @ Hole n # ys)"
  obtains c' where
    "link_block (w32 (bsizes xs)) (w32 n) (last_ix INDEX_NULL (free_starts 0 xs))
       (first_ix (free_starts (bsizes xs + n) ys) INDEX_NULL) c = Some c'"
    "rep c' (xs @ Free n # ys)" "same_frame c c'"
proof -
  let ?as = "free_starts 0 xs" and ?bs = "free_starts (bsizes xs + n) ys"
  have fs: "free_starts 0 (xs @ Free n # ys) = ?as @ bsizes xs # ?bs"
      "free_starts 0 (xs @ Hole n # ys) = ?as @ ?bs" by simp_all
  have pos: "\<forall>b \<in> set (xs @ Free n # ys). 0 < bsize b" using assms by (auto simp: rep_def)
  have "free_linked c (?as @ ?bs)"
    using assms unfolding rep_def fs by auto
  moreover have "distinct (?as @ bsizes xs # ?bs)"
    using free_starts_distinct [OF pos, of 0] unfolding fs by blast
  moreover have "bsizes xs < length (ch_free_next c)"
      "length (ch_count c) = length (ch_free_next c)"
    using assms unfolding rep_def fs by auto
  ultimately obtain P N where r:
      "link_block (w32 (bsizes xs)) (w32 n) (last_ix INDEX_NULL ?as) (first_ix ?bs INDEX_NULL) c =
         Some (c\<lparr>ch_free_prev := P, ch_free_next := N,
           ch_free_head := first_ix (?as @ bsizes xs # ?bs) INDEX_NULL,
           ch_count := (ch_count c)[bsizes xs := w32 n]\<rparr>)" (is "_ = Some ?c'")
      "length P = length (ch_free_prev c)" "length N = length (ch_free_next c)"
      "linked P N INDEX_NULL (?as @ bsizes xs # ?bs) INDEX_NULL"
    by (rule link_block_linked)
  have "counts_ok (ch_count ?c') 0 xs" "counts_ok (ch_count ?c') (bsizes xs + n) ys"
    using assms pos counts_ok_cong [of xs 0 "ch_count ?c'" "ch_count c"]
      counts_ok_cong [of ys "bsizes xs + n" "ch_count ?c'" "ch_count c"]
    by (auto simp: rep_def)
  moreover have "block_ok (ch_count ?c') (bsizes xs) (Free n)"
    using assms by (auto simp: rep_def)
  ultimately have "rep ?c' (xs @ Free n # ys)"
    using assms r(2-4) pos by (simp add: rep_def del: ix_simps(5,6) block_ok.simps)
  with r(1) show thesis by (rule that) (simp add: same_frame_def)
qed

section \<open>Inserting a block\<close>

lemma free_starts_last:
  assumes "free_starts k xs \<noteq> []"
  obtains us m vs where "xs = us @ Free m # vs" "\<forall>b \<in> set vs. \<not> is_Free b"
    "last (free_starts k xs) = k + bsizes us"
proof -
  have "\<exists>b \<in> set xs. is_Free b" using assms by (induction xs arbitrary: k) (auto split: if_splits)
  then obtain us b vs where s: "xs = us @ b # vs" "is_Free b" "\<forall>b \<in> set vs. \<not> is_Free b"
    by (metis split_list_last_prop)
  moreover from s(3) have "free_starts j vs = []" for j by (induction vs arbitrary: j) simp_all
  moreover obtain m where "b = Free m" using s(2) by (cases b) auto
  ultimately show thesis by (intro that [of us m vs]) simp_all
qed

lemma free_starts_first:
  assumes "free_starts k xs \<noteq> []"
  obtains us m vs where "xs = us @ Free m # vs" "\<forall>b \<in> set us. \<not> is_Free b"
    "hd (free_starts k xs) = k + bsizes us"
proof -
  have "\<exists>b \<in> set xs. is_Free b" using assms by (induction xs arbitrary: k) (auto split: if_splits)
  then obtain us b vs where s: "xs = us @ b # vs" "is_Free b" "\<forall>b \<in> set us. \<not> is_Free b"
    by (metis split_list_first_prop)
  moreover from s(3) have "free_starts j us = []" for j by (induction us arbitrary: j) simp_all
  moreover obtain m where "b = Free m" using s(2) by (cases b) auto
  ultimately show thesis by (intro that [of us m vs]) simp_all
qed

lemma bsizes_0_iff: "\<forall>b \<in> set bs. 0 < bsize b \<Longrightarrow> bsizes bs = 0 \<longleftrightarrow> bs = []"
  by (cases bs) auto

lemma rep_neighbours:
  assumes "rep c (xs @ Hole n # ys)"
  shows "find_neighbours (ch_free_next c) (w32 (bsizes xs)) INDEX_NULL (ch_free_head c) =
    Some (last_ix INDEX_NULL (free_starts 0 xs), first_ix (free_starts (bsizes xs + n) ys) INDEX_NULL)"
proof -
  have "\<forall>a \<in> set (free_starts 0 xs). a < bsizes xs" "\<forall>b \<in> set (free_starts (bsizes xs + n) ys). bsizes xs \<le> b"
    using assms free_starts_range [of xs _ 0] free_starts_range [of ys _ "bsizes xs + n"]
    by (force simp: rep_def)+
  moreover have "linked (ch_free_prev c) (ch_free_next c) INDEX_NULL
      (free_starts 0 xs @ free_starts (bsizes xs + n) ys) INDEX_NULL"
    "ch_free_head c = first_ix (free_starts 0 xs @ free_starts (bsizes xs + n) ys) INDEX_NULL"
    "bsizes xs < 2 ^ 31" "length (ch_free_next c) < 2 ^ 31"
    using assms by (simp_all add: rep_def)
  ultimately show ?thesis by (metis find_neighbours_linked)
qed

lemma rep_touch_prev:
  assumes "rep c (xs @ Hole n # ys)"
  shows "touching c (last_ix INDEX_NULL (free_starts 0 xs))
      (\<lambda>m. last_ix INDEX_NULL (free_starts 0 xs) + m = w32 (bsizes xs)) =
    Some (if xs \<noteq> [] \<and> is_Free (last xs) then Some (w32 (bsize (last xs))) else None)"
proof (cases "free_starts 0 xs = []")
  case True
  then have "\<not> (xs \<noteq> [] \<and> is_Free (last xs))"
    by (cases xs rule: rev_cases) auto
  with True show ?thesis by (simp add: touching_def)
next
  case False
  then obtain us m vs where s: "xs = us @ Free m # vs" "\<forall>b \<in> set vs. \<not> is_Free b"
    "last (free_starts 0 xs) = bsizes us"
    by (rule free_starts_last) simp
  have b: "bsizes us < length (ch_count c)" "ch_count c ! bsizes us = w32 m"
      "bsizes us < 2 ^ 31" "bsizes us + m + bsizes vs < 2 ^ 31"
    and pos: "\<forall>b \<in> set vs. 0 < bsize b"
    using assms by (auto simp: rep_def s(1))
  have "(w32 (bsizes us) + w32 m = w32 (bsizes xs)) \<longleftrightarrow> vs = []"
    using bsizes_0_iff [OF pos] b by (subst w32_add) (auto simp: w32_eq_iff s(1) simp del: of_nat_add)
  moreover have ix: "last_ix INDEX_NULL (free_starts 0 xs) = w32 (bsizes us)" using False s(3) by simp
  ultimately show ?thesis
    unfolding ix using b s(1,2)
    by (cases vs rule: rev_cases) (auto simp: touching_def INDEX_NULL_neq array_simps unat_w32_31)
qed

lemma rep_touch_next:
  assumes "rep c (xs @ Hole n # ys)"
  shows "touching c (first_ix (free_starts (bsizes xs + n) ys) INDEX_NULL)
      (\<lambda>m. w32 (bsizes xs) + w32 n = first_ix (free_starts (bsizes xs + n) ys) INDEX_NULL) =
    Some (if ys \<noteq> [] \<and> is_Free (hd ys) then Some (w32 (bsize (hd ys))) else None)"
proof (cases "free_starts (bsizes xs + n) ys = []")
  case True
  then have "\<not> (ys \<noteq> [] \<and> is_Free (hd ys))"
    by (cases ys) auto
  with True show ?thesis by (simp add: touching_def)
next
  case False
  then obtain us m vs where s: "ys = us @ Free m # vs" "\<forall>b \<in> set us. \<not> is_Free b"
    "hd (free_starts (bsizes xs + n) ys) = bsizes xs + n + bsizes us"
    by (rule free_starts_first)
  let ?i = "bsizes xs + n + bsizes us"
  have b: "?i < length (ch_count c)" "ch_count c ! ?i = w32 m" "?i < 2 ^ 31"
    and pos: "\<forall>b \<in> set us. 0 < bsize b"
    using assms by (auto simp: rep_def s(1) add.assoc)
  have "(w32 (bsizes xs) + w32 n = w32 ?i) \<longleftrightarrow> us = []"
    using bsizes_0_iff [OF pos] b by (subst w32_add) (auto simp: w32_eq_iff simp del: of_nat_add)
  moreover have ix: "first_ix (free_starts (bsizes xs + n) ys) INDEX_NULL = w32 ?i"
    using False s(3) by simp
  ultimately show ?thesis
    unfolding ix using b s(1,2)
    by (cases us) (simp_all add: touching_def INDEX_NULL_neq array_simps unat_w32_31 del: of_nat_add)
qed

lemma rep_insert_plain:
  assumes "rep c (xs @ Hole n # ys)"
    and "\<not> (xs \<noteq> [] \<and> is_Free (last xs))" and "\<not> (ys \<noteq> [] \<and> is_Free (hd ys))"
  obtains c' where "free_list_insert (w32 (bsizes xs)) (w32 n) c = Some c'"
    "rep c' (xs @ Free n # ys)" "same_frame c c'"
proof -
  obtain c' where l: "link_block (w32 (bsizes xs)) (w32 n) (last_ix INDEX_NULL (free_starts 0 xs))
       (first_ix (free_starts (bsizes xs + n) ys) INDEX_NULL) c = Some c'"
    "rep c' (xs @ Free n # ys)" "same_frame c c'"
    using assms(1) by (rule rep_link)
  have "free_list_insert (w32 (bsizes xs)) (w32 n) c = Some c'"
    using assms(2,3) l(1)
    by (subst free_list_insert.simps)
       (auto simp: rep_neighbours [OF assms(1)] rep_touch_prev [OF assms(1)] rep_touch_next [OF assms(1)])
  with l(2,3) show thesis by (intro that)
qed

lemma block_ok_Hole_add:
  "block_ok cnt k (Hole (n + m)) \<longleftrightarrow> block_ok cnt k (Hole n) \<and> block_ok cnt (k + n) (Hole m)"
proof -
  have "(\<forall>j < n + m. P j) \<longleftrightarrow> (\<forall>j < n. P j) \<and> (\<forall>j < m. P (n + j))" for P :: "nat \<Rightarrow> bool"
    by (metis add_less_cancel_left le_add_diff_inverse linorder_not_less trans_less_add1)
  from this [of "\<lambda>j. unat (cnt ! (k + j)) < 2 ^ 31"] show ?thesis by (simp add: add.assoc)
qed

lemma rep_Hole_add:
  assumes "0 < n" "0 < m"
  shows "rep c (xs @ Hole n # Hole m # ys) \<longleftrightarrow> rep c (xs @ Hole (n + m) # ys)"
  using assms by (auto simp: rep_def block_ok_Hole_add add.assoc simp del: block_ok.simps)

lemma rep_insert_right:
  assumes "rep c (xs @ Hole n # Free m # ys)"
    and "\<not> (xs \<noteq> [] \<and> is_Free (last xs))" and "\<not> (ys \<noteq> [] \<and> is_Free (hd ys))"
  obtains c' where "free_list_insert (w32 (bsizes xs)) (w32 n) c = Some c'"
    "rep c' (xs @ Free (n + m) # ys)" "same_frame c c'"
proof -
  obtain c1 where r: "free_list_remove (w32 (bsizes (xs @ [Hole n]))) c = Some c1"
      "rep c1 ((xs @ [Hole n]) @ Hole m # ys)" "ch_count c1 = ch_count c" "same_frame c c1"
    using assms(1) rep_remove [of c "xs @ [Hole n]" m ys] by (metis append.assoc append_Cons append_Nil)
  have "rep c1 (xs @ Hole (n + m) # ys)"
    using r(2) rep_Hole_add [of n m c1 xs ys] by (simp add: rep_def)
  then obtain c' where i: "free_list_insert (w32 (bsizes xs)) (w32 (n + m)) c1 = Some c'"
      "rep c' (xs @ Free (n + m) # ys)" "same_frame c1 c'"
    using assms(2,3) by (rule rep_insert_plain)
  have "free_list_insert (w32 (bsizes xs)) (w32 n) c = Some c'"
    using assms(2) r(1) i(1)
    by (subst free_list_insert.simps)
       (auto simp: rep_neighbours [OF assms(1), simplified] rep_touch_prev [OF assms(1)]
         rep_touch_next [OF assms(1), simplified])
  then show thesis using i(2) by (rule that) (rule same_frame_trans [OF r(4) i(3)])
qed

lemma rep_insert_no_left:
  assumes "rep c (xs @ Hole n # ys)" "\<not> (xs \<noteq> [] \<and> is_Free (last xs))" "coalesced ys"
  obtains c' where "free_list_insert (w32 (bsizes xs)) (w32 n) c = Some c'"
    "rep c' (join_free xs n ys)" "same_frame c c'"
proof (cases "ys \<noteq> [] \<and> is_Free (hd ys)")
  case True
  then obtain m ys' where ys: "ys = Free m # ys'" by (cases ys; cases "hd ys") auto
  with assms(3) have "\<not> (ys' \<noteq> [] \<and> is_Free (hd ys'))" by (auto simp: coalesced_Cons)
  with assms(1,2) ys show thesis
    by (metis (no_types, lifting) that rep_insert_right join_free_right)
next
  case False
  with assms(1,2) show thesis
    by (metis that rep_insert_plain join_free_none)
qed

lemma rep_insert:
  assumes "rep c (xs @ Hole n # ys)" "coalesced xs" "coalesced ys"
  obtains c' where "free_list_insert (w32 (bsizes xs)) (w32 n) c = Some c'"
    "rep c' (join_free xs n ys)" "same_frame c c'"
proof (cases "xs \<noteq> [] \<and> is_Free (last xs)")
  case True
  then obtain m us where xs: "xs = us @ [Free m]"
    by (cases xs rule: rev_cases; cases "last xs") auto
  with assms(2) have us: "\<not> (us \<noteq> [] \<and> is_Free (last us))" by (auto simp: coalesced_append)
  have rep: "rep c (us @ Free m # Hole n # ys)" using assms(1) xs by simp
  obtain c1 where r: "free_list_remove (w32 (bsizes us)) c = Some c1"
      "rep c1 (us @ Hole m # Hole n # ys)" "ch_count c1 = ch_count c" "same_frame c c1"
    using rep by (rule rep_remove)
  have "rep c1 (us @ Hole (m + n) # ys)"
    using r(2) rep_Hole_add [of m n c1 us ys] by (simp add: rep_def)
  then obtain c' where i: "free_list_insert (w32 (bsizes us)) (w32 (m + n)) c1 = Some c'"
      "rep c' (join_free us (m + n) ys)" "same_frame c1 c'"
    using us assms(3) by (rule rep_insert_no_left)
  have "free_list_insert (w32 (bsizes xs)) (w32 n) c = Some c'"
    using xs r(1) i(1)
    by (subst free_list_insert.simps)
       (simp add: rep_neighbours [OF assms(1), unfolded xs, simplified]
         rep_touch_prev [OF assms(1), unfolded xs, simplified])
  moreover have "join_free us (m + n) ys = join_free xs n ys"
    using us xs by (rule join_free_left)
  ultimately show thesis
    using i(2) same_frame_trans [OF r(4) i(3)] by (intro that) simp_all
next
  case False
  with assms that show thesis by (metis rep_insert_no_left)
qed

end
