(* ===== verification/Woomem_Chunk_Refine.thy ===== *)
theory Woomem_Chunk_Refine
  imports Woomem_Chunk_Rep
begin

text \<open>
  The operations of a chunk refine the block specification: \<open>blocks_of\<close> reads the block sequence
  off the table of sizes, \<open>chunk_inv\<close> is the invariant of a usable chunk, and under it allocation,
  freeing and lookup return, keep the invariant and act on \<open>blocks_of\<close> as
  \<open>spec_alloc\<close>, \<open>spec_free\<close> and \<open>owner\<close> say.
\<close>

section \<open>The abstraction function and the invariant\<close>

function parse_blocks :: "u32 list \<Rightarrow> block list" where
  "parse_blocks [] = []"
| "parse_blocks (w # ws) =
     (let n = unat (w AND COUNT_MASK) in
      (if w AND ALLOCATED_FLAG = 0 then Free n else Used n) # parse_blocks (drop (n - 1) ws))"
  by pat_completeness auto
termination
  by (relation "measure length") auto

definition blocks_of :: "chunk \<Rightarrow> block list" where
  "blocks_of c = parse_blocks (ch_count c)"

definition committed :: "chunk \<Rightarrow> nat \<Rightarrow> nat \<Rightarrow> bool" where
  "committed c s n \<longleftrightarrow> (\<forall>i < n. ch_commit c ! (s + i) \<noteq> 0)"

definition chunk_inv :: "chunk \<Rightarrow> bool" where
  "chunk_inv c \<longleftrightarrow>
     rep c (blocks_of c) \<and> blocks_wf (blocks_of c) \<and>
     ch_base c \<noteq> 0 \<and> unat (ch_total_pages c) = bsizes (blocks_of c) \<and>
     ch_reserved_size c = ch_total_pages c * NORMAL_PAGE_SIZE \<and>
     unat (ch_base c) + bsizes (blocks_of c) * 32768 < 2 ^ 64 \<and>
     length (ch_commit c) = bsizes (blocks_of c) \<and>
     (\<forall>(s, n) \<in> set (used_blocks 0 (blocks_of c)). committed c s n)"

lemma block_ok_entry:
  assumes "block_ok cnt k b" "\<not> is_Hole b" "bsize b < 2 ^ 31"
  shows "unat (cnt ! k AND COUNT_MASK) = bsize b"
    and "(if cnt ! k AND ALLOCATED_FLAG = 0 then Free (bsize b) else Used (bsize b)) = b"
  using assms w32_mask [OF assms(3)] or_flag [OF assms(3)] unat_w32_31 [OF assms(3)]
  by (cases b; simp add: flag_zero_iff [of "w32 n" for n])+

lemma parse_blocks_eq:
  assumes "counts_ok cnt k bs" "\<forall>b \<in> set bs. 0 < bsize b \<and> \<not> is_Hole b" "bsizes bs < 2 ^ 31"
    and "length cnt = k + bsizes bs"
  shows "parse_blocks (drop k cnt) = bs"
  using assms
proof (induction bs arbitrary: k)
  case (Cons b bs)
  then have "k < length cnt" by auto
  then have d: "drop k cnt = cnt ! k # drop (Suc k) cnt" by (rule Cons_nth_drop_Suc [symmetric])
  have n: "bsize b < 2 ^ 31" "0 < bsize b" using Cons.prems by auto
  have "block_ok cnt k b" "\<not> is_Hole b" using Cons.prems by auto
  note b = block_ok_entry [OF this n(1)]
  have "parse_blocks (drop (k + bsize b) cnt) = bs" using Cons.prems by (intro Cons.IH) auto
  then show ?case unfolding d using b n(2) by (simp add: Let_def add.commute)
qed simp

lemma blocks_of_rep:
  assumes "rep c bs" "blocks_wf bs"
  shows "blocks_of c = bs"
  using parse_blocks_eq [of "ch_count c" 0 bs] assms by (simp add: rep_def blocks_wf_def blocks_of_def)

lemma chunk_invI:
  assumes "rep c bs" "blocks_wf bs" "ch_base c \<noteq> 0" "unat (ch_total_pages c) = bsizes bs"
    "ch_reserved_size c = ch_total_pages c * NORMAL_PAGE_SIZE"
    "unat (ch_base c) + bsizes bs * 32768 < 2 ^ 64" "length (ch_commit c) = bsizes bs"
    "\<And>s n. (s, n) \<in> set (used_blocks 0 bs) \<Longrightarrow> committed c s n"
  shows "chunk_inv c \<and> blocks_of c = bs"
  using assms blocks_of_rep [OF assms(1,2)] by (auto simp: chunk_inv_def)

lemma chunk_invD:
  assumes "chunk_inv c"
  shows "rep c (blocks_of c)" "blocks_wf (blocks_of c)" "ch_base c \<noteq> 0"
    "unat (ch_total_pages c) = bsizes (blocks_of c)"
    "ch_reserved_size c = ch_total_pages c * NORMAL_PAGE_SIZE"
    "unat (ch_base c) + bsizes (blocks_of c) * 32768 < 2 ^ 64"
    "length (ch_commit c) = bsizes (blocks_of c)"
    "\<And>s n. (s, n) \<in> set (used_blocks 0 (blocks_of c)) \<Longrightarrow> committed c s n"
    "bsizes (blocks_of c) < 2 ^ 31" "\<forall>b \<in> set (blocks_of c). 0 < bsize b"
  using assms by (auto simp: chunk_inv_def rep_def)

section \<open>Searching the free list\<close>

lemma find_block_from_rep:
  assumes "rep c (xs @ ys)" "r < 2 ^ 32"
  shows "find_block_from (ch_count c) (ch_free_next c) (w32 r)
      (first_ix (free_starts (bsizes xs) ys) INDEX_NULL) =
    Some (case first_fit r ys of None \<Rightarrow> INDEX_NULL | Some (us, n, vs) \<Rightarrow> w32 (bsizes xs + bsizes us))"
  using assms
proof (induction ys arbitrary: xs)
  case Nil
  then show ?case by (simp add: find_block_from.simps)
next
  case (Cons b ys)
  have IH: "find_block_from (ch_count c) (ch_free_next c) (w32 r)
      (first_ix (free_starts (bsizes xs + bsize b) ys) INDEX_NULL) =
    Some (case first_fit r ys of None \<Rightarrow> INDEX_NULL
      | Some (us, n, vs) \<Rightarrow> w32 (bsizes xs + bsize b + bsizes us))"
    using Cons.IH [of "xs @ [b]"] Cons.prems by (simp split: option.splits)
  show ?case
  proof (cases b)
    case (Free n)
    have "linked (ch_free_prev c) (ch_free_next c) INDEX_NULL
        (free_starts 0 xs @ bsizes xs # free_starts (bsizes xs + n) ys) INDEX_NULL"
      using Cons.prems(1) Free by (simp add: rep_def)
    then have nx: "ch_free_next c ! bsizes xs = first_ix (free_starts (bsizes xs + n) ys) INDEX_NULL"
      by (simp add: linked_append)
    have s: "bsizes xs < length (ch_count c)" "bsizes xs < length (ch_free_next c)"
      "bsizes xs < 2 ^ 31" "ch_count c ! bsizes xs = w32 n" "n < 2 ^ 31"
      using Cons.prems(1) Free by (auto simp: rep_def)
    have "find_block_from (ch_count c) (ch_free_next c) (w32 r) (w32 (bsizes xs)) =
      (if r \<le> n then Some (w32 (bsizes xs))
       else find_block_from (ch_count c) (ch_free_next c) (w32 r) (ch_free_next c ! bsizes xs))"
      using s Cons.prems(2)
      by (subst find_block_from.simps) (simp add: INDEX_NULL_neq array_simps word_small)
    with IH Free nx show ?thesis
      by (auto simp: add.assoc split: option.splits)
  next
    case (Used n)
    with IH show ?thesis by (auto simp: add.assoc split: option.splits)
  next
    case (Hole n)
    with IH show ?thesis by (auto simp: add.assoc split: option.splits)
  qed
qed

lemma free_list_find_block_rep:
  assumes "rep c bs" "r < 2 ^ 32"
  shows "free_list_find_block (w32 r) c =
    Some (case first_fit r bs of None \<Rightarrow> INDEX_NULL | Some (us, n, vs) \<Rightarrow> w32 (bsizes us))"
  using find_block_from_rep [of c "[]" bs r] assms
  by (simp add: free_list_find_block_def rep_def split: option.splits)

section \<open>Rewriting the table of sizes\<close>

lemma rep_recount:
  assumes "rep c (xs @ b # ys)" "\<not> is_Free b" "\<not> is_Free b'" "bsize b' = bsize b"
    and "length cs = length (ch_count c)" "block_ok cs (bsizes xs) b'"
    and "\<And>i. i < bsizes xs \<or> bsizes xs + bsize b \<le> i \<Longrightarrow> i < length (ch_count c) \<Longrightarrow>
      cs ! i = ch_count c ! i"
  shows "rep (c\<lparr>ch_count := cs\<rparr>) (xs @ b' # ys)"
proof -
  have "\<forall>b \<in> set xs. 0 < bsize b" "\<forall>b \<in> set ys. 0 < bsize b"
    and "length (ch_count c) = bsizes xs + bsize b + bsizes ys"
    using assms(1) by (auto simp: rep_def)
  then have "counts_ok cs 0 xs \<longleftrightarrow> counts_ok (ch_count c) 0 xs"
    "counts_ok cs (bsizes xs + bsize b) ys \<longleftrightarrow> counts_ok (ch_count c) (bsizes xs + bsize b) ys"
    using assms(7) by (auto intro!: counts_ok_cong)
  with assms show ?thesis by (auto simp: rep_def)
qed

text \<open>Storing \<open>v\<close> at the first entry of a range and zeroing the rest of it.\<close>

lemma wr_block:
  assumes "set is = {s + 1..<s + n}" "0 < n" "s + n \<le> length cs"
  obtains cs' where "wr cs s v \<bind> (\<lambda>cs. wr_all cs is 0) = Some cs'" "length cs' = length cs"
    "cs' ! s = v" "\<And>j. 0 < j \<Longrightarrow> j < n \<Longrightarrow> cs' ! (s + j) = 0"
    "\<And>i. i < s \<or> s + n \<le> i \<Longrightarrow> i < length cs \<Longrightarrow> cs' ! i = cs ! i"
proof -
  have "\<forall>i \<in> set is. i < length (cs[s := v])" using assms by auto
  from wr_all_in [OF this, of 0] obtain cs' where cs': "wr_all (cs[s := v]) is 0 = Some cs'"
    "length cs' = length cs"
    and nth: "\<And>k. k < length cs \<Longrightarrow> cs' ! k = (if k \<in> set is then 0 else cs[s := v] ! k)"
    by auto
  show thesis
  proof (rule that [of cs'])
    show "wr cs s v \<bind> (\<lambda>cs. wr_all cs is 0) = Some cs'" "length cs' = length cs"
      using cs' assms by (simp_all add: wr_in)
  qed (use assms nth in auto)
qed

lemma offsets_set:
  assumes "s + n < 2 ^ 31"
  shows "set (map (\<lambda>j. unat (w32 s + w32 j)) [a..<n]) = {s + a..<s + n}"
proof -
  have "unat (w32 s + w32 j) = s + j" if "j < n" for j
    using assms that by (subst w32_add) (simp add: unat_w32 del: of_nat_add)
  then have "set (map (\<lambda>j. unat (w32 s + w32 j)) [a..<n]) = (\<lambda>j. s + j) ` {a..<n}"
    by (force simp: image_iff)
  then show ?thesis by (simp add: image_add_atLeastLessThan add.commute)
qed

section \<open>Allocating\<close>

lemma split_block_rep:
  assumes "rep c (xs @ Hole n # ys)" "coalesced xs" "coalesced ys" "\<not> (ys \<noteq> [] \<and> is_Free (hd ys))"
    and "0 < r" "r \<le> n"
  obtains c' where "split_block (w32 (bsizes xs)) (w32 n) (w32 r) c = Some c'"
    "rep c' (xs @ Hole r # (if r < n then [Free (n - r)] else []) @ ys)" "same_frame c c'"
proof (cases "r < n")
  case False
  with assms that [of c] show thesis by (simp add: split_block_def word_small rep_def)
next
  case True
  let ?l = "bsizes xs + r" and ?m = "n - r"
  have b: "bsizes xs + n \<le> length (ch_count c)" "bsizes xs + n < 2 ^ 31" using assms(1) by (auto simp: rep_def)
  have h: "rep c ((xs @ [Hole r]) @ Hole ?m # ys)"
    using assms(1,5) True rep_Hole_add [of r ?m c xs ys] by simp
  have um: "unat (w32 ?m) = ?m" using b(2) by (intro unat_w32_31) simp
  have offs: "set (map (\<lambda>j. unat (w32 ?l + w32 j)) [1..<unat (w32 ?m)]) = {?l + 1..<?l + ?m}"
    unfolding um using offsets_set [of ?l ?m 1] b True by simp
  obtain cs where cs: "wr (ch_count c) ?l (w32 ?m) \<bind>
        (\<lambda>cs. wr_all cs (map (\<lambda>j. unat (w32 ?l + w32 j)) [1..<unat (w32 ?m)]) 0) = Some cs"
      "length cs = length (ch_count c)" "cs ! ?l = w32 ?m" "\<And>j. 0 < j \<Longrightarrow> j < ?m \<Longrightarrow> cs ! (?l + j) = 0"
      "\<And>i. i < ?l \<or> ?l + ?m \<le> i \<Longrightarrow> i < length (ch_count c) \<Longrightarrow> cs ! i = ch_count c ! i"
    using wr_block [OF offs, of "ch_count c" "w32 ?m"] True b by auto
  have "unat (cs ! (?l + j)) < 2 ^ 31" if "j < ?m" for j
    using cs(3,4) that b unat_w32_31 [of ?m] by (cases "j = 0") auto
  then have "rep (c\<lparr>ch_count := cs\<rparr>) ((xs @ [Hole r]) @ Hole ?m # ys)"
    using cs(2,5) by (intro rep_recount [OF h]) auto
  moreover have "coalesced (xs @ [Hole r])" using assms(2) by (simp add: coalesced_append)
  ultimately obtain c' where "free_list_insert (w32 (bsizes (xs @ [Hole r]))) (w32 ?m) (c\<lparr>ch_count := cs\<rparr>) = Some c'"
    and i2: "rep c' (join_free (xs @ [Hole r]) ?m ys)" "same_frame (c\<lparr>ch_count := cs\<rparr>) c'"
    using assms(3) by (rule rep_insert)
  then have i: "free_list_insert (w32 ?l) (w32 ?m) (c\<lparr>ch_count := cs\<rparr>) = Some c'" by simp
  have w: "w32 (bsizes xs) + w32 r = w32 ?l" "w32 n - w32 r = w32 ?m" "unat (w32 ?l) = ?l"
    and lt: "w32 r < w32 n"
    using True b w32_diff [of r n] w32_less_iff [of r n] unat_w32_31 [of ?l] by simp_all
  have "split_block (w32 (bsizes xs)) (w32 n) (w32 r) c = Some c'"
    unfolding split_block_def Let_def w bind_assoc [symmetric] cs(1) using lt i by (simp del: of_nat_add)
  moreover have "join_free (xs @ [Hole r]) ?m ys = xs @ Hole r # Free ?m # ys"
    using assms(4) by (subst join_free_none) auto
  ultimately show thesis using i2 True by (intro that) (auto simp: same_frame_def)
qed

lemma commit_page_eq:
  assumes "unat idx < length (ch_commit (chunk_of s))"
  shows "\<exists>p cm os'. commit_page tgt sys idx s =
      Some (p, s\<lparr>chunk_of := (chunk_of s)\<lparr>ch_commit := cm\<rparr>, os_of := os'\<rparr>) \<and>
    length cm = length (ch_commit (chunk_of s)) \<and> cm ! unat idx \<noteq> 0 \<and>
    (\<forall>i < length cm. ch_commit (chunk_of s) ! i \<noteq> 0 \<longrightarrow> cm ! i \<noteq> 0)"
proof (cases "ch_commit (chunk_of s) ! unat idx = 0")
  case True
  with assms show ?thesis
    by (auto simp: commit_page_def Let_def array_simps nth_list_update
      split: if_splits intro!: exI [of _ "(ch_commit (chunk_of s))[unat idx := 1]"])
next
  case False
  with assms show ?thesis
    by (auto simp: commit_page_def Let_def array_simps intro!: exI [of _ "ch_commit (chunk_of s)"] exI [of _ "os_of s"])
qed

lemma commit_pages_eq:
  assumes "\<forall>j \<in> set js. k + j < length (ch_commit (chunk_of s))" "length (ch_commit (chunk_of s)) < 2 ^ 31"
  shows "\<exists>cm os'. commit_pages tgt sys (w32 k) js s =
      Some (s\<lparr>chunk_of := (chunk_of s)\<lparr>ch_commit := cm\<rparr>, os_of := os'\<rparr>) \<and>
    length cm = length (ch_commit (chunk_of s)) \<and> (\<forall>j \<in> set js. cm ! (k + j) \<noteq> 0) \<and>
    (\<forall>i < length cm. ch_commit (chunk_of s) ! i \<noteq> 0 \<longrightarrow> cm ! i \<noteq> 0)"
  using assms
proof (induction js arbitrary: s)
  case Nil
  show ?case by (auto intro!: exI [of _ "ch_commit (chunk_of s)"] exI [of _ "os_of s"])
next
  case (Cons j js)
  have u: "unat (ucast (w32 k + w32 j) :: u64) = k + j"
    using Cons.prems by (subst w32_add) (simp add: unat_w32 del: of_nat_add)
  obtain p cm1 os1 where c1: "commit_page tgt sys (ucast (w32 k + w32 j)) s =
      Some (p, s\<lparr>chunk_of := (chunk_of s)\<lparr>ch_commit := cm1\<rparr>, os_of := os1\<rparr>)" (is "_ = Some (p, ?s1)")
    "length cm1 = length (ch_commit (chunk_of s))" "cm1 ! (k + j) \<noteq> 0"
    "\<forall>i < length cm1. ch_commit (chunk_of s) ! i \<noteq> 0 \<longrightarrow> cm1 ! i \<noteq> 0"
    using commit_page_eq [of "ucast (w32 k + w32 j)" s tgt sys] Cons.prems(1) unfolding u by auto
  obtain cm os' where c2: "commit_pages tgt sys (w32 k) js ?s1 =
      Some (s\<lparr>chunk_of := (chunk_of s)\<lparr>ch_commit := cm\<rparr>, os_of := os'\<rparr>)"
    "length cm = length cm1" "\<forall>j \<in> set js. cm ! (k + j) \<noteq> 0"
    "\<forall>i < length cm. cm1 ! i \<noteq> 0 \<longrightarrow> cm ! i \<noteq> 0"
    using Cons.IH [of ?s1] c1(2) Cons.prems by auto
  show ?case
    using c1 c2 Cons.prems(1)
    by (intro exI [of _ cm] exI [of _ os']) auto
qed

lemma unat_index_to_page:
  assumes "chunk_inv c" "k \<le> bsizes (blocks_of c)"
  shows "unat (index_to_page c (w64 k)) = unat (ch_base c) + k * 32768"
proof -
  have k: "k * 32768 \<le> bsizes (blocks_of c) * 32768" using assms(2) by simp
  have lt: "unat (ch_base c) + k * 32768 < 2 ^ 64" using chunk_invD(6) [OF assms(1)] k by linarith
  have "index_to_page c (w64 k) = w64 (unat (ch_base c) + k * 32768)"
    by (simp add: index_to_page_def NORMAL_PAGE_SIZE_def)
  then show ?thesis using unat_w64 [OF lt] by (simp only:)
qed

lemma index_to_page_nonzero:
  assumes "chunk_inv c" "k \<le> bsizes (blocks_of c)"
  shows "index_to_page c (w64 k) \<noteq> 0"
  using unat_index_to_page [OF assms] chunk_invD(3) [OF assms(1)] by (auto simp: unat_eq_zero)

lemma allocate_pages_None:
  assumes "chunk_inv (chunk_of s)" "first_fit (unat r) (blocks_of (chunk_of s)) = None"
  shows "allocate_pages tgt sys r s = Some (0, s)"
  using free_list_find_block_rep [OF chunk_invD(1) [OF assms(1)], of "unat r"] assms(2)
    unat_u32_less [of r]
  by (simp add: allocate_pages_def)

text \<open>The block cut off the free list and its table entries rewritten.\<close>

lemma allocate_block:
  assumes "rep c (xs @ Free n # ys)" "blocks_wf (xs @ Free n # ys)" "0 < r" "r \<le> n"
  obtains c1 c2 cs where
    "rd (ch_count c) (bsizes xs) = Some (w32 n)"
    "free_list_remove (w32 (bsizes xs)) c = Some c1"
    "split_block (w32 (bsizes xs)) (w32 n) (w32 r) c1 = Some c2"
    "wr (ch_count c2) (bsizes xs) (w32 r OR ALLOCATED_FLAG) \<bind>
       (\<lambda>cs. wr_all cs (map (\<lambda>j. unat (w32 (bsizes xs) + w32 j)) [1..<r]) 0) = Some cs"
    "rep (c2\<lparr>ch_count := cs\<rparr>) (xs @ Used r # (if r < n then [Free (n - r)] else []) @ ys)"
    "same_frame c (c2\<lparr>ch_count := cs\<rparr>)"
proof -
  let ?t = "if r < n then [Free (n - r)] else []"
  have wf: "coalesced xs" "coalesced ys" "\<not> (ys \<noteq> [] \<and> is_Free (hd ys))"
    using assms(2) by (auto simp: blocks_wf_def coalesced_append coalesced_Cons)
  obtain c1 where c1: "free_list_remove (w32 (bsizes xs)) c = Some c1" "rep c1 (xs @ Hole n # ys)"
      "ch_count c1 = ch_count c" "same_frame c c1"
    using assms(1) by (rule rep_remove)
  obtain c2 where c2: "split_block (w32 (bsizes xs)) (w32 n) (w32 r) c1 = Some c2"
      "rep c2 (xs @ Hole r # ?t @ ys)" "same_frame c1 c2"
    using c1(2) wf assms(3,4) by (rule split_block_rep)
  have b: "bsizes xs + r \<le> length (ch_count c2)" "bsizes xs + r < 2 ^ 31" using c2(2) by (auto simp: rep_def)
  obtain cs where cs: "wr (ch_count c2) (bsizes xs) (w32 r OR ALLOCATED_FLAG) \<bind>
       (\<lambda>cs. wr_all cs (map (\<lambda>j. unat (w32 (bsizes xs) + w32 j)) [1..<r]) 0) = Some cs"
      "length cs = length (ch_count c2)" "cs ! bsizes xs = w32 r OR ALLOCATED_FLAG"
      "\<And>j. 0 < j \<Longrightarrow> j < r \<Longrightarrow> cs ! (bsizes xs + j) = 0"
      "\<And>i. i < bsizes xs \<or> bsizes xs + r \<le> i \<Longrightarrow> i < length (ch_count c2) \<Longrightarrow> cs ! i = ch_count c2 ! i"
    using wr_block [OF offsets_set [OF b(2), of 1] assms(3) b(1), of "w32 r OR ALLOCATED_FLAG"] by auto
  have rep: "rep (c2\<lparr>ch_count := cs\<rparr>) (xs @ Used r # ?t @ ys)"
    using cs by (intro rep_recount [OF c2(2)]) auto
  have "rd (ch_count c) (bsizes xs) = Some (w32 n)" using assms(1) by (simp add: rep_def rd_in)
  then show thesis
    using c1(1) c2(1) cs(1) rep
    by (rule that) (use c1(4) c2(3) in \<open>auto simp: same_frame_def\<close>)
qed

lemma allocate_pages_Some:
  assumes inv: "chunk_inv (chunk_of s)" and pos: "0 < unat r"
    and alloc: "spec_alloc (unat r) (blocks_of (chunk_of s)) = Some (k, bs')"
  shows "\<exists>s'. allocate_pages tgt sys r s = Some (index_to_page (chunk_of s) (w64 k), s') \<and>
    chunk_inv (chunk_of s') \<and> blocks_of (chunk_of s') = bs' \<and>
    ch_base (chunk_of s') = ch_base (chunk_of s) \<and> ch_total_pages (chunk_of s') = ch_total_pages (chunk_of s) \<and>
    mem_of s' = upd_page (index_to_page (chunk_of s) (w64 k)) (\<lambda>h. h\<lparr>m_page_just_allocated := True\<rparr>) (mem_of s)"
proof -
  let ?c = "chunk_of s" and ?bs = "blocks_of (chunk_of s)"
  note D = chunk_invD [OF inv]
  obtain xs n ys where f: "first_fit (unat r) ?bs = Some (xs, n, ys)" and k: "k = bsizes xs"
    and bs': "bs' = xs @ Used (unat r) # (if unat r < n then [Free (n - unat r)] else []) @ ys"
    using alloc by (auto simp: spec_alloc_def split: option.splits)
  have bs: "?bs = xs @ Free n # ys" "unat r \<le> n" using first_fit_Some [OF f] by auto
  obtain c1 c2 cs where a: "rd (ch_count ?c) k = Some (w32 n)" "free_list_remove (w32 k) ?c = Some c1"
      "split_block (w32 k) (w32 n) (w32 (unat r)) c1 = Some c2"
      "wr (ch_count c2) k (w32 (unat r) OR ALLOCATED_FLAG) \<bind>
         (\<lambda>cs. wr_all cs (map (\<lambda>j. unat (w32 k + w32 j)) [1..<unat r]) 0) = Some cs"
      "rep (c2\<lparr>ch_count := cs\<rparr>) bs'" "same_frame ?c (c2\<lparr>ch_count := cs\<rparr>)"
    using allocate_block [of ?c xs n ys "unat r"] D(1,2) pos bs unfolding k bs' by metis
  have k31: "k + unat r < 2 ^ 31" "k + unat r \<le> bsizes ?bs" "n < 2 ^ 31"
    using D(9) bs unfolding k by auto
  let ?s = "s\<lparr>chunk_of := c2\<lparr>ch_count := cs\<rparr>\<rparr>"
  have "\<forall>j \<in> set [0..<unat r]. k + j < length (ch_commit (chunk_of ?s))"
    "length (ch_commit (chunk_of ?s)) < 2 ^ 31"
    using a(6) D(7,9) k31 by (auto simp: same_frame_def)
  from commit_pages_eq [OF this, of tgt sys] obtain cm os' where
    cm: "commit_pages tgt sys (w32 k) [0..<unat r] ?s =
        Some (s\<lparr>chunk_of := c2\<lparr>ch_count := cs, ch_commit := cm\<rparr>, os_of := os'\<rparr>)"
      "length cm = length (ch_commit ?c)" "\<forall>j < unat r. cm ! (k + j) \<noteq> 0"
      "\<forall>i < length cm. ch_commit ?c ! i \<noteq> 0 \<longrightarrow> cm ! i \<noteq> 0"
    using a(6) by (auto simp: same_frame_def)
  let ?c' = "c2\<lparr>ch_count := cs, ch_commit := cm\<rparr>"
  have "free_list_find_block r ?c = Some (w32 k)"
    using free_list_find_block_rep [OF D(1), of "unat r"] f k unat_u32_less [of r] by simp
  moreover have "w32 k \<noteq> INDEX_NULL" "unat (w32 k) = k" "w32 n AND COUNT_MASK = w32 n"
    using k31 by (simp_all add: INDEX_NULL_neq word_small)
  moreover have "index_to_page ?c' (ucast (w32 k)) = index_to_page ?c (w64 k)"
    using a(6) k31 by (simp add: index_to_page_def same_frame_def ucast_w32)
  moreover obtain cs1 where cs: "wr (ch_count c2) k (r OR ALLOCATED_FLAG) = Some cs1"
      "wr_all cs1 (map (\<lambda>j. unat (w32 k + w32 j)) [1..<unat r]) 0 = Some cs"
    using a(4) by (auto simp: bind_eq_Some_conv)
  ultimately have eq: "allocate_pages tgt sys r s = Some (index_to_page ?c (w64 k),
      s\<lparr>chunk_of := ?c', os_of := os', mem_of := upd_page (index_to_page ?c (w64 k))
         (\<lambda>h. h\<lparr>m_page_just_allocated := True\<rparr>) (mem_of s)\<rparr>)"
    using a(1-3) cs cm(1) by (simp add: allocate_pages_def Let_def)
  have "committed ?c' t m" if tm: "(t, m) \<in> set (used_blocks 0 bs')" for t m
  proof (cases "(t, m) = (k, unat r)")
    case True
    with cm(3) show ?thesis by (simp add: committed_def)
  next
    case False
    with tm have "(t, m) \<in> set (used_blocks 0 ?bs)" using spec_alloc_used [OF alloc] by auto
    with D(8) used_blocks_range [OF this] cm(2,4) D(7) show ?thesis by (auto simp: committed_def)
  qed
  moreover have "rep ?c' bs'" using a(5) by (simp add: rep_def)
  moreover have "blocks_wf bs'" using D(2) pos alloc by (rule spec_alloc_wf)
  moreover have "bsizes bs' = bsizes ?bs" using alloc by (rule spec_alloc_bsizes)
  ultimately have "chunk_inv ?c' \<and> blocks_of ?c' = bs'"
    using a(6) cm(2) D(3-7) by (intro chunk_invI) (auto simp: same_frame_def)
  with eq a(6) show ?thesis by (auto simp: same_frame_def)
qed

section \<open>Looking up a page\<close>

text \<open>The block that contains a page.\<close>

lemma block_at:
  assumes "i < bsizes bs"
  obtains xs b ys where "bs = xs @ b # ys" "bsizes xs \<le> i" "i < bsizes xs + bsize b"
proof -
  have "\<exists>xs b ys. bs = xs @ b # ys \<and> bsizes xs \<le> i \<and> i < bsizes xs + bsize b" using assms
  proof (induction bs arbitrary: i)
    case (Cons b bs)
    show ?case
    proof (cases "i < bsize b")
      case True
      then show ?thesis by (intro exI [of _ "[]"]) auto
    next
      case False
      then have "i - bsize b < bsizes bs" using Cons.prems by simp
      with Cons.IH obtain xs b' ys where "bs = xs @ b' # ys" "bsizes xs \<le> i - bsize b"
        "i - bsize b < bsizes xs + bsize b'" by blast
      with False show ?thesis by (intro exI [of _ "b # xs"] exI [of _ b'] exI [of _ ys]) auto
    qed
  qed simp
  with that show thesis by blast
qed

lemma head_search_stop:
  assumes "h \<le> i" "i < length cnt" "cnt ! h \<noteq> 0" "\<forall>j. h < j \<and> j \<le> i \<longrightarrow> cnt ! j = 0"
  shows "head_search cnt i = Some (Some h)"
  using assms
proof (induction i)
  case 0
  then show ?case by (simp add: rd_in)
next
  case (Suc i)
  then show ?case by (cases "h = Suc i") (auto simp: rd_in le_Suc_eq)
qed

text \<open>Wherever the search starts, it stops at the last nonzero entry at or before the start.\<close>

lemma head_search_last:
  assumes "s \<le> i" "i < length cnt" "cnt ! s \<noteq> 0"
  obtains h where "head_search cnt i = Some (Some h)" "s \<le> h" "h \<le> i" "cnt ! h \<noteq> 0"
proof -
  let ?h = "GREATEST h. h \<le> i \<and> cnt ! h \<noteq> 0"
  have h: "?h \<le> i \<and> cnt ! ?h \<noteq> 0"
    using assms by (intro GreatestI_nat [of "\<lambda>h. h \<le> i \<and> cnt ! h \<noteq> 0" s i]) auto
  have ub: "j \<le> ?h" if "j \<le> i" "cnt ! j \<noteq> 0" for j
    using that by (intro Greatest_le_nat [of "\<lambda>h. h \<le> i \<and> cnt ! h \<noteq> 0" j i]) auto
  have "head_search cnt i = Some (Some ?h)"
    using h ub assms(2) by (intro head_search_stop) force+
  then show thesis by (rule that) (use h ub [of s] assms in auto)
qed

lemma owner_Used:
  assumes "\<forall>b \<in> set bs. 0 < bsize b" "bs = xs @ Used n # ys" "bsizes xs \<le> i" "i < bsizes xs + n"
  shows "owner bs i = Some (bsizes xs)"
proof -
  have m: "(bsizes xs, n) \<in> set (used_blocks 0 bs)" using assms(2) by simp
  have "find (\<lambda>(s, n). s \<le> i \<and> i < s + n) (used_blocks 0 bs) \<noteq> None"
    using m assms(3,4) by (auto simp: find_None_iff)
  then obtain t k where f: "find (\<lambda>(s, n). s \<le> i \<and> i < s + n) (used_blocks 0 bs) = Some (t, k)" by auto
  then have "(t, k) \<in> set (used_blocks 0 bs)" "t \<le> i \<and> i < t + k"
    by (auto simp: find_Some_iff) (metis nth_mem)
  with used_blocks_disjoint [OF m, of t k] assms(3,4) have "t = bsizes xs" by auto
  with f show ?thesis by (simp add: owner_def)
qed

lemma owner_Free:
  assumes "bs = xs @ Free n # ys" "bsizes xs \<le> i" "i < bsizes xs + n"
  shows "owner bs i = None"
proof -
  have "\<not> (s \<le> i \<and> i < s + m)" if "(s, m) \<in> set (used_blocks 0 bs)" for s m
    using that assms by (auto dest!: used_blocks_range)
  then show ?thesis by (auto simp: owner_def find_None_iff)
qed

text \<open>The part of \<open>validate\<close> after the range check, for a page index.\<close>

definition lookup_page :: "chunk \<Rightarrow> nat \<Rightarrow> addr option" where
  "lookup_page c i =
     head_search (ch_count c) i \<bind> (\<lambda>h.
     case h of None \<Rightarrow> Some 0
     | Some head_idx \<Rightarrow> rd (ch_count c) head_idx \<bind> (\<lambda>n.
         if n AND ALLOCATED_FLAG = 0 then Some 0
         else if head_idx + unat (n AND COUNT_MASK) \<le> i then Some 0
         else Some (index_to_page c (w64 head_idx))))"

lemma lookup_page_eq:
  assumes "rep c bs" "blocks_wf bs" "i < bsizes bs"
  shows "lookup_page c i = Some (case owner bs i of None \<Rightarrow> 0 | Some s \<Rightarrow> index_to_page c (w64 s))"
proof -
  obtain xs b ys where bs: "bs = xs @ b # ys" and i: "bsizes xs \<le> i" "i < bsizes xs + bsize b"
    using assms(3) by (rule block_at)
  let ?s = "bsizes xs"
  have len: "length (ch_count c) = bsizes bs" and n: "bsize b < 2 ^ 31" "0 < bsize b"
    and ok: "block_ok (ch_count c) ?s b" and pos: "\<forall>b \<in> set bs. 0 < bsize b"
    using assms(1) by (auto simp: rep_def bs)
  show ?thesis
  proof (cases b)
    case (Used m)
    have m: "m < 2 ^ 31" using n Used by simp
    have e: "ch_count c ! ?s = w32 m OR ALLOCATED_FLAG" "\<forall>j. ?s < j \<and> j \<le> i \<longrightarrow> ch_count c ! j = 0"
    proof -
      have z: "\<forall>j. 0 < j \<and> j < m \<longrightarrow> ch_count c ! (?s + j) = 0" using ok Used by simp
      have "ch_count c ! j = 0" if "?s < j" "j \<le> i" for j
        using z [rule_format, of "j - ?s"] that i Used by simp
      then show "\<forall>j. ?s < j \<and> j \<le> i \<longrightarrow> ch_count c ! j = 0" by blast
    qed (use ok Used in simp)
    have "head_search (ch_count c) i = Some (Some ?s)"
      using e or_flag(3) [OF m] i len assms(3) by (intro head_search_stop) auto
    then show ?thesis
      using owner_Used [OF pos, of xs m ys i] e(1) or_flag [OF m] unat_w32_31 [OF m] i len assms(3) Used bs
      by (simp add: lookup_page_def rd_in)
  next
    case (Free m)
    have nz: "ch_count c ! ?s \<noteq> 0"
      using ok Free n unat_w32_31 [of m] by (auto simp: unat_eq_zero)
    obtain h where h: "head_search (ch_count c) i = Some (Some h)" "?s \<le> h" "h \<le> i"
      using i(1) len assms(3) nz by (metis head_search_last)
    have "unat (ch_count c ! h) < 2 ^ 31"
      using block_ok_Free_Hole [of m "ch_count c" ?s] ok n Free h(2,3) i
      by (auto dest!: spec [of _ "h - ?s"])
    then have "ch_count c ! h AND ALLOCATED_FLAG = 0" by (simp add: flag_zero_iff)
    with h owner_Free [of bs xs m ys i] bs Free i len assms(3) show ?thesis
      by (simp add: lookup_page_def rd_in)
  next
    case (Hole m)
    with assms(2) bs show ?thesis by (auto simp: blocks_wf_def)
  qed
qed

definition in_chunk :: "chunk \<Rightarrow> addr \<Rightarrow> bool" where
  "in_chunk c ptr \<longleftrightarrow>
     unat (ch_base c) \<le> unat ptr \<and> unat ptr < unat (ch_base c) + unat (ch_total_pages c) * 32768"

definition page_number :: "chunk \<Rightarrow> addr \<Rightarrow> nat" where
  "page_number c ptr = (unat ptr - unat (ch_base c)) div 32768"

lemma unat_reserved:
  assumes "chunk_inv c"
  shows "unat (ch_reserved_size c) = bsizes (blocks_of c) * 32768"
    and "unat (ch_base c + ch_reserved_size c) = unat (ch_base c) + bsizes (blocks_of c) * 32768"
proof -
  note D = chunk_invD [OF assms]
  have t: "ch_total_pages c = w64 (bsizes (blocks_of c))" using D(4) by (metis w64_unat)
  have r: "ch_reserved_size c = w64 (bsizes (blocks_of c) * 32768)"
    by (simp add: D(5) t NORMAL_PAGE_SIZE_def)
  have "bsizes (blocks_of c) * 32768 < 2 ^ 64" using D(6) by linarith
  from unat_w64 [OF this] show 1: "unat (ch_reserved_size c) = bsizes (blocks_of c) * 32768"
    by (simp only: r)
  have "ch_base c + ch_reserved_size c = w64 (unat (ch_base c) + bsizes (blocks_of c) * 32768)"
    by (simp add: r)
  then show "unat (ch_base c + ch_reserved_size c) = unat (ch_base c) + bsizes (blocks_of c) * 32768"
    using unat_w64 [OF D(6)] by (simp only:)
qed

lemma unat_page_index:
  assumes "ch_base c \<le> ptr"
  shows "unat ((ptr - ch_base c) div NORMAL_PAGE_SIZE) = page_number c ptr"
  using assms by (simp add: page_number_def unat_div NORMAL_PAGE_SIZE_def unat_sub)

lemma page_number_less:
  assumes "chunk_inv c" "in_chunk c ptr"
  shows "page_number c ptr < bsizes (blocks_of c)"
proof -
  have "unat ptr - unat (ch_base c) < bsizes (blocks_of c) * 32768"
    using assms(2) chunk_invD(4) [OF assms(1)] by (auto simp: in_chunk_def)
  then show ?thesis unfolding page_number_def by (rule less_mult_imp_div_less)
qed

lemma validate_eq:
  assumes "chunk_inv c"
  shows "validate ptr c =
    Some (if in_chunk c ptr then
            (case owner (blocks_of c) (page_number c ptr) of None \<Rightarrow> 0 | Some s \<Rightarrow> index_to_page c (w64 s))
          else 0)"
proof -
  note D = chunk_invD [OF assms]
  have range: "ptr < ch_base c \<or> ch_base c + ch_reserved_size c \<le> ptr \<longleftrightarrow> \<not> in_chunk c ptr"
    using unat_reserved(2) [OF assms] D(4)
    by (auto simp: in_chunk_def word_less_nat_alt word_le_nat_alt)
  show ?thesis
  proof (cases "in_chunk c ptr")
    case False
    with range D(3) show ?thesis by (simp add: validate_def)
  next
    case True
    then have u: "unat ((ptr - ch_base c) div NORMAL_PAGE_SIZE) = page_number c ptr"
      by (intro unat_page_index) (simp add: in_chunk_def word_le_nat_alt)
    have "validate ptr c = lookup_page c (page_number c ptr)"
      unfolding validate_def lookup_page_def Let_def u using True range D(3) by simp
    with True lookup_page_eq [OF D(1,2) page_number_less [OF assms True]] show ?thesis by simp
  qed
qed

section \<open>Freeing\<close>

lemma index_to_page_in_chunk:
  assumes "chunk_inv c" "s < bsizes (blocks_of c)"
  shows "in_chunk c (index_to_page c (w64 s))" "page_number c (index_to_page c (w64 s)) = s"
  using assms chunk_invD(4) [OF assms(1)]
  by (simp_all add: in_chunk_def page_number_def unat_index_to_page)

lemma validate_used:
  assumes "chunk_inv c" "blocks_of c = xs @ Used n # ys"
  shows "validate (index_to_page c (w64 (bsizes xs))) c = Some (index_to_page c (w64 (bsizes xs)))"
proof -
  have "\<forall>b \<in> set (blocks_of c). 0 < bsize b" by (rule chunk_invD(10) [OF assms(1)])
  moreover from this have "bsizes xs < bsizes (blocks_of c)" "0 < n" by (auto simp: assms(2))
  ultimately show ?thesis
    using index_to_page_in_chunk [OF assms(1)] owner_Used [of "blocks_of c" xs n ys "bsizes xs"] assms(2)
    by (simp add: validate_eq [OF assms(1)])
qed

lemma free_page_Some:
  assumes inv: "chunk_inv c" and bs: "blocks_of c = xs @ Used n # ys"
  shows "\<exists>c'. free_page (index_to_page c (w64 (bsizes xs))) c = Some c' \<and> chunk_inv c' \<and>
    blocks_of c' = join_free xs n ys \<and> ch_base c' = ch_base c \<and> ch_total_pages c' = ch_total_pages c"
proof -
  let ?k = "bsizes xs" and ?p = "index_to_page c (w64 (bsizes xs))"
  note D = chunk_invD [OF inv]
  have b: "?k + n \<le> length (ch_count c)" "?k + n < 2 ^ 31" "0 < n" and wf: "coalesced xs" "coalesced ys"
    using D(1,2) by (auto simp: rep_def bs blocks_wf_def coalesced_append coalesced_Cons)
  have p: "?p \<noteq> 0" "validate ?p c = Some ?p"
    using index_to_page_nonzero [OF inv] validate_used [OF inv bs] bs by simp_all
  have "unat ?p = unat (ch_base c) + ?k * 32768" using unat_index_to_page [OF inv] bs by simp
  then have i: "unat (page_to_index c ?p) = ?k"
    unfolding page_to_index_def by (subst unat_page_index) (simp_all add: word_le_nat_alt page_number_def)
  then have ix: "page_to_index c ?p = w64 ?k" by (metis w64_unat)
  have e: "rd (ch_count c) ?k = Some (w32 n OR ALLOCATED_FLAG)"
    using D(1) b by (simp add: rep_def bs rd_in)
  have n31: "n < 2 ^ 31" using b by simp
  have "unat (w64 ?k + w64 j) = ?k + j" if "j < n" for j
  proof -
    have "?k + j < 2 ^ 64" using that b(2) by simp
    from unat_w64 [OF this] show ?thesis by simp
  qed
  then have offs: "set (map (\<lambda>j. unat (w64 ?k + w64 j)) [0..<n]) = {?k..<?k + n}"
    by (force simp: image_iff Bex_def intro!: exI [of _ "x - ?k" for x])
  then obtain cs where cs: "wr_all (ch_count c) (map (\<lambda>j. unat (w64 ?k + w64 j)) [0..<n]) 0 = Some cs"
      "length cs = length (ch_count c)"
      "\<forall>i < length (ch_count c). cs ! i = (if i \<in> {?k..<?k + n} then 0 else ch_count c ! i)"
    using wr_all_in [of "map (\<lambda>j. unat (w64 ?k + w64 j)) [0..<n]" "ch_count c" 0] b(1) by auto
  let ?cs = "cs[?k := w32 n]"
  have "unat (?cs ! (?k + j)) < 2 ^ 31" if "j < n" for j
    using cs(2,3) that b unat_w32_31 [OF n31] by (cases "j = 0") auto
  then have "rep (c\<lparr>ch_count := ?cs\<rparr>) (xs @ Hole n # ys)"
    using cs(2,3) b D(1) by (intro rep_recount [of c xs "Used n"]) (auto simp: bs)
  then obtain c' where c': "free_list_insert (w32 ?k) (w32 n) (c\<lparr>ch_count := ?cs\<rparr>) = Some c'"
      "rep c' (join_free xs n ys)" "same_frame (c\<lparr>ch_count := ?cs\<rparr>) c'"
    using wf by (rule rep_insert)
  have "free_page ?p c = Some c'"
    using p D(3) ix i e cs(1,2) b c'(1) or_flag [OF n31] unat_w32_31 [OF n31]
    by (simp add: free_page_def Let_def wr_in ucast_w64)
  moreover have "chunk_inv c' \<and> blocks_of c' = join_free xs n ys"
  proof (rule chunk_invI [OF c'(2)])
    show "blocks_wf (join_free xs n ys)" using D(2) unfolding bs by (rule blocks_wf_join_free)
    show "committed c' s m" if "(s, m) \<in> set (used_blocks 0 (join_free xs n ys))" for s m
      using that D(8) [of s m] c'(3)
      by (auto simp: used_blocks_join_free bs committed_def same_frame_def)
  qed (use c'(3) D(3-7) bs in \<open>auto simp: same_frame_def\<close>)
  ultimately show ?thesis using c'(3) by (auto simp: same_frame_def)
qed

section \<open>Construction\<close>

lemma unat_pages_for:
  assumes "unat sz + 32767 < 2 ^ 64"
  shows "unat (pages_for sz) = (unat sz + 32767) div 32768"
proof -
  have "sz + NORMAL_PAGE_SIZE - 1 = w64 (unat sz + 32767)" by (simp add: NORMAL_PAGE_SIZE_def)
  then have "unat (sz + NORMAL_PAGE_SIZE - 1) = unat sz + 32767"
    using unat_w64 [OF assms] by (simp only:)
  then show ?thesis by (simp add: pages_for_def unat_div NORMAL_PAGE_SIZE_def)
qed

lemma rep_initial:
  assumes "0 < n" "n < 2 ^ 31"
  shows "rep \<lparr>ch_base = b, ch_reserved_size = rs, ch_total_pages = t, ch_count = (replicate n 0)[0 := w32 n],
     ch_free_prev = replicate n INDEX_NULL, ch_free_next = replicate n INDEX_NULL, ch_free_head = 0,
     ch_commit = cm\<rparr> [Free n]"
  using assms by (simp add: rep_def nth_list_update)

lemma Chunk_Some:
  assumes doc: "mmap_documented sys" and sz: "0 < unat sz" "unat sz \<le> (2 ^ 31 - 1) * 32768"
    and base: "fst (woomem_os_reserve_memory tgt sys (pages_for sz * NORMAL_PAGE_SIZE) os) \<noteq> 0"
  shows "\<exists>c os'. Chunk tgt sys sz os = Some (c, os') \<and> chunk_inv c \<and> \<not> is_init_failed c \<and>
    blocks_of c = [Free ((unat sz + 32767) div 32768)] \<and> unat (ch_total_pages c) = (unat sz + 32767) div 32768"
proof -
  let ?n = "(unat sz + 32767) div 32768" and ?t = "pages_for sz"
  obtain b os' where r: "woomem_os_reserve_memory tgt sys (?t * NORMAL_PAGE_SIZE) os = (b, os')" "b \<noteq> 0"
    using base by (metis fst_conv prod.collapse)
  have t: "unat ?t = ?n" using sz by (intro unat_pages_for) simp
  have n: "0 < ?n" "?n < 2 ^ 31" "?n * 32768 < 2 ^ 64" using sz by (simp_all add: div_less_iff_less_mult)
  have tw: "?t = w64 ?n" using t by (metis w64_unat)
  have tn: "?t * NORMAL_PAGE_SIZE = w64 (?n * 32768)" by (simp add: tw NORMAL_PAGE_SIZE_def)
  have "unat (?t * NORMAL_PAGE_SIZE) = ?n * 32768" unfolding tn by (rule unat_w64 [OF n(3)])
  with reserve_memory_documented [OF doc r(1,2)] have fits: "unat b + ?n * 32768 < 2 ^ 64" by simp
  have u: "(ucast ?t :: u32) = w32 ?n" unfolding tw using n(2) by (intro ucast_w64) simp
  define c where "c = \<lparr>ch_base = b, ch_reserved_size = ?t * NORMAL_PAGE_SIZE, ch_total_pages = ?t,
    ch_count = (replicate ?n 0)[0 := w32 ?n], ch_free_prev = replicate ?n INDEX_NULL,
    ch_free_next = replicate ?n INDEX_NULL, ch_free_head = 0, ch_commit = replicate ?n 0\<rparr>"
  have "sz \<noteq> 0" using sz(1) by auto
  then have "Chunk tgt sys sz os = Some (c, os')"
    unfolding Chunk_def pages_for_def [symmetric] Let_def r(1) prod.case t u using r(2) n(1)
    by (simp add: wr_in c_def)
  moreover have "chunk_inv c \<and> blocks_of c = [Free ?n]"
  proof (rule chunk_invI)
    show "rep c [Free ?n]" unfolding c_def by (rule rep_initial [OF n(1,2)])
    show "blocks_wf [Free ?n]" using n(1) by (simp add: blocks_wf_def)
  qed (use r(2) t fits in \<open>simp_all add: c_def\<close>)
  moreover have "\<not> is_init_failed c" using r(2) by (simp add: is_init_failed_def c_def)
  ultimately show ?thesis using t by (auto simp: c_def)
qed

end
