(* ===== verification/Woomem_Chunk_Props.thy ===== *)
theory Woomem_Chunk_Props
  imports Woomem_Chunk_Refine
begin

text \<open>
  What a chunk promises its clients: the interface \<open>page_allocator\<close> (operations, the set of
  allocated address ranges and the laws that tie them), its consequences, the interpretation on
  the operations of \<open>Woomem_Chunk\<close>, and the properties of the chunk.
\<close>

section \<open>The interface of a page allocator\<close>

text \<open>An allocated range: its first address and its number of 32 KiB pages.\<close>

type_synonym page_range = "addr \<times> nat"

definition range_bytes :: "page_range \<Rightarrow> nat set" where
  "range_bytes r = {unat (fst r)..<unat (fst r) + snd r * 32768}"

locale page_allocator =
  fixes inv :: "'s \<Rightarrow> bool"
    and ranges :: "'s \<Rightarrow> page_range set"
    and alloc :: "nat \<Rightarrow> 's \<Rightarrow> (addr \<times> 's) option"
    and release :: "addr \<Rightarrow> 's \<Rightarrow> 's option"
    and lookup :: "addr \<Rightarrow> 's \<Rightarrow> addr option"
  assumes ranges_disjoint: "inv s \<Longrightarrow> r \<in> ranges s \<Longrightarrow> r' \<in> ranges s \<Longrightarrow> r \<noteq> r' \<Longrightarrow>
      range_bytes r \<inter> range_bytes r' = {}"
    and ranges_nonnull: "inv s \<Longrightarrow> (p, n) \<in> ranges s \<Longrightarrow> p \<noteq> 0 \<and> 0 < n"
    and alloc_law: "inv s \<Longrightarrow> 0 < n \<Longrightarrow> n < 2 ^ 32 \<Longrightarrow>
      alloc n s = Some (0, s) \<or>
      (\<exists>p s'. alloc n s = Some (p, s') \<and> p \<noteq> 0 \<and> inv s' \<and> ranges s' = insert (p, n) (ranges s) \<and>
         (p, n) \<notin> ranges s)"
    and release_law: "inv s \<Longrightarrow> (p, n) \<in> ranges s \<Longrightarrow>
      \<exists>s'. release p s = Some s' \<and> inv s' \<and> ranges s' = ranges s - {(p, n)}"
    and lookup_hit: "inv s \<Longrightarrow> (p, n) \<in> ranges s \<Longrightarrow> unat a \<in> range_bytes (p, n) \<Longrightarrow>
      lookup a s = Some p"
    and lookup_miss: "inv s \<Longrightarrow> (\<And>r. r \<in> ranges s \<Longrightarrow> unat a \<notin> range_bytes r) \<Longrightarrow> lookup a s = Some 0"
begin

lemma alloc_fresh:
  assumes "inv s" "0 < n" "n < 2 ^ 32" "alloc n s = Some (p, s')" "p \<noteq> 0" "r \<in> ranges s"
  shows "range_bytes (p, n) \<inter> range_bytes r = {}"
proof -
  have "inv s'" "ranges s' = insert (p, n) (ranges s)" "(p, n) \<notin> ranges s"
    using alloc_law [OF assms(1-3)] assms(4,5) by auto
  then show ?thesis using ranges_disjoint [of s' "(p, n)" r] assms(6) by auto
qed

lemma alloc_lookup:
  assumes "inv s" "0 < n" "n < 2 ^ 32" "alloc n s = Some (p, s')" "p \<noteq> 0"
    and "unat a \<in> range_bytes (p, n)"
  shows "lookup a s' = Some p"
proof -
  have "inv s'" "(p, n) \<in> ranges s'" using alloc_law [OF assms(1-3)] assms(4,5) by auto
  then show ?thesis using assms(6) by (rule lookup_hit)
qed

text \<open>An allocation does not change what other addresses resolve to.\<close>

lemma alloc_lookup_other:
  assumes "inv s" "0 < n" "n < 2 ^ 32" "alloc n s = Some (p, s')" "p \<noteq> 0"
    and "unat a \<notin> range_bytes (p, n)"
  shows "lookup a s' = lookup a s"
proof -
  have s': "inv s'" "ranges s' = insert (p, n) (ranges s)"
    using alloc_law [OF assms(1-3)] assms(4,5) by auto
  show ?thesis
  proof (cases "\<exists>r \<in> ranges s. unat a \<in> range_bytes r")
    case True
    then obtain q m where "(q, m) \<in> ranges s" "unat a \<in> range_bytes (q, m)" by auto
    with s' assms(1) show ?thesis by (metis insertI2 lookup_hit)
  next
    case False
    then have "lookup a s' = Some 0" using s' assms(6) by (intro lookup_miss) auto
    moreover have "lookup a s = Some 0" using False assms(1) by (intro lookup_miss) auto
    ultimately show ?thesis by simp
  qed
qed

lemma release_lookup:
  assumes "inv s" "(p, n) \<in> ranges s" "release p s = Some s'" "unat a \<in> range_bytes (p, n)"
  shows "lookup a s' = Some 0"
proof -
  have s': "inv s'" "ranges s' = ranges s - {(p, n)}" using release_law [OF assms(1,2)] assms(3) by auto
  have "unat a \<notin> range_bytes r" if "r \<in> ranges s'" for r
    using that s' assms ranges_disjoint [OF assms(1,2), of r] by auto
  with s'(1) show ?thesis by (rule lookup_miss)
qed

end

section \<open>A chunk is a page allocator\<close>

definition chunk_ranges :: "chunk \<Rightarrow> page_range set" where
  "chunk_ranges c = (\<lambda>(s, n). (index_to_page c (w64 s), n)) ` set (used_blocks 0 (blocks_of c))"

definition free_page_state :: "addr \<Rightarrow> 'os chunk_state \<Rightarrow> 'os chunk_state option" where
  "free_page_state page s = free_page page (chunk_of s) \<bind> (\<lambda>c. Some (s\<lparr>chunk_of := c\<rparr>))"

lemma chunk_rangesE:
  assumes "chunk_inv c" "(p, n) \<in> chunk_ranges c"
  obtains s where "(s, n) \<in> set (used_blocks 0 (blocks_of c))" "p = index_to_page c (w64 s)"
    "unat p = unat (ch_base c) + s * 32768" "s + n \<le> bsizes (blocks_of c)" "0 < n"
proof -
  obtain s where s: "(s, n) \<in> set (used_blocks 0 (blocks_of c))" "p = index_to_page c (w64 s)"
    using assms(2) by (auto simp: chunk_ranges_def)
  have r: "s + n \<le> bsizes (blocks_of c)" "Used n \<in> set (blocks_of c)"
    using used_blocks_range [OF s(1)] by auto
  have "0 < n" using chunk_invD(10) [OF assms(1)] r(2) by force
  with s r unat_index_to_page [OF assms(1), of s] show thesis by (intro that [of s]) auto
qed

lemma chunk_ranges_cong:
  "ch_base c' = ch_base c \<Longrightarrow>
     (\<lambda>(s, n). (index_to_page c' (w64 s), n)) ` A = (\<lambda>(s, n). (index_to_page c (w64 s), n)) ` A"
  by (simp add: index_to_page_def)

lemma index_to_page_inj:
  assumes "chunk_inv c" "s \<le> bsizes (blocks_of c)" "t \<le> bsizes (blocks_of c)"
  shows "index_to_page c (w64 s) = index_to_page c (w64 t) \<longleftrightarrow> s = t"
  using unat_index_to_page [OF assms(1,2)] unat_index_to_page [OF assms(1,3)]
  by (metis add_left_cancel mult_cancel2 zero_neq_numeral)

lemma chunk_ranges_disjoint:
  assumes "chunk_inv c" "a \<in> chunk_ranges c" "b \<in> chunk_ranges c" "a \<noteq> b"
  shows "range_bytes a \<inter> range_bytes b = {}"
proof -
  obtain p n where a: "a = (p, n)" by (cases a)
  obtain q m where b: "b = (q, m)" by (cases b)
  obtain s where s: "(s, n) \<in> set (used_blocks 0 (blocks_of c))" "p = index_to_page c (w64 s)"
      "unat p = unat (ch_base c) + s * 32768"
    using assms(1,2) unfolding a by (rule chunk_rangesE)
  obtain t where t: "(t, m) \<in> set (used_blocks 0 (blocks_of c))" "q = index_to_page c (w64 t)"
      "unat q = unat (ch_base c) + t * 32768"
    using assms(1,3) unfolding b by (rule chunk_rangesE)
  have "s \<noteq> t"
    using used_blocks_inj [OF chunk_invD(10) [OF assms(1)] s(1), of m] s t assms(4) a b by auto
  with used_blocks_disjoint [OF s(1) t(1)] s(3) t(3) show ?thesis
    by (auto simp: range_bytes_def a b disjoint_iff)
qed

lemma chunk_alloc_law:
  assumes inv: "chunk_inv (chunk_of s)" and n: "0 < n" "n < 2 ^ 32"
  shows "allocate_pages tgt sys (w32 n) s = Some (0, s) \<or>
    (\<exists>p s'. allocate_pages tgt sys (w32 n) s = Some (p, s') \<and> p \<noteq> 0 \<and> chunk_inv (chunk_of s') \<and>
       chunk_ranges (chunk_of s') = insert (p, n) (chunk_ranges (chunk_of s)) \<and>
       (p, n) \<notin> chunk_ranges (chunk_of s))"
proof (cases "spec_alloc n (blocks_of (chunk_of s))")
  case None
  then have "first_fit n (blocks_of (chunk_of s)) = None"
    by (auto simp: spec_alloc_def split: option.splits)
  with inv n have "allocate_pages tgt sys (w32 n) s = Some (0, s)"
    by (intro allocate_pages_None) (simp_all add: unat_w32)
  then show ?thesis ..
next
  case (Some kb)
  obtain k bs' where kb: "kb = (k, bs')" by (cases kb)
  let ?c = "chunk_of s" and ?p = "index_to_page (chunk_of s) (w64 k)"
  have al: "spec_alloc n (blocks_of ?c) = Some (k, bs')" using Some kb by simp
  obtain s' where s': "allocate_pages tgt sys (w32 n) s = Some (?p, s')" "chunk_inv (chunk_of s')"
      "blocks_of (chunk_of s') = bs'" "ch_base (chunk_of s') = ch_base ?c"
    using allocate_pages_Some [OF inv, of "w32 n" k bs' tgt sys] al n by (auto simp: unat_w32)
  have used: "set (used_blocks 0 bs') = insert (k, n) (set (used_blocks 0 (blocks_of ?c)))"
    using al by (rule spec_alloc_used)
  obtain xs m ys where f: "blocks_of ?c = xs @ Free m # ys" and k: "k = bsizes xs" and m: "n \<le> m"
    using al first_fit_Some by (auto simp: spec_alloc_def split: option.splits) blast
  have p0: "?p \<noteq> 0" using inv f k by (intro index_to_page_nonzero) auto
  have fresh: "(?p, n) \<notin> chunk_ranges ?c"
  proof
    assume "(?p, n) \<in> chunk_ranges ?c"
    then obtain t where t: "(t, n) \<in> set (used_blocks 0 (blocks_of ?c))" "?p = index_to_page ?c (w64 t)"
        "t + n \<le> bsizes (blocks_of ?c)" using inv by (auto elim: chunk_rangesE)
    then have "t = k" using index_to_page_inj [OF inv, of k t] f k by simp
    with t(1) n(1) m show False by (auto simp: f k dest!: used_blocks_range)
  qed
  have "chunk_ranges (chunk_of s') = insert (?p, n) (chunk_ranges ?c)"
    unfolding chunk_ranges_def s'(3) used chunk_ranges_cong [OF s'(4)] by simp
  with s' p0 fresh show ?thesis by blast
qed

lemma used_blocks_single:
  assumes "\<forall>b \<in> set (xs @ Used n # ys). 0 < bsize b"
  shows "set (used_blocks 0 (join_free xs n ys)) = set (used_blocks 0 (xs @ Used n # ys)) - {(bsizes xs, n)}"
  using assms by (auto simp: used_blocks_join_free dest!: used_blocks_range)

lemma chunk_release_law:
  assumes inv: "chunk_inv c" and r: "(p, n) \<in> chunk_ranges c"
  shows "\<exists>c'. free_page p c = Some c' \<and> chunk_inv c' \<and> chunk_ranges c' = chunk_ranges c - {(p, n)}"
proof -
  obtain s where s: "(s, n) \<in> set (used_blocks 0 (blocks_of c))" "p = index_to_page c (w64 s)"
      "s + n \<le> bsizes (blocks_of c)"
    using inv r by (rule chunk_rangesE)
  then obtain xs ys where bs: "blocks_of c = xs @ Used n # ys" and sx: "s = bsizes xs"
    by (auto simp: used_blocks_conv)
  obtain c' where c': "free_page p c = Some c'" "chunk_inv c'" "blocks_of c' = join_free xs n ys"
      "ch_base c' = ch_base c"
    using free_page_Some [OF inv bs] s(2) sx by auto
  let ?f = "\<lambda>(s, n). (index_to_page c (w64 s), n)"
  have inj: "inj_on ?f (set (used_blocks 0 (blocks_of c)))"
    using index_to_page_inj [OF inv] by (fastforce simp: inj_on_def dest: used_blocks_range)
  have "set (used_blocks 0 (blocks_of c')) = set (used_blocks 0 (blocks_of c)) - {(s, n)}"
    unfolding c'(3) bs sx using chunk_invD(10) [OF inv] bs by (intro used_blocks_single) simp
  then have "chunk_ranges c' = ?f ` (set (used_blocks 0 (blocks_of c)) - {(s, n)})"
    unfolding chunk_ranges_def chunk_ranges_cong [OF c'(4)] by simp
  also have "\<dots> = chunk_ranges c - {(p, n)}"
    using inj s(1) by (subst inj_on_image_set_diff [OF inj]) (auto simp: chunk_ranges_def s(2))
  finally show ?thesis using c' by blast
qed

lemma range_bytes_page_number:
  assumes "chunk_inv c" "unat p = unat (ch_base c) + s * 32768" "s + n \<le> bsizes (blocks_of c)"
  shows "unat a \<in> range_bytes (p, n) \<longleftrightarrow> in_chunk c a \<and> s \<le> page_number c a \<and> page_number c a < s + n"
proof -
  let ?B = "unat (ch_base c)"
  have t: "unat (ch_total_pages c) = bsizes (blocks_of c)" by (rule chunk_invD(4) [OF assms(1)])
  have 1: "s * 32768 + n * 32768 \<le> bsizes (blocks_of c) * 32768"
    using assms(3) by (metis add_mult_distrib mult_le_mono1)
  have 2: "s \<le> (unat a - ?B) div 32768 \<longleftrightarrow> s * 32768 \<le> unat a - ?B"
    by (rule less_eq_div_iff_mult_less_eq) simp
  have 3: "(unat a - ?B) div 32768 < s + n \<longleftrightarrow> unat a - ?B < s * 32768 + n * 32768"
    by (simp add: div_less_iff_less_mult distrib_right)
  show ?thesis
    unfolding range_bytes_def in_chunk_def page_number_def t 2 3 using 1 assms(2) by auto
qed

lemma chunk_lookup_hit:
  assumes "chunk_inv c" "(p, n) \<in> chunk_ranges c" "unat a \<in> range_bytes (p, n)"
  shows "validate a c = Some p"
proof -
  obtain s where s: "(s, n) \<in> set (used_blocks 0 (blocks_of c))" "p = index_to_page c (w64 s)"
      "unat p = unat (ch_base c) + s * 32768" "s + n \<le> bsizes (blocks_of c)"
    using assms(1,2) by (rule chunk_rangesE)
  then obtain xs ys where "blocks_of c = xs @ Used n # ys" "s = bsizes xs"
    by (auto simp: used_blocks_conv)
  with s assms(3) range_bytes_page_number [OF assms(1) s(3,4), of a]
    owner_Used [OF chunk_invD(10) [OF assms(1)], of xs n ys "page_number c a"]
  show ?thesis by (simp add: validate_eq [OF assms(1)])
qed

lemma chunk_lookup_miss:
  assumes inv: "chunk_inv c" and miss: "\<And>r. r \<in> chunk_ranges c \<Longrightarrow> unat a \<notin> range_bytes r"
  shows "validate a c = Some 0"
proof (cases "in_chunk c a")
  case False
  then show ?thesis by (simp add: validate_eq [OF inv])
next
  case True
  have "owner (blocks_of c) (page_number c a) = None"
  proof (rule ccontr)
    assume "owner (blocks_of c) (page_number c a) \<noteq> None"
    then obtain s n where sn: "(s, n) \<in> set (used_blocks 0 (blocks_of c))"
        "s \<le> page_number c a" "page_number c a < s + n"
      by (auto simp: owner_def find_None_iff)
    let ?p = "index_to_page c (w64 s)"
    have "s + n \<le> bsizes (blocks_of c)" using used_blocks_range [OF sn(1)] by simp
    moreover from this have "unat ?p = unat (ch_base c) + s * 32768" using unat_index_to_page [OF inv, of s] by simp
    ultimately have "unat a \<in> range_bytes (?p, n)"
      using range_bytes_page_number [OF inv, of ?p s n a] True sn by simp
    moreover have "(?p, n) \<in> chunk_ranges c" using sn(1) by (force simp: chunk_ranges_def)
    ultimately show False using miss by blast
  qed
  then show ?thesis by (simp add: validate_eq [OF inv])
qed

interpretation chunk: page_allocator
  "\<lambda>s. chunk_inv (chunk_of s)" "\<lambda>s. chunk_ranges (chunk_of s)"
  "\<lambda>n. allocate_pages tgt sys (w32 n)" free_page_state "\<lambda>a s. validate a (chunk_of s)" for tgt sys
proof (unfold_locales, goal_cases)
  case (1 s r r')
  then show ?case by (rule chunk_ranges_disjoint)
next
  case (2 s p n)
  then show ?case using index_to_page_nonzero by (metis add_leD1 chunk_rangesE)
next
  case (3 s n)
  then show ?case by (rule chunk_alloc_law)
next
  case (4 s p n)
  then show ?case using chunk_release_law [OF 4] by (auto simp: free_page_state_def)
next
  case (5 s p n a)
  then show ?case by (rule chunk_lookup_hit)
next
  case (6 s a)
  then show ?case by (rule chunk_lookup_miss)
qed

section \<open>A concrete chunk for the witnesses\<close>

definition demo_state :: "addr list chunk_state" where
  "demo_state = \<lparr>chunk_of = fst (the (Chunk POSIX demo_sys 0x20000 [])), mem_of = blank_mem, os_of = []\<rparr>"

lemma demo_state_inv:
  "chunk_inv (chunk_of demo_state)" "blocks_of (chunk_of demo_state) = [Free 4]"
  using Chunk_Some [OF demo_sys_documented, of "0x20000" POSIX "[]"]
  by (auto simp: demo_state_def woomem_os_reserve_memory_def demo_sys_def demo_base_def MAP_FAILED_def
    pages_for_def NORMAL_PAGE_SIZE_def)

section \<open>Single pages and huge pages\<close>

lemma spec_alloc_None: "spec_alloc r bs = None \<longleftrightarrow> (\<forall>b \<in> set bs. is_Free b \<longrightarrow> bsize b < r)"
  by (auto simp: spec_alloc_def first_fit_None [symmetric] split: option.splits)

lemma allocate_pages_result:
  assumes "chunk_inv (chunk_of s)" "0 < unat r"
  obtains (full) "allocate_pages tgt sys r s = Some (0, s)"
      "spec_alloc (unat r) (blocks_of (chunk_of s)) = None"
    | (got) p s' bs' k where "allocate_pages tgt sys r s = Some (p, s')" "p \<noteq> 0"
      "spec_alloc (unat r) (blocks_of (chunk_of s)) = Some (k, bs')"
      "p = index_to_page (chunk_of s) (w64 k)"
      "chunk_inv (chunk_of s')" "blocks_of (chunk_of s') = bs'"
      "ch_base (chunk_of s') = ch_base (chunk_of s)"
      "ch_total_pages (chunk_of s') = ch_total_pages (chunk_of s)"
      "chunk_ranges (chunk_of s') = insert (p, unat r) (chunk_ranges (chunk_of s))"
      "mem_of s' = upd_page p (\<lambda>h. h\<lparr>m_page_just_allocated := True\<rparr>) (mem_of s)"
proof (cases "spec_alloc (unat r) (blocks_of (chunk_of s))")
  case None
  then have "first_fit (unat r) (blocks_of (chunk_of s)) = None"
    by (auto simp: spec_alloc_def split: option.splits)
  with assms(1) None show thesis by (intro full allocate_pages_None)
next
  case (Some kb)
  obtain k bs' where kb: "kb = (k, bs')" by (cases kb)
  let ?p = "index_to_page (chunk_of s) (w64 k)"
  have al: "spec_alloc (unat r) (blocks_of (chunk_of s)) = Some (k, bs')" using Some kb by simp
  then have "k \<le> bsizes (blocks_of (chunk_of s))"
    by (auto simp: spec_alloc_def dest!: first_fit_Some split: option.splits)
  then have p: "?p \<noteq> 0" using index_to_page_nonzero [OF assms(1)] by blast
  obtain s' where s': "allocate_pages tgt sys r s = Some (?p, s')" "chunk_inv (chunk_of s')"
      "blocks_of (chunk_of s') = bs'" "ch_base (chunk_of s') = ch_base (chunk_of s)"
      "ch_total_pages (chunk_of s') = ch_total_pages (chunk_of s)"
      "mem_of s' = upd_page ?p (\<lambda>h. h\<lparr>m_page_just_allocated := True\<rparr>) (mem_of s)"
    using allocate_pages_Some [OF assms al, of tgt sys] by blast
  moreover have "chunk_ranges (chunk_of s') = insert (?p, unat r) (chunk_ranges (chunk_of s))"
    using chunk_alloc_law [OF assms(1), of "unat r" tgt sys] assms(2) unat_u32_less [of r] s'(1) p by auto
  ultimately show thesis using p al refl [of ?p] by (intro got)
qed

lemma allocate_page_result:
  assumes "chunk_inv (chunk_of s)"
  shows "\<exists>p s'. allocate_page tgt sys s = Some (p, s') \<and> chunk_inv (chunk_of s') \<and>
    ch_total_pages (chunk_of s') = ch_total_pages (chunk_of s) \<and>
    (if p = 0 then s' = s \<and> (\<forall>b \<in> set (blocks_of (chunk_of s)). \<not> is_Free b)
     else chunk_ranges (chunk_of s') = insert (p, 1) (chunk_ranges (chunk_of s)) \<and>
       m_page_count_if_huge (page_at (mem_of s') p) = 0 \<and> m_page_just_allocated (page_at (mem_of s') p))"
proof -
  have pos: "\<forall>b \<in> set (blocks_of (chunk_of s)). 0 < bsize b" by (rule chunk_invD(10) [OF assms])
  show ?thesis
    using assms
    by (rule allocate_pages_result [of s 1 tgt sys])
       (use assms pos in \<open>auto simp: allocate_page_def spec_alloc_None upd_page_def\<close>)
qed

lemma allocate_huge_page_result:
  assumes inv: "chunk_inv (chunk_of s)" and sz: "0 < unat sz" "unat sz + 32767 < 2 ^ 64"
  shows "\<exists>p s'. allocate_huge_page tgt sys sz s = Some (p, s') \<and> chunk_inv (chunk_of s') \<and>
    ch_total_pages (chunk_of s') = ch_total_pages (chunk_of s) \<and>
    (if p = 0 then s' = s \<and>
       (\<forall>b \<in> set (blocks_of (chunk_of s)). is_Free b \<longrightarrow> bsize b < (unat sz + 32767) div 32768)
     else chunk_ranges (chunk_of s') = insert (p, (unat sz + 32767) div 32768) (chunk_ranges (chunk_of s)) \<and>
       m_page_count_if_huge (page_at (mem_of s') p) = pages_for sz \<and>
       m_page_just_allocated (page_at (mem_of s') p))"
proof -
  let ?n = "(unat sz + 32767) div 32768" and ?bs = "blocks_of (chunk_of s)"
  have n: "unat (pages_for sz) = ?n" "0 < ?n" using unat_pages_for [OF sz(2)] sz(1) by simp_all
  note D = chunk_invD [OF inv]
  have nz: "sz \<noteq> 0" using sz(1) by auto
  show ?thesis
  proof (cases "ch_total_pages (chunk_of s) < pages_for sz")
    case True
    then have "bsizes ?bs < ?n" using n(1) D(4) by (simp add: word_less_nat_alt)
    moreover have "bsize b \<le> bsizes ?bs" if "b \<in> set ?bs" for b
      using that by (auto simp: bsizes_def intro: member_le_sum_list)
    ultimately have "\<forall>b \<in> set ?bs. bsize b < ?n" by fastforce
    with True nz D(3) inv show ?thesis by (simp add: allocate_huge_page_def)
  next
    case False
    then have "?n < 2 ^ 31" using n(1) D(4,9) by (simp add: word_less_nat_alt)
    then have "(ucast (w64 ?n) :: u32) = w32 ?n" "unat (w32 ?n) = ?n"
      by (simp_all add: ucast_w64 unat_w32_31)
    then have u: "unat (ucast (pages_for sz) :: u32) = ?n" using n(1) by (metis w64_unat)
    then have "0 < unat (ucast (pages_for sz) :: u32)" using n(2) by simp
    with inv show ?thesis
      by (rule allocate_pages_result [of s "ucast (pages_for sz)" tgt sys])
         (use inv False nz D(3) u in \<open>auto simp: allocate_huge_page_def spec_alloc_None upd_page_def\<close>)
  qed
qed

section \<open>Runs of a chunk\<close>

text \<open>
  A client creates a chunk and then calls its operations in any order; it frees only what is
  allocated. \<open>chunk_created\<close> and \<open>chunk_step\<close> are the initial states and the steps of such a
  client, on a kernel with the documented behaviour and a chunk below the size at which a block
  size would reach the flag bit.
\<close>

definition chunk_size_ok :: "u64 \<Rightarrow> bool" where
  "chunk_size_ok sz \<longleftrightarrow> 0 < unat sz \<and> unat sz \<le> (2 ^ 31 - 1) * 32768"

inductive chunk_created :: "target \<Rightarrow> 'os syscalls \<Rightarrow> u64 \<Rightarrow> 'os chunk_state \<Rightarrow> bool"
  for tgt :: target and sys :: "'os syscalls" and sz :: u64 where
  "mmap_documented sys \<Longrightarrow> chunk_size_ok sz \<Longrightarrow> Chunk tgt sys sz os = Some (chunk_of s, os_of s) \<Longrightarrow> \<not> is_init_failed (chunk_of s) \<Longrightarrow>
     chunk_created tgt sys sz s"

inductive chunk_step :: "target \<Rightarrow> 'os syscalls \<Rightarrow> 'os chunk_state \<Rightarrow> 'os chunk_state \<Rightarrow> bool"
  for tgt :: target and sys :: "'os syscalls" where
  step_page: "allocate_page tgt sys s = Some (p, s') \<Longrightarrow> chunk_step tgt sys s s'"
| step_huge: "0 < unat sz \<Longrightarrow> unat sz + 32767 < 2 ^ 64 \<Longrightarrow>
     allocate_huge_page tgt sys sz s = Some (p, s') \<Longrightarrow> chunk_step tgt sys s s'"
| step_free: "(p, n) \<in> chunk_ranges (chunk_of s) \<Longrightarrow> free_page p (chunk_of s) = Some c \<Longrightarrow>
     chunk_step tgt sys s (s\<lparr>chunk_of := c\<rparr>)"

definition chunk_run_inv :: "u64 \<Rightarrow> 'os chunk_state \<Rightarrow> bool" where
  "chunk_run_inv sz s \<longleftrightarrow> chunk_inv (chunk_of s) \<and> unat (ch_total_pages (chunk_of s)) = (unat sz + 32767) div 32768"

lemma chunk_created_inv:
  assumes "chunk_created tgt sys sz s"
  shows "chunk_run_inv sz s"
  using assms
proof cases
  case (1 os)
  have nz: "sz \<noteq> 0" using 1(2) by (auto simp: chunk_size_ok_def)
  have "fst (woomem_os_reserve_memory tgt sys (pages_for sz * NORMAL_PAGE_SIZE) os) \<noteq> 0"
  proof
    assume "fst (woomem_os_reserve_memory tgt sys (pages_for sz * NORMAL_PAGE_SIZE) os) = 0"
    then have "chunk_of s = null_chunk"
      using 1(3) nz by (auto simp: Chunk_def pages_for_def Let_def split: prod.splits)
    with 1(4) show False by (simp add: is_init_failed_def null_chunk_def)
  qed
  with Chunk_Some [OF 1(1), of sz tgt os] 1(2,3) show ?thesis
    by (auto simp: chunk_size_ok_def chunk_run_inv_def)
qed

lemma chunk_step_inv:
  assumes "chunk_run_inv sz s" "chunk_step tgt sys s s'"
  shows "chunk_run_inv sz s'"
  using assms(2)
proof cases
  case (step_page p)
  with allocate_page_result [of s tgt sys] assms(1) show ?thesis by (auto simp: chunk_run_inv_def)
next
  case (step_huge n p)
  with allocate_huge_page_result [of s n tgt sys] assms(1) show ?thesis by (auto simp: chunk_run_inv_def)
next
  case (step_free p n c)
  have inv: "chunk_inv (chunk_of s)" using assms(1) by (simp add: chunk_run_inv_def)
  obtain k where "(k, n) \<in> set (used_blocks 0 (blocks_of (chunk_of s)))" "p = index_to_page (chunk_of s) (w64 k)"
    using inv step_free(2) by (rule chunk_rangesE)
  then obtain xs ys where "blocks_of (chunk_of s) = xs @ Used n # ys" "k = bsizes xs"
    by (auto simp: used_blocks_conv)
  with free_page_Some [OF inv, of xs n ys] step_free assms(1) \<open>p = _\<close> show ?thesis
    by (auto simp: chunk_run_inv_def)
qed

interpretation chunk_run: inductive_invariant
  "chunk_created tgt sys sz" "chunk_step tgt sys" "chunk_run_inv sz" for tgt sys sz
  by unfold_locales (auto intro: chunk_created_inv chunk_step_inv)

section \<open>Properties\<close>

text \<open>C7: Allocation refines the first-fit specification. On a chunk that satisfies the invariant,
  \<open>allocate_pages\<close> always returns; it returns the null page and changes nothing exactly when no
  free block is large enough, and otherwise it returns the address of the first one that is, keeps
  the invariant, and turns the block sequence into the specified one.\<close>

theorem allocate_pages_refines:
  assumes "chunk_inv (chunk_of s)" and "0 < unat r"
  shows "case spec_alloc (unat r) (blocks_of (chunk_of s)) of
      None \<Rightarrow> allocate_pages tgt sys r s = Some (0, s)
    | Some (k, bs') \<Rightarrow>
        \<exists>s'. allocate_pages tgt sys r s = Some (index_to_page (chunk_of s) (w64 k), s') \<and>
          index_to_page (chunk_of s) (w64 k) \<noteq> 0 \<and>
          chunk_inv (chunk_of s') \<and> blocks_of (chunk_of s') = bs'"
  using assms by (rule allocate_pages_result [of s r tgt sys]) auto

theorem allocate_pages_refines_witness:
  "\<exists>s'. allocate_pages POSIX demo_sys 2 demo_state =
      Some (index_to_page (chunk_of demo_state) (w64 0), s') \<and>
     index_to_page (chunk_of demo_state) (w64 0) \<noteq> 0 \<and>
     chunk_inv (chunk_of s') \<and> blocks_of (chunk_of s') = [Used 2, Free 2]"
  using allocate_pages_refines [OF demo_state_inv(1), of 2 POSIX demo_sys]
  by (simp add: demo_state_inv(2) spec_alloc_def)

text \<open>C8: Freeing refines the coalescing specification. On a chunk that satisfies the invariant,
  \<open>free_page\<close> on the first page of an allocated block returns, keeps the invariant, and turns that
  block into a free one joined with its free neighbours on both sides.\<close>

theorem free_page_refines:
  assumes "chunk_inv c" and "spec_free k (blocks_of c) = Some bs'"
  shows "\<exists>c'. free_page (index_to_page c (w64 k)) c = Some c' \<and> chunk_inv c' \<and> blocks_of c' = bs'"
proof -
  obtain xs n ys where "blocks_of c = xs @ Used n # ys" "k = bsizes xs" "bs' = join_free xs n ys"
    using assms(2) unfolding spec_free_Some [OF chunk_invD(10) [OF assms(1)]] by blast
  with free_page_Some [OF assms(1)] show ?thesis by blast
qed

text \<open>A chunk in which two pages have been allocated out of four.\<close>

definition demo_used :: "addr list chunk_state" where
  "demo_used = snd (the (allocate_pages POSIX demo_sys 2 demo_state))"

lemma demo_used_inv:
  "chunk_inv (chunk_of demo_used)" "blocks_of (chunk_of demo_used) = [Used 2, Free 2]"
  "ch_base (chunk_of demo_used) = 0x100000" "ch_total_pages (chunk_of demo_used) = 4"
proof -
  have s: "spec_alloc 2 (blocks_of (chunk_of demo_state)) = Some (0, [Used 2, Free 2])"
    by (simp add: demo_state_inv(2) spec_alloc_def)
  have b: "ch_base (chunk_of demo_state) = 0x100000" "ch_total_pages (chunk_of demo_state) = 4"
    by code_simp+
  show "chunk_inv (chunk_of demo_used)" "blocks_of (chunk_of demo_used) = [Used 2, Free 2]"
    "ch_base (chunk_of demo_used) = 0x100000" "ch_total_pages (chunk_of demo_used) = 4"
    using allocate_pages_Some [OF demo_state_inv(1), of 2 0 "[Used 2, Free 2]" POSIX demo_sys] s b
    by (auto simp: demo_used_def)
qed

theorem free_page_refines_witness:
  "\<exists>c'. free_page (index_to_page (chunk_of demo_used) (w64 0)) (chunk_of demo_used) = Some c' \<and>
     chunk_inv c' \<and> blocks_of c' = [Free 4]"
  using free_page_refines [OF demo_used_inv(1), of 0 "[Free 4]"]
  by (simp add: demo_used_inv(2) spec_free_def join_free_def)

text \<open>C12: Lookup is exact. On a chunk that satisfies the invariant, \<open>validate\<close> always returns: a
  non-null answer is the first page of the one allocated range that contains the address, and the
  answer is null exactly when no allocated range contains it.\<close>

theorem validate_exact:
  assumes "chunk_inv c"
  shows "validate a c = Some p \<longleftrightarrow>
    (if p = 0 then \<forall>r \<in> chunk_ranges c. unat a \<notin> range_bytes r
     else \<exists>n. (p, n) \<in> chunk_ranges c \<and> unat a \<in> range_bytes (p, n))"
proof (cases "\<exists>r \<in> chunk_ranges c. unat a \<in> range_bytes r")
  case True
  then obtain q n where q: "(q, n) \<in> chunk_ranges c" "unat a \<in> range_bytes (q, n)" by auto
  moreover have "q \<noteq> 0" using assms q(1) index_to_page_nonzero by (metis add_leD1 chunk_rangesE)
  moreover have "validate a c = Some q" using assms q by (rule chunk_lookup_hit)
  ultimately show ?thesis using chunk_lookup_hit [OF assms, of p] by auto
next
  case False
  then have "validate a c = Some 0" using assms by (intro chunk_lookup_miss) auto
  with False show ?thesis by auto
qed

theorem validate_exact_witness:
  "validate 0x10C123 (chunk_of demo_used) = Some 0x100000 \<longleftrightarrow>
     (\<exists>n. (0x100000, n) \<in> chunk_ranges (chunk_of demo_used) \<and>
        unat (0x10C123 :: addr) \<in> range_bytes (0x100000, n))"
  using validate_exact [OF demo_used_inv(1), of "0x10C123" "0x100000"] by simp

end
