(* ===== verification/Woomem_Chunk_Safety.thy ===== *)
theory Woomem_Chunk_Safety
  imports Woomem_Chunk_Props
begin

text \<open>
  Properties of a chunk that combine several of its operations: allocation followed by a lookup
  or by a free, construction, whole runs of a client, and the two places where the arithmetic of
  \<^verbatim>\<open>src/woomem_chunk.cpp\<close> leaves the range it was written for.
\<close>

section \<open>Allocation and its inverse\<close>

text \<open>C29: Allocate, then free: a page run that was just allocated can be freed again, and freeing it
  restores the block sequence of the chunk exactly (the split is undone by the coalescing).\<close>

theorem allocate_free_roundtrip:
  assumes "chunk_inv (chunk_of s)" and "0 < unat r"
    and "allocate_pages tgt sys r s = Some (p, s')" and "p \<noteq> 0"
  shows "\<exists>c. free_page p (chunk_of s') = Some c \<and> chunk_inv c \<and> blocks_of c = blocks_of (chunk_of s)"
  using assms(1,2)
proof (rule allocate_pages_result [of s r tgt sys])
  fix q t bs' k
  assume a: "allocate_pages tgt sys r s = Some (q, t)" "spec_alloc (unat r) (blocks_of (chunk_of s)) = Some (k, bs')"
    "q = index_to_page (chunk_of s) (w64 k)" "chunk_inv (chunk_of t)" "blocks_of (chunk_of t) = bs'"
    "ch_base (chunk_of t) = ch_base (chunk_of s)"
  have t: "t = s'" "q = p" using a(1) assms(3) by simp_all
  have "spec_free k bs' = Some (blocks_of (chunk_of s))"
    using spec_alloc_free [OF chunk_invD(2) [OF assms(1)] assms(2) a(2)] .
  then obtain xs n ys where "bs' = xs @ Used n # ys" "k = bsizes xs" "blocks_of (chunk_of s) = join_free xs n ys"
    using spec_free_Some [OF chunk_invD(10) [OF a(4)]] a(5) by auto
  with free_page_Some [OF a(4), of xs n ys] a(3,5,6) t show ?thesis by (auto simp: index_to_page_def)
qed (use assms(3,4) in simp)

theorem allocate_free_roundtrip_witness:
  "\<exists>p s' c. allocate_pages POSIX demo_sys 3 demo_state = Some (p, s') \<and> p \<noteq> 0 \<and>
     free_page p (chunk_of s') = Some c \<and> chunk_inv c \<and> blocks_of c = [Free 4]"
proof -
  obtain p s' where a: "allocate_pages POSIX demo_sys 3 demo_state = Some (p, s')" "p \<noteq> 0"
    using demo_state_inv by (auto simp: spec_alloc_None elim!: allocate_pages_result [of demo_state 3 POSIX demo_sys])
  with allocate_free_roundtrip [OF demo_state_inv(1) _ a] show ?thesis by (auto simp: demo_state_inv(2))
qed

text \<open>An allocated page run is exclusive: its bytes belong to no other allocated run, every address in
  it resolves to it, and no other address resolves differently than before.\<close>

lemma allocate_pages_exclusive:
  assumes "chunk_inv (chunk_of s)" and "0 < unat r"
    and "allocate_pages tgt sys r s = Some (p, s')" and "p \<noteq> 0"
  shows "(\<forall>q \<in> chunk_ranges (chunk_of s). range_bytes (p, unat r) \<inter> range_bytes q = {}) \<and>
    (\<forall>a. validate a (chunk_of s') =
       (if unat a \<in> range_bytes (p, unat r) then Some p else validate a (chunk_of s)))"
proof -
  have a: "allocate_pages tgt sys (w32 (unat r)) s = Some (p, s')" using assms(3) by simp
  note h = assms(1,2) unat_u32_less [of r] a assms(4)
  show ?thesis
    using chunk.alloc_fresh [OF h] chunk.alloc_lookup [OF h] chunk.alloc_lookup_other [OF h] by auto
qed

text \<open>Freeing is exact: once a run is freed all its addresses resolve to null, and every address
  outside it resolves as before.\<close>

lemma free_page_exact:
  assumes "chunk_inv c" and "(p, n) \<in> chunk_ranges c"
  shows "\<exists>c'. free_page p c = Some c' \<and> chunk_inv c' \<and>
    (\<forall>a. validate a c' = (if unat a \<in> range_bytes (p, n) then Some 0 else validate a c))"
proof -
  obtain c' where c': "free_page p c = Some c'" "chunk_inv c'" "chunk_ranges c' = chunk_ranges c - {(p, n)}"
    using chunk_release_law [OF assms] by blast
  have "validate a c' = (if unat a \<in> range_bytes (p, n) then Some 0 else validate a c)" for a
  proof (cases "\<exists>r \<in> chunk_ranges c'. unat a \<in> range_bytes r")
    case True
    then obtain q m where q: "(q, m) \<in> chunk_ranges c'" "unat a \<in> range_bytes (q, m)" by auto
    then have "unat a \<notin> range_bytes (p, n)"
      using chunk_ranges_disjoint [OF assms(1,2), of "(q, m)"] c'(3) by auto
    then show ?thesis
      using chunk_lookup_hit [OF c'(2) q] chunk_lookup_hit [OF assms(1) _ q(2)] q(1) c'(3) by auto
  next
    case False
    then have n: "validate a c' = Some 0" using c'(2) by (intro chunk_lookup_miss) auto
    show ?thesis
    proof (cases "unat a \<in> range_bytes (p, n)")
      case out: False
      then have "\<forall>r \<in> chunk_ranges c. unat a \<notin> range_bytes r" using False c'(3) by auto
      with n out chunk_lookup_miss [OF assms(1)] show ?thesis by auto
    qed (use n in simp)
  qed
  with c' show ?thesis by blast
qed

section \<open>Construction and runs\<close>

text \<open>Construction. For every size up to 2^31 - 1 pages on a kernel with the documented behaviour of
  \<open>mmap\<close>, the constructor returns; either the reservation failed and \<open>is_init_failed\<close> says so, or
  the chunk satisfies the invariant and is one free block that covers the size, rounded up to pages.\<close>

theorem Chunk_establishes_inv:
  assumes "mmap_documented sys" and "chunk_size_ok sz"
  shows "\<exists>c os'. Chunk tgt sys sz os = Some (c, os') \<and>
    (if is_init_failed c then c = null_chunk
     else chunk_inv c \<and> blocks_of c = [Free ((unat sz + 32767) div 32768)] \<and>
       unat sz \<le> unat (get_total_size c) \<and> unat (get_total_size c) < unat sz + 32768)"
proof -
  have sz: "0 < unat sz" "unat sz \<le> (2 ^ 31 - 1) * 32768" using assms(2) by (auto simp: chunk_size_ok_def)
  obtain b os' where r: "woomem_os_reserve_memory tgt sys (pages_for sz * NORMAL_PAGE_SIZE) os = (b, os')"
    by fastforce
  show ?thesis
  proof (cases "b = 0")
    case True
    then show ?thesis using r sz(1)
      by (auto simp: Chunk_def pages_for_def Let_def is_init_failed_def null_chunk_def)
  next
    case False
    then obtain c os' where c: "Chunk tgt sys sz os = Some (c, os')" "chunk_inv c" "\<not> is_init_failed c"
        "blocks_of c = [Free ((unat sz + 32767) div 32768)]"
      using Chunk_Some [OF assms(1) sz, of tgt os] r by auto
    have "unat (get_total_size c) = (unat sz + 32767) div 32768 * 32768"
      using unat_reserved [OF c(2)] by (simp add: get_total_size_def c(4))
    then show ?thesis using c by (auto intro!: exI [of _ c])
  qed
qed

text \<open>C25: Every run is safe. In every state that a client reaches from a new chunk by allocating pages and
  huge pages and by freeing allocated runs, the chunk satisfies its invariant, the sizes of its free
  and used blocks add up to the pages it was created with, its allocated runs are pairwise disjoint,
  and each operation the client may call next returns.\<close>

theorem chunk_run_safe:
  assumes "reach (chunk_created tgt sys sz) (chunk_step tgt sys) s"
  shows "chunk_inv (chunk_of s) \<and>
    sum_list (map bsize (blocks_of (chunk_of s))) = (unat sz + 32767) div 32768 \<and>
    pairwise (\<lambda>q r. range_bytes q \<inter> range_bytes r = {}) (chunk_ranges (chunk_of s)) \<and>
    allocate_page tgt sys s \<noteq> None \<and>
    (\<forall>n. 0 < unat n \<and> unat n + 32767 < 2 ^ 64 \<longrightarrow> allocate_huge_page tgt sys n s \<noteq> None) \<and>
    (\<forall>(p, n) \<in> chunk_ranges (chunk_of s). free_page p (chunk_of s) \<noteq> None)"
proof (intro conjI)
  have i: "chunk_run_inv sz s" using assms by (rule chunk_run.reach_inv)
  then show inv: "chunk_inv (chunk_of s)" by (simp add: chunk_run_inv_def)
  show "sum_list (map bsize (blocks_of (chunk_of s))) = (unat sz + 32767) div 32768"
    using i chunk_invD(4) [OF inv] by (simp add: chunk_run_inv_def bsizes_def)
  show "pairwise (\<lambda>q r. range_bytes q \<inter> range_bytes r = {}) (chunk_ranges (chunk_of s))"
    using chunk_ranges_disjoint [OF inv] by (blast intro: pairwiseI)
  show "allocate_page tgt sys s \<noteq> None" using allocate_page_result [OF inv, of tgt sys] by auto
  show "\<forall>n. 0 < unat n \<and> unat n + 32767 < 2 ^ 64 \<longrightarrow> allocate_huge_page tgt sys n s \<noteq> None"
    using allocate_huge_page_result [OF inv] by (metis option.distinct(1))
  show "\<forall>(p, n) \<in> chunk_ranges (chunk_of s). free_page p (chunk_of s) \<noteq> None"
    using chunk_release_law [OF inv] by fastforce
qed

lemma demo_state_created: "chunk_created POSIX demo_sys 0x20000 demo_state"
proof (rule chunk_created.intros [where os = "[]", OF demo_sys_documented])
  show "chunk_size_ok 0x20000" by (simp add: chunk_size_ok_def)
  show "Chunk POSIX demo_sys 0x20000 [] = Some (chunk_of demo_state, os_of demo_state)"
    "\<not> is_init_failed (chunk_of demo_state)" by code_simp+
qed

theorem chunk_run_safe_witness:
  "\<exists>p s'. allocate_page POSIX demo_sys demo_state = Some (p, s') \<and> chunk_inv (chunk_of s') \<and>
     sum_list (map bsize (blocks_of (chunk_of s'))) = 4 \<and> allocate_page POSIX demo_sys s' \<noteq> None"
proof -
  have r0: "reach (chunk_created POSIX demo_sys 0x20000) (chunk_step POSIX demo_sys) demo_state"
    using demo_state_created by (rule reach_init)
  obtain p s' where a: "allocate_page POSIX demo_sys demo_state = Some (p, s')"
    using chunk_run_safe [OF r0] by auto
  then have "reach (chunk_created POSIX demo_sys 0x20000) (chunk_step POSIX demo_sys) s'"
    using r0 by (auto intro: reach_step step_page)
  from chunk_run_safe [OF this] a show ?thesis by simp
qed

section \<open>Huge pages\<close>

lemma huge_page_full:
  assumes "\<forall>b \<in> set (blocks_of (chunk_of s)). is_Free b \<longrightarrow> bsize b < n"
    and "chunk_inv (chunk_of s)" "0 < unat sz" "unat sz + 32767 < 2 ^ 64" and "n = (unat sz + 32767) div 32768"
  shows "allocate_huge_page tgt sys sz s = Some (0, s)"
proof -
  note D = chunk_invD [OF assms(2)]
  have n: "unat (pages_for sz) = n" using unat_pages_for [OF assms(4)] assms(5) by simp
  have nz: "sz \<noteq> 0" using assms(3) by auto
  show ?thesis
  proof (cases "ch_total_pages (chunk_of s) < pages_for sz")
    case False
    then have "n < 2 ^ 31" using n D(4,9) by (simp add: word_less_nat_alt)
    then have "(ucast (w64 n) :: u32) = w32 n" "unat (w32 n) = n" by (simp_all add: ucast_w64 unat_w32_31)
    then have u: "unat (ucast (pages_for sz) :: u32) = n" using n by (metis w64_unat)
    have "spec_alloc n (blocks_of (chunk_of s)) = None" using assms(1) by (simp add: spec_alloc_None)
    then have "allocate_pages tgt sys (ucast (pages_for sz)) s = Some (0, s)"
      using u by (intro allocate_pages_None [OF assms(2)]) (auto simp: spec_alloc_def split: option.splits)
    with False nz D(3) show ?thesis by (simp add: allocate_huge_page_def)
  qed (use nz D(3) in \<open>simp add: allocate_huge_page_def\<close>)
qed

text \<open>Huge pages. For every size whose rounding does not wrap, \<open>allocate_huge_page\<close> returns: a
  non-null answer is a fresh run of as many pages as the size needs, with that number recorded in its
  page head; the answer is null, with nothing changed, exactly when no free block is that large.\<close>

theorem allocate_huge_page_correct:
  assumes "chunk_inv (chunk_of s)" and "0 < unat sz" and "unat sz + 32767 < 2 ^ 64"
  shows "\<exists>p s'. allocate_huge_page tgt sys sz s = Some (p, s') \<and> chunk_inv (chunk_of s') \<and>
    (p = 0 \<longleftrightarrow> (\<forall>b \<in> set (blocks_of (chunk_of s)). is_Free b \<longrightarrow> bsize b * 32768 < unat sz)) \<and>
    (p = 0 \<longrightarrow> s' = s) \<and>
    (p \<noteq> 0 \<longrightarrow>
       (\<exists>n. chunk_ranges (chunk_of s') = insert (p, n) (chunk_ranges (chunk_of s)) \<and>
          unat sz \<le> n * 32768 \<and> n * 32768 < unat sz + 32768 \<and>
          unat (m_page_count_if_huge (page_at (mem_of s') p)) = n))"
proof -
  let ?n = "(unat sz + 32767) div 32768"
  have small: "b < ?n \<longleftrightarrow> b * 32768 < unat sz" for b by linarith
  have n: "unat (pages_for sz) = ?n" using unat_pages_for [OF assms(3)] by simp
  obtain p s' where r: "allocate_huge_page tgt sys sz s = Some (p, s')" "chunk_inv (chunk_of s')"
    "if p = 0 then s' = s \<and> (\<forall>b \<in> set (blocks_of (chunk_of s)). is_Free b \<longrightarrow> bsize b < ?n)
     else chunk_ranges (chunk_of s') = insert (p, ?n) (chunk_ranges (chunk_of s)) \<and>
       m_page_count_if_huge (page_at (mem_of s') p) = pages_for sz \<and>
       m_page_just_allocated (page_at (mem_of s') p)"
    using allocate_huge_page_result [OF assms] by blast
  have "p = 0" if all: "\<forall>b \<in> set (blocks_of (chunk_of s)). is_Free b \<longrightarrow> bsize b < ?n"
  proof -
    have "allocate_huge_page tgt sys sz s = Some (0, s)"
      using that assms refl by (rule huge_page_full)
    with r(1) show ?thesis by simp
  qed
  with r n show ?thesis unfolding small by (intro exI [of _ p] exI [of _ s']) (auto split: if_splits)
qed

section \<open>Where the arithmetic leaves its range\<close>











text \<open>A chunk of 2^31 pages is unusable. Its first count is 2^31, which is the allocated flag, so the
  constructor succeeds, \<open>is_init_failed\<close> is false, and every allocation fails although no page is in
  use.\<close>

theorem giant_chunk_unusable:
  assumes "pages_for sz = 2 ^ 31"
    and "fst (woomem_os_reserve_memory tgt sys (pages_for sz * NORMAL_PAGE_SIZE) os) \<noteq> 0"
  shows "\<exists>c os'. Chunk tgt sys sz os = Some (c, os') \<and> \<not> is_init_failed c \<and>
    get_total_page_count c = 2 ^ 31 \<and>
    (\<forall>r s. 0 < unat r \<and> chunk_of s = c \<longrightarrow> allocate_pages tgt sys r s = Some (0, s))"
proof -
  define n where "n = unat (pages_for sz)"
  obtain b os' where r: "woomem_os_reserve_memory tgt sys (pages_for sz * NORMAL_PAGE_SIZE) os = (b, os')" "b \<noteq> 0"
    using assms(2) by (metis fst_conv prod.collapse)
  have n: "0 < n" and u: "ucast (pages_for sz) = ALLOCATED_FLAG"
    by (simp_all add: n_def assms(1) ALLOCATED_FLAG_def)
  have nz: "sz \<noteq> 0" using assms(1) by (auto simp: pages_for_def NORMAL_PAGE_SIZE_def)
  define c where "c = \<lparr>ch_base = b, ch_reserved_size = pages_for sz * NORMAL_PAGE_SIZE, ch_total_pages = pages_for sz,
    ch_count = (replicate n 0)[0 := ALLOCATED_FLAG], ch_free_prev = replicate n INDEX_NULL,
    ch_free_next = replicate n INDEX_NULL, ch_free_head = 0, ch_commit = replicate n 0\<rparr>"
  have C: "Chunk tgt sys sz os = Some (c, os')"
    using r nz n by (simp add: Chunk_def pages_for_def [symmetric] u c_def wr_def Let_def flip: n_def)
  have "allocate_pages tgt sys q s = Some (0, s)" if q: "0 < unat q" and s: "chunk_of s = c" for q s
  proof -
    have "find_block_from (ch_count c) (ch_free_next c) q INDEX_NULL = Some INDEX_NULL"
      by (simp add: find_block_from.simps)
    moreover have "q \<noteq> 0" using q by auto
    ultimately have "free_list_find_block q c = Some INDEX_NULL"
      using n by (subst free_list_find_block_def, subst find_block_from.simps)
        (simp add: c_def rd_def ALLOCATED_FLAG_def COUNT_MASK_def INDEX_NULL_def)
    then show ?thesis by (simp add: allocate_pages_def s)
  qed
  moreover have "\<not> is_init_failed c" "get_total_page_count c = 2 ^ 31"
    using r(2) by (simp_all add: is_init_failed_def get_total_page_count_def c_def assms(1))
  ultimately show ?thesis using C by blast
qed

theorem giant_chunk_unusable_witness:
  "\<exists>c os'. Chunk POSIX demo_sys (2 ^ 46) [] = Some (c, os') \<and> \<not> is_init_failed c \<and>
    allocate_pages POSIX demo_sys 1 \<lparr>chunk_of = c, mem_of = blank_mem, os_of = os'\<rparr> =
      Some (0, \<lparr>chunk_of = c, mem_of = blank_mem, os_of = os'\<rparr>)"
proof -
  have p: "pages_for (2 ^ 46) = 2 ^ 31" by code_simp
  have "fst (woomem_os_reserve_memory POSIX demo_sys (pages_for (2 ^ 46) * NORMAL_PAGE_SIZE) []) \<noteq> 0"
    by code_simp
  from giant_chunk_unusable [OF p this] show ?thesis by fastforce
qed

end
