(* ===== verification/Woomem_Chain.thy ===== *)
theory Woomem_Chain
  imports Woomem_Memory "HOL-Library.Multiset"
begin

text \<open>
  Intrusive singly linked chains: the free units of a page are linked by offsets stored in their
  heads, the pages of the heap by \<open>m_next_page\<close>. The link field of a member names the next member
  and \<open>0\<close> ends the chain. The theory has the chain of all pages of
  \<^verbatim>\<open>src/woomem_global_context.cpp\<close> and the contract of a lock-free stack with many pushers and one
  consumer that takes everything, which both chains implement.
\<close>

section \<open>Chains\<close>

fun chain :: "('k::zero \<Rightarrow> 'k) \<Rightarrow> 'k \<Rightarrow> 'k list \<Rightarrow> bool" where
  "chain nxt h [] \<longleftrightarrow> h = 0"
| "chain nxt h (x # xs) \<longleftrightarrow> h = x \<and> x \<noteq> 0 \<and> chain nxt (nxt x) xs"

lemma chain_nonzero: "chain nxt h xs \<Longrightarrow> 0 \<notin> set xs"
  by (induction xs arbitrary: h) auto

lemma chain_unique: "chain nxt h xs \<Longrightarrow> chain nxt h ys \<Longrightarrow> xs = ys"
proof (induction xs arbitrary: h ys)
  case Nil
  then show ?case by (cases ys) auto
next
  case (Cons x xs)
  then show ?case by (cases ys) auto
qed

lemma chain_cong:
  "(\<And>x. x \<in> set xs \<Longrightarrow> nxt x = nxt' x) \<Longrightarrow> chain nxt h xs \<longleftrightarrow> chain nxt' h xs"
  by (induction xs arbitrary: h) auto

lemma chain_update [simp]: "x \<notin> set xs \<Longrightarrow> chain (nxt(x := v)) h xs \<longleftrightarrow> chain nxt h xs"
  by (rule chain_cong) auto

lemma chain_zero_iff: "chain nxt 0 xs \<longleftrightarrow> xs = []"
  by (cases xs) auto

lemma chain_head: "chain nxt h xs \<Longrightarrow> h \<noteq> 0 \<Longrightarrow> \<exists>ys. xs = h # ys \<and> chain nxt (nxt h) ys"
  by (cases xs) auto

text \<open>A chain has no cycle: no member occurs twice.\<close>

lemma chain_tail_once: "chain nxt h (xs @ x # ys) \<Longrightarrow> chain nxt x (x # ys)"
  by (induction xs arbitrary: h) auto

lemma chain_distinct: "chain nxt h xs \<Longrightarrow> distinct xs"
proof (induction xs arbitrary: h)
  case (Cons x xs)
  have "x \<notin> set xs"
  proof
    assume "x \<in> set xs"
    then obtain us vs where "xs = us @ x # vs" by (auto dest: split_list)
    with Cons.prems chain_tail_once [of nxt h "x # us" x vs]
    have "chain nxt x (x # us @ x # vs)" "chain nxt x (x # vs)" by simp_all
    then have "x # us @ x # vs = x # vs" by (rule chain_unique)
    then have "length (x # us @ x # vs) = length (x # vs)" by (rule arg_cong)
    then show False by simp
  qed
  with Cons show ?case by auto
qed simp

section \<open>The chain of all pages\<close>

definition page_links :: "mem \<Rightarrow> addr \<Rightarrow> addr" where
  "page_links m p = m_next_page (page_at m p)"

definition page_chain :: "mem \<Rightarrow> addr \<Rightarrow> addr list \<Rightarrow> bool" where
  "page_chain m h ps \<longleftrightarrow> chain (page_links m) h ps"

text \<open>
  \<open>add_page_back_to_into_chain\<close>: load the head into \<open>m_next_page\<close>, then compare-and-swap the head.
  A failing exchange reloads \<open>m_next_page\<close>; this is the whole call without interference, the steps
  with interference are below. The state is the memory and \<open>m_all_page_list\<close>.
\<close>

definition add_page_back_to_into_chain :: "addr \<Rightarrow> mem \<times> addr \<Rightarrow> mem \<times> addr" where
  "add_page_back_to_into_chain page = (\<lambda>(m, all_page_list).
     (upd_page page (\<lambda>h. h\<lparr>m_next_page := all_page_list\<rparr>) m, page))"

definition add_new_page_into_chain :: "addr \<Rightarrow> mem \<times> addr \<Rightarrow> (mem \<times> addr) option" where
  "add_new_page_into_chain page = (\<lambda>(m, all_page_list).
     if \<not> m_page_just_allocated (page_at m page) then None
     else Some (add_page_back_to_into_chain page
       (upd_page page (\<lambda>h. h\<lparr>m_page_just_allocated := False\<rparr>) m, all_page_list)))"

lemma page_links_upd:
  "page_links (upd_page p f m) = (page_links m)(p := m_next_page (f (page_at m p)))"
  by (auto simp: page_links_def upd_page_def)

lemma page_chain_push:
  assumes "page_chain m h ps" "p \<noteq> 0" "p \<notin> set ps"
  shows "page_chain (fst (add_page_back_to_into_chain p (m, h))) (snd (add_page_back_to_into_chain p (m, h))) (p # ps)"
  using assms by (simp add: page_chain_def add_page_back_to_into_chain_def page_links_upd)

section \<open>Pushing while others push and take\<close>

text \<open>
  The steps of the compare-and-swap loops of \<open>add_page_back_to_into_chain\<close> and
  \<open>drop_freed_unit_into_page\<close>, and of the \<open>exchange\<close> of their consumers, one atomic access each.
  A thread that pushes \<open>k\<close> loads the head into the link of \<open>k\<close> (\<open>pusher\<close> is then \<open>Some (k, e)\<close>: \<open>e\<close> is
  the value it expects) and retries the exchange, which reloads the link when it fails; a weak
  exchange may fail at any time. The consumer exchanges the head with \<open>0\<close> and owns what it took.
  The owner of a member that is neither in the chain nor being pushed may write its link.
  \<open>links\<close> and \<open>top\<close> are the shared memory; \<open>pushed\<close> and \<open>taken\<close> record the completed pushes and the
  members taken, for the statement of the properties.
\<close>

record 'k stack =
  links :: "'k \<Rightarrow> 'k"
  top :: "'k"
  pusher :: "nat \<Rightarrow> ('k \<times> 'k) option"
  taken :: "'k list"
  pushed :: "'k list"

definition in_stack :: "('k::zero) stack \<Rightarrow> 'k \<Rightarrow> bool" where
  "in_stack s k \<longleftrightarrow> (\<exists>ks. chain (links s) (top s) ks \<and> k \<in> set ks)"

definition in_flight :: "'k stack \<Rightarrow> 'k \<Rightarrow> bool" where
  "in_flight s k \<longleftrightarrow> (\<exists>t e. pusher s t = Some (k, e))"

inductive stack_step :: "('k::zero) stack \<Rightarrow> 'k stack \<Rightarrow> bool" where
  stack_load: "pusher s t = None \<Longrightarrow> k \<noteq> 0 \<Longrightarrow> \<not> in_stack s k \<Longrightarrow> \<not> in_flight s k \<Longrightarrow>
     stack_step s (s\<lparr>links := (links s)(k := top s), pusher := (pusher s)(t := Some (k, top s))\<rparr>)"
| stack_cas_ok: "pusher s t = Some (k, top s) \<Longrightarrow>
     stack_step s (s\<lparr>top := k, pusher := (pusher s)(t := None), pushed := k # pushed s\<rparr>)"
| stack_cas_fail: "pusher s t = Some (k, e) \<Longrightarrow>
     stack_step s (s\<lparr>links := (links s)(k := top s), pusher := (pusher s)(t := Some (k, top s))\<rparr>)"
| stack_take: "chain (links s) (top s) ks \<Longrightarrow> stack_step s (s\<lparr>top := 0, taken := ks @ taken s\<rparr>)"
| stack_write: "\<not> in_stack s k \<Longrightarrow> \<not> in_flight s k \<Longrightarrow> stack_step s (s\<lparr>links := (links s)(k := v)\<rparr>)"

definition stack_start :: "('k::zero) stack \<Rightarrow> bool" where
  "stack_start s \<longleftrightarrow> top s = 0 \<and> pusher s = Map.empty \<and> taken s = [] \<and> pushed s = []"

text \<open>The parts of the invariant: what is linked, and what the pushers hold.\<close>

definition linked_ok :: "('k::zero) stack \<Rightarrow> 'k list \<Rightarrow> bool" where
  "linked_ok s ks \<longleftrightarrow> chain (links s) (top s) ks \<and> mset (pushed s) = mset ks + mset (taken s)"

definition pushers_ok :: "('k \<Rightarrow> 'k) \<Rightarrow> 'k set \<Rightarrow> (nat \<Rightarrow> ('k::zero \<times> 'k) option) \<Rightarrow> bool" where
  "pushers_ok lk K ps \<longleftrightarrow>
     (\<forall>t k e. ps t = Some (k, e) \<longrightarrow> k \<noteq> 0 \<and> lk k = e \<and> k \<notin> K) \<and>
     (\<forall>t u k e e'. ps t = Some (k, e) \<longrightarrow> ps u = Some (k, e') \<longrightarrow> t = u)"

definition stack_inv :: "('k::zero) stack \<Rightarrow> bool" where
  "stack_inv s \<longleftrightarrow> (\<exists>ks. linked_ok s ks \<and> pushers_ok (links s) (set ks) (pusher s))"

lemma stack_invI: "linked_ok s ks \<Longrightarrow> pushers_ok (links s) (set ks) (pusher s) \<Longrightarrow> stack_inv s"
  by (auto simp: stack_inv_def)

lemma in_stack_iff: "chain (links s) (top s) ks \<Longrightarrow> in_stack s k \<longleftrightarrow> k \<in> set ks"
  by (auto simp: in_stack_def dest: chain_unique)

lemma pushers_ok_load:
  assumes "pushers_ok lk K ps" "k \<noteq> 0" "k \<notin> K" "\<And>u e. ps u = Some (k, e) \<Longrightarrow> u = t"
  shows "pushers_ok (lk(k := v)) K (ps(t := Some (k, v)))"
  using assms(1-3) unfolding pushers_ok_def by (auto split: if_splits dest: assms(4))

lemma pushers_ok_done:
  assumes "pushers_ok lk K ps" "ps t = Some (k, e)"
  shows "pushers_ok lk (insert k K) (ps(t := None))"
  using assms unfolding pushers_ok_def by (auto split: if_splits)

lemma pushers_ok_write:
  "pushers_ok lk K ps \<Longrightarrow> (\<And>t e. ps t \<noteq> Some (k, e)) \<Longrightarrow> pushers_ok (lk(k := v)) K ps"
  unfolding pushers_ok_def by auto

lemma pushers_ok_mono: "pushers_ok lk K ps \<Longrightarrow> L \<subseteq> K \<Longrightarrow> pushers_ok lk L ps"
  unfolding pushers_ok_def by blast

lemma stack_inv_step:
  assumes "stack_inv s" "stack_step s t"
  shows "stack_inv t"
proof -
  obtain ks where ks: "chain (links s) (top s) ks" "mset (pushed s) = mset ks + mset (taken s)"
      and ps: "pushers_ok (links s) (set ks) (pusher s)"
    using assms(1) by (auto simp: stack_inv_def linked_ok_def)
  note stk = in_stack_iff [OF ks(1)]
  from assms(2) show ?thesis
  proof cases
    case (stack_load u k)
    have k: "k \<notin> set ks" using stack_load(4) by (simp add: stk)
    have "pushers_ok ((links s)(k := top s)) (set ks) ((pusher s)(u := Some (k, top s)))"
      using ps stack_load(3) k by (rule pushers_ok_load) (use stack_load(5) in \<open>auto simp: in_flight_def\<close>)
    with stack_load(1) ks k show ?thesis by (intro stack_invI [of _ ks]) (simp_all add: linked_ok_def)
  next
    case (stack_cas_ok u k)
    then have k: "k \<noteq> 0" "links s k = top s" using ps by (auto simp: pushers_ok_def)
    then have "linked_ok t (k # ks)" using stack_cas_ok ks by (simp add: linked_ok_def)
    moreover have "pushers_ok (links t) (set (k # ks)) (pusher t)"
      using pushers_ok_done [OF ps stack_cas_ok(2)] stack_cas_ok(1) by simp
    ultimately show ?thesis unfolding stack_inv_def by blast
  next
    case (stack_cas_fail u k e)
    then have k: "k \<noteq> 0" "k \<notin> set ks" using ps by (auto simp: pushers_ok_def)
    have "pushers_ok ((links s)(k := top s)) (set ks) ((pusher s)(u := Some (k, top s)))"
      using ps k by (rule pushers_ok_load) (use ps stack_cas_fail(2) in \<open>auto simp: pushers_ok_def\<close>)
    with stack_cas_fail(1) ks k show ?thesis by (intro stack_invI [of _ ks]) (simp_all add: linked_ok_def)
  next
    case (stack_take js)
    then have "js = ks" using ks(1) by (auto dest: chain_unique)
    then have "linked_ok t []" using stack_take ks by (simp add: linked_ok_def)
    moreover have "pushers_ok (links t) (set []) (pusher t)"
      using pushers_ok_mono [OF ps, of "{}"] stack_take(1) by simp
    ultimately show ?thesis unfolding stack_inv_def by blast
  next
    case (stack_write k v)
    then have "k \<notin> set ks" by (simp add: stk)
    moreover have "pushers_ok ((links s)(k := v)) (set ks) (pusher s)"
      using ps by (rule pushers_ok_write) (use stack_write(3) in \<open>auto simp: in_flight_def\<close>)
    ultimately show ?thesis using stack_write(1) ks by (intro stack_invI [of _ ks]) (simp_all add: linked_ok_def)
  qed
qed

interpretation push_stack: inductive_invariant "stack_start :: ('k::zero) stack \<Rightarrow> bool" stack_step stack_inv
proof unfold_locales
  show "stack_inv s" if "stack_start s" for s :: "'k stack"
  proof -
    have "linked_ok s []" "pushers_ok (links s) (set []) (pusher s)"
      using that by (simp_all add: stack_start_def linked_ok_def pushers_ok_def)
    then show ?thesis unfolding stack_inv_def by blast
  qed
qed (rule stack_inv_step)

text \<open>Without interference the two steps of a push are the sequential operation.\<close>

lemma add_page_back_is_push:
  assumes "pusher s t = None" "p \<noteq> 0" "\<not> in_stack s p" "\<not> in_flight s p" "links s = page_links m"
  shows "\<exists>s1 s2. stack_step s s1 \<and> stack_step s1 s2 \<and>
    links s2 = page_links (fst (add_page_back_to_into_chain p (m, top s))) \<and>
    top s2 = snd (add_page_back_to_into_chain p (m, top s)) \<and> pusher s2 = pusher s"
proof (intro exI conjI)
  let ?s1 = "s\<lparr>links := (links s)(p := top s), pusher := (pusher s)(t := Some (p, top s))\<rparr>"
  let ?s2 = "?s1\<lparr>top := p, pusher := (pusher ?s1)(t := None), pushed := p # pushed ?s1\<rparr>"
  show "stack_step s ?s1" using assms(1-4) by (rule stack_load)
  show "stack_step ?s1 ?s2" by (rule stack_cas_ok) simp
  show "links ?s2 = page_links (fst (add_page_back_to_into_chain p (m, top s)))"
    by (simp add: assms(5) add_page_back_to_into_chain_def page_links_upd)
  show "pusher ?s2 = pusher s" using assms(1) by auto
qed (simp add: add_page_back_to_into_chain_def)

section \<open>Properties\<close>

text \<open>C28: The lock-free chains lose nothing. However the loads, exchanges, retries and takes of any number
  of threads interleave, every member whose push completed is in the chain or was taken, as often as
  it was pushed, no member occurs twice in the chain, and one that is still being pushed is not in it.\<close>

theorem push_stack_conserves:
  assumes "reach stack_start stack_step s"
  shows "\<exists>ks. chain (links s) (top s) ks \<and> distinct ks \<and>
    mset (pushed s) = mset ks + mset (taken s) \<and> (\<forall>k. in_flight s k \<longrightarrow> k \<notin> set ks)"
proof -
  have "stack_inv s" using assms by (rule push_stack.reach_inv)
  then obtain ks where "chain (links s) (top s) ks" "mset (pushed s) = mset ks + mset (taken s)"
      "pushers_ok (links s) (set ks) (pusher s)"
    by (auto simp: stack_inv_def linked_ok_def)
  then show ?thesis by (auto simp: pushers_ok_def in_flight_def dest: chain_distinct intro!: exI [of _ ks])
qed

text \<open>Two threads push \<open>8\<close> and \<open>32\<close>; both load the empty head, so the second exchange fails once.\<close>

theorem push_stack_conserves_witness:
  "\<exists>s :: u16 stack. \<exists>ks. pushed s = [32, 8] \<and> chain (links s) (top s) ks \<and> distinct ks \<and>
     mset (pushed s) = mset ks + mset (taken s)"
proof -
  let ?s0 = "\<lparr>links = (\<lambda>_. 0), top = 0, pusher = Map.empty, taken = [], pushed = []\<rparr> :: u16 stack"
  let ?s1 = "?s0\<lparr>links := (links ?s0)(8 := 0), pusher := [0 \<mapsto> (8, 0)]\<rparr>"
  let ?s2 = "?s1\<lparr>links := (links ?s1)(32 := 0), pusher := [0 \<mapsto> (8, 0), 1 \<mapsto> (32, 0)]\<rparr>"
  let ?s3 = "?s2\<lparr>top := 8, pusher := (pusher ?s2)(0 := None), pushed := [8]\<rparr>"
  let ?s4 = "?s3\<lparr>links := (links ?s3)(32 := 8), pusher := (pusher ?s3)(1 := Some (32, 8))\<rparr>"
  let ?s5 = "?s4\<lparr>top := 32, pusher := (pusher ?s4)(1 := None), pushed := [32, 8]\<rparr>"
  have "reach stack_start stack_step ?s0" by (rule reach_init) (simp add: stack_start_def)
  moreover have "stack_step ?s0 ?s1"
    using stack_load [of ?s0 0 8] by (simp add: in_stack_def in_flight_def chain_zero_iff)
  moreover have "stack_step ?s1 ?s2"
    using stack_load [of ?s1 1 32] by (simp add: in_stack_def in_flight_def chain_zero_iff fun_upd_twist)
  moreover have "stack_step ?s2 ?s3" using stack_cas_ok [of ?s2 0 8] by simp
  moreover have "stack_step ?s3 ?s4" using stack_cas_fail [of ?s3 1 32 0] by simp
  moreover have "stack_step ?s4 ?s5" using stack_cas_ok [of ?s4 1 32] by simp
  ultimately have "reach stack_start stack_step ?s5" by (meson reach_step)
  from push_stack_conserves [OF this] show ?thesis by (intro exI [of _ ?s5]) auto
qed

end
