(* ===== verification/Woomem_Page_Unit.thy ===== *)
theory Woomem_Page_Unit
  imports Woomem_Chain
begin

text \<open>
  Pages cut into units, \<^verbatim>\<open>src/woomem_page_unit_alloc.hpp\<close> and \<^verbatim>\<open>src/woomem_page_unit_alloc.cpp\<close>:
  the size groups and the lookup of the group of a size, the initialisation of a page, taking a unit
  from the page's two free lists (one private to the owning thread, one shared with the sweeper) and
  dropping a freed unit into the shared list. Offsets count from the page's \<open>PageUnitAlloc\<close> head;
  \<open>0\<close> is the null offset.
\<close>

section \<open>Size groups\<close>

datatype unit_alloc_group =
  SMALL_16 | SMALL_40 | SMALL_88 | SMALL_168 | SMALL_344 | SMALL_520 | SMALL_736 | SMALL_1048
| MIDIUM_2720 | MIDIUM_5448 | MIDIUM_8176 | MIDIUM_10904 | MIDIUM_16360

text \<open>The values of the enumeration; \<open>MAX_GROUP\<close> is their number.\<close>

definition all_groups :: "unit_alloc_group list" where
  "all_groups = [SMALL_16, SMALL_40, SMALL_88, SMALL_168, SMALL_344, SMALL_520, SMALL_736, SMALL_1048,
     MIDIUM_2720, MIDIUM_5448, MIDIUM_8176, MIDIUM_10904, MIDIUM_16360]"

fun group_index :: "unit_alloc_group \<Rightarrow> nat" where
  "group_index SMALL_16 = 0"
| "group_index SMALL_40 = 1"
| "group_index SMALL_88 = 2"
| "group_index SMALL_168 = 3"
| "group_index SMALL_344 = 4"
| "group_index SMALL_520 = 5"
| "group_index SMALL_736 = 6"
| "group_index SMALL_1048 = 7"
| "group_index MIDIUM_2720 = 8"
| "group_index MIDIUM_5448 = 9"
| "group_index MIDIUM_8176 = 10"
| "group_index MIDIUM_10904 = 11"
| "group_index MIDIUM_16360 = 12"

definition MAX_GROUP :: nat where
  "MAX_GROUP = 13"

definition MAX_SMALL_UNIT_SIZE :: u64 where
  "MAX_SMALL_UNIT_SIZE = 1048"

definition MAX_IN_PAGE_UNIT_SIZE :: u64 where
  "MAX_IN_PAGE_UNIT_SIZE = 16360"

definition GROUP_SIZE_LOOKUP_TABLE :: "u64 list" where
  "GROUP_SIZE_LOOKUP_TABLE =
     [16, 40, 88, 168, 344, 520, 736, 1048, 2720, 5448, 8176, 10904, 16360]"

definition SMALL_UNIT_GROUP_FAST_LOOKUP_TABLE :: "unit_alloc_group list" where
  "SMALL_UNIT_GROUP_FAST_LOOKUP_TABLE =
     [SMALL_16] @ replicate 2 SMALL_16 @ replicate 3 SMALL_40 @ replicate 6 SMALL_88 @
     replicate 10 SMALL_168 @ replicate 22 SMALL_344 @ replicate 22 SMALL_520 @
     replicate 27 SMALL_736 @ replicate 39 SMALL_1048"

definition WOOMEM_FAST_LOOKUP_GROUP_INDEX :: "u64 \<Rightarrow> u64" where
  "WOOMEM_FAST_LOOKUP_GROUP_INDEX sz = drop_bit 3 (sz + 7)"

definition group_size :: "unit_alloc_group \<Rightarrow> u64" where
  "group_size g = GROUP_SIZE_LOOKUP_TABLE ! group_index g"

definition eval_group_by_small_unit_size :: "u64 \<Rightarrow> unit_alloc_group option" where
  "eval_group_by_small_unit_size unit_size =
     (if unit_size \<le> MAX_SMALL_UNIT_SIZE
      then rd SMALL_UNIT_GROUP_FAST_LOOKUP_TABLE (unat (WOOMEM_FAST_LOOKUP_GROUP_INDEX unit_size))
      else if unit_size \<le> group_size MIDIUM_2720 then Some MIDIUM_2720
      else if unit_size \<le> group_size MIDIUM_5448 then Some MIDIUM_5448
      else if unit_size \<le> group_size MIDIUM_8176 then Some MIDIUM_8176
      else if unit_size \<le> group_size MIDIUM_10904 then Some MIDIUM_10904
      else Some MIDIUM_16360)"

section \<open>Layout of a page\<close>

text \<open>\<open>reinterpret_cast<PageUnitAlloc*>(page + 1)\<close>, the unit \<open>offset\<close> bytes after it, and its page.\<close>

definition alloc_head :: "addr \<Rightarrow> addr" where
  "alloc_head page = page + sizeof_PageHead"

definition unit_addr :: "addr \<Rightarrow> u16 \<Rightarrow> addr" where
  "unit_addr page off = alloc_head page + ucast off"

definition units_in_page :: "u64 \<Rightarrow> u64" where
  "units_in_page unit_size_with_head =
     (NORMAL_PAGE_SIZE - (sizeof_PageHead + sizeof_PageUnitAlloc)) div unit_size_with_head"

section \<open>Operations\<close>

text \<open>The initialisation loop: \<open>r\<close> units remain, the next one is at \<open>offset\<close>.\<close>

fun init_units :: "addr \<Rightarrow> u64 \<Rightarrow> nat \<Rightarrow> u64 \<Rightarrow> mem \<Rightarrow> mem" where
  "init_units pa usz 0 offset m = m"
| "init_units pa usz (Suc r) offset m =
     (let offset' = offset + usz in
      init_units pa usz r offset'
        (upd_unit (pa + offset) (\<lambda>u. u\<lparr>
           m_next_free_unit_offset := (if 0 < r then ucast offset' else 0),
           m_age := 0, m_timing := 0, m_attribute := 0, m_life := RELEASED\<rparr>) m))"

definition init_page_for_unit_allocating ::
  "addr \<Rightarrow> unit_alloc_group \<Rightarrow> mem \<times> addr \<Rightarrow> (mem \<times> addr) option" where
  "init_page_for_unit_allocating page group_type = (\<lambda>(m, all_page_list).
     let pa = alloc_head page;
         m = upd_alloc pa (\<lambda>a. a\<lparr>m_run_out := 0, m_mark_as_run_out_in_global_pool := False,
           m_freed_unit_offset := 0, m_next_allocate_unit_offset := ucast sizeof_PageUnitAlloc,
           m_unit_size_in_page := ucast (group_size group_type)\<rparr>) m;
         usz = sizeof_UnitHead + ucast (m_unit_size_in_page (alloc_at m pa));
         m = init_units pa usz (unat (units_in_page usz)) sizeof_PageUnitAlloc m
     in add_new_page_into_chain page (m, all_page_list))"

text \<open>The body of the loop of \<open>pick_unit_from_page_without_init\<close> for a non-null offset.\<close>

definition take_unit :: "addr \<Rightarrow> u16 \<Rightarrow> mem \<Rightarrow> (addr \<times> mem) option" where
  "take_unit pa current_offset m =
     (let unit = pa + ucast current_offset;
          m = upd_alloc pa (\<lambda>a. a\<lparr>m_next_allocate_unit_offset :=
                m_next_free_unit_offset (unit_at m unit)\<rparr>) m;
          m = upd_unit unit (\<lambda>u. u\<lparr>m_next_free_unit_offset := current_offset\<rparr>) m
      in if m_life (unit_at m unit) \<noteq> RELEASED then None
         else Some (unit, upd_unit unit (\<lambda>u. u\<lparr>m_life := PENDING\<rparr>) m))"

text \<open>
  The loop runs at most twice: the second round starts with the non-null offset that was just
  exchanged out of \<open>m_freed_unit_offset\<close>.
\<close>

definition pick_unit_from_page_without_init :: "addr \<Rightarrow> mem \<Rightarrow> (addr \<times> mem) option" where
  "pick_unit_from_page_without_init page m =
     (let pa = alloc_head page;
          current_offset = m_next_allocate_unit_offset (alloc_at m pa)
      in if current_offset \<noteq> 0 then take_unit pa current_offset m
         else
           let current_offset = m_freed_unit_offset (alloc_at m pa);
               m = upd_alloc pa (\<lambda>a. a\<lparr>m_freed_unit_offset := 0\<rparr>) m
           in if current_offset = 0
              then Some (0, upd_alloc pa (\<lambda>a. a\<lparr>m_run_out := 1\<rparr>) m)
              else take_unit pa current_offset
                (upd_alloc pa (\<lambda>a. a\<lparr>m_next_allocate_unit_offset := current_offset\<rparr>) m))"

definition drop_freed_unit_into_page :: "addr \<Rightarrow> addr \<Rightarrow> mem \<Rightarrow> mem option" where
  "drop_freed_unit_into_page page unit m =
     (let pa = alloc_head page;
          unit_offset = ucast (unit - pa)
      in if m_life (unit_at m unit) \<noteq> RELEASED then None
         else
           let m = upd_unit unit (\<lambda>u. u\<lparr>m_next_free_unit_offset :=
                 m_freed_unit_offset (alloc_at m pa)\<rparr>) m
           in Some (upd_alloc pa (\<lambda>a. a\<lparr>m_freed_unit_offset := unit_offset\<rparr>) m))"

definition get_unit_available_size :: "addr \<Rightarrow> mem \<Rightarrow> u64 option" where
  "get_unit_available_size this m =
     (if m_next_free_unit_offset (unit_at m this) \<noteq> 0
      then Some (ucast (m_unit_size_in_page
        (alloc_at m (this - ucast (m_next_free_unit_offset (unit_at m this))))))
      else
        let huge_page = this - sizeof_PageHead in
        if m_page_count_if_huge (page_at m huge_page) = 0 then None
        else Some (m_page_count_if_huge (page_at m huge_page) * NORMAL_PAGE_SIZE
          - (sizeof_PageHead + sizeof_UnitHead)))"

end
