(* ===== verification/Woomem_Pools.thy ===== *)
theory Woomem_Pools
  imports Woomem_Chunk Woomem_Page_Unit
begin

text \<open>
  Where units come from: the pools of partly used pages shared by all threads
  (\<^verbatim>\<open>src/woomem_global_page_collection.hpp\<close>), the pages each thread allocates from
  (\<^verbatim>\<open>src/woomem_thread_page_collection.hpp\<close>), and the contexts that own them
  (\<^verbatim>\<open>src/woomem_global_context.cpp\<close>, \<^verbatim>\<open>src/woomem_thread_context.cpp\<close>). Each pool is guarded by a spin
  flag and the chunk by its lock, so an operation is one step here.
\<close>

section \<open>State\<close>

text \<open>
  The shared heap: the chunk with its memory and kernel, the head of the chain of all pages
  (\<open>m_all_page_list\<close>), and for each group the vector \<open>m_pages\<close> of its free-page list, its back first.
\<close>

record 'os heap =
  h_chunk :: "'os chunk_state"
  m_all_page_list :: addr
  m_free_pages :: "addr list list"

definition heap_mem :: "'os heap \<Rightarrow> mem" where
  "heap_mem h = mem_of (h_chunk h)"

definition upd_mem :: "(mem \<Rightarrow> mem) \<Rightarrow> 'os heap \<Rightarrow> 'os heap" where
  "upd_mem f h = h\<lparr>h_chunk := (h_chunk h)\<lparr>mem_of := f (mem_of (h_chunk h))\<rparr>\<rparr>"

section \<open>GlobalPageCollection\<close>

definition GlobalPageCollection :: "'os chunk_state \<Rightarrow> addr \<Rightarrow> 'os heap option" where
  "GlobalPageCollection c all_pages =
     (if is_init_failed (chunk_of c) then None
      else Some \<lparr>h_chunk = c, m_all_page_list = all_pages, m_free_pages = replicate MAX_GROUP []\<rparr>)"

text \<open>The retirement of a marked page: the mark is cleared and the page counts as run out.\<close>

definition retire_page :: "addr \<Rightarrow> mem \<Rightarrow> mem" where
  "retire_page page = upd_alloc (alloc_head page)
     (\<lambda>a. a\<lparr>m_mark_as_run_out_in_global_pool := False, m_run_out := 1\<rparr>)"

fun pick_free_page :: "addr list \<Rightarrow> mem \<Rightarrow> addr \<times> addr list \<times> mem" where
  "pick_free_page [] m = (0, [], m)"
| "pick_free_page (page # pages) m =
     (if page = 0 then pick_free_page pages m
      else if m_mark_as_run_out_in_global_pool (alloc_at m (alloc_head page))
      then pick_free_page pages (retire_page page m)
      else (page, pages, m))"

definition return_free_page :: "addr \<Rightarrow> addr list \<Rightarrow> addr list" where
  "return_free_page page pages = page # pages"

definition return_page :: "addr \<Rightarrow> unit_alloc_group \<Rightarrow> 'os heap \<Rightarrow> 'os heap option" where
  "return_page page grp h =
     rd (m_free_pages h) (group_index grp) \<bind> (\<lambda>pages.
     wr (m_free_pages h) (group_index grp) (return_free_page page pages) \<bind> (\<lambda>fp.
     Some (h\<lparr>m_free_pages := fp\<rparr>)))"

definition require_normal_page ::
  "target \<Rightarrow> 'os syscalls \<Rightarrow> unit_alloc_group \<Rightarrow> 'os heap \<Rightarrow> (addr \<times> 'os heap) option" where
  "require_normal_page tgt sys grp h =
     do {
       pages \<leftarrow> rd (m_free_pages h) (group_index grp);
       let (page, pages', m) = pick_free_page pages (heap_mem h);
       fp \<leftarrow> wr (m_free_pages h) (group_index grp) pages';
       let h = upd_mem (\<lambda>_. m) h\<lparr>m_free_pages := fp\<rparr>;
       if page \<noteq> 0 then
         if m_page_count_if_huge (page_at m page) = 0 \<and> m_run_out (alloc_at m (alloc_head page)) = 0 \<and>
            ucast (m_unit_size_in_page (alloc_at m (alloc_head page))) = group_size grp
         then Some (page, h) else None
       else do {
         (page, c) \<leftarrow> allocate_page tgt sys (h_chunk h);
         if page \<noteq> 0 then do {
           (m, all_pages) \<leftarrow> init_page_for_unit_allocating page grp (mem_of c, m_all_page_list h);
           Some (page, h\<lparr>h_chunk := c\<lparr>mem_of := m\<rparr>, m_all_page_list := all_pages\<rparr>)
         }
         else Some (page, h\<lparr>h_chunk := c\<rparr>)
       }
     }"

text \<open>One free list of \<open>remove_marked_run_out_pages\<close>: marked pages are retired, their entries set to null.\<close>

fun remove_marked :: "addr list \<Rightarrow> mem \<Rightarrow> addr list \<times> mem" where
  "remove_marked [] m = ([], m)"
| "remove_marked (page # pages) m =
     (if page \<noteq> 0 \<and> m_mark_as_run_out_in_global_pool (alloc_at m (alloc_head page))
      then let (ps, m) = remove_marked pages (retire_page page m) in (0 # ps, m)
      else let (ps, m) = remove_marked pages m in (page # ps, m))"

fun remove_marked_lists :: "addr list list \<Rightarrow> mem \<Rightarrow> addr list list \<times> mem" where
  "remove_marked_lists [] m = ([], m)"
| "remove_marked_lists (pages # pgs) m =
     (let (ps, m) = remove_marked pages m; (ls, m) = remove_marked_lists pgs m in (ps # ls, m))"

definition remove_marked_run_out_pages :: "'os heap \<Rightarrow> 'os heap" where
  "remove_marked_run_out_pages h =
     (let (fp, m) = remove_marked_lists (m_free_pages h) (heap_mem h)
      in upd_mem (\<lambda>_. m) h\<lparr>m_free_pages := fp\<rparr>)"

section \<open>ThreadPageCollection\<close>

text \<open>\<open>m_attached\<close>: \<open>m_global_page_collection\<close> is not null (there is one global page collection).\<close>

record thread_pages =
  m_attached :: bool
  m_cached_pages :: "addr list"

definition ThreadPageCollection :: "bool \<Rightarrow> thread_pages" where
  "ThreadPageCollection attached = \<lparr>m_attached = attached, m_cached_pages = replicate MAX_GROUP 0\<rparr>"

definition init_manually :: "thread_pages \<Rightarrow> thread_pages option" where
  "init_manually t = (if m_attached t then None else Some (t\<lparr>m_attached := True\<rparr>))"

fun return_cached :: "(addr \<times> unit_alloc_group) list \<Rightarrow> 'os heap \<Rightarrow> 'os heap option" where
  "return_cached [] h = Some h"
| "return_cached ((page, grp) # rest) h =
     (if page \<noteq> 0 then return_page page grp h else Some h) \<bind> return_cached rest"

definition shutdown_manually :: "thread_pages \<Rightarrow> 'os heap \<Rightarrow> (thread_pages \<times> 'os heap) option" where
  "shutdown_manually t h =
     (if m_attached t
      then return_cached (zip (m_cached_pages t) all_groups) h \<bind> (\<lambda>h'. Some (t\<lparr>m_attached := False\<rparr>, h'))
      else Some (t, h))"

text \<open>
  The loop of \<open>pick_unit_in_page\<close> from \<open>_label_retry_allocate_with_new_page\<close>: try the cached page, and
  while it has no unit left replace it by one from the pool or a new one.
\<close>

partial_function (option) pick_from_pages ::
  "target \<Rightarrow> 'os syscalls \<Rightarrow> unit_alloc_group \<Rightarrow> addr \<Rightarrow> 'os heap \<Rightarrow> (addr \<times> addr \<times> 'os heap) option" where
  "pick_from_pages tgt sys grp cached h =
     (if cached \<noteq> 0
      then pick_unit_from_page_without_init cached (heap_mem h) \<bind> (\<lambda>um. Some (fst um, upd_mem (\<lambda>_. snd um) h))
      else Some (0, h)) \<bind> (\<lambda>uh.
     if fst uh \<noteq> 0 then Some (fst uh + sizeof_UnitHead, cached, snd uh)
     else require_normal_page tgt sys grp (snd uh) \<bind> (\<lambda>ph.
       if fst ph = 0 then Some (0, 0, snd ph)
       else pick_from_pages tgt sys grp (fst ph) (snd ph)))"

declare pick_from_pages.simps [code]

definition pick_unit_in_page ::
  "target \<Rightarrow> 'os syscalls \<Rightarrow> u64 \<Rightarrow> thread_pages \<Rightarrow> 'os heap \<Rightarrow> (addr \<times> thread_pages \<times> 'os heap) option" where
  "pick_unit_in_page tgt sys unit_size t h =
     (if \<not> m_attached t \<or> MAX_IN_PAGE_UNIT_SIZE < unit_size then None
      else do {
        grp \<leftarrow> eval_group_by_small_unit_size unit_size;
        cached \<leftarrow> rd (m_cached_pages t) (group_index grp);
        (p, cached', h') \<leftarrow> pick_from_pages tgt sys grp cached h;
        cs \<leftarrow> wr (m_cached_pages t) (group_index grp) cached';
        Some (p, t\<lparr>m_cached_pages := cs\<rparr>, h')
      })"

section \<open>GlobalContext and ThreadContext\<close>

text \<open>
  A thread context: its pages, the number of the collector worker it marks for (\<open>None\<close> is a null
  \<open>m_gc_marking_context\<close>) and whether it is a worker itself.
\<close>

record thread_context =
  m_thread_page_collection :: thread_pages
  m_gc_marking_context :: "nat option"
  m_is_gc_worker_context :: bool

text \<open>
  The global context: its flags, the registered thread contexts (an unordered set in the sources,
  in some order here), and the storage of the heap, which holds a chunk and a page collection while
  the context is initialised. \<open>m_all_page_list\<close> is a member of the context itself, next to that
  storage, and survives it.
\<close>

record 'os global_context =
  m_globalcontext_alive :: bool
  m_globalcontext_inited :: bool
  m_thread_entries :: "thread_context list"
  gx_heap :: "'os heap"

text \<open>The loops of \<open>init\<close> and \<open>shutdown\<close> over the registered threads.\<close>

fun init_threads :: "thread_context list \<Rightarrow> thread_context list option" where
  "init_threads [] = Some []"
| "init_threads (t # ts) =
     init_manually (m_thread_page_collection t) \<bind> (\<lambda>p.
     init_threads ts \<bind> (\<lambda>ts'. Some (t\<lparr>m_thread_page_collection := p\<rparr> # ts')))"

fun shutdown_threads :: "thread_context list \<Rightarrow> 'os heap \<Rightarrow> (thread_context list \<times> 'os heap) option" where
  "shutdown_threads [] h = Some ([], h)"
| "shutdown_threads (t # ts) h =
     shutdown_manually (m_thread_page_collection t) h \<bind> (\<lambda>(p, h).
     shutdown_threads ts h \<bind> (\<lambda>(ts', h). Some (t\<lparr>m_thread_page_collection := p\<rparr> # ts', h)))"

definition GlobalContext :: "'os heap \<Rightarrow> 'os global_context" where
  "GlobalContext storage = \<lparr>m_globalcontext_alive = True, m_globalcontext_inited = False, m_thread_entries = [],
     gx_heap = storage\<rparr>"

definition global_init ::
  "target \<Rightarrow> 'os syscalls \<Rightarrow> u64 \<Rightarrow> 'os global_context \<Rightarrow> (bool \<times> 'os global_context) option" where
  "global_init tgt sys reserved_chunk_size g =
     (if m_globalcontext_inited g then None
      else
        let s = h_chunk (gx_heap g) in
        do {
          (c, os) \<leftarrow> Chunk tgt sys reserved_chunk_size (os_of s);
          if is_init_failed c then
            let s = s\<lparr>chunk_of := c, os_of := Chunk_destroy sys c os\<rparr>
            in Some (False, g\<lparr>gx_heap := (gx_heap g)\<lparr>h_chunk := s\<rparr>\<rparr>)
          else do {
            h \<leftarrow> GlobalPageCollection (s\<lparr>chunk_of := c, os_of := os\<rparr>) (m_all_page_list (gx_heap g));
            ts \<leftarrow> init_threads (m_thread_entries g);
            Some (True, g\<lparr>gx_heap := h, m_globalcontext_inited := True, m_thread_entries := ts\<rparr>)
          }
        })"

definition global_shutdown :: "'os syscalls \<Rightarrow> 'os global_context \<Rightarrow> 'os global_context option" where
  "global_shutdown sys g =
     (if \<not> m_globalcontext_inited g then None
      else do {
        (ts, h) \<leftarrow> shutdown_threads (m_thread_entries g) (gx_heap g);
        let s = h_chunk h;
        let s = s\<lparr>os_of := Chunk_destroy sys (chunk_of s) (os_of s)\<rparr>;
        Some (g\<lparr>m_thread_entries := ts, gx_heap := h\<lparr>h_chunk := s\<rparr>, m_globalcontext_inited := False\<rparr>)
      })"

definition GlobalContext_destroy :: "'os syscalls \<Rightarrow> 'os global_context \<Rightarrow> 'os global_context option" where
  "GlobalContext_destroy sys g =
     (if m_globalcontext_inited g then global_shutdown sys g else Some g) \<bind> (\<lambda>g.
     Some (g\<lparr>m_globalcontext_alive := False\<rparr>))"

definition global_allocate_huge_page ::
  "target \<Rightarrow> 'os syscalls \<Rightarrow> u64 \<Rightarrow> 'os heap \<Rightarrow> (addr \<times> 'os heap) option" where
  "global_allocate_huge_page tgt sys sz h =
     allocate_huge_page tgt sys sz (h_chunk h) \<bind> (\<lambda>(p, c). Some (p, h\<lparr>h_chunk := c\<rparr>))"

text \<open>
  \<open>fetch_thread_worker\<close> of \<^verbatim>\<open>src/woomem_gc.cpp\<close>: the next worker in turn. The collector is the pair of
  its counter \<open>m_gc_assigned_thread_idx\<close> and its number of workers.
\<close>

definition fetch_thread_worker :: "u64 \<times> u64 \<Rightarrow> nat \<times> (u64 \<times> u64)" where
  "fetch_thread_worker = (\<lambda>(idx, worker_count). (unat (idx mod worker_count), (idx + 1, worker_count)))"

text \<open>
  A thread context attaches to the collection if there is one, takes a worker if there is a collector
  (\<open>g_gc_ctx\<close> is not null) and registers; the destructor unregisters and then gives the pages back.
\<close>

definition ThreadContext ::
  "(u64 \<times> u64) option \<Rightarrow> 'os global_context \<Rightarrow> thread_context \<times> (u64 \<times> u64) option \<times> 'os global_context" where
  "ThreadContext gc g =
     (let (worker, gc') = (case gc of None \<Rightarrow> (None, None)
            | Some c \<Rightarrow> let (w, c') = fetch_thread_worker c in (Some w, Some c'));
          t = \<lparr>m_thread_page_collection = ThreadPageCollection (m_globalcontext_inited g),
            m_gc_marking_context = worker, m_is_gc_worker_context = False\<rparr>
      in (t, gc', if m_globalcontext_alive g then g\<lparr>m_thread_entries := t # m_thread_entries g\<rparr> else g))"

definition ThreadContext_destroy :: "nat \<Rightarrow> 'os global_context \<Rightarrow> 'os global_context option" where
  "ThreadContext_destroy i g =
     rd (m_thread_entries g) i \<bind> (\<lambda>t.
     shutdown_manually (m_thread_page_collection t) (gx_heap g) \<bind> (\<lambda>(_, h).
     Some (g\<lparr>m_thread_entries := (if m_globalcontext_alive g
         then take i (m_thread_entries g) @ drop (Suc i) (m_thread_entries g) else m_thread_entries g),
       gx_heap := h\<rparr>)))"

end
