(* ===== verification/Woomem_Api.thy ===== *)
theory Woomem_Api
  imports Woomem_Pools
begin

text \<open>
  The allocation interface of \<^verbatim>\<open>src/woomem.cpp\<close>: allocating in two phases, reallocating, and resolving
  an arbitrary address to the unit it points into. The marking interface is in \<open>Woomem_Gc\<close>.
\<close>

section \<open>Resolving addresses\<close>

definition woomem_validate_addr :: "addr \<Rightarrow> chunk \<Rightarrow> mem \<Rightarrow> addr option" where
  "woomem_validate_addr ptr_may_invalid c m =
     do {
       page_head \<leftarrow> validate ptr_may_invalid c;
       if page_head \<noteq> 0 \<and> \<not> m_page_just_allocated (page_at m page_head) then
         let page_alloc_head = page_head + sizeof_PageHead;
             storage_begin = page_alloc_head + sizeof_PageUnitAlloc;
             unit_size_with_head = ucast (m_unit_size_in_page (alloc_at m page_alloc_head)) + sizeof_UnitHead
         in
         if m_page_count_if_huge (page_at m page_head) = 0 \<and> ptr_may_invalid < storage_begin then Some 0
         else
           let unit_head =
             (if m_page_count_if_huge (page_at m page_head) = 0
              then storage_begin +
                (ptr_may_invalid - storage_begin) div unit_size_with_head * unit_size_with_head
              else page_head + sizeof_PageHead)
           in if PENDING < m_life (unit_at m unit_head) then Some (unit_head + sizeof_UnitHead) else Some 0
       else Some 0
     }"

definition woomem_validate_addr_head :: "addr \<Rightarrow> chunk \<Rightarrow> mem \<Rightarrow> addr option" where
  "woomem_validate_addr_head ptr_may_invalid c m =
     (if ptr_may_invalid AND 7 = 0 then woomem_validate_addr ptr_may_invalid c m else Some 0)"

section \<open>Allocating\<close>

text \<open>
  The state a call works on: the calling thread's pages, the heap, and the collector's counter of
  newly allocated bytes.
\<close>

record 'os alloc_state =
  al_thread :: thread_pages
  al_heap :: "'os heap"
  m_new_allocated_size_since_last_gc :: u64

definition woomem_allocate_begin ::
  "target \<Rightarrow> 'os syscalls \<Rightarrow> u64 \<Rightarrow> 'os alloc_state \<Rightarrow> (addr \<times> 'os alloc_state) option" where
  "woomem_allocate_begin tgt sys sz s =
     (let s = s\<lparr>m_new_allocated_size_since_last_gc := m_new_allocated_size_since_last_gc s + sz\<rparr> in
      if sz \<le> MAX_IN_PAGE_UNIT_SIZE
      then pick_unit_in_page tgt sys sz (al_thread s) (al_heap s) \<bind> (\<lambda>(p, t, h).
        Some (p, s\<lparr>al_thread := t, al_heap := h\<rparr>))
      else do {
        (page, h) \<leftarrow> global_allocate_huge_page tgt sys (sizeof_PageHead + sizeof_UnitHead + sz) (al_heap s);
        if page = 0 then Some (0, s\<lparr>al_heap := h\<rparr>)
        else
          let huge_unit_head = page + sizeof_PageHead;
              m = upd_unit huge_unit_head (\<lambda>u. u\<lparr>m_next_free_unit_offset := 0, m_life := PENDING\<rparr>) (heap_mem h)
          in add_new_page_into_chain page (m, m_all_page_list h) \<bind> (\<lambda>(m, all_pages).
            Some (huge_unit_head + sizeof_UnitHead,
              s\<lparr>al_heap := (upd_mem (\<lambda>_. m) h)\<lparr>m_all_page_list := all_pages\<rparr>\<rparr>))
      })"

definition woomem_allocate_end :: "u8 \<Rightarrow> addr \<Rightarrow> u32 \<Rightarrow> mem \<Rightarrow> mem" where
  "woomem_allocate_end round p attrib =
     upd_unit (p - sizeof_UnitHead) (\<lambda>u. u\<lparr>m_age := 15, m_timing := round, m_attribute := ucast attrib,
       m_life := UNMARKED\<rparr>)"

section \<open>Reallocating\<close>

text \<open>
  \<open>memcpy\<close> of \<open>n\<close> machine words. The sizes that \<open>woomem_reallocate\<close> copies, those of a group or of a
  huge unit, are multiples of 8, and units do not overlap.
\<close>

fun copy_words :: "addr \<Rightarrow> addr \<Rightarrow> nat \<Rightarrow> mem \<Rightarrow> mem" where
  "copy_words dst src 0 m = m"
| "copy_words dst src (Suc n) m =
     (let m = copy_words dst src n m in
      m\<lparr>word_at := (word_at m)(dst + w64 (8 * n) := word_at m (src + w64 (8 * n)))\<rparr>)"

definition woomem_reallocate ::
  "target \<Rightarrow> 'os syscalls \<Rightarrow> u8 \<Rightarrow> addr \<Rightarrow> u64 \<Rightarrow> 'os alloc_state \<Rightarrow> (addr \<times> 'os alloc_state) option" where
  "woomem_reallocate tgt sys round ptr sz s =
     (if ptr = 0 then None
      else
        let unit_head = ptr - sizeof_UnitHead in
        do {
          space \<leftarrow> get_unit_available_size unit_head (heap_mem (al_heap s));
          if sz \<le> space then Some (ptr, s)
          else do {
            (new_ptr, s) \<leftarrow> woomem_allocate_begin tgt sys sz s;
            if new_ptr = 0 then Some (0, s)
            else
              let m = copy_words new_ptr ptr (unat space div 8) (heap_mem (al_heap s));
                  m = woomem_allocate_end round new_ptr (ucast (m_attribute (unit_at m unit_head))) m
              in Some (new_ptr, s\<lparr>al_heap := upd_mem (\<lambda>_. m) (al_heap s)\<rparr>)
          }
        })"

end
