(* ===== verification/Woomem_Page_Unit_Props.thy ===== *)
theory Woomem_Page_Unit_Props
  imports Woomem_Page_Unit
begin

text \<open>
  Correctness of the unit allocator of a page: the group tables, the layout of the units, the
  representation invariant of the two free lists, and what each operation does to the set of units
  in use.
\<close>

section \<open>Groups\<close>

lemma group_index_less: "group_index g < length GROUP_SIZE_LOOKUP_TABLE"
  by (cases g) (simp_all add: GROUP_SIZE_LOOKUP_TABLE_def)

lemma set_all_groups: "set all_groups = UNIV"
proof -
  have "g \<in> set all_groups" for g by (cases g) (simp_all add: all_groups_def)
  then show ?thesis by blast
qed

definition usz :: "unit_alloc_group \<Rightarrow> nat" where
  "usz g = unat (group_size g) + 8"

definition unit_count :: "unit_alloc_group \<Rightarrow> nat" where
  "unit_count g = 32736 div usz g"

text \<open>The units of every group fill the page to its last byte.\<close>

lemma units_tile: "unit_count g * usz g = 32736"
  by (cases g) (simp_all add: unit_count_def usz_def group_size_def GROUP_SIZE_LOOKUP_TABLE_def)

lemma usz_bounds: "24 \<le> usz g" "usz g \<le> 16368" "8 dvd usz g" "unat (group_size g) = usz g - 8"
  by (cases g; simp add: usz_def group_size_def GROUP_SIZE_LOOKUP_TABLE_def)+

lemma unit_count_pos: "0 < unit_count g"
  using units_tile [of g] by (cases "unit_count g") auto

lemma units_in_page_eq:
  "unat (units_in_page (sizeof_UnitHead + ucast (ucast (group_size g) :: u16))) = unit_count g"
  by (cases g) (simp_all add: units_in_page_def sizeof_defs unit_count_def usz_def group_size_def
    GROUP_SIZE_LOOKUP_TABLE_def)

lemma group_size_16: "(ucast (ucast (group_size g) :: u16) :: u64) = group_size g"
  by (cases g) (simp_all add: group_size_def GROUP_SIZE_LOOKUP_TABLE_def)

lemma group_size_inj: "group_size g = group_size h \<longleftrightarrow> g = h"
  by (cases g; cases h) (simp_all add: group_size_def GROUP_SIZE_LOOKUP_TABLE_def)

section \<open>Offsets and addresses of units\<close>

abbreviation w16 :: "nat \<Rightarrow> u16" where
  "w16 \<equiv> word_of_nat"

lemma unat_w16: "k < 2 ^ 16 \<Longrightarrow> unat (w16 k) = k"
  by (rule of_nat_inverse [OF refl]) simp

definition unit_offset :: "unit_alloc_group \<Rightarrow> nat \<Rightarrow> u16" where
  "unit_offset g i = w16 (8 + i * usz g)"

definition unit_offsets :: "unit_alloc_group \<Rightarrow> u16 set" where
  "unit_offsets g = unit_offset g ` {..<unit_count g}"

lemma unit_offset_bound:
  assumes "i < unit_count g"
  shows "8 + i * usz g + usz g \<le> 32744"
proof -
  have "Suc i * usz g \<le> unit_count g * usz g" using assms by (intro mult_le_mono1) simp
  then show ?thesis by (simp add: units_tile)
qed

lemma unat_unit_offset: "i < unit_count g \<Longrightarrow> unat (unit_offset g i) = 8 + i * usz g"
  unfolding unit_offset_def by (rule unat_w16) (use unit_offset_bound in fastforce)

lemma unit_offset_inj:
  assumes "i < unit_count g" "j < unit_count g"
  shows "unit_offset g i = unit_offset g j \<longleftrightarrow> i = j"
proof -
  have "unit_offset g i = unit_offset g j \<longleftrightarrow> 8 + i * usz g = 8 + j * usz g"
    using assms by (metis unat_unit_offset word_unat_eq_iff)
  then show ?thesis using usz_bounds(1) [of g] by simp
qed

lemma unit_offsets_nonzero: "0 \<notin> unit_offsets g"
proof -
  have "unit_offset g i \<noteq> 0" if "i < unit_count g" for i
    using unat_unit_offset [OF that] by (metis add_is_0 unsigned_0 zero_neq_numeral)
  then show ?thesis by (auto simp: unit_offsets_def)
qed

lemma finite_unit_offsets: "finite (unit_offsets g)" "card (unit_offsets g) = unit_count g"
  using unit_offset_inj by (auto simp: unit_offsets_def inj_on_def intro!: card_image [THEN trans])

lemma ucast_u16_id [simp]: "(ucast (ucast (a :: u16) :: u64) :: u16) = a"
  by (rule ucast_up_ucast_id) (simp add: is_up)

lemma unat_ucast_u16_u64 [simp]: "unat (ucast (x :: u16) :: u64) = unat x"
  by (simp add: unsigned_ucast_eq take_bit_nat_eq_self order.strict_trans [OF unsigned_less])

lemma unit_addr_inj [simp]: "unit_addr page a = unit_addr page b \<longleftrightarrow> a = b"
  by (metis add_left_cancel ucast_u16_id unit_addr_def)

section \<open>The free lists\<close>

text \<open>The link and the life of the unit at an offset of a page.\<close>

definition unit_link :: "mem \<Rightarrow> addr \<Rightarrow> u16 \<Rightarrow> u16" where
  "unit_link m page off = m_next_free_unit_offset (unit_at m (unit_addr page off))"

definition unit_life_of :: "mem \<Rightarrow> addr \<Rightarrow> u16 \<Rightarrow> unit_life" where
  "unit_life_of m page off = m_life (unit_at m (unit_addr page off))"

text \<open>
  \<open>unit_lists m page g X fs bs\<close>: the page is cut into units of group \<open>g\<close>, \<open>fs\<close> is the list private to
  the owning thread and \<open>bs\<close> the list of units dropped by the sweeper; \<open>X\<close> are the units already
  released and not dropped yet. Every other unit is in use and holds its own offset.
\<close>

definition unit_lists :: "mem \<Rightarrow> addr \<Rightarrow> unit_alloc_group \<Rightarrow> u16 set \<Rightarrow> u16 list \<Rightarrow> u16 list \<Rightarrow> bool" where
  "unit_lists m page g X fs bs \<longleftrightarrow>
     m_unit_size_in_page (alloc_at m (alloc_head page)) = ucast (group_size g) \<and>
     chain (unit_link m page) (m_next_allocate_unit_offset (alloc_at m (alloc_head page))) fs \<and>
     chain (unit_link m page) (m_freed_unit_offset (alloc_at m (alloc_head page))) bs \<and>
     set fs \<inter> set bs = {} \<and> X \<inter> (set fs \<union> set bs) = {} \<and>
     set fs \<union> set bs \<union> X \<subseteq> unit_offsets g \<and>
     (\<forall>off \<in> unit_offsets g. unit_life_of m page off = RELEASED \<longleftrightarrow> off \<in> set fs \<union> set bs \<union> X) \<and>
     (\<forall>off \<in> unit_offsets g - set fs - set bs - X. unit_link m page off = off)"

definition page_inv :: "mem \<Rightarrow> addr \<Rightarrow> unit_alloc_group \<Rightarrow> u16 set \<Rightarrow> bool" where
  "page_inv m page g X \<longleftrightarrow> (\<exists>fs bs. unit_lists m page g X fs bs)"

definition live_units :: "mem \<Rightarrow> addr \<Rightarrow> unit_alloc_group \<Rightarrow> u16 set" where
  "live_units m page g = {off \<in> unit_offsets g. unit_life_of m page off \<noteq> RELEASED}"

lemma live_units_lists:
  "unit_lists m page g X fs bs \<Longrightarrow> live_units m page g = unit_offsets g - set fs - set bs - X"
  by (auto simp: unit_lists_def live_units_def)

lemma unit_upd_simps [simp]:
  "unit_link (upd_unit (unit_addr page off) f m) page =
     (unit_link m page)(off := m_next_free_unit_offset (f (unit_at m (unit_addr page off))))"
  "unit_life_of (upd_unit (unit_addr page off) f m) page =
     (unit_life_of m page)(off := m_life (f (unit_at m (unit_addr page off))))"
  "unit_link (upd_alloc a h m) page = unit_link m page"
  "unit_life_of (upd_alloc a h m) page = unit_life_of m page"
  "alloc_at (upd_unit u f m) = alloc_at m"
  "alloc_at (upd_alloc a h m) = (alloc_at m)(a := h (alloc_at m a))"
  "page_at (upd_unit u f m) = page_at m"
  "page_at (upd_alloc a h m) = page_at m"
  "unit_at (upd_alloc a h m) = unit_at m"
  "unit_at (upd_unit u f m) = (unit_at m)(u := f (unit_at m u))"
  by (auto simp: unit_link_def unit_life_of_def upd_unit_def upd_alloc_def)

text \<open>What an operation on the units of a page leaves alone.\<close>

definition page_frame :: "addr \<Rightarrow> unit_alloc_group \<Rightarrow> mem \<Rightarrow> mem \<Rightarrow> bool" where
  "page_frame page g m m' \<longleftrightarrow>
     page_at m' = page_at m \<and> word_at m' = word_at m \<and>
     (\<forall>a. a \<noteq> alloc_head page \<longrightarrow> alloc_at m' a = alloc_at m a) \<and>
     (\<forall>a. a \<notin> unit_addr page ` unit_offsets g \<longrightarrow> unit_at m' a = unit_at m a)"

lemma word_at_upd [simp]: "word_at (upd_unit u f m) = word_at m" "word_at (upd_alloc a h m) = word_at m"
  by (simp_all add: mem_defs)

section \<open>Taking and dropping units\<close>

lemmas unit_listsD =
  unit_lists_def [THEN iffD1, THEN conjunct1]
  unit_lists_def [THEN iffD1, THEN conjunct2, THEN conjunct1]
  unit_lists_def [THEN iffD1, THEN conjunct2, THEN conjunct2, THEN conjunct1]

lemma unit_lists_sets:
  assumes "unit_lists m page g X fs bs"
  shows "set fs \<inter> set bs = {}" "X \<inter> (set fs \<union> set bs) = {}" "set fs \<union> set bs \<union> X \<subseteq> unit_offsets g"
    "distinct fs" "distinct bs"
    "off \<in> unit_offsets g \<Longrightarrow> unit_life_of m page off = RELEASED \<longleftrightarrow> off \<in> set fs \<union> set bs \<union> X"
    "off \<in> unit_offsets g \<Longrightarrow> off \<notin> set fs \<union> set bs \<union> X \<Longrightarrow> unit_link m page off = off"
  using assms unfolding unit_lists_def by (simp_all) (blast dest: chain_distinct)+

lemma unit_listsI:
  assumes "m_unit_size_in_page (alloc_at m (alloc_head page)) = ucast (group_size g)"
    "chain (unit_link m page) (m_next_allocate_unit_offset (alloc_at m (alloc_head page))) fs"
    "chain (unit_link m page) (m_freed_unit_offset (alloc_at m (alloc_head page))) bs"
    "set fs \<inter> set bs = {}" "X \<inter> (set fs \<union> set bs) = {}" "set fs \<union> set bs \<union> X \<subseteq> unit_offsets g"
    "\<And>off. off \<in> unit_offsets g \<Longrightarrow> unit_life_of m page off = RELEASED \<longleftrightarrow> off \<in> set fs \<union> set bs \<union> X"
    "\<And>off. off \<in> unit_offsets g \<Longrightarrow> off \<notin> set fs \<union> set bs \<union> X \<Longrightarrow> unit_link m page off = off"
  shows "unit_lists m page g X fs bs"
  using assms unfolding unit_lists_def by simp

lemma take_unit_lists:
  assumes L: "unit_lists m page g X (off # fs) bs"
  shows "\<exists>m'. take_unit (alloc_head page) off m = Some (unit_addr page off, m') \<and>
    unit_lists m' page g X fs bs \<and> unit_life_of m' page off = PENDING \<and> page_frame page g m m' \<and>
    m_run_out (alloc_at m' (alloc_head page)) = m_run_out (alloc_at m (alloc_head page))"
proof -
  note S = unit_lists_sets [OF L]
  have off: "off \<in> unit_offsets g" "off \<notin> set fs" "off \<notin> set bs" "off \<notin> X" using S(1-4) by auto
  have rel: "unit_life_of m page off = RELEASED" using S(6) [OF off(1)] by simp
  let ?u = "unit_addr page off" and ?pa = "alloc_head page"
  define m' where "m' = upd_unit ?u (\<lambda>u. u\<lparr>m_life := PENDING\<rparr>)
    (upd_unit ?u (\<lambda>u. u\<lparr>m_next_free_unit_offset := off\<rparr>)
    (upd_alloc ?pa (\<lambda>a. a\<lparr>m_next_allocate_unit_offset := unit_link m page off\<rparr>) m))"
  have "take_unit ?pa off m = Some (?u, m')"
    using rel by (simp add: take_unit_def Let_def m'_def unit_life_of_def unit_link_def flip: unit_addr_def)
  moreover have "unit_lists m' page g X fs bs"
  proof (rule unit_listsI)
    show "chain (unit_link m' page) (m_next_allocate_unit_offset (alloc_at m' ?pa)) fs"
      "chain (unit_link m' page) (m_freed_unit_offset (alloc_at m' ?pa)) bs"
      using unit_listsD(2,3) [OF L] off by (simp_all add: m'_def)
    show "unit_life_of m' page k = RELEASED \<longleftrightarrow> k \<in> set fs \<union> set bs \<union> X" if "k \<in> unit_offsets g" for k
      using S(6) [OF that] off by (simp add: m'_def)
    show "unit_link m' page k = k" if "k \<in> unit_offsets g" "k \<notin> set fs \<union> set bs \<union> X" for k
      using S(7) [OF that(1)] that(2) by (simp add: m'_def)
  qed (use S(1-3) unit_listsD(1) [OF L] in \<open>auto simp: m'_def\<close>)
  moreover have "page_frame page g m m'" using off(1) by (auto simp: page_frame_def m'_def)
  ultimately show ?thesis by (auto simp: m'_def)
qed

lemma drop_unit_lists:
  assumes L: "unit_lists m page g X fs bs" and off: "off \<in> X"
  shows "\<exists>m'. drop_freed_unit_into_page page (unit_addr page off) m = Some m' \<and>
    unit_lists m' page g (X - {off}) fs (off # bs) \<and> page_frame page g m m' \<and>
    m_run_out (alloc_at m' (alloc_head page)) = m_run_out (alloc_at m (alloc_head page)) \<and>
    unit_life_of m' page = unit_life_of m page"
proof -
  note S = unit_lists_sets [OF L]
  have o: "off \<in> unit_offsets g" "off \<notin> set fs" "off \<notin> set bs" using S(2,3) off by auto
  have rel: "unit_life_of m page off = RELEASED" using S(6) [OF o(1)] off by simp
  have nz: "off \<noteq> 0" using o(1) unit_offsets_nonzero by metis
  let ?u = "unit_addr page off" and ?pa = "alloc_head page"
  define m' where "m' = upd_alloc ?pa (\<lambda>a. a\<lparr>m_freed_unit_offset := off\<rparr>)
    (upd_unit ?u (\<lambda>u. u\<lparr>m_next_free_unit_offset := m_freed_unit_offset (alloc_at m ?pa)\<rparr>) m)"
  have "(ucast (?u - ?pa) :: u16) = off" by (simp add: unit_addr_def)
  then have "drop_freed_unit_into_page page ?u m = Some m'"
    using rel by (simp add: drop_freed_unit_into_page_def Let_def m'_def unit_life_of_def)
  moreover have "unit_lists m' page g (X - {off}) fs (off # bs)"
  proof (rule unit_listsI)
    show "chain (unit_link m' page) (m_next_allocate_unit_offset (alloc_at m' ?pa)) fs"
      "chain (unit_link m' page) (m_freed_unit_offset (alloc_at m' ?pa)) (off # bs)"
      using unit_listsD(2,3) [OF L] o nz by (simp_all add: m'_def)
    show "unit_life_of m' page k = RELEASED \<longleftrightarrow> k \<in> set fs \<union> set (off # bs) \<union> (X - {off})"
      if "k \<in> unit_offsets g" for k
      using S(6) [OF that] off rel by (auto simp: m'_def unit_life_of_def)
    show "unit_link m' page k = k"
      if "k \<in> unit_offsets g" "k \<notin> set fs \<union> set (off # bs) \<union> (X - {off})" for k
      using S(7) [OF that(1)] that(2) by (auto simp: m'_def)
  qed (use S(1-3) o off unit_listsD(1) [OF L] in \<open>auto simp: m'_def\<close>)
  moreover have "page_frame page g m m'" using o(1) by (auto simp: page_frame_def m'_def)
  ultimately show ?thesis by (auto simp: m'_def unit_life_of_def fun_eq_iff)
qed

text \<open>Storing \<open>RELEASED\<close> puts a unit in use between its two lives.\<close>

text \<open>Changing the head of a unit in use, other than its link, keeps the lists as long as it stays in use.\<close>

lemma upd_used_lists:
  assumes L: "unit_lists m page g X fs bs" and off: "off \<in> unit_offsets g" "unit_life_of m page off \<noteq> RELEASED"
    and f: "\<And>u. m_next_free_unit_offset (f u) = m_next_free_unit_offset u"
      "m_life (f (unit_at m (unit_addr page off))) \<noteq> RELEASED"
  shows "unit_lists (upd_unit (unit_addr page off) f m) page g X fs bs"
proof -
  note S = unit_lists_sets [OF L]
  have l: "unit_link (upd_unit (unit_addr page off) f m) page = unit_link m page"
    using f(1) by (simp add: fun_eq_iff unit_link_def)
  have "off \<notin> set fs \<union> set bs \<union> X" using S(6) [OF off(1)] off(2) by simp
  then show ?thesis
    using L f(2) l unfolding unit_lists_def by auto
qed

lemma release_unit_lists:
  assumes L: "unit_lists m page g X fs bs" and off: "off \<in> unit_offsets g" "unit_life_of m page off \<noteq> RELEASED"
  shows "unit_lists (upd_unit (unit_addr page off) (\<lambda>u. u\<lparr>m_life := RELEASED\<rparr>) m) page g (insert off X) fs bs"
proof -
  note S = unit_lists_sets [OF L]
  let ?m = "upd_unit (unit_addr page off) (\<lambda>u. u\<lparr>m_life := RELEASED\<rparr>) m"
  have o: "off \<notin> set fs \<union> set bs \<union> X" using S(6) off by blast
  have lk: "unit_link ?m page = unit_link m page" by (auto simp: unit_link_def)
  show ?thesis
  proof (rule unit_listsI, unfold lk)
    show "unit_life_of ?m page k = RELEASED \<longleftrightarrow> k \<in> set fs \<union> set bs \<union> insert off X" if "k \<in> unit_offsets g" for k
      using S(6) [OF that] by auto
    show "unit_link m page k = k" if "k \<in> unit_offsets g" "k \<notin> set fs \<union> set bs \<union> insert off X" for k
      using S(7) that by auto
  qed (use S(1-3) unit_listsD [OF L] o off(1) in auto)
qed

section \<open>Picking a unit\<close>

lemma upd_alloc_lists:
  assumes "unit_lists m page g X fs bs"
    and "\<And>a. m_unit_size_in_page (h a) = m_unit_size_in_page a"
    and "\<And>a. m_next_allocate_unit_offset (h a) = m_next_allocate_unit_offset a"
    and "\<And>a. m_freed_unit_offset (h a) = m_freed_unit_offset a"
  shows "unit_lists (upd_alloc (alloc_head page) h m) page g X fs bs"
  using assms unfolding unit_lists_def by simp

lemma swap_lists:
  assumes "unit_lists m page g X [] bs"
  shows "unit_lists (upd_alloc (alloc_head page)
    (\<lambda>a. a\<lparr>m_next_allocate_unit_offset := m_freed_unit_offset (alloc_at m (alloc_head page))\<rparr>)
    (upd_alloc (alloc_head page) (\<lambda>a. a\<lparr>m_freed_unit_offset := 0\<rparr>) m)) page g X bs []"
  using assms unfolding unit_lists_def by simp

lemma page_frame_trans: "page_frame page g m m' \<Longrightarrow> page_frame page g m' m'' \<Longrightarrow> page_frame page g m m''"
  by (simp add: page_frame_def)

lemma page_frame_alloc [simp]: "page_frame page g m (upd_alloc (alloc_head page) h m)"
  by (simp add: page_frame_def)

lemma pick_unit_lists:
  assumes L: "unit_lists m page g X fs bs"
  shows "case fs @ bs of
      [] \<Rightarrow> \<exists>m'. pick_unit_from_page_without_init page m = Some (0, m') \<and> unit_lists m' page g X [] [] \<and>
        m_run_out (alloc_at m' (alloc_head page)) = 1 \<and> page_frame page g m m'
    | off # rest \<Rightarrow> \<exists>m' fs' bs'. pick_unit_from_page_without_init page m = Some (unit_addr page off, m') \<and>
        fs' @ bs' = rest \<and> unit_lists m' page g X fs' bs' \<and> unit_life_of m' page off = PENDING \<and>
        page_frame page g m m'"
proof (cases fs)
  case (Cons off fs')
  moreover have "off \<noteq> 0" "m_next_allocate_unit_offset (alloc_at m (alloc_head page)) = off"
    using unit_listsD(2) [OF L] Cons by auto
  ultimately show ?thesis using take_unit_lists [of m page g X off fs' bs] L
    by (auto simp: pick_unit_from_page_without_init_def)
next
  case Nil
  then have z: "m_next_allocate_unit_offset (alloc_at m (alloc_head page)) = 0" using unit_listsD(2) [OF L] by simp
  show ?thesis
  proof (cases bs)
    case (Cons off bs')
    let ?m = "upd_alloc (alloc_head page) (\<lambda>a. a\<lparr>m_freed_unit_offset := 0\<rparr>) m"
    let ?m2 = "upd_alloc (alloc_head page)
      (\<lambda>a. a\<lparr>m_next_allocate_unit_offset := m_freed_unit_offset (alloc_at m (alloc_head page))\<rparr>) ?m"
    have h: "off \<noteq> 0" "m_freed_unit_offset (alloc_at m (alloc_head page)) = off"
      using unit_listsD(3) [OF L] Cons by auto
    have "unit_lists ?m2 page g X (off # bs') []" using swap_lists [of m page g X bs] L Nil Cons by simp
    then obtain m' where m': "take_unit (alloc_head page) off ?m2 = Some (unit_addr page off, m')"
        "unit_lists m' page g X bs' []" "unit_life_of m' page off = PENDING" "page_frame page g ?m2 m'"
      using take_unit_lists by blast
    have "page_frame page g m ?m2" by (rule page_frame_trans [of _ _ _ ?m]) simp_all
    with m'(4) have "page_frame page g m m'" by (rule page_frame_trans [rotated])
    with m' h z Nil Cons show ?thesis
      by (auto simp: pick_unit_from_page_without_init_def Let_def)
  next
    case bs: Nil
    let ?m = "upd_alloc (alloc_head page) (\<lambda>a. a\<lparr>m_freed_unit_offset := 0\<rparr>) m"
    let ?m2 = "upd_alloc (alloc_head page) (\<lambda>a. a\<lparr>m_run_out := 1\<rparr>) ?m"
    have f: "m_freed_unit_offset (alloc_at m (alloc_head page)) = 0" using unit_listsD(3) [OF L] bs by simp
    have "unit_lists ?m2 page g X [] []" using L Nil bs f unfolding unit_lists_def by simp
    moreover have "page_frame page g m ?m2" by (rule page_frame_trans [of _ _ _ ?m]) simp_all
    ultimately show ?thesis using Nil bs z f by (auto simp: pick_unit_from_page_without_init_def Let_def)
  qed
qed

section \<open>A fresh page\<close>

lemma init_units_frame:
  "alloc_at (init_units pa u r k m) = alloc_at m \<and> page_at (init_units pa u r k m) = page_at m \<and>
   word_at (init_units pa u r k m) = word_at m"
  by (induction r arbitrary: k m) (simp_all add: Let_def)

lemma init_units_other:
  "(\<And>j. j < r \<Longrightarrow> a \<noteq> pa + (k + w64 j * u)) \<Longrightarrow> unit_at (init_units pa u r k m) a = unit_at m a"
proof (induction r arbitrary: k m)
  case (Suc r)
  have "a \<noteq> pa + k" using Suc.prems [of 0] by simp
  moreover have "a \<noteq> pa + (k + u + w64 j * u)" if "j < r" for j
    using Suc.prems [of "Suc j"] that by (simp add: algebra_simps)
  ultimately show ?case using Suc.IH [of "k + u"] by (simp add: Let_def)
qed simp

lemma init_units_nth:
  assumes "\<And>i j. i < r \<Longrightarrow> j < r \<Longrightarrow> i \<noteq> j \<Longrightarrow> k + w64 i * u \<noteq> k + w64 j * u" "j < r"
  shows "m_next_free_unit_offset (unit_at (init_units pa u r k m) (pa + (k + w64 j * u))) =
      (if Suc j < r then ucast (k + w64 (Suc j) * u) else 0) \<and>
    m_life (unit_at (init_units pa u r k m) (pa + (k + w64 j * u))) = RELEASED"
  using assms
proof (induction r arbitrary: k m j)
  case (Suc r)
  have d: "k + u + w64 i * u \<noteq> k + u + w64 i' * u" if "i < r" "i' < r" "i \<noteq> i'" for i i'
    using Suc.prems(1) [of "Suc i" "Suc i'"] that by (simp add: algebra_simps)
  show ?case
  proof (cases j)
    case 0
    have "pa + k \<noteq> pa + (k + u + w64 i * u)" if "i < r" for i
      using Suc.prems(1) [of 0 "Suc i"] that by (simp add: algebra_simps)
    with 0 show ?thesis by (simp add: Let_def init_units_other)
  next
    case (Suc i)
    with Suc.IH [OF d, of i] Suc.prems(2) show ?thesis by (simp add: Let_def algebra_simps)
  qed
qed simp

text \<open>The offsets the initialisation loop writes to are those of the units.\<close>

lemma unit_addr_offset:
  assumes "i < unit_count g"
  shows "unit_addr page (unit_offset g i) = alloc_head page + (8 + w64 i * (8 + group_size g))"
proof -
  have e: "group_size g = w64 (usz g - 8)" using usz_bounds(4) [of g] by (metis w64_unat)
  have "8 + w64 i * (8 + group_size g) = w64 (8 + i * (8 + (usz g - 8)))" by (simp add: e)
  also have "\<dots> = w64 (8 + i * usz g)" using usz_bounds(1) [of g] by simp
  also have "\<dots> = ucast (unit_offset g i)"
  proof (rule word_unat_eq_iff [THEN iffD2])
    have "8 + i * usz g < 2 ^ 64" using unit_offset_bound [OF assms] by simp
    then show "unat (w64 (8 + i * usz g)) = unat (ucast (unit_offset g i) :: u64)"
      by (simp only: unat_w64 unat_ucast_u16_u64 unat_unit_offset [OF assms])
  qed
  finally show ?thesis by (simp add: unit_addr_def)
qed

lemma chain_units:
  assumes "\<And>i. i < n \<Longrightarrow> f i \<noteq> 0" "\<And>i. i < n \<Longrightarrow> lk (f i) = (if Suc i < n then f (Suc i) else 0)" "k \<le> n"
  shows "chain lk (if k < n then f k else 0) (map f [k..<n])"
  using assms(3)
proof (induction k rule: inc_induct)
  case (step k)
  then show ?case using assms(1,2) by (simp add: upt_conv_Cons)
qed simp

lemma init_units_lists:
  assumes "m_unit_size_in_page (alloc_at m (alloc_head page)) = ucast (group_size g)"
    "m_next_allocate_unit_offset (alloc_at m (alloc_head page)) = 8"
    "m_freed_unit_offset (alloc_at m (alloc_head page)) = 0"
  shows "unit_lists (init_units (alloc_head page) (8 + group_size g) (unit_count g) 8 m) page g {}
    (map (unit_offset g) [0..<unit_count g]) []"
proof -
  let ?pa = "alloc_head page" and ?n = "unit_count g" and ?u = "8 + group_size g"
  define m' where "m' = init_units ?pa ?u ?n 8 m"
  have ad: "?pa + (8 + w64 i * ?u) = unit_addr page (unit_offset g i)" if "i < ?n" for i
    using unit_addr_offset [OF that] by simp
  have d: "8 + w64 i * ?u \<noteq> 8 + w64 j * ?u" if "i < ?n" "j < ?n" "i \<noteq> j" for i j
    using ad [OF that(1)] ad [OF that(2)] unit_offset_inj [OF that(1,2)] that(3)
    by (metis unit_addr_inj)
  have c: "(ucast (8 + w64 i * ?u) :: u16) = unit_offset g i" if "i < ?n" for i
    using ad [OF that] by (simp add: unit_addr_def)
  have nth: "unit_link m' page (unit_offset g i) = (if Suc i < ?n then unit_offset g (Suc i) else 0)"
    "unit_life_of m' page (unit_offset g i) = RELEASED" if "i < ?n" for i
    using init_units_nth [where r = ?n and k = 8 and u = ?u and pa = ?pa and m = m, OF d that] ad [OF that]
      c [of "Suc i"]
    by (simp_all add: unit_link_def unit_life_of_def m'_def del: of_nat_Suc)
  have nz: "unit_offset g i \<noteq> 0" if "i < ?n" for i
    using that unit_offsets_nonzero by (force simp: unit_offsets_def)
  have "chain (unit_link m' page) (unit_offset g 0) (map (unit_offset g) [0..<?n])"
    using chain_units [of ?n "unit_offset g" "unit_link m' page" 0, OF nz nth(1)] unit_count_pos [of g] by simp
  moreover have "alloc_at m' = alloc_at m" using init_units_frame by (simp add: m'_def)
  moreover have "unit_offset g 0 = 8" by (simp add: unit_offset_def)
  ultimately show ?thesis
    unfolding m'_def [symmetric] using assms nth(2)
    by (intro unit_listsI) (auto simp: unit_offsets_def)
qed

definition fresh_page :: "mem \<Rightarrow> addr \<Rightarrow> unit_alloc_group \<Rightarrow> mem" where
  "fresh_page m page g = init_units (alloc_head page) (8 + group_size g) (unit_count g) 8
     (upd_alloc (alloc_head page) (\<lambda>a. a\<lparr>m_run_out := 0, m_mark_as_run_out_in_global_pool := False,
        m_freed_unit_offset := 0, m_next_allocate_unit_offset := 8,
        m_unit_size_in_page := ucast (group_size g)\<rparr>) m)"

lemma init_page_eq:
  assumes "m_page_just_allocated (page_at m page)"
  shows "init_page_for_unit_allocating page g (m, h) =
    Some (upd_page page (\<lambda>p. p\<lparr>m_page_just_allocated := False, m_next_page := h\<rparr>) (fresh_page m page g), page)"
proof -
  have p: "page_at (fresh_page m page g) = page_at m" using init_units_frame by (simp add: fresh_page_def)
  have "init_page_for_unit_allocating page g (m, h) = add_new_page_into_chain page (fresh_page m page g, h)"
    using units_in_page_eq [of g]
    by (simp add: init_page_for_unit_allocating_def Let_def fresh_page_def group_size_16 sizeof_PageUnitAlloc_def
      sizeof_UnitHead_def)
  also have "\<dots> = Some (upd_page page (\<lambda>p. p\<lparr>m_page_just_allocated := False, m_next_page := h\<rparr>)
      (fresh_page m page g), page)"
    using assms p by (simp add: add_new_page_into_chain_def add_page_back_to_into_chain_def upd_page_def)
  finally show ?thesis .
qed

lemma upd_page_units [simp]:
  "unit_at (upd_page p f m) = unit_at m" "alloc_at (upd_page p f m) = alloc_at m"
  "word_at (upd_page p f m) = word_at m"
  by (simp_all add: upd_page_def)

lemma unit_lists_cong:
  assumes "unit_at m' = unit_at m" "alloc_at m' = alloc_at m"
  shows "unit_lists m' page g X fs bs = unit_lists m page g X fs bs"
proof -
  have "unit_link m' page = unit_link m page" "unit_life_of m' page = unit_life_of m page"
    using assms by (simp_all add: unit_link_def unit_life_of_def fun_eq_iff)
  with assms(2) show ?thesis by (simp add: unit_lists_def)
qed

lemma fresh_page_lists: "unit_lists (fresh_page m page g) page g {} (map (unit_offset g) [0..<unit_count g]) []"
  unfolding fresh_page_def by (rule init_units_lists) simp_all

lemma fresh_page_inv:
  "page_inv (fresh_page m page g) page g {}" "live_units (fresh_page m page g) page g = {}"
  using fresh_page_lists [of m page g] live_units_lists [OF fresh_page_lists [of m page g]]
  by (auto simp: page_inv_def unit_offsets_def)

lemma unit_offsets_nonempty: "unit_offsets g \<noteq> {}"
  using unit_count_pos [of g] by (auto simp: unit_offsets_def)

section \<open>The interface of a pool of units\<close>

text \<open>A pool hands out units that are not in use until none is left; \<open>pick_many\<close> is a client.\<close>

fun pick_many :: "('s \<Rightarrow> ('u option \<times> 's) option) \<Rightarrow> nat \<Rightarrow> 's \<Rightarrow> ('u option list \<times> 's) option" where
  "pick_many pick 0 s = Some ([], s)"
| "pick_many pick (Suc n) s =
     pick s \<bind> (\<lambda>(r, s'). pick_many pick n s' \<bind> (\<lambda>(rs, s''). Some (r # rs, s'')))"

locale unit_pool =
  fixes inv :: "'s \<Rightarrow> bool" and units :: "'u set" and live :: "'s \<Rightarrow> 'u set"
    and pick :: "'s \<Rightarrow> ('u option \<times> 's) option"
  assumes units_finite: "finite units"
    and live_units: "inv s \<Longrightarrow> live s \<subseteq> units"
    and pick_law: "inv s \<Longrightarrow> \<exists>r s'. pick s = Some (r, s') \<and> inv s' \<and>
      (case r of None \<Rightarrow> live s = units \<and> live s' = units
       | Some u \<Rightarrow> u \<in> units - live s \<and> live s' = insert u (live s))"
begin

lemma pick_many_law:
  assumes "inv s"
  shows "\<exists>us s'. pick_many pick n s = Some (map Some us @ replicate (n - card (units - live s)) None, s') \<and>
    inv s' \<and> distinct us \<and> set us \<subseteq> units - live s \<and> length us = min n (card (units - live s)) \<and>
    live s' = live s \<union> set us"
  using assms
proof (induction n arbitrary: s)
  case (Suc n)
  obtain r s1 where p: "pick s = Some (r, s1)" "inv s1"
    "case r of None \<Rightarrow> live s = units \<and> live s1 = units | Some u \<Rightarrow> u \<in> units - live s \<and> live s1 = insert u (live s)"
    using pick_law [OF Suc.prems] by blast
  obtain us s2 where q: "pick_many pick n s1 = Some (map Some us @ replicate (n - card (units - live s1)) None, s2)"
    "inv s2" "distinct us" "set us \<subseteq> units - live s1" "length us = min n (card (units - live s1))"
    "live s2 = live s1 \<union> set us"
    using Suc.IH [OF p(2)] by blast
  show ?case
  proof (cases r)
    case None
    with p q show ?thesis by auto
  next
    case (Some u)
    with p(3) have u: "u \<in> units - live s" "units - live s1 = (units - live s) - {u}" "live s1 = insert u (live s)" by auto
    moreover have "0 < card (units - live s)" using u(1) units_finite by (auto simp: card_gt_0_iff)
    ultimately have c: "card (units - live s) = Suc (card (units - live s1))"
      using units_finite by (simp add: card_Diff_singleton)
    have "pick_many pick (Suc n) s =
        Some (map Some (u # us) @ replicate (Suc n - card (units - live s)) None, s2)"
      using p(1) q(1) Some c by simp
    moreover have "distinct (u # us)" "set (u # us) \<subseteq> units - live s"
      "length (u # us) = min (Suc n) (card (units - live s))" "live s2 = live s \<union> set (u # us)"
      using q(3-6) u c by auto
    ultimately show ?thesis using q(2) by blast
  qed
qed simp

end

section \<open>A page is a pool of units\<close>

definition page_fits :: "addr \<Rightarrow> bool" where
  "page_fits page \<longleftrightarrow> unat page + 32768 \<le> 2 ^ 64"

definition pick_offset :: "addr \<Rightarrow> mem \<Rightarrow> (u16 option \<times> mem) option" where
  "pick_offset page m = pick_unit_from_page_without_init page m \<bind>
     (\<lambda>(u, m'). Some (if u = 0 then None else Some (ucast (u - alloc_head page)), m'))"

lemma unat_unit_addr:
  assumes "page_fits page" "off \<in> unit_offsets g"
  shows "unat (unit_addr page off) = unat page + 24 + unat off"
proof -
  obtain i where i: "i < unit_count g" "off = unit_offset g i" using assms(2) by (auto simp: unit_offsets_def)
  have o: "unat off \<le> 32720" using unit_offset_bound [OF i(1)] usz_bounds(1) [of g] unat_unit_offset [OF i(1)] i(2) by simp
  have f: "unat page + (24 + unat off) < 2 ^ 64" using assms(1) o by (simp add: page_fits_def)
  have "unit_addr page off = w64 (unat page + (24 + unat off))"
    unfolding unit_addr_def alloc_head_def sizeof_PageHead_def by (simp flip: unat_ucast_u16_u64)
  then show ?thesis using f by (simp only: unat_w64)
qed

lemma unit_addr_nonzero:
  assumes "page_fits page" "off \<in> unit_offsets g"
  shows "unit_addr page off \<noteq> 0"
  using unat_unit_addr [OF assms] by (metis add_is_0 unsigned_0 zero_neq_numeral)

interpretation page_pool: unit_pool
  "\<lambda>m. page_inv m page g {} \<and> page_fits page" "unit_offsets g" "\<lambda>m. live_units m page g" "pick_offset page"
  for page g
proof (unfold_locales, goal_cases)
  case 1
  show ?case by (rule finite_unit_offsets(1))
next
  case (2 m)
  show ?case by (auto simp: live_units_def)
next
  case (3 m)
  then obtain fs bs where L: "unit_lists m page g {} fs bs" and fit: "page_fits page" by (auto simp: page_inv_def)
  have sub: "set (fs @ bs) \<subseteq> unit_offsets g" "distinct (fs @ bs)" using unit_lists_sets(1-5) [OF L] by auto
  show ?case
  proof (cases "fs @ bs")
    case Nil
    with pick_unit_lists [OF L] obtain m' where m': "pick_unit_from_page_without_init page m = Some (0, m')"
      "unit_lists m' page g {} [] []" by auto
    then show ?thesis using live_units_lists [OF L] live_units_lists [OF m'(2)] Nil fit
      by (auto simp: pick_offset_def page_inv_def intro!: exI [of _ m'])
  next
    case (Cons off rest)
    with pick_unit_lists [OF L] obtain m' fs' bs' where
      m': "pick_unit_from_page_without_init page m = Some (unit_addr page off, m')" "fs' @ bs' = rest"
        "unit_lists m' page g {} fs' bs'" by auto
    have o: "off \<in> unit_offsets g" using Cons sub(1) by auto
    have "live_units m page g = unit_offsets g - set (off # rest)"
      using live_units_lists [OF L] by (auto simp flip: Cons)
    moreover have "live_units m' page g = unit_offsets g - set rest"
      using live_units_lists [OF m'(3)] by (auto simp flip: m'(2))
    moreover have "off \<notin> set rest" using sub(2) Cons by simp
    ultimately have "off \<in> unit_offsets g - live_units m page g" "live_units m' page g = insert off (live_units m page g)"
      using o by auto
    moreover have "pick_offset page m = Some (Some off, m')"
      using m'(1) unit_addr_nonzero [OF fit o] by (simp add: pick_offset_def unit_addr_def)
    ultimately show ?thesis using m'(3) fit by (auto simp: page_inv_def)
  qed
qed

section \<open>The group of a size\<close>

lemma table_nth:
  assumes "k < 132"
  shows "rd SMALL_UNIT_GROUP_FAST_LOOKUP_TABLE k = Some
    (if k \<le> 2 then SMALL_16 else if k \<le> 5 then SMALL_40 else if k \<le> 11 then SMALL_88
     else if k \<le> 21 then SMALL_168 else if k \<le> 43 then SMALL_344 else if k \<le> 65 then SMALL_520
     else if k \<le> 92 then SMALL_736 else SMALL_1048)"
proof -
  have d: "k - a < b \<longleftrightarrow> k < a + b" if "0 < b" for a b :: nat using that by linarith
  show ?thesis
    using assms by (simp add: rd_def SMALL_UNIT_GROUP_FAST_LOOKUP_TABLE_def nth_append nth_Cons' d)
qed

lemma fast_index:
  assumes "unat sz \<le> 1048"
  shows "unat (WOOMEM_FAST_LOOKUP_GROUP_INDEX sz) = (unat sz + 7) div 8"
proof -
  have "unat (sz + 7) = unat sz + 7" using assms by (subst unat_add_lem [THEN iffD1]) simp_all
  then show ?thesis by (simp add: WOOMEM_FAST_LOOKUP_GROUP_INDEX_def drop_bit_eq_div unat_div)
qed

lemma group_sizes:
  "group_size SMALL_16 = 16" "group_size SMALL_40 = 40" "group_size SMALL_88 = 88" "group_size SMALL_168 = 168"
  "group_size SMALL_344 = 344" "group_size SMALL_520 = 520" "group_size SMALL_736 = 736"
  "group_size SMALL_1048 = 1048" "group_size MIDIUM_2720 = 2720" "group_size MIDIUM_5448 = 5448"
  "group_size MIDIUM_8176 = 8176" "group_size MIDIUM_10904 = 10904" "group_size MIDIUM_16360 = 16360"
  by (simp_all add: group_size_def GROUP_SIZE_LOOKUP_TABLE_def)

lemma all_groups_iff: "(\<forall>h. P h) \<longleftrightarrow> list_all P all_groups"
  using set_all_groups by (simp add: list_all_iff)

text \<open>Both branches of the lookup, on natural numbers.\<close>

lemma eval_group_ranges:
  assumes "unat sz \<le> 16360"
  shows "eval_group_by_small_unit_size sz = Some
    (if unat sz \<le> 16 then SMALL_16 else if unat sz \<le> 40 then SMALL_40 else if unat sz \<le> 88 then SMALL_88
     else if unat sz \<le> 168 then SMALL_168 else if unat sz \<le> 344 then SMALL_344 else if unat sz \<le> 520 then SMALL_520
     else if unat sz \<le> 736 then SMALL_736 else if unat sz \<le> 1048 then SMALL_1048
     else if unat sz \<le> 2720 then MIDIUM_2720 else if unat sz \<le> 5448 then MIDIUM_5448
     else if unat sz \<le> 8176 then MIDIUM_8176 else if unat sz \<le> 10904 then MIDIUM_10904 else MIDIUM_16360)"
proof (cases "unat sz \<le> 1048")
  case True
  have k: "(unat sz + 7) div 8 \<le> n \<longleftrightarrow> unat sz \<le> 8 * n" for n by linarith
  have "(unat sz + 7) div 8 < 132" using True by (simp add: div_less_iff_less_mult)
  from table_nth [OF this] True show ?thesis
    by (simp add: eval_group_by_small_unit_size_def MAX_SMALL_UNIT_SIZE_def word_le_nat_alt fast_index k)
next
  case False
  then show ?thesis using assms
    by (simp add: eval_group_by_small_unit_size_def MAX_SMALL_UNIT_SIZE_def word_le_nat_alt group_sizes)
qed

lemma eval_group_fits:
  assumes "unat sz \<le> 16360" "eval_group_by_small_unit_size sz = Some g"
  shows "unat sz \<le> unat (group_size g) \<and>
    list_all (\<lambda>h. unat (group_size h) < unat (group_size g) \<longrightarrow> unat (group_size h) < unat sz) all_groups"
  using assms(1) assms(2) [unfolded eval_group_ranges [OF assms(1)]]
  by (auto simp: group_sizes all_groups_def split: if_splits)

lemma eval_group_size: "eval_group_by_small_unit_size (group_size g) = Some g"
  by (cases g) (simp_all add: eval_group_ranges group_sizes)

section \<open>The memory of a unit\<close>

definition unit_bytes :: "addr \<Rightarrow> unit_alloc_group \<Rightarrow> u16 \<Rightarrow> nat set" where
  "unit_bytes page g off = {unat (unit_addr page off)..<unat (unit_addr page off) + 8 + unat (group_size g)}"

lemma unit_bytes_index:
  assumes "page_fits page" "i < unit_count g"
  shows "unit_bytes page g (unit_offset g i) =
    {unat page + 32 + i * usz g..<unat page + 32 + i * usz g + usz g}"
proof -
  have u: "40 + (x + unat (group_size g)) = 32 + (x + usz g)" for x using usz_bounds(1,4) [of g] by simp
  show ?thesis
    using unat_unit_addr [OF assms(1), of "unit_offset g i" g] assms(2)
    by (simp add: unit_bytes_def unat_unit_offset unit_offsets_def add.assoc u)
qed

section \<open>Properties\<close>

text \<open>C30: The group of a size is the best one. For every size up to 16360 bytes the lookup (table or
  comparisons) returns a group whose units hold that size, every smaller group does not, and the
  size of a group's units is looked up as that group.\<close>

theorem eval_group_best_fit:
  "(\<forall>sz. sz \<le> MAX_IN_PAGE_UNIT_SIZE \<longrightarrow>
      (\<exists>g. eval_group_by_small_unit_size sz = Some g \<and> sz \<le> group_size g \<and>
        (\<forall>h. group_size h < group_size g \<longrightarrow> group_size h < sz))) \<and>
   (\<forall>g. eval_group_by_small_unit_size (group_size g) = Some g)"
proof (intro conjI allI impI)
  fix sz :: u64 assume "sz \<le> MAX_IN_PAGE_UNIT_SIZE"
  then have b: "unat sz \<le> 16360" by (simp add: MAX_IN_PAGE_UNIT_SIZE_def word_le_nat_alt)
  then obtain g where g: "eval_group_by_small_unit_size sz = Some g" using eval_group_ranges by blast
  from eval_group_fits [OF b g] g show "\<exists>g. eval_group_by_small_unit_size sz = Some g \<and> sz \<le> group_size g \<and>
      (\<forall>h. group_size h < group_size g \<longrightarrow> group_size h < sz)"
    by (auto simp: word_le_nat_alt word_less_nat_alt all_groups_iff)
next
  fix g show "eval_group_by_small_unit_size (group_size g) = Some g"
    by (rule eval_group_size)
qed

theorem eval_group_best_fit_witness:
  "\<exists>g. eval_group_by_small_unit_size 2000 = Some g \<and> 2000 \<le> group_size g \<and>
     (\<forall>h. group_size h < group_size g \<longrightarrow> group_size h < 2000)"
  using eval_group_best_fit [THEN conjunct1, rule_format, of 2000] by (simp add: MAX_IN_PAGE_UNIT_SIZE_def)

lemma unit_bytes_disjoint:
  assumes "page_fits page" "off \<in> unit_offsets g" "off' \<in> unit_offsets g" "off \<noteq> off'"
  shows "unit_bytes page g off \<inter> unit_bytes page g off' = {}"
proof -
  note ub = unit_bytes_index [OF assms(1), of _ g]
  obtain i j where ij: "i < unit_count g" "off = unit_offset g i" "j < unit_count g" "off' = unit_offset g j"
    using assms(2,3) by (auto simp: unit_offsets_def)
  have "i \<noteq> j" using assms(4) ij by auto
  then have "Suc i * usz g \<le> j * usz g \<or> Suc j * usz g \<le> i * usz g"
    by (meson mult_le_mono1 not_less_eq_eq linorder_le_cases le_antisym nat_neq_iff Suc_leI)
  then show ?thesis unfolding ij(2,4) ub [OF ij(1)] ub [OF ij(3)] by (auto simp: disjoint_iff)
qed

lemma unit_bytes_cover:
  assumes "page_fits page"
  shows "(\<Union>off \<in> unit_offsets g. unit_bytes page g off) = {unat page + 32..<unat page + 32768}"
proof -
  let ?b = "unat page + 32"
  have "(\<Union>k \<in> unit_offsets g. unit_bytes page g k) = (\<Union>i < unit_count g. {?b + i * usz g..<?b + i * usz g + usz g})"
    using unit_bytes_index [OF assms, of _ g] by (simp add: unit_offsets_def)
  also have "\<dots> = {?b..<?b + n * usz g}" if "n = unit_count g" for n
    unfolding that [symmetric] by (induction n) (auto simp: lessThan_Suc)
  finally show ?thesis using units_tile [of g] by (simp add: add.commute)
qed

text \<open>A page at \<open>0x100000\<close> that was just allocated, in an otherwise blank memory.\<close>

definition demo_page :: mem where
  "demo_page = upd_page 0x100000 (\<lambda>p. p\<lparr>m_page_just_allocated := True\<rparr>) blank_mem"

text \<open>The memory of the unit at an offset of a page: its head, and a payload of the size the page head records.\<close>

definition unit_memory :: "mem \<Rightarrow> addr \<Rightarrow> u16 \<Rightarrow> nat set" where
  "unit_memory m page off =
     {unat (unit_addr page off)..<unat (unit_addr page off) + 8 + unat (m_unit_size_in_page (alloc_at m (alloc_head page)))}"

text \<open>C31: A new page is laid out soundly. On a page that the chunk just allocated, \<open>init_page_for_unit_allocating\<close> returns and
  puts the page in front of the chain of all pages. The offsets that it links from \<open>m_next_allocate_unit_offset\<close> on, as
  the allocator will follow them, are units that are released and 8-byte aligned; each has room for its head and a
  payload of the size of the group, which the page head records; no two overlap; and together they fill the page
  from behind its two heads to its last byte.\<close>

theorem new_page_layout:
  assumes "page_fits page" and "page \<noteq> 0" and "m_page_just_allocated (page_at m page)" and "page_chain m h ps" and "page \<notin> set ps"
  shows "\<exists>m' us. init_page_for_unit_allocating page g (m, h) = Some (m', page) \<and> page_chain m' page (page # ps) \<and>
    chain (\<lambda>off. m_next_free_unit_offset (unit_at m' (unit_addr page off)))
      (m_next_allocate_unit_offset (alloc_at m' (alloc_head page))) us \<and>
    m_freed_unit_offset (alloc_at m' (alloc_head page)) = 0 \<and>
    unat (m_unit_size_in_page (alloc_at m' (alloc_head page))) = unat (group_size g) \<and>
    (\<forall>off \<in> set us. m_life (unit_at m' (unit_addr page off)) = RELEASED \<and> 8 dvd unat (unit_addr page off) - unat page) \<and>
    (\<forall>a \<in> set us. \<forall>b \<in> set us. a \<noteq> b \<longrightarrow> unit_memory m' page a \<inter> unit_memory m' page b = {}) \<and>
    (\<Union>off \<in> set us. unit_memory m' page off) = {unat page + 32..<unat page + 32768}"
proof -
  let ?f = "fresh_page m page g"
  let ?m = "upd_page page (\<lambda>p. p\<lparr>m_page_just_allocated := False, m_next_page := h\<rparr>) ?f"
  let ?us = "map (unit_offset g) [0..<unit_count g]"
  have L: "unit_lists ?m page g {} ?us []"
    using fresh_page_lists by (subst unit_lists_cong) simp_all
  have us: "set ?us = unit_offsets g" by (auto simp: unit_offsets_def)
  have "page_at ?f = page_at m" using init_units_frame by (simp add: fresh_page_def)
  then have "page_links ?f = page_links m" by (simp add: page_links_def fun_eq_iff)
  then have ch: "page_chain ?m page (page # ps)" using assms(2,4,5) by (simp add: page_chain_def page_links_upd)
  have sz: "unat (m_unit_size_in_page (alloc_at ?m (alloc_head page))) = unat (group_size g)"
    using unit_listsD(1) [OF L] unat_ucast_u16_u64 [of "ucast (group_size g)"] by (simp add: group_size_16)
  have mem: "unit_memory ?m page off = unit_bytes page g off" for off
    unfolding unit_memory_def sz by (simp add: unit_bytes_def usz_def add.assoc add.commute)
  have rel: "m_life (unit_at ?m (unit_addr page off)) = RELEASED \<and> 8 dvd unat (unit_addr page off) - unat page" if o: "off \<in> set ?us" for off
  proof -
    obtain i where i: "i < unit_count g" "off = unit_offset g i" using o by auto
    have "8 dvd unat (unit_addr page off) - unat page"
      using o us unat_unit_addr [OF assms(1), of off g] usz_bounds(3) [of g] unat_unit_offset [OF i(1)] i(2) by simp
    moreover have "unit_life_of ?m page off = RELEASED" using unit_lists_sets(6) [OF L, of off] o us by simp
    ultimately show ?thesis by (simp add: unit_life_of_def)
  qed
  have "chain (unit_link ?m page) (m_next_allocate_unit_offset (alloc_at ?m (alloc_head page))) ?us"
      "m_freed_unit_offset (alloc_at ?m (alloc_head page)) = 0"
    using unit_listsD(2,3) [OF L] by simp_all
  then show ?thesis
    using init_page_eq [OF assms(3)] ch sz rel unit_bytes_disjoint [OF assms(1)] unit_bytes_cover [OF assms(1), of g]
    by (intro exI [of _ ?m] exI [of _ ?us] conjI) (simp_all add: mem us unit_link_def [abs_def] del: set_map)
qed


theorem new_page_layout_witness:
  "\<exists>m' us. init_page_for_unit_allocating 0x100000 SMALL_40 (demo_page, 0) = Some (m', 0x100000) \<and>
     (\<Union>off \<in> set us. unit_memory m' 0x100000 off) = {1048608..<1081344} \<and>
     (\<forall>a \<in> set us. \<forall>b \<in> set us. a \<noteq> b \<longrightarrow> unit_memory m' 0x100000 a \<inter> unit_memory m' 0x100000 b = {})"
proof -
  have "page_fits 0x100000" "(0x100000 :: addr) \<noteq> 0" "m_page_just_allocated (page_at demo_page 0x100000)"
      "page_chain demo_page 0 []" "0x100000 \<notin> set ([] :: addr list)"
    by (simp_all add: page_fits_def demo_page_def upd_page_def page_chain_def)
  from new_page_layout [OF this, of SMALL_40] show ?thesis by (elim exE conjE) (intro exI conjI, assumption, simp_all)
qed

lemma pick_unit_spec:
  assumes "page_inv m page g {}" and "page_fits page"
  shows "\<exists>u m'. pick_unit_from_page_without_init page m = Some (u, m') \<and> page_inv m' page g {} \<and>
    page_frame page g m m' \<and>
    (if live_units m page g = unit_offsets g
     then u = 0 \<and> live_units m' page g = unit_offsets g \<and> m_run_out (alloc_at m' (alloc_head page)) = 1
     else \<exists>off \<in> unit_offsets g - live_units m page g. u = unit_addr page off \<and> u \<noteq> 0 \<and>
       m_life (unit_at m' u) = PENDING \<and> live_units m' page g = insert off (live_units m page g))"
proof -
  obtain fs bs where L: "unit_lists m page g {} fs bs" using assms(1) by (auto simp: page_inv_def)
  note S = unit_lists_sets [OF L]
  show ?thesis
  proof (cases "fs @ bs")
    case Nil
    with pick_unit_lists [OF L] obtain m' where m': "pick_unit_from_page_without_init page m = Some (0, m')"
      "unit_lists m' page g {} [] []" "m_run_out (alloc_at m' (alloc_head page)) = 1" "page_frame page g m m'" by auto
    with live_units_lists [OF L] live_units_lists [OF m'(2)] Nil show ?thesis by (auto simp: page_inv_def)
  next
    case (Cons off rest)
    with pick_unit_lists [OF L] obtain m' fs' bs' where
      m': "pick_unit_from_page_without_init page m = Some (unit_addr page off, m')" "fs' @ bs' = rest"
        "unit_lists m' page g {} fs' bs'" "unit_life_of m' page off = PENDING" "page_frame page g m m'" by auto
    have set: "set fs \<union> set bs = insert off (set rest)" "set fs' \<union> set bs' = set rest" "off \<notin> set rest"
      using Cons m'(2) S(1,4,5) by (auto simp flip: set_append) (metis distinct.simps(2) distinct_append)
    have "off \<in> unit_offsets g" using S(3) set(1) by auto
    then have "off \<in> unit_offsets g - live_units m page g"
      "live_units m' page g = insert off (live_units m page g)"
      using live_units_lists [OF L] live_units_lists [OF m'(3)] set by auto
    moreover have "unit_addr page off \<noteq> 0" using unit_addr_nonzero assms(2) \<open>off \<in> unit_offsets g\<close> by blast
    ultimately show ?thesis using m' by (auto simp: page_inv_def unit_life_of_def)
  qed
qed

text \<open>C27: Picking a unit is exact. On a page whose free lists are well formed, \<open>pick_unit_from_page_without_init\<close>
  returns and keeps them well formed: when every unit is in use it returns null and marks the page as
  run out; otherwise it returns a unit that was not in use, which is then pending and is the only
  change to the set of units in use. Other pages and payloads are untouched.\<close>

theorem pick_unit_correct:
  assumes "page_inv m page g {}" and "page_fits page"
  shows "\<exists>u m'. pick_unit_from_page_without_init page m = Some (u, m') \<and> page_inv m' page g {} \<and>
    page_frame page g m m' \<and>
    (if live_units m page g = unit_offsets g
     then u = 0 \<and> live_units m' page g = unit_offsets g \<and> m_run_out (alloc_at m' (alloc_head page)) = 1
     else \<exists>off \<in> unit_offsets g - live_units m page g. u = unit_addr page off \<and> u \<noteq> 0 \<and>
       m_life (unit_at m' u) = PENDING \<and> live_units m' page g = insert off (live_units m page g))"
  using pick_unit_spec [OF assms] .

theorem pick_unit_correct_witness:
  "\<exists>u m' off. pick_unit_from_page_without_init 0x100000 (fresh_page blank_mem 0x100000 MIDIUM_8176) = Some (u, m') \<and>
     u = unit_addr 0x100000 off \<and> m_life (unit_at m' u) = PENDING \<and> live_units m' 0x100000 MIDIUM_8176 = {off}"
proof -
  have "page_fits 0x100000" by (simp add: page_fits_def)
  from pick_unit_correct [OF fresh_page_inv(1) this, of blank_mem MIDIUM_8176] show ?thesis
    using unit_offsets_nonempty [of MIDIUM_8176] by (auto simp: fresh_page_inv(2))
qed

text \<open>A page serves exactly its units. A client that picks \<open>n\<close> units from a page with no unit in use
  gets pairwise different ones until all are handed out, and null from then on.\<close>

theorem page_serves_all_units:
  assumes "page_inv m page g {}" and "page_fits page" and "live_units m page g = {}"
  shows "\<exists>us m'. pick_many (pick_offset page) n m =
      Some (map Some us @ replicate (n - unit_count g) None, m') \<and>
    distinct us \<and> set us \<subseteq> unit_offsets g \<and> length us = min n (unit_count g) \<and> live_units m' page g = set us"
  using page_pool.pick_many_law [of m page g n] assms finite_unit_offsets(2) [of g] by auto

text \<open>Dropping a released unit returns it to the pool: \<open>drop_freed_unit_into_page\<close> returns, keeps the
  free lists well formed, and changes no other unit's state; the unit counts as free again.\<close>

lemma drop_unit_correct:
  assumes "page_inv m page g {}" and "off \<in> live_units m page g"
  shows "\<exists>m'. drop_freed_unit_into_page page (unit_addr page off)
      (upd_unit (unit_addr page off) (\<lambda>u. u\<lparr>m_life := RELEASED\<rparr>) m) = Some m' \<and>
    page_inv m' page g {} \<and> live_units m' page g = live_units m page g - {off} \<and> page_frame page g m m'"
proof -
  let ?m = "upd_unit (unit_addr page off) (\<lambda>u. u\<lparr>m_life := RELEASED\<rparr>) m"
  obtain fs bs where L: "unit_lists m page g {} fs bs" using assms(1) by (auto simp: page_inv_def)
  have off: "off \<in> unit_offsets g" "unit_life_of m page off \<noteq> RELEASED" using assms(2) by (auto simp: live_units_def)
  obtain m' where m': "drop_freed_unit_into_page page (unit_addr page off) ?m = Some m'"
      "unit_lists m' page g {} fs (off # bs)" "page_frame page g ?m m'"
    using drop_unit_lists [OF release_unit_lists [OF L off], of off] by auto
  have "page_frame page g m ?m" using off(1) by (auto simp: page_frame_def)
  with m'(3) have "page_frame page g m m'" by (rule page_frame_trans [rotated])
  moreover have "live_units m' page g = live_units m page g - {off}"
    using live_units_lists [OF L] live_units_lists [OF m'(2)] by auto
  ultimately show ?thesis using m' by (auto simp: page_inv_def)
qed

text \<open>The size of a unit is recovered from its head alone. A unit of a page that is in use reports the
  size of its group, which is what the page was set up for; a huge unit of \<open>n\<close> pages, whose head has a
  null offset, reports all the bytes after the two heads.\<close>

theorem available_size_correct:
  "(\<forall>m page g X. \<forall>off \<in> live_units m page g. page_inv m page g X \<longrightarrow>
      get_unit_available_size (unit_addr page off) m = Some (group_size g)) \<and>
   (\<forall>m page n. m_next_free_unit_offset (unit_at m (page + sizeof_PageHead)) = 0 \<and>
      m_page_count_if_huge (page_at m page) = w64 n \<and> 0 < n \<and> n * 32768 < 2 ^ 64 \<longrightarrow>
      map_option unat (get_unit_available_size (page + sizeof_PageHead) m) = Some (n * 32768 - 32))"
proof (intro conjI allI ballI impI; (elim conjE)?)
  fix m page g X off assume off: "off \<in> live_units m page g" and "page_inv m page g X"
  then obtain fs bs where L: "unit_lists m page g X fs bs" by (auto simp: page_inv_def)
  have o: "off \<in> unit_offsets g" "unit_link m page off = off"
    using off unit_lists_sets(7) [OF L, of off] live_units_lists [OF L] by (auto simp: live_units_def)
  then have "off \<noteq> 0" using unit_offsets_nonzero by metis
  with o show "get_unit_available_size (unit_addr page off) m = Some (group_size g)"
    using unit_listsD(1) [OF L]
    by (simp add: get_unit_available_size_def unit_link_def unit_addr_def group_size_16)
next
  fix m :: mem and page :: addr and n
  assume a: "m_next_free_unit_offset (unit_at m (page + sizeof_PageHead)) = 0"
    "m_page_count_if_huge (page_at m page) = w64 n" "0 < n" "n * 32768 < (2::nat) ^ 64"
  have "n < 2 ^ 64" using a(4) by simp
  then have "w64 n \<noteq> 0" using a(3) unat_w64 [of n] by force
  moreover have "w64 n * 32768 - 32 = w64 (n * 32768 - 32)" using a(3) by (simp add: of_nat_diff)
  moreover have "unat (w64 (n * 32768 - 32)) = n * 32768 - 32" using a(4) by (intro unat_w64) simp
  ultimately show "map_option unat (get_unit_available_size (page + sizeof_PageHead) m) = Some (n * 32768 - 32)"
    using a(1,2) by (simp add: get_unit_available_size_def Let_def sizeof_defs)
qed

end
