(* ===== verification/Woomem_Pools_Props.thy ===== *)
theory Woomem_Pools_Props
  imports Woomem_Pools Woomem_Chunk_Props Woomem_Page_Unit_Props
begin

text \<open>
  Correctness of unit allocation: the invariant of the shared heap (the chunk, the pools and the
  pages that threads allocate from), and that asking for a unit of any size up to 16360 bytes
  returns a unit that nobody uses, from the cached page, a pooled page or a new page, and leaves
  every other unit alone.
\<close>

section \<open>Pages of the chunk\<close>

lemma chunk_page_facts:
  assumes "chunk_inv c" "(p, n) \<in> chunk_ranges c"
  shows "page_fits p" "p \<noteq> 0"
proof -
  obtain s where s: "unat p = unat (ch_base c) + s * 32768" "s + n \<le> bsizes (blocks_of c)" "0 < n"
    using assms by (rule chunk_rangesE)
  have "unat (ch_base c) + bsizes (blocks_of c) * 32768 < 2 ^ 64" using assms(1) by (simp add: chunk_inv_def)
  with s show "page_fits p" by (simp add: page_fits_def)
  show "p \<noteq> 0" using assms index_to_page_nonzero by (metis add_leD1 chunk_rangesE)
qed

text \<open>Two pages that are allocated on their own have no address in common.\<close>

definition apart :: "addr \<Rightarrow> addr \<Rightarrow> bool" where
  "apart p q \<longleftrightarrow> range_bytes (p, 1) \<inter> range_bytes (q, 1) = {} \<and> page_fits p \<and> page_fits q"

lemma apart_sym: "apart p q \<Longrightarrow> apart q p"
  by (auto simp: apart_def)

lemma chunk_pages_apart:
  assumes "chunk_inv c" "(p, 1) \<in> chunk_ranges c" "(q, 1) \<in> chunk_ranges c" "p \<noteq> q"
  shows "apart p q"
  using chunk_ranges_disjoint [OF assms(1-3)] chunk_page_facts [OF assms(1,2)] chunk_page_facts [OF assms(1,3)] assms(4)
  by (simp add: apart_def)

lemma chunk_runs_apart:
  assumes "chunk_inv c" "(p, n) \<in> chunk_ranges c" "(q, k) \<in> chunk_ranges c" "p \<noteq> q"
  shows "apart p q"
proof -
  have "0 < n" "0 < k" using assms(1-3) chunk_rangesE by blast+
  then have "range_bytes (p, 1) \<subseteq> range_bytes (p, n)" "range_bytes (q, 1) \<subseteq> range_bytes (q, k)"
    by (auto simp: range_bytes_def)
  moreover have "range_bytes (p, n) \<inter> range_bytes (q, k) = {}"
    using chunk_ranges_disjoint [OF assms(1-3)] assms(4) by blast
  ultimately show ?thesis using chunk_page_facts(1) assms(1-3) unfolding apart_def by blast
qed

lemma chunk_runs_unique:
  assumes "chunk_inv c" "(p, n) \<in> chunk_ranges c" "(p, k) \<in> chunk_ranges c"
  shows "n = k"
proof (rule ccontr)
  assume "n \<noteq> k"
  then have "range_bytes (p, n) \<inter> range_bytes (p, k) = {}" using chunk_ranges_disjoint [OF assms] by blast
  moreover have "0 < n" "0 < k" using assms(1-3) chunk_rangesE by blast+
  then have "unat p \<in> range_bytes (p, n)" "unat p \<in> range_bytes (p, k)" by (auto simp: range_bytes_def)
  ultimately show False by blast
qed

lemma unit_offsets_le: "off \<in> unit_offsets g \<Longrightarrow> unat off \<le> 32720"
proof -
  assume "off \<in> unit_offsets g"
  then obtain i where i: "i < unit_count g" "off = unit_offset g i" by (auto simp: unit_offsets_def)
  then show ?thesis using unit_offset_bound [OF i(1)] usz_bounds(1) [of g] unat_unit_offset [OF i(1)] by simp
qed

lemma unat_alloc_head: "page_fits p \<Longrightarrow> unat (alloc_head p) = unat p + 24"
proof -
  assume f: "page_fits p"
  have "alloc_head p = w64 (unat p + 24)" by (simp add: alloc_head_def sizeof_PageHead_def)
  moreover have "unat p + 24 < 2 ^ 64" using f by (simp add: page_fits_def)
  ultimately show ?thesis by (simp only: unat_w64)
qed

lemma apart_bytes:
  assumes "apart p q" "i < 32768" "j < 32768"
  shows "unat p + i \<noteq> unat q + j"
proof
  assume e: "unat p + i = unat q + j"
  have "unat p + i \<in> range_bytes (p, 1)" using assms(2) by (simp add: range_bytes_def)
  moreover have "unat p + i \<in> range_bytes (q, 1)" using assms(3) unfolding e by (simp add: range_bytes_def)
  ultimately show False using assms(1) unfolding apart_def by blast
qed

lemma apart_addrs:
  assumes "apart p q"
  shows "alloc_head p \<noteq> alloc_head q" "p \<noteq> q"
    "off \<in> unit_offsets g \<Longrightarrow> unit_addr p off \<notin> unit_addr q ` unit_offsets h"
proof -
  note A = assms [unfolded apart_def]
  note d = apart_bytes [OF assms]
  show "p \<noteq> q" using d [of 0 0] by auto
  then show "alloc_head p \<noteq> alloc_head q" by (simp add: alloc_head_def)
  show "unit_addr p off \<notin> unit_addr q ` unit_offsets h" if o: "off \<in> unit_offsets g"
  proof
    assume "unit_addr p off \<in> unit_addr q ` unit_offsets h"
    then obtain r where r: "r \<in> unit_offsets h" "unit_addr p off = unit_addr q r" by blast
    have "unat p + (24 + unat off) = unat q + (24 + unat r)"
      using unat_unit_addr [of p off g] unat_unit_addr [of q r h] A o r by simp
    then show False using d [of "24 + unat off" "24 + unat r"] unit_offsets_le [OF o] unit_offsets_le [OF r(1)] by simp
  qed
qed

text \<open>The place of a huge unit is the place of no unit of a cut page.\<close>

lemma run_head_no_unit:
  assumes "chunk_inv c" "(p, 1) \<in> chunk_ranges c" "(q, n) \<in> chunk_ranges c"
  shows "q + sizeof_PageHead \<notin> unit_addr p ` unit_offsets g"
proof
  assume "q + sizeof_PageHead \<in> unit_addr p ` unit_offsets g"
  then obtain off where off: "off \<in> unit_offsets g" "alloc_head q = unit_addr p off" by (auto simp: alloc_head_def)
  note f = chunk_page_facts(1) [OF assms(1,2)] chunk_page_facts(1) [OF assms(1,3)]
  have e: "unat q + 24 = unat p + (24 + unat off)"
    using unat_alloc_head [OF f(2)] unat_unit_addr [OF f(1) off(1)] off(2) by simp
  show False
  proof (cases "q = p")
    case True
    with e off(1) unit_offsets_nonzero [of g] show False by (simp add: unat_eq_0)
  next
    case False
    then have "apart q p" using chunk_runs_apart [OF assms(1,3,2)] by simp
    from apart_bytes [OF this, of 24 "24 + unat off"] e unit_offsets_le [OF off(1)] show False by simp
  qed
qed

section \<open>Operations on one page leave the others alone\<close>

lemma unit_lists_eqI:
  assumes "alloc_at m' (alloc_head p) = alloc_at m (alloc_head p)"
    and "\<And>off. off \<in> unit_offsets g \<Longrightarrow> unit_at m' (unit_addr p off) = unit_at m (unit_addr p off)"
    and "unit_lists m p g X fs bs"
  shows "unit_lists m' p g X fs bs"
proof (rule unit_listsI)
  note S = unit_lists_sets [OF assms(3)]
  have l: "unit_link m' p off = unit_link m p off" "unit_life_of m' p off = unit_life_of m p off"
    if "off \<in> unit_offsets g" for off
    using assms(2) [OF that] by (simp_all add: unit_link_def unit_life_of_def)
  have "chain (unit_link m' p) hd fs = chain (unit_link m p) hd fs" "chain (unit_link m' p) hd bs = chain (unit_link m p) hd bs" for hd
    using S(3) l(1) by (auto intro!: chain_cong)
  then show "chain (unit_link m' p) (m_next_allocate_unit_offset (alloc_at m' (alloc_head p))) fs"
    "chain (unit_link m' p) (m_freed_unit_offset (alloc_at m' (alloc_head p))) bs"
    using unit_listsD(2,3) [OF assms(3)] assms(1) by simp_all
  show "unit_life_of m' p off = RELEASED \<longleftrightarrow> off \<in> set fs \<union> set bs \<union> X" if "off \<in> unit_offsets g" for off
    using S(6) [OF that] l(2) [OF that] by simp
  show "unit_link m' p off = off" if "off \<in> unit_offsets g" "off \<notin> set fs \<union> set bs \<union> X" for off
    using S(7) [OF that] l(1) [OF that(1)] by simp
qed (use unit_lists_sets(1-3) [OF assms(3)] unit_listsD(1) [OF assms(3)] assms(1) in auto)

lemma page_frame_other:
  assumes "page_frame q h m m'" "apart p q"
  shows "page_inv m' p g X = page_inv m p g X" "live_units m' p g = live_units m p g"
    "alloc_at m' (alloc_head p) = alloc_at m (alloc_head p)"
proof -
  have a: "alloc_at m' (alloc_head p) = alloc_at m (alloc_head p)"
    "\<And>off. off \<in> unit_offsets g \<Longrightarrow> unit_at m' (unit_addr p off) = unit_at m (unit_addr p off)"
    using assms(1) apart_addrs [OF assms(2)] by (auto simp: page_frame_def)
  then show "alloc_at m' (alloc_head p) = alloc_at m (alloc_head p)" by blast
  show "page_inv m' p g X = page_inv m p g X"
    using unit_lists_eqI [of m' p m g X] unit_lists_eqI [of m p m' g X] a unfolding page_inv_def by metis
  show "live_units m' p g = live_units m p g" using a(2) by (auto simp: live_units_def unit_life_of_def)
qed

text \<open>Changing the run-out marks of pages changes nothing about units.\<close>

definition same_units :: "mem \<Rightarrow> mem \<Rightarrow> bool" where
  "same_units m m' \<longleftrightarrow> page_at m' = page_at m \<and> unit_at m' = unit_at m \<and> word_at m' = word_at m \<and>
     (\<forall>a. m_unit_size_in_page (alloc_at m' a) = m_unit_size_in_page (alloc_at m a) \<and>
        m_next_allocate_unit_offset (alloc_at m' a) = m_next_allocate_unit_offset (alloc_at m a) \<and>
        m_freed_unit_offset (alloc_at m' a) = m_freed_unit_offset (alloc_at m a))"

lemma same_units_refl [simp]: "same_units m m"
  by (simp add: same_units_def)

lemma same_units_trans: "same_units m m' \<Longrightarrow> same_units m' m'' \<Longrightarrow> same_units m m''"
  by (simp add: same_units_def)

lemma same_units_page:
  assumes "same_units m m'"
  shows "page_inv m' p g X = page_inv m p g X" "live_units m' p g = live_units m p g" "page_at m' = page_at m"
proof -
  have "unit_link m' = unit_link m" "unit_life_of m' = unit_life_of m"
    using assms by (simp_all add: same_units_def unit_link_def unit_life_of_def fun_eq_iff)
  then show "page_inv m' p g X = page_inv m p g X" "live_units m' p g = live_units m p g" "page_at m' = page_at m"
    using assms by (simp_all add: page_inv_def unit_lists_def live_units_def same_units_def)
qed

lemma same_units_retire [simp]: "same_units m (retire_page p m)"
  by (simp add: same_units_def retire_page_def)

lemma retire_other: "alloc_head p \<noteq> alloc_head q \<Longrightarrow> alloc_at (retire_page q m) (alloc_head p) = alloc_at m (alloc_head p)"
  by (simp add: retire_page_def)

lemma alloc_head_inj [simp]: "alloc_head p = alloc_head q \<longleftrightarrow> p = q"
  by (simp add: alloc_head_def)

text \<open>
  Taking a page from a pool: entries are dropped from the back until one is neither null nor marked;
  the marked ones among them are retired.
\<close>

lemma pick_free_page_spec:
  assumes "pick_free_page pages m = (page, rest, m')"
  shows "same_units m m' \<and>
    (\<forall>p. p \<notin> set pages \<or> p = 0 \<longrightarrow> alloc_at m' (alloc_head p) = alloc_at m (alloc_head p)) \<and>
    (if page = 0 then rest = []
     else \<exists>pre. pages = pre @ page # rest \<and>
       (\<forall>p. p \<notin> set pre \<longrightarrow> alloc_at m' (alloc_head p) = alloc_at m (alloc_head p)))"
  using assms
proof (induction pages m rule: pick_free_page.induct)
  case (2 p ps m)
  consider "p = 0" | "p \<noteq> 0" "m_mark_as_run_out_in_global_pool (alloc_at m (alloc_head p))"
    | "p \<noteq> 0" "\<not> m_mark_as_run_out_in_global_pool (alloc_at m (alloc_head p))" by blast
  then show ?case
  proof cases
    case 1
    with 2 show ?thesis by (auto split: if_splits intro: exI [of _ "p # pre" for pre])
  next
    case c: 2
    let ?m = "retire_page p m"
    have r: "pick_free_page ps ?m = (page, rest, m')" using c 2(3) by simp
    note IH = 2(2) [OF c r]
    have "same_units m m'" using IH same_units_trans [OF same_units_retire] by blast
    moreover have "alloc_at m' (alloc_head x) = alloc_at m (alloc_head x)" if "x \<notin> set (p # ps) \<or> x = 0" for x
      using IH that c(1) by (auto simp: retire_page_def)
    moreover have "\<exists>pre. p # ps = pre @ page # rest \<and>
        (\<forall>x. x \<notin> set pre \<longrightarrow> alloc_at m' (alloc_head x) = alloc_at m (alloc_head x))" if nz: "page \<noteq> 0"
    proof -
      obtain pre where "ps = pre @ page # rest" "\<forall>x. x \<notin> set pre \<longrightarrow> alloc_at m' (alloc_head x) = alloc_at ?m (alloc_head x)"
        using IH nz by auto
      then show ?thesis by (intro exI [of _ "p # pre"]) (simp add: retire_page_def)
    qed
    moreover have "rest = []" if "page = 0" using IH that by simp
    ultimately show ?thesis by auto
  next
    case 3
    with 2(3) show ?thesis by auto
  qed
qed auto

lemma fresh_page_frame: "page_frame page g m (fresh_page m page g)"
proof -
  have "unit_at (fresh_page m page g) a = unit_at m a" if "a \<notin> unit_addr page ` unit_offsets g" for a
  proof -
    have "a \<noteq> alloc_head page + (8 + w64 i * (8 + group_size g))" if i: "i < unit_count g" for i
    proof -
      have "unit_addr page (unit_offset g i) \<in> unit_addr page ` unit_offsets g"
        using i unfolding unit_offsets_def by blast
      with \<open>a \<notin> _\<close> unit_addr_offset [OF i, of page] show ?thesis by metis
    qed
    then show ?thesis by (simp add: fresh_page_def init_units_other)
  qed
  then show ?thesis using init_units_frame by (simp add: page_frame_def fresh_page_def)
qed

section \<open>The invariant of the shared heap\<close>

text \<open>A page of the chunk that is cut into units of a group.\<close>

definition unit_page :: "'os heap \<Rightarrow> addr \<Rightarrow> unit_alloc_group \<Rightarrow> bool" where
  "unit_page h p g \<longleftrightarrow> (p, 1) \<in> chunk_ranges (chunk_of (h_chunk h)) \<and>
     m_page_count_if_huge (page_at (heap_mem h) p) = 0 \<and> \<not> m_page_just_allocated (page_at (heap_mem h) p) \<and>
     page_inv (heap_mem h) p g {}"

definition run_out_of :: "'os heap \<Rightarrow> addr \<Rightarrow> u8" where
  "run_out_of h p = m_run_out (alloc_at (heap_mem h) (alloc_head p))"

text \<open>
  \<open>heap_inv h C\<close>, where \<open>C\<close> are the pages that threads hold in their caches: the chunk is well formed,
  every entry of a pool is null or a unit page of its group that is not run out and not cached, no
  page is twice in a pool, and the cached pages are unit pages.
\<close>

definition heap_inv :: "'os heap \<Rightarrow> addr set \<Rightarrow> bool" where
  "heap_inv h C \<longleftrightarrow> chunk_inv (chunk_of (h_chunk h)) \<and> length (m_free_pages h) = MAX_GROUP \<and>
     (\<forall>g. \<forall>p \<in> set (m_free_pages h ! group_index g). p \<noteq> 0 \<longrightarrow>
        unit_page h p g \<and> run_out_of h p = 0 \<and> p \<notin> C) \<and>
     (\<forall>g. distinct (filter (\<lambda>p. p \<noteq> 0) (m_free_pages h ! group_index g))) \<and>
     (\<forall>p \<in> C. \<exists>g. unit_page h p g)"

lemma heap_invD:
  assumes "heap_inv h C"
  shows "chunk_inv (chunk_of (h_chunk h))" "length (m_free_pages h) = MAX_GROUP"
    "p \<in> set (m_free_pages h ! group_index g) \<Longrightarrow> p \<noteq> 0 \<Longrightarrow> unit_page h p g \<and> run_out_of h p = 0 \<and> p \<notin> C"
    "distinct (filter (\<lambda>p. p \<noteq> 0) (m_free_pages h ! group_index g))"
    "p \<in> C \<Longrightarrow> \<exists>g. unit_page h p g"
  using assms unfolding heap_inv_def by blast+

text \<open>What keeps the unit pages, and keeps pages that may be in a pool from running out, keeps the invariant.\<close>

lemma heap_inv_transfer_weak:
  assumes inv: "heap_inv h C" and c: "chunk_inv (chunk_of (h_chunk h'))" "m_free_pages h' = m_free_pages h"
    and keep: "\<And>q g. unit_page h q g \<Longrightarrow> unit_page h' q g \<and> (q \<notin> C \<longrightarrow> run_out_of h q = 0 \<longrightarrow> run_out_of h' q = 0)"
  shows "heap_inv h' C"
  unfolding heap_inv_def
proof (intro conjI allI ballI impI)
  note H = heap_invD [OF inv]
  fix g x assume "x \<in> set (m_free_pages h' ! group_index g)" "x \<noteq> 0"
  then have "unit_page h x g" "run_out_of h x = 0" "x \<notin> C" using H(3) [of x g] c(2) by auto
  then show "unit_page h' x g" "run_out_of h' x = 0" "x \<notin> C" using keep by auto
next
  fix g show "distinct (filter (\<lambda>p. p \<noteq> 0) (m_free_pages h' ! group_index g))" using heap_invD(4) [OF inv] c(2) by simp
next
  fix x assume "x \<in> C" then show "\<exists>g. unit_page h' x g" using heap_invD(5) [OF inv] keep by blast
qed (use c heap_invD(2) [OF inv] in simp_all)

lemma heap_inv_transfer:
  assumes "heap_inv h C" "chunk_inv (chunk_of (h_chunk h'))" "m_free_pages h' = m_free_pages h"
    and "\<And>q g. unit_page h q g \<Longrightarrow> unit_page h' q g \<and> (q \<notin> C \<longrightarrow> run_out_of h' q = run_out_of h q)"
  shows "heap_inv h' C"
  by (rule heap_inv_transfer_weak [OF assms(1-3)]) (use assms(4) in auto)

lemma group_index_max: "group_index g < MAX_GROUP"
  by (cases g) (simp_all add: MAX_GROUP_def)

lemma group_index_inj [simp]: "group_index g = group_index g' \<longleftrightarrow> g = g'"
  by (cases g; cases g') simp_all

lemma unit_page_group: "unit_page h p g \<Longrightarrow> unit_page h p g' \<Longrightarrow> g = g'"
proof -
  assume "unit_page h p g" "unit_page h p g'"
  then have "(ucast (group_size g) :: u16) = ucast (group_size g')"
    by (auto simp: unit_page_def page_inv_def dest!: unit_listsD(1))
  then have "group_size g = group_size g'" using group_size_16 by metis
  then show "g = g'" by (simp add: group_size_inj)
qed

text \<open>The allocated pages of \<open>h\<close> are still allocated, and have the same units in use.\<close>

definition page_ranges :: "'os heap \<Rightarrow> addr set" where
  "page_ranges h = {p. (p, 1) \<in> chunk_ranges (chunk_of (h_chunk h))}"

text \<open>
  The allocated runs of \<open>h\<close> are still allocated, with their page heads, unit sizes and (for a huge run)
  its unit head; no payload has changed.
\<close>

definition keeps_runs :: "'os heap \<Rightarrow> 'os heap \<Rightarrow> bool" where
  "keeps_runs h h' \<longleftrightarrow> chunk_ranges (chunk_of (h_chunk h)) \<subseteq> chunk_ranges (chunk_of (h_chunk h')) \<and>
     word_at (heap_mem h') = word_at (heap_mem h) \<and>
     (\<forall>(q, n) \<in> chunk_ranges (chunk_of (h_chunk h)). page_at (heap_mem h') q = page_at (heap_mem h) q \<and>
        unit_at (heap_mem h') (q + sizeof_PageHead) = unit_at (heap_mem h) (q + sizeof_PageHead) \<and>
        m_unit_size_in_page (alloc_at (heap_mem h') (alloc_head q)) = m_unit_size_in_page (alloc_at (heap_mem h) (alloc_head q)))"

lemma keeps_runs_trans: "keeps_runs h h' \<Longrightarrow> keeps_runs h' h'' \<Longrightarrow> keeps_runs h h''"
  unfolding keeps_runs_def by fastforce

lemma keeps_runs_same:
  "same_units (heap_mem h) (heap_mem h') \<Longrightarrow> chunk_of (h_chunk h') = chunk_of (h_chunk h) \<Longrightarrow> keeps_runs h h'"
  by (simp add: keeps_runs_def same_units_def)

definition keeps_units :: "'os heap \<Rightarrow> 'os heap \<Rightarrow> bool" where
  "keeps_units h h' \<longleftrightarrow> keeps_runs h h' \<and>
     (\<forall>p \<in> page_ranges h. \<forall>g. unit_page h' p g = unit_page h p g \<and>
        (unit_page h p g \<longrightarrow> live_units (heap_mem h') p g = live_units (heap_mem h) p g))"

lemma unit_page_range: "unit_page h p g \<Longrightarrow> p \<in> page_ranges h"
  by (simp add: unit_page_def page_ranges_def)

lemma keeps_units_trans:
  assumes "keeps_units h h'" "keeps_units h' h''"
  shows "keeps_units h h''"
proof -
  have "keeps_runs h h''" using assms keeps_runs_trans unfolding keeps_units_def by blast
  moreover have "p \<in> page_ranges h'" if "p \<in> page_ranges h" for p
    using assms(1) that by (auto simp: keeps_units_def keeps_runs_def page_ranges_def)
  ultimately show ?thesis using assms unfolding keeps_units_def by (intro conjI ballI allI impI) (blast | metis)+
qed

lemma keeps_units_same:
  assumes "same_units (heap_mem h) (heap_mem h')" "chunk_of (h_chunk h') = chunk_of (h_chunk h)"
  shows "keeps_units h h'" "unit_page h' p g = unit_page h p g"
  using same_units_page [OF assms(1)] keeps_runs_same [OF assms] assms(2)
  by (simp_all add: keeps_units_def unit_page_def page_ranges_def)

lemma heap_mem_simps [simp]:
  "heap_mem (upd_mem f h) = f (heap_mem h)" "h_chunk (upd_mem f h) = (h_chunk h)\<lparr>mem_of := f (heap_mem h)\<rparr>"
  "m_free_pages (upd_mem f h) = m_free_pages h" "m_all_page_list (upd_mem f h) = m_all_page_list h"
  "heap_mem (h\<lparr>m_free_pages := fp\<rparr>) = heap_mem h" "heap_mem (h\<lparr>m_all_page_list := a\<rparr>) = heap_mem h"
  "heap_mem (h\<lparr>h_chunk := c\<rparr>) = mem_of c"
  by (simp_all add: upd_mem_def heap_mem_def)

text \<open>Changing a unit head keeps the heap in order when it is no unit of a cut page, or one that stays in use.\<close>

lemma heap_inv_upd_unit:
  assumes inv: "heap_inv h C" and f: "\<And>u. m_next_free_unit_offset (f u) = m_next_free_unit_offset u"
    and live: "\<And>q g off. unit_page h q g \<Longrightarrow> off \<in> unit_offsets g \<Longrightarrow> a = unit_addr q off \<Longrightarrow>
      m_life (unit_at (heap_mem h) a) \<noteq> RELEASED \<and> m_life (f (unit_at (heap_mem h) a)) \<noteq> RELEASED"
  defines "h' \<equiv> upd_mem (upd_unit a f) h"
  shows "heap_inv h' C"
    "unit_page h q g \<Longrightarrow> unit_page h' q g \<and> live_units (heap_mem h') q g = live_units (heap_mem h) q g"
proof -
  have P: "unit_page h' q g \<and> live_units (heap_mem h') q g = live_units (heap_mem h) q g" if q: "unit_page h q g" for q g
  proof -
    obtain fs bs where L: "unit_lists (heap_mem h) q g {} fs bs" using q by (auto simp: unit_page_def page_inv_def)
    have "unit_lists (upd_unit a f (heap_mem h)) q g {} fs bs"
    proof (cases "a \<in> unit_addr q ` unit_offsets g")
      case True
      then obtain off where "off \<in> unit_offsets g" "a = unit_addr q off" by blast
      with live [OF q this] L f show ?thesis by (auto intro: upd_used_lists simp: unit_life_of_def)
    next
      case False
      then have "unit_addr q off \<noteq> a" if "off \<in> unit_offsets g" for off using that by blast
      then show ?thesis by (intro unit_lists_eqI [OF _ _ L]) (simp_all add: upd_unit_def)
    qed
    moreover have "live_units (upd_unit a f (heap_mem h)) q g = live_units (heap_mem h) q g"
      using live [OF q] by (auto simp: live_units_def unit_life_of_def upd_unit_def split: if_splits)
    ultimately show ?thesis using q by (auto simp: unit_page_def h'_def page_inv_def upd_unit_def)
  qed
  then show "unit_page h q g \<Longrightarrow> unit_page h' q g \<and> live_units (heap_mem h') q g = live_units (heap_mem h) q g" .
  show "heap_inv h' C"
    by (rule heap_inv_transfer [OF inv]) (use P heap_invD(1) [OF inv] in \<open>auto simp: h'_def run_out_of_def\<close>)
qed

section \<open>Getting a page\<close>

lemma allocate_page_frame:
  assumes "chunk_inv (chunk_of s)" "allocate_page tgt sys s = Some (p, s')" "p \<noteq> 0"
  shows "\<exists>f. mem_of s' = upd_page p f (mem_of s)" "(p, 1) \<notin> chunk_ranges (chunk_of s)"
proof -
  have one: "0 < unat (1 :: u32)" by simp
  obtain q s1 where q: "allocate_pages tgt sys 1 s = Some (q, s1)" using assms(2) by (auto simp: allocate_page_def split: bind_splits)
  then have "q = p" using assms(2) by (auto simp: allocate_page_def split: if_splits)
  from assms(1) one show "\<exists>f. mem_of s' = upd_page p f (mem_of s)"
  proof (rule allocate_pages_result [of s 1 tgt sys])
    fix q' t assume a: "allocate_pages tgt sys 1 s = Some (q', t)" "q' \<noteq> 0"
      "mem_of t = upd_page q' (\<lambda>h. h\<lparr>m_page_just_allocated := True\<rparr>) (mem_of s)"
    then have "p = q'" "mem_of s' = upd_page p (\<lambda>h. h\<lparr>m_page_count_if_huge := 0\<rparr>) (mem_of t)"
      using assms(2) by (auto simp: allocate_page_def)
    with a(3) have "mem_of s' = upd_page p (\<lambda>h. h\<lparr>m_page_just_allocated := True, m_page_count_if_huge := 0\<rparr>) (mem_of s)"
      by (simp add: upd_page_def)
    then show ?thesis by blast
  qed (use q \<open>q = p\<close> assms(3) in simp)
  have "allocate_pages tgt sys (w32 1) s = Some (p, s1)" using q \<open>q = p\<close> by simp
  with chunk_alloc_law [OF assms(1), of 1 tgt sys] assms(3) show "(p, 1) \<notin> chunk_ranges (chunk_of s)" by auto
qed

text \<open>What a page taken for a group is: a unit page that nobody holds.\<close>

definition obtained :: "'os heap \<Rightarrow> addr set \<Rightarrow> unit_alloc_group \<Rightarrow> addr \<Rightarrow> 'os heap \<Rightarrow> bool" where
  "obtained h C g p h' \<longleftrightarrow> heap_inv h' (insert p C) \<and> unit_page h' p g \<and> p \<noteq> 0 \<and> p \<notin> C \<and>
     (if (p, 1) \<in> chunk_ranges (chunk_of (h_chunk h))
      then unit_page h p g \<and> chunk_of (h_chunk h') = chunk_of (h_chunk h) \<and>
        length (m_free_pages h' ! group_index g) < length (m_free_pages h ! group_index g)
      else live_units (heap_mem h') p g = {} \<and> m_free_pages h' ! group_index g = [])"

lemma require_from_pool:
  assumes inv: "heap_inv h C" and pk: "pick_free_page (m_free_pages h ! group_index g) (heap_mem h) = (p, rest, m)" "p \<noteq> 0"
  shows "\<exists>h'. require_normal_page tgt sys g h = Some (p, h') \<and> obtained h C g p h' \<and> keeps_units h h'"
proof -
  note H = heap_invD [OF inv] and gi = group_index_max [of g]
  let ?ps = "m_free_pages h ! group_index g"
  define h' where "h' = upd_mem (\<lambda>_. m) h\<lparr>m_free_pages := (m_free_pages h)[group_index g := rest]\<rparr>"
  have su: "same_units (heap_mem h) m" using pick_free_page_spec [OF pk(1)] by blast
  obtain pre where pre: "?ps = pre @ p # rest"
      "\<And>x. x \<notin> set pre \<Longrightarrow> alloc_at m (alloc_head x) = alloc_at (heap_mem h) (alloc_head x)"
    using pick_free_page_spec [OF pk(1)] pk(2) by auto
  have su': "same_units (heap_mem h) (heap_mem h')" "chunk_of (h_chunk h') = chunk_of (h_chunk h)"
    using su by (simp_all add: h'_def)
  note K = keeps_units_same [OF su']
  have mem': "heap_mem h' = m" by (simp add: h'_def)
  have p: "unit_page h p g" "run_out_of h p = 0" "p \<notin> C" using H(3) [of p g] pk(2) pre(1) by auto
  have dist: "p \<notin> set rest" "p \<notin> set pre" "\<And>x. x \<in> set rest \<Longrightarrow> x \<noteq> 0 \<Longrightarrow> x \<notin> set pre"
    using H(4) [of g] pk(2) unfolding pre(1) by auto
  have pool: "x \<noteq> p \<and> run_out_of h' x = run_out_of h x \<and> x \<in> set (m_free_pages h ! group_index g')"
    if x: "x \<in> set (m_free_pages h' ! group_index g')" "x \<noteq> 0" for x g'
  proof (cases "g' = g")
    case True
    then have "x \<in> set rest" using x(1) H(2) gi by (simp add: h'_def)
    with dist x(2) True pre show ?thesis by (auto simp: run_out_of_def mem')
  next
    case False
    then have m: "x \<in> set (m_free_pages h ! group_index g')" using x(1) by (simp add: h'_def)
    have "x \<notin> set ?ps" using H(3) [OF m x(2)] H(3) [of x g] x(2) unit_page_group False by blast
    with pre m show ?thesis by (auto simp: run_out_of_def mem')
  qed
  have "heap_inv h' (insert p C)"
    unfolding heap_inv_def
  proof (intro conjI allI ballI impI)
    fix g' x assume x: "x \<in> set (m_free_pages h' ! group_index g')" "x \<noteq> 0"
    show "unit_page h' x g'" "run_out_of h' x = 0" "x \<notin> insert p C"
      using pool [OF x] H(3) [of x g'] x(2) K(2) by auto
  next
    fix g' show "distinct (filter (\<lambda>p. p \<noteq> 0) (m_free_pages h' ! group_index g'))"
      using H(4) [of g'] H(4) [of g] gi H(2) pre(1) pk(2) by (cases "g' = g") (simp_all add: h'_def)
  next
    fix x assume "x \<in> insert p C" then show "\<exists>g. unit_page h' x g" using p(1) H(5) K(2) by blast
  qed (use H(1,2) in \<open>simp_all add: h'_def\<close>)
  moreover have "require_normal_page tgt sys g h = Some (p, h')"
  proof -
    have "m_page_count_if_huge (page_at m p) = 0" using p(1) same_units_page(3) [OF su] by (simp add: unit_page_def)
    moreover have "m_run_out (alloc_at m (alloc_head p)) = 0" using p(2) pre(2) [OF dist(2)] by (simp add: run_out_of_def)
    moreover have "ucast (m_unit_size_in_page (alloc_at m (alloc_head p))) = group_size g"
      using p(1) pre(2) [OF dist(2)] by (auto simp: unit_page_def page_inv_def group_size_16 dest!: unit_listsD(1))
    ultimately show ?thesis
      using pk gi H(2) by (simp add: require_normal_page_def rd_in wr_in h'_def)
  qed
  moreover have "length (m_free_pages h' ! group_index g) < length ?ps" using pre(1) gi H(2) by (simp add: h'_def)
  ultimately show ?thesis using K p pk(2) su'(2) by (auto simp: obtained_def unit_page_def)
qed

text \<open>When the pool has no usable page it ends up empty, and the invariant survives.\<close>

lemma pool_exhausted:
  assumes inv: "heap_inv h C" and pk: "pick_free_page (m_free_pages h ! group_index g) (heap_mem h) = (0, rest, m)"
  defines "h1 \<equiv> upd_mem (\<lambda>_. m) h\<lparr>m_free_pages := (m_free_pages h)[group_index g := rest]\<rparr>"
  shows "heap_inv h1 C" "keeps_units h h1" "m_free_pages h1 ! group_index g = []"
    "chunk_of (h_chunk h1) = chunk_of (h_chunk h)"
proof -
  note H = heap_invD [OF inv] and gi = group_index_max [of g]
  let ?ps = "m_free_pages h ! group_index g"
  have sp: "same_units (heap_mem h) m" "rest = []"
      "\<And>x. x \<notin> set ?ps \<or> x = 0 \<Longrightarrow> alloc_at m (alloc_head x) = alloc_at (heap_mem h) (alloc_head x)"
    using pick_free_page_spec [OF pk] by auto
  show c: "chunk_of (h_chunk h1) = chunk_of (h_chunk h)" by (simp add: h1_def)
  have "same_units (heap_mem h) (heap_mem h1)" using sp(1) by (simp add: h1_def)
  note K = keeps_units_same [OF this c]
  then show "keeps_units h h1" by simp
  show "m_free_pages h1 ! group_index g = []" using sp(2) gi H(2) by (simp add: h1_def)
  show "heap_inv h1 C"
    unfolding heap_inv_def
  proof (intro conjI allI ballI impI)
    fix g' x assume x: "x \<in> set (m_free_pages h1 ! group_index g')" "x \<noteq> 0"
    then have ne: "g' \<noteq> g" using sp(2) gi H(2) by (auto simp: h1_def)
    then have m: "x \<in> set (m_free_pages h ! group_index g')" using x(1) by (simp add: h1_def)
    have "x \<notin> set ?ps" using H(3) [OF m x(2)] H(3) [of x g] x(2) unit_page_group ne by blast
    then have "run_out_of h1 x = run_out_of h x" using sp(3) by (simp add: run_out_of_def h1_def)
    then show "unit_page h1 x g'" "run_out_of h1 x = 0" "x \<notin> C" using H(3) [OF m x(2)] K(2) by auto
  next
    fix g' show "distinct (filter (\<lambda>p. p \<noteq> 0) (m_free_pages h1 ! group_index g'))"
      using H(4) [of g'] gi H(2) sp(2) by (cases "g' = g") (simp_all add: h1_def)
  next
    fix x assume "x \<in> C" then show "\<exists>g. unit_page h1 x g" using H(5) K(2) by blast
  qed (use H(1,2) in \<open>simp_all add: h1_def\<close>)
qed

text \<open>A new page: the units of the pages that exist are not touched.\<close>

lemma new_unit_page:
  assumes inv: "heap_inv h C" and emp: "m_free_pages h ! group_index g = []"
    and al: "allocate_page tgt sys (h_chunk h) = Some (p, c)" "p \<noteq> 0"
  shows "\<exists>m. init_page_for_unit_allocating p g (mem_of c, m_all_page_list h) = Some (m, p) \<and>
    (let h' = h\<lparr>h_chunk := c\<lparr>mem_of := m\<rparr>, m_all_page_list := p\<rparr> in obtained h C g p h' \<and> keeps_units h h')"
proof -
  note H = heap_invD [OF inv]
  let ?R = "chunk_ranges (chunk_of (h_chunk h))"
  have A: "chunk_inv (chunk_of c)" "chunk_ranges (chunk_of c) = insert (p, 1) ?R"
      "m_page_count_if_huge (page_at (mem_of c) p) = 0" "m_page_just_allocated (page_at (mem_of c) p)"
    using allocate_page_result [OF H(1), of tgt sys] al by auto
  obtain f where f: "mem_of c = upd_page p f (heap_mem h)" using allocate_page_frame(1) [OF H(1) al] by (auto simp: heap_mem_def)
  have new: "(p, 1) \<notin> ?R" using allocate_page_frame(2) [OF H(1) al] .
  define m where "m = upd_page p (\<lambda>q. q\<lparr>m_page_just_allocated := False, m_next_page := m_all_page_list h\<rparr>)
    (fresh_page (mem_of c) p g)"
  define h' where "h' = h\<lparr>h_chunk := c\<lparr>mem_of := m\<rparr>, m_all_page_list := p\<rparr>"
  have ini: "init_page_for_unit_allocating p g (mem_of c, m_all_page_list h) = Some (m, p)"
    using init_page_eq [OF A(4)] by (simp add: m_def)
  have mem': "heap_mem h' = m" "chunk_of (h_chunk h') = chunk_of c" by (simp_all add: h'_def)
  have L: "unit_lists m p g {} (map (unit_offset g) [0..<unit_count g]) []"
    unfolding m_def using fresh_page_lists by (subst unit_lists_cong) simp_all
  have fr: "page_frame p g (mem_of c) (fresh_page (mem_of c) p g)" by (rule fresh_page_frame)
  have pp: "page_at m q = page_at (mem_of c) q" if "q \<noteq> p" for q
    using that fr by (simp add: m_def upd_page_def page_frame_def)
  have P: "unit_page h' p g" "live_units m p g = {}"
  proof -
    have "page_at m p = (page_at (mem_of c) p)\<lparr>m_page_just_allocated := False, m_next_page := m_all_page_list h\<rparr>"
      using fr by (simp add: m_def upd_page_def page_frame_def)
    then show "unit_page h' p g" using A(2,3) L by (auto simp: unit_page_def mem' page_inv_def)
    show "live_units m p g = {}" using live_units_lists [OF L] by (auto simp: unit_offsets_def)
  qed
  have other: "q \<noteq> p \<and> unit_page h' q g' = unit_page h q g' \<and> live_units m q g' = live_units (heap_mem h) q g' \<and>
      run_out_of h' q = run_out_of h q" if q: "q \<in> page_ranges h" for q g'
  proof -
    have r: "(q, 1) \<in> ?R" "q \<noteq> p" using q new by (auto simp: page_ranges_def)
    have ap: "apart q p" using chunk_pages_apart [OF A(1), of q p] A(2) r by simp
    have u: "unit_at m = unit_at (fresh_page (mem_of c) p g)" "alloc_at m = alloc_at (fresh_page (mem_of c) p g)"
      by (simp_all add: m_def)
    have c: "unit_at (mem_of c) = unit_at (heap_mem h)" "alloc_at (mem_of c) = alloc_at (heap_mem h)"
      by (simp_all add: f)
    have "page_inv (mem_of c) q g' {} = page_inv (heap_mem h) q g' {}" by (simp add: page_inv_def unit_lists_cong [OF c])
    moreover have "page_inv m q g' {} = page_inv (fresh_page (mem_of c) p g) q g' {}"
      by (simp add: page_inv_def unit_lists_cong [OF u])
    ultimately have "page_inv m q g' {} = page_inv (heap_mem h) q g' {}" using page_frame_other(1) [OF fr ap] by simp
    moreover have "live_units m q g' = live_units (heap_mem h) q g'"
      using page_frame_other(2) [OF fr ap, of g'] u c by (simp add: live_units_def unit_life_of_def)
    moreover have "run_out_of h' q = run_out_of h q"
      using page_frame_other(3) [OF fr ap] u c by (simp add: run_out_of_def mem')
    moreover have "page_at m q = page_at (heap_mem h) q" using pp [OF r(2)] r(2) by (simp add: f upd_page_def)
    ultimately show ?thesis using r A(2) by (auto simp: unit_page_def mem')
  qed
  note rng = unit_page_range [of h]
  have "heap_inv h' (insert p C)"
    unfolding heap_inv_def
  proof (intro conjI allI ballI impI)
    fix g' x assume "x \<in> set (m_free_pages h' ! group_index g')" "x \<noteq> 0"
    then have "unit_page h x g'" "run_out_of h x = 0" "x \<notin> C" using H(3) [of x g'] by (auto simp: h'_def)
    then show "unit_page h' x g'" "run_out_of h' x = 0" "x \<notin> insert p C" using other rng by auto
  next
    fix g' show "distinct (filter (\<lambda>p. p \<noteq> 0) (m_free_pages h' ! group_index g'))" using H(4) by (simp add: h'_def)
  next
    fix x assume "x \<in> insert p C" then show "\<exists>g. unit_page h' x g" using P(1) H(5) other rng by blast
  qed (use A(1) H(2) in \<open>simp_all add: h'_def\<close>)
  moreover have "p \<notin> C" using H(5) [of p] other rng by blast
  ultimately have "obtained h C g p h'" using P al(2) new emp by (simp add: obtained_def mem' h'_def)
  moreover have "keeps_runs h h'"
  proof -
    have "page_at m q = page_at (heap_mem h) q \<and> unit_at m (q + sizeof_PageHead) = unit_at (heap_mem h) (q + sizeof_PageHead) \<and>
        alloc_at m (alloc_head q) = alloc_at (heap_mem h) (alloc_head q)" if q: "(q, n) \<in> ?R" for q n
    proof -
      have r: "(q, n) \<in> chunk_ranges (chunk_of c)" "(p, 1) \<in> chunk_ranges (chunk_of c)" using q A(2) by auto
      have "q \<noteq> p" using chunk_runs_unique [OF A(1) r(2)] r(1) q new by blast
      with run_head_no_unit [OF A(1) r(2,1), of g] fr pp f show ?thesis
        by (simp add: m_def page_frame_def upd_page_def)
    qed
    moreover have "word_at m = word_at (heap_mem h)" using fr by (simp add: m_def page_frame_def f)
    ultimately show ?thesis using A(2) by (auto simp: keeps_runs_def mem')
  qed
  then have "keeps_units h h'" using other by (simp add: keeps_units_def mem')
  ultimately show ?thesis using ini by (auto simp: h'_def Let_def)
qed

lemma require_normal_page_spec:
  assumes inv: "heap_inv h C"
  shows "\<exists>p h'. require_normal_page tgt sys g h = Some (p, h') \<and> keeps_units h h' \<and>
    (if p = 0 then heap_inv h' C \<and> (\<forall>b \<in> set (blocks_of (chunk_of (h_chunk h))). \<not> is_Free b)
     else obtained h C g p h')"
proof -
  note H = heap_invD [OF inv] and gi = group_index_max [of g]
  obtain p rest m where pk: "pick_free_page (m_free_pages h ! group_index g) (heap_mem h) = (p, rest, m)"
    by (metis prod_cases3)
  show ?thesis
  proof (cases "p = 0")
    case False
    then obtain h' where "require_normal_page tgt sys g h = Some (p, h')" "obtained h C g p h'" "keeps_units h h'"
      using require_from_pool [OF inv pk] by blast
    with False show ?thesis by auto
  next
    case True
    define h1 where "h1 = upd_mem (\<lambda>_. m) h\<lparr>m_free_pages := (m_free_pages h)[group_index g := rest]\<rparr>"
    note E = pool_exhausted [OF inv pk [unfolded True], folded h1_def]
    have ci: "chunk_inv (chunk_of (h_chunk h1))" using heap_invD(1) [OF E(1)] .
    obtain q c where al: "allocate_page tgt sys (h_chunk h1) = Some (q, c)"
        "q = 0 \<Longrightarrow> c = h_chunk h1 \<and> (\<forall>b \<in> set (blocks_of (chunk_of (h_chunk h1))). \<not> is_Free b)"
      using allocate_page_result [OF ci, of tgt sys] by auto
    have req: "require_normal_page tgt sys g h = allocate_page tgt sys (h_chunk h1) \<bind>
        (\<lambda>(page, c). if page \<noteq> 0
          then init_page_for_unit_allocating page g (mem_of c, m_all_page_list h1) \<bind>
            (\<lambda>(m, a). Some (page, h1\<lparr>h_chunk := c\<lparr>mem_of := m\<rparr>, m_all_page_list := a\<rparr>))
          else Some (page, h1\<lparr>h_chunk := c\<rparr>))"
      unfolding h1_def using pk gi H(2) True by (simp add: require_normal_page_def rd_in wr_in Let_def)
    show ?thesis
    proof (cases "q = 0")
      case True
      then have "require_normal_page tgt sys g h = Some (0, h1)" using req al by simp
      with al(2) [OF True] E show ?thesis by auto
    next
      case q: False
      obtain m2 where m2: "init_page_for_unit_allocating q g (mem_of c, m_all_page_list h1) = Some (m2, q)"
          "obtained h1 C g q (h1\<lparr>h_chunk := c\<lparr>mem_of := m2\<rparr>, m_all_page_list := q\<rparr>)"
          "keeps_units h1 (h1\<lparr>h_chunk := c\<lparr>mem_of := m2\<rparr>, m_all_page_list := q\<rparr>)"
        using new_unit_page [OF E(1,3) al(1) q] by (auto simp: Let_def)
      have "obtained h C g q (h1\<lparr>h_chunk := c\<lparr>mem_of := m2\<rparr>, m_all_page_list := q\<rparr>)"
        using m2(2) E(3,4) allocate_page_frame(2) [OF ci al(1) q] by (simp add: obtained_def)
      with m2 req al(1) q keeps_units_trans [OF E(2) m2(3)] show ?thesis by auto
    qed
  qed
qed

section \<open>Allocating a unit\<close>

text \<open>
  \<open>served h g a h'\<close>: the address \<open>a\<close> is the payload of a unit of group \<open>g\<close> in the page \<open>p\<close>, pending and
  in use in \<open>h'\<close>, which was not in use in \<open>h\<close> (or whose page was not allocated); it is the only change
  to the units in use.
\<close>

definition served :: "'os heap \<Rightarrow> unit_alloc_group \<Rightarrow> addr \<Rightarrow> addr \<Rightarrow> 'os heap \<Rightarrow> bool" where
  "served h g p a h' \<longleftrightarrow> (\<exists>off \<in> unit_offsets g.
     a = unit_addr p off + sizeof_UnitHead \<and> a \<noteq> 0 \<and> unit_page h' p g \<and>
     m_life (unit_at (heap_mem h') (unit_addr p off)) = PENDING \<and>
     (if p \<in> page_ranges h
      then unit_page h p g \<and> off \<notin> live_units (heap_mem h) p g \<and>
        live_units (heap_mem h') p g = insert off (live_units (heap_mem h) p g)
      else live_units (heap_mem h') p g = {off}) \<and>
     keeps_runs h h' \<and>
     (\<forall>q g'. unit_page h q g' \<and> q \<noteq> p \<longrightarrow>
        unit_page h' q g' \<and> live_units (heap_mem h') q g' = live_units (heap_mem h) q g'))"

lemma unit_payload_nonzero:
  assumes "page_fits p" "off \<in> unit_offsets g"
  shows "unit_addr p off + sizeof_UnitHead \<noteq> 0"
proof -
  have u: "unat (unit_addr p off) = unat p + 24 + unat off" by (rule unat_unit_addr [OF assms])
  then have "unat (unit_addr p off) + 8 < 2 ^ 64" using assms(1) unit_offsets_le [OF assms(2)] by (simp add: page_fits_def)
  then have "unat (unit_addr p off + 8) = unat (unit_addr p off) + 8" by (subst unat_add_lem [THEN iffD1]) simp_all
  then show ?thesis by (auto simp: sizeof_UnitHead_def)
qed

text \<open>Changing the units and the head of one cut page, in a way that keeps its lists.\<close>

lemma page_update:
  assumes inv: "heap_inv h C" and p: "unit_page h p g" and fr: "page_frame p g (heap_mem h) m"
    and pi: "page_inv m p g {}" and ro: "p \<notin> C \<Longrightarrow> run_out_of h p = 0 \<Longrightarrow> m_run_out (alloc_at m (alloc_head p)) = 0"
  defines "h' \<equiv> upd_mem (\<lambda>_. m) h"
  shows "unit_page h' p g" "heap_inv h' C" "keeps_runs h h'"
    "\<And>q g'. q \<in> page_ranges h \<Longrightarrow> q \<noteq> p \<Longrightarrow> unit_page h' q g' = unit_page h q g' \<and>
       live_units m q g' = live_units (heap_mem h) q g' \<and> run_out_of h' q = run_out_of h q"
proof -
  note H = heap_invD [OF inv]
  let ?R = "chunk_ranges (chunk_of (h_chunk h))"
  have P: "(p, 1) \<in> ?R" "page_inv (heap_mem h) p g {}" using p by (auto simp: unit_page_def)
  have m': "heap_mem h' = m" "chunk_of (h_chunk h') = chunk_of (h_chunk h)" "m_free_pages h' = m_free_pages h"
    by (simp_all add: h'_def)
  have pg: "page_at m = page_at (heap_mem h)" using fr by (simp add: page_frame_def)
  show pp: "unit_page h' p g" using p pi pg by (simp add: unit_page_def m')
  show other: "unit_page h' q g' = unit_page h q g' \<and> live_units m q g' = live_units (heap_mem h) q g' \<and>
      run_out_of h' q = run_out_of h q" if q: "q \<in> page_ranges h" "q \<noteq> p" for q g'
  proof -
    have "apart q p" using chunk_pages_apart [OF H(1)] q P(1) by (simp add: page_ranges_def)
    from page_frame_other [OF fr this] pg show ?thesis by (auto simp: unit_page_def m' run_out_of_def)
  qed
  show "heap_inv h' C"
  proof (rule heap_inv_transfer_weak [OF inv])
    fix q g' assume q: "unit_page h q g'"
    show "unit_page h' q g' \<and> (q \<notin> C \<longrightarrow> run_out_of h q = 0 \<longrightarrow> run_out_of h' q = 0)"
    proof (cases "q = p")
      case True
      with q p pp ro unit_page_group [of h p g g'] show ?thesis by (auto simp: run_out_of_def m')
    qed (use other q unit_page_range [of h] in auto)
  qed (use H(1) in \<open>simp_all add: m'\<close>)
  show "keeps_runs h h'"
  proof -
    have "unit_at m (q + sizeof_PageHead) = unit_at (heap_mem h) (q + sizeof_PageHead)" if "(q, n) \<in> ?R" for q n
      using run_head_no_unit [OF H(1) P(1) that] fr by (simp add: page_frame_def)
    moreover have "m_unit_size_in_page (alloc_at m (alloc_head q)) = m_unit_size_in_page (alloc_at (heap_mem h) (alloc_head q))" for q
    proof (cases "q = p")
      case True
      then show ?thesis using P(2) pi by (auto simp: page_inv_def dest!: unit_listsD(1))
    qed (use fr in \<open>simp add: page_frame_def\<close>)
    ultimately show ?thesis using fr pg by (auto simp: keeps_runs_def m' page_frame_def)
  qed
qed

text \<open>Taking a unit from a page that a thread holds.\<close>

lemma pick_from_held:
  assumes inv: "heap_inv h C" and p: "unit_page h p g" "p \<in> C"
  shows "\<exists>u m. pick_unit_from_page_without_init p (heap_mem h) = Some (u, m) \<and>
    heap_inv (upd_mem (\<lambda>_. m) h) C \<and>
    (if u = 0 then live_units (heap_mem h) p g = unit_offsets g \<and> keeps_units h (upd_mem (\<lambda>_. m) h)
     else served h g p (u + sizeof_UnitHead) (upd_mem (\<lambda>_. m) h))"
proof -
  note H = heap_invD [OF inv]
  let ?R = "chunk_ranges (chunk_of (h_chunk h))"
  have P: "(p, 1) \<in> ?R" "m_page_count_if_huge (page_at (heap_mem h) p) = 0" "page_inv (heap_mem h) p g {}"
    using p(1) by (auto simp: unit_page_def)
  have fit: "page_fits p" using chunk_page_facts(1) [OF H(1) P(1)] .
  obtain u m where um: "pick_unit_from_page_without_init p (heap_mem h) = Some (u, m)" "page_inv m p g {}"
      "page_frame p g (heap_mem h) m"
      "if live_units (heap_mem h) p g = unit_offsets g
       then u = 0 \<and> live_units m p g = unit_offsets g \<and> m_run_out (alloc_at m (alloc_head p)) = 1
       else \<exists>off \<in> unit_offsets g - live_units (heap_mem h) p g. u = unit_addr p off \<and> u \<noteq> 0 \<and>
         m_life (unit_at m u) = PENDING \<and> live_units m p g = insert off (live_units (heap_mem h) p g)"
    using pick_unit_spec [OF P(3) fit] by blast
  define h' where "h' = upd_mem (\<lambda>_. m) h"
  have m': "heap_mem h' = m" "chunk_of (h_chunk h') = chunk_of (h_chunk h)" by (simp_all add: h'_def)
  have ro: "m_run_out (alloc_at m (alloc_head p)) = 0" if "p \<notin> C" using that p(2) by blast
  note U = page_update [OF inv p(1) um(3,2) ro, folded h'_def]
  note pp = U(1) and kr = U(3) and other = U(4) and rng = unit_page_range [of h]
  have "heap_inv h' C" by (rule U(2))
  moreover have "keeps_units h h'" if "live_units m p g = live_units (heap_mem h) p g"
  proof -
    have "unit_page h' p g' = unit_page h p g' \<and> (unit_page h p g' \<longrightarrow> live_units m p g' = live_units (heap_mem h) p g')" for g'
    proof (cases "g' = g")
      case False
      then have "\<not> unit_page h p g'" "\<not> unit_page h' p g'" using unit_page_group [OF p(1)] unit_page_group [OF pp] by blast+
      then show ?thesis by blast
    qed (use that pp p(1) in simp)
    with other kr show ?thesis by (auto simp: keeps_units_def m' page_ranges_def)
  qed
  moreover have "unit_addr p off + sizeof_UnitHead \<noteq> 0" if "off \<in> unit_offsets g" for off
    by (rule unit_payload_nonzero [OF fit that])
  then have "served h g p (u + sizeof_UnitHead) h'" if "u \<noteq> 0"
    using um(4) that pp p(1) P(1) other rng kr by (auto simp: served_def m' page_ranges_def split: if_splits)
  ultimately show ?thesis using um(1,4) unfolding h'_def by (auto split: if_splits)
qed

lemma heap_inv_antimono: "heap_inv h C \<Longrightarrow> D \<subseteq> C \<Longrightarrow> heap_inv h D"
  unfolding heap_inv_def by blast

lemma served_trans:
  assumes k: "keeps_units h h1" and "served h1 g p a h2"
    and new: "p \<in> page_ranges h1 \<Longrightarrow> p \<notin> page_ranges h \<Longrightarrow> live_units (heap_mem h1) p g = {}"
  shows "served h g p a h2"
proof -
  obtain off where off: "off \<in> unit_offsets g" "a = unit_addr p off + sizeof_UnitHead" "a \<noteq> 0" "unit_page h2 p g"
      "m_life (unit_at (heap_mem h2) (unit_addr p off)) = PENDING"
      "if p \<in> page_ranges h1
       then unit_page h1 p g \<and> off \<notin> live_units (heap_mem h1) p g \<and>
         live_units (heap_mem h2) p g = insert off (live_units (heap_mem h1) p g)
       else live_units (heap_mem h2) p g = {off}"
      "keeps_runs h1 h2"
      "\<forall>q g'. unit_page h1 q g' \<and> q \<noteq> p \<longrightarrow>
         unit_page h2 q g' \<and> live_units (heap_mem h2) q g' = live_units (heap_mem h1) q g'"
    using assms(2) unfolding served_def by blast
  have k1: "unit_page h1 q g' = unit_page h q g'" "unit_page h q g' \<Longrightarrow> live_units (heap_mem h1) q g' = live_units (heap_mem h) q g'"
    "q \<in> page_ranges h1" if "q \<in> page_ranges h" for q g' using k that by (auto simp: keeps_units_def keeps_runs_def page_ranges_def)
  have "if p \<in> page_ranges h
      then unit_page h p g \<and> off \<notin> live_units (heap_mem h) p g \<and>
        live_units (heap_mem h2) p g = insert off (live_units (heap_mem h) p g)
      else live_units (heap_mem h2) p g = {off}"
    using off(6) new k1(1,2) [of p g] k1(3) [of p] by (auto split: if_splits)
  moreover have "\<forall>q g'. unit_page h q g' \<and> q \<noteq> p \<longrightarrow>
      unit_page h2 q g' \<and> live_units (heap_mem h2) q g' = live_units (heap_mem h) q g'"
    using off(8) k1 unit_page_range by metis
  moreover have "keeps_runs h h2" using k off(7) keeps_runs_trans unfolding keeps_units_def by blast
  ultimately show ?thesis using off(1-5) unfolding served_def by blast
qed

lemma pick_hit:
  assumes inv: "heap_inv h C" and p: "unit_page h p g" "p \<in> C" "p \<noteq> 0" and room: "live_units (heap_mem h) p g \<noteq> unit_offsets g"
  shows "\<exists>a h'. pick_from_pages tgt sys g p h = Some (a, p, h') \<and> heap_inv h' C \<and> served h g p a h'"
proof -
  obtain u m where "pick_unit_from_page_without_init p (heap_mem h) = Some (u, m)"
      "heap_inv (upd_mem (\<lambda>_. m) h) C" "u \<noteq> 0" "served h g p (u + sizeof_UnitHead) (upd_mem (\<lambda>_. m) h)"
    using pick_from_held [OF inv p(1,2)] room by (auto split: if_splits)
  then show ?thesis using p(3) by (subst pick_from_pages.simps) simp
qed

text \<open>The pages that are held once a call has replaced \<open>cached\<close> by \<open>c\<close>.\<close>

definition swap_held :: "addr set \<Rightarrow> addr \<Rightarrow> addr \<Rightarrow> addr set" where
  "swap_held C cached c = (if c = cached then C else if c = 0 then C - {cached} else insert c (C - {cached}))"

definition pick_result :: "'os heap \<Rightarrow> addr set \<Rightarrow> unit_alloc_group \<Rightarrow> addr \<Rightarrow> (addr \<times> addr \<times> 'os heap) option \<Rightarrow> bool" where
  "pick_result h C g cached r \<longleftrightarrow> (case r of None \<Rightarrow> False | Some (a, c, h') \<Rightarrow>
     heap_inv h' (swap_held C cached c) \<and>
     (if a = 0 then c = 0 \<and> keeps_units h h' \<and> (\<forall>b \<in> set (blocks_of (chunk_of (h_chunk h))). \<not> is_Free b)
      else served h g c a h' \<and> c \<in> swap_held C cached c))"

lemma swap_held_again:
  assumes "cached \<noteq> 0 \<longrightarrow> cached \<in> C" "0 \<notin> C" "p \<notin> C" "p \<noteq> 0"
  shows "swap_held (insert p (C - {cached})) p c = swap_held C cached c"
  using assms unfolding swap_held_def by auto

lemma pick_result_trans:
  assumes r: "pick_result h1 (insert p (C - {cached})) g p r" and k: "keeps_units h h1"
    and C: "cached \<noteq> 0 \<longrightarrow> cached \<in> C" "0 \<notin> C" "p \<notin> C" "p \<noteq> 0"
    and ch: "chunk_of (h_chunk h1) = chunk_of (h_chunk h)"
  shows "pick_result h C g cached r"
proof -
  obtain a c h' where e: "r = Some (a, c, h')" using r by (auto simp: pick_result_def split: option.splits)
  note sw = swap_held_again [OF C, of c]
  have R: "heap_inv h' (swap_held C cached c)"
    "if a = 0 then c = 0 \<and> keeps_units h1 h' \<and> (\<forall>b \<in> set (blocks_of (chunk_of (h_chunk h1))). \<not> is_Free b)
     else served h1 g c a h' \<and> c \<in> swap_held C cached c"
    using r unfolding e pick_result_def option.case prod.case sw by blast+
  have "served h g c a h'" if "served h1 g c a h'"
    using served_trans [OF k that] ch by (simp add: page_ranges_def)
  moreover have "keeps_units h h'" if "keeps_units h1 h'" using k that by (rule keeps_units_trans)
  ultimately show ?thesis using R ch unfolding e pick_result_def by (auto split: if_splits)
qed

text \<open>The part of the loop after the cached page has failed.\<close>

lemma pick_retry:
  assumes h1: "heap_inv h1 C" "keeps_units h h1" "chunk_of (h_chunk h1) = chunk_of (h_chunk h)"
      "m_free_pages h1 = m_free_pages h"
    and C: "cached \<noteq> 0 \<longrightarrow> cached \<in> C" "0 \<notin> C"
    and IH: "\<And>h2 D p. length (m_free_pages h2 ! group_index g) < length (m_free_pages h ! group_index g) \<Longrightarrow>
      heap_inv h2 D \<Longrightarrow> unit_page h2 p g \<Longrightarrow> p \<in> D \<Longrightarrow> 0 \<notin> D \<Longrightarrow>
      pick_result h2 D g p (pick_from_pages tgt sys g p h2)"
  shows "pick_result h C g cached
      (require_normal_page tgt sys g h1 \<bind>
        (\<lambda>ph. if fst ph = 0 then Some (0, 0, snd ph) else pick_from_pages tgt sys g (fst ph) (snd ph)))"
proof -
  obtain p h2 where r: "require_normal_page tgt sys g h1 = Some (p, h2)" "keeps_units h1 h2"
    "if p = 0 then heap_inv h2 C \<and> (\<forall>b \<in> set (blocks_of (chunk_of (h_chunk h1))). \<not> is_Free b)
     else obtained h1 C g p h2"
    using require_normal_page_spec [OF h1(1)] by blast
  have k: "keeps_units h h2" using h1(2) r(2) by (rule keeps_units_trans)
  show ?thesis
  proof (cases "p = 0")
    case True
    then have "heap_inv h2 (swap_held C cached 0)"
      using r(3) heap_inv_antimono [of h2 C "swap_held C cached 0"] by (auto simp: swap_held_def)
    then show ?thesis using True r(1,3) k h1(3) by (simp add: pick_result_def)
  next
    case False
    then have o: "obtained h1 C g p h2" using r(3) by simp
    let ?D = "insert p (C - {cached})"
    have D: "heap_inv h2 ?D" "unit_page h2 p g" "p \<in> ?D" "0 \<notin> ?D" "p \<notin> C"
      using o C False heap_inv_antimono [of h2 "insert p C" ?D] by (auto simp: obtained_def)
    have step: "?thesis \<longleftrightarrow> pick_result h C g cached (pick_from_pages tgt sys g p h2)" using r(1) False by simp
    show ?thesis
    proof (cases "p \<in> page_ranges h1")
      case True
      then have t: "chunk_of (h_chunk h2) = chunk_of (h_chunk h1)"
        "length (m_free_pages h2 ! group_index g) < length (m_free_pages h ! group_index g)"
        using o h1(4) by (simp_all add: obtained_def page_ranges_def)
      have "pick_result h2 ?D g p (pick_from_pages tgt sys g p h2)" using t(2) D by (intro IH)
      moreover have "chunk_of (h_chunk h2) = chunk_of (h_chunk h)" using t(1) h1(3) by simp
      ultimately have "pick_result h C g cached (pick_from_pages tgt sys g p h2)"
        using pick_result_trans [OF _ k C D(5) False] by blast
      then show ?thesis using step by blast
    next
      case new: False
      then have l: "live_units (heap_mem h2) p g = {}" using o by (simp add: obtained_def page_ranges_def)
      obtain a h3 where a: "pick_from_pages tgt sys g p h2 = Some (a, p, h3)" "heap_inv h3 ?D" "served h2 g p a h3"
        using pick_hit [OF D(1,2,3) False, of tgt sys] l unit_offsets_nonempty [of g] by auto
      have "served h g p a h3" using served_trans [OF k a(3)] l by blast
      moreover have "a \<noteq> 0" using a(3) by (auto simp: served_def)
      moreover have "swap_held C cached p = ?D" using C D(5) False by (auto simp: swap_held_def)
      ultimately have "pick_result h C g cached (pick_from_pages tgt sys g p h2)"
        using a(1,2) by (simp add: pick_result_def)
      then show ?thesis using step by blast
    qed
  qed
qed

lemma pick_from_pages_spec:
  assumes "heap_inv h C" "cached \<noteq> 0 \<Longrightarrow> unit_page h cached g \<and> cached \<in> C" "0 \<notin> C"
  shows "pick_result h C g cached (pick_from_pages tgt sys g cached h)"
  using assms
proof (induction "length (m_free_pages h ! group_index g)" arbitrary: h C cached rule: less_induct)
  case less
  have C: "cached \<noteq> 0 \<longrightarrow> cached \<in> C" "0 \<notin> C" using less.prems by auto
  have IH: "pick_result h2 D g p (pick_from_pages tgt sys g p h2)"
    if "length (m_free_pages h2 ! group_index g) < length (m_free_pages h ! group_index g)"
      "heap_inv h2 D" "unit_page h2 p g" "p \<in> D" "0 \<notin> D" for h2 D p
    using that by (intro less.hyps) auto
  note retry = pick_retry [where h = h, OF _ _ _ _ C IH]
  show ?case
  proof (cases "cached = 0")
    case True
    have "keeps_units h h" by (simp add: keeps_units_def keeps_runs_same)
    then show ?thesis using retry [of h] less.prems(1) True by (subst pick_from_pages.simps) simp
  next
    case False
    then have c: "unit_page h cached g" "cached \<in> C" using less.prems(2) by auto
    obtain u m where um: "pick_unit_from_page_without_init cached (heap_mem h) = Some (u, m)"
        "heap_inv (upd_mem (\<lambda>_. m) h) C"
        "if u = 0 then live_units (heap_mem h) cached g = unit_offsets g \<and> keeps_units h (upd_mem (\<lambda>_. m) h)
         else served h g cached (u + sizeof_UnitHead) (upd_mem (\<lambda>_. m) h)"
      using pick_from_held [OF less.prems(1) c] by blast
    show ?thesis
    proof (cases "u = 0")
      case True
      then show ?thesis using retry [of "upd_mem (\<lambda>_. m) h"] um False by (subst pick_from_pages.simps) simp
    next
      case u: False
      have "u + sizeof_UnitHead \<noteq> 0" using um(3) u by (auto simp: served_def)
      then show ?thesis using um u False c(2)
        by (subst pick_from_pages.simps) (simp add: pick_result_def swap_held_def)
    qed
  qed
qed

section \<open>Threads\<close>

text \<open>An attached thread whose cached pages are unit pages of their groups and counted as held.\<close>

definition thread_ok :: "thread_pages \<Rightarrow> 'os heap \<Rightarrow> addr set \<Rightarrow> bool" where
  "thread_ok t h C \<longleftrightarrow> m_attached t \<and> length (m_cached_pages t) = MAX_GROUP \<and>
     (\<forall>g. m_cached_pages t ! group_index g \<noteq> 0 \<longrightarrow>
        unit_page h (m_cached_pages t ! group_index g) g \<and> m_cached_pages t ! group_index g \<in> C)"

lemma thread_ok_pick:
  assumes t: "thread_ok t h C" and cached: "cached = m_cached_pages t ! group_index g"
    and r: "pick_result h C g cached (Some (a, c, h'))"
  shows "thread_ok (t\<lparr>m_cached_pages := (m_cached_pages t)[group_index g := c]\<rparr>) h' (swap_held C cached c)"
proof -
  have gi: "group_index g < length (m_cached_pages t)" using t group_index_max by (simp add: thread_ok_def)
  have "unit_page h' q g' \<and> q \<in> swap_held C cached c"
    if q: "q = (m_cached_pages t)[group_index g := c] ! group_index g'" "q \<noteq> 0" for q g'
  proof (cases "g' = g")
    case True
    then have "q = c" using q gi by simp
    then show ?thesis using r q(2) True by (auto simp: pick_result_def served_def split: if_splits)
  next
    case False
    then have u: "unit_page h q g'" "q \<in> C" using t q by (auto simp: thread_ok_def)
    have "q \<noteq> cached"
    proof
      assume "q = cached"
      then have "unit_page h q g" using t q(2) unfolding cached by (simp add: thread_ok_def)
      then show False using unit_page_group [OF u(1)] False by blast
    qed
    then have "q \<in> swap_held C cached c" using u(2) by (simp add: swap_held_def)
    moreover have "unit_page h' q g'"
    proof (cases "a = 0")
      case True
      then show ?thesis using r u(1) unit_page_range [OF u(1)] by (simp add: pick_result_def keeps_units_def)
    next
      case a: False
      then have s: "served h g c a h'" using r by (simp add: pick_result_def)
      have "q \<noteq> c"
      proof
        assume "q = c"
        then have "unit_page h q g" using s unit_page_range [OF u(1)] by (auto simp: served_def)
        then show False using unit_page_group [OF u(1)] False by blast
      qed
      then show ?thesis using s u(1) by (auto simp: served_def)
    qed
    ultimately show ?thesis by blast
  qed
  then show ?thesis using t by (simp add: thread_ok_def)
qed

lemma heap_inv_new:
  assumes "chunk_inv (chunk_of s)" "GlobalPageCollection s a = Some h"
  shows "heap_inv h {}" "thread_ok (ThreadPageCollection True) h {}"
proof -
  have h: "h = \<lparr>h_chunk = s, m_all_page_list = a, m_free_pages = replicate MAX_GROUP []\<rparr>"
    using assms(2) by (simp add: GlobalPageCollection_def split: if_splits)
  show "heap_inv h {}" using assms(1) group_index_max by (simp add: heap_inv_def h)
  show "thread_ok (ThreadPageCollection True) h {}"
    using group_index_max by (simp add: thread_ok_def ThreadPageCollection_def)
qed

lemma pick_unit_in_page_spec:
  assumes "heap_inv h C" and "0 \<notin> C" and "thread_ok t h C" and "sz \<le> MAX_IN_PAGE_UNIT_SIZE"
  shows "\<exists>g a t' h' D. eval_group_by_small_unit_size sz = Some g \<and> sz \<le> group_size g \<and>
    pick_unit_in_page tgt sys sz t h = Some (a, t', h') \<and> heap_inv h' D \<and> 0 \<notin> D \<and> thread_ok t' h' D \<and>
    (if a = 0 then keeps_units h h' \<and> (\<forall>b \<in> set (blocks_of (chunk_of (h_chunk h))). \<not> is_Free b)
     else \<exists>p. served h g p a h')"
proof -
  have b: "unat sz \<le> 16360" using assms(4) by (simp add: MAX_IN_PAGE_UNIT_SIZE_def word_le_nat_alt)
  then obtain g where g: "eval_group_by_small_unit_size sz = Some g" using eval_group_ranges by blast
  have fit: "sz \<le> group_size g" using eval_group_fits [OF b g] by (simp add: word_le_nat_alt)
  let ?c = "m_cached_pages t ! group_index g"
  have gi: "group_index g < length (m_cached_pages t)" and at: "m_attached t"
    using assms(3) group_index_max by (simp_all add: thread_ok_def)
  have "pick_result h C g ?c (pick_from_pages tgt sys g ?c h)"
    using assms(1-3) by (intro pick_from_pages_spec) (auto simp: thread_ok_def)
  then obtain a c h' where r: "pick_from_pages tgt sys g ?c h = Some (a, c, h')" "pick_result h C g ?c (Some (a, c, h'))"
    by (cases "pick_from_pages tgt sys g ?c h") (auto simp: pick_result_def)
  let ?t = "t\<lparr>m_cached_pages := (m_cached_pages t)[group_index g := c]\<rparr>"
  have "pick_unit_in_page tgt sys sz t h = Some (a, ?t, h')"
    using at assms(4) g gi r(1) by (simp add: pick_unit_in_page_def rd_in wr_in)
  moreover have "thread_ok ?t h' (swap_held C ?c c)" using assms(3) refl r(2) by (rule thread_ok_pick)
  moreover have "heap_inv h' (swap_held C ?c c)" using r(2) by (simp add: pick_result_def)
  moreover have "0 \<notin> swap_held C ?c c" using assms(2) by (auto simp: swap_held_def)
  moreover have "if a = 0 then keeps_units h h' \<and> (\<forall>b \<in> set (blocks_of (chunk_of (h_chunk h))). \<not> is_Free b)
      else \<exists>p. served h g p a h'"
    using r(2) by (auto simp: pick_result_def)
  ultimately show ?thesis using g fit by blast
qed

section \<open>Properties\<close>

text \<open>C13: Small allocation is correct. For every size up to 16360 bytes, on a heap and a thread in good order,
  \<open>pick_unit_in_page\<close> returns and keeps both in good order. A non-null answer is the payload of a unit
  of the best-fitting group, in a page of the chunk, which nobody was using, and every other unit of
  the heap that was in use stays in use and no other becomes used. A null answer changes no unit and
  is given only when the chunk has no free page left.\<close>

theorem pick_unit_in_page_correct:
  assumes "heap_inv h C" and "0 \<notin> C" and "thread_ok t h C" and "sz \<le> MAX_IN_PAGE_UNIT_SIZE"
  shows "\<exists>g a t' h' D. eval_group_by_small_unit_size sz = Some g \<and> sz \<le> group_size g \<and>
    pick_unit_in_page tgt sys sz t h = Some (a, t', h') \<and> heap_inv h' D \<and> 0 \<notin> D \<and> thread_ok t' h' D \<and>
    (if a = 0 then keeps_units h h' \<and> (\<forall>b \<in> set (blocks_of (chunk_of (h_chunk h))). \<not> is_Free b)
     else \<exists>p. served h g p a h')"
  using assms by (rule pick_unit_in_page_spec)

definition demo_heap :: "addr list heap" where
  "demo_heap = the (GlobalPageCollection demo_state 0)"

lemma demo_heap_inv: "heap_inv demo_heap {}" "thread_ok (ThreadPageCollection True) demo_heap {}"
proof -
  have "\<not> is_init_failed (chunk_of demo_state)"
    using chunk_invD(3) [OF demo_state_inv(1)] by (simp add: is_init_failed_def)
  then have "GlobalPageCollection demo_state 0 = Some demo_heap" by (simp add: demo_heap_def GlobalPageCollection_def)
  from heap_inv_new [OF demo_state_inv(1) this]
  show "heap_inv demo_heap {}" "thread_ok (ThreadPageCollection True) demo_heap {}" by auto
qed

theorem pick_unit_in_page_correct_witness:
  "\<exists>a t' h' p. pick_unit_in_page POSIX demo_sys 100 (ThreadPageCollection True) demo_heap = Some (a, t', h') \<and>
     a \<noteq> 0 \<and> served demo_heap SMALL_168 p a h'"
proof -
  have blocks: "blocks_of (chunk_of (h_chunk demo_heap)) = [Free 4]"
    using demo_state_inv chunk_invD(3) [OF demo_state_inv(1)]
    by (simp add: demo_heap_def GlobalPageCollection_def is_init_failed_def)
  have "eval_group_by_small_unit_size 100 = Some SMALL_168" by (simp add: eval_group_ranges)
  moreover have "0 \<notin> ({} :: addr set)" "100 \<le> MAX_IN_PAGE_UNIT_SIZE" by (simp_all add: MAX_IN_PAGE_UNIT_SIZE_def)
  ultimately obtain a t' h' where r: "pick_unit_in_page POSIX demo_sys 100 (ThreadPageCollection True) demo_heap = Some (a, t', h')"
      "if a = 0 then keeps_units demo_heap h' \<and> (\<forall>b \<in> set (blocks_of (chunk_of (h_chunk demo_heap))). \<not> is_Free b)
       else \<exists>p. served demo_heap SMALL_168 p a h'"
    using pick_unit_in_page_correct [OF demo_heap_inv(1) _ demo_heap_inv(2), of 100 POSIX demo_sys] by auto
  then have "a \<noteq> 0" using blocks by auto
  with r show ?thesis by auto
qed

section \<open>Shutting down and starting again\<close>

lemma return_cached_keeps: "return_cached cs h = Some h' \<Longrightarrow> m_all_page_list h' = m_all_page_list h \<and> h_chunk h' = h_chunk h"
proof (induction cs h rule: return_cached.induct)
  case (2 page g rest h)
  then show ?case
    by (auto simp: return_page_def split: if_splits bind_splits)
qed simp

definition cached_of :: "thread_context \<Rightarrow> addr list" where
  "cached_of t = m_cached_pages (m_thread_page_collection t)"

lemma shutdown_threads_keeps:
  "shutdown_threads ts h = Some (ts', h') \<Longrightarrow>
   map cached_of ts' = map cached_of ts \<and> m_all_page_list h' = m_all_page_list h \<and> h_chunk h' = h_chunk h"
proof (induction ts arbitrary: h ts' h')
  case (Cons t ts)
  obtain p1 h1 ts1 where s: "shutdown_manually (m_thread_page_collection t) h = Some (p1, h1)"
      "shutdown_threads ts h1 = Some (ts1, h')" "ts' = t\<lparr>m_thread_page_collection := p1\<rparr> # ts1"
    using Cons.prems by (auto split: bind_splits)
  have "m_cached_pages p1 = cached_of t \<and> m_all_page_list h1 = m_all_page_list h \<and> h_chunk h1 = h_chunk h"
    using s(1) return_cached_keeps by (fastforce simp: shutdown_manually_def cached_of_def split: if_splits bind_splits)
  with Cons.IH [OF s(2)] s(3) show ?case by (simp add: cached_of_def)
qed simp

lemma init_threads_keeps: "init_threads ts = Some ts' \<Longrightarrow> map cached_of ts' = map cached_of ts"
  by (induction ts arbitrary: ts') (auto simp: init_manually_def cached_of_def split: bind_splits if_splits)

text \<open>C33: Restarting keeps dead pages. After \<open>shutdown\<close> and a successful new \<open>init\<close>, the chain of all pages and
  the cached pages of every registered thread are still those of the previous life, although the chunk
  they lie in has been released: neither \<open>shutdown\<close> nor \<open>init\<close> resets them.\<close>

theorem restart_keeps_dead_pages:
  assumes "global_shutdown sys g = Some g1" and "global_init tgt sys sz g1 = Some (True, g2)"
  shows "m_all_page_list (gx_heap g2) = m_all_page_list (gx_heap g) \<and>
    map cached_of (m_thread_entries g2) = map cached_of (m_thread_entries g)"
proof -
  obtain ts h where s: "shutdown_threads (m_thread_entries g) (gx_heap g) = Some (ts, h)"
      "m_thread_entries g1 = ts" "m_all_page_list (gx_heap g1) = m_all_page_list h"
    using assms(1) by (auto simp: global_shutdown_def Let_def split: if_splits bind_splits)
  obtain ts2 where "init_threads (m_thread_entries g1) = Some ts2" "m_thread_entries g2 = ts2"
      "m_all_page_list (gx_heap g2) = m_all_page_list (gx_heap g1)"
    using assms(2)
    by (auto simp: global_init_def GlobalPageCollection_def Let_def split: if_splits bind_splits)
  with shutdown_threads_keeps [OF s(1)] init_threads_keeps s show ?thesis by auto
qed

text \<open>
  A context with one thread that has allocated one unit; after a restart the new chunk has no
  allocated page, but the chain and the thread still name the page at \<open>0x100000\<close>.
\<close>

definition demo_ctx :: "addr list global_context" where
  "demo_ctx = (case pick_unit_in_page POSIX demo_sys 10000 (ThreadPageCollection True) demo_heap of
     Some (a, t, h) \<Rightarrow> \<lparr>m_globalcontext_alive = True, m_globalcontext_inited = True, 
       m_thread_entries = [\<lparr>m_thread_page_collection = t, m_gc_marking_context = None, m_is_gc_worker_context = False\<rparr>],
       gx_heap = h\<rparr>
   | None \<Rightarrow> \<lparr>m_globalcontext_alive = True, m_globalcontext_inited = False, m_thread_entries = [], gx_heap = demo_heap\<rparr>)"

definition demo_down :: "addr list global_context" where
  "demo_down = the (global_shutdown demo_sys demo_ctx)"

definition demo_again :: "addr list global_context" where
  "demo_again = snd (the (global_init POSIX demo_sys 0x20000 demo_down))"

lemma demo_restart:
  "m_globalcontext_inited demo_ctx" "map_option (\<lambda>_. ()) (global_shutdown demo_sys demo_ctx) = Some ()"
  "map_option fst (global_init POSIX demo_sys 0x20000 demo_down) = Some True"
  "m_all_page_list (gx_heap demo_ctx) = 0x100000"
  "map cached_of (m_thread_entries demo_ctx) = [[0, 0, 0, 0, 0, 0, 0, 0, 0, 0, 0, 0x100000, 0]]"
  "validate 0x100000 (chunk_of (h_chunk (gx_heap demo_again))) = Some 0"
  by code_simp+

theorem restart_keeps_dead_pages_witness:
  "m_all_page_list (gx_heap demo_again) = 0x100000 \<and>
   map cached_of (m_thread_entries demo_again) = [[0, 0, 0, 0, 0, 0, 0, 0, 0, 0, 0, 0x100000, 0]] \<and>
   validate 0x100000 (chunk_of (h_chunk (gx_heap demo_again))) = Some 0"
proof -
  have "global_shutdown demo_sys demo_ctx = Some demo_down"
    using demo_restart(2) by (auto simp: demo_down_def)
  moreover have "global_init POSIX demo_sys 0x20000 demo_down = Some (True, demo_again)"
    using demo_restart(3) by (auto simp: demo_again_def)
  ultimately show ?thesis using restart_keeps_dead_pages demo_restart(4-6) by metis
qed

end
