(* ===== verification/Woomem_Api_Props.thy ===== *)
theory Woomem_Api_Props
  imports Woomem_Api Woomem_Pools_Props Woomem_Chunk_Safety
begin

text \<open>
  Correctness of the allocation interface: an address resolves to the unit that contains it, and an
  allocation, small or huge, yields a unit at least as large as requested whose addresses resolve to
  it once it is published.
\<close>

section \<open>The unit that contains an address\<close>

text \<open>
  A page cut into units of a group, a page run that is one huge unit, and the unit of either that
  contains an address. The address of a page head lies in no unit of a cut page; every address of a
  huge run counts as one of its unit.
\<close>

definition cut_page :: "chunk \<Rightarrow> mem \<Rightarrow> addr \<Rightarrow> unit_alloc_group \<Rightarrow> bool" where
  "cut_page c m p g \<longleftrightarrow> (p, 1) \<in> chunk_ranges c \<and> m_page_count_if_huge (page_at m p) = 0 \<and>
     \<not> m_page_just_allocated (page_at m p) \<and>
     m_unit_size_in_page (alloc_at m (alloc_head p)) = ucast (group_size g)"

definition huge_page :: "chunk \<Rightarrow> mem \<Rightarrow> addr \<Rightarrow> nat \<Rightarrow> bool" where
  "huge_page c m p n \<longleftrightarrow> (p, n) \<in> chunk_ranges c \<and> m_page_count_if_huge (page_at m p) \<noteq> 0 \<and>
     unat (m_page_count_if_huge (page_at m p)) = n \<and> \<not> m_page_just_allocated (page_at m p)"

definition in_unit :: "chunk \<Rightarrow> mem \<Rightarrow> addr \<Rightarrow> addr \<Rightarrow> bool" where
  "in_unit c m u a \<longleftrightarrow>
     (\<exists>p g. cut_page c m p g \<and> (\<exists>off \<in> unit_offsets g. u = unit_addr p off \<and> unat a \<in> unit_bytes p g off)) \<or>
     (\<exists>p n. huge_page c m p n \<and> u = p + sizeof_PageHead \<and> unat a \<in> range_bytes (p, n))"

text \<open>Every allocated run is still being prepared, or is a cut page, or is a huge unit.\<close>

definition formatted :: "chunk \<Rightarrow> mem \<Rightarrow> bool" where
  "formatted c m \<longleftrightarrow> (\<forall>(p, n) \<in> chunk_ranges c.
     m_page_just_allocated (page_at m p) \<or> (n = 1 \<and> (\<exists>g. cut_page c m p g)) \<or> huge_page c m p n)"

lemma storage_begin:
  assumes "page_fits p"
  shows "unat (p + sizeof_PageHead + sizeof_PageUnitAlloc) = unat p + 32"
proof -
  have "p + sizeof_PageHead + sizeof_PageUnitAlloc = w64 (unat p + 32)"
    by (simp add: sizeof_PageHead_def sizeof_PageUnitAlloc_def)
  moreover have "unat p + 32 < 2 ^ 64" using assms by (simp add: page_fits_def)
  ultimately show ?thesis by (simp only: unat_w64)
qed

text \<open>The index computation of \<open>woomem_validate_addr\<close> finds the unit.\<close>

lemma unit_of_index:
  assumes fit: "page_fits p" and i: "i < unit_count g" and a: "unat a \<in> unit_bytes p g (unit_offset g i)"
  defines "sb \<equiv> p + sizeof_PageHead + sizeof_PageUnitAlloc" and "u \<equiv> group_size g + sizeof_UnitHead"
  shows "\<not> a < sb" "sb + (a - sb) div u * u = unit_addr p (unit_offset g i)"
proof -
  have sb: "unat sb = unat p + 32" unfolding sb_def by (rule storage_begin [OF fit])
  have a': "unat p + 32 + i * usz g \<le> unat a" "unat a < unat p + 32 + i * usz g + usz g"
    using a unfolding unit_bytes_index [OF fit i] by simp_all
  then show nl: "\<not> a < sb" using sb by (simp add: word_less_nat_alt)
  have u: "unat u = usz g"
  proof -
    have "group_size g = w64 (unat (group_size g))" by simp
    then have "u = w64 (usz g)" unfolding u_def usz_def sizeof_UnitHead_def by simp
    moreover have "usz g < 2 ^ 64" using usz_bounds(2) [of g] by simp
    ultimately show ?thesis by (simp only: unat_w64)
  qed
  have "unat (a - sb) = unat a - unat sb" using nl by (intro unat_sub) simp
  then have "unat (a - sb) div usz g = i"
    using a' sb by (intro div_nat_eqI) (simp_all add: algebra_simps)
  then have "unat ((a - sb) div u) = i" by (simp add: unat_div u)
  then have "(a - sb) div u = w64 i" by (metis w64_unat)
  then show "sb + (a - sb) div u * u = unit_addr p (unit_offset g i)"
    unfolding unit_addr_offset [OF i] by (simp add: sb_def u_def alloc_head_def sizeof_defs add.assoc add.commute)
qed

lemma unit_bytes_range:
  assumes "page_fits p" "off \<in> unit_offsets g"
  shows "unit_bytes p g off \<subseteq> range_bytes (p, 1)"
proof -
  obtain i where i: "i < unit_count g" "off = unit_offset g i" using assms(2) by (auto simp: unit_offsets_def)
  have "i * usz g + usz g \<le> 32736" using i(1) units_tile [of g] mult_le_mono1 [of "Suc i" "unit_count g" "usz g"] by simp
  then show ?thesis unfolding i(2) unit_bytes_index [OF assms(1) i(1)] by (auto simp: range_bytes_def)
qed

text \<open>The run in which an address lies.\<close>

lemma in_unit_run:
  assumes "chunk_inv c" "in_unit c m u a"
  obtains (cut) p g off where "cut_page c m p g" "off \<in> unit_offsets g" "u = unit_addr p off" "unat a \<in> unit_bytes p g off"
      "(p, 1) \<in> chunk_ranges c" "unat a \<in> range_bytes (p, 1)"
    | (huge) p n where "huge_page c m p n" "u = p + sizeof_PageHead" "(p, n) \<in> chunk_ranges c" "unat a \<in> range_bytes (p, n)"
  using assms(2) unfolding in_unit_def
proof (elim disjE exE conjE bexE)
  fix p g off assume c: "cut_page c m p g" "off \<in> unit_offsets g" "u = unit_addr p off" "unat a \<in> unit_bytes p g off"
  have r: "(p, 1) \<in> chunk_ranges c" using c(1) by (simp add: cut_page_def)
  have "unat a \<in> range_bytes (p, 1)" using unit_bytes_range [OF chunk_page_facts(1) [OF assms(1) r] c(2)] c(4) by blast
  with c r show ?thesis by (intro cut)
qed (use huge in \<open>auto simp: huge_page_def\<close>)

lemma validate_addr_hit:
  assumes inv: "chunk_inv c" and u: "in_unit c m u a"
  shows "woomem_validate_addr a c m =
    Some (if PENDING < m_life (unit_at m u) then u + sizeof_UnitHead else 0)" "u + sizeof_UnitHead \<noteq> 0"
proof -
  from inv u show "woomem_validate_addr a c m =
    Some (if PENDING < m_life (unit_at m u) then u + sizeof_UnitHead else 0)"
  proof (cases rule: in_unit_run)
    case (cut p g off)
    then obtain i where i: "i < unit_count g" "off = unit_offset g i" by (auto simp: unit_offsets_def)
    have P: "m_page_count_if_huge (page_at m p) = 0" "\<not> m_page_just_allocated (page_at m p)"
        "ucast (m_unit_size_in_page (alloc_at m (alloc_head p))) = group_size g"
      using cut(1) by (simp_all add: cut_page_def group_size_16)
    note fit = chunk_page_facts [OF inv cut(5)]
    have v: "validate a c = Some p" using chunk_lookup_hit [OF inv cut(5,6)] .
    show ?thesis using unit_of_index [OF fit(1) i(1) cut(4) [unfolded i(2)]] P v fit(2) cut(3) i(2)
      by (simp add: woomem_validate_addr_def Let_def alloc_head_def)
  next
    case (huge p n)
    have v: "validate a c = Some p" "p \<noteq> 0"
      using chunk_lookup_hit [OF inv huge(3,4)] chunk_page_facts(2) [OF inv huge(3)] by blast+
    with huge show ?thesis by (simp add: woomem_validate_addr_def Let_def huge_page_def)
  qed
  from inv u show "u + sizeof_UnitHead \<noteq> 0"
  proof (cases rule: in_unit_run)
    case (cut p g off)
    then show ?thesis using unit_payload_nonzero [OF chunk_page_facts(1) [OF inv cut(5)]] by blast
  next
    case (huge p n)
    have "unat (u + sizeof_UnitHead) = unat p + 32"
      using storage_begin [OF chunk_page_facts(1) [OF inv huge(3)]] by (simp add: huge(2) sizeof_defs)
    then show ?thesis by (metis add_is_0 unsigned_0 zero_neq_numeral)
  qed
qed

lemma cut_page_units:
  assumes "page_fits p" "unat p + 32 \<le> unat a" "unat a < unat p + 32768"
  shows "\<exists>off \<in> unit_offsets g. unat a \<in> unit_bytes p g off"
proof -
  let ?d = "unat a - (unat p + 32)"
  have "?d < unit_count g * usz g" using assms units_tile [of g] by simp
  then have i: "?d div usz g < unit_count g" by (metis less_mult_imp_div_less mult.commute)
  define k where "k = ?d div usz g * usz g"
  have "k \<le> ?d" "?d < k + usz g"
    using usz_bounds(1) [of g] dividend_less_div_times [of "usz g" ?d] by (simp_all add: k_def add.commute)
  then have "unat a \<in> unit_bytes p g (unit_offset g (?d div usz g))"
    unfolding unit_bytes_index [OF assms(1) i] k_def [symmetric] using assms(2) by auto
  with i show ?thesis unfolding unit_offsets_def by blast
qed

lemma validate_addr_miss:
  assumes inv: "chunk_inv c" and F: "formatted c m" and no: "\<And>u. \<not> in_unit c m u a"
  shows "woomem_validate_addr a c m = Some 0"
proof (cases "\<exists>r \<in> chunk_ranges c. unat a \<in> range_bytes r")
  case False
  then show ?thesis using chunk_lookup_miss [OF inv] by (simp add: woomem_validate_addr_def)
next
  case True
  then obtain p n where p: "(p, n) \<in> chunk_ranges c" "unat a \<in> range_bytes (p, n)" by auto
  then have v: "validate a c = Some p" by (rule chunk_lookup_hit [OF inv])
  consider "m_page_just_allocated (page_at m p)" | g where "n = 1" "cut_page c m p g" | "huge_page c m p n"
    using F p(1) unfolding formatted_def by blast
  then show ?thesis
  proof cases
    case 1
    with v show ?thesis by (simp add: woomem_validate_addr_def)
  next
    case 2
    note fit = chunk_page_facts(1) [OF inv p(1)]
    have "unat a < unat p + 32768" using p(2) 2(1) by (simp add: range_bytes_def)
    then have "\<not> unat p + 32 \<le> unat a" using cut_page_units [OF fit, of a g] no 2(2) unfolding in_unit_def by blast
    then have "a < p + sizeof_PageHead + sizeof_PageUnitAlloc" using storage_begin [OF fit] by (simp add: word_less_nat_alt)
    with v 2(2) show ?thesis by (simp add: woomem_validate_addr_def Let_def cut_page_def)
  next
    case 3
    with p(2) no show ?thesis unfolding in_unit_def by blast
  qed
qed

section \<open>A huge unit leaves the others alone\<close>

lemma huge_count:
  assumes "chunk_inv (chunk_of s)" "unat sz + 32767 < 2 ^ 64" "\<not> ch_total_pages (chunk_of s) < pages_for sz"
  shows "unat (ucast (pages_for sz) :: u32) = (unat sz + 32767) div 32768"
proof -
  let ?n = "(unat sz + 32767) div 32768"
  have n: "unat (pages_for sz) = ?n" using unat_pages_for [OF assms(2)] by simp
  then have "?n < 2 ^ 31" using assms(3) chunk_invD(4,9) [OF assms(1)] by (simp add: word_less_nat_alt)
  then have "(ucast (w64 ?n) :: u32) = w32 ?n" "unat (w32 ?n) = ?n" by (simp_all add: ucast_w64 unat_w32_31)
  then show ?thesis using n by (metis w64_unat)
qed

lemma huge_page_frame:
  assumes inv: "chunk_inv (chunk_of s)" and sz: "0 < unat sz" "unat sz + 32767 < 2 ^ 64"
    and al: "allocate_huge_page tgt sys sz s = Some (p, s')" "p \<noteq> 0"
  shows "\<exists>f. mem_of s' = upd_page p f (mem_of s)" "(p, (unat sz + 32767) div 32768) \<notin> chunk_ranges (chunk_of s)"
proof -
  let ?n = "(unat sz + 32767) div 32768" and ?r = "ucast (pages_for sz) :: u32"
  have nt: "\<not> ch_total_pages (chunk_of s) < pages_for sz"
    using al by (auto simp: allocate_huge_page_def Let_def split: if_splits)
  note r = huge_count [OF inv sz(2) nt]
  obtain t where t: "allocate_pages tgt sys ?r s = Some (p, t)"
      "mem_of s' = upd_page p (\<lambda>h. h\<lparr>m_page_count_if_huge := pages_for sz\<rparr>) (mem_of t)"
    using al nt by (auto simp: allocate_huge_page_def Let_def split: if_splits bind_splits)
  have pos: "0 < unat ?r" using r sz(1) by simp
  from inv pos show "\<exists>f. mem_of s' = upd_page p f (mem_of s)"
  proof (rule allocate_pages_result [of s ?r tgt sys])
    fix q t' assume a: "allocate_pages tgt sys ?r s = Some (q, t')"
      "mem_of t' = upd_page q (\<lambda>h. h\<lparr>m_page_just_allocated := True\<rparr>) (mem_of s)"
    have "mem_of s' = upd_page p (\<lambda>h. h\<lparr>m_page_just_allocated := True, m_page_count_if_huge := pages_for sz\<rparr>) (mem_of s)"
      using t a by (simp add: upd_page_def)
    then show ?thesis by blast
  qed (use t al(2) in simp)
  have "unat ?r < 2 ^ 32" using unsigned_less [of ?r] by simp
  then have b: "0 < ?n" "?n < 2 ^ 32" using pos unfolding r by simp_all
  have w: "w32 ?n = ?r" unfolding r [symmetric] by simp
  from chunk_alloc_law [OF inv b, of tgt sys] t(1) al(2)
  show "(p, ?n) \<notin> chunk_ranges (chunk_of s)" unfolding w by auto
qed

lemma add_new_page_eq:
  assumes "m_page_just_allocated (page_at m p)"
  shows "add_new_page_into_chain p (m, l) =
    Some (upd_page p (\<lambda>h. h\<lparr>m_page_just_allocated := False, m_next_page := l\<rparr>) m, p)"
  using assms by (simp add: add_new_page_into_chain_def add_page_back_to_into_chain_def upd_page_def)

text \<open>Writing the heads of a run that was not allocated before keeps everything else.\<close>

lemma new_run_keeps:
  assumes inv: "heap_inv h C" and c: "chunk_inv (chunk_of (h_chunk h'))" "m_free_pages h' = m_free_pages h"
      "chunk_ranges (chunk_of (h_chunk h')) = insert (p, n) (chunk_ranges (chunk_of (h_chunk h)))"
      "(p, n) \<notin> chunk_ranges (chunk_of (h_chunk h))"
    and m: "heap_mem h' = upd_page p f (upd_unit (p + sizeof_PageHead) k (heap_mem h))"
  shows "heap_inv h' C" "keeps_runs h h'"
    "unit_page h q g \<Longrightarrow> unit_page h' q g \<and> live_units (heap_mem h') q g = live_units (heap_mem h) q g"
proof -
  have r: "(p, n) \<in> chunk_ranges (chunk_of (h_chunk h'))" using c(3) by simp
  have ap: "apart q p" "q \<noteq> p" if "(q, i) \<in> chunk_ranges (chunk_of (h_chunk h))" for q i
  proof -
    have q: "(q, i) \<in> chunk_ranges (chunk_of (h_chunk h'))" using that c(3) by simp
    show "q \<noteq> p" using chunk_runs_unique [OF c(1) r] q that c(4) by blast
    then show "apart q p" by (rule chunk_runs_apart [OF c(1) q r])
  qed
  have eq: "page_at (heap_mem h') q = page_at (heap_mem h) q" "alloc_at (heap_mem h') = alloc_at (heap_mem h)"
      "unit_at (heap_mem h') (q + sizeof_PageHead) = unit_at (heap_mem h) (q + sizeof_PageHead)"
    if "(q, i) \<in> chunk_ranges (chunk_of (h_chunk h))" for q i
    using ap(2) [OF that] by (simp_all add: m upd_page_def upd_unit_def)
  then show "keeps_runs h h'" using c(3) by (auto simp: keeps_runs_def m)
  have up: "unit_page h' q g \<and> live_units (heap_mem h') q g = live_units (heap_mem h) q g" if q: "unit_page h q g" for q g
  proof -
    have qr: "(q, 1) \<in> chunk_ranges (chunk_of (h_chunk h))" using q by (simp add: unit_page_def)
    then have "(q, 1) \<in> chunk_ranges (chunk_of (h_chunk h'))" using c(3) by simp
    then have "unit_at (heap_mem h') (unit_addr q off) = unit_at (heap_mem h) (unit_addr q off)" if "off \<in> unit_offsets g" for off
      using run_head_no_unit [OF c(1) _ r, of q g] imageI [OF that, of "unit_addr q"] by (auto simp: m upd_unit_def)
    note un = this
    obtain fs bs where "unit_lists (heap_mem h) q g {} fs bs" using q by (auto simp: unit_page_def page_inv_def)
    then have "unit_lists (heap_mem h') q g {} fs bs"
      by (intro unit_lists_eqI [of "heap_mem h'" q "heap_mem h" g]) (use un eq(2) [OF qr] in simp_all)
    then have "page_inv (heap_mem h') q g {}" unfolding page_inv_def by blast
    moreover have "live_units (heap_mem h') q g = live_units (heap_mem h) q g"
      using un by (auto simp: live_units_def unit_life_of_def)
    ultimately show ?thesis using q eq(1) [OF qr] c(3) by (simp add: unit_page_def)
  qed
  then show "unit_page h q g \<Longrightarrow> unit_page h' q g \<and> live_units (heap_mem h') q g = live_units (heap_mem h) q g" .
  show "heap_inv h' C"
  proof (rule heap_inv_transfer [OF inv c(1,2)])
    fix q g assume q: "unit_page h q g"
    then have "(q, 1) \<in> chunk_ranges (chunk_of (h_chunk h))" by (simp add: unit_page_def)
    with up [OF q] eq(2) [of q 1] show "unit_page h' q g \<and> (q \<notin> C \<longrightarrow> run_out_of h' q = run_out_of h q)"
      by (simp add: run_out_of_def)
  qed
qed

section \<open>Allocating\<close>

lemma allocate_begin_huge:
  assumes inv: "heap_inv (al_heap s) C" and sz: "MAX_IN_PAGE_UNIT_SIZE < sz"
    and R: "unat (sizeof_PageHead + sizeof_UnitHead + sz) = R" "0 < R" "R + 32767 < 2 ^ 64"
  obtains (full) s' where "woomem_allocate_begin tgt sys sz s = Some (0, s')" "al_heap s' = al_heap s"
      "al_thread s' = al_thread s"
      "\<forall>b \<in> set (blocks_of (chunk_of (h_chunk (al_heap s)))). is_Free b \<longrightarrow> bsize b * 32768 < R"
    | (got) s' p n where "woomem_allocate_begin tgt sys sz s = Some (p + sizeof_PageHead + sizeof_UnitHead, s')"
      "al_thread s' = al_thread s" "heap_inv (al_heap s') C" "keeps_runs (al_heap s) (al_heap s')"
      "\<And>q g. unit_page (al_heap s) q g \<Longrightarrow> unit_page (al_heap s') q g"
      "huge_page (chunk_of (h_chunk (al_heap s'))) (heap_mem (al_heap s')) p n"
      "(p, n) \<notin> chunk_ranges (chunk_of (h_chunk (al_heap s)))"
      "m_page_count_if_huge (page_at (heap_mem (al_heap s')) p) = w64 n" "n = (R + 32767) div 32768"
      "m_next_free_unit_offset (unit_at (heap_mem (al_heap s')) (p + sizeof_PageHead)) = 0"
      "chunk_ranges (chunk_of (h_chunk (al_heap s'))) = insert (p, n) (chunk_ranges (chunk_of (h_chunk (al_heap s))))"
      "m_all_page_list (al_heap s') = p" "m_next_page (page_at (heap_mem (al_heap s')) p) = m_all_page_list (al_heap s)"
      "m_life (unit_at (heap_mem (al_heap s')) (p + sizeof_PageHead)) = PENDING" "alloc_at (heap_mem (al_heap s')) = alloc_at (heap_mem (al_heap s))"
      "\<And>v. v \<noteq> p + sizeof_PageHead \<Longrightarrow> unit_at (heap_mem (al_heap s')) v = unit_at (heap_mem (al_heap s)) v"
proof -
  let ?h = "al_heap s" and ?r = "sizeof_PageHead + sizeof_UnitHead + sz" and ?n = "(R + 32767) div 32768"
  let ?s = "s\<lparr>m_new_allocated_size_since_last_gc := m_new_allocated_size_since_last_gc s + sz\<rparr>"
  note H = heap_invD(1) [OF inv]
  have r': "0 < unat ?r" "unat ?r + 32767 < 2 ^ 64" "(unat ?r + 32767) div 32768 = ?n" using R by simp_all
  obtain p c where c: "allocate_huge_page tgt sys ?r (h_chunk ?h) = Some (p, c)" "chunk_inv (chunk_of c)"
      "if p = 0 then c = h_chunk ?h \<and> (\<forall>b \<in> set (blocks_of (chunk_of (h_chunk ?h))). is_Free b \<longrightarrow> bsize b < ?n)
       else chunk_ranges (chunk_of c) = insert (p, ?n) (chunk_ranges (chunk_of (h_chunk ?h))) \<and>
         m_page_count_if_huge (page_at (mem_of c) p) = pages_for ?r \<and> m_page_just_allocated (page_at (mem_of c) p)"
    using allocate_huge_page_result [OF H r'(1,2), of tgt sys] unfolding r'(3) by blast
  have big: "\<not> sz \<le> MAX_IN_PAGE_UNIT_SIZE" using sz by simp
  show thesis
  proof (cases "p = 0")
    case True
    have "woomem_allocate_begin tgt sys sz s = Some (0, ?s)"
      using c True big by (simp add: woomem_allocate_begin_def global_allocate_huge_page_def Let_def)
    moreover have "b * 32768 < R" if "b < ?n" for b using that by linarith
    ultimately show thesis using c(3) True by (intro full [of ?s]) auto
  next
    case False
    obtain f where f: "mem_of c = upd_page p f (heap_mem ?h)"
      using huge_page_frame(1) [OF H r'(1,2) c(1) False] by (auto simp: heap_mem_def)
    have new: "(p, ?n) \<notin> chunk_ranges (chunk_of (h_chunk ?h))"
      using huge_page_frame(2) [OF H r'(1,2) c(1) False] unfolding r'(3) .
    define k :: "unit_head \<Rightarrow> unit_head" where "k = (\<lambda>u. u\<lparr>m_next_free_unit_offset := 0, m_life := PENDING\<rparr>)"
    define m where "m = upd_page p (\<lambda>h. h\<lparr>m_page_just_allocated := False, m_next_page := m_all_page_list ?h\<rparr>)
      (upd_unit (p + sizeof_PageHead) k (mem_of c))"
    define h' where "h' = (upd_mem (\<lambda>_. m) (?h\<lparr>h_chunk := c\<rparr>))\<lparr>m_all_page_list := p\<rparr>"
    have "m_page_just_allocated (page_at (upd_unit (p + sizeof_PageHead) k (mem_of c)) p)"
      using c(3) False by (simp add: upd_unit_def)
    from add_new_page_eq [OF this, of "m_all_page_list ?h"]
    have "woomem_allocate_begin tgt sys sz s = Some (p + sizeof_PageHead + sizeof_UnitHead, ?s\<lparr>al_heap := h'\<rparr>)"
      using c(1) False big
      by (simp add: woomem_allocate_begin_def global_allocate_huge_page_def Let_def k_def m_def h'_def heap_mem_def)
    moreover have M: "heap_mem h' = m" "chunk_of (h_chunk h') = chunk_of c" "m_free_pages h' = m_free_pages ?h"
      by (simp_all add: h'_def)
    have "heap_mem h' = upd_page p (\<lambda>x. (f x)\<lparr>m_page_just_allocated := False, m_next_page := m_all_page_list ?h\<rparr>)
        (upd_unit (p + sizeof_PageHead) k (heap_mem ?h))"
      unfolding M m_def f by (simp add: upd_page_def upd_unit_def)
    note K = new_run_keeps [OF inv, of h' p ?n, OF _ M(3) _ new this]
    moreover have "m_page_count_if_huge (page_at m p) = pages_for ?r" "\<not> m_page_just_allocated (page_at m p)"
      using c(3) False by (simp_all add: m_def upd_page_def upd_unit_def)
    moreover have "unat (pages_for ?r) = ?n" using unat_pages_for [OF r'(2)] r'(3) by simp
    then have "pages_for ?r = w64 ?n" "pages_for ?r \<noteq> 0" "unat (w64 ?n) = ?n" using R(2) by (metis w64_unat, auto, metis w64_unat)
    moreover have "m_next_free_unit_offset (unit_at m (p + sizeof_PageHead)) = 0"
      by (simp add: m_def k_def upd_unit_def)
    moreover have "m_all_page_list h' = p" "m_next_page (page_at m p) = m_all_page_list ?h" "m_life (unit_at m (p + sizeof_PageHead)) = PENDING"
        "alloc_at m = alloc_at (heap_mem ?h)" "\<And>v. v \<noteq> p + sizeof_PageHead \<Longrightarrow> unit_at m v = unit_at (heap_mem ?h) v"
      by (simp_all add: h'_def m_def k_def f mem_defs)
    ultimately show thesis using c(2,3) False M new
      by (intro got [where n = ?n and p = p and s' = "?s\<lparr>al_heap := h'\<rparr>"]) (simp_all add: huge_page_def)
  qed
qed

text \<open>
  The heap after \<open>woomem_allocate_end\<close>; a unit whose \<open>space\<close> bytes all resolve to it; the addresses inside
  units that are in use.
\<close>

definition published :: "u8 \<Rightarrow> addr \<Rightarrow> u32 \<Rightarrow> 'os alloc_state \<Rightarrow> 'os heap" where
  "published round a attrib s = upd_mem (woomem_allocate_end round a attrib) (al_heap s)"

definition usable_at :: "'os heap \<Rightarrow> addr \<Rightarrow> u64 \<Rightarrow> bool" where
  "usable_at h a space \<longleftrightarrow> get_unit_available_size (a - sizeof_UnitHead) (heap_mem h) = Some space \<and>
     (\<forall>k < unat space. woomem_validate_addr (a + w64 k) (chunk_of (h_chunk h)) (heap_mem h) = Some a)"

definition in_use :: "'os heap \<Rightarrow> addr \<Rightarrow> bool" where
  "in_use h b \<longleftrightarrow> (\<exists>u. in_unit (chunk_of (h_chunk h)) (heap_mem h) u b \<and> m_life (unit_at (heap_mem h) u) \<noteq> RELEASED)"

lemma unit_page_cut: "unit_page h p g \<Longrightarrow> cut_page (chunk_of (h_chunk h)) (heap_mem h) p g"
  by (auto simp: unit_page_def cut_page_def page_inv_def dest!: unit_listsD(1))

lemma usable_atI:
  assumes inv: "chunk_inv (chunk_of (h_chunk h))" and sp: "get_unit_available_size u (heap_mem h) = Some space"
    and life: "PENDING < m_life (unit_at (heap_mem h) u)"
    and un: "\<And>k. k < unat space \<Longrightarrow> in_unit (chunk_of (h_chunk h)) (heap_mem h) u (u + sizeof_UnitHead + w64 k)"
  shows "usable_at h (u + sizeof_UnitHead) space"
  using sp life validate_addr_hit(1) [OF inv un] by (simp add: usable_at_def)

text \<open>The address of a payload byte of a unit.\<close>

lemma unat_add_small: "unat a + k < 2 ^ 64 \<Longrightarrow> unat (a + w64 k) = unat a + k" for a :: u64
proof -
  assume "unat a + k < 2 ^ 64"
  moreover have "a + w64 k = w64 (unat a + k)" by simp
  ultimately show ?thesis by (simp only: unat_w64)
qed

lemma payload_bytes:
  assumes fit: "page_fits p" and off: "off \<in> unit_offsets g" and k: "k < unat (group_size g)"
  shows "unat (unit_addr p off + sizeof_UnitHead + w64 k) \<in> unit_bytes p g off"
proof -
  obtain i where i: "i < unit_count g" "off = unit_offset g i" using off by (auto simp: unit_offsets_def)
  have b: "unit_bytes p g off = {unat p + 32 + i * usz g..<unat p + 32 + i * usz g + usz g}"
    unfolding i(2) by (rule unit_bytes_index [OF fit i(1)])
  have le: "i * usz g + usz g \<le> 32736" using i(1) units_tile [of g] mult_le_mono1 [of "Suc i" "unit_count g" "usz g"] by simp
  have u: "unat (unit_addr p off) = unat p + 32 + i * usz g"
    using unat_unit_addr [OF fit off] unat_unit_offset [OF i(1)] i(2) by simp
  have "unit_addr p off + sizeof_UnitHead + w64 k = unit_addr p off + w64 (8 + k)" by (simp add: sizeof_UnitHead_def)
  moreover have "unat (unit_addr p off) + (8 + k) < 2 ^ 64"
    using u le k usz_bounds(1,4) [of g] fit by (simp add: page_fits_def)
  ultimately have "unat (unit_addr p off + sizeof_UnitHead + w64 k) = unat (unit_addr p off) + (8 + k)"
    using unat_add_small by metis
  with u k usz_bounds(1,4) [of g] show ?thesis unfolding b by simp
qed

lemma unit_bytes_unique:
  fixes a :: addr
  assumes "page_fits p" "off \<in> unit_offsets g" "off' \<in> unit_offsets g" "unat a \<in> unit_bytes p g off" "unat a \<in> unit_bytes p g off'"
  shows "off = off'"
proof -
  obtain i j where ij: "i < unit_count g" "off = unit_offset g i" "j < unit_count g" "off' = unit_offset g j"
    using assms(2,3) by (auto simp: unit_offsets_def)
  from unit_of_index(2) [OF assms(1) ij(1) assms(4) [unfolded ij(2)]]
    unit_of_index(2) [OF assms(1) ij(3) assms(5) [unfolded ij(4)]]
  have "unit_addr p off = unit_addr p off'" unfolding ij by simp
  then show ?thesis by simp
qed

lemma published_mem:
  "page_at (heap_mem (published r a t s)) = page_at (heap_mem (al_heap s))"
  "alloc_at (heap_mem (published r a t s)) = alloc_at (heap_mem (al_heap s))"
  "chunk_of (h_chunk (published r a t s)) = chunk_of (h_chunk (al_heap s))"
  "u \<noteq> a - sizeof_UnitHead \<Longrightarrow> unit_at (heap_mem (published r a t s)) u = unit_at (heap_mem (al_heap s)) u"
  "m_life (unit_at (heap_mem (published r a t s)) (a - sizeof_UnitHead)) = UNMARKED"
  "m_next_free_unit_offset (unit_at (heap_mem (published r a t s)) u) = m_next_free_unit_offset (unit_at (heap_mem (al_heap s)) u)"
  "word_at (heap_mem (published r a t s)) = word_at (heap_mem (al_heap s))"
  by (simp_all add: published_def woomem_allocate_end_def upd_unit_def)

lemma less_life [simp]: "PENDING < UNMARKED" "PENDING < SELF_MARKED" "PENDING < FULL_MARKED" "\<not> PENDING < RELEASED"
  by (simp_all add: less_unit_life_def)

text \<open>A unit served from a page.\<close>

lemma served_usable:
  assumes inv0: "heap_inv (al_heap s) C" and inv: "heap_inv (al_heap s') D" and sv: "served (al_heap s) g p a (al_heap s')"
  shows "heap_inv (published r a t s') D" "usable_at (published r a t s') a (group_size g)"
    "k < unat (group_size g) \<Longrightarrow> \<not> in_use (al_heap s) (a + w64 k)"
    "unit_page (al_heap s') q g' \<Longrightarrow> unit_page (published r a t s') q g'"
proof -
  let ?h = "al_heap s'"
  note ci = heap_invD(1) [OF inv]
  obtain off where off: "off \<in> unit_offsets g" "a = unit_addr p off + sizeof_UnitHead" "unit_page ?h p g"
      "m_life (unit_at (heap_mem ?h) (unit_addr p off)) = PENDING" "keeps_runs (al_heap s) ?h"
      "if p \<in> page_ranges (al_heap s) then unit_page (al_heap s) p g \<and> off \<notin> live_units (heap_mem (al_heap s)) p g
       else live_units (heap_mem ?h) p g = {off}"
    using sv unfolding served_def by auto
  have r: "(p, 1) \<in> chunk_ranges (chunk_of (h_chunk ?h))" using off(3) by (simp add: unit_page_def)
  note fit = chunk_page_facts(1) [OF ci r]
  have au: "a - sizeof_UnitHead = unit_addr p off" using off(2) by simp
  have same: "m_life (unit_at (heap_mem ?h) (unit_addr p off)) \<noteq> RELEASED" using off(4) by simp
  let ?f = "\<lambda>u. u\<lparr>m_age := 15, m_timing := r, m_attribute := ucast t, m_life := UNMARKED\<rparr>"
  have e: "published r a t s' = upd_mem (upd_unit (unit_addr p off) ?f) ?h"
    unfolding published_def woomem_allocate_end_def au by simp
  show "heap_inv (published r a t s') D"
    unfolding e by (rule heap_inv_upd_unit(1) [OF inv]) (use same in simp_all)
  show "unit_page (published r a t s') q g'" if "unit_page ?h q g'" for q g'
    unfolding e by (rule conjunct1 [OF heap_inv_upd_unit(2) [OF inv _ _ that]]) (use same in simp_all)
  have av: "get_unit_available_size (unit_addr p off) (heap_mem (published r a t s')) = Some (group_size g)"
  proof -
    obtain fs bs where L: "unit_lists (heap_mem ?h) p g {} fs bs" using off(3) by (auto simp: unit_page_def page_inv_def)
    have "unit_link (heap_mem ?h) p off = off"
      using unit_lists_sets(6,7) [OF L off(1)] same by (simp add: unit_life_of_def)
    moreover have "off \<noteq> 0" using off(1) unit_offsets_nonzero by metis
    ultimately show ?thesis using unit_listsD(1) [OF L] group_size_16 [of g]
      by (simp add: get_unit_available_size_def published_mem unit_link_def) (simp add: unit_addr_def)
  qed
  show "usable_at (published r a t s') a (group_size g)"
    unfolding off(2)
  proof (rule usable_atI)
    show "PENDING < m_life (unit_at (heap_mem (published r (unit_addr p off + sizeof_UnitHead) t s')) (unit_addr p off))"
      using published_mem(5) [of r a t s'] by (simp add: off(2))
    show "in_unit (chunk_of (h_chunk (published r (unit_addr p off + sizeof_UnitHead) t s')))
        (heap_mem (published r (unit_addr p off + sizeof_UnitHead) t s')) (unit_addr p off)
        (unit_addr p off + sizeof_UnitHead + w64 k)" if "k < unat (group_size g)" for k
      using unit_page_cut [OF off(3)] payload_bytes [OF fit off(1) that] off(1)
      by (auto simp: in_unit_def cut_page_def published_mem)
  qed (use av ci off(2) in \<open>simp_all add: published_mem\<close>)
  show "\<not> in_use (al_heap s) (a + w64 k)" if k: "k < unat (group_size g)"
  proof
    note kr = off(5) [unfolded keeps_runs_def]
    let ?c = "chunk_of (h_chunk (al_heap s))" and ?m = "heap_mem (al_heap s)"
    have ab: "unat (a + w64 k) \<in> unit_bytes p g off" using payload_bytes [OF fit off(1) k] off(2) by simp
    have ar: "unat (a + w64 k) \<in> range_bytes (p, 1)" using ab unit_bytes_range [OF fit off(1)] by blast
    assume "in_use (al_heap s) (a + w64 k)"
    then obtain u where u: "in_unit ?c ?m u (a + w64 k)" "m_life (unit_at ?m u) \<noteq> RELEASED" by (auto simp: in_use_def)
    from heap_invD(1) [OF inv0] u(1) show False
    proof (cases rule: in_unit_run)
      case (cut q g1 off1)
      have "(q, 1) \<in> chunk_ranges (chunk_of (h_chunk ?h))" using cut(5) kr by auto
      then have qp: "q = p" using chunk_ranges_disjoint [OF ci r] cut(6) ar by blast
      then have l: "unit_page (al_heap s) p g" "off \<notin> live_units ?m p g"
        using off(6) cut(5) by (auto simp: page_ranges_def)
      have "g1 = g" using cut(1) unit_page_cut [OF l(1)] group_size_16 group_size_inj qp unfolding cut_page_def by metis
      then have "off1 = off" using unit_bytes_unique [OF fit cut(2)] off(1) cut(4) ab qp by blast
      with u(2) cut(2,3) l(2) qp \<open>g1 = g\<close> show False by (auto simp: live_units_def unit_life_of_def)
    next
      case (huge q n)
      have "(q, n) \<in> chunk_ranges (chunk_of (h_chunk ?h))" using huge(3) kr by auto
      then have "q = p" "n = 1" using chunk_ranges_disjoint [OF ci r, of "(q, n)"] huge(4) ar by blast+
      then have "page_at (heap_mem ?h) p = page_at ?m p" using kr huge(3) by auto
      with huge(1) off(3) \<open>q = p\<close> show False by (simp add: huge_page_def unit_page_def)
    qed
  qed
qed

text \<open>A huge unit on a new run.\<close>

lemma huge_usable:
  assumes inv0: "heap_inv (al_heap s) C" and inv: "heap_inv (al_heap s') D" and kr: "keeps_runs (al_heap s) (al_heap s')"
    and P: "huge_page (chunk_of (h_chunk (al_heap s'))) (heap_mem (al_heap s')) p n"
      "(p, n) \<notin> chunk_ranges (chunk_of (h_chunk (al_heap s)))"
      "m_page_count_if_huge (page_at (heap_mem (al_heap s')) p) = w64 n" "n * 32768 < 2 ^ 64"
      "m_next_free_unit_offset (unit_at (heap_mem (al_heap s')) (p + sizeof_PageHead)) = 0"
  defines "a \<equiv> p + sizeof_PageHead + sizeof_UnitHead" and "space \<equiv> w64 (n * 32768 - 32)"
  shows "heap_inv (published r a t s') D" "usable_at (published r a t s') a space"
    "k < unat space \<Longrightarrow> \<not> in_use (al_heap s) (a + w64 k)"
    "unit_page (al_heap s') q g' \<Longrightarrow> unit_page (published r a t s') q g'"
proof -
  let ?h = "al_heap s'"
  note ci = heap_invD(1) [OF inv]
  have R: "(p, n) \<in> chunk_ranges (chunk_of (h_chunk ?h))" using P(1) by (simp add: huge_page_def)
  then obtain i where "unat p = unat (ch_base (chunk_of (h_chunk ?h))) + i * 32768"
      "i + n \<le> bsizes (blocks_of (chunk_of (h_chunk ?h)))" and n: "0 < n"
    using chunk_rangesE [OF ci] by metis
  moreover have "unat (ch_base (chunk_of (h_chunk ?h))) + bsizes (blocks_of (chunk_of (h_chunk ?h))) * 32768 < 2 ^ 64"
    using ci by (simp add: chunk_inv_def)
  ultimately have fit: "unat p + n * 32768 < 2 ^ 64" by simp
  have sp: "unat space = n * 32768 - 32" unfolding space_def using P(4) by (intro unat_w64) simp
  have au: "a - sizeof_UnitHead = p + sizeof_PageHead" by (simp add: a_def)
  let ?f = "\<lambda>u. u\<lparr>m_age := 15, m_timing := r, m_attribute := ucast t, m_life := UNMARKED\<rparr>"
  have e: "published r a t s' = upd_mem (upd_unit (p + sizeof_PageHead) ?f) ?h"
    unfolding published_def woomem_allocate_end_def au by simp
  have no: "p + sizeof_PageHead \<noteq> unit_addr x off" if "unit_page ?h x g" "off \<in> unit_offsets g" for x g off
    using run_head_no_unit [OF ci _ R, of x g] that by (auto simp: unit_page_def)
  show "heap_inv (published r a t s') D"
    unfolding e by (rule heap_inv_upd_unit(1) [OF inv]) (use no in auto)
  show "unit_page (published r a t s') x g" if "unit_page ?h x g" for x g
    unfolding e by (rule conjunct1 [OF heap_inv_upd_unit(2) [OF inv _ _ that]]) (use no in auto)
  have av: "get_unit_available_size (p + sizeof_PageHead) (heap_mem (published r a t s')) = Some space"
  proof -
    have "w64 n \<noteq> 0" using P(1,3) by (simp add: huge_page_def)
    moreover have "w64 n * NORMAL_PAGE_SIZE - (sizeof_PageHead + sizeof_UnitHead) = space"
      using n unfolding space_def by (simp add: sizeof_defs of_nat_diff)
    ultimately show ?thesis using P(3,5) by (simp add: get_unit_available_size_def published_mem Let_def)
  qed
  have kb: "unat (a + w64 k) \<in> range_bytes (p, n)" if "k < unat space" for k
  proof -
    have "a + w64 k = p + w64 (32 + k)" by (simp add: a_def sizeof_defs)
    moreover have "unat p + (32 + k) < 2 ^ 64" using that fit unfolding sp by simp
    ultimately have "unat (a + w64 k) = unat p + (32 + k)" using unat_add_small by metis
    then show ?thesis using that unfolding sp by (simp add: range_bytes_def)
  qed
  show "usable_at (published r a t s') a space"
  proof -
    have "usable_at (published r a t s') (p + sizeof_PageHead + sizeof_UnitHead) space"
    proof (rule usable_atI)
      show "PENDING < m_life (unit_at (heap_mem (published r a t s')) (p + sizeof_PageHead))"
        using published_mem(5) [of r a t s'] by (simp add: au)
      show "in_unit (chunk_of (h_chunk (published r a t s'))) (heap_mem (published r a t s')) (p + sizeof_PageHead)
          (p + sizeof_PageHead + sizeof_UnitHead + w64 k)" if "k < unat space" for k
        using kb [OF that] P(1) unfolding in_unit_def a_def [symmetric] by (auto simp: huge_page_def published_mem)
    qed (use av ci in \<open>simp_all add: published_mem\<close>)
    then show ?thesis by (simp add: a_def)
  qed
  show "\<not> in_use (al_heap s) (a + w64 k)" if k: "k < unat space"
  proof
    assume "in_use (al_heap s) (a + w64 k)"
    then obtain u where u: "in_unit (chunk_of (h_chunk (al_heap s))) (heap_mem (al_heap s)) u (a + w64 k)"
      by (auto simp: in_use_def)
    have False if "(q, j) \<in> chunk_ranges (chunk_of (h_chunk (al_heap s)))" "unat (a + w64 k) \<in> range_bytes (q, j)" for q j
    proof -
      have "(q, j) \<in> chunk_ranges (chunk_of (h_chunk ?h))" using that(1) kr by (auto simp: keeps_runs_def)
      moreover have "(q, j) \<noteq> (p, n)" using that(1) P(2) by blast
      ultimately show False using chunk_ranges_disjoint [OF ci R] that(2) kb [OF k] by blast
    qed
    with heap_invD(1) [OF inv0] u show False by (cases rule: in_unit_run) blast+
  qed
qed

lemma allocate_spec:
  assumes inv: "heap_inv (al_heap s) C" "0 \<notin> C" "thread_ok (al_thread s) (al_heap s) C" and sz: "unat sz + 32799 < 2 ^ 64"
  shows "\<exists>a s' D. woomem_allocate_begin tgt sys sz s = Some (a, s') \<and> keeps_runs (al_heap s) (al_heap s') \<and>
    (if a = 0 then heap_inv (al_heap s') D \<and> 0 \<notin> D \<and> thread_ok (al_thread s') (al_heap s') D \<and>
       (\<forall>b \<in> set (blocks_of (chunk_of (h_chunk (al_heap s)))). is_Free b \<longrightarrow> bsize b * 32768 < unat sz + 32)
     else heap_inv (published r a t s') D \<and> 0 \<notin> D \<and> thread_ok (al_thread s') (published r a t s') D \<and>
       (\<exists>space. sz \<le> space \<and> usable_at (published r a t s') a space \<and>
          (\<forall>k < unat space. \<not> in_use (al_heap s) (a + w64 k))))"
proof (cases "sz \<le> MAX_IN_PAGE_UNIT_SIZE")
  case True
  let ?s = "s\<lparr>m_new_allocated_size_since_last_gc := m_new_allocated_size_since_last_gc s + sz\<rparr>"
  obtain g a th h D where p: "sz \<le> group_size g" "pick_unit_in_page tgt sys sz (al_thread s) (al_heap s) = Some (a, th, h)"
      "heap_inv h D" "0 \<notin> D" "thread_ok th h D"
      "if a = 0 then keeps_units (al_heap s) h \<and> (\<forall>b \<in> set (blocks_of (chunk_of (h_chunk (al_heap s)))). \<not> is_Free b)
       else \<exists>p. served (al_heap s) g p a h"
    using pick_unit_in_page_spec [OF inv True, of tgt sys] by auto
  let ?s' = "?s\<lparr>al_thread := th, al_heap := h\<rparr>"
  have w: "woomem_allocate_begin tgt sys sz s = Some (a, ?s')"
    using p(2) True by (simp add: woomem_allocate_begin_def Let_def)
  show ?thesis
  proof (cases "a = 0")
    case True
    with w p show ?thesis by (intro exI [of _ 0] exI [of _ ?s'] exI [of _ D]) (auto simp: keeps_units_def)
  next
    case False
    then obtain q where q: "served (al_heap s) g q a (al_heap ?s')" using p(6) by auto
    have i: "heap_inv (al_heap ?s') D" using p(3) by simp
    note U = served_usable [OF inv(1) i q]
    have "thread_ok th (published r a t ?s') D" using p(5) U(4) by (auto simp: thread_ok_def)
    with w p(1,4) False U(1-3) q show ?thesis
      by (intro exI [of _ a] exI [of _ ?s'] exI [of _ D]) (auto simp: served_def)
  qed
next
  case False
  then have big: "MAX_IN_PAGE_UNIT_SIZE < sz" by simp
  have "sizeof_PageHead + sizeof_UnitHead + sz = w64 (unat sz + 32)" by (simp add: sizeof_PageHead_def sizeof_UnitHead_def)
  then have R: "unat (sizeof_PageHead + sizeof_UnitHead + sz) = unat sz + 32" using sz by (simp only: unat_w64)
  have R': "0 < unat sz + 32" "unat sz + 32 + 32767 < 2 ^ 64" using sz by simp_all
  from inv(1) big R R' show ?thesis
  proof (rule allocate_begin_huge [of s C sz _ tgt sys])
    fix s' assume "woomem_allocate_begin tgt sys sz s = Some (0, s')" "al_heap s' = al_heap s" "al_thread s' = al_thread s"
      "\<forall>b \<in> set (blocks_of (chunk_of (h_chunk (al_heap s)))). is_Free b \<longrightarrow> bsize b * 32768 < unat sz + 32"
    with inv show ?thesis by (intro exI [of _ 0] exI [of _ s'] exI [of _ C]) (simp add: keeps_runs_same)
  next
    fix s' p n
    assume G: "woomem_allocate_begin tgt sys sz s = Some (p + sizeof_PageHead + sizeof_UnitHead, s')"
      "al_thread s' = al_thread s" "heap_inv (al_heap s') C" "keeps_runs (al_heap s) (al_heap s')"
      "\<And>q g. unit_page (al_heap s) q g \<Longrightarrow> unit_page (al_heap s') q g"
      "huge_page (chunk_of (h_chunk (al_heap s'))) (heap_mem (al_heap s')) p n"
      "(p, n) \<notin> chunk_ranges (chunk_of (h_chunk (al_heap s)))"
      "m_page_count_if_huge (page_at (heap_mem (al_heap s')) p) = w64 n" "n = (unat sz + 32 + 32767) div 32768"
      "m_next_free_unit_offset (unit_at (heap_mem (al_heap s')) (p + sizeof_PageHead)) = 0"
    let ?a = "p + sizeof_PageHead + sizeof_UnitHead"
    have n: "unat sz + 32 \<le> n * 32768" "n * 32768 < 2 ^ 64" using G(9) sz by linarith+
    note U = huge_usable [OF inv(1) G(3,4,6,7,8) n(2) G(10)]
    have "thread_ok (al_thread s') (published r ?a t s') C" using inv(3) G(2,5) U(4) by (auto simp: thread_ok_def)
    moreover have "unat (w64 (n * 32768 - 32)) = n * 32768 - 32" using n(2) by (intro unat_w64) simp
    then have "sz \<le> w64 (n * 32768 - 32)" using n(1) unfolding word_le_nat_alt by linarith
    moreover have "?a \<noteq> 0"
    proof -
      have "page_fits p" using chunk_page_facts(1) [OF heap_invD(1) [OF G(3)]] G(6) by (auto simp: huge_page_def)
      then have "unat ?a = unat p + 32" using storage_begin by (simp add: sizeof_defs)
      then show ?thesis by (metis add_is_0 unsigned_0 zero_neq_numeral)
    qed
    ultimately show ?thesis using G(1,4) U(1-3) inv(2)
      by (intro exI [of _ ?a] exI [of _ s'] exI [of _ C]) auto
  qed
qed

section \<open>Copying\<close>

lemma copy_words_frame: "\<exists>w. copy_words dst src n m = m\<lparr>word_at := w\<rparr>"
proof (induction n)
  case (Suc n)
  then obtain w where "copy_words dst src n m = m\<lparr>word_at := w\<rparr>" by blast
  then show ?case by (auto simp: Let_def)
qed (auto intro: exI [of _ "word_at m"])

lemma copy_words_other: "(\<And>i. i < n \<Longrightarrow> b \<noteq> dst + w64 (8 * i)) \<Longrightarrow> word_at (copy_words dst src n m) b = word_at m b"
  by (induction n) (simp_all add: Let_def)

lemma copy_words_nth:
  assumes "\<And>i j. i < n \<Longrightarrow> j < n \<Longrightarrow> src + w64 (8 * j) \<noteq> dst + w64 (8 * i)" "8 * n < 2 ^ 64" "i < n"
  shows "word_at (copy_words dst src n m) (dst + w64 (8 * i)) = word_at m (src + w64 (8 * i))"
  using assms
proof (induction n)
  case (Suc n)
  have src: "word_at (copy_words dst src n m) (src + w64 (8 * n)) = word_at m (src + w64 (8 * n))"
    using Suc.prems(1) [of _ n] by (intro copy_words_other) simp
  show ?case
  proof (cases "i = n")
    case True
    with src show ?thesis by (simp add: Let_def)
  next
    case False
    have "w64 (8 * i) \<noteq> w64 (8 * n)"
    proof
      assume "w64 (8 * i) = w64 (8 * n)"
      then have "unat (w64 (8 * i)) = unat (w64 (8 * n))" by simp
      moreover have "8 * i < 2 ^ 64" "8 * n < 2 ^ 64" using Suc.prems(2,3) by simp_all
      ultimately have "8 * i = 8 * n" by (simp only: unat_w64)
      with False show False by simp
    qed
    moreover have "word_at (copy_words dst src n m) (dst + w64 (8 * i)) = word_at m (src + w64 (8 * i))"
      using False Suc.prems by (intro Suc.IH) auto
    ultimately show ?thesis by (simp add: Let_def del: of_nat_mult)
  qed
qed simp

text \<open>Payload words play no part in the order of the heap.\<close>

lemma upd_words:
  defines "upd \<equiv> \<lambda>w h. upd_mem (\<lambda>m. m\<lparr>word_at := w\<rparr>) h"
  shows "unit_page (upd w h) p g = unit_page h p g" "heap_inv (upd w h) C = heap_inv h C"
    "thread_ok t (upd w h) C = thread_ok t h C" "usable_at (upd w h) a sp = usable_at h a sp"
proof -
  have "page_inv (m\<lparr>word_at := w\<rparr>) p g X = page_inv m p g X" for m p g X
  proof -
    have "unit_link (m\<lparr>word_at := w\<rparr>) = unit_link m" "unit_life_of (m\<lparr>word_at := w\<rparr>) = unit_life_of m"
      by (simp_all add: fun_eq_iff unit_link_def unit_life_of_def)
    then show ?thesis by (simp add: page_inv_def unit_lists_def)
  qed
  then have up: "unit_page (upd w h) = unit_page h" for h by (simp add: fun_eq_iff unit_page_def upd_def)
  have ro: "run_out_of (upd w h) = run_out_of h" for h by (simp add: fun_eq_iff run_out_of_def upd_def)
  show "unit_page (upd w h) p g = unit_page h p g" by (simp add: up)
  show "heap_inv (upd w h) C = heap_inv h C" unfolding heap_inv_def up ro by (simp add: upd_def)
  show "thread_ok t (upd w h) C = thread_ok t h C" unfolding thread_ok_def up by simp
  have "woomem_validate_addr x c (m\<lparr>word_at := w\<rparr>) = woomem_validate_addr x c m"
      "get_unit_available_size x (m\<lparr>word_at := w\<rparr>) = get_unit_available_size x m" for x c m
    by (simp_all add: woomem_validate_addr_def get_unit_available_size_def Let_def cong: if_cong)
  then show "usable_at (upd w h) a sp = usable_at h a sp" by (simp add: usable_at_def upd_def)
qed

text \<open>A unit that resolves from each of its bytes is in use.\<close>

lemma usable_in_use:
  assumes "heap_inv h C" "formatted (chunk_of (h_chunk h)) (heap_mem h)" "usable_at h a sp" "a \<noteq> 0" "k < unat sp"
  shows "in_use h (a + w64 k)"
proof (rule ccontr)
  assume n: "\<not> in_use h (a + w64 k)"
  note ci = heap_invD(1) [OF assms(1)]
  have v: "woomem_validate_addr (a + w64 k) (chunk_of (h_chunk h)) (heap_mem h) = Some a"
    using assms(3,5) by (simp add: usable_at_def)
  show False
  proof (cases "\<exists>u. in_unit (chunk_of (h_chunk h)) (heap_mem h) u (a + w64 k)")
    case True
    then obtain u where u: "in_unit (chunk_of (h_chunk h)) (heap_mem h) u (a + w64 k)" by blast
    with n have "m_life (unit_at (heap_mem h) u) = RELEASED" by (auto simp: in_use_def)
    with validate_addr_hit(1) [OF ci u] v assms(4) show False by simp
  qed (use validate_addr_miss [OF ci assms(2)] v assms(4) in auto)
qed

lemma reallocate_spec:
  assumes inv: "heap_inv (al_heap s) C" "0 \<notin> C" "thread_ok (al_thread s) (al_heap s) C"
    and F: "formatted (chunk_of (h_chunk (al_heap s))) (heap_mem (al_heap s))"
    and ptr: "ptr \<noteq> 0" "usable_at (al_heap s) ptr old" and sz: "old < sz" "unat sz + 32799 < 2 ^ 64"
  shows "\<exists>a s' D. woomem_reallocate tgt sys r ptr sz s = Some (a, s') \<and>
    heap_inv (al_heap s') D \<and> 0 \<notin> D \<and> thread_ok (al_thread s') (al_heap s') D \<and>
    (\<forall>b. in_use (al_heap s) b \<longrightarrow> word_at (heap_mem (al_heap s')) b = word_at (heap_mem (al_heap s)) b) \<and>
    (if a = 0 then \<forall>b \<in> set (blocks_of (chunk_of (h_chunk (al_heap s)))). is_Free b \<longrightarrow> bsize b * 32768 < unat sz + 32
     else (\<exists>space. sz \<le> space \<and> usable_at (al_heap s') a space) \<and>
       (\<forall>i < unat old div 8. word_at (heap_mem (al_heap s')) (a + w64 (8 * i)) =
          word_at (heap_mem (al_heap s)) (ptr + w64 (8 * i))))"
proof -
  let ?h = "al_heap s" and ?n = "unat old div 8"
  have nle: "\<not> sz \<le> old" using sz(1) by simp
  have av: "get_unit_available_size (ptr - sizeof_UnitHead) (heap_mem ?h) = Some old" using ptr(2) by (simp add: usable_at_def)
  obtain a s1 where w: "woomem_allocate_begin tgt sys sz s = Some (a, s1)"
    using allocate_spec [OF inv sz(2), of tgt sys] by blast
  show ?thesis
  proof (cases "a = 0")
    case True
    from allocate_spec [OF inv sz(2), of tgt sys r 0] w True
    obtain D where "heap_inv (al_heap s1) D" "0 \<notin> D" "thread_ok (al_thread s1) (al_heap s1) D" "keeps_runs ?h (al_heap s1)"
      "\<forall>b \<in> set (blocks_of (chunk_of (h_chunk ?h))). is_Free b \<longrightarrow> bsize b * 32768 < unat sz + 32" by auto
    moreover have "woomem_reallocate tgt sys r ptr sz s = Some (0, s1)"
      using ptr(1) av w True nle by (simp add: woomem_reallocate_def)
    ultimately show ?thesis by (intro exI [of _ 0] exI [of _ s1] exI [of _ D]) (simp add: keeps_runs_def)
  next
    case False
    define m where "m = copy_words a ptr ?n (heap_mem (al_heap s1))"
    define t :: u32 where "t = ucast (m_attribute (unit_at m (ptr - sizeof_UnitHead)))"
    define s' where "s' = s1\<lparr>al_heap := upd_mem (\<lambda>_. woomem_allocate_end r a t m) (al_heap s1)\<rparr>"
    from allocate_spec [OF inv sz(2), of tgt sys r t] w False
    obtain D space where A: "keeps_runs ?h (al_heap s1)" "heap_inv (published r a t s1) D" "0 \<notin> D"
        "thread_ok (al_thread s1) (published r a t s1) D" "sz \<le> space" "usable_at (published r a t s1) a space"
        "\<forall>k < unat space. \<not> in_use ?h (a + w64 k)" by auto
    have R: "woomem_reallocate tgt sys r ptr sz s = Some (a, s')"
      using ptr(1) av w False nle by (simp add: woomem_reallocate_def Let_def s'_def m_def t_def)
    obtain w where w': "m = (heap_mem (al_heap s1))\<lparr>word_at := w\<rparr>" using copy_words_frame unfolding m_def by blast
    have h': "al_heap s' = upd_mem (\<lambda>x. x\<lparr>word_at := w\<rparr>) (published r a t s1)"
      unfolding s'_def published_def w' by (simp add: upd_mem_def woomem_allocate_end_def upd_unit_def heap_mem_def)
    have wd: "word_at (heap_mem (al_heap s')) = word_at m" unfolding h' w' by simp
    have w1: "word_at (heap_mem (al_heap s1)) = word_at (heap_mem ?h)" using A(1) by (simp add: keeps_runs_def)
    have le: "unat old < unat sz" "unat sz \<le> unat space" using sz(1) A(5) by (simp_all add: word_less_nat_alt word_le_nat_alt)
    have fresh: "\<not> in_use ?h (a + w64 (8 * i))" if "i < ?n" for i
    proof -
      have "8 * i < unat space" using le that by linarith
      then show ?thesis using A(7) by blast
    qed
    have used: "in_use ?h (ptr + w64 (8 * i))" if "i < ?n" for i
      using that by (intro usable_in_use [OF inv(1) F ptr(2,1)]) simp
    have "word_at (heap_mem (al_heap s')) (a + w64 (8 * i)) = word_at (heap_mem ?h) (ptr + w64 (8 * i))" if "i < ?n" for i
      unfolding wd m_def w1 [symmetric]
    proof (rule copy_words_nth [OF _ _ that])
      show "ptr + w64 (8 * j) \<noteq> a + w64 (8 * i)" if "i < ?n" "j < ?n" for i j
        using fresh [OF that(1)] used [OF that(2)] by metis
      have "unat old < 2 ^ 64" using unsigned_less [of old] by simp
      then show "8 * ?n < 2 ^ 64" by linarith
    qed
    moreover have "word_at (heap_mem (al_heap s')) b = word_at (heap_mem ?h) b" if "in_use ?h b" for b
      unfolding wd m_def w1 [symmetric] using fresh that by (intro copy_words_other) metis
    moreover have "heap_inv (al_heap s') D" "thread_ok (al_thread s') (al_heap s') D" "usable_at (al_heap s') a space"
      using A(2,4,6) unfolding h' upd_words by (simp_all add: s'_def)
    ultimately show ?thesis using R A(3,5) False by (intro exI [of _ a] exI [of _ s'] exI [of _ D]) auto
  qed
qed

section \<open>Properties\<close>

text \<open>C18: Resolving an address is exact. On a heap whose runs are all formatted, \<open>woomem_validate_addr\<close> always
  returns: a non-null answer is the payload of the published unit that contains the address (anywhere
  in its head or payload), and the answer is null exactly when no unit contains it or the unit is
  released or still being built.\<close>

theorem validate_addr_exact:
  assumes "chunk_inv c" and "formatted c m"
  shows "woomem_validate_addr a c m = Some r \<longleftrightarrow>
    (if r = 0 then \<forall>u. in_unit c m u a \<longrightarrow> m_life (unit_at m u) \<le> PENDING
     else \<exists>u. r = u + sizeof_UnitHead \<and> in_unit c m u a \<and> PENDING < m_life (unit_at m u))"
proof (cases "\<exists>u. in_unit c m u a")
  case True
  then obtain u where u: "in_unit c m u a" by blast
  note H = validate_addr_hit [OF assms(1)]
  have uniq: "u' = u \<and> PENDING < m_life (unit_at m u)" if "in_unit c m u' a" "PENDING < m_life (unit_at m u')" for u'
  proof -
    have e: "woomem_validate_addr a c m = Some (u' + sizeof_UnitHead)" using H(1) [OF that(1)] that(2) by simp
    show ?thesis
    proof (cases "PENDING < m_life (unit_at m u)")
      case True
      then have "woomem_validate_addr a c m = Some (u + sizeof_UnitHead)" using H(1) [OF u] by simp
      with e True show ?thesis by simp
    next
      case False
      then have "woomem_validate_addr a c m = Some 0" using H(1) [OF u] by simp
      with e H(2) [OF that(1)] show ?thesis by simp
    qed
  qed
  show ?thesis
  proof (cases "PENDING < m_life (unit_at m u)")
    case pub: True
    then have e: "woomem_validate_addr a c m = Some (u + sizeof_UnitHead)" using H(1) [OF u] by simp
    show ?thesis
    proof (cases "r = 0")
      case True
      have "\<not> m_life (unit_at m u) \<le> PENDING" using pub by simp
      with u have "\<not> (\<forall>u. in_unit c m u a \<longrightarrow> m_life (unit_at m u) \<le> PENDING)" by blast
      with e True H(2) [OF u] show ?thesis by simp
    next
      case False
      have "(\<exists>u. r = u + sizeof_UnitHead \<and> in_unit c m u a \<and> PENDING < m_life (unit_at m u)) \<longleftrightarrow> u + sizeof_UnitHead = r"
        using uniq u pub by blast
      with e False show ?thesis by simp
    qed
  next
    case False
    then have "woomem_validate_addr a c m = Some 0" "\<forall>u. in_unit c m u a \<longrightarrow> m_life (unit_at m u) \<le> PENDING"
      using H(1) [OF u] uniq by (simp, meson not_less)
    with uniq False show ?thesis by (cases "r = 0") (simp_all, blast)
  qed
next
  case False
  then show ?thesis using validate_addr_miss [OF assms, of a] by auto
qed

definition demo_alloc :: "addr list alloc_state" where
  "demo_alloc = \<lparr>al_thread = ThreadPageCollection True, al_heap = demo_heap, m_new_allocated_size_since_last_gc = 0\<rparr>"

text \<open>The state after a unit of 10000 bytes has been allocated and published.\<close>

definition demo_unit :: "addr list alloc_state" where
  "demo_unit = (case woomem_allocate_begin POSIX demo_sys 10000 demo_alloc of
     Some (a, s) \<Rightarrow> s\<lparr>al_heap := published 3 a 5 s\<rparr> | None \<Rightarrow> demo_alloc)"

lemma demo_alloc_ok:
  "heap_inv (al_heap demo_alloc) {}" "0 \<notin> ({} :: addr set)" "thread_ok (al_thread demo_alloc) (al_heap demo_alloc) {}"
  using demo_heap_inv by (simp_all add: demo_alloc_def)

lemma demo_unit_eval:
  "map_option fst (woomem_allocate_begin POSIX demo_sys 10000 demo_alloc) = Some 0x100028"
  "chunk_ranges (chunk_of (h_chunk (al_heap demo_unit))) = {(0x100000, 1)}"
  "m_page_count_if_huge (page_at (heap_mem (al_heap demo_unit)) 0x100000) = 0"
  "\<not> m_page_just_allocated (page_at (heap_mem (al_heap demo_unit)) 0x100000)"
  "m_unit_size_in_page (alloc_at (heap_mem (al_heap demo_unit)) (alloc_head 0x100000)) = ucast (group_size MIDIUM_10904)"
  "get_unit_available_size 0x100020 (heap_mem (al_heap demo_unit)) = Some 10904"
  by code_simp+

lemma demo_unit_formatted: "formatted (chunk_of (h_chunk (al_heap demo_unit))) (heap_mem (al_heap demo_unit))"
  using demo_unit_eval(2-5) by (auto simp: formatted_def cut_page_def)

lemma demo_unit_ok:
  "\<exists>D. heap_inv (al_heap demo_unit) D \<and> 0 \<notin> D \<and> thread_ok (al_thread demo_unit) (al_heap demo_unit) D"
  "usable_at (al_heap demo_unit) 0x100028 10904"
proof -
  obtain s' where s': "woomem_allocate_begin POSIX demo_sys 10000 demo_alloc = Some (0x100028, s')"
    using demo_unit_eval(1) by auto
  then have u: "demo_unit = s'\<lparr>al_heap := published 3 0x100028 5 s'\<rparr>" by (simp add: demo_unit_def)
  have e: "al_heap demo_unit = published 3 0x100028 5 s'" "al_thread demo_unit = al_thread s'" unfolding u by simp_all
  obtain D sp where D: "heap_inv (al_heap demo_unit) D" "0 \<notin> D" "thread_ok (al_thread demo_unit) (al_heap demo_unit) D"
      "usable_at (al_heap demo_unit) 0x100028 sp"
    using allocate_spec [OF demo_alloc_ok, of 10000 POSIX demo_sys 3 5] s' unfolding e by auto
  then show "\<exists>D. heap_inv (al_heap demo_unit) D \<and> 0 \<notin> D \<and> thread_ok (al_thread demo_unit) (al_heap demo_unit) D" by blast
  have "sp = 10904" using D(4) demo_unit_eval(6) by (simp add: usable_at_def sizeof_UnitHead_def)
  with D(4) show "usable_at (al_heap demo_unit) 0x100028 10904" by simp
qed

theorem validate_addr_exact_witness:
  "\<exists>u. 0x100028 = u + sizeof_UnitHead \<and> in_unit (chunk_of (h_chunk (al_heap demo_unit))) (heap_mem (al_heap demo_unit)) u 0x101234 \<and>
     PENDING < m_life (unit_at (heap_mem (al_heap demo_unit)) u)"
proof -
  have "chunk_inv (chunk_of (h_chunk (al_heap demo_unit)))" using demo_unit_ok(1) heap_invD(1) by blast
  moreover have "woomem_validate_addr 0x101234 (chunk_of (h_chunk (al_heap demo_unit))) (heap_mem (al_heap demo_unit)) = Some 0x100028"
    by code_simp
  ultimately show ?thesis using validate_addr_exact [OF _ demo_unit_formatted, of "0x101234" "0x100028"] by simp
qed

text \<open>C2: Allocation is correct. For every size whose huge request does not wrap, on a heap and a thread in
  good order, \<open>woomem_allocate_begin\<close> returns. A null answer keeps every run and is given only when no
  free block of the chunk is large enough. After a non-null answer and \<open>woomem_allocate_end\<close> the heap and
  the thread are in good order, the unit reports at least the requested size, each address of that
  space resolves to the unit, and none of them was in use before.\<close>

theorem allocate_correct:
  assumes "heap_inv (al_heap s) C" and "0 \<notin> C" and "thread_ok (al_thread s) (al_heap s) C" and "unat sz + 32799 < 2 ^ 64"
  shows "\<exists>a s' D. woomem_allocate_begin tgt sys sz s = Some (a, s') \<and> keeps_runs (al_heap s) (al_heap s') \<and>
    (if a = 0 then heap_inv (al_heap s') D \<and> 0 \<notin> D \<and> thread_ok (al_thread s') (al_heap s') D \<and>
       (\<forall>b \<in> set (blocks_of (chunk_of (h_chunk (al_heap s)))). is_Free b \<longrightarrow> bsize b * 32768 < unat sz + 32)
     else heap_inv (published r a t s') D \<and> 0 \<notin> D \<and> thread_ok (al_thread s') (published r a t s') D \<and>
       (\<exists>space. sz \<le> space \<and> usable_at (published r a t s') a space \<and>
          (\<forall>k < unat space. \<not> in_use (al_heap s) (a + w64 k))))"
  using assms by (rule allocate_spec)

theorem allocate_correct_witness:
  "\<exists>s' space. woomem_allocate_begin POSIX demo_sys 10000 demo_alloc = Some (0x100028, s') \<and>
     usable_at (published 3 0x100028 5 s') 0x100028 space \<and> 10000 \<le> space"
  using allocate_correct [OF demo_alloc_ok, of 10000 POSIX demo_sys 3 5] demo_unit_eval(1) by auto

text \<open>C19: Reallocation keeps the contents. For a unit in use with room for \<open>old\<close> bytes: a size that fits returns the
  same pointer and changes nothing; a larger one returns. Then a null answer is given only when no free
  block is large enough, and a new pointer has the requested room, starts with the words of the old
  unit, and no word of a unit in use, the old one included, is changed.\<close>

theorem reallocate_correct:
  assumes "heap_inv (al_heap s) C" and "0 \<notin> C" and "thread_ok (al_thread s) (al_heap s) C"
    and "formatted (chunk_of (h_chunk (al_heap s))) (heap_mem (al_heap s))"
    and "ptr \<noteq> 0" and "usable_at (al_heap s) ptr old" and "unat sz + 32799 < 2 ^ 64"
  shows "if sz \<le> old then woomem_reallocate tgt sys r ptr sz s = Some (ptr, s)
    else \<exists>a s' D. woomem_reallocate tgt sys r ptr sz s = Some (a, s') \<and>
      heap_inv (al_heap s') D \<and> 0 \<notin> D \<and> thread_ok (al_thread s') (al_heap s') D \<and>
      (\<forall>b. in_use (al_heap s) b \<longrightarrow> word_at (heap_mem (al_heap s')) b = word_at (heap_mem (al_heap s)) b) \<and>
      (if a = 0 then \<forall>b \<in> set (blocks_of (chunk_of (h_chunk (al_heap s)))). is_Free b \<longrightarrow> bsize b * 32768 < unat sz + 32
       else (\<exists>space. sz \<le> space \<and> usable_at (al_heap s') a space) \<and>
         (\<forall>i < unat old div 8. word_at (heap_mem (al_heap s')) (a + w64 (8 * i)) =
            word_at (heap_mem (al_heap s)) (ptr + w64 (8 * i))))"
proof (cases "sz \<le> old")
  case True
  then show ?thesis using assms(5,6) by (simp add: woomem_reallocate_def usable_at_def)
next
  case False
  then have "old < sz" by simp
  from reallocate_spec [OF assms(1-6) this assms(7), of tgt sys r] False show ?thesis by simp
qed

theorem reallocate_correct_witness:
  "\<exists>a s'. woomem_reallocate POSIX demo_sys 4 0x100028 12000 demo_unit = Some (a, s') \<and> a \<noteq> 0 \<and>
     (\<exists>space. 12000 \<le> space \<and> usable_at (al_heap s') a space) \<and>
     word_at (heap_mem (al_heap s')) (a + w64 (8 * 1000)) = word_at (heap_mem (al_heap demo_unit)) (0x100028 + w64 (8 * 1000))"
proof -
  obtain D where D: "heap_inv (al_heap demo_unit) D" "0 \<notin> D" "thread_ok (al_thread demo_unit) (al_heap demo_unit) D"
    using demo_unit_ok(1) by blast
  have "blocks_of (chunk_of (h_chunk (al_heap demo_unit))) = [Used 1, Free 3]" by code_simp
  then have free: "\<exists>b \<in> set (blocks_of (chunk_of (h_chunk (al_heap demo_unit)))). is_Free b \<and> \<not> bsize b * 32768 < 12032"
    by simp
  have "\<not> (12000 :: u64) \<le> 10904" "unat (12000 :: u64) + 32799 < 2 ^ 64" "(0x100028 :: addr) \<noteq> 0" by simp_all
  with reallocate_correct [OF D demo_unit_formatted _ demo_unit_ok(2), of 12000 POSIX demo_sys 4]
  obtain a s' where r: "woomem_reallocate POSIX demo_sys 4 0x100028 12000 demo_unit = Some (a, s')"
    "if a = 0 then \<forall>b \<in> set (blocks_of (chunk_of (h_chunk (al_heap demo_unit)))). is_Free b \<longrightarrow> bsize b * 32768 < 12032
     else (\<exists>space. 12000 \<le> space \<and> usable_at (al_heap s') a space) \<and>
       (\<forall>i < 1363. word_at (heap_mem (al_heap s')) (a + w64 (8 * i)) = word_at (heap_mem (al_heap demo_unit)) (0x100028 + w64 (8 * i)))"
    by (auto simp del: of_nat_mult cong: if_cong)
  have nz: "a \<noteq> 0" using r(2) free by auto
  then have "\<exists>space. 12000 \<le> space \<and> usable_at (al_heap s') a space"
    and "\<forall>i < 1363. word_at (heap_mem (al_heap s')) (a + w64 (8 * i)) = word_at (heap_mem (al_heap demo_unit)) (0x100028 + w64 (8 * i))"
    using r(2) by simp_all
  moreover have "(1000 :: nat) < 1363" by simp
  ultimately show ?thesis using r(1) nz by blast
qed

text \<open>C35: The size of a huge allocation wraps. For the 31 largest sizes, adding the two heads in
  \<open>woomem_allocate_begin\<close> wraps around: whenever such a request is answered with a unit, that unit has
  32736 bytes, far fewer than requested.\<close>

theorem allocate_begin_wraps:
  assumes "heap_inv (al_heap s) C" and "2 ^ 64 - 31 \<le> unat sz"
    and "woomem_allocate_begin tgt sys sz s = Some (a, s')" and "a \<noteq> 0"
  shows "get_unit_available_size (a - sizeof_UnitHead) (heap_mem (al_heap s')) = Some 32736 \<and> 32736 < sz"
proof -
  let ?r = "sizeof_PageHead + sizeof_UnitHead + sz"
  have up: "unat sz < 2 ^ 64" using unsigned_less [of sz] by simp
  have R: "unat ?r = unat sz + 32 - 2 ^ 64"
    using up assms(2) by (simp add: sizeof_PageHead_def sizeof_UnitHead_def unat_word_ariths(1) mod_if)
  have big: "MAX_IN_PAGE_UNIT_SIZE < sz" using assms(2) by (simp add: MAX_IN_PAGE_UNIT_SIZE_def word_less_nat_alt)
  have pos: "0 < unat sz + 32 - 2 ^ 64" "unat sz + 32 - 2 ^ 64 + 32767 < 2 ^ 64" using up assms(2) by simp_all
  from assms(1) big R pos show ?thesis
  proof (rule allocate_begin_huge [of s C sz _ tgt sys])
    fix s1 p n
    assume G: "woomem_allocate_begin tgt sys sz s = Some (p + sizeof_PageHead + sizeof_UnitHead, s1)"
      "m_page_count_if_huge (page_at (heap_mem (al_heap s1)) p) = w64 n" "n = (unat sz + 32 - 2 ^ 64 + 32767) div 32768"
      "m_next_free_unit_offset (unit_at (heap_mem (al_heap s1)) (p + sizeof_PageHead)) = 0"
    have "n = 1" using G(3) up assms(2) by linarith
    then have one: "m_page_count_if_huge (page_at (heap_mem (al_heap s1)) p) = 1" using G(2) by simp
    have e: "a - sizeof_UnitHead = p + sizeof_PageHead" "s' = s1" using G(1) assms(3) by simp_all
    have "get_unit_available_size (p + sizeof_PageHead) (heap_mem (al_heap s1)) =
        Some (1 * NORMAL_PAGE_SIZE - (sizeof_PageHead + sizeof_UnitHead))"
      using one G(4) by (simp add: get_unit_available_size_def Let_def)
    moreover have "32736 < sz" using assms(2) by (simp add: word_less_nat_alt)
    ultimately show ?thesis unfolding e by (simp add: sizeof_defs)
  qed (use assms(3,4) in simp)
qed

theorem allocate_begin_wraps_witness:
  "\<exists>a s'. woomem_allocate_begin POSIX demo_sys (- 1) demo_alloc = Some (a, s') \<and> a \<noteq> 0 \<and>
     get_unit_available_size (a - sizeof_UnitHead) (heap_mem (al_heap s')) = Some 32736"
proof -
  have "map_option fst (woomem_allocate_begin POSIX demo_sys (- 1) demo_alloc) = Some 0x100020" by code_simp
  then obtain s' where "woomem_allocate_begin POSIX demo_sys (- 1) demo_alloc = Some (0x100020, s')" by auto
  moreover have "2 ^ 64 - 31 \<le> unat (- 1 :: u64)" by (simp add: unsigned_minus_1_eq_mask mask_eq_exp_minus_1)
  ultimately show ?thesis using allocate_begin_wraps [OF demo_alloc_ok(1)] by (intro exI conjI) auto
qed

end
