(* ===== verification/Woomem_Mpsc.thy ===== *)
theory Woomem_Mpsc
  imports Woomem_Prelude
begin

text \<open>
  \<^verbatim>\<open>MpscGrayQueue\<close> of \<^verbatim>\<open>src/woomem_mpsc_queue.hpp\<close>, the bounded queue of gray units with many
  producers and one consumer. The template parameter \<open>Capacity\<close> is \<open>2 ^ k\<close>; the collector uses
  \<open>k = 13\<close>. Positions are 64-bit counters that only grow. The first part has the operations as they
  run alone, the second their single atomic accesses, interleaved in any order.
\<close>

section \<open>The queue\<close>

record slot =
  sequence :: u64
  item :: addr

record mpsc =
  m_slots :: "slot list"
  m_enqueue_pos :: u64
  m_dequeue_pos :: u64

definition Capacity :: "nat \<Rightarrow> u64" where
  "Capacity k = 2 ^ k"

definition MASK :: "nat \<Rightarrow> u64" where
  "MASK k = Capacity k - 1"

definition slot_ix :: "nat \<Rightarrow> u64 \<Rightarrow> nat" where
  "slot_ix k pos = unat (pos AND MASK k)"

text \<open>The constructor stores the sequence numbers into the raw slots.\<close>

definition MpscGrayQueue :: "slot list \<Rightarrow> mpsc" where
  "MpscGrayQueue raw = \<lparr>
     m_slots = map (\<lambda>(i, s). s\<lparr>sequence := w64 i\<rparr>) (enumerate 0 raw),
     m_enqueue_pos = 0, m_dequeue_pos = 0\<rparr>"

definition set_sequence :: "nat \<Rightarrow> u64 \<Rightarrow> u64 \<Rightarrow> mpsc \<Rightarrow> mpsc option" where
  "set_sequence k pos v q =
     rd (m_slots q) (slot_ix k pos) \<bind> (\<lambda>s.
     wr (m_slots q) (slot_ix k pos) (s\<lparr>sequence := v\<rparr>) \<bind> (\<lambda>ss. Some (q\<lparr>m_slots := ss\<rparr>)))"

definition set_item :: "nat \<Rightarrow> u64 \<Rightarrow> addr \<Rightarrow> mpsc \<Rightarrow> mpsc option" where
  "set_item k pos x q =
     rd (m_slots q) (slot_ix k pos) \<bind> (\<lambda>s.
     wr (m_slots q) (slot_ix k pos) (s\<lparr>item := x\<rparr>) \<bind> (\<lambda>ss. Some (q\<lparr>m_slots := ss\<rparr>)))"

text \<open>A call that runs alone: the compare-and-swap succeeds at its first attempt.\<close>

definition try_enqueue :: "nat \<Rightarrow> addr \<Rightarrow> mpsc \<Rightarrow> (bool \<times> mpsc) option" where
  "try_enqueue k x q =
     (let pos = m_enqueue_pos q in
      do {
        s \<leftarrow> rd (m_slots q) (slot_ix k pos);
        if sequence s < pos then Some (False, q)
        else do {
          q \<leftarrow> set_item k pos x (q\<lparr>m_enqueue_pos := pos + 1\<rparr>);
          q \<leftarrow> set_sequence k pos (pos + 1) q;
          Some (True, q)
        }
      })"

definition dequeue :: "nat \<Rightarrow> mpsc \<Rightarrow> (addr \<times> mpsc) option" where
  "dequeue k q =
     (let pos = m_dequeue_pos q in
      do {
        s \<leftarrow> rd (m_slots q) (slot_ix k pos);
        if sequence s \<noteq> pos + 1 then Some (0, q)
        else do {
          q \<leftarrow> set_sequence k pos (pos + Capacity k) q;
          Some (item s, q\<lparr>m_dequeue_pos := pos + 1\<rparr>)
        }
      })"

text \<open>\<open>drain\<close> with room for \<open>max_count\<close> items: the items it stores into its output.\<close>

fun drain :: "nat \<Rightarrow> nat \<Rightarrow> mpsc \<Rightarrow> (addr list \<times> mpsc) option" where
  "drain k 0 q = Some ([], q)"
| "drain k (Suc max_count) q =
     (let pos = m_dequeue_pos q in
      do {
        s \<leftarrow> rd (m_slots q) (slot_ix k pos);
        if sequence s \<noteq> pos + 1 then Some ([], q)
        else do {
          q \<leftarrow> set_sequence k pos (pos + Capacity k) q;
          (xs, q) \<leftarrow> drain k max_count (q\<lparr>m_dequeue_pos := pos + 1\<rparr>);
          Some (item s # xs, q)
        }
      })"

definition mpsc_empty :: "nat \<Rightarrow> mpsc \<Rightarrow> bool option" where
  "mpsc_empty k q =
     rd (m_slots q) (slot_ix k (m_dequeue_pos q)) \<bind> (\<lambda>s. Some (sequence s \<noteq> m_dequeue_pos q + 1))"

section \<open>Producers and the consumer step by step\<close>

text \<open>
  A producer has loaded \<open>pos\<close>, has seen a sequence number that is not smaller, has claimed the
  position by its compare-and-swap, has stored its item. The consumer has seen a published slot, has
  read its item, has given the slot back. \<open>claimed\<close> and \<open>delivered\<close> record the items in the order of
  the successful exchanges and of the completed dequeues.
\<close>

datatype producer =
  PIdle | PLoaded u64 addr | PChecked u64 addr | PClaimed u64 addr | PStored u64 addr

datatype consumer = CIdle | CReady | CRead addr | CFreed addr

record mpsc_sys =
  queue :: mpsc
  prod :: "nat \<Rightarrow> producer"
  cons :: consumer
  claimed :: "addr list"
  delivered :: "addr list"

definition seq_at :: "nat \<Rightarrow> mpsc \<Rightarrow> u64 \<Rightarrow> u64" where
  "seq_at k q pos = sequence (m_slots q ! slot_ix k pos)"

definition item_at :: "nat \<Rightarrow> mpsc \<Rightarrow> u64 \<Rightarrow> addr" where
  "item_at k q pos = item (m_slots q ! slot_ix k pos)"

text \<open>A counter never reaches \<open>2 ^ 63\<close>: the guard of \<open>enq_cas_ok\<close> states that bound.\<close>

inductive mpsc_step :: "nat \<Rightarrow> mpsc_sys \<Rightarrow> mpsc_sys \<Rightarrow> bool" for k :: nat where
  enq_load: "prod s t = PIdle \<Longrightarrow>
     mpsc_step k s (s\<lparr>prod := (prod s)(t := PLoaded (m_enqueue_pos (queue s)) x)\<rparr>)"
| enq_full: "prod s t = PLoaded pos x \<Longrightarrow> seq_at k (queue s) pos < pos \<Longrightarrow>
     mpsc_step k s (s\<lparr>prod := (prod s)(t := PIdle)\<rparr>)"
| enq_check: "prod s t = PLoaded pos x \<Longrightarrow> \<not> seq_at k (queue s) pos < pos \<Longrightarrow>
     mpsc_step k s (s\<lparr>prod := (prod s)(t := PChecked pos x)\<rparr>)"
| enq_cas_ok: "prod s t = PChecked pos x \<Longrightarrow> m_enqueue_pos (queue s) = pos \<Longrightarrow> unat pos < 2 ^ 63 \<Longrightarrow>
     mpsc_step k s (s\<lparr>queue := (queue s)\<lparr>m_enqueue_pos := pos + 1\<rparr>,
       prod := (prod s)(t := PClaimed pos x), claimed := claimed s @ [x]\<rparr>)"
| enq_cas_fail: "prod s t = PChecked pos x \<Longrightarrow>
     mpsc_step k s (s\<lparr>prod := (prod s)(t := PLoaded (m_enqueue_pos (queue s)) x)\<rparr>)"
| enq_item: "prod s t = PClaimed pos x \<Longrightarrow> set_item k pos x (queue s) = Some q \<Longrightarrow>
     mpsc_step k s (s\<lparr>queue := q, prod := (prod s)(t := PStored pos x)\<rparr>)"
| enq_publish: "prod s t = PStored pos x \<Longrightarrow> set_sequence k pos (pos + 1) (queue s) = Some q \<Longrightarrow>
     mpsc_step k s (s\<lparr>queue := q, prod := (prod s)(t := PIdle)\<rparr>)"
| deq_check: "cons s = CIdle \<Longrightarrow> pos = m_dequeue_pos (queue s) \<Longrightarrow> seq_at k (queue s) pos = pos + 1 \<Longrightarrow>
     mpsc_step k s (s\<lparr>cons := CReady\<rparr>)"
| deq_item: "cons s = CReady \<Longrightarrow>
     mpsc_step k s (s\<lparr>cons := CRead (item_at k (queue s) (m_dequeue_pos (queue s)))\<rparr>)"
| deq_free: "cons s = CRead x \<Longrightarrow> pos = m_dequeue_pos (queue s) \<Longrightarrow>
     set_sequence k pos (pos + Capacity k) (queue s) = Some q \<Longrightarrow>
     mpsc_step k s (s\<lparr>queue := q, cons := CFreed x\<rparr>)"
| deq_done: "cons s = CFreed x \<Longrightarrow>
     mpsc_step k s (s\<lparr>queue := (queue s)\<lparr>m_dequeue_pos := m_dequeue_pos (queue s) + 1\<rparr>, cons := CIdle,
       delivered := delivered s @ [x]\<rparr>)"

inductive mpsc_init :: "nat \<Rightarrow> mpsc_sys \<Rightarrow> bool" for k :: nat where
  "1 \<le> k \<Longrightarrow> k \<le> 32 \<Longrightarrow> length raw = 2 ^ k \<Longrightarrow>
   mpsc_init k \<lparr>queue = MpscGrayQueue raw, prod = (\<lambda>_. PIdle), cons = CIdle, claimed = [], delivered = []\<rparr>"

end
