(* ===== verification/Woomem_Mpsc_Props.thy ===== *)
theory Woomem_Mpsc_Props
  imports Woomem_Mpsc
begin

text \<open>
  Correctness of the gray queue: an invariant over its positions, kept by every interleaving of the
  atomic accesses of its producers and its consumer, and what it gives: items leave in the order in
  which their positions were claimed, each exactly once. Then the operations as they run alone are
  those of a bounded first-in first-out queue.
\<close>

section \<open>Positions and slots\<close>

lemma slot_ix_mod:
  assumes "k \<le> 32"
  shows "slot_ix k pos = unat pos mod 2 ^ k"
proof -
  have "MASK k = mask k" by (simp add: MASK_def Capacity_def mask_eq_exp_minus_1)
  then have "slot_ix k pos = unat (take_bit k pos)" by (simp add: slot_ix_def take_bit_eq_mask)
  also have "\<dots> = take_bit k (unat pos)" by (rule unsigned_take_bit_eq)
  finally show ?thesis by (simp only: take_bit_eq_mod)
qed

lemma mod_window:
  fixes p r :: nat
  assumes "f \<le> p" "p < f + n" "f \<le> r" "r < f + n" "p mod n = r mod n"
  shows "p = r"
proof (rule ccontr)
  assume "p \<noteq> r"
  moreover have "n dvd (max p r - min p r)"
    using assms(5) by (metis max_def min_def mod_eq_dvd_iff_nat nat_le_linear)
  moreover have "max p r - min p r < n" using assms by (auto simp: max_def min_def)
  ultimately show False using dvd_imp_le by (fastforce simp: max_def min_def split: if_splits)
qed

lemma window_rep:
  fixes p f n :: nat
  assumes "0 < n" "p < f + n"
  shows "\<exists>r \<ge> p. f \<le> r \<and> r < f + n \<and> r mod n = p mod n"
  using assms
proof (induction "f - p" arbitrary: p rule: less_induct)
  case less
  show ?case
  proof (cases "f \<le> p")
    case False
    then have "\<exists>r \<ge> p + n. f \<le> r \<and> r < f + n \<and> r mod n = (p + n) mod n" using less by (intro less.hyps) auto
    then obtain r where "p + n \<le> r" "f \<le> r" "r < f + n" "r mod n = (p + n) mod n" by blast
    then have "p \<le> r \<and> f \<le> r \<and> r < f + n \<and> r mod n = p mod n" by simp
    then show ?thesis by blast
  qed (use less.prems in auto)
qed

text \<open>The sequence number and the item at a position, as numbers.\<close>

definition sq :: "nat \<Rightarrow> mpsc \<Rightarrow> nat \<Rightarrow> nat" where
  "sq k q p = unat (sequence (m_slots q ! (p mod 2 ^ k)))"

definition it :: "nat \<Rightarrow> mpsc \<Rightarrow> nat \<Rightarrow> addr" where
  "it k q p = item (m_slots q ! (p mod 2 ^ k))"

lemma seq_at_sq: "k \<le> 32 \<Longrightarrow> unat (seq_at k q pos) = sq k q (unat pos)"
  by (simp add: seq_at_def sq_def slot_ix_mod)

lemma item_at_it: "k \<le> 32 \<Longrightarrow> item_at k q pos = it k q (unat pos)"
  by (simp add: item_at_def it_def slot_ix_mod)

lemma set_sequence_views:
  assumes "k \<le> 32" "length (m_slots q) = 2 ^ k"
  shows "\<exists>q'. set_sequence k pos v q = Some q' \<and> length (m_slots q') = 2 ^ k \<and>
    m_enqueue_pos q' = m_enqueue_pos q \<and> m_dequeue_pos q' = m_dequeue_pos q \<and>
    it k q' = it k q \<and> sq k q' = (\<lambda>p. if p mod 2 ^ k = unat pos mod 2 ^ k then unat v else sq k q p)"
proof -
  let ?i = "unat pos mod 2 ^ k"
  have i: "?i < length (m_slots q)" using assms(2) by simp
  let ?q = "q\<lparr>m_slots := (m_slots q)[?i := (m_slots q ! ?i)\<lparr>sequence := v\<rparr>]\<rparr>"
  have "set_sequence k pos v q = Some ?q" using i assms by (simp add: set_sequence_def slot_ix_mod rd_in wr_in)
  moreover have "it k ?q = it k q" "sq k ?q = (\<lambda>p. if p mod 2 ^ k = ?i then unat v else sq k q p)"
    using i by (auto simp: it_def sq_def nth_list_update fun_eq_iff)
  ultimately show ?thesis using assms(2) by auto
qed

lemma set_item_views:
  assumes "k \<le> 32" "length (m_slots q) = 2 ^ k"
  shows "\<exists>q'. set_item k pos x q = Some q' \<and> length (m_slots q') = 2 ^ k \<and>
    m_enqueue_pos q' = m_enqueue_pos q \<and> m_dequeue_pos q' = m_dequeue_pos q \<and>
    sq k q' = sq k q \<and> it k q' = (\<lambda>p. if p mod 2 ^ k = unat pos mod 2 ^ k then x else it k q p)"
proof -
  let ?i = "unat pos mod 2 ^ k"
  have i: "?i < length (m_slots q)" using assms(2) by simp
  let ?q = "q\<lparr>m_slots := (m_slots q)[?i := (m_slots q ! ?i)\<lparr>item := x\<rparr>]\<rparr>"
  have "set_item k pos x q = Some ?q" using i assms by (simp add: set_item_def slot_ix_mod rd_in wr_in)
  moreover have "sq k ?q = sq k q" "it k ?q = (\<lambda>p. if p mod 2 ^ k = ?i then x else it k q p)"
    using i by (auto simp: it_def sq_def nth_list_update fun_eq_iff)
  ultimately show ?thesis using assms(2) by auto
qed

section \<open>The invariant\<close>

text \<open>
  \<open>slots_ok S I n E F cl B\<close> for sequence numbers \<open>S\<close>, items \<open>I\<close> and \<open>n\<close> slots: positions \<open>F .. E - 1\<close> are
  in the queue, those in \<open>B\<close> claimed and not published, the others published with the right item;
  positions \<open>E .. F + n - 1\<close> are free.
\<close>

definition slots_ok :: "(nat \<Rightarrow> nat) \<Rightarrow> (nat \<Rightarrow> addr) \<Rightarrow> nat \<Rightarrow> nat \<Rightarrow> nat \<Rightarrow> addr list \<Rightarrow> nat set \<Rightarrow> bool" where
  "slots_ok S I n E F cl B \<longleftrightarrow>
     F \<le> E \<and> E \<le> F + n \<and> length cl = E \<and> B \<subseteq> {F..<E} \<and>
     (\<forall>p. F \<le> p \<and> p < E \<longrightarrow> (if p \<in> B then S p = p else S p = p + 1 \<and> I p = cl ! p)) \<and>
     (\<forall>p. E \<le> p \<and> p < F + n \<longrightarrow> S p = p)"

lemma slots_okD:
  assumes "slots_ok S I n E F cl B"
  shows "F \<le> E" "E \<le> F + n" "length cl = E" "B \<subseteq> {F..<E}"
    "p \<in> B \<Longrightarrow> S p = p" "F \<le> p \<Longrightarrow> p < E \<Longrightarrow> p \<notin> B \<Longrightarrow> S p = Suc p \<and> I p = cl ! p"
    "E \<le> p \<Longrightarrow> p < F + n \<Longrightarrow> S p = p"
proof -
  show "F \<le> E" "E \<le> F + n" "length cl = E" "B \<subseteq> {F..<E}" using assms by (simp_all add: slots_ok_def)
  show "E \<le> p \<Longrightarrow> p < F + n \<Longrightarrow> S p = p" using assms by (simp add: slots_ok_def)
  show "F \<le> p \<Longrightarrow> p < E \<Longrightarrow> p \<notin> B \<Longrightarrow> S p = Suc p \<and> I p = cl ! p" using assms by (simp add: slots_ok_def)
  show "p \<in> B \<Longrightarrow> S p = p" using assms unfolding slots_ok_def by (metis atLeastLessThan_iff subset_iff)
qed

lemma slots_okI:
  assumes "F \<le> E" "E \<le> F + n" "length cl = E" "B \<subseteq> {F..<E}"
    "\<And>p. p \<in> B \<Longrightarrow> S p = p" "\<And>p. F \<le> p \<Longrightarrow> p < E \<Longrightarrow> p \<notin> B \<Longrightarrow> S p = Suc p \<and> I p = cl ! p"
    "\<And>p. E \<le> p \<Longrightarrow> p < F + n \<Longrightarrow> S p = p"
  shows "slots_ok S I n E F cl B"
  using assms unfolding slots_ok_def by simp

lemma slots_claim:
  assumes "slots_ok S I n E F cl B" "E < F + n"
  shows "slots_ok S I n (Suc E) F (cl @ [x]) (insert E B)"
proof (rule slots_okI)
  note D = slots_okD [OF assms(1)]
  show "S p = p" if "p \<in> insert E B" for p using that D(5,7) assms(2) by auto
  show "S p = Suc p \<and> I p = (cl @ [x]) ! p" if "F \<le> p" "p < Suc E" "p \<notin> insert E B" for p
    using that D(3) D(6) [of p] by (auto simp: nth_append)
  show "S p = p" if "Suc E \<le> p" "p < F + n" for p using that D(7) by simp
qed (use slots_okD(1-4) [OF assms(1)] assms(2) in auto)

text \<open>Within a window of \<open>n\<close> positions a slot belongs to one position.\<close>

lemma slots_window:
  assumes "slots_ok S I n E F cl B" "p \<in> B" "F \<le> r" "r < F + n"
  shows "r mod n = p mod n \<longleftrightarrow> r = p"
proof
  have "F \<le> p" "p < F + n" using slots_okD(2,4) [OF assms(1)] assms(2) by auto
  then show "r mod n = p mod n \<Longrightarrow> r = p" using assms(3,4) by (intro mod_window [of F r n p])
qed simp

lemma slots_item:
  assumes ok: "slots_ok S I n E F cl B" and p: "p \<in> B"
  shows "slots_ok S (\<lambda>r. if r mod n = p mod n then x else I r) n E F cl B"
proof (rule slots_okI)
  note D = slots_okD [OF ok]
  show "S r = Suc r \<and> (if r mod n = p mod n then x else I r) = cl ! r" if "F \<le> r" "r < E" "r \<notin> B" for r
    using slots_window [OF ok p, of r] that p D(2) D(6) [of r] by auto
qed (use slots_okD [OF ok] in auto)

lemma slots_publish:
  assumes ok: "slots_ok S I n E F cl B" and p: "p \<in> B" "I p = cl ! p"
  shows "slots_ok (\<lambda>r. if r mod n = p mod n then Suc p else S r) I n E F cl (B - {p})"
proof (rule slots_okI)
  note D = slots_okD [OF ok] and w = slots_window [OF ok p(1)]
  have pE: "p < E" using D(4) p(1) by auto
  show "(if r mod n = p mod n then Suc p else S r) = r" if "r \<in> B - {p}" for r
    using w [of r] that D(2,4) D(5) [of r] by auto
  show "(if r mod n = p mod n then Suc p else S r) = Suc r \<and> I r = cl ! r"
    if "F \<le> r" "r < E" "r \<notin> B - {p}" for r
    using w [of r] that D(2) D(6) [of r] p(2) by auto
  show "(if r mod n = p mod n then Suc p else S r) = r" if "E \<le> r" "r < F + n" for r
    using w [of r] that pE D(1) D(7) [of r] by auto
qed (use slots_okD [OF ok] in auto)

lemma slots_free:
  assumes ok: "slots_ok S I n E F cl B" and F: "F < E" "S F = Suc F"
  shows "slots_ok (\<lambda>r. if r mod n = F mod n then F + n else S r) I n E (Suc F) cl B"
proof (rule slots_okI)
  note D = slots_okD [OF ok]
  have n: "0 < n" using D(2) F(1) by simp
  have w: "r mod n = F mod n \<longleftrightarrow> r = F + n" if "Suc F \<le> r" "r < Suc F + n" for r
    using that mod_window [of "Suc F" r n "F + n"] n by auto
  have FB: "F \<notin> B" using D(5) [of F] F(2) by auto
  show B: "B \<subseteq> {Suc F..<E}" using D(4) FB by (auto simp: subset_iff Suc_le_eq le_less)
  show "(if r mod n = F mod n then F + n else S r) = r" if "r \<in> B" for r
    using w [of r] that B D(2) D(5) [of r] by auto
  show "(if r mod n = F mod n then F + n else S r) = Suc r \<and> I r = cl ! r" if "Suc F \<le> r" "r < E" "r \<notin> B" for r
    using w [of r] that D(2) D(6) [of r] by auto
  show "(if r mod n = F mod n then F + n else S r) = r" if "E \<le> r" "r < Suc F + n" for r
    using w [of r] that F(1) D(7) [of r] by auto
qed (use slots_okD [OF ok] F in auto)

text \<open>The positions a producer has claimed and not yet published, and what its local state means.\<close>

fun busy :: "producer \<Rightarrow> nat set" where
  "busy (PClaimed pos x) = {unat pos}"
| "busy (PStored pos x) = {unat pos}"
| "busy pc = {}"

fun prod_ok :: "(nat \<Rightarrow> addr) \<Rightarrow> nat \<Rightarrow> nat \<Rightarrow> nat \<Rightarrow> addr list \<Rightarrow> producer \<Rightarrow> bool" where
  "prod_ok I n E F cl PIdle = True"
| "prod_ok I n E F cl (PLoaded pos x) \<longleftrightarrow> unat pos \<le> E"
| "prod_ok I n E F cl (PChecked pos x) \<longleftrightarrow> unat pos \<le> E \<and> (unat pos = E \<longrightarrow> E < F + n)"
| "prod_ok I n E F cl (PClaimed pos x) \<longleftrightarrow> unat pos < E \<and> cl ! unat pos = x"
| "prod_ok I n E F cl (PStored pos x) \<longleftrightarrow> unat pos < E \<and> cl ! unat pos = x \<and> I (unat pos) = x"

fun cons_ok :: "(nat \<Rightarrow> nat) \<Rightarrow> nat \<Rightarrow> nat \<Rightarrow> addr list \<Rightarrow> consumer \<Rightarrow> bool" where
  "cons_ok S D E cl CIdle = True"
| "cons_ok S D E cl CReady \<longleftrightarrow> D < E \<and> S D = Suc D"
| "cons_ok S D E cl (CRead x) \<longleftrightarrow> D < E \<and> S D = Suc D \<and> x = cl ! D"
| "cons_ok S D E cl (CFreed x) \<longleftrightarrow> D < E \<and> x = cl ! D"

fun freed :: "consumer \<Rightarrow> nat" where
  "freed (CFreed x) = 1"
| "freed c = 0"

definition busies :: "(nat \<Rightarrow> producer) \<Rightarrow> nat set" where
  "busies ps = (\<Union>t. busy (ps t))"

definition exclusive_claims :: "(nat \<Rightarrow> producer) \<Rightarrow> bool" where
  "exclusive_claims ps \<longleftrightarrow> (\<forall>t u. t \<noteq> u \<longrightarrow> busy (ps t) \<inter> busy (ps u) = {})"

lemma busiesI: "p \<in> busy (ps t) \<Longrightarrow> p \<in> busies ps"
  by (auto simp: busies_def)

lemma busies_upd:
  assumes "exclusive_claims ps"
  shows "busies (ps(t := p)) = busies ps - busy (ps t) \<union> busy p"
  using assms unfolding busies_def exclusive_claims_def by (auto split: if_splits) blast+

lemma exclusive_claims_upd:
  assumes "exclusive_claims ps" "busy p \<inter> (busies ps - busy (ps t)) = {}"
  shows "exclusive_claims (ps(t := p))"
proof -
  have "busy p \<inter> busy (ps u) = {}" if "u \<noteq> t" for u
  proof -
    have "busy (ps u) \<subseteq> busies ps - busy (ps t)"
      using assms(1) that unfolding busies_def exclusive_claims_def by blast
    with assms(2) show ?thesis by blast
  qed
  with assms(1) show ?thesis unfolding exclusive_claims_def by (auto split: if_splits)
qed

definition mpsc_ok :: "nat \<Rightarrow> mpsc \<Rightarrow> (nat \<Rightarrow> producer) \<Rightarrow> consumer \<Rightarrow> addr list \<Rightarrow> bool" where
  "mpsc_ok k q ps c cl \<longleftrightarrow>
     1 \<le> k \<and> k \<le> 32 \<and> length (m_slots q) = 2 ^ k \<and> unat (m_enqueue_pos q) \<le> 2 ^ 63 \<and>
     slots_ok (sq k q) (it k q) (2 ^ k) (unat (m_enqueue_pos q)) (unat (m_dequeue_pos q) + freed c) cl (busies ps) \<and>
     exclusive_claims ps \<and>
     (\<forall>t. prod_ok (it k q) (2 ^ k) (unat (m_enqueue_pos q)) (unat (m_dequeue_pos q) + freed c) cl (ps t)) \<and>
     cons_ok (sq k q) (unat (m_dequeue_pos q)) (unat (m_enqueue_pos q)) cl c"

definition mpsc_inv :: "nat \<Rightarrow> mpsc_sys \<Rightarrow> bool" where
  "mpsc_inv k s \<longleftrightarrow> mpsc_ok k (queue s) (prod s) (cons s) (claimed s) \<and>
     delivered s = take (unat (m_dequeue_pos (queue s))) (claimed s)"

lemma unat_pos_1: "unat (pos :: u64) \<le> 2 ^ 63 \<Longrightarrow> unat (pos + 1) = Suc (unat pos)"
  by (subst unat_add_lem [THEN iffD1]) simp_all

lemma unat_pos_cap:
  assumes "unat (pos :: u64) \<le> 2 ^ 63" "k \<le> 32"
  shows "unat (pos + Capacity k) = unat pos + 2 ^ k"
proof -
  have p: "(2::nat) ^ k \<le> 2 ^ 32" using assms(2) by (intro power_increasing) simp_all
  moreover have "Capacity k = w64 (2 ^ k)" by (simp add: Capacity_def)
  moreover have "(2::nat) ^ k < 2 ^ 64" using p by simp
  ultimately have "unat (Capacity k) = 2 ^ k" by (simp only: unat_w64)
  with p assms(1) show ?thesis by (subst unat_add_lem [THEN iffD1]) simp_all
qed

lemma mpsc_okD:
  assumes "mpsc_ok k q ps c cl"
  shows "1 \<le> k" "k \<le> 32" "length (m_slots q) = 2 ^ k" "unat (m_enqueue_pos q) \<le> 2 ^ 63"
    "slots_ok (sq k q) (it k q) (2 ^ k) (unat (m_enqueue_pos q)) (unat (m_dequeue_pos q) + freed c) cl (busies ps)"
    "exclusive_claims ps"
    "prod_ok (it k q) (2 ^ k) (unat (m_enqueue_pos q)) (unat (m_dequeue_pos q) + freed c) cl (ps t)"
    "cons_ok (sq k q) (unat (m_dequeue_pos q)) (unat (m_enqueue_pos q)) cl c"
    "unat (m_dequeue_pos q) \<le> unat (m_enqueue_pos q)"
proof -
  show "1 \<le> k" "k \<le> 32" "length (m_slots q) = 2 ^ k" "unat (m_enqueue_pos q) \<le> 2 ^ 63" "exclusive_claims ps"
    "prod_ok (it k q) (2 ^ k) (unat (m_enqueue_pos q)) (unat (m_dequeue_pos q) + freed c) cl (ps t)"
    "cons_ok (sq k q) (unat (m_dequeue_pos q)) (unat (m_enqueue_pos q)) cl c"
    using assms by (simp_all add: mpsc_ok_def)
  show s: "slots_ok (sq k q) (it k q) (2 ^ k) (unat (m_enqueue_pos q)) (unat (m_dequeue_pos q) + freed c) cl (busies ps)"
    using assms by (simp add: mpsc_ok_def)
  show "unat (m_dequeue_pos q) \<le> unat (m_enqueue_pos q)" using slots_okD(1) [OF s] by simp
qed

section \<open>Every step keeps the invariant\<close>

lemma mpsc_ok_prod:
  assumes ok: "mpsc_ok k q ps c cl" and pc: "busy (ps t) = {}" "busy p = {}"
    and new: "prod_ok (it k q) (2 ^ k) (unat (m_enqueue_pos q)) (unat (m_dequeue_pos q) + freed c) cl p"
  shows "mpsc_ok k q (ps(t := p)) c cl"
proof -
  have "busies (ps(t := p)) = busies ps" using busies_upd [OF mpsc_okD(6) [OF ok]] pc by simp
  moreover have "exclusive_claims (ps(t := p))" using exclusive_claims_upd [OF mpsc_okD(6) [OF ok]] pc by simp
  ultimately show ?thesis using ok new by (simp add: mpsc_ok_def)
qed

lemma mpsc_ok_check:
  assumes ok: "mpsc_ok k q ps c cl" and pc: "ps t = PLoaded pos x" "\<not> seq_at k q pos < pos"
  shows "mpsc_ok k q (ps(t := PChecked pos x)) c cl"
proof (rule mpsc_ok_prod [OF ok])
  let ?E = "unat (m_enqueue_pos q)" and ?F = "unat (m_dequeue_pos q) + freed c" and ?n = "(2::nat) ^ k"
  note D = mpsc_okD [OF ok] and S = slots_okD [OF mpsc_okD(5) [OF ok]]
  have le: "unat pos \<le> ?E" using D(7) [of t] pc(1) by simp
  have ge: "unat pos \<le> sq k q (unat pos)" using pc(2) seq_at_sq [OF D(2)] by (simp add: word_less_nat_alt)
  have n: "2 \<le> ?n" using D(1) self_le_power [of 2 k] by simp
  have "?E < ?F + ?n" if "unat pos = ?E"
  proof (rule ccontr)
    assume "\<not> ?E < ?F + ?n"
    then have E: "?E = ?F + ?n" using S(2) by simp
    then have "sq k q (unat pos) = sq k q ?F" using that by (simp add: sq_def)
    moreover have "sq k q ?F \<le> Suc ?F" using S(5) [of ?F] S(6) [of ?F] E n by (cases "?F \<in> busies ps") auto
    ultimately show False using ge that E n by simp
  qed
  with le show "prod_ok (it k q) ?n ?E ?F cl (PChecked pos x)" by simp
qed (use pc(1) in simp_all)

lemma mpsc_ok_claim:
  assumes ok: "mpsc_ok k q ps c cl" and pc: "ps t = PChecked pos x" and pos: "m_enqueue_pos q = pos" "unat pos < 2 ^ 63"
  shows "mpsc_ok k (q\<lparr>m_enqueue_pos := pos + 1\<rparr>) (ps(t := PClaimed pos x)) c (cl @ [x])"
proof -
  let ?q = "q\<lparr>m_enqueue_pos := pos + 1\<rparr>" and ?F = "unat (m_dequeue_pos q) + freed c"
  note D = mpsc_okD [OF ok] and S = slots_okD [OF mpsc_okD(5) [OF ok], unfolded pos(1)]
  have v: "sq k ?q = sq k q" "it k ?q = it k q" by (simp_all add: sq_def it_def fun_eq_iff)
  have E: "unat (pos + 1) = Suc (unat pos)" using pos(2) by (intro unat_pos_1) simp
  have lt: "unat pos < ?F + 2 ^ k" using D(7) [of t] pc pos(1) by simp
  have B: "busies (ps(t := PClaimed pos x)) = insert (unat pos) (busies ps)"
    using busies_upd [OF D(6)] pc by simp
  have "exclusive_claims (ps(t := PClaimed pos x))"
    using S(4) pc by (intro exclusive_claims_upd [OF D(6)]) auto
  moreover have "slots_ok (sq k q) (it k q) (2 ^ k) (Suc (unat pos)) ?F (cl @ [x]) (insert (unat pos) (busies ps))"
    using slots_claim [OF D(5) [unfolded pos(1)] lt] .
  moreover have "prod_ok (it k q) (2 ^ k) (Suc (unat pos)) ?F (cl @ [x]) ((ps(t := PClaimed pos x)) u)" for u
    using D(7) [of u, unfolded pos(1)] S(3)
    by (cases "ps u") (auto simp: nth_append)
  moreover have "cons_ok (sq k q) (unat (m_dequeue_pos q)) (Suc (unat pos)) (cl @ [x]) c"
    using D(8) [unfolded pos(1)] S(3) by (cases c) (auto simp: nth_append)
  ultimately show ?thesis
    using D(1-3) pos(2) unfolding mpsc_ok_def v B E [symmetric] by (simp add: E)
qed

lemma busy_unique:
  assumes "exclusive_claims ps" "p \<in> busy (ps t)" "p \<in> busy (ps u)"
  shows "u = t"
  using assms unfolding exclusive_claims_def by blast

lemma mpsc_ok_item:
  assumes ok: "mpsc_ok k q ps c cl" and pc: "ps t = PClaimed pos x" and q': "set_item k pos x q = Some q'"
  shows "mpsc_ok k q' (ps(t := PStored pos x)) c cl"
proof -
  note D = mpsc_okD [OF ok]
  have v: "length (m_slots q') = 2 ^ k" "m_enqueue_pos q' = m_enqueue_pos q" "m_dequeue_pos q' = m_dequeue_pos q"
    "sq k q' = sq k q" "it k q' = (\<lambda>p. if p mod 2 ^ k = unat pos mod 2 ^ k then x else it k q p)"
    using set_item_views [OF D(2,3), of pos x] q' by auto
  have p: "unat pos \<in> busies ps" using pc by (intro busiesI [of _ _ t]) simp
  have B: "busies (ps(t := PStored pos x)) = busies ps"
    using busies_upd [OF D(6), of t "PStored pos x"] pc p by auto
  have "exclusive_claims (ps(t := PStored pos x))"
    using pc by (intro exclusive_claims_upd [OF D(6)]) auto
  moreover note slots_item [OF D(5) p, of x]
  moreover have "prod_ok (it k q') (2 ^ k) (unat (m_enqueue_pos q)) (unat (m_dequeue_pos q) + freed c) cl
      ((ps(t := PStored pos x)) u)" for u
  proof (cases "u = t")
    case True
    then show ?thesis using D(7) [of t] pc by (simp add: v)
  next
    case False
    show ?thesis
    proof (cases "ps u")
      case (PStored r y)
      then have r: "unat r \<in> busies ps" by (intro busiesI [of _ _ u]) simp
      have "unat r \<noteq> unat pos" using busy_unique [OF D(6), of "unat r" u t] PStored pc False by auto
      then have "unat r mod 2 ^ k \<noteq> unat pos mod 2 ^ k"
        using slots_window [OF D(5) p, of "unat r"] slots_okD(2,4) [OF D(5)] r by auto
      then show ?thesis using D(7) [of u] PStored False by (simp add: v)
    qed (use D(7) [of u] False in \<open>simp_all add: v\<close>)
  qed
  ultimately show ?thesis using D(1-4,8) by (simp add: mpsc_ok_def v B)
qed

lemma mpsc_ok_publish:
  assumes ok: "mpsc_ok k q ps c cl" and pc: "ps t = PStored pos x"
    and q': "set_sequence k pos (pos + 1) q = Some q'"
  shows "mpsc_ok k q' (ps(t := PIdle)) c cl"
proof -
  note D = mpsc_okD [OF ok]
  have i: "unat pos < unat (m_enqueue_pos q)" "it k q (unat pos) = cl ! unat pos" using D(7) [of t] pc by auto
  have "unat (pos + 1) = Suc (unat pos)" using i(1) D(4) by (intro unat_pos_1) simp
  then have v: "length (m_slots q') = 2 ^ k" "m_enqueue_pos q' = m_enqueue_pos q" "m_dequeue_pos q' = m_dequeue_pos q"
    "it k q' = it k q" "sq k q' = (\<lambda>p. if p mod 2 ^ k = unat pos mod 2 ^ k then Suc (unat pos) else sq k q p)"
    using set_sequence_views [OF D(2,3), of pos "pos + 1"] q' by auto
  have p: "unat pos \<in> busies ps" using pc by (intro busiesI [of _ _ t]) simp
  have B: "busies (ps(t := PIdle)) = busies ps - {unat pos}" using busies_upd [OF D(6), of t PIdle] pc by simp
  have "exclusive_claims (ps(t := PIdle))" by (intro exclusive_claims_upd [OF D(6)]) simp
  moreover note slots_publish [OF D(5) p i(2)]
  moreover have "prod_ok (it k q) (2 ^ k) (unat (m_enqueue_pos q)) (unat (m_dequeue_pos q) + freed c) cl
      ((ps(t := PIdle)) u)" for u using D(7) [of u] by simp
  moreover have "sq k q' d = sq k q d" if "freed c = 0" "d = unat (m_dequeue_pos q)" "sq k q d = Suc d" for d
  proof -
    have "d \<noteq> unat pos" using that(3) slots_okD(5) [OF D(5) p] by auto
    then have "d mod 2 ^ k \<noteq> unat pos mod 2 ^ k" using slots_window [OF D(5) p, of d] that(1,2) by simp
    then show ?thesis by (simp add: v)
  qed
  then have "cons_ok (sq k q') (unat (m_dequeue_pos q)) (unat (m_enqueue_pos q)) cl c"
    using D(8) by (cases c) auto
  ultimately show ?thesis using D(1-4) by (simp add: mpsc_ok_def v B)
qed

lemma mpsc_ok_ready:
  assumes ok: "mpsc_ok k q ps CIdle cl" and s: "seq_at k q (m_dequeue_pos q) = m_dequeue_pos q + 1"
  shows "mpsc_ok k q ps CReady cl"
proof -
  note D = mpsc_okD [OF ok]
  let ?d = "unat (m_dequeue_pos q)"
  have "unat (m_dequeue_pos q + 1) = Suc ?d" using D(4,9) by (intro unat_pos_1) simp
  then have S: "sq k q ?d = Suc ?d" using s seq_at_sq [OF D(2)] by metis
  have "?d < unat (m_enqueue_pos q)"
  proof (rule ccontr)
    assume "\<not> ?thesis"
    then have "sq k q ?d = ?d" using slots_okD(7) [OF D(5), of ?d] by simp
    with S show False by simp
  qed
  with S ok show ?thesis by (simp add: mpsc_ok_def)
qed

lemma mpsc_ok_read:
  assumes ok: "mpsc_ok k q ps CReady cl"
  shows "mpsc_ok k q ps (CRead (item_at k q (m_dequeue_pos q))) cl"
proof -
  note D = mpsc_okD [OF ok]
  let ?d = "unat (m_dequeue_pos q)"
  have d: "?d < unat (m_enqueue_pos q)" "sq k q ?d = Suc ?d" using D(8) by auto
  then have "?d \<notin> busies ps" using slots_okD(5) [OF D(5), of ?d] by auto
  then have "it k q ?d = cl ! ?d" using slots_okD(6) [OF D(5), of ?d] d(1) by simp
  with ok item_at_it [OF D(2)] show ?thesis by (simp add: mpsc_ok_def)
qed

lemma mpsc_ok_free:
  assumes ok: "mpsc_ok k q ps (CRead x) cl"
    and q': "set_sequence k (m_dequeue_pos q) (m_dequeue_pos q + Capacity k) q = Some q'"
  shows "mpsc_ok k q' ps (CFreed x) cl"
proof -
  note D = mpsc_okD [OF ok]
  let ?d = "unat (m_dequeue_pos q)"
  have d: "?d < unat (m_enqueue_pos q)" "sq k q ?d = Suc ?d" "x = cl ! ?d" using D(8) by auto
  have "unat (m_dequeue_pos q + Capacity k) = ?d + 2 ^ k" using D(2,4,9) by (intro unat_pos_cap) simp_all
  then have v: "length (m_slots q') = 2 ^ k" "m_enqueue_pos q' = m_enqueue_pos q" "m_dequeue_pos q' = m_dequeue_pos q"
    "it k q' = it k q" "sq k q' = (\<lambda>p. if p mod 2 ^ k = ?d mod 2 ^ k then ?d + 2 ^ k else sq k q p)"
    using set_sequence_views [OF D(2,3), of "m_dequeue_pos q" "m_dequeue_pos q + Capacity k"] q' by auto
  have "slots_ok (sq k q') (it k q) (2 ^ k) (unat (m_enqueue_pos q)) (Suc ?d) cl (busies ps)"
    using slots_free [of "sq k q" "it k q" "2 ^ k" "unat (m_enqueue_pos q)" ?d cl "busies ps"] D(5) d(1,2)
    by (simp add: v(5))
  moreover have "prod_ok (it k q) (2 ^ k) (unat (m_enqueue_pos q)) (Suc ?d) cl (ps t)" for t
    using D(7) [of t] by (cases "ps t") auto
  ultimately show ?thesis using D(1-4,6) d by (simp add: mpsc_ok_def v(1-4))
qed

lemma mpsc_ok_done:
  assumes ok: "mpsc_ok k q ps (CFreed x) cl"
  shows "mpsc_ok k (q\<lparr>m_dequeue_pos := m_dequeue_pos q + 1\<rparr>) ps CIdle cl"
    and "take (unat (m_dequeue_pos q + 1)) cl = take (unat (m_dequeue_pos q)) cl @ [x]"
proof -
  note D = mpsc_okD [OF ok]
  have u: "unat (m_dequeue_pos q + 1) = Suc (unat (m_dequeue_pos q))" using D(4,9) by (intro unat_pos_1) simp
  have v: "sq k (q\<lparr>m_dequeue_pos := m_dequeue_pos q + 1\<rparr>) = sq k q" "it k (q\<lparr>m_dequeue_pos := m_dequeue_pos q + 1\<rparr>) = it k q"
    by (simp_all add: sq_def it_def fun_eq_iff)
  show "mpsc_ok k (q\<lparr>m_dequeue_pos := m_dequeue_pos q + 1\<rparr>) ps CIdle cl"
    using ok by (simp add: mpsc_ok_def v u)
  show "take (unat (m_dequeue_pos q + 1)) cl = take (unat (m_dequeue_pos q)) cl @ [x]"
    using D(8) slots_okD(3) [OF D(5)] by (simp add: u take_Suc_conv_app_nth)
qed

lemma mpsc_inv_step:
  assumes inv: "mpsc_inv k s" and step: "mpsc_step k s s'"
  shows "mpsc_inv k s'"
proof -
  have ok: "mpsc_ok k (queue s) (prod s) (cons s) (claimed s)"
    and del: "delivered s = take (unat (m_dequeue_pos (queue s))) (claimed s)"
    using inv by (simp_all add: mpsc_inv_def)
  note D = mpsc_okD [OF ok]
  from step show ?thesis
  proof cases
    case (enq_load t x)
    then show ?thesis using mpsc_ok_prod [OF ok, of t] del by (simp add: mpsc_inv_def)
  next
    case (enq_full t pos x)
    then show ?thesis using mpsc_ok_prod [OF ok, of t] del by (simp add: mpsc_inv_def)
  next
    case (enq_check t pos x)
    then show ?thesis using mpsc_ok_check [OF ok] del by (simp add: mpsc_inv_def)
  next
    case (enq_cas_ok t pos x)
    then show ?thesis using mpsc_ok_claim [OF ok] del D(9) slots_okD(3) [OF D(5)] by (simp add: mpsc_inv_def)
  next
    case (enq_cas_fail t pos x)
    then show ?thesis using mpsc_ok_prod [OF ok, of t] del by (simp add: mpsc_inv_def)
  next
    case (enq_item t pos x q)
    then show ?thesis using mpsc_ok_item [OF ok] set_item_views [OF D(2,3), of pos x] del by (auto simp: mpsc_inv_def)
  next
    case (enq_publish t pos x q)
    then show ?thesis using mpsc_ok_publish [OF ok] set_sequence_views [OF D(2,3), of pos "pos + 1"] del
      by (auto simp: mpsc_inv_def)
  next
    case (deq_check pos)
    then show ?thesis using mpsc_ok_ready [of k "queue s" "prod s" "claimed s"] ok del by (simp add: mpsc_inv_def)
  next
    case deq_item
    then show ?thesis using mpsc_ok_read [of k "queue s" "prod s" "claimed s"] ok del by (simp add: mpsc_inv_def)
  next
    case (deq_free x pos q)
    then show ?thesis using mpsc_ok_free [of k "queue s" "prod s" x "claimed s"] ok del
        set_sequence_views [OF D(2,3), of pos "pos + Capacity k"] by (auto simp: mpsc_inv_def)
  next
    case (deq_done x)
    then show ?thesis using mpsc_ok_done [of k "queue s" "prod s" x "claimed s"] ok del by (simp add: mpsc_inv_def)
  qed
qed

lemma mpsc_ok_new:
  assumes "1 \<le> k" "k \<le> 32" "length raw = 2 ^ k"
  shows "mpsc_ok k (MpscGrayQueue raw) (\<lambda>_. PIdle) CIdle []"
proof -
  let ?q = "MpscGrayQueue raw"
  have k: "(2::nat) ^ k \<le> 2 ^ 32" using assms(2) by (intro power_increasing) simp_all
  have "sq k ?q p = p" if "p < 2 ^ k" for p
  proof -
    have "unat (w64 p) = p" using that k by (intro unat_w64) simp
    then show ?thesis using that assms(3) by (simp add: sq_def MpscGrayQueue_def nth_enumerate_eq)
  qed
  then have "slots_ok (sq k ?q) (it k ?q) (2 ^ k) 0 0 [] {}" by (intro slots_okI) simp_all
  moreover have "busies (\<lambda>_. PIdle) = {}" "exclusive_claims (\<lambda>_. PIdle)"
    by (simp_all add: busies_def exclusive_claims_def)
  ultimately show ?thesis using assms by (simp add: mpsc_ok_def MpscGrayQueue_def)
qed

interpretation mpsc: inductive_invariant "mpsc_init k" "mpsc_step k" "mpsc_inv k" for k
proof unfold_locales
  show "mpsc_inv k s" if "mpsc_init k s" for s
    using that by cases (simp add: mpsc_inv_def mpsc_ok_new)
qed (rule mpsc_inv_step)

section \<open>The interface of a bounded queue\<close>

text \<open>
  A bounded first-in first-out queue whose contents are a list: enqueueing appends while there is
  room, draining removes from the front. \<open>left\<close> bounds the enqueues the counters can still take.
\<close>

fun enqueue_all :: "('a \<Rightarrow> 's \<Rightarrow> (bool \<times> 's) option) \<Rightarrow> 'a list \<Rightarrow> 's \<Rightarrow> (bool list \<times> 's) option" where
  "enqueue_all enq [] s = Some ([], s)"
| "enqueue_all enq (x # xs) s =
     enq x s \<bind> (\<lambda>(b, s'). enqueue_all enq xs s' \<bind> (\<lambda>(bs, s''). Some (b # bs, s'')))"

locale bounded_fifo =
  fixes inv :: "'s \<Rightarrow> bool" and contents :: "'s \<Rightarrow> 'a list" and capacity :: nat and left :: "'s \<Rightarrow> nat"
    and enq :: "'a \<Rightarrow> 's \<Rightarrow> (bool \<times> 's) option" and drn :: "nat \<Rightarrow> 's \<Rightarrow> ('a list \<times> 's) option"
  assumes enq_full: "inv s \<Longrightarrow> length (contents s) = capacity \<Longrightarrow> enq x s = Some (False, s)"
    and enq_room: "inv s \<Longrightarrow> length (contents s) < capacity \<Longrightarrow> 0 < left s \<Longrightarrow>
      \<exists>s'. enq x s = Some (True, s') \<and> inv s' \<and> contents s' = contents s @ [x] \<and> left s' = left s - 1"
    and drain_law: "inv s \<Longrightarrow> \<exists>s'. drn n s = Some (take n (contents s), s') \<and> inv s' \<and>
      contents s' = drop n (contents s) \<and> left s' = left s"
begin

lemma enqueue_all_law:
  "inv s \<Longrightarrow> length (contents s) + length xs \<le> capacity \<Longrightarrow> length xs \<le> left s \<Longrightarrow>
   \<exists>s'. enqueue_all enq xs s = Some (replicate (length xs) True, s') \<and> inv s' \<and>
     contents s' = contents s @ xs \<and> left s' = left s - length xs"
proof (induction xs arbitrary: s)
  case (Cons x xs)
  then obtain s1 where s1: "enq x s = Some (True, s1)" "inv s1" "contents s1 = contents s @ [x]" "left s1 = left s - 1"
    using enq_room [of s x] by auto
  have "length xs \<le> left s1" using Cons.prems(3) s1(4) by simp
  with Cons.IH [of s1] Cons.prems s1 show ?case by auto
qed simp

lemma enqueue_drain:
  assumes "inv s" "length (contents s) + length xs \<le> capacity" "length xs \<le> left s"
  shows "\<exists>s' s''. enqueue_all enq xs s = Some (replicate (length xs) True, s') \<and>
    drn capacity s' = Some (contents s @ xs, s'') \<and> inv s'' \<and> contents s'' = []"
proof -
  obtain s' where s': "enqueue_all enq xs s = Some (replicate (length xs) True, s')" "inv s'" "contents s' = contents s @ xs"
    using enqueue_all_law [OF assms] by blast
  moreover obtain s'' where "drn capacity s' = Some (take capacity (contents s'), s'')" "inv s''"
      "contents s'' = drop capacity (contents s')"
    using drain_law [OF s'(2)] by blast
  ultimately show ?thesis using assms(2) by simp
qed

end

section \<open>Alone, the gray queue is a bounded queue\<close>

definition quiet :: "nat \<Rightarrow> mpsc \<Rightarrow> bool" where
  "quiet k q \<longleftrightarrow> (\<exists>cl. mpsc_ok k q (\<lambda>_. PIdle) CIdle cl)"

definition queued :: "nat \<Rightarrow> mpsc \<Rightarrow> addr list" where
  "queued k q = map (it k q) [unat (m_dequeue_pos q)..<unat (m_enqueue_pos q)]"

lemma busies_idle: "busies (\<lambda>_. PIdle) = {}"
  by (simp add: busies_def)

lemma queued_claimed:
  assumes "mpsc_ok k q (\<lambda>_. PIdle) CIdle cl"
  shows "queued k q = drop (unat (m_dequeue_pos q)) cl"
proof (rule nth_equalityI)
  note D = mpsc_okD [OF assms] and S = slots_okD [OF mpsc_okD(5) [OF assms]]
  show "length (queued k q) = length (drop (unat (m_dequeue_pos q)) cl)" using S(3) by (simp add: queued_def)
  fix i assume "i < length (queued k q)"
  then show "queued k q ! i = drop (unat (m_dequeue_pos q)) cl ! i"
    using S(3) S(6) [of "unat (m_dequeue_pos q) + i"] by (simp add: queued_def busies_idle)
qed

lemma quiet_seq:
  assumes ok: "mpsc_ok k q (\<lambda>_. PIdle) CIdle cl"
  shows "seq_at k q (m_dequeue_pos q) = m_dequeue_pos q + 1 \<longleftrightarrow> queued k q \<noteq> []"
    and "seq_at k q (m_enqueue_pos q) < m_enqueue_pos q \<longleftrightarrow> length (queued k q) = 2 ^ k"
    and "length (queued k q) \<le> 2 ^ k"
proof -
  note D = mpsc_okD [OF ok] and S = slots_okD [OF mpsc_okD(5) [OF ok]]
  let ?d = "unat (m_dequeue_pos q)" and ?e = "unat (m_enqueue_pos q)" and ?n = "(2::nat) ^ k"
  have n: "2 \<le> ?n" using D(1) self_le_power [of 2 k] by simp
  have len: "length (queued k q) = ?e - ?d" by (simp add: queued_def)
  then show "length (queued k q) \<le> ?n" using S(2) by simp
  have u: "unat (m_dequeue_pos q + 1) = Suc ?d" using D(4,9) by (intro unat_pos_1) simp
  have "seq_at k q (m_dequeue_pos q) = m_dequeue_pos q + 1 \<longleftrightarrow> sq k q ?d = Suc ?d"
    by (simp add: word_unat_eq_iff seq_at_sq [OF D(2)] u)
  also have "\<dots> \<longleftrightarrow> ?d < ?e"
    using S(6) [of ?d] S(7) [of ?d] D(9) n by (cases "?d < ?e") (auto simp: busies_idle)
  finally show "seq_at k q (m_dequeue_pos q) = m_dequeue_pos q + 1 \<longleftrightarrow> queued k q \<noteq> []"
    by (auto simp: queued_def)
  have "seq_at k q (m_enqueue_pos q) < m_enqueue_pos q \<longleftrightarrow> sq k q ?e < ?e"
    by (simp add: word_less_nat_alt seq_at_sq [OF D(2)])
  also have "\<dots> \<longleftrightarrow> ?e = ?d + ?n"
  proof (cases "?e = ?d + ?n")
    case True
    have "sq k q ?e = sq k q ?d" by (simp add: True sq_def)
    also have "\<dots> = Suc ?d" using S(6) [of ?d] True n by (simp add: busies_idle)
    finally show ?thesis using True n by simp
  next
    case False
    then show ?thesis using S(2) S(7) [of ?e] by simp
  qed
  finally show "seq_at k q (m_enqueue_pos q) < m_enqueue_pos q \<longleftrightarrow> length (queued k q) = ?n"
    using len D(9) by auto
qed

lemma idle_upd: "(\<lambda>_. PIdle)(t := PIdle) = (\<lambda>_. PIdle)"
  by auto

lemma rd_slot:
  assumes "k \<le> 32" "length (m_slots q) = 2 ^ k"
  shows "rd (m_slots q) (slot_ix k pos) = Some (m_slots q ! slot_ix k pos)"
  using assms by (intro rd_in) (simp add: slot_ix_mod)

lemma try_enqueue_full:
  assumes "mpsc_ok k q (\<lambda>_. PIdle) CIdle cl" "length (queued k q) = 2 ^ k"
  shows "try_enqueue k x q = Some (False, q)"
  using quiet_seq(2) [OF assms(1)] assms(2) rd_slot [OF mpsc_okD(2,3) [OF assms(1)]]
  by (simp add: try_enqueue_def seq_at_def Let_def)

text \<open>A call that runs alone is its steps in order, so the step lemmas give its effect.\<close>

lemma try_enqueue_room:
  assumes ok: "mpsc_ok k q (\<lambda>_. PIdle) CIdle cl" and room: "length (queued k q) < 2 ^ k"
    and b: "unat (m_enqueue_pos q) < 2 ^ 63"
  shows "\<exists>q'. try_enqueue k x q = Some (True, q') \<and> mpsc_ok k q' (\<lambda>_. PIdle) CIdle (cl @ [x]) \<and>
    m_dequeue_pos q' = m_dequeue_pos q \<and> unat (m_enqueue_pos q') = Suc (unat (m_enqueue_pos q))"
proof -
  let ?pos = "m_enqueue_pos q"
  note D = mpsc_okD [OF ok]
  have nf: "\<not> seq_at k q ?pos < ?pos" using quiet_seq(2) [OF ok] room by simp
  have "mpsc_ok k q ((\<lambda>_. PIdle)(0 := PLoaded ?pos x)) CIdle cl" using mpsc_ok_prod [OF ok, where t = 0 and p = "PLoaded ?pos x"] by simp
  from mpsc_ok_check [OF this, of 0 ?pos x] nf
  have "mpsc_ok k q ((\<lambda>_. PIdle)(0 := PChecked ?pos x)) CIdle cl" by simp
  from mpsc_ok_claim [OF this, of 0 ?pos x] b
  have c: "mpsc_ok k (q\<lparr>m_enqueue_pos := ?pos + 1\<rparr>) ((\<lambda>_. PIdle)(0 := PClaimed ?pos x)) CIdle (cl @ [x])" by simp
  note DC = mpsc_okD [OF c]
  obtain q1 where q1: "set_item k ?pos x (q\<lparr>m_enqueue_pos := ?pos + 1\<rparr>) = Some q1"
      "m_enqueue_pos q1 = ?pos + 1" "m_dequeue_pos q1 = m_dequeue_pos q"
    using set_item_views [OF DC(2,3), of ?pos x] by auto
  from mpsc_ok_item [OF c, of 0 ?pos x q1] q1(1)
  have i: "mpsc_ok k q1 ((\<lambda>_. PIdle)(0 := PStored ?pos x)) CIdle (cl @ [x])" by simp
  note DI = mpsc_okD [OF i]
  obtain q2 where q2: "set_sequence k ?pos (?pos + 1) q1 = Some q2"
      "m_enqueue_pos q2 = ?pos + 1" "m_dequeue_pos q2 = m_dequeue_pos q"
    using set_sequence_views [OF DI(2,3), of ?pos "?pos + 1"] q1 by auto
  from mpsc_ok_publish [OF i, of 0 ?pos x q2] q2(1)
  have "mpsc_ok k q2 (\<lambda>_. PIdle) CIdle (cl @ [x])" by (simp add: idle_upd)
  moreover have "try_enqueue k x q = Some (True, q2)"
    using rd_slot [OF D(2,3)] nf q1(1) q2(1) by (simp add: try_enqueue_def seq_at_def Let_def)
  moreover have "unat (?pos + 1) = Suc (unat ?pos)" using b by (intro unat_pos_1) simp
  ultimately show ?thesis using q2 by simp
qed

lemma take_one:
  assumes ok: "mpsc_ok k q (\<lambda>_. PIdle) CIdle cl" and ne: "queued k q \<noteq> []"
  shows "\<exists>q1. set_sequence k (m_dequeue_pos q) (m_dequeue_pos q + Capacity k) q = Some q1 \<and>
    mpsc_ok k (q1\<lparr>m_dequeue_pos := m_dequeue_pos q + 1\<rparr>) (\<lambda>_. PIdle) CIdle cl \<and>
    m_enqueue_pos q1 = m_enqueue_pos q \<and> unat (m_dequeue_pos q + 1) = Suc (unat (m_dequeue_pos q)) \<and>
    item (m_slots q ! slot_ix k (m_dequeue_pos q)) = hd (queued k q)"
proof -
  let ?pos = "m_dequeue_pos q"
  note D = mpsc_okD [OF ok]
  have "seq_at k q ?pos = ?pos + 1" using quiet_seq(1) [OF ok] ne by simp
  then have "mpsc_ok k q (\<lambda>_. PIdle) CReady cl" by (rule mpsc_ok_ready [OF ok])
  from mpsc_ok_read [OF this] have r: "mpsc_ok k q (\<lambda>_. PIdle) (CRead (item_at k q ?pos)) cl" .
  obtain q1 where q1: "set_sequence k ?pos (?pos + Capacity k) q = Some q1"
      "m_enqueue_pos q1 = m_enqueue_pos q" "m_dequeue_pos q1 = ?pos"
    using set_sequence_views [OF D(2,3), of ?pos "?pos + Capacity k"] by auto
  from mpsc_ok_done(1) [OF mpsc_ok_free [OF r q1(1)]]
  have "mpsc_ok k (q1\<lparr>m_dequeue_pos := ?pos + 1\<rparr>) (\<lambda>_. PIdle) CIdle cl" by (simp add: q1(3))
  moreover have "item (m_slots q ! slot_ix k ?pos) = hd (queued k q)"
    using ne item_at_it [OF D(2), of q ?pos] by (simp add: item_at_def queued_def hd_map)
  moreover have "unat (?pos + 1) = Suc (unat ?pos)" using D(4,9) by (intro unat_pos_1) simp
  ultimately show ?thesis using q1 by blast
qed

lemma drain_ok:
  "mpsc_ok k q (\<lambda>_. PIdle) CIdle cl \<Longrightarrow>
   \<exists>q'. drain k n q = Some (take n (queued k q), q') \<and> mpsc_ok k q' (\<lambda>_. PIdle) CIdle cl \<and>
     queued k q' = drop n (queued k q) \<and> m_enqueue_pos q' = m_enqueue_pos q"
proof (induction n arbitrary: q)
  case (Suc n)
  note ok = Suc.prems
  note D = mpsc_okD [OF ok] and sl = rd_slot [OF mpsc_okD(2,3) [OF ok]]
  show ?case
  proof (cases "queued k q = []")
    case True
    then show ?thesis using quiet_seq(1) [OF ok] ok sl by (auto simp: Let_def seq_at_def)
  next
    case False
    then obtain q1 where q1: "set_sequence k (m_dequeue_pos q) (m_dequeue_pos q + Capacity k) q = Some q1"
        "mpsc_ok k (q1\<lparr>m_dequeue_pos := m_dequeue_pos q + 1\<rparr>) (\<lambda>_. PIdle) CIdle cl"
        "m_enqueue_pos q1 = m_enqueue_pos q" "unat (m_dequeue_pos q + 1) = Suc (unat (m_dequeue_pos q))"
        "item (m_slots q ! slot_ix k (m_dequeue_pos q)) = hd (queued k q)"
      using take_one [OF ok] by blast
    let ?q = "q1\<lparr>m_dequeue_pos := m_dequeue_pos q + 1\<rparr>"
    have "queued k ?q = tl (queued k q)"
      using queued_claimed [OF ok] queued_claimed [OF q1(2)] q1(4) by (simp add: drop_Suc drop_tl)
    moreover have "seq_at k q (m_dequeue_pos q) = m_dequeue_pos q + 1" using quiet_seq(1) [OF ok] False by simp
    ultimately show ?thesis
      using Suc.IH [OF q1(2)] sl q1(1,3,5) False
      by (cases "queued k q") (auto simp: Let_def seq_at_def)
  qed
qed auto

interpretation gray: bounded_fifo "quiet k" "queued k" "2 ^ k" "\<lambda>q. 2 ^ 63 - unat (m_enqueue_pos q)"
  "try_enqueue k" "drain k" for k
proof (unfold_locales, goal_cases)
  case (1 q x)
  then show ?case by (auto simp: quiet_def try_enqueue_full)
next
  case (2 q x)
  then obtain cl where ok: "mpsc_ok k q (\<lambda>_. PIdle) CIdle cl" by (auto simp: quiet_def)
  then obtain q' where q': "try_enqueue k x q = Some (True, q')" "mpsc_ok k q' (\<lambda>_. PIdle) CIdle (cl @ [x])"
      "m_dequeue_pos q' = m_dequeue_pos q" "unat (m_enqueue_pos q') = Suc (unat (m_enqueue_pos q))"
    using try_enqueue_room [OF ok] 2 by auto
  have "unat (m_dequeue_pos q) \<le> length cl" using mpsc_okD(9) [OF ok] slots_okD(3) [OF mpsc_okD(5) [OF ok]] by simp
  then have "queued k q' = queued k q @ [x]" using queued_claimed [OF ok] queued_claimed [OF q'(2)] q'(3) by simp
  with q' show ?case by (auto simp: quiet_def)
next
  case (3 q n)
  then show ?case using drain_ok [of k q _ n] by (auto simp: quiet_def) metis
qed

section \<open>Properties\<close>

text \<open>C14: The gray queue is first-in first-out under every interleaving. However the atomic accesses of any
  number of producers and the consumer interleave (fewer than 2^63 enqueues), the items delivered so
  far are exactly the first ones in the order in which positions were claimed: none is lost, repeated,
  reordered or torn; and at most \<open>Capacity\<close> items are claimed and not yet given back by the consumer.\<close>

theorem mpsc_fifo:
  assumes "reach (mpsc_init k) (mpsc_step k) s"
  shows "delivered s = take (length (delivered s)) (claimed s) \<and>
    length (claimed s) \<le> length (delivered s) + freed (cons s) + 2 ^ k"
proof -
  have inv: "mpsc_inv k s" using assms by (rule mpsc.reach_inv)
  then have ok: "mpsc_ok k (queue s) (prod s) (cons s) (claimed s)"
    and d: "delivered s = take (unat (m_dequeue_pos (queue s))) (claimed s)" by (simp_all add: mpsc_inv_def)
  note D = mpsc_okD [OF ok] and S = slots_okD [OF mpsc_okD(5) [OF ok]]
  have "length (delivered s) = unat (m_dequeue_pos (queue s))" using d S(3) D(9) by simp
  then show ?thesis using d S(2,3) by simp
qed

text \<open>A run in which threads 0 and 1 claim both positions of a queue of two slots and thread 2 calls.\<close>

definition demo_raw :: "slot list" where
  "demo_raw = [\<lparr>sequence = 0, item = 0\<rparr>, \<lparr>sequence = 0, item = 0\<rparr>]"

definition demo_full :: mpsc_sys where
  "demo_full = \<lparr>queue = (MpscGrayQueue demo_raw)\<lparr>m_enqueue_pos := 2\<rparr>,
     prod = (\<lambda>_. PIdle)(0 := PClaimed 0 0x40, 1 := PClaimed 1 0x48, 2 := PLoaded 2 0x50), cons = CIdle,
     claimed = [0x40, 0x48], delivered = []\<rparr>"

lemma claim_steps:
  assumes "prod s t = PIdle" "m_enqueue_pos (queue s) = pos" "\<not> seq_at k (queue s) pos < pos" "unat pos < 2 ^ 63"
    and "reach (mpsc_init k) (mpsc_step k) s"
  shows "reach (mpsc_init k) (mpsc_step k) (s\<lparr>queue := (queue s)\<lparr>m_enqueue_pos := pos + 1\<rparr>,
    prod := (prod s)(t := PClaimed pos x), claimed := claimed s @ [x]\<rparr>)"
proof -
  let ?s1 = "s\<lparr>prod := (prod s)(t := PLoaded (m_enqueue_pos (queue s)) x)\<rparr>"
  let ?s2 = "?s1\<lparr>prod := (prod ?s1)(t := PChecked pos x)\<rparr>"
  let ?s3 = "?s2\<lparr>queue := (queue ?s2)\<lparr>m_enqueue_pos := pos + 1\<rparr>, prod := (prod ?s2)(t := PClaimed pos x),
    claimed := claimed ?s2 @ [x]\<rparr>"
  have "mpsc_step k s ?s1" using assms(1) by (rule enq_load)
  moreover have "mpsc_step k ?s1 ?s2" using assms(2,3) by (intro enq_check) simp_all
  moreover have "mpsc_step k ?s2 ?s3" using assms(2,4) by (intro enq_cas_ok) simp_all
  ultimately have "reach (mpsc_init k) (mpsc_step k) ?s3" using assms(5) by (meson reach_step)
  then show ?thesis by simp
qed

lemma demo_full_reach: "reach (mpsc_init 1) (mpsc_step 1) demo_full"
proof -
  let ?s0 = "\<lparr>queue = MpscGrayQueue demo_raw, prod = \<lambda>_. PIdle, cons = CIdle, claimed = [], delivered = []\<rparr>"
  let ?s1 = "?s0\<lparr>queue := (queue ?s0)\<lparr>m_enqueue_pos := 0 + 1\<rparr>, prod := (prod ?s0)(0 := PClaimed 0 0x40),
    claimed := claimed ?s0 @ [0x40]\<rparr>"
  let ?s2 = "?s1\<lparr>queue := (queue ?s1)\<lparr>m_enqueue_pos := 1 + 1\<rparr>, prod := (prod ?s1)(1 := PClaimed 1 0x48),
    claimed := claimed ?s1 @ [0x48]\<rparr>"
  have "length demo_raw = 2 ^ 1" by (simp add: demo_raw_def)
  then have "reach (mpsc_init 1) (mpsc_step 1) ?s0" by (intro reach_init mpsc_init.intros) simp_all
  then have "reach (mpsc_init 1) (mpsc_step 1) ?s1"
    by (intro claim_steps) (simp_all add: MpscGrayQueue_def)
  then have "reach (mpsc_init 1) (mpsc_step 1) ?s2"
  proof (rule claim_steps [rotated 4])
    show "\<not> seq_at 1 (queue ?s1) 1 < 1" by code_simp
  qed (simp_all add: MpscGrayQueue_def)
  moreover have "mpsc_step 1 ?s2 (?s2\<lparr>prod := (prod ?s2)(2 := PLoaded (m_enqueue_pos (queue ?s2)) 0x50)\<rparr>)"
    by (rule enq_load) simp
  ultimately have "reach (mpsc_init 1) (mpsc_step 1)
      (?s2\<lparr>prod := (prod ?s2)(2 := PLoaded (m_enqueue_pos (queue ?s2)) 0x50)\<rparr>)" by (rule reach_step)
  then show ?thesis by (simp add: demo_full_def)
qed

theorem mpsc_fifo_witness:
  "delivered demo_full = take (length (delivered demo_full)) (claimed demo_full) \<and>
   length (claimed demo_full) \<le> length (delivered demo_full) + freed (cons demo_full) + 2 ^ 1"
  by (rule mpsc_fifo [OF demo_full_reach])

text \<open>C32: The gray queue reports full only when it is. In every reachable state, a producer that is about to
  return false (it reads a sequence number below the position it loaded) sees a queue in which all
  slots hold items whose positions were claimed and not yet given back by the consumer.\<close>

theorem mpsc_full_exact:
  assumes "reach (mpsc_init k) (mpsc_step k) s" and "prod s t = PLoaded pos x"
    and "seq_at k (queue s) pos < pos"
  shows "length (claimed s) = length (delivered s) + freed (cons s) + 2 ^ k"
proof -
  let ?q = "queue s" and ?n = "(2::nat) ^ k"
  have inv: "mpsc_inv k s" using assms(1) by (rule mpsc.reach_inv)
  then have ok: "mpsc_ok k ?q (prod s) (cons s) (claimed s)"
    and d: "delivered s = take (unat (m_dequeue_pos ?q)) (claimed s)" by (simp_all add: mpsc_inv_def)
  note D = mpsc_okD [OF ok] and S = slots_okD [OF mpsc_okD(5) [OF ok]]
  let ?E = "unat (m_enqueue_pos ?q)" and ?F = "unat (m_dequeue_pos ?q) + freed (cons s)"
  have len: "length (delivered s) = unat (m_dequeue_pos ?q)" using d S(3) D(9) by simp
  have le: "unat pos \<le> ?E" using D(7) [of t] assms(2) by simp
  have lt: "sq k ?q (unat pos) < unat pos" using assms(3) seq_at_sq [OF D(2)] by (simp add: word_less_nat_alt)
  have win: "r \<le> sq k ?q r" if "?F \<le> r" "r < ?F + ?n" for r
    using S(5) [of r] S(6) [of r] S(7) [of r] that by (cases "r \<in> busies (prod s)"; cases "r < ?E") auto
  have "\<not> unat pos < ?F + ?n"
  proof
    assume b: "unat pos < ?F + ?n"
    then obtain r where "unat pos \<le> r" "?F \<le> r" "r < ?F + ?n" "r mod ?n = unat pos mod ?n"
      using window_rep [of ?n "unat pos" ?F] by auto
    then have "unat pos \<le> sq k ?q (unat pos)" using win [of r] by (simp add: sq_def)
    with lt show False by simp
  qed
  then show ?thesis using le S(2,3) len by simp
qed

theorem mpsc_full_exact_witness:
  "length (claimed demo_full) = length (delivered demo_full) + freed (cons demo_full) + 2 ^ 1"
proof (rule mpsc_full_exact [OF demo_full_reach])
  show "prod demo_full 2 = PLoaded 2 0x50" by (simp add: demo_full_def)
  show "seq_at 1 (queue demo_full) 2 < 2" by code_simp
qed

text \<open>Alone, the gray queue is a bounded first-in first-out queue: enqueueing as many items as there is
  room for succeeds for each of them, and draining then returns what was in the queue followed by
  these items in their order and leaves it empty.\<close>

lemma mpsc_enqueue_drain:
  assumes "quiet k q" and "length (queued k q) + length xs \<le> 2 ^ k"
    and "unat (m_enqueue_pos q) + length xs \<le> 2 ^ 63"
  shows "\<exists>q' q''. enqueue_all (try_enqueue k) xs q = Some (replicate (length xs) True, q') \<and>
    drain k (2 ^ k) q' = Some (queued k q @ xs, q'') \<and> quiet k q'' \<and> queued k q'' = []"
  using gray.enqueue_drain [OF assms(1,2)] assms(3) by simp

text \<open>The static assertion of the queue admits a capacity of one, but with it the queue does not detect
  that it is full: a second enqueue reports success and overwrites the first item.\<close>

theorem mpsc_capacity_one_overwrites:
  "map_option fst (enqueue_all (try_enqueue 0) [0x40, 0x48] (MpscGrayQueue [\<lparr>sequence = 0, item = 0\<rparr>])) =
     Some [True, True] \<and>
   map_option (map item \<circ> m_slots \<circ> snd)
     (enqueue_all (try_enqueue 0) [0x40, 0x48] (MpscGrayQueue [\<lparr>sequence = 0, item = 0\<rparr>])) = Some [0x48]"
  by code_simp

end
