(* ===== verification/Woomem_Locks.thy ===== *)
theory Woomem_Locks
  imports Woomem_Prelude
begin

text \<open>
  \<^verbatim>\<open>Spinlock\<close> of \<^verbatim>\<open>src/woomem_lock.hpp\<close> and \<^verbatim>\<open>ReadWriteSpinlock\<close> of \<^verbatim>\<open>src/woomem_rwlock.hpp\<close> as
  state machines: one step per atomic access, any number of threads (fewer than \<open>2^31\<close> for the
  reader count), sequentially consistent interleaving. They justify treating each guarded operation
  of the other theories as one step.
\<close>

section \<open>The interface of a lock\<close>

text \<open>
  A lock protocol: its invariant, who holds it exclusively and who holds it at all. A client that
  holds it exclusively excludes every other holder in every reachable state.
\<close>

locale lock_protocol = inductive_invariant init step inv
  for init :: "'s \<Rightarrow> bool" and step :: "'s \<Rightarrow> 's \<Rightarrow> bool" and inv :: "'s \<Rightarrow> bool" +
  fixes exclusive :: "'s \<Rightarrow> nat \<Rightarrow> bool" and holds :: "'s \<Rightarrow> nat \<Rightarrow> bool"
  assumes inv_excludes: "inv s \<Longrightarrow> exclusive s t \<Longrightarrow> holds s u \<Longrightarrow> t = u"
begin

lemma reach_excludes: "reach init step s \<Longrightarrow> exclusive s t \<Longrightarrow> holds s u \<Longrightarrow> t = u"
  by (blast intro: inv_excludes reach_inv)

end

section \<open>Spinlock\<close>

datatype spin_pc = SIdle | STrying | SHolding

record spinlock =
  flag :: bool
  spin_pc :: "nat \<Rightarrow> spin_pc"

definition test_and_set :: "bool \<Rightarrow> bool \<times> bool" where
  "test_and_set f = (f, True)"

text \<open>
  \<open>lock\<close> loops on \<open>test_and_set\<close> until it returns false; \<open>try_lock\<close> tries once; \<open>unlock\<close> clears.
\<close>

inductive spin_step :: "spinlock \<Rightarrow> spinlock \<Rightarrow> bool" where
  spin_call: "spin_pc s t = SIdle \<Longrightarrow> spin_step s (s\<lparr>spin_pc := (spin_pc s)(t := STrying)\<rparr>)"
| spin_lock: "spin_pc s t = STrying \<Longrightarrow> test_and_set (flag s) = (old, f) \<Longrightarrow>
     spin_step s (s\<lparr>flag := f, spin_pc := (spin_pc s)(t := if old then STrying else SHolding)\<rparr>)"
| spin_try_lock: "spin_pc s t = SIdle \<Longrightarrow> test_and_set (flag s) = (old, f) \<Longrightarrow>
     spin_step s (s\<lparr>flag := f, spin_pc := (spin_pc s)(t := if old then SIdle else SHolding)\<rparr>)"
| spin_unlock: "spin_pc s t = SHolding \<Longrightarrow>
     spin_step s (s\<lparr>flag := False, spin_pc := (spin_pc s)(t := SIdle)\<rparr>)"

definition spin_init :: "spinlock \<Rightarrow> bool" where
  "spin_init s \<longleftrightarrow> \<not> flag s \<and> spin_pc s = (\<lambda>_. SIdle)"

definition spin_inv :: "spinlock \<Rightarrow> bool" where
  "spin_inv s \<longleftrightarrow>
     (if flag s then \<exists>h. \<forall>t. spin_pc s t = SHolding \<longleftrightarrow> t = h else \<forall>t. spin_pc s t \<noteq> SHolding)"

lemma spin_inv_other:
  assumes "spin_inv s" "spin_pc s t \<noteq> SHolding" "p \<noteq> SHolding"
  shows "spin_inv (s\<lparr>flag := flag s, spin_pc := (spin_pc s)(t := p)\<rparr>)"
proof -
  have "((spin_pc s)(t := p)) u = SHolding \<longleftrightarrow> spin_pc s u = SHolding" for u using assms(2,3) by simp
  then show ?thesis using assms(1) by (simp add: spin_inv_def)
qed

lemma spin_inv_acquire:
  assumes "spin_inv s" "\<not> flag s"
  shows "spin_inv (s\<lparr>flag := True, spin_pc := (spin_pc s)(t := SHolding)\<rparr>)"
  using assms by (auto simp: spin_inv_def intro!: exI [of _ t])

lemma spin_inv_step:
  assumes "spin_inv s" "spin_step s s'"
  shows "spin_inv s'"
  using assms(2)
proof cases
  case (spin_call t)
  then show ?thesis using spin_inv_other [OF assms(1), of t STrying] by simp
next
  case (spin_lock t old f)
  then show ?thesis
    using spin_inv_other [OF assms(1), of t STrying] spin_inv_acquire [OF assms(1), of t]
    by (cases "flag s") (simp_all add: test_and_set_def)
next
  case (spin_try_lock t old f)
  then show ?thesis
    using spin_inv_other [OF assms(1), of t SIdle] spin_inv_acquire [OF assms(1), of t]
    by (cases "flag s") (simp_all add: test_and_set_def)
next
  case (spin_unlock t)
  then show ?thesis using assms(1) unfolding spin_inv_def by (auto split: if_splits)
qed

interpretation spin: lock_protocol spin_init spin_step spin_inv
  "\<lambda>s t. spin_pc s t = SHolding" "\<lambda>s t. spin_pc s t = SHolding"
proof unfold_locales
  show "spin_init s \<Longrightarrow> spin_inv s" for s by (simp add: spin_init_def spin_inv_def)
  show "spin_inv s \<Longrightarrow> spin_step s t \<Longrightarrow> spin_inv t" for s t by (rule spin_inv_step)
  show "spin_inv s \<Longrightarrow> spin_pc s t = SHolding \<Longrightarrow> spin_pc s u = SHolding \<Longrightarrow> t = u" for s t u
    by (auto simp: spin_inv_def split: if_splits)
qed

section \<open>Read-write lock\<close>

definition WRITE_LOCKED :: u32 where
  "WRITE_LOCKED = push_bit 31 1"

definition READERS_MASK :: u32 where
  "READERS_MASK = NOT WRITE_LOCKED"

definition READER_ONE :: u32 where
  "READER_ONE = 1"

text \<open>
  What a thread is doing: \<open>RTrying s\<close> and \<open>WTrying s\<close> are inside \<open>lock_read\<close> and \<open>lock_write\<close> with the
  local variable \<open>state = s\<close>.
\<close>

datatype rw_pc = RwIdle | RTrying u32 | Reading | WTrying u32 | Writing

record rwlock =
  rw_state :: u32
  rw_pc :: "nat \<Rightarrow> rw_pc"

text \<open>The steps of threads \<open>t < n\<close>; a weak compare-and-swap may fail even when the value is expected.\<close>

inductive rw_step :: "nat \<Rightarrow> rwlock \<Rightarrow> rwlock \<Rightarrow> bool" for n :: nat where
  r_load: "t < n \<Longrightarrow> rw_pc s t = RwIdle \<Longrightarrow> rw_step n s (s\<lparr>rw_pc := (rw_pc s)(t := RTrying (rw_state s))\<rparr>)"
| r_spin: "rw_pc s t = RTrying st \<Longrightarrow> st AND WRITE_LOCKED \<noteq> 0 \<Longrightarrow>
     rw_step n s (s\<lparr>rw_pc := (rw_pc s)(t := RTrying (rw_state s))\<rparr>)"
| r_cas_ok: "rw_pc s t = RTrying st \<Longrightarrow> st AND WRITE_LOCKED = 0 \<Longrightarrow> rw_state s = st \<Longrightarrow>
     rw_step n s (s\<lparr>rw_state := (st AND NOT WRITE_LOCKED) + READER_ONE, rw_pc := (rw_pc s)(t := Reading)\<rparr>)"
| r_cas_fail: "rw_pc s t = RTrying st \<Longrightarrow> st AND WRITE_LOCKED = 0 \<Longrightarrow>
     rw_step n s (s\<lparr>rw_pc := (rw_pc s)(t := RTrying (rw_state s))\<rparr>)"
| r_unlock: "rw_pc s t = Reading \<Longrightarrow>
     rw_step n s (s\<lparr>rw_state := rw_state s - READER_ONE, rw_pc := (rw_pc s)(t := RwIdle)\<rparr>)"
| w_load: "t < n \<Longrightarrow> rw_pc s t = RwIdle \<Longrightarrow> rw_step n s (s\<lparr>rw_pc := (rw_pc s)(t := WTrying (rw_state s))\<rparr>)"
| w_spin: "rw_pc s t = WTrying st \<Longrightarrow> st AND (WRITE_LOCKED OR READERS_MASK) \<noteq> 0 \<Longrightarrow>
     rw_step n s (s\<lparr>rw_pc := (rw_pc s)(t := WTrying (rw_state s))\<rparr>)"
| w_cas_ok: "rw_pc s t = WTrying st \<Longrightarrow> st AND (WRITE_LOCKED OR READERS_MASK) = 0 \<Longrightarrow> rw_state s = st \<Longrightarrow>
     rw_step n s (s\<lparr>rw_state := st OR WRITE_LOCKED, rw_pc := (rw_pc s)(t := Writing)\<rparr>)"
| w_cas_fail: "rw_pc s t = WTrying st \<Longrightarrow> st AND (WRITE_LOCKED OR READERS_MASK) = 0 \<Longrightarrow>
     rw_step n s (s\<lparr>rw_pc := (rw_pc s)(t := WTrying (rw_state s))\<rparr>)"
| w_unlock: "rw_pc s t = Writing \<Longrightarrow>
     rw_step n s (s\<lparr>rw_state := rw_state s AND NOT WRITE_LOCKED, rw_pc := (rw_pc s)(t := RwIdle)\<rparr>)"

definition rw_init :: "rwlock \<Rightarrow> bool" where
  "rw_init s \<longleftrightarrow> rw_state s = 0 \<and> rw_pc s = (\<lambda>_. RwIdle)"

definition readers :: "rwlock \<Rightarrow> nat set" where
  "readers s = {t. rw_pc s t = Reading}"

definition writers :: "rwlock \<Rightarrow> nat set" where
  "writers s = {t. rw_pc s t = Writing}"

text \<open>
  The invariant: only the \<open>n\<close> threads take part, and the state word is the flag alone while there is
  a writer, which is then the only holder, and the number of readers otherwise.
\<close>

definition rw_inv :: "nat \<Rightarrow> rwlock \<Rightarrow> bool" where
  "rw_inv n s \<longleftrightarrow> n < 2 ^ 31 \<and> (\<forall>t. n \<le> t \<longrightarrow> rw_pc s t = RwIdle) \<and>
     (if writers s = {} then rw_state s = w32 (card (readers s))
      else rw_state s = WRITE_LOCKED \<and> readers s = {} \<and> card (writers s) = 1)"

lemma mask_all: "WRITE_LOCKED OR READERS_MASK = - 1"
  by (simp add: WRITE_LOCKED_def READERS_MASK_def)

lemma locked_and: "WRITE_LOCKED AND WRITE_LOCKED \<noteq> 0" "WRITE_LOCKED \<noteq> 0" "WRITE_LOCKED AND NOT WRITE_LOCKED = 0"
  by (simp_all add: WRITE_LOCKED_def)

text \<open>A small reader count does not touch the flag bit.\<close>

lemma count_and:
  assumes "k < 2 ^ 31"
  shows "w32 k AND WRITE_LOCKED = 0" "w32 k AND NOT WRITE_LOCKED = w32 k"
proof -
  have "bit (w32 k) 31 \<longleftrightarrow> bit (unat (w32 k)) 31" by (simp add: bit_unsigned_iff)
  also have "\<dots> \<longleftrightarrow> odd (k div 2 ^ 31)" using assms by (simp add: unat_w32_31 bit_iff_odd)
  finally have b: "\<not> bit (w32 k) 31" using assms by simp
  have w: "WRITE_LOCKED = 2 ^ 31" by (simp add: WRITE_LOCKED_def push_bit_eq_mult)
  show z: "w32 k AND WRITE_LOCKED = 0" unfolding w using b by (metis and_exp_eq_0_iff_not_bit)
  have "w32 k = w32 k AND (WRITE_LOCKED OR NOT WRITE_LOCKED)" by simp
  also have "\<dots> = (w32 k AND WRITE_LOCKED) OR (w32 k AND NOT WRITE_LOCKED)" by (rule bit.conj_disj_distrib)
  finally show "w32 k AND NOT WRITE_LOCKED = w32 k" using z by simp
qed

lemma holders_upd:
  "readers (s\<lparr>rw_state := v, rw_pc := (rw_pc s)(t := p)\<rparr>) =
     (if p = Reading then insert t (readers s) else readers s - {t})"
  "writers (s\<lparr>rw_state := v, rw_pc := (rw_pc s)(t := p)\<rparr>) =
     (if p = Writing then insert t (writers s) else writers s - {t})"
  "readers (s\<lparr>rw_pc := (rw_pc s)(t := p)\<rparr>) = (if p = Reading then insert t (readers s) else readers s - {t})"
  "writers (s\<lparr>rw_pc := (rw_pc s)(t := p)\<rparr>) = (if p = Writing then insert t (writers s) else writers s - {t})"
  by (auto simp: readers_def writers_def)

lemma rw_inv_facts:
  assumes "rw_inv n s"
  shows "readers s \<subseteq> {..<n}" "finite (readers s)" "card (readers s) \<le> n" "n < 2 ^ 31"
    "finite (writers s)" "rw_pc s t \<noteq> RwIdle \<Longrightarrow> t < n"
proof -
  have n: "rw_pc s t \<noteq> RwIdle \<Longrightarrow> t < n" for t using assms by (auto simp: rw_inv_def not_le [symmetric])
  then show "rw_pc s t \<noteq> RwIdle \<Longrightarrow> t < n" by blast
  show r: "readers s \<subseteq> {..<n}" using n by (fastforce simp: readers_def)
  then show "finite (readers s)" by (rule finite_subset) simp
  show "card (readers s) \<le> n" using card_mono [OF _ r] by simp
  have "writers s \<subseteq> {..<n}" using n by (fastforce simp: writers_def)
  then show "finite (writers s)" by (rule finite_subset) simp
  show "n < 2 ^ 31" using assms by (simp add: rw_inv_def)
qed

text \<open>The state word tells who holds the lock.\<close>

lemma rw_state_locked:
  assumes "rw_inv n s"
  shows "rw_state s AND WRITE_LOCKED = 0 \<longleftrightarrow> writers s = {}"
    and "rw_state s = 0 \<longleftrightarrow> writers s = {} \<and> readers s = {}"
proof -
  note F = rw_inv_facts [OF assms]
  have c: "card (readers s) < 2 ^ 31" using F(3,4) by simp
  show "rw_state s AND WRITE_LOCKED = 0 \<longleftrightarrow> writers s = {}"
  proof (cases "writers s = {}")
    case True
    then have "rw_state s = w32 (card (readers s))" using assms by (simp add: rw_inv_def)
    with True count_and(1) [OF c] show ?thesis by metis
  next
    case False
    then have "rw_state s = WRITE_LOCKED" using assms by (simp add: rw_inv_def)
    with False locked_and(1) show ?thesis by metis
  qed
  show "rw_state s = 0 \<longleftrightarrow> writers s = {} \<and> readers s = {}"
  proof (cases "writers s = {}")
    case True
    then have "rw_state s = w32 (card (readers s))" using assms by (simp add: rw_inv_def)
    then have "unat (rw_state s) = card (readers s)" using unat_w32_31 [OF c] by metis
    then have "rw_state s = 0 \<longleftrightarrow> card (readers s) = 0" by (metis unat_eq_zero)
    with True F(2) show ?thesis by simp
  next
    case False
    then have "rw_state s = WRITE_LOCKED" using assms by (simp add: rw_inv_def)
    with False locked_and(2) show ?thesis by metis
  qed
qed

lemma rw_inv_retry:
  assumes "rw_inv n s" "t < n" "rw_pc s t \<noteq> Reading" "rw_pc s t \<noteq> Writing" "p \<noteq> Reading" "p \<noteq> Writing"
  shows "rw_inv n (s\<lparr>rw_pc := (rw_pc s)(t := p)\<rparr>)"
proof -
  have "t \<notin> readers s" "t \<notin> writers s" using assms(3,4) by (auto simp: readers_def writers_def)
  then show ?thesis using assms(1,2,5,6) by (simp add: rw_inv_def holders_upd)
qed

lemma rw_inv_step:
  assumes inv: "rw_inv n s" and step: "rw_step n s s'"
  shows "rw_inv n s'"
proof -
  note F = rw_inv_facts [OF inv]
  have idle: "rw_inv n (s\<lparr>rw_state := v, rw_pc := (rw_pc s)(t := p)\<rparr>) \<longleftrightarrow>
      (let R = (if p = Reading then insert t (readers s) else readers s - {t});
           W = (if p = Writing then insert t (writers s) else writers s - {t})
       in if W = {} then v = w32 (card R) else v = WRITE_LOCKED \<and> R = {} \<and> card W = 1)"
    if "t < n" for t p v
    using inv that by (simp add: rw_inv_def holders_upd Let_def)
  from step show ?thesis
  proof cases
    case (r_cas_ok t st)
    have t: "t < n" "t \<notin> readers s" "t \<notin> writers s"
      using F(6) [of t] r_cas_ok(2) by (auto simp: readers_def writers_def)
    have w: "writers s = {}" using rw_state_locked(1) [OF inv] r_cas_ok(3,4) by simp
    have st: "st = w32 (card (readers s))" using inv w r_cas_ok(4) by (simp add: rw_inv_def)
    have "card (readers s) < 2 ^ 31" using F(3,4) by simp
    from count_and(2) [OF this] show ?thesis
      unfolding r_cas_ok(1) idle [OF t(1)] using t w F(2) by (simp add: st READER_ONE_def add.commute)
  next
    case (r_unlock t)
    have t: "t < n" "t \<in> readers s" using F(6) [of t] r_unlock(2) by (auto simp: readers_def)
    then have w: "writers s = {}" using inv by (auto simp: rw_inv_def split: if_splits)
    have "0 < card (readers s)" using t(2) F(2) by (auto simp: card_gt_0_iff)
    then have "w32 (card (readers s)) - 1 = w32 (card (readers s) - 1)" by (simp add: of_nat_diff)
    then show ?thesis
      unfolding r_unlock(1) idle [OF t(1)] using t w F(2) inv
      by (simp add: rw_inv_def READER_ONE_def card_Diff_singleton)
  next
    case (w_cas_ok t st)
    have t: "t < n" "t \<notin> readers s" "t \<notin> writers s"
      using F(6) [of t] w_cas_ok(2) by (auto simp: readers_def writers_def)
    have "rw_state s = 0" using w_cas_ok(3,4) by (simp add: mask_all)
    then have e: "readers s = {}" "writers s = {}" "st = 0"
      using rw_state_locked(2) [OF inv] w_cas_ok(4) by auto
    then show ?thesis unfolding w_cas_ok(1) idle [OF t(1)] by (simp add: Let_def)
  next
    case (w_unlock t)
    have t: "t < n" "t \<in> writers s" using F(6) [of t] w_unlock(2) by (auto simp: writers_def)
    then have w: "rw_state s = WRITE_LOCKED" "readers s = {}" "card (writers s) = 1"
      using inv by (auto simp: rw_inv_def split: if_splits)
    then have "writers s = {t}" using t(2) by (auto simp: card_1_singleton_iff)
    then show ?thesis unfolding w_unlock(1) idle [OF t(1)] using w by (simp add: Let_def locked_and)
  qed (use inv F(6) in \<open>auto intro!: rw_inv_retry\<close>)
qed

interpretation rw: lock_protocol "\<lambda>s. n < 2 ^ 31 \<and> rw_init s" "rw_step n" "rw_inv n"
  "\<lambda>s t. rw_pc s t = Writing" "\<lambda>s t. rw_pc s t = Writing \<or> rw_pc s t = Reading" for n
proof unfold_locales
  show "rw_inv n s" if "n < 2 ^ 31 \<and> rw_init s" for s
    using that by (simp add: rw_init_def rw_inv_def readers_def writers_def)
  show "rw_inv n s \<Longrightarrow> rw_step n s t \<Longrightarrow> rw_inv n t" for s t by (rule rw_inv_step)
  fix s t u
  assume inv: "rw_inv n s" and t: "rw_pc s t = Writing" and u: "rw_pc s u = Writing \<or> rw_pc s u = Reading"
  have "t \<in> writers s" using t by (simp add: writers_def)
  then have "readers s = {}" "card (writers s) = 1" using inv by (auto simp: rw_inv_def split: if_splits)
  moreover from this(2) \<open>t \<in> writers s\<close> have "writers s = {t}" by (auto simp: card_1_singleton_iff)
  ultimately show "t = u" using u by (auto simp: readers_def writers_def)
qed

section \<open>Properties\<close>

text \<open>C26: The read-write lock excludes. With fewer than 2^31 threads, in every interleaving: a writer excludes
  every other reader and writer, and while there is no writer the state word is exactly the number of
  readers, so that count never runs into the writer flag.\<close>

theorem rwlock_exclusion:
  assumes "n < 2 ^ 31" and "reach (\<lambda>s. n < 2 ^ 31 \<and> rw_init s) (rw_step n) s"
  shows "(\<forall>t u. rw_pc s t = Writing \<and> (rw_pc s u = Writing \<or> rw_pc s u = Reading) \<longrightarrow> t = u) \<and>
    ((\<forall>t. rw_pc s t \<noteq> Writing) \<longrightarrow> unat (rw_state s) = card {t. rw_pc s t = Reading})"
proof (intro conjI impI)
  have inv: "rw_inv n s" using assms(2) by (rule rw.reach_inv)
  show "\<forall>t u. rw_pc s t = Writing \<and> (rw_pc s u = Writing \<or> rw_pc s u = Reading) \<longrightarrow> t = u"
    using rw.reach_excludes [OF assms(2)] by blast
  assume "\<forall>t. rw_pc s t \<noteq> Writing"
  then have "rw_state s = w32 (card (readers s))" using inv by (simp add: rw_inv_def writers_def)
  moreover have "card (readers s) < 2 ^ 31" using rw_inv_facts(3,4) [OF inv] by simp
  ultimately show "unat (rw_state s) = card {t. rw_pc s t = Reading}"
    using unat_w32_31 by (simp add: readers_def)
qed

text \<open>A lock on which thread 0 is reading and thread 1 is inside \<open>lock_write\<close>.\<close>

definition demo_rw :: rwlock where
  "demo_rw = \<lparr>rw_state = 1, rw_pc = (\<lambda>_. RwIdle)(0 := Reading, 1 := WTrying 1)\<rparr>"

lemma demo_rw_reach: "reach (\<lambda>s. (2::nat) < 2 ^ 31 \<and> rw_init s) (rw_step 2) demo_rw"
proof -
  let ?s0 = "\<lparr>rw_state = 0, rw_pc = \<lambda>_. RwIdle\<rparr>"
  let ?s1 = "?s0\<lparr>rw_pc := (rw_pc ?s0)(0 := RTrying (rw_state ?s0))\<rparr>"
  let ?s2 = "?s1\<lparr>rw_state := (0 AND NOT WRITE_LOCKED) + READER_ONE, rw_pc := (rw_pc ?s1)(0 := Reading)\<rparr>"
  have "reach (\<lambda>s. (2::nat) < 2 ^ 31 \<and> rw_init s) (rw_step 2) ?s0" by (rule reach_init) (simp add: rw_init_def)
  moreover have "rw_step 2 ?s0 ?s1" by (rule r_load) simp_all
  moreover have "rw_step 2 ?s1 ?s2" by (rule r_cas_ok) simp_all
  moreover have "rw_step 2 ?s2 (?s2\<lparr>rw_pc := (rw_pc ?s2)(1 := WTrying (rw_state ?s2))\<rparr>)" by (rule w_load) simp_all
  moreover have "?s2\<lparr>rw_pc := (rw_pc ?s2)(1 := WTrying (rw_state ?s2))\<rparr> = demo_rw"
    by (simp add: demo_rw_def READER_ONE_def)
  ultimately show ?thesis by (metis (no_types, lifting) reach_step)
qed

theorem rwlock_exclusion_witness: "unat (rw_state demo_rw) = card {t. rw_pc demo_rw t = Reading}"
proof -
  have "(2::nat) < 2 ^ 31" by simp
  moreover have "\<forall>t. rw_pc demo_rw t \<noteq> Writing" by (simp add: demo_rw_def)
  ultimately show ?thesis using rwlock_exclusion [OF _ demo_rw_reach] by blast
qed

text \<open>The read-write lock makes progress. In every reachable state in which nobody holds the lock, a
  thread inside \<open>lock_read\<close> or \<open>lock_write\<close> acquires it with two steps of its own, so an abandoned
  flag or reader count never blocks it.\<close>

lemma rwlock_progress:
  assumes "reach (\<lambda>s. n < 2 ^ 31 \<and> rw_init s) (rw_step n) s"
    and "\<forall>u. rw_pc s u \<noteq> Reading \<and> rw_pc s u \<noteq> Writing"
  shows "(\<forall>st. rw_pc s t = RTrying st \<longrightarrow>
      (\<exists>s1 s2. rw_step n s s1 \<and> rw_step n s1 s2 \<and> rw_pc s2 t = Reading)) \<and>
    (\<forall>st. rw_pc s t = WTrying st \<longrightarrow>
      (\<exists>s1 s2. rw_step n s s1 \<and> rw_step n s1 s2 \<and> rw_pc s2 t = Writing))"
proof -
  have "rw_inv n s" using assms(1) by (rule rw.reach_inv)
  then have z: "rw_state s = 0" using rw_state_locked(2) assms(2) by (auto simp: readers_def writers_def)
  let ?r = "s\<lparr>rw_pc := (rw_pc s)(t := RTrying (rw_state s))\<rparr>"
  let ?w = "s\<lparr>rw_pc := (rw_pc s)(t := WTrying (rw_state s))\<rparr>"
  have r: "rw_step n s ?r" if "rw_pc s t = RTrying st" for st
    using that by (cases "st AND WRITE_LOCKED = 0") (auto intro: r_spin r_cas_fail)
  have w: "rw_step n s ?w" if "rw_pc s t = WTrying st" for st
    using that by (cases "st AND (WRITE_LOCKED OR READERS_MASK) = 0") (auto intro: w_spin w_cas_fail)
  let ?r2 = "?r\<lparr>rw_state := (0 AND NOT WRITE_LOCKED) + READER_ONE, rw_pc := (rw_pc ?r)(t := Reading)\<rparr>"
  let ?w2 = "?w\<lparr>rw_state := 0 OR WRITE_LOCKED, rw_pc := (rw_pc ?w)(t := Writing)\<rparr>"
  have r2: "rw_step n ?r ?r2" by (rule r_cas_ok) (simp_all add: z)
  have w2: "rw_step n ?w ?w2" by (rule w_cas_ok) (simp_all add: z)
  have p: "rw_pc ?r2 t = Reading" "rw_pc ?w2 t = Writing" by simp_all
  show ?thesis
    using r r2 p(1) w w2 p(2) by blast
qed

text \<open>The spinlock excludes: in every interleaving of \<open>lock\<close>, \<open>try_lock\<close> and \<open>unlock\<close> calls at most one
  thread holds it, and the flag is set exactly while one does.\<close>

lemma spinlock_exclusion:
  assumes "reach spin_init spin_step s"
  shows "(\<forall>t u. spin_pc s t = SHolding \<and> spin_pc s u = SHolding \<longrightarrow> t = u) \<and>
    (flag s \<longleftrightarrow> (\<exists>t. spin_pc s t = SHolding))"
  using spin.reach_excludes [OF assms] spin.reach_inv [OF assms] by (auto simp: spin_inv_def split: if_splits)

end
