(* ===== verification/Woomem_Gc.thy ===== *)
theory Woomem_Gc
  imports Woomem_Api Woomem_Mpsc
begin

text \<open>
  The collector, \<^verbatim>\<open>src/woomem_gc.cpp\<close>: marking units gray, the worker loop that blackens them, the
  marking interface of \<^verbatim>\<open>src/woomem.cpp\<close>, sweeping pages, handing the chain of pages out to the workers, and
  one collection cycle. The user's callbacks are parameters: the mark callback gives the calls of the
  marking interface it makes for a unit, and the calls of the free callback are recorded in their order.
\<close>

section \<open>Attributes\<close>

definition WOOMEM_ATTRIB_NEED_SWEEP :: u8 where
  "WOOMEM_ATTRIB_NEED_SWEEP = 1"

definition WOOMEM_ATTRIB_AUTO_MARK :: u8 where
  "WOOMEM_ATTRIB_AUTO_MARK = 2"

definition WOOMEM_ATTRIB_MARK_CALLBACK :: u8 where
  "WOOMEM_ATTRIB_MARK_CALLBACK = 4"

definition WOOMEM_ATTRIB_FREE_CALLBACK :: u8 where
  "WOOMEM_ATTRIB_FREE_CALLBACK = 8"

definition has_attrib :: "unit_head \<Rightarrow> u8 \<Rightarrow> bool" where
  "has_attrib u attrib \<longleftrightarrow> m_attribute u AND attrib \<noteq> 0"

section \<open>Workers\<close>

text \<open>
  A worker: its gray queue of capacity \<open>2 ^ k\<close> (\<open>k = 13\<close> in the sources), the vector of its local work,
  its back first, and what it sweeps. The state of marking is the memory and the worker.
\<close>

record gc_worker =
  m_gray_queue :: mpsc
  m_local_work :: "addr list"
  m_is_draining :: bool
  m_sweep_page_list :: addr
  m_alive_memory_size_counter :: u64

definition GRAY_QUEUE_CAPACITY :: u64 where
  "GRAY_QUEUE_CAPACITY = 8192"

text \<open>The constructor leaves the slots' items and \<open>m_alive_memory_size_counter\<close> as they are in the raw storage.\<close>

definition GCWorker :: "slot list \<Rightarrow> u64 \<Rightarrow> gc_worker" where
  "GCWorker raw_slots raw_alive = \<lparr>m_gray_queue = MpscGrayQueue raw_slots, m_local_work = [], m_is_draining = False,
     m_sweep_page_list = 0, m_alive_memory_size_counter = raw_alive\<rparr>"

text \<open>\<open>compare_exchange_strong\<close> of \<open>m_life\<close> from \<open>UNMARKED\<close> to \<open>SELF_MARKED\<close>.\<close>

definition mark_life :: "addr \<Rightarrow> mem \<Rightarrow> bool \<times> mem" where
  "mark_life u m =
     (if m_life (unit_at m u) = UNMARKED
      then (True, upd_unit u (\<lambda>h. h\<lparr>m_life := SELF_MARKED\<rparr>) m) else (False, m))"

text \<open>
  \<open>own\<close>: the calling thread is the worker's own. A caller that finds the queue full while the worker
  drains it spins until there is room: no result here.
\<close>

definition mark_unit_to_gray :: "nat \<Rightarrow> bool \<Rightarrow> addr \<Rightarrow> mem \<times> gc_worker \<Rightarrow> (mem \<times> gc_worker) option" where
  "mark_unit_to_gray k own unit_head = (\<lambda>(m, w).
     let (marked, m) = mark_life unit_head m in
     if \<not> marked then Some (m, w)
     else if own then Some (m, w\<lparr>m_local_work := unit_head # m_local_work w\<rparr>)
     else do {
       (enqueued, q) \<leftarrow> try_enqueue k unit_head (m_gray_queue w);
       if enqueued then Some (m, w\<lparr>m_gray_queue := q\<rparr>)
       else if \<not> m_is_draining w then Some (m, w\<lparr>m_local_work := unit_head # m_local_work w\<rparr>)
       else None
     })"

section \<open>The marking interface\<close>

definition woomem_mark_unit_head :: "nat \<Rightarrow> bool \<Rightarrow> addr \<Rightarrow> mem \<times> gc_worker \<Rightarrow> (mem \<times> gc_worker) option" where
  "woomem_mark_unit_head k own ptr_head_may_null s =
     (if ptr_head_may_null \<noteq> 0 then mark_unit_to_gray k own (ptr_head_may_null - sizeof_UnitHead) s else Some s)"

definition woomem_mark_fuzzy_unit ::
  "nat \<Rightarrow> bool \<Rightarrow> chunk \<Rightarrow> addr \<Rightarrow> mem \<times> gc_worker \<Rightarrow> (mem \<times> gc_worker) option" where
  "woomem_mark_fuzzy_unit k own c ptr s =
     woomem_validate_addr ptr c (fst s) \<bind> (\<lambda>p. woomem_mark_unit_head k own p s)"

definition woomem_mark_fuzzy_unit_head ::
  "nat \<Rightarrow> bool \<Rightarrow> chunk \<Rightarrow> addr \<Rightarrow> mem \<times> gc_worker \<Rightarrow> (mem \<times> gc_worker) option" where
  "woomem_mark_fuzzy_unit_head k own c ptr s =
     woomem_validate_addr_head ptr c (fst s) \<bind> (\<lambda>p. woomem_mark_unit_head k own p s)"

text \<open>A call of the marking interface as data, for the user's mark callback.\<close>

datatype mark_call = Mark_unit_head addr | Mark_fuzzy_unit addr | Mark_fuzzy_unit_head addr

fun mark_call_run :: "nat \<Rightarrow> bool \<Rightarrow> chunk \<Rightarrow> mark_call \<Rightarrow> mem \<times> gc_worker \<Rightarrow> (mem \<times> gc_worker) option" where
  "mark_call_run k own c (Mark_unit_head p) s = woomem_mark_unit_head k own p s"
| "mark_call_run k own c (Mark_fuzzy_unit p) s = woomem_mark_fuzzy_unit k own c p s"
| "mark_call_run k own c (Mark_fuzzy_unit_head p) s = woomem_mark_fuzzy_unit_head k own c p s"

fun mark_calls_run :: "nat \<Rightarrow> bool \<Rightarrow> chunk \<Rightarrow> mark_call list \<Rightarrow> mem \<times> gc_worker \<Rightarrow> (mem \<times> gc_worker) option" where
  "mark_calls_run k own c [] s = Some s"
| "mark_calls_run k own c (x # xs) s = mark_call_run k own c x s \<bind> mark_calls_run k own c xs"

section \<open>The worker loop\<close>

text \<open>The loop over the words of a unit with \<open>WOOMEM_ATTRIB_AUTO_MARK\<close>, at the indices \<open>is\<close>.\<close>

fun auto_mark_words :: "nat \<Rightarrow> chunk \<Rightarrow> addr \<Rightarrow> nat list \<Rightarrow> mem \<times> gc_worker \<Rightarrow> (mem \<times> gc_worker) option" where
  "auto_mark_words k c p [] s = Some s"
| "auto_mark_words k c p (i # is) s =
     woomem_mark_fuzzy_unit k True c (word_at (fst s) (p + w64 (8 * i))) s \<bind> auto_mark_words k c p is"

definition mark_fully ::
  "nat \<Rightarrow> chunk \<Rightarrow> (addr \<Rightarrow> mark_call list) \<Rightarrow> addr \<Rightarrow> mem \<times> gc_worker \<Rightarrow> (mem \<times> gc_worker) option" where
  "mark_fully k c callback_user_mark unit s =
     (if m_life (unit_at (fst s) unit) \<noteq> SELF_MARKED then None
      else do {
        s \<leftarrow> (if has_attrib (unit_at (fst s) unit) WOOMEM_ATTRIB_MARK_CALLBACK
          then mark_calls_run k True c (callback_user_mark (unit + sizeof_UnitHead)) s else Some s);
        s \<leftarrow> (if has_attrib (unit_at (fst s) unit) WOOMEM_ATTRIB_AUTO_MARK
          then get_unit_available_size unit (fst s) \<bind> (\<lambda>sz.
            auto_mark_words k c (unit + sizeof_UnitHead) [0..<unat (sz div 8)] s) else Some s);
        Some (upd_unit unit (\<lambda>h. h\<lparr>m_life := FULL_MARKED\<rparr>) (fst s), snd s)
      })"

definition drain_queue_into_local :: "nat \<Rightarrow> gc_worker \<Rightarrow> gc_worker option" where
  "drain_queue_into_local k w =
     drain k (2 ^ k) (m_gray_queue w) \<bind> (\<lambda>(xs, q).
     Some (w\<lparr>m_gray_queue := q, m_local_work := rev xs @ m_local_work w\<rparr>))"

partial_function (option) gray_loop ::
  "nat \<Rightarrow> chunk \<Rightarrow> (addr \<Rightarrow> mark_call list) \<Rightarrow> mem \<times> gc_worker \<Rightarrow> (mem \<times> gc_worker) option" where
  "gray_loop k c callback_user_mark s =
     (if m_local_work (snd s) = [] then drain_queue_into_local k (snd s) else Some (snd s)) \<bind> (\<lambda>w.
     case m_local_work w of
       [] \<Rightarrow> Some (fst s, w\<lparr>m_is_draining := False\<rparr>)
     | unit # rest \<Rightarrow>
         mark_fully k c callback_user_mark unit (fst s, w\<lparr>m_local_work := rest\<rparr>) \<bind> (\<lambda>s.
         gray_loop k c callback_user_mark s))"

declare gray_loop.simps [code]

definition process_gray_units ::
  "nat \<Rightarrow> chunk \<Rightarrow> (addr \<Rightarrow> mark_call list) \<Rightarrow> mem \<times> gc_worker \<Rightarrow> (mem \<times> gc_worker) option" where
  "process_gray_units k c callback_user_mark = (\<lambda>(m, w).
     gray_loop k c callback_user_mark (m, w\<lparr>m_is_draining := True\<rparr>))"

section \<open>Sweeping\<close>

text \<open>
  The state of a sweeping worker: the shared heap, the calls of the user's free callback so far (the
  newest first) and \<open>m_alive_memory_size_counter\<close>.
\<close>

record 'os sweep_state =
  sw_heap :: "'os heap"
  sw_freed :: "addr list"
  sw_alive :: u64

text \<open>
  \<open>round\<close> is \<open>woomem_gc_marking_round_counter\<close>. The result is whether the unit survives.
\<close>

definition check_and_free_unmarked_unit ::
  "u8 \<Rightarrow> addr \<Rightarrow> addr \<Rightarrow> mem \<times> addr list \<Rightarrow> (bool \<times> mem \<times> addr list) option" where
  "check_and_free_unmarked_unit round unit page_may_null = (\<lambda>(m, freed).
     let h = unit_at m unit;
         survive = upd_unit unit (\<lambda>h. h\<lparr>m_age := (if m_age h \<noteq> 0 then m_age h - 1 else m_age h), m_life := UNMARKED\<rparr>) m
     in case m_life h of
       RELEASED \<Rightarrow> Some (False, m, freed)
     | PENDING \<Rightarrow> Some (True, m, freed)
     | UNMARKED \<Rightarrow>
         if (m_age h \<noteq> 15 \<or> m_timing h \<noteq> round) \<and> has_attrib h WOOMEM_ATTRIB_NEED_SWEEP then
           let freed = (if has_attrib h WOOMEM_ATTRIB_FREE_CALLBACK then (unit + sizeof_UnitHead) # freed else freed);
               m = upd_unit unit (\<lambda>h. h\<lparr>m_life := RELEASED\<rparr>) m
           in if page_may_null \<noteq> 0
              then drop_freed_unit_into_page page_may_null unit m \<bind> (\<lambda>m. Some (False, m, freed))
              else Some (False, m, freed)
         else Some (True, survive, freed)
     | SELF_MARKED \<Rightarrow> None
     | FULL_MARKED \<Rightarrow> Some (True, survive, freed))"

text \<open>
  The loop over the units of a page, at the indices \<open>is\<close>; its state has \<open>has_survivor\<close>,
  \<open>has_free_space\<close>, the alive counter, the memory and the calls of the free callback.
\<close>

record sweep_loop =
  has_survivor :: bool
  has_free_space :: bool
  lp_alive :: u64
  lp_mem :: mem
  lp_freed :: "addr list"

fun sweep_units :: "u8 \<Rightarrow> addr \<Rightarrow> u64 \<Rightarrow> addr \<Rightarrow> nat list \<Rightarrow> sweep_loop \<Rightarrow> sweep_loop option" where
  "sweep_units round page usz unit_storage [] l = Some l"
| "sweep_units round page usz unit_storage (i # is) l =
     (let unit = unit_storage + w64 i * usz in
      if m_life (unit_at (lp_mem l) unit) = RELEASED then sweep_units round page usz unit_storage is l
      else check_and_free_unmarked_unit round unit page (lp_mem l, lp_freed l) \<bind> (\<lambda>(alive, m, freed).
        sweep_units round page usz unit_storage is
          (let l = l\<lparr>lp_mem := m, lp_freed := freed\<rparr> in
           if alive then l\<lparr>has_survivor := True, lp_alive := lp_alive l + usz\<rparr> else l\<lparr>has_free_space := True\<rparr>)))"

text \<open>Handing the page back: to the chunk, or to the chain of all pages.\<close>

definition finish_page :: "bool \<Rightarrow> addr \<Rightarrow> 'os sweep_state \<Rightarrow> 'os sweep_state option" where
  "finish_page drop_page page s =
     (let h = sw_heap s in
      if drop_page
      then free_page page (chunk_of (h_chunk h)) \<bind> (\<lambda>c.
        Some (s\<lparr>sw_heap := h\<lparr>h_chunk := (h_chunk h)\<lparr>chunk_of := c\<rparr>\<rparr>\<rparr>))
      else let (m, all_pages) = add_page_back_to_into_chain page (heap_mem h, m_all_page_list h)
        in Some (s\<lparr>sw_heap := (upd_mem (\<lambda>_. m) h)\<lparr>m_all_page_list := all_pages\<rparr>\<rparr>))"

definition sweep_cut_page :: "u8 \<Rightarrow> addr \<Rightarrow> 'os sweep_state \<Rightarrow> (bool \<times> 'os sweep_state) option" where
  "sweep_cut_page round page s =
     (let h = sw_heap s; pa = alloc_head page;
          usz = ucast (m_unit_size_in_page (alloc_at (heap_mem h) pa)) + sizeof_UnitHead;
          current_running_out = (m_run_out (alloc_at (heap_mem h) pa) \<noteq> 0)
      in do {
        l \<leftarrow> sweep_units round page usz (pa + sizeof_PageUnitAlloc) [0..<unat (units_in_page usz)]
          \<lparr>has_survivor = False, has_free_space = False, lp_alive = sw_alive s, lp_mem = heap_mem h, lp_freed = sw_freed s\<rparr>;
        let s = s\<lparr>sw_heap := upd_mem (\<lambda>_. lp_mem l) h, sw_freed := lp_freed l, sw_alive := lp_alive l\<rparr>;
        (drop_page, s) \<leftarrow>
          (if current_running_out \<and> has_free_space l then
             if \<not> has_survivor l then Some (True, s)
             else
               let h = upd_mem (upd_alloc pa (\<lambda>a. a\<lparr>m_run_out := 0\<rparr>)) (sw_heap s) in
               eval_group_by_small_unit_size (ucast (m_unit_size_in_page (alloc_at (heap_mem h) pa))) \<bind> (\<lambda>g.
               return_page page g h \<bind> (\<lambda>h. Some (False, s\<lparr>sw_heap := h\<rparr>)))
           else Some (False, s));
        Some (drop_page,
          if has_survivor l then s\<lparr>sw_alive := sw_alive s + (sizeof_PageHead + sizeof_PageUnitAlloc)\<rparr>
          else if \<not> current_running_out
          then s\<lparr>sw_heap := upd_mem (upd_alloc pa (\<lambda>a. a\<lparr>m_mark_as_run_out_in_global_pool := True\<rparr>)) (sw_heap s)\<rparr>
          else s)
      })"

definition sweep_huge_page :: "u8 \<Rightarrow> addr \<Rightarrow> 'os sweep_state \<Rightarrow> (bool \<times> 'os sweep_state) option" where
  "sweep_huge_page round page s =
     check_and_free_unmarked_unit round (page + sizeof_PageHead) 0 (heap_mem (sw_heap s), sw_freed s) \<bind>
       (\<lambda>(alive, m, freed).
     let s = s\<lparr>sw_heap := upd_mem (\<lambda>_. m) (sw_heap s), sw_freed := freed\<rparr> in
     if \<not> alive then Some (True, s)
     else Some (False, s\<lparr>sw_alive := sw_alive s + m_page_count_if_huge (page_at m page) * NORMAL_PAGE_SIZE\<rparr>))"

definition sweep_units_in_page :: "u8 \<Rightarrow> addr \<Rightarrow> 'os sweep_state \<Rightarrow> 'os sweep_state option" where
  "sweep_units_in_page round page s =
     (if m_page_just_allocated (page_at (heap_mem (sw_heap s)) page) then None
      else (if m_page_count_if_huge (page_at (heap_mem (sw_heap s)) page) = 0
            then sweep_cut_page round page s else sweep_huge_page round page s) \<bind>
        (\<lambda>(drop_page, s). finish_page drop_page page s))"

text \<open>The sweep of a worker: the pages of its list, the next one read before a page is swept.\<close>

partial_function (option) sweep_pages :: "u8 \<Rightarrow> addr \<Rightarrow> 'os sweep_state \<Rightarrow> 'os sweep_state option" where
  "sweep_pages round page s =
     (if page = 0 then Some s
      else sweep_units_in_page round page s \<bind>
        sweep_pages round (m_next_page (page_at (heap_mem (sw_heap s)) page)))"

declare sweep_pages.simps [code]

end
