(* ===== verification/Woomem_Gc_Cycle.thy ===== *)
theory Woomem_Gc_Cycle
  imports Woomem_Gc
begin

text \<open>
  The collector as a whole: its state, the root set, the trigger policy, the distribution of the pages
  and one collection cycle of \<open>main_thread_job\<close>. The phases of a cycle are separated by the barrier of
  \<open>Woomem_Barrier\<close>; within a phase the workers run here one after the other.
\<close>

section \<open>State\<close>

text \<open>
  The globals of the collector and the members of \<open>GC\<close> that outlive a call. \<open>m_root_gc_unit_set\<close> is an
  unordered set, kept as its elements in the order in which a loop visits them.
\<close>

record gc =
  woomem_gc_marking_round_counter :: u8
  woomem_gc_marking_state_flag :: bool
  woomem_gc_memory_size_after_last_round_sweep :: u64
  m_gc_worker_threads :: "gc_worker list"
  m_gc_assigned_thread_idx :: u64
  m_force_trigger_gc :: bool
  m_gc_cycle_count :: u64
  m_root_gc_unit_set :: "addr list"

definition default_gc_worker_count :: "u64 \<Rightarrow> u64" where
  "default_gc_worker_count hardware_concurrency =
     (let count = hardware_concurrency div 8 in if count = 0 then 1 else count)"

text \<open>Each registered thread that is not a worker gets the next worker in turn.\<close>

fun assign_workers :: "thread_context list \<Rightarrow> u64 \<times> u64 \<Rightarrow> thread_context list \<times> (u64 \<times> u64)" where
  "assign_workers [] idx = ([], idx)"
| "assign_workers (t # ts) idx =
     (if m_is_gc_worker_context t then let (ts', idx) = assign_workers ts idx in (t # ts', idx)
      else let (wk, idx) = fetch_thread_worker idx; (ts', idx) = assign_workers ts idx
        in (t\<lparr>m_gc_marking_context := Some wk\<rparr> # ts', idx))"

text \<open>
  The constructor: the number of workers, the workers themselves in raw storage, and the worker of each
  registered thread. The three globals keep their values, and the constructor needs \<open>malloc\<close> to succeed.
\<close>

definition GC ::
  "u64 \<Rightarrow> u64 \<Rightarrow> (nat \<Rightarrow> slot list \<times> u64) \<Rightarrow> gc \<Rightarrow> thread_context list \<Rightarrow> gc \<times> thread_context list" where
  "GC worker_count hardware_concurrency raw globals ts =
     (let m_gc_worker_count = (if worker_count \<noteq> 0 then worker_count else default_gc_worker_count hardware_concurrency);
          (ts, (idx, _)) = assign_workers ts (0, m_gc_worker_count)
      in (globals\<lparr>m_gc_worker_threads := map (\<lambda>i. GCWorker (fst (raw i)) (snd (raw i))) [0..<unat m_gc_worker_count],
            m_gc_assigned_thread_idx := idx, m_force_trigger_gc := False, m_gc_cycle_count := 0, m_root_gc_unit_set := []\<rparr>, ts))"

definition unassign_workers :: "thread_context list \<Rightarrow> thread_context list" where
  "unassign_workers = map (\<lambda>t. t\<lparr>m_gc_marking_context := None\<rparr>)"

section \<open>Roots\<close>

definition register_root_unit_head :: "addr \<Rightarrow> gc \<Rightarrow> gc" where
  "register_root_unit_head u g =
     (if u \<in> set (m_root_gc_unit_set g) then g else g\<lparr>m_root_gc_unit_set := u # m_root_gc_unit_set g\<rparr>)"

definition unregister_root_unit_head :: "addr \<Rightarrow> gc \<Rightarrow> gc" where
  "unregister_root_unit_head u g = g\<lparr>m_root_gc_unit_set := filter (\<lambda>v. v \<noteq> u) (m_root_gc_unit_set g)\<rparr>"

definition woomem_allocate_end_as_root :: "addr \<Rightarrow> u32 \<Rightarrow> gc \<times> mem \<Rightarrow> gc \<times> mem" where
  "woomem_allocate_end_as_root p attrib = (\<lambda>(g, m).
     (register_root_unit_head (p - sizeof_UnitHead) g,
      woomem_allocate_end (woomem_gc_marking_round_counter g) p attrib m))"

definition woomem_remove_from_root_set :: "addr \<Rightarrow> gc \<Rightarrow> gc" where
  "woomem_remove_from_root_set p = unregister_root_unit_head (p - sizeof_UnitHead)"

definition mark_root_unit_to_gray :: "addr \<Rightarrow> gc \<times> mem \<Rightarrow> (gc \<times> mem) option" where
  "mark_root_unit_to_gray unit_head = (\<lambda>(g, m).
     let (marked, m) = mark_life unit_head m in
     if \<not> marked then Some (g, m)
     else if \<not> woomem_gc_marking_state_flag g then None
     else
       let count = w64 (length (m_gc_worker_threads g));
           (i, (idx, _)) = fetch_thread_worker (m_gc_assigned_thread_idx g, count)
       in do {
         w \<leftarrow> rd (m_gc_worker_threads g) i;
         ws \<leftarrow> wr (m_gc_worker_threads g) i (w\<lparr>m_local_work := unit_head # m_local_work w\<rparr>);
         Some (g\<lparr>m_gc_assigned_thread_idx := idx, m_gc_worker_threads := ws\<rparr>, m)
       })"

definition woomem_mark_root_unit_head :: "addr \<Rightarrow> gc \<times> mem \<Rightarrow> (gc \<times> mem) option" where
  "woomem_mark_root_unit_head ptr_head_may_null s =
     (if ptr_head_may_null \<noteq> 0 then mark_root_unit_to_gray (ptr_head_may_null - sizeof_UnitHead) s else Some s)"

definition woomem_mark_root_fuzzy_unit :: "chunk \<Rightarrow> addr \<Rightarrow> gc \<times> mem \<Rightarrow> (gc \<times> mem) option" where
  "woomem_mark_root_fuzzy_unit c ptr s =
     woomem_validate_addr ptr c (snd s) \<bind> (\<lambda>p. woomem_mark_root_unit_head p s)"

definition woomem_mark_root_fuzzy_unit_head :: "chunk \<Rightarrow> addr \<Rightarrow> gc \<times> mem \<Rightarrow> (gc \<times> mem) option" where
  "woomem_mark_root_fuzzy_unit_head c ptr s =
     woomem_validate_addr_head ptr c (snd s) \<bind> (\<lambda>p. woomem_mark_root_unit_head p s)"

text \<open>The calls that the user's begin callback makes, and the loop over the registered roots.\<close>

fun root_calls_run :: "chunk \<Rightarrow> mark_call list \<Rightarrow> gc \<times> mem \<Rightarrow> (gc \<times> mem) option" where
  "root_calls_run c [] s = Some s"
| "root_calls_run c (x # xs) s =
     (case x of Mark_unit_head p \<Rightarrow> woomem_mark_root_unit_head p s
      | Mark_fuzzy_unit p \<Rightarrow> woomem_mark_root_fuzzy_unit c p s
      | Mark_fuzzy_unit_head p \<Rightarrow> woomem_mark_root_fuzzy_unit_head c p s) \<bind> root_calls_run c xs"

fun mark_root_set :: "addr list \<Rightarrow> gc \<times> mem \<Rightarrow> (gc \<times> mem) option" where
  "mark_root_set [] s = Some s"
| "mark_root_set (u # us) s = mark_root_unit_to_gray u s \<bind> mark_root_set us"

section \<open>When to collect\<close>

definition GC_TRIGGER_MIN_EDGE :: u64 where
  "GC_TRIGGER_MIN_EDGE = 1048576"

text \<open>
  The decision of the waiting loop after one wait: \<open>None\<close> ends the thread, \<open>Some True\<close> starts a cycle.
  \<open>elapsed_10s\<close>: ten seconds have passed since the cycle began.
\<close>

definition trigger_decision :: "bool \<Rightarrow> bool \<Rightarrow> u64 \<Rightarrow> gc \<Rightarrow> bool option" where
  "trigger_decision shutdown elapsed_10s new_alloc g =
     (if shutdown then None
      else if elapsed_10s \<or> m_force_trigger_gc g then Some True
      else
        let alive = max GC_TRIGGER_MIN_EDGE (woomem_gc_memory_size_after_last_round_sweep g)
        in Some (alive * 1 \<le> new_alloc * 3))"

section \<open>Distributing the pages\<close>

text \<open>The counting loop over the chain.\<close>

partial_function (option) count_pages :: "mem \<Rightarrow> addr \<Rightarrow> u64 \<Rightarrow> u64 option" where
  "count_pages m p total_pages =
     (if p = 0 then Some total_pages else count_pages m (m_next_page (page_at m p)) (total_pages + 1))"

declare count_pages.simps [code]

text \<open>The walk over \<open>n\<close> pages from \<open>current\<close>: the pair of \<open>prev\<close> and the new \<open>current\<close>.\<close>

fun walk_pages :: "nat \<Rightarrow> addr \<times> addr \<Rightarrow> mem \<Rightarrow> addr \<times> addr" where
  "walk_pages 0 pc m = pc"
| "walk_pages (Suc n) pc m = walk_pages n (snd pc, m_next_page (page_at m (snd pc))) m"

text \<open>The loop over the workers from number \<open>i\<close> on.\<close>

fun distribute :: "u64 \<Rightarrow> u64 \<Rightarrow> nat \<Rightarrow> gc_worker list \<Rightarrow> addr \<Rightarrow> mem \<Rightarrow> gc_worker list \<times> mem" where
  "distribute base_count remainder i [] current m = ([], m)"
| "distribute base_count remainder i (w # ws) current m =
     (let n = base_count + (if w64 i < remainder then 1 else 0) in
      if n = 0 then
        let (ws', m) = distribute base_count remainder (Suc i) ws current m
        in (w\<lparr>m_sweep_page_list := 0\<rparr> # ws', m)
      else
        let (prev, next) = walk_pages (unat n) (0, current) m;
            m = upd_page prev (\<lambda>h. h\<lparr>m_next_page := 0\<rparr>) m;
            (ws', m) = distribute base_count remainder (Suc i) ws next m
        in (w\<lparr>m_sweep_page_list := current\<rparr> # ws', m))"

definition distribute_pages :: "gc \<Rightarrow> 'os heap \<Rightarrow> (gc \<times> 'os heap) option" where
  "distribute_pages g h =
     (let all_pages = m_all_page_list h; h = h\<lparr>m_all_page_list := 0\<rparr> in
      if all_pages \<noteq> 0 then do {
        total_pages \<leftarrow> count_pages (heap_mem h) all_pages 0;
        let count = w64 (length (m_gc_worker_threads g));
        let (ws, m) = distribute (total_pages div count) (total_pages mod count) 0 (m_gc_worker_threads g) all_pages (heap_mem h);
        Some (g\<lparr>m_gc_worker_threads := ws\<rparr>, upd_mem (\<lambda>_. m) h)
      }
      else Some (g, h))"

section \<open>One cycle\<close>

text \<open>A phase of marking, and the sweep, with the workers in their order.\<close>

fun mark_phase ::
  "nat \<Rightarrow> chunk \<Rightarrow> (addr \<Rightarrow> mark_call list) \<Rightarrow> gc_worker list \<Rightarrow> mem \<Rightarrow> (gc_worker list \<times> mem) option" where
  "mark_phase k c cb [] m = Some ([], m)"
| "mark_phase k c cb (w # ws) m =
     process_gray_units k c cb (m, w) \<bind> (\<lambda>(m, w).
     mark_phase k c cb ws m \<bind> (\<lambda>(ws', m). Some (w # ws', m)))"

fun sweep_phase :: "u8 \<Rightarrow> gc_worker list \<Rightarrow> 'os heap \<times> addr list \<Rightarrow> (gc_worker list \<times> 'os heap \<times> addr list) option" where
  "sweep_phase round [] hf = Some ([], hf)"
| "sweep_phase round (w # ws) hf =
     sweep_pages round (m_sweep_page_list w) \<lparr>sw_heap = fst hf, sw_freed = snd hf, sw_alive = 0\<rparr> \<bind> (\<lambda>s.
     sweep_phase round ws (sw_heap s, sw_freed s) \<bind> (\<lambda>(ws', hf).
     Some (w\<lparr>m_alive_memory_size_counter := sw_alive s\<rparr> # ws', hf)))"

text \<open>
  Steps 1 to 7 of \<open>main_thread_job\<close>. \<open>begin_calls\<close> are the calls of the root marking interface that the
  user's begin callback makes; the stop callback, which tells the program's threads to stop marking,
  does nothing here. The result has the heap and the calls of the free callback.
\<close>

definition gc_mark_cycle ::
  "nat \<Rightarrow> (addr \<Rightarrow> mark_call list) \<Rightarrow> mark_call list \<Rightarrow> gc \<Rightarrow> 'os heap \<Rightarrow> (gc \<times> 'os heap) option" where
  "gc_mark_cycle k cb begin_calls g h =
     (let c = chunk_of (h_chunk h);
          g = g\<lparr>m_force_trigger_gc := False,
            woomem_gc_marking_round_counter := woomem_gc_marking_round_counter g + 1,
            woomem_gc_marking_state_flag := True\<rparr>
      in do {
        (g, m) \<leftarrow> root_calls_run c begin_calls (g, heap_mem h);
        (g, m) \<leftarrow> mark_root_set (m_root_gc_unit_set g) (g, m);
        (ws, m) \<leftarrow> mark_phase k c cb (m_gc_worker_threads g) m;
        let g = g\<lparr>woomem_gc_marking_state_flag := False\<rparr>;
        (ws, m) \<leftarrow> mark_phase k c cb ws m;
        Some (g\<lparr>m_gc_worker_threads := ws\<rparr>, upd_mem (\<lambda>_. m) h)
      })"

definition gc_sweep_cycle :: "gc \<Rightarrow> 'os heap \<Rightarrow> (gc \<times> 'os heap \<times> addr list) option" where
  "gc_sweep_cycle g h =
     do {
       (g, h) \<leftarrow> distribute_pages g h;
       (ws, h, freed) \<leftarrow> sweep_phase (woomem_gc_marking_round_counter g) (m_gc_worker_threads g) (h, []);
       let total_alive = sum_list (map m_alive_memory_size_counter ws);
       Some (g\<lparr>m_gc_worker_threads := ws, woomem_gc_memory_size_after_last_round_sweep := total_alive,
           m_gc_cycle_count := m_gc_cycle_count g + 1\<rparr>,
         remove_marked_run_out_pages h, freed)
     }"

definition gc_cycle ::
  "nat \<Rightarrow> (addr \<Rightarrow> mark_call list) \<Rightarrow> mark_call list \<Rightarrow> gc \<times> 'os alloc_state \<Rightarrow>
   (gc \<times> 'os alloc_state \<times> addr list) option" where
  "gc_cycle k cb begin_calls = (\<lambda>(g, s).
     let s = s\<lparr>m_new_allocated_size_since_last_gc := 0\<rparr> in
     do {
       (g, h) \<leftarrow> gc_mark_cycle k cb begin_calls g (al_heap s);
       (g, h, freed) \<leftarrow> gc_sweep_cycle g h;
       Some (g, s\<lparr>al_heap := h\<rparr>, freed)
     })"

end
