(* ===== verification/Woomem_Gc_Mark_Props.thy ===== *)
theory Woomem_Gc_Mark_Props
  imports Woomem_Gc Woomem_Api_Props Woomem_Mpsc_Props
begin

text \<open>
  Correctness of marking: the loop of a worker ends, and it blackens exactly the units that are
  reachable from its gray units through unmarked ones, changing nothing else in memory.
\<close>

section \<open>Marking a graph with a work list\<close>

text \<open>
  The algorithm by itself: \<open>T u\<close> are the targets of a unit, the state is the life of every unit and the
  work list. \<open>gray\<close> makes an unmarked target gray and puts it on the list; \<open>blacken\<close> takes a unit from the
  list, makes its targets gray and itself black.
\<close>

type_synonym 'u marking = "('u \<Rightarrow> unit_life) \<times> 'u list"

definition gray :: "'u \<Rightarrow> 'u marking \<Rightarrow> 'u marking" where
  "gray v = (\<lambda>(L, ws). if L v = UNMARKED then (L(v := SELF_MARKED), v # ws) else (L, ws))"

lemma gray_eq: "gray v (L, ws) = (if L v = UNMARKED then (L(v := SELF_MARKED), v # ws) else (L, ws))"
  by (simp add: gray_def)

definition blacken :: "('u \<Rightarrow> 'u list) \<Rightarrow> 'u \<Rightarrow> 'u marking \<Rightarrow> 'u marking" where
  "blacken T u s = (let (L, ws) = fold gray (T u) s in (L(u := FULL_MARKED), ws))"

definition mark_edges :: "('u \<Rightarrow> 'u list) \<Rightarrow> ('u \<Rightarrow> unit_life) \<Rightarrow> ('u \<times> 'u) set" where
  "mark_edges T L = {(u, v). v \<in> set (T u) \<and> L v = UNMARKED}"

definition reached :: "('u \<Rightarrow> 'u list) \<Rightarrow> ('u \<Rightarrow> unit_life) \<Rightarrow> 'u set \<Rightarrow> 'u set" where
  "reached T L S = (mark_edges T L)\<^sup>* `` S"

lemma reached_refl: "S \<subseteq> reached T L S"
  by (auto simp: reached_def)

lemma reached_step: "u \<in> reached T L S \<Longrightarrow> v \<in> set (T u) \<Longrightarrow> L v = UNMARKED \<Longrightarrow> v \<in> reached T L S"
  unfolding reached_def mark_edges_def by (auto intro: rtrancl_into_rtrancl)

lemma reached_induct [consumes 1, case_names start step]:
  assumes "v \<in> reached T L S" "\<And>u. u \<in> S \<Longrightarrow> P u"
    "\<And>u v. u \<in> reached T L S \<Longrightarrow> P u \<Longrightarrow> v \<in> set (T u) \<Longrightarrow> L v = UNMARKED \<Longrightarrow> P v"
  shows "P v"
proof -
  obtain s where s: "s \<in> S" "(s, v) \<in> (mark_edges T L)\<^sup>*" using assms(1) by (auto simp: reached_def)
  from s(2) show ?thesis
  proof (induction rule: rtrancl_induct)
    case base
    with s(1) show ?case by (rule assms(2))
  next
    case (step u v)
    moreover have "u \<in> reached T L S" using s(1) step(1) by (auto simp: reached_def)
    ultimately show ?case using assms(3) by (auto simp: mark_edges_def)
  qed
qed

text \<open>What one round of \<open>gray\<close> does: the unmarked targets become gray and join the list, once each.\<close>

lemma fold_gray_lives:
  "fold gray vs (L, ws) = (L', ws') \<Longrightarrow> L' = (\<lambda>v. if v \<in> set vs \<and> L v = UNMARKED then SELF_MARKED else L v)"
  by (induction vs arbitrary: L ws) (fastforce simp: gray_eq fun_eq_iff split: if_splits)+

lemma fold_gray_work:
  "fold gray vs (L, ws) = (L', ws') \<Longrightarrow> \<exists>new. ws' = new @ ws \<and> distinct new \<and> set new = {v \<in> set vs. L v = UNMARKED}"
proof (induction vs arbitrary: L ws)
  case (Cons v vs)
  show ?case
  proof (cases "L v = UNMARKED")
    case True
    then have "fold gray vs (L(v := SELF_MARKED), v # ws) = (L', ws')" using Cons.prems by (simp add: gray_eq)
    from Cons.IH [OF this] obtain new where
      "ws' = new @ v # ws" "distinct new" "set new = {x \<in> set vs. (L(v := SELF_MARKED)) x = UNMARKED}" by blast
    then show ?thesis using True by (intro exI [of _ "new @ [v]"]) auto
  next
    case False
    then have "fold gray vs (L, ws) = (L', ws')" using Cons.prems by (simp add: gray_eq)
    from Cons.IH [OF this] obtain new where "ws' = new @ ws" "distinct new" "set new = {x \<in> set vs. L x = UNMARKED}" by blast
    then show ?thesis using False by (intro exI [of _ new]) auto
  qed
qed auto

lemmas fold_gray = fold_gray_lives fold_gray_work

text \<open>The invariant of the loop; \<open>L0\<close> and \<open>S\<close> are the lives and the work at the start.\<close>

definition mark_inv :: "('u \<Rightarrow> 'u list) \<Rightarrow> ('u \<Rightarrow> unit_life) \<Rightarrow> 'u set \<Rightarrow> 'u marking \<Rightarrow> bool" where
  "mark_inv T L0 S = (\<lambda>(L, ws). distinct ws \<and> (\<forall>u \<in> set ws. L u = SELF_MARKED \<and> u \<in> reached T L0 S) \<and>
     (\<forall>u. u \<notin> reached T L0 S \<longrightarrow> L u = L0 u) \<and>
     (\<forall>u \<in> reached T L0 S. L u = FULL_MARKED \<and> (\<forall>v \<in> set (T u). L v \<noteq> UNMARKED) \<or>
        L u = SELF_MARKED \<and> u \<in> set ws \<or> L u = UNMARKED \<and> L0 u = UNMARKED \<and> u \<notin> S))"

lemma mark_inv_start:
  assumes "distinct ws" "\<forall>u \<in> set ws. L u = SELF_MARKED"
  shows "mark_inv T L (set ws) (L, ws)"
proof -
  have "L u = SELF_MARKED \<and> u \<in> set ws \<or> L u = UNMARKED \<and> L u = UNMARKED \<and> u \<notin> set ws" if "u \<in> reached T L (set ws)" for u
    using that assms(2) by (induction rule: reached_induct) auto
  then show ?thesis using assms reached_refl [of "set ws" T L] by (auto simp: mark_inv_def)
qed

lemma mark_inv_blacken:
  assumes I: "mark_inv T L0 S (L, u # ws)" and b: "blacken T u (L, ws) = (L', ws')"
  shows "mark_inv T L0 S (L', ws')"
proof -
  obtain L1 where f: "fold gray (T u) (L, ws) = (L1, ws')" "L' = L1(u := FULL_MARKED)"
    using b by (auto simp: blacken_def split: prod.splits)
  let ?R = "reached T L0 S"
  note G = fold_gray [OF f(1)]
  obtain new where new: "ws' = new @ ws" "distinct new" "set new = {v \<in> set (T u). L v = UNMARKED}" using G(2) by blast
  have D: "distinct (u # ws)" "\<And>v. v \<in> set (u # ws) \<Longrightarrow> L v = SELF_MARKED" "\<And>v. v \<in> set (u # ws) \<Longrightarrow> v \<in> ?R"
      "\<And>v. v \<notin> ?R \<Longrightarrow> L v = L0 v"
    using I by (auto simp: mark_inv_def)
  have R: "L v = FULL_MARKED \<and> (\<forall>x \<in> set (T v). L x \<noteq> UNMARKED) \<or> L v = SELF_MARKED \<and> v \<in> set (u # ws) \<or>
      L v = UNMARKED \<and> L0 v = UNMARKED \<and> v \<notin> S" if "v \<in> ?R" for v
    using I that by (auto simp: mark_inv_def)
  have u: "u \<in> ?R" "L u = SELF_MARKED" using D(2,3) [of u] by auto
  have newR: "v \<in> ?R" if "v \<in> set (T u)" "L v = UNMARKED" for v
  proof (rule ccontr)
    assume "v \<notin> ?R"
    then show False using D(4) that reached_step [OF u(1)] by metis
  qed
  have L': "L' v = (if v = u then FULL_MARKED else if v \<in> set (T u) \<and> L v = UNMARKED then SELF_MARKED else L v)" for v
    using f(2) G(1) by simp
  show ?thesis
    unfolding mark_inv_def prod.case
  proof (intro conjI ballI allI impI)
    show "distinct ws'" using new D(1,2) by auto
    show "L' v = SELF_MARKED" "v \<in> ?R" if "v \<in> set ws'" for v
      using that new(1,3) D newR u(2) unfolding L' by auto
    show "L' v = L0 v" if "v \<notin> ?R" for v
    proof -
      have "v \<noteq> u" "\<not> (v \<in> set (T u) \<and> L v = UNMARKED)" using that u(1) newR by blast+
      then show ?thesis unfolding L' using D(4) [OF that] by simp
    qed
    show "L' v = FULL_MARKED \<and> (\<forall>x \<in> set (T v). L' x \<noteq> UNMARKED) \<or> L' v = SELF_MARKED \<and> v \<in> set ws' \<or>
        L' v = UNMARKED \<and> L0 v = UNMARKED \<and> v \<notin> S" if "v \<in> ?R" for v
    proof (cases "v = u")
      case True
      then show ?thesis unfolding L' by auto
    next
      case False
      then show ?thesis using R [OF that] new(1,3) unfolding L' by auto
    qed
  qed
qed

lemma mark_inv_end:
  assumes "mark_inv T L0 S (L, [])"
  shows "L = (\<lambda>u. if u \<in> reached T L0 S then FULL_MARKED else L0 u)"
proof
  fix u
  have R: "L v = FULL_MARKED \<and> (\<forall>x \<in> set (T v). L x \<noteq> UNMARKED) \<or> L v = UNMARKED \<and> L0 v = UNMARKED \<and> v \<notin> S"
    if "v \<in> reached T L0 S" for v
    using assms that by (auto simp: mark_inv_def)
  have "L u = FULL_MARKED" if "u \<in> reached T L0 S"
    using that
  proof (induction rule: reached_induct)
    case (start v)
    then show ?case using R [of v] reached_refl [of S T L0] by auto
  next
    case (step v w)
    have "w \<in> reached T L0 S" using step by (blast intro: reached_step)
    moreover have "L w \<noteq> UNMARKED" using step R [of v] by fastforce
    ultimately show ?case using R [of w] by blast
  qed
  then show "L u = (if u \<in> reached T L0 S then FULL_MARKED else L0 u)" using assms by (auto simp: mark_inv_def)
qed

text \<open>Each round marks units or shortens the list.\<close>

definition mark_measure :: "('u \<Rightarrow> unit_life) \<Rightarrow> nat \<Rightarrow> nat" where
  "mark_measure L n = 2 * card {v. L v = UNMARKED} + n"

lemma blacken_measure:
  fixes L :: "'u::finite \<Rightarrow> unit_life"
  assumes "blacken T u (L, ws) = (L', ws')" "L u = SELF_MARKED"
  shows "mark_measure L' (length ws') < mark_measure L (Suc (length ws))"
proof -
  obtain L1 where f: "fold gray (T u) (L, ws) = (L1, ws')" "L' = L1(u := FULL_MARKED)"
    using assms(1) by (auto simp: blacken_def split: prod.splits)
  obtain new where new: "ws' = new @ ws" "distinct new" "set new = {v \<in> set (T u). L v = UNMARKED}"
    using fold_gray(2) [OF f(1)] by blast
  have "{v. L' v = UNMARKED} = {v. L v = UNMARKED} - set new"
    using fold_gray(1) [OF f(1)] f(2) new(3) assms(2) by auto
  then have "card {v. L' v = UNMARKED} = card {v. L v = UNMARKED} - length new"
    using new(2,3) by (simp add: card_Diff_subset distinct_card [symmetric] subset_iff)
  moreover have "length new \<le> card {v. L v = UNMARKED}"
    using new(2,3) by (metis (mono_tags, lifting) card_mono distinct_card finite mem_Collect_eq subsetI)
  ultimately show ?thesis using new(1) by (simp add: mark_measure_def)
qed

section \<open>Marking in memory\<close>

text \<open>Memory whose units have the lives \<open>L\<close>; marking changes nothing else.\<close>

definition lives :: "mem \<Rightarrow> addr \<Rightarrow> unit_life" where
  "lives m u = m_life (unit_at m u)"

definition with_lives :: "(addr \<Rightarrow> unit_life) \<Rightarrow> mem \<Rightarrow> mem" where
  "with_lives L m = m\<lparr>unit_at := (\<lambda>u. (unit_at m u)\<lparr>m_life := L u\<rparr>)\<rparr>"

lemma with_lives_id [simp]: "with_lives (lives m) m = m"
  by (simp add: with_lives_def lives_def)

lemma with_lives_simps [simp]:
  "m_life (unit_at (with_lives L m) u) = L u" "m_attribute (unit_at (with_lives L m) u) = m_attribute (unit_at m u)"
  "m_next_free_unit_offset (unit_at (with_lives L m) u) = m_next_free_unit_offset (unit_at m u)"
  "page_at (with_lives L m) = page_at m" "alloc_at (with_lives L m) = alloc_at m" "word_at (with_lives L m) = word_at m"
  "lives (with_lives L m) = L" "with_lives L' (with_lives L m) = with_lives L' m"
  "upd_unit u (\<lambda>h. h\<lparr>m_life := l\<rparr>) (with_lives L m) = with_lives (L(u := l)) m"
  "get_unit_available_size u (with_lives L m) = get_unit_available_size u m"
  "has_attrib (unit_at (with_lives L m) u) b = has_attrib (unit_at m u) b"
  by (auto simp: with_lives_def lives_def upd_unit_def get_unit_available_size_def has_attrib_def Let_def fun_eq_iff)

text \<open>The two maps publish the same units.\<close>

definition same_published :: "(addr \<Rightarrow> unit_life) \<Rightarrow> (addr \<Rightarrow> unit_life) \<Rightarrow> bool" where
  "same_published L L' \<longleftrightarrow> (\<forall>u. PENDING < L u \<longleftrightarrow> PENDING < L' u)"

lemma validate_addr_lives:
  "same_published L L' \<Longrightarrow> woomem_validate_addr a c (with_lives L m) = woomem_validate_addr a c (with_lives L' m)"
  by (simp add: woomem_validate_addr_def same_published_def Let_def cong: if_cong)

lemma validate_total: "chunk_inv c \<Longrightarrow> \<exists>p. validate a c = Some p"
  using chunk_lookup_hit chunk_lookup_miss by (metis prod.collapse)

lemma validate_addr_total: "chunk_inv c \<Longrightarrow> \<exists>p. woomem_validate_addr a c m = Some p"
  using validate_total [of c a] by (auto simp: woomem_validate_addr_def Let_def)

text \<open>The unit that a call of the marking interface names, if any, and the targets of a unit.\<close>

fun call_target :: "chunk \<Rightarrow> mem \<Rightarrow> mark_call \<Rightarrow> addr option" where
  "call_target c m (Mark_unit_head p) = Some p"
| "call_target c m (Mark_fuzzy_unit p) = woomem_validate_addr p c m"
| "call_target c m (Mark_fuzzy_unit_head p) = woomem_validate_addr_head p c m"

definition call_units :: "chunk \<Rightarrow> mem \<Rightarrow> mark_call list \<Rightarrow> addr list" where
  "call_units c m xs = map (\<lambda>p. p - sizeof_UnitHead) (filter (\<lambda>p. p \<noteq> 0) (map (\<lambda>x. the (call_target c m x)) xs))"

definition unit_calls :: "mem \<Rightarrow> (addr \<Rightarrow> mark_call list) \<Rightarrow> addr \<Rightarrow> mark_call list" where
  "unit_calls m cb u =
     (if has_attrib (unit_at m u) WOOMEM_ATTRIB_MARK_CALLBACK then cb (u + sizeof_UnitHead) else []) @
     (if has_attrib (unit_at m u) WOOMEM_ATTRIB_AUTO_MARK
      then map (\<lambda>i. Mark_fuzzy_unit (word_at m (u + sizeof_UnitHead + w64 (8 * i))))
        [0..<unat (the (get_unit_available_size u m) div 8)] else [])"

definition unit_targets :: "chunk \<Rightarrow> (addr \<Rightarrow> mark_call list) \<Rightarrow> mem \<Rightarrow> addr \<Rightarrow> addr list" where
  "unit_targets c cb m u = call_units c m (unit_calls m cb u)"

lemma call_target_lives:
  "same_published L L' \<Longrightarrow> call_target c (with_lives L m) x = call_target c (with_lives L' m) x"
  by (cases x) (simp_all add: validate_addr_lives woomem_validate_addr_head_def)

lemma call_target_total: "chunk_inv c \<Longrightarrow> \<exists>p. call_target c m x = Some p"
  by (cases x) (simp_all add: validate_addr_total woomem_validate_addr_head_def)

lemma mark_call_run_eq:
  "mark_call_run k own c x s = call_target c (fst s) x \<bind> (\<lambda>p. woomem_mark_unit_head k own p s)"
  by (cases x) (simp_all add: woomem_mark_fuzzy_unit_def woomem_mark_fuzzy_unit_head_def)

lemma mark_own_eq:
  "woomem_mark_unit_head k True p (with_lives L m, w) =
     Some (if p = 0 then (with_lives L m, w)
       else let (L', ws) = gray (p - sizeof_UnitHead) (L, m_local_work w) in (with_lives L' m, w\<lparr>m_local_work := ws\<rparr>))"
  by (simp add: woomem_mark_unit_head_def mark_unit_to_gray_def mark_life_def gray_def)

lemma gray_published: "gray u (L, ws) = (L', ws') \<Longrightarrow> same_published L L'"
  by (auto simp: gray_def same_published_def split: if_splits)

lemma same_published_trans: "same_published L L' \<Longrightarrow> same_published L' L'' \<Longrightarrow> same_published L L''"
  by (simp add: same_published_def)

lemma mark_calls_eq:
  assumes "chunk_inv c" "same_published L0 L"
  shows "mark_calls_run k True c xs (with_lives L m, w) =
    Some (let (L', ws) = fold gray (call_units c (with_lives L0 m) xs) (L, m_local_work w) in (with_lives L' m, w\<lparr>m_local_work := ws\<rparr>))"
  using assms(2)
proof (induction xs arbitrary: L w)
  case Nil
  then show ?case by (simp add: call_units_def)
next
  case (Cons x xs)
  obtain p where p: "call_target c (with_lives L0 m) x = Some p" using call_target_total [OF assms(1)] by blast
  then have p': "call_target c (with_lives L m) x = Some p" using call_target_lives [OF Cons.prems] by metis
  show ?case
  proof (cases "p = 0")
    case True
    then show ?thesis using Cons p p' by (simp add: mark_call_run_eq mark_own_eq call_units_def)
  next
    case False
    obtain L1 ws where g: "gray (p - sizeof_UnitHead) (L, m_local_work w) = (L1, ws)" by fastforce
    have "same_published L0 L1" using Cons.prems gray_published [OF g] by (rule same_published_trans)
    from Cons.IH [OF this, of "w\<lparr>m_local_work := ws\<rparr>"] show ?thesis
      using False p p' g by (simp add: mark_call_run_eq mark_own_eq call_units_def)
  qed
qed

lemma auto_mark_eq:
  assumes "chunk_inv c"
  shows "auto_mark_words k c p is (with_lives L m, w) =
    mark_calls_run k True c (map (\<lambda>i. Mark_fuzzy_unit (word_at m (p + w64 (8 * i)))) is) (with_lives L m, w)"
proof (induction "is" arbitrary: L w)
  case (Cons i "is")
  obtain q where "woomem_validate_addr (word_at m (p + w64 (8 * i))) c (with_lives L m) = Some q"
    using validate_addr_total [OF assms] by blast
  then show ?case using Cons by (simp add: woomem_mark_fuzzy_unit_def mark_own_eq Let_def split: prod.splits)
qed simp

lemma call_units_append: "call_units c m (xs @ ys) = call_units c m xs @ call_units c m ys"
  by (simp add: call_units_def)

text \<open>A unit that can be scanned: if its words are scanned, its size is known.\<close>

definition scannable :: "mem \<Rightarrow> addr \<Rightarrow> bool" where
  "scannable m u \<longleftrightarrow> (has_attrib (unit_at m u) WOOMEM_ATTRIB_AUTO_MARK \<longrightarrow> get_unit_available_size u m \<noteq> None)"

lemma fold_gray_published: "fold gray vs (L, ws) = (L', ws') \<Longrightarrow> same_published L L'"
  by (drule fold_gray_lives) (auto simp: same_published_def)

lemma unit_calls_lives: "unit_calls (with_lives L m) cb u = unit_calls m cb u"
  by (simp add: unit_calls_def)

lemma mark_fully_eq:
  assumes inv: "chunk_inv c" and pub: "same_published L0 L" and u: "L u = SELF_MARKED" "scannable m u"
  shows "mark_fully k c cb u (with_lives L m, w) =
    Some (let (L', ws) = blacken (unit_targets c cb (with_lives L0 m)) u (L, m_local_work w)
      in (with_lives L' m, w\<lparr>m_local_work := ws\<rparr>))"
proof -
  let ?h = "unit_at m u" and ?m0 = "with_lives L0 m"
  define xs where "xs = (if has_attrib ?h WOOMEM_ATTRIB_MARK_CALLBACK then cb (u + sizeof_UnitHead) else [])"
  define ys where "ys = (if has_attrib ?h WOOMEM_ATTRIB_AUTO_MARK
    then map (\<lambda>i. Mark_fuzzy_unit (word_at m (u + sizeof_UnitHead + w64 (8 * i)))) [0..<unat (the (get_unit_available_size u m) div 8)] else [])"
  have T: "unit_targets c cb ?m0 u = call_units c ?m0 xs @ call_units c ?m0 ys"
    unfolding unit_targets_def unit_calls_lives unfolding unit_calls_def xs_def ys_def by (simp only: call_units_append)
  obtain L1 w1 where f1: "fold gray (call_units c ?m0 xs) (L, m_local_work w) = (L1, w1)" by fastforce
  obtain L2 w2 where f2: "fold gray (call_units c ?m0 ys) (L1, w1) = (L2, w2)" by fastforce
  have p1: "same_published L0 L1" using pub fold_gray_published [OF f1] by (rule same_published_trans)
  have s1: "(if has_attrib ?h WOOMEM_ATTRIB_MARK_CALLBACK then mark_calls_run k True c (cb (u + sizeof_UnitHead)) (with_lives L m, w)
      else Some (with_lives L m, w)) = Some (with_lives L1 m, w\<lparr>m_local_work := w1\<rparr>)"
    using mark_calls_eq [OF inv pub, of k xs m w] f1 by (auto simp: xs_def call_units_def)
  have s2: "(if has_attrib ?h WOOMEM_ATTRIB_AUTO_MARK
      then get_unit_available_size u m \<bind> (\<lambda>sz. auto_mark_words k c (u + sizeof_UnitHead) [0..<unat (sz div 8)] (with_lives L1 m, w\<lparr>m_local_work := w1\<rparr>))
      else Some (with_lives L1 m, w\<lparr>m_local_work := w1\<rparr>)) = Some (with_lives L2 m, w\<lparr>m_local_work := w2\<rparr>)"
    using mark_calls_eq [OF inv p1, of k ys m "w\<lparr>m_local_work := w1\<rparr>"] f2 u(2)
    by (auto simp: ys_def call_units_def scannable_def auto_mark_eq [OF inv] split: if_splits)
  have "blacken (unit_targets c cb ?m0) u (L, m_local_work w) = (L2(u := FULL_MARKED), w2)"
    using f1 f2 by (simp add: blacken_def T)
  with s1 s2 u(1) show ?thesis
    by (cases "has_attrib ?h WOOMEM_ATTRIB_AUTO_MARK") (auto simp: mark_fully_def bind_eq_Some_conv)
qed

lemma fold_gray_append: "fold gray vs (L, ws @ qs) = (let (L', ws') = fold gray vs (L, ws) in (L', ws' @ qs))"
proof (induction vs arbitrary: L ws)
  case (Cons v vs)
  show ?case using Cons [of L ws] Cons [of "L(v := SELF_MARKED)" "v # ws"]
    by (cases "L v = UNMARKED") (simp_all add: gray_eq fun_upd_def)
qed simp

lemma blacken_append: "blacken T u (L, ws) = (L', ws') \<Longrightarrow> blacken T u (L, ws @ qs) = (L', ws' @ qs)"
  by (auto simp: blacken_def fold_gray_append split: prod.splits)

lemma mark_inv_published:
  assumes "mark_inv T L0 S (L, ws)" "\<forall>u \<in> S. L0 u = SELF_MARKED"
  shows "same_published L0 L"
proof -
  have "PENDING < L0 u" if "u \<in> reached T L0 S" for u
    using that assms(2) by (induction rule: reached_induct) auto
  moreover have "PENDING < L u" if "u \<in> reached T L0 S" for u
    using assms(1) that by (fastforce simp: mark_inv_def)
  moreover have "L u = L0 u" if "u \<notin> reached T L0 S" for u using assms(1) that by (simp add: mark_inv_def)
  ultimately show ?thesis unfolding same_published_def by metis
qed

definition worker_work :: "nat \<Rightarrow> gc_worker \<Rightarrow> addr list" where
  "worker_work k w = m_local_work w @ queued k (m_gray_queue w)"

text \<open>What a worker is after its loop: nothing to do, and otherwise as before.\<close>

definition worker_idle :: "nat \<Rightarrow> gc_worker \<Rightarrow> gc_worker \<Rightarrow> bool" where
  "worker_idle k w w' \<longleftrightarrow> worker_work k w' = [] \<and> quiet k (m_gray_queue w') \<and> \<not> m_is_draining w' \<and>
     m_sweep_page_list w' = m_sweep_page_list w \<and> m_alive_memory_size_counter w' = m_alive_memory_size_counter w"

lemma drain_local:
  assumes "quiet k (m_gray_queue w)" "m_local_work w = []"
  shows "\<exists>q. drain_queue_into_local k w = Some (w\<lparr>m_gray_queue := q, m_local_work := rev (take (2 ^ k) (queued k (m_gray_queue w)))\<rparr>) \<and>
    quiet k q \<and> queued k q = drop (2 ^ k) (queued k (m_gray_queue w))"
  using gray.drain_law [OF assms(1), of "2 ^ k"] assms(2) by (auto simp: drain_queue_into_local_def)

lemma drain_first:
  assumes q: "quiet k (m_gray_queue w)"
  shows "\<exists>w1. (if m_local_work w = [] then drain_queue_into_local k w else Some w) = Some w1 \<and>
    mset (worker_work k w1) = mset (worker_work k w) \<and> quiet k (m_gray_queue w1) \<and>
    (m_local_work w1 = [] \<longrightarrow> worker_work k w1 = []) \<and> (\<forall>w'. worker_idle k w1 w' \<longrightarrow> worker_idle k w w')"
proof (cases "m_local_work w = []")
  case True
  let ?qs = "queued k (m_gray_queue w)"
  obtain q' where q': "drain_queue_into_local k w = Some (w\<lparr>m_gray_queue := q', m_local_work := rev (take (2 ^ k) ?qs)\<rparr>)"
      "quiet k q'" "queued k q' = drop (2 ^ k) ?qs"
    using drain_local [OF q True] by blast
  have "mset (take (2 ^ k) ?qs) + mset (drop (2 ^ k) ?qs) = mset ?qs" by (simp flip: mset_append)
  with q' True show ?thesis by (simp add: worker_work_def worker_idle_def)
qed (use q in \<open>simp add: worker_work_def\<close>)

lemma mark_inv_perm:
  assumes "mark_inv T L0 S (L, ws)" "mset ws = mset ws'"
  shows "mark_inv T L0 S (L, ws')"
proof -
  have "set ws = set ws'" "distinct ws = distinct ws'"
    using assms(2) by (rule mset_eq_setD, metis assms(2) mset_eq_imp_distinct_iff)
  with assms(1) show ?thesis by (simp add: mark_inv_def)
qed

lemma gray_loop_spec:
  assumes inv: "chunk_inv c" and S: "\<forall>u \<in> S. L0 u = SELF_MARKED"
    and T: "T = unit_targets c cb (with_lives L0 m)" and sc: "\<forall>u \<in> reached T L0 S. scannable m u"
    and I: "mark_inv T L0 S (L, worker_work k w)" and q: "quiet k (m_gray_queue w)"
  shows "\<exists>w'. gray_loop k c cb (with_lives L m, w) =
      Some (with_lives (\<lambda>u. if u \<in> reached T L0 S then FULL_MARKED else L0 u) m, w') \<and> worker_idle k w w'"
  using I q
proof (induction "mark_measure L (length (worker_work k w))" arbitrary: L w rule: less_induct)
  case less
  note I = less.prems(1) and q = less.prems(2)
  obtain w1 where w1: "(if m_local_work w = [] then drain_queue_into_local k w else Some w) = Some w1"
      "mset (worker_work k w1) = mset (worker_work k w)" "quiet k (m_gray_queue w1)"
      "m_local_work w1 = [] \<longrightarrow> worker_work k w1 = []" "\<forall>w'. worker_idle k w1 w' \<longrightarrow> worker_idle k w w'"
    using drain_first [OF q] by blast
  show ?case
  proof (cases "m_local_work w1")
    case Nil
    then have "mark_inv T L0 S (L, [])" using mark_inv_perm [OF I w1(2) [symmetric]] w1(4) by simp
    from arg_cong [OF mark_inv_end [OF this], of "\<lambda>L. with_lives L m"]
    have e: "with_lives (\<lambda>u. if u \<in> reached T L0 S then FULL_MARKED else L0 u) m = with_lives L m" by simp
    have "gray_loop k c cb (with_lives L m, w) = Some (with_lives L m, w1\<lparr>m_is_draining := False\<rparr>)"
      using w1(1) Nil by (subst gray_loop.simps) (cases "m_local_work w = []"; simp)
    moreover have "worker_idle k w1 (w1\<lparr>m_is_draining := False\<rparr>)"
      using w1(3,4) Nil by (simp add: worker_idle_def worker_work_def)
    ultimately show ?thesis using w1(5) unfolding e by blast
  next
    case (Cons u rest)
    let ?qs = "queued k (m_gray_queue w1)"
    obtain L' ws' where b: "blacken T u (L, rest) = (L', ws')" by fastforce
    let ?w2 = "w1\<lparr>m_local_work := ws'\<rparr>"
    have I1: "mark_inv T L0 S (L, u # rest @ ?qs)"
      using mark_inv_perm [OF I w1(2) [symmetric]] Cons by (simp add: worker_work_def)
    then have u: "L u = SELF_MARKED" "u \<in> reached T L0 S" by (auto simp: mark_inv_def)
    have "mark_fully k c cb u (with_lives L m, w1\<lparr>m_local_work := rest\<rparr>) = Some (with_lives L' m, ?w2)"
      using mark_fully_eq [OF inv mark_inv_published [OF I S] u(1), of m k cb "w1\<lparr>m_local_work := rest\<rparr>"] sc u(2) b T by simp
    then have g: "gray_loop k c cb (with_lives L m, w) = gray_loop k c cb (with_lives L' m, ?w2)"
      using w1(1) Cons by (subst gray_loop.simps) (cases "m_local_work w = []"; simp)
    note ba = blacken_append [OF b, of ?qs]
    have "length (worker_work k w1) = length (worker_work k w)" using w1(2) by (rule mset_eq_length)
    then have "mark_measure L' (length (worker_work k ?w2)) < mark_measure L (length (worker_work k w))"
      using blacken_measure [OF ba u(1)] Cons by (simp add: worker_work_def)
    moreover have "mark_inv T L0 S (L', worker_work k ?w2)" using mark_inv_blacken [OF I1 ba] by (simp add: worker_work_def)
    moreover have "quiet k (m_gray_queue ?w2)" using w1(3) by simp
    ultimately obtain w' where "gray_loop k c cb (with_lives L' m, ?w2) =
        Some (with_lives (\<lambda>u. if u \<in> reached T L0 S then FULL_MARKED else L0 u) m, w')" "worker_idle k ?w2 w'"
      using less.hyps by blast
    moreover have "worker_idle k w1 w'" if "worker_idle k ?w2 w'" using that by (simp add: worker_idle_def)
    ultimately show ?thesis unfolding g using w1(5) by blast
  qed
qed

lemma process_spec:
  assumes inv: "chunk_inv c" and q: "quiet k (m_gray_queue w)"
    and W: "distinct (worker_work k w)" "\<forall>u \<in> set (worker_work k w). lives m u = SELF_MARKED"
    and sc: "\<forall>u \<in> reached (unit_targets c cb m) (lives m) (set (worker_work k w)). scannable m u"
  shows "\<exists>w'. process_gray_units k c cb (m, w) =
    Some (with_lives (\<lambda>u. if u \<in> reached (unit_targets c cb m) (lives m) (set (worker_work k w))
      then FULL_MARKED else lives m u) m, w') \<and> worker_idle k w w'"
proof -
  let ?w = "w\<lparr>m_is_draining := True\<rparr>"
  have ww: "worker_work k ?w = worker_work k w" by (simp add: worker_work_def)
  have "\<exists>w'. gray_loop k c cb (with_lives (lives m) m, ?w) =
      Some (with_lives (\<lambda>u. if u \<in> reached (unit_targets c cb m) (lives m) (set (worker_work k w))
        then FULL_MARKED else lives m u) m, w') \<and> worker_idle k ?w w'"
    using mark_inv_start [OF W] W(2) q sc
    by (intro gray_loop_spec [OF inv, where L = "lives m"]) (simp_all add: ww)
  then show ?thesis by (auto simp: process_gray_units_def worker_idle_def)
qed

section \<open>Properties\<close>

text \<open>C11: Marking ends and is exact. Started on gray units that are known to be gray once each, the loop of a worker
  returns with nothing left to do. In memory it has changed only lives: the units reachable from its
  work through unmarked units, by the words that resolve to a unit and by the calls of the mark
  callback, are black, and every other unit is as before.\<close>

theorem process_gray_units_exact:
  assumes "chunk_inv c" and "quiet k (m_gray_queue w)" and "distinct (worker_work k w)"
    and "\<forall>u \<in> set (worker_work k w). lives m u = SELF_MARKED"
    and "\<forall>u \<in> reached (unit_targets c cb m) (lives m) (set (worker_work k w)). scannable m u"
  shows "\<exists>w'. process_gray_units k c cb (m, w) =
    Some (with_lives (\<lambda>u. if u \<in> reached (unit_targets c cb m) (lives m) (set (worker_work k w))
      then FULL_MARKED else lives m u) m, w') \<and> worker_idle k w w'"
  using assms by (rule process_spec)

lemma reached_closed: "S \<subseteq> C \<Longrightarrow> (\<And>u. u \<in> C \<Longrightarrow> set (T u) \<subseteq> C) \<Longrightarrow> reached T L S \<subseteq> C"
proof
  fix x assume "S \<subseteq> C" "\<And>u. u \<in> C \<Longrightarrow> set (T u) \<subseteq> C" "x \<in> reached T L S"
  from this(3,1,2) show "x \<in> C" by (induction rule: reached_induct) blast+
qed

text \<open>A worker with one gray unit, whose mark callback marks the unit itself by an inner address.\<close>

definition demo_gray :: mem where
  "demo_gray = upd_unit 0x100020 (\<lambda>u. u\<lparr>m_life := SELF_MARKED\<rparr>) (heap_mem (al_heap demo_unit))"

definition demo_chunk :: chunk where
  "demo_chunk = chunk_of (h_chunk (al_heap demo_unit))"

definition demo_worker :: gc_worker where
  "demo_worker = (GCWorker demo_raw 0)\<lparr>m_local_work := [0x100020]\<rparr>"

lemma demo_worker_quiet: "quiet 1 (m_gray_queue demo_worker)" "worker_work 1 demo_worker = [0x100020]"
proof -
  show "quiet 1 (m_gray_queue demo_worker)"
    using mpsc_ok_new [of 1 demo_raw] by (auto simp: demo_worker_def GCWorker_def quiet_def demo_raw_def)
  show "worker_work 1 demo_worker = [0x100020]"
    by (simp add: worker_work_def demo_worker_def GCWorker_def queued_def MpscGrayQueue_def)
qed

theorem process_gray_units_exact_witness:
  "\<exists>m' w'. process_gray_units 1 demo_chunk (\<lambda>_. [Mark_fuzzy_unit 0x101234]) (demo_gray, demo_worker) = Some (m', w') \<and>
     m_life (unit_at m' 0x100020) = FULL_MARKED \<and> worker_work 1 w' = []"
proof -
  let ?T = "unit_targets demo_chunk (\<lambda>_. [Mark_fuzzy_unit 0x101234]) demo_gray"
  have ci: "chunk_inv demo_chunk" using demo_unit_ok(1) heap_invD(1) unfolding demo_chunk_def by blast
  have l: "lives demo_gray 0x100020 = SELF_MARKED" by (simp add: lives_def demo_gray_def upd_unit_def)
  have "?T 0x100020 = [0x100020]" by code_simp
  then have "reached ?T (lives demo_gray) {0x100020} \<subseteq> {0x100020}" by (intro reached_closed) auto
  moreover have "scannable demo_gray 0x100020" unfolding scannable_def by code_simp
  ultimately have "\<forall>u \<in> reached ?T (lives demo_gray) {0x100020}. scannable demo_gray u" by blast
  with process_gray_units_exact [OF ci demo_worker_quiet(1), of demo_gray] demo_worker_quiet(2) l
  obtain w' where "process_gray_units 1 demo_chunk (\<lambda>_. [Mark_fuzzy_unit 0x101234]) (demo_gray, demo_worker) =
      Some (with_lives (\<lambda>u. if u \<in> reached ?T (lives demo_gray) {0x100020} then FULL_MARKED else lives demo_gray u) demo_gray, w')"
      "worker_idle 1 demo_worker w'" by auto
  moreover have "0x100020 \<in> reached ?T (lives demo_gray) {0x100020}"
    using reached_refl [of "{0x100020}" ?T "lives demo_gray"] by simp
  ultimately show ?thesis by (auto simp: worker_idle_def)
qed

end
