(* ===== verification/Woomem_Gc_Sweep_Props.thy ===== *)
theory Woomem_Gc_Sweep_Props
  imports Woomem_Gc Woomem_Api_Props
begin

text \<open>
  Correctness of sweeping: which units survive, that the free lists of a page and the order of the heap
  are kept, and what becomes of the page itself.
\<close>

section \<open>One unit\<close>

text \<open>
  The survival rule: a unit that is being built, a black unit, a unit published in this round, or one
  that does not want to be swept. A survivor is white again and one round older.
\<close>

definition kept :: "u8 \<Rightarrow> unit_head \<Rightarrow> bool" where
  "kept round h \<longleftrightarrow> m_life h = PENDING \<or> m_life h = FULL_MARKED \<or>
     m_life h = UNMARKED \<and> (m_age h = 15 \<and> m_timing h = round \<or> \<not> has_attrib h WOOMEM_ATTRIB_NEED_SWEEP)"

definition aged :: "unit_head \<Rightarrow> unit_head" where
  "aged h = (if m_life h = PENDING then h
     else h\<lparr>m_age := (if m_age h \<noteq> 0 then m_age h - 1 else m_age h), m_life := UNMARKED\<rparr>)"

definition free_calls :: "addr \<Rightarrow> unit_head \<Rightarrow> addr list" where
  "free_calls u h = (if has_attrib h WOOMEM_ATTRIB_FREE_CALLBACK then [u + sizeof_UnitHead] else [])"

text \<open>What sweeping the unit at \<open>off\<close> does to a page.\<close>

definition swept :: "u8 \<Rightarrow> addr \<Rightarrow> unit_alloc_group \<Rightarrow> u16 set \<Rightarrow> mem \<Rightarrow> mem \<Rightarrow> bool" where
  "swept round p g X m m' \<longleftrightarrow> page_inv m' p g {} \<and> page_frame p g m m' \<and>
     (\<forall>off \<in> unit_offsets g. let h = unit_at m (unit_addr p off) in
        if off \<in> X \<and> m_life h \<noteq> RELEASED
        then if kept round h then unit_at m' (unit_addr p off) = aged h else m_life (unit_at m' (unit_addr p off)) = RELEASED
        else unit_at m' (unit_addr p off) = h) \<and>
     m_run_out (alloc_at m' (alloc_head p)) = m_run_out (alloc_at m (alloc_head p)) \<and>
     m_mark_as_run_out_in_global_pool (alloc_at m' (alloc_head p)) = m_mark_as_run_out_in_global_pool (alloc_at m (alloc_head p))"

lemma check_unit:
  assumes inv: "page_inv m p g {}" and p: "p \<noteq> 0" and off: "off \<in> live_units m p g"
    and h: "h = unit_at m (unit_addr p off)" "m_life h \<noteq> SELF_MARKED"
  shows "\<exists>m'. check_and_free_unmarked_unit round (unit_addr p off) p (m, freed) =
      Some (kept round h, m', (if kept round h then [] else free_calls (unit_addr p off) h) @ freed) \<and>
    swept round p g {off} m m'"
proof -
  let ?u = "unit_addr p off"
  obtain fs bs where L: "unit_lists m p g {} fs bs" using inv by (auto simp: page_inv_def)
  have o: "off \<in> unit_offsets g" "unit_life_of m p off \<noteq> RELEASED" using off by (auto simp: live_units_def)
  then have nr: "m_life h \<noteq> RELEASED" by (simp add: h unit_life_of_def)
  have frame: "page_frame p g m (upd_unit ?u f m)" for f using o(1) by (auto simp: page_frame_def)
  have other: "unit_at m' (unit_addr p k) = unit_at m (unit_addr p k)"
    if "k \<noteq> off" "\<And>x. x \<noteq> ?u \<Longrightarrow> unit_at m' x = unit_at m x" for k m' using that by simp
  show ?thesis
  proof (cases "kept round h")
    case True
    define m' where "m' = upd_unit ?u aged m"
    have "check_and_free_unmarked_unit round ?u p (m, freed) = Some (True, m', freed)"
    proof (cases "m_life h = PENDING")
      case True
      then have "m' = m" by (simp add: m'_def upd_unit_def aged_def h(1))
      with True show ?thesis by (simp add: check_and_free_unmarked_unit_def h(1))
    next
      case False
      then have "m' = upd_unit ?u (\<lambda>h. h\<lparr>m_age := (if m_age h \<noteq> 0 then m_age h - 1 else m_age h), m_life := UNMARKED\<rparr>) m"
        by (simp add: m'_def upd_unit_def aged_def h(1))
      with False \<open>kept round h\<close> show ?thesis by (auto simp: check_and_free_unmarked_unit_def kept_def h(1))
    qed
    moreover have "unit_lists m' p g {} fs bs"
      unfolding m'_def by (rule upd_used_lists [OF L o]) (auto simp: aged_def)
    ultimately show ?thesis using True frame [of aged] nr
      by (intro exI [of _ m']) (auto simp: swept_def page_inv_def m'_def h(1) upd_unit_def)
  next
    case False
    let ?r = "upd_unit ?u (\<lambda>u. u\<lparr>m_life := RELEASED\<rparr>) m"
    have um: "m_life h = UNMARKED" "m_age h \<noteq> 15 \<or> m_timing h \<noteq> round" "has_attrib h WOOMEM_ATTRIB_NEED_SWEEP"
      using False nr h(2) by (cases "m_life h"; auto simp: kept_def)+
    obtain m' where d: "drop_freed_unit_into_page p ?u ?r = Some m'" "unit_lists m' p g {} fs (off # bs)" "page_frame p g ?r m'"
        "m_run_out (alloc_at m' (alloc_head p)) = m_run_out (alloc_at ?r (alloc_head p))" "unit_life_of m' p = unit_life_of ?r p"
      using drop_unit_lists [OF release_unit_lists [OF L o], of off] by auto
    have m': "m' = upd_alloc (alloc_head p) (\<lambda>a. a\<lparr>m_freed_unit_offset := ucast (?u - alloc_head p)\<rparr>)
        (upd_unit ?u (\<lambda>u. u\<lparr>m_next_free_unit_offset := m_freed_unit_offset (alloc_at ?r (alloc_head p))\<rparr>) ?r)"
      using d(1) by (simp add: drop_freed_unit_into_page_def Let_def split: if_splits)
    have "check_and_free_unmarked_unit round ?u p (m, freed) = Some (False, m', free_calls ?u h @ freed)"
      using um d(1) p by (simp add: check_and_free_unmarked_unit_def h(1) free_calls_def Let_def)
    moreover have "page_frame p g m m'" using frame d(3) by (rule page_frame_trans)
    moreover have "unit_at m' x = unit_at m x" if "x \<noteq> ?u" for x using that by (simp add: m' upd_unit_def upd_alloc_def)
    moreover have "m_life (unit_at m' ?u) = RELEASED" by (simp add: m' upd_unit_def upd_alloc_def)
    ultimately show ?thesis using False d(2,4) nr
      by (intro exI [of _ m']) (auto simp: swept_def page_inv_def h(1) m')
  qed
qed

section \<open>All units of a page\<close>

lemma swept_refl:
  "page_inv m p g {} \<Longrightarrow> (\<And>off. off \<in> X \<Longrightarrow> off \<in> unit_offsets g \<Longrightarrow> m_life (unit_at m (unit_addr p off)) = RELEASED) \<Longrightarrow>
   swept round p g X m m"
  by (auto simp: swept_def page_frame_def Let_def)

lemma swept_trans:
  assumes "swept round p g X m m1" "swept round p g Y m1 m2" "X \<inter> Y = {}"
  shows "swept round p g (X \<union> Y) m m2"
proof -
  have "page_frame p g m m2" using assms(1,2) by (auto simp: swept_def intro: page_frame_trans)
  moreover have "let h = unit_at m (unit_addr p off) in
      if off \<in> X \<union> Y \<and> m_life h \<noteq> RELEASED
      then if kept round h then unit_at m2 (unit_addr p off) = aged h else m_life (unit_at m2 (unit_addr p off)) = RELEASED
      else unit_at m2 (unit_addr p off) = h" if o: "off \<in> unit_offsets g" for off
  proof (cases "off \<in> X")
    case True
    then have "off \<notin> Y" using assms(3) by blast
    then have "unit_at m2 (unit_addr p off) = unit_at m1 (unit_addr p off)" using assms(2) o by (simp add: swept_def Let_def)
    then show ?thesis using assms(1) o True by (auto simp: swept_def Let_def split: if_splits)
  next
    case False
    then have "unit_at m1 (unit_addr p off) = unit_at m (unit_addr p off)" using assms(1) o by (simp add: swept_def Let_def)
    then show ?thesis using assms(2) o False by (auto simp: swept_def Let_def split: if_splits)
  qed
  ultimately show ?thesis using assms(1,2) by (simp add: swept_def)
qed

text \<open>The units in use at the given indices, and what sweeping them records.\<close>

definition live_indices :: "mem \<Rightarrow> addr \<Rightarrow> unit_alloc_group \<Rightarrow> nat list \<Rightarrow> nat list" where
  "live_indices m p g is = filter (\<lambda>i. unit_life_of m p (unit_offset g i) \<noteq> RELEASED) is"

definition unit_at_index :: "mem \<Rightarrow> addr \<Rightarrow> unit_alloc_group \<Rightarrow> nat \<Rightarrow> unit_head" where
  "unit_at_index m p g i = unit_at m (unit_addr p (unit_offset g i))"

definition kept_indices :: "u8 \<Rightarrow> mem \<Rightarrow> addr \<Rightarrow> unit_alloc_group \<Rightarrow> nat list \<Rightarrow> nat list" where
  "kept_indices round m p g is = filter (\<lambda>i. kept round (unit_at_index m p g i)) (live_indices m p g is)"

definition freed_indices :: "u8 \<Rightarrow> mem \<Rightarrow> addr \<Rightarrow> unit_alloc_group \<Rightarrow> nat list \<Rightarrow> nat list" where
  "freed_indices round m p g is = filter (\<lambda>i. \<not> kept round (unit_at_index m p g i)) (live_indices m p g is)"

lemmas index_defs = live_indices_def kept_indices_def freed_indices_def unit_at_index_def

lemma indices_cong:
  assumes "\<And>i. i \<in> set is \<Longrightarrow> unit_at m' (unit_addr p (unit_offset g i)) = unit_at m (unit_addr p (unit_offset g i))"
  shows "kept_indices round m' p g is = kept_indices round m p g is" "freed_indices round m' p g is = freed_indices round m p g is"
  using assms by (auto simp: index_defs unit_life_of_def intro!: filter_cong)

text \<open>The calls of the free callback for the released units, the last one first.\<close>

definition sweep_calls :: "mem \<Rightarrow> addr \<Rightarrow> unit_alloc_group \<Rightarrow> nat list \<Rightarrow> addr list" where
  "sweep_calls m p g is = concat (map (\<lambda>i. free_calls (unit_addr p (unit_offset g i)) (unit_at_index m p g i)) (rev is))"

lemma sweep_units_spec:
  fixes g :: unit_alloc_group and p :: addr
  defines "wsz \<equiv> group_size g + sizeof_UnitHead" and "storage \<equiv> alloc_head p + sizeof_PageUnitAlloc"
  assumes p: "p \<noteq> 0" and ix: "distinct is" "\<forall>i \<in> set is. i < unit_count g"
    and inv: "page_inv (lp_mem l) p g {}"
    and ng: "\<forall>i \<in> set is. m_life (unit_at_index (lp_mem l) p g i) \<noteq> SELF_MARKED"
  shows "\<exists>l'. sweep_units round p wsz storage is l = Some l' \<and>
    swept round p g (unit_offset g ` set is) (lp_mem l) (lp_mem l') \<and>
    has_survivor l' = (has_survivor l \<or> kept_indices round (lp_mem l) p g is \<noteq> []) \<and>
    has_free_space l' = (has_free_space l \<or> freed_indices round (lp_mem l) p g is \<noteq> []) \<and>
    lp_alive l' = lp_alive l + of_nat (length (kept_indices round (lp_mem l) p g is)) * wsz \<and>
    lp_freed l' = sweep_calls (lp_mem l) p g (freed_indices round (lp_mem l) p g is) @ lp_freed l"
  using ix inv ng
proof (induction "is" arbitrary: l)
  case Nil
  then show ?case by (auto intro: swept_refl simp: index_defs sweep_calls_def)
next
  case (Cons i "is")
  let ?m = "lp_mem l" and ?off = "unit_offset g i"
  have i: "i < unit_count g" "?off \<in> unit_offsets g" using Cons.prems(2) by (auto simp: unit_offsets_def)
  have u: "storage + w64 i * wsz = unit_addr p ?off"
    unfolding unit_addr_offset [OF i(1)] storage_def wsz_def by (simp add: sizeof_defs algebra_simps)
  have fresh: "?off \<notin> unit_offset g ` set is"
    using Cons.prems(1,2) unit_offset_inj [of i g] i(1) by auto
  text \<open>The rest of the units, from a state that has not touched them.\<close>
  have rest: "\<exists>l'. sweep_units round p wsz storage is l1 = Some l' \<and>
      swept round p g (unit_offset g ` set is) (lp_mem l1) (lp_mem l') \<and>
      has_survivor l' = (has_survivor l1 \<or> kept_indices round ?m p g is \<noteq> []) \<and>
      has_free_space l' = (has_free_space l1 \<or> freed_indices round ?m p g is \<noteq> []) \<and>
      lp_alive l' = lp_alive l1 + of_nat (length (kept_indices round ?m p g is)) * wsz \<and>
      lp_freed l' = sweep_calls ?m p g (freed_indices round ?m p g is) @ lp_freed l1"
    if s: "swept round p g {?off} ?m (lp_mem l1)" for l1
  proof -
    have same: "unit_at (lp_mem l1) (unit_addr p (unit_offset g j)) = unit_at ?m (unit_addr p (unit_offset g j))" if "j \<in> set is" for j
    proof -
      have "unit_offset g j \<in> unit_offsets g" using that Cons.prems(2) by (auto simp: unit_offsets_def)
      moreover have "unit_offset g j \<noteq> ?off" using fresh that by (metis imageI)
      ultimately show ?thesis using s by (simp add: swept_def Let_def)
    qed
    note ic = indices_cong [of "is" "lp_mem l1" p g ?m, OF same]
    have "sweep_calls (lp_mem l1) p g (freed_indices round ?m p g is) = sweep_calls ?m p g (freed_indices round ?m p g is)"
      using same by (auto simp: sweep_calls_def index_defs intro!: arg_cong [of _ _ concat])
    moreover have "distinct is" "\<forall>j \<in> set is. j < unit_count g" "page_inv (lp_mem l1) p g {}"
        "\<forall>j \<in> set is. m_life (unit_at_index (lp_mem l1) p g j) \<noteq> SELF_MARKED"
      using Cons.prems s same by (simp_all add: swept_def unit_at_index_def)
    ultimately show ?thesis using Cons.IH [of l1] by (simp add: ic)
  qed
  have join: "swept round p g (unit_offset g ` set (i # is)) ?m m'"
    if "swept round p g {?off} ?m m1" "swept round p g (unit_offset g ` set is) m1 m'" for m1 m'
    using swept_trans [OF that] fresh by simp
  show ?case
  proof (cases "m_life (unit_at ?m (unit_addr p ?off)) = RELEASED")
    case True
    then have r: "swept round p g {?off} ?m ?m" by (intro swept_refl [OF Cons.prems(3)]) simp
    have "kept_indices round ?m p g (i # is) = kept_indices round ?m p g is"
      "freed_indices round ?m p g (i # is) = freed_indices round ?m p g is"
      using True by (simp_all add: index_defs unit_life_of_def)
    moreover have "sweep_units round p wsz storage (i # is) l = sweep_units round p wsz storage is l"
      using True by (simp add: u)
    ultimately show ?thesis using rest [OF r] join [OF r] by metis
  next
    case False
    let ?h = "unit_at_index ?m p g i"
    have lv: "?off \<in> live_units ?m p g" using False i(2) by (simp add: live_units_def unit_life_of_def)
    have "m_life ?h \<noteq> SELF_MARKED" using Cons.prems(4) by simp
    from check_unit [OF Cons.prems(3) p lv _ this, of round "lp_freed l"] obtain m1 where
      c: "check_and_free_unmarked_unit round (unit_addr p ?off) p (?m, lp_freed l) =
          Some (kept round ?h, m1, (if kept round ?h then [] else free_calls (unit_addr p ?off) ?h) @ lp_freed l)"
        "swept round p g {?off} ?m m1"
      by (auto simp: unit_at_index_def)
    define l1 where "l1 = (if kept round ?h then l\<lparr>lp_mem := m1, has_survivor := True, lp_alive := lp_alive l + wsz\<rparr>
      else l\<lparr>lp_mem := m1, lp_freed := free_calls (unit_addr p ?off) ?h @ lp_freed l, has_free_space := True\<rparr>)"
    have m1: "lp_mem l1 = m1" by (simp add: l1_def)
    have sw: "sweep_units round p wsz storage (i # is) l = sweep_units round p wsz storage is l1"
      using False c(1) by (simp add: u l1_def Let_def)
    have k: "kept_indices round ?m p g (i # is) = (if kept round ?h then i # kept_indices round ?m p g is else kept_indices round ?m p g is)"
      "freed_indices round ?m p g (i # is) = (if kept round ?h then freed_indices round ?m p g is else i # freed_indices round ?m p g is)"
      using False by (simp_all add: index_defs unit_life_of_def)
    obtain l' where l': "sweep_units round p wsz storage is l1 = Some l'"
      "swept round p g (unit_offset g ` set is) (lp_mem l1) (lp_mem l')"
      "has_survivor l' = (has_survivor l1 \<or> kept_indices round ?m p g is \<noteq> [])"
      "has_free_space l' = (has_free_space l1 \<or> freed_indices round ?m p g is \<noteq> [])"
      "lp_alive l' = lp_alive l1 + of_nat (length (kept_indices round ?m p g is)) * wsz"
      "lp_freed l' = sweep_calls ?m p g (freed_indices round ?m p g is) @ lp_freed l1"
      using rest [of l1] c(2) unfolding m1 by blast
    show ?thesis
    proof (intro exI [of _ l'] conjI)
      show "sweep_units round p wsz storage (i # is) l = Some l'" using sw l'(1) by simp
      show "swept round p g (unit_offset g ` set (i # is)) ?m (lp_mem l')" using join [OF c(2)] l'(2) by (simp add: m1)
    qed (auto simp: k l'(3-6) l1_def sweep_calls_def algebra_simps)
  qed
qed

section \<open>What a page is made of\<close>

text \<open>
  A sweep of the page \<open>p\<close> changes its heads and the unit heads inside its first 32 KiB; another run keeps
  everything the collector reads of it.
\<close>

definition only_page :: "addr \<Rightarrow> mem \<Rightarrow> mem \<Rightarrow> bool" where
  "only_page p m m' \<longleftrightarrow> word_at m' = word_at m \<and> (\<forall>a. a \<noteq> p \<longrightarrow> page_at m' a = page_at m a) \<and>
     (\<forall>a. a \<noteq> alloc_head p \<longrightarrow> alloc_at m' a = alloc_at m a) \<and>
     (\<forall>a. unat a \<notin> range_bytes (p, 1) \<longrightarrow> unit_at m' a = unit_at m a)"

definition same_run :: "addr \<Rightarrow> mem \<Rightarrow> mem \<Rightarrow> bool" where
  "same_run q m m' \<longleftrightarrow> page_at m' q = page_at m q \<and> alloc_at m' (alloc_head q) = alloc_at m (alloc_head q) \<and>
     (\<forall>a. unat a \<in> range_bytes (q, 1) \<longrightarrow> unit_at m' a = unit_at m a)"

lemma only_page_trans: "only_page p m m' \<Longrightarrow> only_page p m' m'' \<Longrightarrow> only_page p m m''"
  by (simp add: only_page_def)

lemma same_run_trans: "same_run q m m' \<Longrightarrow> same_run q m' m'' \<Longrightarrow> same_run q m m''"
  by (simp add: same_run_def)

lemma only_page_other: "only_page p m m' \<Longrightarrow> apart p q \<Longrightarrow> same_run q m m'"
  using apart_addrs(1,2) [of p q] unfolding only_page_def same_run_def apart_def by auto

lemma unit_addr_range: "page_fits p \<Longrightarrow> off \<in> unit_offsets g \<Longrightarrow> unat (unit_addr p off) \<in> range_bytes (p, 1)"
  using unit_bytes_range [of p off g] by (auto simp: unit_bytes_def)

lemma head_range: "page_fits p \<Longrightarrow> unat (p + sizeof_PageHead) \<in> range_bytes (p, 1)"
  using unat_alloc_head [of p] by (simp add: alloc_head_def range_bytes_def)

lemma page_frame_only:
  assumes "page_frame p g m m'" "page_fits p"
  shows "only_page p m m'"
proof -
  have "a \<notin> unit_addr p ` unit_offsets g" if "unat a \<notin> range_bytes (p, 1)" for a
    using that unit_addr_range [OF assms(2)] by auto
  then show ?thesis using assms(1) by (simp add: page_frame_def only_page_def)
qed

lemma same_run_units:
  assumes "same_run q m m'" "page_fits q"
  shows "off \<in> unit_offsets g \<Longrightarrow> unit_at m' (unit_addr q off) = unit_at m (unit_addr q off)"
    "unit_at m' (q + sizeof_PageHead) = unit_at m (q + sizeof_PageHead)"
    "page_inv m' q g {} = page_inv m q g {}" "live_units m' q g = live_units m q g"
proof -
  show u: "unit_at m' (unit_addr q off) = unit_at m (unit_addr q off)" if "off \<in> unit_offsets g" for off
    using that assms unit_addr_range by (simp add: same_run_def)
  show "unit_at m' (q + sizeof_PageHead) = unit_at m (q + sizeof_PageHead)"
    using assms head_range by (simp add: same_run_def)
  have a: "alloc_at m' (alloc_head q) = alloc_at m (alloc_head q)" using assms by (simp add: same_run_def)
  show "page_inv m' q g {} = page_inv m q g {}"
    using unit_lists_eqI [OF a u, of g] unit_lists_eqI [OF a [symmetric] u [symmetric], of g] unfolding page_inv_def by blast
  show "live_units m' q g = live_units m q g" using u by (auto simp: live_units_def unit_life_of_def)
qed

section \<open>A cut page\<close>

text \<open>The units of a page that a sweep keeps.\<close>

definition kept_units :: "u8 \<Rightarrow> mem \<Rightarrow> addr \<Rightarrow> unit_alloc_group \<Rightarrow> u16 set" where
  "kept_units round m p g = {off \<in> live_units m p g. kept round (unit_at m (unit_addr p off))}"

lemma set_all_indices:
  "unit_offset g ` set (kept_indices round m p g [0..<unit_count g]) = kept_units round m p g"
  "unit_offset g ` set (freed_indices round m p g [0..<unit_count g]) = live_units m p g - kept_units round m p g"
  by (auto simp: index_defs kept_units_def live_units_def unit_offsets_def)

lemma swept_live:
  assumes "swept round p g (unit_offsets g) m m'"
  shows "live_units m' p g = kept_units round m p g"
proof -
  have "off \<in> live_units m' p g \<longleftrightarrow> off \<in> kept_units round m p g" if o: "off \<in> unit_offsets g" for off
  proof -
    have "m_life (aged h) \<noteq> RELEASED" if "m_life h \<noteq> RELEASED" for h using that by (auto simp: aged_def)
    then show ?thesis using assms o
      by (auto simp: swept_def live_units_def kept_units_def unit_life_of_def Let_def split: if_splits)
  qed
  then show ?thesis by (auto simp: live_units_def kept_units_def)
qed

lemma alloc_update_page:
  assumes "\<And>a. m_unit_size_in_page (f a) = m_unit_size_in_page a"
    "\<And>a. m_next_allocate_unit_offset (f a) = m_next_allocate_unit_offset a" "\<And>a. m_freed_unit_offset (f a) = m_freed_unit_offset a"
  shows "page_inv (upd_alloc (alloc_head p) f m) p g X = page_inv m p g X"
    "page_frame p g m (upd_alloc (alloc_head p) f m)"
proof -
  have "unit_lists (upd_alloc (alloc_head p) f m) p g X fs bs = unit_lists m p g X fs bs" for fs bs
    using assms by (simp add: unit_lists_def)
  then show "page_inv (upd_alloc (alloc_head p) f m) p g X = page_inv m p g X" by (simp add: page_inv_def)
  show "page_frame p g m (upd_alloc (alloc_head p) f m)" by (simp add: page_frame_def upd_alloc_def)
qed

text \<open>The page goes back into the pool of its group.\<close>

lemma return_page_spec:
  assumes inv: "heap_inv h C" and p: "unit_page h p g" "p \<notin> C" "p \<notin> set (m_free_pages h ! group_index g)" "run_out_of h p = 0"
  defines "h' \<equiv> h\<lparr>m_free_pages := (m_free_pages h)[group_index g := p # m_free_pages h ! group_index g]\<rparr>"
  shows "return_page p g h = Some h'" "heap_inv h' C" "unit_page h' q g' = unit_page h q g'"
proof -
  note H = heap_invD [OF inv]
  have gi: "group_index g < length (m_free_pages h)" using group_index_max H(2) by simp
  show "return_page p g h = Some h'" using gi by (simp add: return_page_def rd_in wr_in return_free_page_def h'_def)
  have up: "unit_page h' q g' = unit_page h q g'" "run_out_of h' q = run_out_of h q" for q g'
    by (simp_all add: unit_page_def run_out_of_def h'_def)
  then show "unit_page h' q g' = unit_page h q g'" by simp
  show "heap_inv h' C"
    unfolding heap_inv_def up
  proof (intro conjI allI ballI impI)
    fix g' x assume "x \<in> set (m_free_pages h' ! group_index g')" "x \<noteq> 0"
    then have "x \<in> set (m_free_pages h ! group_index g') \<or> x = p \<and> g' = g"
      using gi by (cases "g' = g") (auto simp: h'_def)
    then show "unit_page h x g'" "run_out_of h x = 0" "x \<notin> C" using H(3) [of x g'] \<open>x \<noteq> 0\<close> p by auto
  next
    fix g' show "distinct (filter (\<lambda>p. p \<noteq> 0) (m_free_pages h' ! group_index g'))"
      using H(4) [of g'] H(4) [of g] p(3) gi by (cases "g' = g") (auto simp: h'_def)
  qed (use H(1,2,5) in \<open>auto simp: h'_def\<close>)
qed

lemma page_inv_size:
  assumes "page_inv m p g X"
  shows "m_unit_size_in_page (alloc_at m (alloc_head p)) = ucast (group_size g)"
  using assms by (auto simp: page_inv_def unit_lists_def)

text \<open>The loop over all units of a page.\<close>

lemma sweep_all_units:
  fixes g :: unit_alloc_group and round :: u8 and p :: addr and m :: mem
  defines "L \<equiv> live_units m p g" and "K \<equiv> kept_units round m p g"
  assumes p: "p \<noteq> 0" and inv: "page_inv m p g {}" and ng: "\<forall>off \<in> unit_offsets g. unit_life_of m p off \<noteq> SELF_MARKED"
  shows "\<exists>l. sweep_units round p (group_size g + sizeof_UnitHead) (alloc_head p + sizeof_PageUnitAlloc) [0..<unit_count g]
      \<lparr>has_survivor = False, has_free_space = False, lp_alive = alive, lp_mem = m, lp_freed = freed\<rparr> = Some l \<and>
    has_survivor l = (K \<noteq> {}) \<and> has_free_space l = (L \<noteq> K) \<and>
    lp_alive l = alive + of_nat (card K) * (group_size g + sizeof_UnitHead) \<and>
    lp_freed l = sweep_calls m p g (freed_indices round m p g [0..<unit_count g]) @ freed \<and>
    page_inv (lp_mem l) p g {} \<and> page_frame p g m (lp_mem l) \<and> live_units (lp_mem l) p g = K \<and>
    (\<forall>off \<in> K. unit_at (lp_mem l) (unit_addr p off) = aged (unit_at m (unit_addr p off))) \<and>
    m_run_out (alloc_at (lp_mem l) (alloc_head p)) = m_run_out (alloc_at m (alloc_head p))"
proof -
  let ?is = "[0..<unit_count g]"
  define l0 where "l0 = \<lparr>has_survivor = False, has_free_space = False, lp_alive = alive, lp_mem = m, lp_freed = freed\<rparr>"
  have ixs: "distinct ?is" "\<forall>i \<in> set ?is. i < unit_count g" by simp_all
  have "page_inv (lp_mem l0) p g {}" "\<forall>i \<in> set ?is. m_life (unit_at_index (lp_mem l0) p g i) \<noteq> SELF_MARKED"
    using inv ng by (auto simp: l0_def unit_at_index_def unit_life_of_def unit_offsets_def)
  from sweep_units_spec [OF p ixs this, of round] obtain l where
    l: "sweep_units round p (group_size g + sizeof_UnitHead) (alloc_head p + sizeof_PageUnitAlloc) ?is l0 = Some l"
      "swept round p g (unit_offset g ` set ?is) m (lp_mem l)" "has_survivor l = (kept_indices round m p g ?is \<noteq> [])"
      "has_free_space l = (freed_indices round m p g ?is \<noteq> [])"
      "lp_alive l = alive + of_nat (length (kept_indices round m p g ?is)) * (group_size g + sizeof_UnitHead)"
      "lp_freed l = sweep_calls m p g (freed_indices round m p g ?is) @ freed"
    by (auto simp: l0_def)
  have K: "K \<subseteq> L" by (auto simp: K_def L_def kept_units_def)
  have surv: "has_survivor l = (K \<noteq> {})" using set_all_indices(1) [of g round m p] by (auto simp: l(3) K_def)
  have free: "has_free_space l = (L \<noteq> K)"
  proof -
    have "freed_indices round m p g ?is = [] \<longleftrightarrow> L - K = {}"
      using set_all_indices(2) [of g round m p] by (simp add: K_def L_def flip: set_empty image_is_empty [of "unit_offset g"])
    then show ?thesis using K by (auto simp: l(4))
  qed
  have ks: "set (kept_indices round m p g ?is) \<subseteq> {..<unit_count g}" "distinct (kept_indices round m p g ?is)"
    by (auto simp: index_defs)
  then have "inj_on (unit_offset g) (set (kept_indices round m p g ?is))"
    by (intro inj_onI) (metis lessThan_iff subsetD unit_offset_inj)
  from card_image [OF this] have card: "length (kept_indices round m p g ?is) = card K"
    using ks(2) by (simp add: set_all_indices(1) K_def distinct_card)
  have "unit_offset g ` set ?is = unit_offsets g" by (auto simp: unit_offsets_def)
  with l(2) have sw: "swept round p g (unit_offsets g) m (lp_mem l)" by simp
  have age: "unit_at (lp_mem l) (unit_addr p off) = aged (unit_at m (unit_addr p off))" if "off \<in> K" for off
    using sw that by (auto simp: swept_def K_def kept_units_def live_units_def unit_life_of_def Let_def)
  show ?thesis
    by (rule exI [of _ l], intro conjI ballI)
      (use l(1,5,6) surv free card age sw swept_live [OF sw] in \<open>simp_all add: l0_def K_def swept_def\<close>)
qed

text \<open>A page back in service: its run-out flag or its mark has changed, and nothing else of its record.\<close>

definition only_flags :: "(page_unit_alloc \<Rightarrow> page_unit_alloc) \<Rightarrow> bool" where
  "only_flags f \<longleftrightarrow> (\<forall>a. m_unit_size_in_page (f a) = m_unit_size_in_page a \<and>
     m_next_allocate_unit_offset (f a) = m_next_allocate_unit_offset a \<and> m_freed_unit_offset (f a) = m_freed_unit_offset a)"

lemma flag_update_page:
  assumes inv: "heap_inv h C" and p: "unit_page h p g" and fr: "page_frame p g (heap_mem h) m" and pi: "page_inv m p g {}"
    and ro: "m_run_out (alloc_at m (alloc_head p)) = run_out_of h p"
    and f: "only_flags f" "run_out_of h p = 0 \<Longrightarrow> m_run_out (f (alloc_at m (alloc_head p))) = 0"
  defines "m' \<equiv> upd_alloc (alloc_head p) f m" and "h' \<equiv> upd_mem (\<lambda>_. upd_alloc (alloc_head p) f m) h"
  shows "heap_inv h' C" "unit_page h' p g" "page_frame p g (heap_mem h) m'" "live_units m' p g = live_units m p g"
    "unit_at m' = unit_at m" "run_out_of h' p = m_run_out (f (alloc_at m (alloc_head p)))"
proof -
  have A: "page_inv m' p g {}" "page_frame p g m m'"
    using alloc_update_page [of f] f(1) pi by (simp_all add: only_flags_def m'_def)
  show F: "page_frame p g (heap_mem h) m'" using fr A(2) by (rule page_frame_trans)
  have r: "m_run_out (alloc_at m' (alloc_head p)) = m_run_out (f (alloc_at m (alloc_head p)))" by (simp add: m'_def)
  have z: "run_out_of h p = 0 \<Longrightarrow> m_run_out (alloc_at m' (alloc_head p)) = 0" using f(2) by (simp add: r)
  show "heap_inv h' C" "unit_page h' p g"
    using page_update(1,2) [OF inv p F A(1) z] by (simp_all add: h'_def m'_def)
  show "live_units m' p g = live_units m p g" by (simp add: m'_def live_units_def)
  show "unit_at m' = unit_at m" by (simp add: m'_def upd_alloc_def)
  show "run_out_of h' p = m_run_out (f (alloc_at m (alloc_head p)))" using r by (simp add: run_out_of_def h'_def m'_def)
qed

lemma upd_mem_collapse: "upd_mem f (upd_mem (\<lambda>_. m) h) = upd_mem (\<lambda>_. f m) h"
  by (simp add: upd_mem_def heap_mem_def)

lemma upd_alloc_id: "upd_alloc a (\<lambda>x. x) m = m"
  by (simp add: upd_alloc_def)

definition page_marked :: "mem \<Rightarrow> addr \<Rightarrow> bool" where
  "page_marked m p \<longleftrightarrow> m_mark_as_run_out_in_global_pool (alloc_at m (alloc_head p))"

lemma sweep_cut_page_spec:
  fixes s :: "'os sweep_state" and g :: unit_alloc_group and p :: addr and round :: u8
  defines "h \<equiv> sw_heap s"
  defines "m \<equiv> heap_mem h"
  defines "L \<equiv> live_units m p g" and "K \<equiv> kept_units round m p g" and "gone \<equiv> run_out_of h p \<noteq> 0"
  assumes inv: "heap_inv h C" and p: "unit_page h p g" and own: "gone \<Longrightarrow> p \<notin> C"
    and ng: "\<forall>off \<in> unit_offsets g. unit_life_of m p off \<noteq> SELF_MARKED"
  shows "\<exists>s'. sweep_cut_page round p s = Some (gone \<and> L \<noteq> {} \<and> K = {}, s') \<and>
    heap_inv (sw_heap s') C \<and> chunk_of (h_chunk (sw_heap s')) = chunk_of (h_chunk h) \<and>
    m_all_page_list (sw_heap s') = m_all_page_list h \<and>
    m_free_pages (sw_heap s') = (if gone \<and> L \<noteq> K \<and> K \<noteq> {}
      then (m_free_pages h)[group_index g := p # m_free_pages h ! group_index g] else m_free_pages h) \<and>
    run_out_of (sw_heap s') p = (if gone \<and> L \<noteq> K \<and> K \<noteq> {} then 0 else run_out_of h p) \<and>
    page_frame p g m (heap_mem (sw_heap s')) \<and> unit_page (sw_heap s') p g \<and> live_units (heap_mem (sw_heap s')) p g = K \<and>
    (\<forall>off \<in> K. unit_at (heap_mem (sw_heap s')) (unit_addr p off) = aged (unit_at m (unit_addr p off))) \<and>
    sw_freed s' = sweep_calls m p g (freed_indices round m p g [0..<unit_count g]) @ sw_freed s \<and>
    (\<not> gone \<and> K = {} \<longrightarrow> page_marked (heap_mem (sw_heap s')) p)"
    (is "\<exists>s'. ?P s'")
proof -
  let ?a = "alloc_head p" and ?refill = "gone \<and> L \<noteq> K \<and> K \<noteq> {}"
  note H = heap_invD [OF inv]
  have P: "(p, 1) \<in> chunk_ranges (chunk_of (h_chunk h))" "page_inv m p g {}" using p by (auto simp: unit_page_def m_def)
  note fit = chunk_page_facts [OF H(1) P(1)]
  have size: "ucast (m_unit_size_in_page (alloc_at m ?a)) = group_size g"
    using page_inv_size [OF P(2)] by (simp add: group_size_16)
  have cnt: "unat (units_in_page (group_size g + sizeof_UnitHead)) = unit_count g"
    using units_in_page_eq [of g] by (simp add: group_size_16 add.commute)
  have K: "K \<subseteq> L" by (auto simp: K_def L_def kept_units_def)
  from sweep_all_units [OF fit(2) P(2) ng, of round "sw_alive s" "sw_freed s"] obtain l where
    l: "sweep_units round p (group_size g + sizeof_UnitHead) (?a + sizeof_PageUnitAlloc) [0..<unit_count g]
        \<lparr>has_survivor = False, has_free_space = False, lp_alive = sw_alive s, lp_mem = m, lp_freed = sw_freed s\<rparr> = Some l"
      "has_survivor l = (K \<noteq> {})" "has_free_space l = (L \<noteq> K)"
      "lp_freed l = sweep_calls m p g (freed_indices round m p g [0..<unit_count g]) @ sw_freed s"
      "page_inv (lp_mem l) p g {}" "page_frame p g m (lp_mem l)" "live_units (lp_mem l) p g = K"
      "\<forall>off \<in> K. unit_at (lp_mem l) (unit_addr p off) = aged (unit_at m (unit_addr p off))"
      "m_run_out (alloc_at (lp_mem l) ?a) = run_out_of h p"
    by (auto simp: K_def L_def run_out_of_def m_def)
  define f :: "page_unit_alloc \<Rightarrow> page_unit_alloc" where "f = (\<lambda>a. if ?refill then a\<lparr>m_run_out := 0\<rparr>
    else if \<not> gone \<and> K = {} then a\<lparr>m_mark_as_run_out_in_global_pool := True\<rparr> else a)"
  define h1 where "h1 = upd_mem (\<lambda>_. upd_alloc ?a f (lp_mem l)) h"
  have f: "only_flags f" "m_run_out (f (alloc_at (lp_mem l) ?a)) = (if ?refill then 0 else run_out_of h p)"
    by (simp_all add: only_flags_def f_def l(9))
  have z: "run_out_of h p = 0 \<Longrightarrow> m_run_out (f (alloc_at (lp_mem l) ?a)) = 0" by (simp add: f(2))
  note U = flag_update_page [OF inv p l(6) [unfolded m_def] l(5,9) f(1) z, folded h1_def m_def]
  define h2 where "h2 = (if ?refill then h1\<lparr>m_free_pages := (m_free_pages h1)[group_index g := p # m_free_pages h1 ! group_index g]\<rparr> else h1)"
  define s' where "s' = s\<lparr>sw_heap := h2, sw_freed := lp_freed l,
    sw_alive := (if K \<noteq> {} then lp_alive l + (sizeof_PageHead + sizeof_PageUnitAlloc) else lp_alive l)\<rparr>"
  have np: "p \<notin> set (m_free_pages h1 ! group_index g)" if "?refill" using that H(3) [of p g] fit(2) by (auto simp: h1_def gone_def)
  have ret: "return_page p g h1 = Some h2" "heap_inv h2 C" if "?refill"
    using return_page_spec [OF U(1,2) _ np] that own U(6) f(2) by (auto simp: h2_def)
  have out: "\<not> ?refill \<Longrightarrow> h2 = h1" unfolding h2_def by (simp only: if_False)
  have h2: "heap_inv h2 C" "unit_page h2 p g" "heap_mem h2 = upd_alloc ?a f (lp_mem l)"
      "chunk_of (h_chunk h2) = chunk_of (h_chunk h)" "m_all_page_list h2 = m_all_page_list h"
      "m_free_pages h2 = (if ?refill then (m_free_pages h)[group_index g := p # m_free_pages h ! group_index g] else m_free_pages h)"
  proof -
    show "heap_inv h2 C" using ret(2) U(1) out by metis
    show "unit_page h2 p g" using U(2) by (simp add: h2_def unit_page_def)
  qed (simp_all add: h2_def h1_def)
  have "sweep_cut_page round p s = Some (gone \<and> L \<noteq> {} \<and> K = {}, s')"
  proof -
    have sz: "ucast (m_unit_size_in_page (alloc_at (lp_mem l) ?a)) = group_size g"
      using page_inv_size [OF l(5)] by (simp add: group_size_16)
    have c: "L \<noteq> {} \<and> K = {} \<longleftrightarrow> L \<noteq> K \<and> K = {}" by auto
    note ev = sweep_cut_page_def Let_def l(1-3) size cnt h_def [symmetric] m_def [symmetric] upd_mem_collapse sz eval_group_size
    show ?thesis
    proof (cases ?refill)
      case True
      then have h1: "h1 = upd_mem (\<lambda>_. upd_alloc ?a (\<lambda>a. a\<lparr>m_run_out := 0\<rparr>) (lp_mem l)) h" by (simp add: h1_def f_def)
      have comm: "s\<lparr>sw_freed := a, sw_heap := b, sw_alive := c\<rparr> = s\<lparr>sw_heap := b, sw_freed := a, sw_alive := c\<rparr>" for a b c by simp
      show ?thesis using True ret(1) [OF True, unfolded h1] by (simp add: ev s'_def gone_def run_out_of_def comm)
    next
      case False
      then have h2: "h2 = h1" by (rule out)
      show ?thesis
      proof (cases "\<not> gone \<and> K = {}")
        case True
        then have h1: "h1 = upd_mem (\<lambda>_. upd_alloc ?a (\<lambda>a. a\<lparr>m_mark_as_run_out_in_global_pool := True\<rparr>) (lp_mem l)) h"
          by (simp add: h1_def f_def)
        show ?thesis using True by (simp add: ev s'_def gone_def run_out_of_def h2 h1)
      next
        case none: False
        then have "f = (\<lambda>a. a)" unfolding f_def using False by (simp only: if_False)
        then have h1: "h1 = upd_mem (\<lambda>_. lp_mem l) h" by (simp add: h1_def upd_alloc_id)
        show ?thesis using False none by (cases "K = {}") (auto simp: ev s'_def gone_def run_out_of_def h2 h1 c)
      qed
    qed
  qed
  moreover have "run_out_of h2 p = (if ?refill then 0 else run_out_of h p)" using U(6) f(2) by (simp add: run_out_of_def h2(3) h1_def)
  moreover have "page_marked (heap_mem h2) p" if "\<not> gone \<and> K = {}"
    using that unfolding h2(3) by (simp add: page_marked_def f_def)
  ultimately show ?thesis using h2 U(3-5) l(4,7,8) by (intro exI [of _ s']) (simp add: s'_def)
qed

section \<open>A page\<close>

text \<open>
  What a sweep makes of a page, read off the memory before it: the page is dropped, or it stays, or it
  stays and its group's pool gets it back. \<open>page_calls\<close> are the calls of the free callback.
\<close>

definition page_group :: "mem \<Rightarrow> addr \<Rightarrow> unit_alloc_group" where
  "page_group m p = the (eval_group_by_small_unit_size (ucast (m_unit_size_in_page (alloc_at m (alloc_head p)))))"

definition page_is_cut :: "mem \<Rightarrow> addr \<Rightarrow> bool" where
  "page_is_cut m p \<longleftrightarrow> m_page_count_if_huge (page_at m p) = 0"

definition page_run_out :: "mem \<Rightarrow> addr \<Rightarrow> bool" where
  "page_run_out m p \<longleftrightarrow> m_run_out (alloc_at m (alloc_head p)) \<noteq> 0"

definition page_live :: "mem \<Rightarrow> addr \<Rightarrow> u16 set" where
  "page_live m p = live_units m p (page_group m p)"

definition page_kept :: "u8 \<Rightarrow> mem \<Rightarrow> addr \<Rightarrow> u16 set" where
  "page_kept round m p = kept_units round m p (page_group m p)"

definition dropped :: "u8 \<Rightarrow> mem \<Rightarrow> addr \<Rightarrow> bool" where
  "dropped round m p \<longleftrightarrow>
     (if page_is_cut m p then page_run_out m p \<and> page_live m p \<noteq> {} \<and> page_kept round m p = {}
      else \<not> kept round (unit_at m (p + sizeof_PageHead)))"

definition returned :: "u8 \<Rightarrow> mem \<Rightarrow> addr \<Rightarrow> bool" where
  "returned round m p \<longleftrightarrow> page_is_cut m p \<and> page_run_out m p \<and> page_kept round m p \<noteq> {} \<and> page_kept round m p \<noteq> page_live m p"

definition page_calls :: "u8 \<Rightarrow> mem \<Rightarrow> addr \<Rightarrow> addr list" where
  "page_calls round m p =
     (if page_is_cut m p
      then sweep_calls m p (page_group m p) (freed_indices round m p (page_group m p) [0..<unit_count (page_group m p)])
      else let h = unit_at m (p + sizeof_PageHead) in
        if kept round h \<or> m_life h = RELEASED then [] else free_calls (p + sizeof_PageHead) h)"

text \<open>A page that stays: what it holds afterwards.\<close>

definition survived :: "u8 \<Rightarrow> mem \<Rightarrow> addr \<Rightarrow> mem \<Rightarrow> bool" where
  "survived round m p m' \<longleftrightarrow>
     (if page_is_cut m p
      then page_live m' p = page_kept round m p \<and>
        (\<forall>off \<in> page_kept round m p. unit_at m' (unit_addr p off) = aged (unit_at m (unit_addr p off)))
      else unit_at m' (p + sizeof_PageHead) = aged (unit_at m (p + sizeof_PageHead))) \<and>
     (page_is_cut m p \<longrightarrow> page_run_out m' p = (page_run_out m p \<and> \<not> returned round m p)) \<and>
     (page_is_cut m p \<and> \<not> page_run_out m p \<and> page_kept round m p = {} \<longrightarrow> page_marked m' p)"

definition sweepable :: "'os heap \<Rightarrow> addr set \<Rightarrow> addr \<Rightarrow> bool" where
  "sweepable h C p \<longleftrightarrow>
     (\<exists>g. unit_page h p g \<and> (run_out_of h p \<noteq> 0 \<longrightarrow> p \<notin> C) \<and>
        (\<forall>off \<in> unit_offsets g. unit_life_of (heap_mem h) p off \<noteq> SELF_MARKED)) \<or>
     (\<exists>n. huge_page (chunk_of (h_chunk h)) (heap_mem h) p n \<and>
        m_life (unit_at (heap_mem h) (p + sizeof_PageHead)) \<noteq> SELF_MARKED)"

lemma page_group_eq: "page_inv m p g X \<Longrightarrow> page_group m p = g"
  by (simp add: page_group_def page_inv_size group_size_16 eval_group_size)

lemma heap_drop_run:
  assumes inv: "heap_inv h C" and r: "(p, n) \<in> chunk_ranges (chunk_of (h_chunk h))" and free: "p \<notin> C"
    "\<And>g. p \<notin> set (m_free_pages h ! group_index g)"
  shows "\<exists>c'. free_page p (chunk_of (h_chunk h)) = Some c' \<and> heap_inv (h\<lparr>h_chunk := (h_chunk h)\<lparr>chunk_of := c'\<rparr>\<rparr>) C \<and>
    chunk_ranges c' = {r \<in> chunk_ranges (chunk_of (h_chunk h)). fst r \<noteq> p}"
proof -
  note H = heap_invD [OF inv]
  obtain c' where c': "free_page p (chunk_of (h_chunk h)) = Some c'" "chunk_inv c'"
      "chunk_ranges c' = chunk_ranges (chunk_of (h_chunk h)) - {(p, n)}"
    using chunk_release_law [OF H(1) r] by blast
  define h' where "h' = h\<lparr>h_chunk := (h_chunk h)\<lparr>chunk_of := c'\<rparr>\<rparr>"
  have m: "heap_mem h' = heap_mem h" "m_free_pages h' = m_free_pages h" "chunk_of (h_chunk h') = c'"
    by (simp_all add: h'_def heap_mem_def)
  have up: "unit_page h' q g" "run_out_of h' q = run_out_of h q" if "unit_page h q g" "q \<noteq> p" for q g
    using that c'(3) by (auto simp: unit_page_def run_out_of_def m)
  have "heap_inv h' C"
    unfolding heap_inv_def m
  proof (intro conjI allI ballI impI)
    fix g q assume q: "q \<in> set (m_free_pages h ! group_index g)" "q \<noteq> 0"
    then have "q \<noteq> p" using free(2) by blast
    with up [of q g] H(3) [OF q] show "unit_page h' q g" "run_out_of h' q = 0" "q \<notin> C" by auto
  next
    fix q assume q: "q \<in> C"
    then have "q \<noteq> p" using free(1) by blast
    with H(5) [OF q] up show "\<exists>g. unit_page h' q g" by blast
  qed (use H(2,4) c'(2) in auto)
  moreover have "chunk_ranges c' = {r \<in> chunk_ranges (chunk_of (h_chunk h)). fst r \<noteq> p}"
  proof (intro set_eqI iffI)
    fix x assume "x \<in> chunk_ranges c'"
    then have "x \<in> chunk_ranges (chunk_of (h_chunk h))" "x \<noteq> (p, n)" by (simp_all add: c'(3))
    with chunk_runs_unique [OF H(1) r, of "snd x"] show "x \<in> {r \<in> chunk_ranges (chunk_of (h_chunk h)). fst r \<noteq> p}"
      by (cases x) auto
  qed (auto simp: c'(3))
  ultimately show ?thesis using c'(1) by (auto simp: h'_def)
qed

lemma heap_rechain:
  fixes p n a :: addr
  assumes inv: "heap_inv h C"
  defines "h' \<equiv> (upd_mem (upd_page p (\<lambda>x. x\<lparr>m_next_page := n\<rparr>)) h)\<lparr>m_all_page_list := a\<rparr>"
  shows "heap_inv h' C" "unit_page h' q g = unit_page h q g" "run_out_of h' q = run_out_of h q"
proof -
  have l: "unit_lists (upd_page p f m) q g {} fs bs = unit_lists m q g {} fs bs" for f m q g fs bs
    using unit_lists_eqI [of "upd_page p f m" q m g] unit_lists_eqI [of m q "upd_page p f m" g]
    by (auto simp: upd_page_def)
  have up: "unit_page h' q g = unit_page h q g" "run_out_of h' q = run_out_of h q" for q g
    by (simp_all add: unit_page_def page_inv_def h'_def l run_out_of_def) (simp_all add: upd_page_def)
  then show "unit_page h' q g = unit_page h q g" "run_out_of h' q = run_out_of h q" by simp_all
  show "heap_inv h' C" by (rule heap_inv_transfer [OF inv]) (use up heap_invD [OF inv] in \<open>simp_all add: h'_def\<close>)
qed

text \<open>The page before it is handed back.\<close>

definition content_swept :: "u8 \<Rightarrow> addr \<Rightarrow> addr set \<Rightarrow> 'os sweep_state \<Rightarrow> 'os sweep_state \<Rightarrow> bool" where
  "content_swept round p C s s' \<longleftrightarrow> (let h = sw_heap s; h' = sw_heap s'; m = heap_mem h in
     heap_inv h' C \<and> chunk_of (h_chunk h') = chunk_of (h_chunk h) \<and> m_all_page_list h' = m_all_page_list h \<and>
     page_at (heap_mem h') = page_at m \<and> only_page p m (heap_mem h') \<and>
     (\<not> dropped round m p \<longrightarrow> survived round m p (heap_mem h')) \<and>
     (dropped round m p \<longrightarrow> p \<notin> C \<and> (\<forall>g. p \<notin> set (m_free_pages h' ! group_index g))) \<and>
     (\<forall>g. unit_page h p g \<longrightarrow> unit_page h' p g) \<and>
     (\<forall>g. set (m_free_pages h' ! group_index g) =
        set (m_free_pages h ! group_index g) \<union> (if returned round m p \<and> g = page_group m p then {p} else {})) \<and>
     sw_freed s' = page_calls round m p @ sw_freed s)"

lemma sweep_cut_content:
  fixes s :: "'os sweep_state"
  defines "h \<equiv> sw_heap s"
  assumes inv: "heap_inv h C" and p: "unit_page h p g" "run_out_of h p \<noteq> 0 \<longrightarrow> p \<notin> C"
    and ng: "\<forall>off \<in> unit_offsets g. unit_life_of (heap_mem h) p off \<noteq> SELF_MARKED"
  shows "\<exists>s'. sweep_cut_page round p s = Some (dropped round (heap_mem h) p, s') \<and> content_swept round p C s s'"
proof -
  let ?m = "heap_mem h"
  note H = heap_invD [OF inv]
  have P: "page_inv ?m p g {}" "page_is_cut ?m p" "(p, 1) \<in> chunk_ranges (chunk_of (h_chunk h))"
    using p(1) by (simp_all add: unit_page_def page_is_cut_def)
  note fit = chunk_page_facts [OF H(1) P(3)]
  have g: "page_group ?m p = g" "page_live ?m p = live_units ?m p g" "page_kept round ?m p = kept_units round ?m p g"
    using page_group_eq [OF P(1)] by (simp_all add: page_live_def page_kept_def)
  have ro: "page_run_out ?m p \<longleftrightarrow> run_out_of h p \<noteq> 0" by (simp add: page_run_out_def run_out_of_def)
  let ?ret = "run_out_of h p \<noteq> 0 \<and> live_units ?m p g \<noteq> kept_units round ?m p g \<and> kept_units round ?m p g \<noteq> {}"
  from sweep_cut_page_spec [of s C p g round, folded h_def, OF inv p(1) _ ng] p(2) obtain s' where
    s': "sweep_cut_page round p s = Some (run_out_of h p \<noteq> 0 \<and> live_units ?m p g \<noteq> {} \<and> kept_units round ?m p g = {}, s')"
      "heap_inv (sw_heap s') C" "chunk_of (h_chunk (sw_heap s')) = chunk_of (h_chunk h)" "m_all_page_list (sw_heap s') = m_all_page_list h"
      "m_free_pages (sw_heap s') = (if ?ret then (m_free_pages h)[group_index g := p # m_free_pages h ! group_index g] else m_free_pages h)"
      "run_out_of (sw_heap s') p = (if ?ret then 0 else run_out_of h p)"
      "page_frame p g ?m (heap_mem (sw_heap s'))" "unit_page (sw_heap s') p g"
      "live_units (heap_mem (sw_heap s')) p g = kept_units round ?m p g"
      "\<forall>off \<in> kept_units round ?m p g. unit_at (heap_mem (sw_heap s')) (unit_addr p off) = aged (unit_at ?m (unit_addr p off))"
      "sw_freed s' = sweep_calls ?m p g (freed_indices round ?m p g [0..<unit_count g]) @ sw_freed s"
      "\<not> run_out_of h p \<noteq> 0 \<and> kept_units round ?m p g = {} \<longrightarrow> page_marked (heap_mem (sw_heap s')) p"
    by blast
  have d: "dropped round ?m p \<longleftrightarrow> run_out_of h p \<noteq> 0 \<and> live_units ?m p g \<noteq> {} \<and> kept_units round ?m p g = {}"
    by (simp add: dropped_def P(2) g ro)
  have r: "returned round ?m p \<longleftrightarrow> ?ret" by (auto simp: returned_def P(2) g ro)
  have g': "page_group (heap_mem (sw_heap s')) p = g" using s'(8) page_group_eq by (auto simp: unit_page_def)
  have gi: "group_index g' < length (m_free_pages h)" for g' using group_index_max H(2) by simp
  have pool: "set (m_free_pages (sw_heap s') ! group_index g') =
      set (m_free_pages h ! group_index g') \<union> (if returned round ?m p \<and> g' = page_group ?m p then {p} else {})" for g'
    using s'(5) gi [of g'] by (cases "g' = g") (auto simp: r g(1))
  have "content_swept round p C s s'"
    unfolding content_swept_def Let_def h_def [symmetric]
  proof (intro conjI impI allI)
    show "only_page p ?m (heap_mem (sw_heap s'))" using s'(7) fit(1) by (rule page_frame_only)
    show "survived round ?m p (heap_mem (sw_heap s'))"
      using s'(6,9,10,12) by (simp add: survived_def P(2) g r page_live_def g' page_run_out_def run_out_of_def)
    show "unit_page (sw_heap s') p g1" if "unit_page h p g1" for g1
      using that s'(8) page_group_eq g(1) by (auto simp: unit_page_def)
    show "sw_freed s' = page_calls round ?m p @ sw_freed s" using s'(11) by (simp add: page_calls_def P(2) g)
    show "p \<notin> C" if "dropped round ?m p" using that d p(2) by blast
    show "p \<notin> set (m_free_pages (sw_heap s') ! group_index g1)" if "dropped round ?m p" for g1
      using that H(3) [of p g1] fit(2) unfolding pool r d by auto
  qed (use s' pool in \<open>auto simp: page_frame_def\<close>)
  with s'(1) show ?thesis unfolding d by blast
qed

lemma upd_unit_noop: "f (unit_at m u) = unit_at m u \<Longrightarrow> upd_unit u f m = m"
  by (simp add: upd_unit_def)

lemma check_huge_unit:
  assumes "m_life h \<noteq> SELF_MARKED" "h = unit_at m u"
  shows "check_and_free_unmarked_unit round u 0 (m, freed) =
    Some (kept round h, upd_unit u (if kept round h then aged else (\<lambda>h. h\<lparr>m_life := RELEASED\<rparr>)) m,
      (if kept round h \<or> m_life h = RELEASED then [] else free_calls u h) @ freed)"
proof -
  have ev: "upd_unit u aged m = m" if "m_life h = PENDING"
    using that by (intro upd_unit_noop) (simp add: aged_def flip: assms(2))
  have rel: "upd_unit u (\<lambda>h. h\<lparr>m_life := RELEASED\<rparr>) m = m" if "m_life h = RELEASED"
    using that by (intro upd_unit_noop) (simp flip: assms(2))
  have surv: "upd_unit u (\<lambda>h. h\<lparr>m_age := (if m_age h \<noteq> 0 then m_age h - 1 else m_age h), m_life := UNMARKED\<rparr>) m = upd_unit u aged m"
    if "m_life h \<noteq> PENDING" using that by (simp add: upd_unit_def aged_def flip: assms(2))
  show ?thesis
    using assms(1) ev rel surv by (cases "m_life h") (auto simp: check_and_free_unmarked_unit_def Let_def kept_def free_calls_def
      simp flip: assms(2))
qed

lemma sweep_huge_content:
  fixes s :: "'os sweep_state"
  defines "h \<equiv> sw_heap s"
  assumes inv: "heap_inv h C" and p: "huge_page (chunk_of (h_chunk h)) (heap_mem h) p n"
    and ng: "m_life (unit_at (heap_mem h) (p + sizeof_PageHead)) \<noteq> SELF_MARKED"
  shows "\<exists>s'. sweep_huge_page round p s = Some (dropped round (heap_mem h) p, s') \<and> content_swept round p C s s'"
proof -
  let ?m = "heap_mem h" and ?u = "p + sizeof_PageHead"
  note H = heap_invD [OF inv]
  have P: "(p, n) \<in> chunk_ranges (chunk_of (h_chunk h))" "\<not> page_is_cut ?m p" using p by (auto simp: huge_page_def page_is_cut_def)
  note fit = chunk_page_facts [OF H(1) P(1)]
  have nu: "\<not> unit_page h p g" for g using P(2) by (simp add: unit_page_def page_is_cut_def)
  have no: "?u \<noteq> unit_addr q off" if "unit_page h q g" "off \<in> unit_offsets g" for q g off
    using run_head_no_unit [OF H(1) _ P(1), of q g] that by (auto simp: unit_page_def)
  let ?h = "unit_at ?m ?u"
  define f where "f = (if kept round ?h then aged else (\<lambda>h. h\<lparr>m_life := RELEASED\<rparr>))"
  have c: "check_and_free_unmarked_unit round ?u 0 (?m, sw_freed s) =
      Some (kept round ?h, upd_unit ?u f ?m, page_calls round ?m p @ sw_freed s)"
    using check_huge_unit [OF ng refl, of round "sw_freed s"] P(2) by (simp add: f_def page_calls_def Let_def)
  define h' where "h' = upd_mem (upd_unit ?u f) h"
  define s' where "s' = s\<lparr>sw_heap := h', sw_freed := page_calls round ?m p @ sw_freed s,
    sw_alive := (if kept round ?h then sw_alive s + m_page_count_if_huge (page_at ?m p) * NORMAL_PAGE_SIZE else sw_alive s)\<rparr>"
  have inv': "heap_inv h' C" unfolding h'_def
    by (rule heap_inv_upd_unit(1) [OF inv]) (use no in \<open>auto simp: f_def aged_def\<close>)
  have d: "dropped round ?m p \<longleftrightarrow> \<not> kept round ?h" by (simp add: dropped_def P(2))
  have hs: "heap_mem h' = upd_unit ?u f ?m" "m_free_pages h' = m_free_pages h" by (simp_all add: h'_def)
  have "sweep_huge_page round p s = Some (dropped round ?m p, s')"
  proof -
    have e: "upd_mem (\<lambda>_. upd_unit ?u f ?m) h = h'" by (simp add: h'_def upd_mem_def heap_mem_def)
    have "page_at (upd_unit ?u f ?m) p = page_at ?m p" by (simp add: upd_unit_def)
    then show ?thesis using c e by (simp add: sweep_huge_page_def h_def [symmetric] s'_def d Let_def)
  qed
  moreover have "content_swept round p C s s'"
    unfolding content_swept_def Let_def h_def [symmetric]
  proof (intro conjI impI allI)
    show "only_page p ?m (heap_mem (sw_heap s'))"
      using head_range [OF fit(1)] by (auto simp: s'_def hs only_page_def upd_unit_def)
    show "survived round ?m p (heap_mem (sw_heap s'))" if "\<not> dropped round ?m p"
      using that P(2) by (simp add: survived_def returned_def s'_def hs d f_def)
    show "p \<notin> C" using H(5) [of p] nu by blast
    show "p \<notin> set (m_free_pages (sw_heap s') ! group_index g)" for g
      using H(3) [of p g] nu fit(2) by (auto simp: s'_def hs)
  qed (use inv' nu P(2) in \<open>simp_all add: s'_def hs returned_def, simp_all add: h'_def upd_unit_def\<close>)
  ultimately show ?thesis by blast
qed

text \<open>The page handed back.\<close>

definition page_swept :: "u8 \<Rightarrow> addr \<Rightarrow> addr set \<Rightarrow> 'os sweep_state \<Rightarrow> 'os sweep_state \<Rightarrow> bool" where
  "page_swept round p C s s' \<longleftrightarrow> (let h = sw_heap s; h' = sw_heap s'; m = heap_mem h; m' = heap_mem h' in
     heap_inv h' C \<and> only_page p m m' \<and> (\<forall>g. unit_page h p g \<and> \<not> dropped round m p \<longrightarrow> unit_page h' p g) \<and>
     chunk_ranges (chunk_of (h_chunk h')) = {r \<in> chunk_ranges (chunk_of (h_chunk h)). \<not> (fst r = p \<and> dropped round m p)} \<and>
     (if dropped round m p then m_all_page_list h' = m_all_page_list h \<and> page_at m' = page_at m
      else m_all_page_list h' = p \<and> page_at m' p = (page_at m p)\<lparr>m_next_page := m_all_page_list h\<rparr> \<and> survived round m p m') \<and>
     (\<forall>g. set (m_free_pages h' ! group_index g) =
        set (m_free_pages h ! group_index g) \<union> (if returned round m p \<and> g = page_group m p then {p} else {})) \<and>
     sw_freed s' = page_calls round m p @ sw_freed s)"

lemma survived_rechain:
  "survived round m p (upd_page q f m') = survived round m p m'"
proof -
  have "page_live (upd_page q f m') p = page_live m' p"
    by (simp add: page_live_def page_group_def live_units_def unit_life_of_def upd_page_def)
  then show ?thesis by (simp add: survived_def page_run_out_def page_marked_def)
qed

lemma finish_page_spec:
  assumes c: "content_swept round p C s s1" and r: "(p, n) \<in> chunk_ranges (chunk_of (h_chunk (sw_heap s)))"
  shows "\<exists>s'. finish_page (dropped round (heap_mem (sw_heap s)) p) p s1 = Some s' \<and> page_swept round p C s s'"
proof -
  define h where "h = sw_heap s"
  define h1 where "h1 = sw_heap s1"
  let ?m = "heap_mem h"
  have C: "heap_inv h1 C" "chunk_of (h_chunk h1) = chunk_of (h_chunk h)" "m_all_page_list h1 = m_all_page_list h"
      "page_at (heap_mem h1) = page_at ?m" "only_page p ?m (heap_mem h1)" "\<not> dropped round ?m p \<Longrightarrow> survived round ?m p (heap_mem h1)"
      "dropped round ?m p \<Longrightarrow> p \<notin> C" "\<And>g. dropped round ?m p \<Longrightarrow> p \<notin> set (m_free_pages h1 ! group_index g)"
      "\<And>g. unit_page h p g \<Longrightarrow> unit_page h1 p g" "\<And>g. set (m_free_pages h1 ! group_index g) =
        set (m_free_pages h ! group_index g) \<union> (if returned round ?m p \<and> g = page_group ?m p then {p} else {})"
      "sw_freed s1 = page_calls round ?m p @ sw_freed s"
    using c unfolding content_swept_def Let_def h_def h1_def by blast+
  show ?thesis
  proof (cases "dropped round ?m p")
    case True
    obtain c' where c': "free_page p (chunk_of (h_chunk h1)) = Some c'" "heap_inv (h1\<lparr>h_chunk := (h_chunk h1)\<lparr>chunk_of := c'\<rparr>\<rparr>) C"
        "chunk_ranges c' = {r \<in> chunk_ranges (chunk_of (h_chunk h1)). fst r \<noteq> p}"
      using heap_drop_run [OF C(1) _ C(7) C(8), of n] True r C(2) by (auto simp: h_def)
    let ?s = "s1\<lparr>sw_heap := h1\<lparr>h_chunk := (h_chunk h1)\<lparr>chunk_of := c'\<rparr>\<rparr>\<rparr>"
    have "mem_of (h_chunk h1) = heap_mem h1" by (simp add: heap_mem_def)
    then have "page_swept round p C s ?s"
      unfolding page_swept_def Let_def h_def [symmetric] using True c'(2,3) C by simp
    then show ?thesis using True c'(1) by (simp add: finish_page_def Let_def h1_def h_def)
  next
    case False
    define h2 where "h2 = (upd_mem (upd_page p (\<lambda>x. x\<lparr>m_next_page := m_all_page_list h1\<rparr>)) h1)\<lparr>m_all_page_list := p\<rparr>"
    note R = heap_rechain [OF C(1), where p = p and n = "m_all_page_list h1" and a = p, folded h2_def]
    have m2: "heap_mem h2 = upd_page p (\<lambda>x. x\<lparr>m_next_page := m_all_page_list h1\<rparr>) (heap_mem h1)" by (simp add: h2_def)
    have o: "only_page p ?m (heap_mem h2)" using C(5) unfolding m2 by (simp add: only_page_def upd_page_def)
    have v: "survived round ?m p (heap_mem h2)" unfolding m2 survived_rechain by (rule C(6) [OF False])
    have pg: "page_at (heap_mem h2) p = (page_at ?m p)\<lparr>m_next_page := m_all_page_list h\<rparr>" by (simp add: m2 C(3,4) upd_page_def)
    have h2: "chunk_of (h_chunk h2) = chunk_of (h_chunk h)" "m_all_page_list h2 = p" "m_free_pages h2 = m_free_pages h1"
      using C(2) by (simp_all add: h2_def)
    have "page_swept round p C s (s1\<lparr>sw_heap := h2\<rparr>)"
      unfolding page_swept_def Let_def h_def [symmetric] using False R(1,2) o C(9-11) v pg h2 by simp
    moreover have "finish_page False p s1 = Some (s1\<lparr>sw_heap := h2\<rparr>)"
      by (simp add: finish_page_def add_page_back_to_into_chain_def Let_def h2_def h1_def upd_mem_def heap_mem_def)
    ultimately show ?thesis using False by (auto simp: h_def)
  qed
qed

lemma sweep_page_spec:
  assumes "heap_inv (sw_heap s) C" "sweepable (sw_heap s) C p"
  shows "\<exists>s'. sweep_units_in_page round p s = Some s' \<and> page_swept round p C s s'"
proof -
  let ?h = "sw_heap s"
  have "\<exists>n s1. (p, n) \<in> chunk_ranges (chunk_of (h_chunk ?h)) \<and> \<not> m_page_just_allocated (page_at (heap_mem ?h) p) \<and>
      (if m_page_count_if_huge (page_at (heap_mem ?h) p) = 0 then sweep_cut_page round p s else sweep_huge_page round p s) =
        Some (dropped round (heap_mem ?h) p, s1) \<and> content_swept round p C s s1"
    using assms(2) unfolding sweepable_def
  proof (elim disjE exE conjE)
    fix g assume p: "unit_page ?h p g" "run_out_of ?h p \<noteq> 0 \<longrightarrow> p \<notin> C"
      "\<forall>off \<in> unit_offsets g. unit_life_of (heap_mem ?h) p off \<noteq> SELF_MARKED"
    from sweep_cut_content [OF assms(1) this] p(1) show ?thesis by (auto simp: unit_page_def)
  next
    fix n assume p: "huge_page (chunk_of (h_chunk ?h)) (heap_mem ?h) p n"
      "m_life (unit_at (heap_mem ?h) (p + sizeof_PageHead)) \<noteq> SELF_MARKED"
    from sweep_huge_content [OF assms(1) this] p(1) show ?thesis by (auto simp: huge_page_def)
  qed
  then obtain n s1 where "(p, n) \<in> chunk_ranges (chunk_of (h_chunk ?h))" "\<not> m_page_just_allocated (page_at (heap_mem ?h) p)"
      "(if m_page_count_if_huge (page_at (heap_mem ?h) p) = 0 then sweep_cut_page round p s else sweep_huge_page round p s) =
        Some (dropped round (heap_mem ?h) p, s1)" "content_swept round p C s s1"
    by blast
  with finish_page_spec [OF this(4,1)] show ?thesis by (simp add: sweep_units_in_page_def)
qed

section \<open>The list of a worker\<close>

text \<open>Sweeping one page does not touch what the sweep reads of another.\<close>

lemma same_run_reads:
  assumes s: "same_run q m m'" and f: "page_fits q"
  shows "page_group m' q = page_group m q" "page_is_cut m' q = page_is_cut m q" "page_run_out m' q = page_run_out m q"
    "page_live m' q = page_live m q" "page_kept round m' q = page_kept round m q" "dropped round m' q = dropped round m q"
    "returned round m' q = returned round m q" "page_calls round m' q = page_calls round m q"
    "survived round m0 q m \<Longrightarrow> survived round m0 q m'" "survived round m' q m1 = survived round m q m1"
proof -
  note U = same_run_units [OF s f]
  show g: "page_group m' q = page_group m q" "page_is_cut m' q = page_is_cut m q" "page_run_out m' q = page_run_out m q"
    using s by (simp_all add: page_group_def page_is_cut_def page_run_out_def same_run_def)
  show l: "page_live m' q = page_live m q" by (simp add: page_live_def g U(4))
  show k: "page_kept round m' q = page_kept round m q" for round
    using U(1,4) by (auto simp: page_kept_def g kept_units_def live_units_def)
  show "dropped round m' q = dropped round m q" by (simp add: dropped_def g l k U(2))
  show r: "returned round m' q = returned round m q" for round by (simp add: returned_def g l k)
  have ix: "unit_at m' (unit_addr q (unit_offset gr i)) = unit_at m (unit_addr q (unit_offset gr i))" if "i < unit_count gr" for gr i
    using that by (intro U(1)) (auto simp: unit_offsets_def)
  have "freed_indices round m' q gr [0..<unit_count gr] = freed_indices round m q gr [0..<unit_count gr]" for gr
    by (rule indices_cong(2)) (simp add: ix)
  moreover have "sweep_calls m' q gr (freed_indices round m q gr [0..<unit_count gr]) =
      sweep_calls m q gr (freed_indices round m q gr [0..<unit_count gr])" for gr
    unfolding sweep_calls_def by (rule arg_cong [of _ _ concat], rule map_cong) (auto simp: index_defs ix)
  ultimately show "page_calls round m' q = page_calls round m q" by (simp add: page_calls_def g U(2))
  have "unit_at m' (unit_addr q off) = unit_at m (unit_addr q off)" if "off \<in> page_kept round m0 q" for off m0 round
    using that by (intro U(1)) (auto simp: page_kept_def kept_units_def live_units_def)
  moreover have "page_marked m' q = page_marked m q" using s by (simp add: page_marked_def same_run_def)
  ultimately show "survived round m0 q m \<Longrightarrow> survived round m0 q m'" by (auto simp: survived_def g l U(2) split: if_splits)
  have "unit_at m' (unit_addr q off) = unit_at m (unit_addr q off)" if "off \<in> page_kept round m q" for off
    using that by (intro U(1)) (auto simp: page_kept_def kept_units_def live_units_def)
  then show "survived round m' q m1 = survived round m q m1" by (simp add: survived_def g k r U(2) cong: if_cong)
qed

definition pages_swept :: "u8 \<Rightarrow> addr list \<Rightarrow> addr set \<Rightarrow> addr list \<Rightarrow> 'os sweep_state \<Rightarrow> 'os sweep_state \<Rightarrow> bool" where
  "pages_swept round ps C old s s' \<longleftrightarrow> (let h = sw_heap s; h' = sw_heap s'; m = heap_mem h; m' = heap_mem h' in
     heap_inv h' C \<and> word_at m' = word_at m \<and>
     chunk_ranges (chunk_of (h_chunk h')) =
       {r \<in> chunk_ranges (chunk_of (h_chunk h)). \<not> (fst r \<in> set ps \<and> dropped round m (fst r))} \<and>
     (\<forall>p \<in> set ps. \<not> dropped round m p \<longrightarrow> survived round m p m' \<and> (\<forall>g. unit_page h p g \<longrightarrow> unit_page h' p g)) \<and>
     (\<forall>(q, n) \<in> chunk_ranges (chunk_of (h_chunk h)). q \<notin> set ps \<longrightarrow> same_run q m m') \<and>
     (\<forall>g. set (m_free_pages h' ! group_index g) =
        set (m_free_pages h ! group_index g) \<union> {p \<in> set ps. returned round m p \<and> page_group m p = g}) \<and>
     page_chain m' (m_all_page_list h') (rev (filter (\<lambda>p. \<not> dropped round m p) ps) @ old) \<and>
     sw_freed s' = concat (map (page_calls round m) (rev ps)) @ sw_freed s \<and>
     (\<forall>p \<in> set ps. \<not> dropped round m p \<longrightarrow> sweepable h' C p \<and> page_is_cut m' p = page_is_cut m p))"

lemma same_run_unit_page:
  assumes "same_run q (heap_mem h) (heap_mem h')" "page_fits q" "unit_page h q g"
    "(q, 1) \<in> chunk_ranges (chunk_of (h_chunk h'))"
  shows "unit_page h' q g"
  using same_run_units(3) [OF assms(1,2)] assms by (simp add: unit_page_def same_run_def)

lemma sweepable_range: "sweepable h C p \<Longrightarrow> \<exists>n. (p, n) \<in> chunk_ranges (chunk_of (h_chunk h))"
  by (auto simp: sweepable_def unit_page_def huge_page_def)

lemma sweepable_other:
  assumes "heap_inv h C" "sweepable h C q" "same_run q (heap_mem h) (heap_mem h')"
    and r: "\<And>n. (q, n) \<in> chunk_ranges (chunk_of (h_chunk h)) \<Longrightarrow> (q, n) \<in> chunk_ranges (chunk_of (h_chunk h'))"
  shows "sweepable h' C q"
proof -
  obtain n where n: "(q, n) \<in> chunk_ranges (chunk_of (h_chunk h))" using sweepable_range [OF assms(2)] by blast
  note f = chunk_page_facts(1) [OF heap_invD(1) [OF assms(1)] n]
  note U = same_run_units [OF assms(3) f]
  have a: "page_at (heap_mem h') q = page_at (heap_mem h) q" "run_out_of h' q = run_out_of h q"
    using assms(3) by (simp_all add: same_run_def run_out_of_def)
  show ?thesis
    using assms(2) unfolding sweepable_def
  proof (elim disjE exE conjE)
    fix g assume "unit_page h q g" "run_out_of h q \<noteq> 0 \<longrightarrow> q \<notin> C" "\<forall>off \<in> unit_offsets g. unit_life_of (heap_mem h) q off \<noteq> SELF_MARKED"
    then show "(\<exists>g. unit_page h' q g \<and> (run_out_of h' q \<noteq> 0 \<longrightarrow> q \<notin> C) \<and>
        (\<forall>off \<in> unit_offsets g. unit_life_of (heap_mem h') q off \<noteq> SELF_MARKED)) \<or>
      (\<exists>n. huge_page (chunk_of (h_chunk h')) (heap_mem h') q n \<and> m_life (unit_at (heap_mem h') (q + sizeof_PageHead)) \<noteq> SELF_MARKED)"
      using r U(1,3) a by (intro disjI1 exI [of _ g]) (auto simp: unit_page_def unit_life_of_def)
  next
    fix k assume "huge_page (chunk_of (h_chunk h)) (heap_mem h) q k" "m_life (unit_at (heap_mem h) (q + sizeof_PageHead)) \<noteq> SELF_MARKED"
    then show "(\<exists>g. unit_page h' q g \<and> (run_out_of h' q \<noteq> 0 \<longrightarrow> q \<notin> C) \<and>
        (\<forall>off \<in> unit_offsets g. unit_life_of (heap_mem h') q off \<noteq> SELF_MARKED)) \<or>
      (\<exists>n. huge_page (chunk_of (h_chunk h')) (heap_mem h') q n \<and> m_life (unit_at (heap_mem h') (q + sizeof_PageHead)) \<noteq> SELF_MARKED)"
      using r U(2) a by (intro disjI2 exI [of _ k]) (auto simp: huge_page_def)
  qed
qed

lemma page_chain_only:
  assumes "only_page p m m'" "page_chain m a ps" "p \<notin> set ps"
  shows "page_chain m' a ps"
  using assms unfolding page_chain_def by (subst chain_cong [of ps _ "page_links m"]) (auto simp: page_links_def only_page_def)

lemma pages_sweptD:
  assumes "pages_swept round ps C old s s'"
  defines "h \<equiv> sw_heap s" and "h' \<equiv> sw_heap s'" and "m \<equiv> heap_mem (sw_heap s)" and "m' \<equiv> heap_mem (sw_heap s')"
  shows "heap_inv h' C" "word_at m' = word_at m"
    "chunk_ranges (chunk_of (h_chunk h')) = {r \<in> chunk_ranges (chunk_of (h_chunk h)). \<not> (fst r \<in> set ps \<and> dropped round m (fst r))}"
    "p \<in> set ps \<Longrightarrow> \<not> dropped round m p \<Longrightarrow> survived round m p m'"
    "p \<in> set ps \<Longrightarrow> \<not> dropped round m p \<Longrightarrow> unit_page h p g \<Longrightarrow> unit_page h' p g"
    "(q, n) \<in> chunk_ranges (chunk_of (h_chunk h)) \<Longrightarrow> q \<notin> set ps \<Longrightarrow> same_run q m m'"
    "set (m_free_pages h' ! group_index g) =
       set (m_free_pages h ! group_index g) \<union> {p \<in> set ps. returned round m p \<and> page_group m p = g}"
    "page_chain m' (m_all_page_list h') (rev (filter (\<lambda>p. \<not> dropped round m p) ps) @ old)"
    "sw_freed s' = concat (map (page_calls round m) (rev ps)) @ sw_freed s"
    "p \<in> set ps \<Longrightarrow> \<not> dropped round m p \<Longrightarrow> sweepable h' C p"
    "p \<in> set ps \<Longrightarrow> \<not> dropped round m p \<Longrightarrow> page_is_cut m' p = page_is_cut m p"
  using assms(1) unfolding pages_swept_def Let_def h_def h'_def m_def m'_def by blast+

lemma pages_swept_other:
  assumes inv: "heap_inv (sw_heap s) C" and q: "sweepable (sw_heap s) C q" "q \<notin> set ps" and p: "pages_swept round ps C old s s'"
  shows "same_run q (heap_mem (sw_heap s)) (heap_mem (sw_heap s'))" "sweepable (sw_heap s') C q" "page_fits q"
proof -
  note P = pages_sweptD [OF p]
  obtain n where n: "(q, n) \<in> chunk_ranges (chunk_of (h_chunk (sw_heap s)))" using sweepable_range [OF q(1)] by blast
  then show sr: "same_run q (heap_mem (sw_heap s)) (heap_mem (sw_heap s'))" using P(6) q(2) by blast
  show "sweepable (sw_heap s') C q" using sweepable_other [OF inv q(1) sr] q(2) unfolding P(3) by auto
  show "page_fits q" using chunk_page_facts(1) [OF heap_invD(1) [OF inv] n] .
qed

text \<open>A page that stays can be swept again.\<close>

lemma aged_not_gray: "m_life (aged u) \<noteq> SELF_MARKED"
  by (simp add: aged_def)

lemma page_swept_again:
  assumes p: "page_swept round p C s s1" "sweepable (sw_heap s) C p" and nd: "\<not> dropped round (heap_mem (sw_heap s)) p"
  shows "sweepable (sw_heap s1) C p"
proof -
  let ?h = "sw_heap s" and ?h1 = "sw_heap s1"
  let ?m = "heap_mem ?h" and ?m1 = "heap_mem ?h1"
  have S: "\<And>g. unit_page ?h p g \<Longrightarrow> unit_page ?h1 p g" "page_at ?m1 p = (page_at ?m p)\<lparr>m_next_page := m_all_page_list ?h\<rparr>" "survived round ?m p ?m1"
      "chunk_ranges (chunk_of (h_chunk ?h1)) = chunk_ranges (chunk_of (h_chunk ?h))"
    using p(1) nd unfolding page_swept_def Let_def by auto
  show ?thesis using p(2) unfolding sweepable_def [of ?h]
  proof (elim disjE exE conjE)
    fix g assume g: "unit_page ?h p g" "run_out_of ?h p \<noteq> 0 \<longrightarrow> p \<notin> C"
    have u: "unit_page ?h1 p g" using S(1) [OF g(1)] .
    have grp: "page_group ?m p = g" "page_group ?m1 p = g" "page_is_cut ?m p"
      using g(1) u page_group_eq by (auto simp: unit_page_def page_is_cut_def)
    have v: "live_units ?m1 p g = page_kept round ?m p" "\<forall>off \<in> page_kept round ?m p. unit_at ?m1 (unit_addr p off) = aged (unit_at ?m (unit_addr p off))"
        "page_run_out ?m1 p \<longrightarrow> page_run_out ?m p"
      using S(3) grp by (auto simp: survived_def page_live_def)
    have "unit_life_of ?m1 p off \<noteq> SELF_MARKED" if "off \<in> unit_offsets g" for off
    proof (cases "off \<in> live_units ?m1 p g")
      case True
      then show ?thesis using v(1,2) aged_not_gray by (simp add: unit_life_of_def)
    next
      case False
      then show ?thesis using that by (simp add: live_units_def)
    qed
    moreover have "run_out_of ?h1 p \<noteq> 0 \<longrightarrow> p \<notin> C" using v(3) g(2) by (simp add: page_run_out_def run_out_of_def)
    ultimately show ?thesis using u unfolding sweepable_def by blast
  next
    fix n assume n: "huge_page (chunk_of (h_chunk ?h)) ?m p n"
    then have "huge_page (chunk_of (h_chunk ?h1)) ?m1 p n" "\<not> page_is_cut ?m p" using S(2,4) by (simp_all add: huge_page_def page_is_cut_def)
    moreover from this(2) have "m_life (unit_at ?m1 (p + sizeof_PageHead)) \<noteq> SELF_MARKED" using S(3) aged_not_gray by (simp add: survived_def)
    ultimately show ?thesis unfolding sweepable_def by blast
  qed
qed

lemma page_swept_single:
  assumes inv: "heap_inv (sw_heap s) C" and p: "page_swept round p C s s1" "sweepable (sw_heap s) C p"
    and c: "page_chain (heap_mem (sw_heap s)) (m_all_page_list (sw_heap s)) old" "p \<notin> set old" "p \<noteq> 0"
  shows "pages_swept round [p] C old s s1"
proof -
  let ?h = "sw_heap s" and ?h1 = "sw_heap s1"
  let ?m = "heap_mem ?h" and ?m1 = "heap_mem ?h1"
  have S: "heap_inv ?h1 C" "only_page p ?m ?m1" "\<forall>g. unit_page ?h p g \<and> \<not> dropped round ?m p \<longrightarrow> unit_page ?h1 p g"
      "chunk_ranges (chunk_of (h_chunk ?h1)) = {r \<in> chunk_ranges (chunk_of (h_chunk ?h)). \<not> (fst r = p \<and> dropped round ?m p)}"
      "if dropped round ?m p then m_all_page_list ?h1 = m_all_page_list ?h
       else m_all_page_list ?h1 = p \<and> m_next_page (page_at ?m1 p) = m_all_page_list ?h \<and> survived round ?m p ?m1"
      "\<forall>g. set (m_free_pages ?h1 ! group_index g) =
        set (m_free_pages ?h ! group_index g) \<union> (if returned round ?m p \<and> g = page_group ?m p then {p} else {})"
      "sw_freed s1 = page_calls round ?m p @ sw_freed s"
    using p(1) unfolding page_swept_def Let_def by (auto split: if_splits)
  have other: "same_run q ?m ?m1" if "(q, n) \<in> chunk_ranges (chunk_of (h_chunk ?h))" "q \<noteq> p" for q n
    using only_page_other [OF S(2)] chunk_runs_apart [OF heap_invD(1) [OF inv]] sweepable_range [OF p(2)] that by metis
  have "page_chain ?m1 (m_all_page_list ?h1) (rev (filter (\<lambda>p. \<not> dropped round ?m p) [p]) @ old)"
    using page_chain_only [OF S(2) c(1,2)] S(5) c(3)
    by (cases "dropped round ?m p") (auto simp: page_chain_def page_links_def)
  moreover have "set (m_free_pages ?h1 ! group_index g) =
      set (m_free_pages ?h ! group_index g) \<union> {q \<in> set [p]. returned round ?m q \<and> page_group ?m q = g}" for g
    using S(6) by auto
  moreover have "page_is_cut ?m1 p = page_is_cut ?m p"
    using p(1) unfolding page_swept_def Let_def page_is_cut_def by (auto split: if_splits)
  ultimately show ?thesis
    unfolding pages_swept_def Let_def using S(1,3,4,5,7) S(2) other page_swept_again [OF p] by (auto simp: only_page_def)
qed

lemma pages_swept_append:
  assumes inv: "heap_inv (sw_heap s) C" and sw: "\<forall>q \<in> set (ps @ qs). sweepable (sw_heap s) C q" and d: "set ps \<inter> set qs = {}"
    and one: "pages_swept round ps C old s s1"
    and rest: "pages_swept round qs C (rev (filter (\<lambda>p. \<not> dropped round (heap_mem (sw_heap s)) p) ps) @ old) s1 s'"
  shows "pages_swept round (ps @ qs) C old s s'"
proof -
  define h h1 h' where hs: "h = sw_heap s" "h1 = sw_heap s1" "h' = sw_heap s'"
  define m m1 m' where ms: "m = heap_mem h" "m1 = heap_mem h1" "m' = heap_mem h'"
  note H = heap_invD(1) [OF inv, folded hs]
  note O = pages_sweptD [OF one, folded hs ms] and R = pages_sweptD [OF rest, folded hs ms]
  have other: "same_run q m m1" "page_fits q" if "q \<in> set qs" for q
    using pages_swept_other(1,3) [OF inv _ _ one, of q] sw that d by (auto simp: hs ms)
  note reads = same_run_reads [OF other]
  have f: "filter (\<lambda>p. \<not> dropped round m1 p) qs = filter (\<lambda>p. \<not> dropped round m p) qs" using reads(6) by (intro filter_cong) auto
  have c: "map (page_calls round m1) (rev qs) = map (page_calls round m) (rev qs)" using reads(8) by simp
  have chunk: "chunk_ranges (chunk_of (h_chunk h')) =
      {r \<in> chunk_ranges (chunk_of (h_chunk h)). \<not> (fst r \<in> set (ps @ qs) \<and> dropped round m (fst r))}"
    unfolding R(3) O(3) using reads(6) by auto
  have keep: "survived round m q m' \<and> (\<forall>g. unit_page h q g \<longrightarrow> unit_page h' q g)"
    if q: "q \<in> set (ps @ qs)" "\<not> dropped round m q" for q
  proof (cases "q \<in> set ps")
    case True
    then obtain n where n: "(q, n) \<in> chunk_ranges (chunk_of (h_chunk h))" using sweepable_range [of h C q] sw by (auto simp: hs)
    then have s1: "same_run q m1 m'" using R(6) [of q n] O(3) q(2) d True by auto
    have fit: "page_fits q" using chunk_page_facts(1) [OF H n] .
    have "unit_page h' q g" if "unit_page h q g" for g
      using same_run_unit_page [of q h1 h' g] s1 fit O(5) [OF True q(2) that] q(2) that chunk by (auto simp: ms unit_page_def)
    then show ?thesis using same_run_reads(9) [OF s1 fit] O(4) [OF True q(2)] by simp
  next
    case False
    then have q': "q \<in> set qs" "\<not> dropped round m1 q" using q reads(6) by auto
    have "unit_page h1 q g" if "unit_page h q g" for g
      using same_run_unit_page [of q h h1 g] other [OF q'(1)] that O(3) False by (auto simp: ms unit_page_def)
    then show ?thesis using R(4,5) [OF q'] reads(10) [OF q'(1) q'(1)] by auto
  qed
  have again: "sweepable h' C q \<and> page_is_cut m' q = page_is_cut m q" if q: "q \<in> set (ps @ qs)" "\<not> dropped round m q" for q
  proof (cases "q \<in> set ps")
    case True
    note s1 = O(10,11) [OF True q(2)]
    have "q \<notin> set qs" using True d by blast
    from pages_swept_other(1,2) [OF pages_sweptD(1) [OF one] _ this rest] s1 show ?thesis
      by (simp add: hs ms same_run_def page_is_cut_def)
  next
    case False
    then show ?thesis using R(10,11) [of q] q reads(2,6) by auto
  qed
  have outside: "same_run q m m'" if q: "(q, n) \<in> chunk_ranges (chunk_of (h_chunk h))" "q \<notin> set (ps @ qs)" for q n
    using same_run_trans [OF O(6) [OF q(1)] R(6) [of q n]] q O(3) by auto
  have pool: "set (m_free_pages h' ! group_index g) =
      set (m_free_pages h ! group_index g) \<union> {q \<in> set (ps @ qs). returned round m q \<and> page_group m q = g}" for g
    unfolding R(7) O(7) using reads(1,7) by auto
  have "page_chain m' (m_all_page_list h') (rev (filter (\<lambda>q. \<not> dropped round m q) (ps @ qs)) @ old)"
    using R(8) by (simp add: f flip: hs ms)
  then show ?thesis
    unfolding pages_swept_def Let_def hs [symmetric] ms [symmetric]
    using R(1,2,9) O(2,9) chunk keep again outside pool c by auto
qed

lemma sweep_pages_spec:
  assumes "heap_inv (sw_heap s) C" "\<forall>p \<in> set ps. sweepable (sw_heap s) C p"
    "page_chain (heap_mem (sw_heap s)) first ps" "page_chain (heap_mem (sw_heap s)) (m_all_page_list (sw_heap s)) old"
    "set ps \<inter> set old = {}"
  shows "\<exists>s'. sweep_pages round first s = Some s' \<and> pages_swept round ps C old s s'"
  using assms
proof (induction ps arbitrary: first s old)
  case Nil
  then have "first = 0" by (simp add: page_chain_def)
  then have "sweep_pages round first s = Some s" by (simp add: sweep_pages.simps)
  moreover have "pages_swept round [] C old s s" using Nil.prems by (auto simp: pages_swept_def same_run_def)
  ultimately show ?case by blast
next
  case (Cons p ps)
  let ?h = "sw_heap s"
  have c: "first = p" "p \<noteq> 0" "page_chain (heap_mem ?h) (m_next_page (page_at (heap_mem ?h) p)) ps"
    using Cons.prems(3) by (auto simp: page_chain_def page_links_def)
  have d: "p \<notin> set ps" using chain_distinct [of "page_links (heap_mem ?h)" first "p # ps"] Cons.prems(3) by (simp add: page_chain_def)
  obtain s1 where s1: "sweep_units_in_page round p s = Some s1" "page_swept round p C s s1"
    using sweep_page_spec [OF Cons.prems(1), of p round] Cons.prems(2) by auto
  have o: "pages_swept round [p] C old s s1"
    using page_swept_single [OF Cons.prems(1) s1(2) _ Cons.prems(4)] Cons.prems(2,5) c(2) by simp
  let ?old = "rev (filter (\<lambda>p. \<not> dropped round (heap_mem ?h) p) [p]) @ old"
  have "\<forall>q \<in> set ps. sweepable (sw_heap s1) C q"
    using pages_swept_other(2) [OF Cons.prems(1) _ _ o] Cons.prems(2) d by auto
  moreover have "page_chain (heap_mem (sw_heap s1)) (m_next_page (page_at (heap_mem ?h) p)) ps"
    using page_chain_only [OF _ c(3) d] s1(2) by (simp add: page_swept_def Let_def)
  moreover have "set ps \<inter> set ?old = {}" using Cons.prems(5) d by auto
  ultimately obtain s' where s': "sweep_pages round (m_next_page (page_at (heap_mem ?h) p)) s1 = Some s'" "pages_swept round ps C ?old s1 s'"
    using Cons.IH [OF pages_sweptD(1) [OF o], of "m_next_page (page_at (heap_mem ?h) p)" ?old] pages_sweptD(8) [OF o] by blast
  have "pages_swept round (p # ps) C old s s'" using pages_swept_append [OF Cons.prems(1) _ _ o s'(2)] Cons.prems(2) d by simp
  then show ?case using s1(1) s'(1) c(1,2) by (subst sweep_pages.simps) auto
qed

lemma heap_inv_all_pages [simp]: "heap_inv (h\<lparr>m_all_page_list := a\<rparr>) C = heap_inv h C"
  "unit_page (h\<lparr>m_all_page_list := a\<rparr>) p g = unit_page h p g"
proof -
  have up: "unit_page (h\<lparr>m_all_page_list := a\<rparr>) p g = unit_page h p g" "run_out_of (h\<lparr>m_all_page_list := a\<rparr>) p = run_out_of h p" for p g
    by (simp_all add: unit_page_def run_out_of_def)
  then show "unit_page (h\<lparr>m_all_page_list := a\<rparr>) p g = unit_page h p g" by simp
  show "heap_inv (h\<lparr>m_all_page_list := a\<rparr>) C = heap_inv h C" unfolding heap_inv_def up by simp
qed

section \<open>Properties\<close>

text \<open>C10: Sweeping is exact. Given a list of pages with no gray unit, a worker comes to its end. Of every page that
  stays, the units in use afterwards are the ones the survival rule keeps, white again and one round
  older; the free lists are in order; a run-out page with free space again is in its group's pool and no
  longer run out. A huge unit that is not kept, and a run-out page whose last units die, go back to the
  chunk and nothing else does. The pages that stay are in the chain of all pages again and have no gray unit, the free callback
  has run once for each dead unit that wants it, and no other run has changed.\<close>

theorem sweep_pages_correct:
  assumes "heap_inv (sw_heap s) C" and "\<forall>p \<in> set ps. sweepable (sw_heap s) C p"
    and "page_chain (heap_mem (sw_heap s)) first ps"
    and "page_chain (heap_mem (sw_heap s)) (m_all_page_list (sw_heap s)) old" and "set ps \<inter> set old = {}"
  shows "\<exists>s'. sweep_pages round first s = Some s' \<and> pages_swept round ps C old s s'"
  using assms by (rule sweep_pages_spec)

text \<open>The page of \<open>demo_unit\<close>, swept in the round after its unit was published; the unit is dead.\<close>

definition demo_sweep :: "addr list sweep_state" where
  "demo_sweep = \<lparr>sw_heap = (al_heap demo_unit)\<lparr>m_all_page_list := 0\<rparr>, sw_freed = [], sw_alive = 0\<rparr>"

lemma demo_offsets: "unit_offsets MIDIUM_10904 = {8, 10920, 21832}"
proof -
  have "{..<3 :: nat} = {0, 1, 2}" by auto
  then show ?thesis by (simp add: unit_offsets_def unit_offset_def unit_count_def usz_def group_sizes)
qed

lemma demo_sweep_eval:
  "m_cached_pages (al_thread demo_unit) = [0, 0, 0, 0, 0, 0, 0, 0, 0, 0, 0, 0x100000, 0]"
  "page_group (heap_mem (sw_heap demo_sweep)) 0x100000 = MIDIUM_10904"
  "kept 4 (unit_at (heap_mem (sw_heap demo_sweep)) 0x100020) = False"
  "page_is_cut (heap_mem (sw_heap demo_sweep)) 0x100000"
  "run_out_of (al_heap demo_unit) 0x100000 = 0"
  "map (unit_life_of (heap_mem (al_heap demo_unit)) 0x100000) [8, 10920, 21832] = [UNMARKED, RELEASED, RELEASED]"
  "page_chain (heap_mem (sw_heap demo_sweep)) 0x100000 [0x100000]"
  "group_index MIDIUM_10904 = 11"
  by code_simp+

lemma demo_sweep_kept: "page_kept 4 (heap_mem (sw_heap demo_sweep)) 0x100000 = {}" "\<not> dropped 4 (heap_mem (sw_heap demo_sweep)) 0x100000"
proof -
  have m: "heap_mem (sw_heap demo_sweep) = heap_mem (al_heap demo_unit)" by (simp add: demo_sweep_def)
  show "page_kept 4 (heap_mem (sw_heap demo_sweep)) 0x100000 = {}"
    using demo_sweep_eval(2,3,6) by (auto simp: page_kept_def kept_units_def live_units_def demo_offsets m unit_addr_def alloc_head_def sizeof_defs)
  show "\<not> dropped 4 (heap_mem (sw_heap demo_sweep)) 0x100000"
    using demo_sweep_eval(4,5) by (simp add: dropped_def page_run_out_def run_out_of_def m)
qed

lemma demo_sweep_ok:
  defines "h \<equiv> sw_heap demo_sweep"
  shows "\<exists>D. heap_inv h D \<and> 0x100000 \<in> D \<and> (\<forall>p \<in> set [0x100000]. sweepable h D p) \<and> page_chain (heap_mem h) (m_all_page_list h) [] \<and>
    unit_page h 0x100000 MIDIUM_10904"
proof -
  have h: "h = (al_heap demo_unit)\<lparr>m_all_page_list := 0\<rparr>" by (simp add: demo_sweep_def h_def)
  obtain D where D: "heap_inv (al_heap demo_unit) D" "thread_ok (al_thread demo_unit) (al_heap demo_unit) D"
    using demo_unit_ok(1) by blast
  have u: "unit_page (al_heap demo_unit) 0x100000 MIDIUM_10904" "0x100000 \<in> D"
    using D(2) [unfolded thread_ok_def, THEN conjunct2, THEN conjunct2, rule_format, of MIDIUM_10904] demo_sweep_eval(1,8) by simp_all
  then have "sweepable h D 0x100000"
    using demo_sweep_eval(5,6) unfolding h sweepable_def
    by (intro disjI1 exI [of _ MIDIUM_10904]) (auto simp: run_out_of_def demo_offsets)
  with u D(1) show ?thesis by (intro exI [of _ D]) (simp add: h page_chain_def)
qed

theorem sweep_pages_correct_witness:
  "\<exists>s'. sweep_pages 4 0x100000 demo_sweep = Some s' \<and> page_live (heap_mem (sw_heap s')) 0x100000 = {} \<and>
     page_chain (heap_mem (sw_heap s')) (m_all_page_list (sw_heap s')) [0x100000] \<and>
     chunk_ranges (chunk_of (h_chunk (sw_heap s'))) = {(0x100000, 1)}"
proof -
  obtain D where D: "heap_inv (sw_heap demo_sweep) D" "\<forall>p \<in> set [0x100000]. sweepable (sw_heap demo_sweep) D p"
      "page_chain (heap_mem (sw_heap demo_sweep)) (m_all_page_list (sw_heap demo_sweep)) []"
    using demo_sweep_ok by blast
  obtain s' where "sweep_pages 4 0x100000 demo_sweep = Some s'" "pages_swept 4 [0x100000] D [] demo_sweep s'"
    using sweep_pages_correct [OF D(1,2) demo_sweep_eval(7) D(3)] by auto
  then show ?thesis
    using demo_sweep_kept demo_sweep_eval(4) demo_unit_eval(2) by (auto simp: pages_swept_def survived_def Let_def demo_sweep_def)
qed

end
