(* ===== verification/Woomem_Gc_Cycle_Props.thy ===== *)
theory Woomem_Gc_Cycle_Props
  imports Woomem_Gc_Cycle Woomem_Gc_Mark_Props Woomem_Gc_Sweep_Props
begin

text \<open>
  Correctness of a collection cycle: the pages are handed out completely and evenly, the workers
  together sweep each page once, their marking adds up, and a cycle keeps what is reachable.
\<close>

section \<open>Handing out the pages\<close>

text \<open>Memory in which only links between pages have changed, those of the pages \<open>S\<close>.\<close>

definition relinked :: "addr set \<Rightarrow> mem \<Rightarrow> mem \<Rightarrow> bool" where
  "relinked S m m' \<longleftrightarrow> alloc_at m' = alloc_at m \<and> unit_at m' = unit_at m \<and> word_at m' = word_at m \<and>
     (\<forall>a. m_page_count_if_huge (page_at m' a) = m_page_count_if_huge (page_at m a) \<and>
        m_page_just_allocated (page_at m' a) = m_page_just_allocated (page_at m a)) \<and> (\<forall>a. a \<notin> S \<longrightarrow> page_at m' a = page_at m a)"

lemma relinked_refl: "relinked S m m"
  by (simp add: relinked_def)

lemma relinked_trans: "relinked S m m1 \<Longrightarrow> relinked S' m1 m2 \<Longrightarrow> relinked (S \<union> S') m m2"
  by (simp add: relinked_def)

lemma relinked_upd: "relinked {p} m (upd_page p (\<lambda>h. h\<lparr>m_next_page := n\<rparr>) m)"
  by (simp add: relinked_def upd_page_def)

lemma relinked_mono: "relinked S m m' \<Longrightarrow> S \<subseteq> S' \<Longrightarrow> relinked S' m m'"
  unfolding relinked_def by blast

lemma relinked_chain: "relinked S m m' \<Longrightarrow> page_chain m a ps \<Longrightarrow> set ps \<inter> S = {} \<Longrightarrow> page_chain m' a ps"
  unfolding page_chain_def by (subst chain_cong [of ps _ "page_links m"]) (auto simp: relinked_def page_links_def)

lemma count_pages_chain:
  "page_chain m p ps \<Longrightarrow> count_pages m p n = Some (n + w64 (length ps))"
proof (induction ps arbitrary: p n)
  case Nil
  then show ?case by (simp add: page_chain_def count_pages.simps)
next
  case (Cons q ps)
  then have "p = q" "q \<noteq> 0" "page_chain m (m_next_page (page_at m q)) ps" by (auto simp: page_chain_def page_links_def)
  then show ?case using Cons.IH [of "m_next_page (page_at m q)" "n + 1"] by (subst count_pages.simps) (simp add: algebra_simps)
qed

lemma walk_pages_chain:
  "page_chain m c (xs @ ys) \<Longrightarrow>
   \<exists>c'. walk_pages (length xs) (p, c) m = (if xs = [] then p else last xs, c') \<and> page_chain m c' ys"
proof (induction xs arbitrary: p c)
  case (Cons x xs)
  then have c: "c = x" "page_chain m (m_next_page (page_at m x)) (xs @ ys)" by (auto simp: page_chain_def page_links_def)
  from Cons.IH [OF c(2), of x] c(1) show ?case by auto
qed simp

text \<open>The number of pages of worker \<open>i\<close>.\<close>

definition share :: "u64 \<Rightarrow> u64 \<Rightarrow> nat \<Rightarrow> nat" where
  "share base remainder i = unat base + (if i < unat remainder then 1 else 0)"

lemma share_word:
  assumes "i < 2 ^ 64" "unat base + 1 < 2 ^ 64"
  shows "unat (base + (if w64 i < remainder then 1 else 0)) = share base remainder i"
proof -
  have "w64 i < remainder \<longleftrightarrow> i < unat remainder" using assms(1) by (simp add: word_less_nat_alt unat_w64)
  moreover have "unat (base + 1) = unat base + 1" using assms(2) by (simp add: unat_plus_simple [THEN iffD1] word_le_nat_alt unat_word_ariths)
  ultimately show ?thesis by (auto simp: share_def)
qed

lemma share_sum:
  assumes "0 < n"
  shows "(\<Sum>i < n. t div n + (if i < t mod n then 1 else 0)) = (t :: nat)"
proof -
  have "(\<Sum>i < n. if i < t mod n then 1 else 0 :: nat) = card {i. i < n \<and> i < t mod n}" by (simp add: sum.If_cases Int_def)
  also have "{i. i < n \<and> i < t mod n} = {..<t mod n}" using mod_less_divisor [OF assms, of t] by auto
  finally show ?thesis by (simp add: sum.distrib)
qed

lemma chain_cut: "chain nxt h (xs @ ys) \<Longrightarrow> xs \<noteq> [] \<Longrightarrow> chain (nxt(last xs := 0)) h xs"
proof (induction xs arbitrary: h)
  case (Cons x xs)
  have "x \<notin> set xs" using chain_distinct [OF Cons.prems(1)] by simp
  moreover have "chain nxt (nxt x) (xs @ ys)" using Cons.prems(1) by simp
  ultimately show ?case using Cons.IH [of "nxt x"] Cons.prems(1) by (cases "xs = []") auto
qed simp

text \<open>Each worker gets the next pages of the chain, as many as its share.\<close>

definition handed_out :: "mem \<Rightarrow> gc_worker list \<Rightarrow> addr list list \<Rightarrow> bool" where
  "handed_out m ws pss \<longleftrightarrow> list_all2 (\<lambda>w ps. page_chain m (m_sweep_page_list w) ps) ws pss"

lemma handed_out_relinked:
  assumes "handed_out m ws pss" "relinked S m m'" "set (concat pss) \<inter> S = {}"
  shows "handed_out m' ws pss"
  using assms(1,3) unfolding handed_out_def
  by (induction rule: list_all2_induct) (auto intro: relinked_chain [OF assms(2)])

lemma distribute_spec:
  assumes "page_chain m c ps" "length ps = sum_list (map (share b r) [i..<i + length ws])"
    "unat b + 1 < 2 ^ 64" "i + length ws < 2 ^ 64"
  shows "\<exists>ws' m' pss. distribute b r i ws c m = (ws', m') \<and> concat pss = ps \<and>
    map length pss = map (share b r) [i..<i + length ws] \<and> handed_out m' ws' pss \<and> relinked (set ps) m m' \<and>
    map (\<lambda>w. w\<lparr>m_sweep_page_list := 0\<rparr>) ws' = map (\<lambda>w. w\<lparr>m_sweep_page_list := 0\<rparr>) ws"
  using assms
proof (induction ws arbitrary: c m ps i)
  case Nil
  then show ?case by (auto simp: handed_out_def relinked_refl intro: exI [of _ "[]"])
next
  case (Cons w ws)
  let ?n = "share b r i"
  define xs ys where xy: "xs = take ?n ps" "ys = drop ?n ps"
  have up: "[i..<Suc (i + length ws)] = i # [Suc i..<Suc (i + length ws)]" by (rule upt_conv_Cons) simp
  have len: "length ps = ?n + sum_list (map (share b r) [Suc i..<Suc i + length ws])" using Cons.prems(2) by (simp add: up del: upt_Suc)
  have ps: "ps = xs @ ys" "length xs = ?n" "length ys = sum_list (map (share b r) [Suc i..<Suc i + length ws])"
    using len by (simp_all add: xy)
  have dist: "set xs \<inter> set ys = {}" using chain_distinct Cons.prems(1) ps(1) unfolding page_chain_def by fastforce
  have n: "unat (b + (if w64 i < r then 1 else 0)) = ?n" using Cons.prems(3,4) by (intro share_word) simp_all
  note IH = Cons.IH [OF _ ps(3) Cons.prems(3), of "_ :: mem" "_ :: addr"]
  show ?case
  proof (cases "?n = 0")
    case True
    then have z: "b + (if w64 i < r then 1 else 0) = 0" using n by (simp add: unat_eq_0)
    have c: "page_chain m c ys" "xs = []" using Cons.prems(1) ps True by simp_all
    from IH [OF c(1)] Cons.prems(4) obtain ws' m' pss where d: "distribute b r (Suc i) ws c m = (ws', m')" "concat pss = ys"
        "map length pss = map (share b r) [Suc i..<Suc i + length ws]" "handed_out m' ws' pss" "relinked (set ys) m m'"
        "map (\<lambda>w. w\<lparr>m_sweep_page_list := 0\<rparr>) ws' = map (\<lambda>w. w\<lparr>m_sweep_page_list := 0\<rparr>) ws" by auto
    then show ?thesis
      using z True c(2) ps(1) by (intro exI [of _ "w\<lparr>m_sweep_page_list := 0\<rparr> # ws'"] exI [of _ m'] exI [of _ "[] # pss"])
        (simp add: up handed_out_def page_chain_def Let_def del: upt_Suc)
  next
    case False
    then have z: "b + (if w64 i < r then 1 else 0) \<noteq> 0" using n by (metis unsigned_0)
    have ne: "xs \<noteq> []" using False ps(2) by auto
    obtain c' where w: "walk_pages (length xs) (0, c) m = (last xs, c')" "page_chain m c' ys"
      using walk_pages_chain [of m c xs ys 0] Cons.prems(1) ps(1) ne by auto
    define m1 where "m1 = upd_page (last xs) (\<lambda>h. h\<lparr>m_next_page := 0\<rparr>) m"
    have r1: "relinked {last xs} m m1" unfolding m1_def by (rule relinked_upd)
    have "last xs \<notin> set ys" using dist last_in_set [OF ne] by blast
    then have c1: "page_chain m1 c' ys" using relinked_chain [OF r1 w(2)] by simp
    have x1: "page_chain m1 c xs"
      using chain_cut [of "page_links m" c xs ys] Cons.prems(1) ps(1) ne by (simp add: page_chain_def m1_def page_links_upd)
    from IH [OF c1] Cons.prems(4) obtain ws' m' pss where d: "distribute b r (Suc i) ws c' m1 = (ws', m')" "concat pss = ys"
        "map length pss = map (share b r) [Suc i..<Suc i + length ws]" "handed_out m' ws' pss" "relinked (set ys) m1 m'"
        "map (\<lambda>w. w\<lparr>m_sweep_page_list := 0\<rparr>) ws' = map (\<lambda>w. w\<lparr>m_sweep_page_list := 0\<rparr>) ws" by auto
    have "page_chain m' c xs" using relinked_chain [OF d(5) x1 dist] .
    moreover have "relinked (set ps) m m'" using relinked_trans [OF r1 d(5)] ne ps(1) by (auto intro: relinked_mono)
    moreover have "distribute b r i (w # ws) c m = (w\<lparr>m_sweep_page_list := c\<rparr> # ws', m')"
      using z n w(1) ps(2) d(1) by (simp add: Let_def flip: m1_def)
    ultimately show ?thesis
      using d(2-4,6) ps(1,2) by (intro exI [of _ "w\<lparr>m_sweep_page_list := c\<rparr> # ws'"] exI [of _ m'] exI [of _ "xs # pss"])
        (simp add: up handed_out_def del: upt_Suc)
  qed
qed

lemma distribute_pages_spec:
  assumes ps: "page_chain (heap_mem h) (m_all_page_list h) ps" "ps \<noteq> []" "length ps + 1 < 2 ^ 64"
    and ws: "m_gc_worker_threads g \<noteq> []" "length (m_gc_worker_threads g) < 2 ^ 64"
  defines "n \<equiv> length (m_gc_worker_threads g)"
  shows "\<exists>ws m' pss. distribute_pages g h = Some (g\<lparr>m_gc_worker_threads := ws\<rparr>, upd_mem (\<lambda>_. m') (h\<lparr>m_all_page_list := 0\<rparr>)) \<and>
    concat pss = ps \<and> map length pss = map (\<lambda>i. length ps div n + (if i < length ps mod n then 1 else 0)) [0..<n] \<and>
    handed_out m' ws pss \<and> relinked (set ps) (heap_mem h) m' \<and>
    map (\<lambda>w. w\<lparr>m_sweep_page_list := 0\<rparr>) ws = map (\<lambda>w. w\<lparr>m_sweep_page_list := 0\<rparr>) (m_gc_worker_threads g)"
proof -
  let ?t = "w64 (length ps)" and ?c = "w64 n"
  have n: "0 < n" "n < 2 ^ 64" "unat ?c = n" using ws by (simp_all add: n_def unat_w64)
  have t: "unat ?t = length ps" using ps(3) by (simp add: unat_w64)
  have q: "unat (?t div ?c) = length ps div n" "unat (?t mod ?c) = length ps mod n" by (simp_all add: unat_div unat_mod t n(3))
  have sh: "share (?t div ?c) (?t mod ?c) i = length ps div n + (if i < length ps mod n then 1 else 0)" for i
    by (simp add: share_def q)
  have "length ps = sum_list (map (share (?t div ?c) (?t mod ?c)) [0..<0 + n])"
    using share_sum [OF n(1), of "length ps"] by (simp add: sh sum_list_distinct_conv_sum_set atLeast0LessThan)
  moreover have "length ps div n \<le> length ps" by (rule div_le_dividend)
  then have "unat (?t div ?c) + 1 < 2 ^ 64" using ps(3) unfolding q by linarith
  ultimately obtain ws' m' pss where d: "distribute (?t div ?c) (?t mod ?c) 0 (m_gc_worker_threads g) (m_all_page_list h) (heap_mem h) = (ws', m')"
      "concat pss = ps" "map length pss = map (share (?t div ?c) (?t mod ?c)) [0..<0 + n]" "handed_out m' ws' pss" "relinked (set ps) (heap_mem h) m'"
      "map (\<lambda>w. w\<lparr>m_sweep_page_list := 0\<rparr>) ws' = map (\<lambda>w. w\<lparr>m_sweep_page_list := 0\<rparr>) (m_gc_worker_threads g)"
    using distribute_spec [OF ps(1), of "?t div ?c" "?t mod ?c" 0 "m_gc_worker_threads g"] n(2) by (auto simp: n_def)
  have "m_all_page_list h \<noteq> 0" using ps(1,2) by (cases ps) (auto simp: page_chain_def)
  then have "distribute_pages g h = Some (g\<lparr>m_gc_worker_threads := ws'\<rparr>, upd_mem (\<lambda>_. m') (h\<lparr>m_all_page_list := 0\<rparr>))"
    using count_pages_chain [OF ps(1), of 0] d(1) by (simp add: distribute_pages_def Let_def n_def)
  with d(2-6) sh show ?thesis by (intro exI [of _ ws'] exI [of _ m'] exI [of _ pss]) simp
qed

text \<open>Links play no part in the order of the heap, nor in what a sweep does.\<close>

lemma relinked_reads:
  assumes "relinked S m m'"
  shows "page_group m' p = page_group m p" "page_is_cut m' p = page_is_cut m p" "page_run_out m' p = page_run_out m p"
    "page_live m' p = page_live m p" "page_kept round m' p = page_kept round m p" "dropped round m' p = dropped round m p"
    "returned round m' p = returned round m p" "page_calls round m' p = page_calls round m p"
    "survived round m' p m1 = survived round m p m1" "page_inv m' p g X = page_inv m p g X" "unit_life_of m' p = unit_life_of m p"
proof -
  have a: "alloc_at m' = alloc_at m" "unit_at m' = unit_at m" using assms by (simp_all add: relinked_def)
  show g: "page_group m' p = page_group m p" "page_is_cut m' p = page_is_cut m p" "page_run_out m' p = page_run_out m p"
    using assms by (simp_all add: page_group_def page_is_cut_def page_run_out_def relinked_def)
  show u: "unit_life_of m' p = unit_life_of m p" by (simp add: unit_life_of_def fun_eq_iff a)
  have k: "unit_link m' p = unit_link m p" by (simp add: unit_link_def fun_eq_iff a)
  show l: "page_live m' p = page_live m p" by (simp add: page_live_def live_units_def g u)
  show ke: "page_kept round m' p = page_kept round m p" by (simp add: page_kept_def kept_units_def live_units_def g u a)
  show "dropped round m' p = dropped round m p" by (simp add: dropped_def g l ke a)
  show r: "returned round m' p = returned round m p" by (simp add: returned_def g l ke)
  have "sweep_calls m' p gr is = sweep_calls m p gr is" for gr "is" by (simp add: sweep_calls_def unit_at_index_def a)
  then show "page_calls round m' p = page_calls round m p" by (simp add: page_calls_def g a index_defs u)
  show "survived round m' p m1 = survived round m p m1" by (simp add: survived_def g ke r a)
  show "page_inv m' p g X = page_inv m p g X" by (simp add: page_inv_def unit_lists_def u k a)
qed

lemma relinked_heap:
  assumes r: "relinked S (heap_mem h) m'"
  defines "h' \<equiv> upd_mem (\<lambda>_. m') h"
  shows "unit_page h' p g = unit_page h p g" "heap_inv h C \<Longrightarrow> heap_inv h' C" "sweepable h C p \<Longrightarrow> sweepable h' C p"
proof -
  have m: "heap_mem h' = m'" "chunk_of (h_chunk h') = chunk_of (h_chunk h)" "m_free_pages h' = m_free_pages h" by (simp_all add: h'_def)
  have pg: "m_page_count_if_huge (page_at m' q) = m_page_count_if_huge (page_at (heap_mem h) q)"
    "m_page_just_allocated (page_at m' q) = m_page_just_allocated (page_at (heap_mem h) q)" "alloc_at m' = alloc_at (heap_mem h)"
    "unit_at m' = unit_at (heap_mem h)" for q
    using r by (simp_all add: relinked_def)
  have up: "unit_page h' q g = unit_page h q g" "run_out_of h' q = run_out_of h q" for q g
    using relinked_reads(10) [OF r] by (simp_all add: unit_page_def run_out_of_def m pg)
  then show "unit_page h' p g = unit_page h p g" by simp
  show "heap_inv h C \<Longrightarrow> heap_inv h' C" unfolding heap_inv_def up m by simp
  show "sweepable h C p \<Longrightarrow> sweepable h' C p"
    unfolding sweepable_def up huge_page_def m pg relinked_reads(11) [OF r] by simp
qed

section \<open>The sweep of all workers\<close>

lemma pages_swept_alive [simp]:
  "pages_swept round ps C old (s\<lparr>sw_alive := x\<rparr>) s' = pages_swept round ps C old s s'"
  "pages_swept round ps C old s (s'\<lparr>sw_alive := x\<rparr>) = pages_swept round ps C old s s'"
  by (simp_all add: pages_swept_def)

lemma pages_swept_state:
  "pages_swept round ps C old \<lparr>sw_heap = h, sw_freed = f, sw_alive = a\<rparr> s' = pages_swept round ps C old \<lparr>sw_heap = h, sw_freed = f, sw_alive = b\<rparr> s'"
  by (simp add: pages_swept_def)

lemma handed_out_swept:
  assumes "handed_out m ws pss" "\<forall>p \<in> set (concat pss). same_run p m m'"
  shows "handed_out m' ws pss"
  using assms unfolding handed_out_def
proof (induction rule: list_all2_induct)
  case (Cons w ws ps pss)
  have "page_chain m' (m_sweep_page_list w) ps"
    using Cons.hyps(1) Cons.prems unfolding page_chain_def
    by (subst chain_cong [of ps _ "page_links m"]) (auto simp: same_run_def page_links_def)
  with Cons show ?case by simp
qed simp

lemma sweep_phase_spec:
  assumes "heap_inv h C" "handed_out (heap_mem h) ws pss" "distinct (concat pss)" "\<forall>p \<in> set (concat pss). sweepable h C p"
    "page_chain (heap_mem h) (m_all_page_list h) old" "set (concat pss) \<inter> set old = {}"
  shows "\<exists>ws' h' fr'. sweep_phase round ws (h, fr) = Some (ws', h', fr') \<and>
    pages_swept round (concat pss) C old \<lparr>sw_heap = h, sw_freed = fr, sw_alive = 0\<rparr> \<lparr>sw_heap = h', sw_freed = fr', sw_alive = 0\<rparr> \<and>
    map (\<lambda>w. w\<lparr>m_alive_memory_size_counter := 0\<rparr>) ws' = map (\<lambda>w. w\<lparr>m_alive_memory_size_counter := 0\<rparr>) ws"
  using assms
proof (induction ws arbitrary: pss h fr old)
  case Nil
  then have "pss = []" by (simp add: handed_out_def)
  moreover have "pages_swept round [] C old s s" if "s = \<lparr>sw_heap = h, sw_freed = fr, sw_alive = 0\<rparr>" for s
    using Nil.prems that by (auto simp: pages_swept_def same_run_def)
  ultimately show ?case by auto
next
  case (Cons w ws)
  obtain ps pss' where pss: "pss = ps # pss'" "page_chain (heap_mem h) (m_sweep_page_list w) ps" "handed_out (heap_mem h) ws pss'"
    using Cons.prems(2) by (auto simp: handed_out_def list_all2_Cons1)
  define s0 where "s0 = \<lparr>sw_heap = h, sw_freed = fr, sw_alive = 0\<rparr>"
  have sh: "sw_heap s0 = h" "sw_freed s0 = fr" by (simp_all add: s0_def)
  obtain s1 where s1: "sweep_pages round (m_sweep_page_list w) s0 = Some s1" "pages_swept round ps C old s0 s1"
    using sweep_pages_spec [of s0 C ps "m_sweep_page_list w" old round] Cons.prems pss(1,2) unfolding sh by auto
  let ?h = "sw_heap s1" and ?old = "rev (filter (\<lambda>p. \<not> dropped round (heap_mem h) p) ps) @ old"
  have O: "same_run q (heap_mem h) (heap_mem ?h)" "sweepable ?h C q" if "q \<in> set (concat pss')" for q
    using pages_swept_other(1,2) [of s0 C q ps round old s1] Cons.prems(1,3,4) pss(1) that s1(2) by (auto simp: sh)
  note S = pages_sweptD [OF s1(2), unfolded sh]
  have "distinct (concat pss')" "set (concat pss') \<inter> set ?old = {}" using Cons.prems(3,6) pss(1) by auto
  with O(2) Cons.IH [OF S(1) handed_out_swept [OF pss(3)], of ?old "sw_freed s1"] O(1) S(8)
  obtain ws' h' fr' where r: "sweep_phase round ws (?h, sw_freed s1) = Some (ws', h', fr')"
      "pages_swept round (concat pss') C ?old \<lparr>sw_heap = ?h, sw_freed = sw_freed s1, sw_alive = 0\<rparr> \<lparr>sw_heap = h', sw_freed = fr', sw_alive = 0\<rparr>"
      "map (\<lambda>w. w\<lparr>m_alive_memory_size_counter := 0\<rparr>) ws' = map (\<lambda>w. w\<lparr>m_alive_memory_size_counter := 0\<rparr>) ws"
    by auto
  have "pages_swept round (concat pss') C ?old s1 \<lparr>sw_heap = h', sw_freed = fr', sw_alive = 0\<rparr>"
    using r(2) by (simp add: pages_swept_def)
  with pages_swept_append [of s0 C ps "concat pss'" round old s1] Cons.prems(1,3,4) s1(2) pss(1)
  have "pages_swept round (concat pss) C old s0 \<lparr>sw_heap = h', sw_freed = fr', sw_alive = 0\<rparr>" by (auto simp: sh)
  moreover have "sweep_phase round (w # ws) (h, fr) = Some (w\<lparr>m_alive_memory_size_counter := sw_alive s1\<rparr> # ws', h', fr')"
    using s1(1) r(1) by (simp add: s0_def)
  ultimately show ?case using r(3) by (auto simp: s0_def)
qed

section \<open>Retiring the empty pages of the pools\<close>

definition marked_page :: "mem \<Rightarrow> addr \<Rightarrow> bool" where
  "marked_page m p \<longleftrightarrow> p \<noteq> 0 \<and> m_mark_as_run_out_in_global_pool (alloc_at m (alloc_head p))"

definition retire_pages :: "addr set \<Rightarrow> mem \<Rightarrow> mem" where
  "retire_pages R m = m\<lparr>alloc_at := (\<lambda>a. if a \<in> alloc_head ` R
     then (alloc_at m a)\<lparr>m_mark_as_run_out_in_global_pool := False, m_run_out := 1\<rparr> else alloc_at m a)\<rparr>"

lemma retire_pages_empty [simp]: "retire_pages {} m = m"
  by (simp add: retire_pages_def)

lemma retire_pages_Un:
  assumes "R \<inter> S = {}"
  shows "retire_pages S (retire_pages R m) = retire_pages (R \<union> S) m"
proof -
  have "a \<notin> alloc_head ` S" if "a \<in> alloc_head ` R" for a using assms that by (auto simp: alloc_head_inj)
  then show ?thesis by (intro mem.equality) (auto simp: retire_pages_def fun_eq_iff)
qed

lemma retire_page_eq: "retire_page p m = retire_pages {p} m"
  by (rule mem.equality) (auto simp: retire_page_def retire_pages_def upd_alloc_def fun_eq_iff)

lemma marked_retired: "marked_page (retire_pages R m) q = (q \<notin> R \<and> marked_page m q)"
  by (auto simp: marked_page_def retire_pages_def alloc_head_inj)

lemma remove_marked_spec:
  assumes "distinct (filter (\<lambda>p. p \<noteq> 0) ps)"
  shows "remove_marked ps m = (map (\<lambda>p. if marked_page m p then 0 else p) ps, retire_pages {p \<in> set ps. marked_page m p} m)"
  using assms
proof (induction ps arbitrary: m)
  case (Cons p ps)
  show ?case
  proof (cases "marked_page m p")
    case True
    then have p: "p \<noteq> 0" "p \<notin> set ps" using Cons.prems by (auto simp: marked_page_def)
    have "{q \<in> set (p # ps). marked_page m q} = {p} \<union> {q \<in> set ps. marked_page m q}" using True by auto
    moreover have "map (\<lambda>q. if marked_page (retire_page p m) q then 0 else q) ps = map (\<lambda>q. if marked_page m q then 0 else q) ps"
      "{q \<in> set ps. marked_page (retire_page p m) q} = {q \<in> set ps. marked_page m q}"
      using p(2) by (auto simp: retire_page_eq marked_retired)
    moreover have "retire_pages {q \<in> set ps. marked_page m q} (retire_page p m) = retire_pages ({p} \<union> {q \<in> set ps. marked_page m q}) m"
      using p(2) by (simp add: retire_page_eq retire_pages_Un)
    ultimately show ?thesis using Cons.IH [of "retire_page p m"] Cons.prems True p(1) by (simp add: marked_page_def)
  next
    case False
    then have "{q \<in> set (p # ps). marked_page m q} = {q \<in> set ps. marked_page m q}" by auto
    then show ?thesis using Cons False by (simp add: marked_page_def split: if_splits)
  qed
qed simp

lemma remove_marked_lists_spec:
  assumes "distinct (filter (\<lambda>p. p \<noteq> 0) (concat pss))"
  shows "remove_marked_lists pss m =
    (map (map (\<lambda>p. if marked_page m p then 0 else p)) pss, retire_pages {p \<in> set (concat pss). marked_page m p} m)"
  using assms
proof (induction pss arbitrary: m)
  case (Cons ps pss)
  let ?R = "{p \<in> set ps. marked_page m p}" and ?S = "{p \<in> set (concat pss). marked_page m p}"
  have d: "distinct (filter (\<lambda>p. p \<noteq> 0) ps)" "distinct (filter (\<lambda>p. p \<noteq> 0) (concat pss))"
    and dis: "\<And>p. p \<in> set ps \<Longrightarrow> p \<noteq> 0 \<Longrightarrow> p \<notin> set (concat pss)"
    using Cons.prems by (auto simp: filter_concat)
  have e: "marked_page (retire_pages ?R m) p = marked_page m p" if "p \<in> set (concat pss)" for p
  proof (cases "p = 0")
    case False
    with dis [of p] that have "p \<notin> ?R" by blast
    then show ?thesis by (simp add: marked_retired)
  qed (simp add: marked_page_def)
  have "map (map (\<lambda>p. if marked_page (retire_pages ?R m) p then 0 else p)) pss = map (map (\<lambda>p. if marked_page m p then 0 else p)) pss"
    by (intro map_cong refl) (use e in auto)
  moreover have "{p \<in> set (concat pss). marked_page (retire_pages ?R m) p} = ?S" using e by auto
  moreover have "?R \<inter> ?S = {}" using dis by (auto simp: marked_page_def)
  moreover have "{p \<in> set (concat (ps # pss)). marked_page m p} = ?R \<union> ?S" by auto
  ultimately show ?case using remove_marked_spec [OF d(1)] Cons.IH [OF d(2)] retire_pages_Un [of ?R ?S m] by simp
qed simp

text \<open>The pools of a heap in order share no page.\<close>

lemma distinct_concat_nth:
  assumes "\<And>i. i < length xss \<Longrightarrow> distinct (xss ! i)"
    "\<And>i j. i < j \<Longrightarrow> j < length xss \<Longrightarrow> set (xss ! i) \<inter> set (xss ! j) = {}"
  shows "distinct (concat xss)"
  using assms
proof (induction xss)
  case (Cons xs xss)
  have "distinct (concat xss)" using Cons.prems(1) [of "Suc _"] Cons.prems(2) [of "Suc _" "Suc _"] by (intro Cons.IH) auto
  moreover have "set xs \<inter> set ys = {}" if ys: "ys \<in> set xss" for ys
  proof -
    obtain j where "j < length xss" "ys = xss ! j" using ys by (auto simp: in_set_conv_nth)
    then show ?thesis using Cons.prems(2) [of 0 "Suc j"] by simp
  qed
  ultimately show ?case using Cons.prems(1) [of 0] by fastforce
qed simp

lemma index_group: "i < MAX_GROUP \<Longrightarrow> \<exists>g. i = group_index g"
proof -
  assume "i < MAX_GROUP"
  then have "i \<in> set [0..<13]" by (simp add: MAX_GROUP_def)
  moreover have "[0..<13] = map group_index all_groups" by code_simp
  ultimately show ?thesis by auto
qed

lemma pools_distinct:
  assumes "heap_inv h C"
  shows "distinct (filter (\<lambda>p. p \<noteq> 0) (concat (m_free_pages h)))"
proof -
  note H = heap_invD [OF assms]
  have len: "length (map (filter (\<lambda>p. p \<noteq> 0)) (m_free_pages h)) = MAX_GROUP" using H(2) by simp
  have "distinct (concat (map (filter (\<lambda>p. p \<noteq> 0)) (m_free_pages h)))"
  proof (rule distinct_concat_nth, goal_cases)
    case (1 i)
    then show ?case using index_group [of i] H(2,4) by auto
  next
    case (2 i j)
    then obtain g g' where g: "i = group_index g" "j = group_index g'" "g \<noteq> g'" "i < MAX_GROUP" "j < MAX_GROUP"
      using index_group [of i] index_group [of j] len by fastforce
    have "\<not> (p \<in> set (m_free_pages h ! i) \<and> p \<in> set (m_free_pages h ! j))" if "p \<noteq> 0" for p
      using H(3) [of p g] H(3) [of p g'] unit_page_group [of h p g g'] g that by blast
    then show ?case using g(4,5) H(2) by auto
  qed
  then show ?thesis by (simp add: filter_concat)
qed

lemma remove_marked_heap:
  assumes inv: "heap_inv h C"
  defines "h' \<equiv> remove_marked_run_out_pages h" and "R \<equiv> {p \<in> set (concat (m_free_pages h)). marked_page (heap_mem h) p}"
  shows "heap_mem h' = retire_pages R (heap_mem h)" "heap_inv h' C" "unit_page h' p g = unit_page h p g"
    "chunk_of (h_chunk h') = chunk_of (h_chunk h)" "m_all_page_list h' = m_all_page_list h"
    "p \<noteq> 0 \<Longrightarrow> p \<in> set (m_free_pages h' ! group_index g) \<longleftrightarrow> p \<in> set (m_free_pages h ! group_index g) \<and> \<not> marked_page (heap_mem h) p"
proof -
  note H = heap_invD [OF inv]
  have e: "h' = (upd_mem (\<lambda>_. retire_pages R (heap_mem h)) h)
      \<lparr>m_free_pages := map (map (\<lambda>p. if marked_page (heap_mem h) p then 0 else p)) (m_free_pages h)\<rparr>"
    by (simp add: h'_def remove_marked_run_out_pages_def remove_marked_lists_spec [OF pools_distinct [OF inv]] R_def)
  have m: "heap_mem h' = retire_pages R (heap_mem h)" "chunk_of (h_chunk h') = chunk_of (h_chunk h)"
      "m_all_page_list h' = m_all_page_list h"
      "m_free_pages h' = map (map (\<lambda>p. if marked_page (heap_mem h) p then 0 else p)) (m_free_pages h)"
    by (simp_all add: e)
  show "heap_mem h' = retire_pages R (heap_mem h)" "chunk_of (h_chunk h') = chunk_of (h_chunk h)"
    "m_all_page_list h' = m_all_page_list h" by (fact m)+
  have pool: "p \<in> set (m_free_pages h' ! group_index g) \<longleftrightarrow> p \<in> set (m_free_pages h ! group_index g) \<and> \<not> marked_page (heap_mem h) p"
    if "p \<noteq> 0" for p g
    using that group_index_max [of g] H(2) by (auto simp: m(4))
  then show "p \<noteq> 0 \<Longrightarrow> p \<in> set (m_free_pages h' ! group_index g) \<longleftrightarrow> p \<in> set (m_free_pages h ! group_index g) \<and> \<not> marked_page (heap_mem h) p" .
  have "unit_lists (retire_pages R k) p g {} fs bs = unit_lists k p g {} fs bs" for k p g fs bs
  proof -
    have "unit_link (retire_pages R k) p = unit_link k p" "unit_life_of (retire_pages R k) p = unit_life_of k p"
      by (simp_all add: fun_eq_iff unit_link_def unit_life_of_def retire_pages_def)
    then show ?thesis by (simp add: unit_lists_def) (simp add: retire_pages_def)
  qed
  then have up: "unit_page h' p g = unit_page h p g" for p g
    by (simp add: unit_page_def m page_inv_def) (simp add: retire_pages_def)
  then show "unit_page h' p g = unit_page h p g" by simp
  have ro: "run_out_of h' p = run_out_of h p" if "p \<notin> R" for p
    using that by (auto simp: run_out_of_def m retire_pages_def alloc_head_inj)
  show "heap_inv h' C"
    unfolding heap_inv_def up m(2)
  proof (intro conjI allI ballI impI)
    fix g p assume p: "p \<in> set (m_free_pages h' ! group_index g)" "p \<noteq> 0"
    then have "p \<in> set (m_free_pages h ! group_index g)" "p \<notin> R" using pool by (auto simp: R_def)
    with H(3) [of p g] ro p(2) show "unit_page h p g" "run_out_of h' p = 0" "p \<notin> C" by auto
  next
    fix g
    have "filter (\<lambda>p. p \<noteq> 0) (map (\<lambda>p. if marked_page k p then 0 else p) ps) =
        filter (\<lambda>p. \<not> marked_page k p) (filter (\<lambda>p. p \<noteq> 0) ps)" for k ps by (induction ps) auto
    then have "filter (\<lambda>p. p \<noteq> 0) (m_free_pages h' ! group_index g) =
        filter (\<lambda>p. \<not> marked_page (heap_mem h) p) (filter (\<lambda>p. p \<noteq> 0) (m_free_pages h ! group_index g))"
      using group_index_max [of g] H(2) by (simp add: m(4))
    then show "distinct (filter (\<lambda>p. p \<noteq> 0) (m_free_pages h' ! group_index g))"
      using distinct_filter [OF H(4) [of g], of "\<lambda>p. \<not> marked_page (heap_mem h) p"] by (simp only:)
  qed (use H(1,2,5) in \<open>auto simp: m(4)\<close>)
qed

lemma remove_marked_sweepable:
  assumes inv: "heap_inv h C" and p: "sweepable h C p"
  shows "sweepable (remove_marked_run_out_pages h) C p"
proof -
  let ?h = "remove_marked_run_out_pages h" and ?R = "{p \<in> set (concat (m_free_pages h)). marked_page (heap_mem h) p}"
  note X = remove_marked_heap [OF inv]
  have rd: "page_at (heap_mem ?h) = page_at (heap_mem h)" "unit_at (heap_mem ?h) = unit_at (heap_mem h)" by (simp_all add: X(1) retire_pages_def)
  have C: "p \<notin> C" if R: "p \<in> ?R"
  proof -
    obtain xs where "xs \<in> set (m_free_pages h)" "p \<in> set xs" using R by auto
    then obtain i where i: "i < MAX_GROUP" "p \<in> set (m_free_pages h ! i)" using heap_invD(2) [OF inv] by (metis in_set_conv_nth)
    then obtain g where "i = group_index g" using index_group by blast
    with i(2) R heap_invD(3) [OF inv, of p g] show ?thesis by (auto simp: marked_page_def)
  qed
  have ro: "run_out_of ?h p = run_out_of h p" if "p \<notin> ?R" using that by (auto simp: run_out_of_def X(1) retire_pages_def)
  show ?thesis using p unfolding sweepable_def [of h]
  proof (elim disjE exE conjE)
    fix g assume g: "unit_page h p g" "run_out_of h p \<noteq> 0 \<longrightarrow> p \<notin> C" "\<forall>off \<in> unit_offsets g. unit_life_of (heap_mem h) p off \<noteq> SELF_MARKED"
    have "run_out_of ?h p \<noteq> 0 \<longrightarrow> p \<notin> C" using C ro g(2) by (cases "p \<in> ?R") (blast, metis)
    then have "unit_page ?h p g \<and> (run_out_of ?h p \<noteq> 0 \<longrightarrow> p \<notin> C) \<and> (\<forall>off \<in> unit_offsets g. unit_life_of (heap_mem ?h) p off \<noteq> SELF_MARKED)"
      using X(3) [of p g] g(1,3) by (simp add: unit_life_of_def rd)
    then show ?thesis unfolding sweepable_def by blast
  next
    fix n assume "huge_page (chunk_of (h_chunk h)) (heap_mem h) p n" "m_life (unit_at (heap_mem h) (p + sizeof_PageHead)) \<noteq> SELF_MARKED"
    then have "huge_page (chunk_of (h_chunk ?h)) (heap_mem ?h) p n \<and> m_life (unit_at (heap_mem ?h) (p + sizeof_PageHead)) \<noteq> SELF_MARKED"
      by (simp add: huge_page_def rd X(4))
    then show ?thesis unfolding sweepable_def by blast
  qed
qed

section \<open>Steps 6 and 7 of a cycle\<close>

text \<open>What a page that stays holds, and the heap after the sweep of all pages \<open>ps\<close>.\<close>

definition content_kept :: "u8 \<Rightarrow> mem \<Rightarrow> addr \<Rightarrow> mem \<Rightarrow> bool" where
  "content_kept round m p m' \<longleftrightarrow>
     (if page_is_cut m p
      then page_live m' p = page_kept round m p \<and>
        (\<forall>off \<in> page_kept round m p. unit_at m' (unit_addr p off) = aged (unit_at m (unit_addr p off)))
      else unit_at m' (p + sizeof_PageHead) = aged (unit_at m (p + sizeof_PageHead)))"

definition collected :: "u8 \<Rightarrow> addr list \<Rightarrow> addr set \<Rightarrow> 'os heap \<Rightarrow> 'os heap \<Rightarrow> bool" where
  "collected round ps C h h' \<longleftrightarrow> (let m = heap_mem h; m' = heap_mem h' in
     heap_inv h' C \<and> word_at m' = word_at m \<and>
     chunk_ranges (chunk_of (h_chunk h')) =
       {r \<in> chunk_ranges (chunk_of (h_chunk h)). \<not> (fst r \<in> set ps \<and> dropped round m (fst r))} \<and>
     (\<forall>p \<in> set ps. \<not> dropped round m p \<longrightarrow> content_kept round m p m' \<and> (\<forall>g. unit_page h p g \<longrightarrow> unit_page h' p g)) \<and>
     (\<forall>(q, n) \<in> chunk_ranges (chunk_of (h_chunk h)). q \<notin> set ps \<longrightarrow>
        (\<forall>a. unat a \<in> range_bytes (q, 1) \<longrightarrow> unit_at m' a = unit_at m a)) \<and>
     page_chain m' (m_all_page_list h') (rev (filter (\<lambda>p. \<not> dropped round m p) ps)) \<and>
     (\<forall>p \<in> set ps. \<not> dropped round m p \<longrightarrow> sweepable h' C p \<and> page_is_cut m' p = page_is_cut m p))"

lemma retired_reads:
  "unit_at (retire_pages R m) = unit_at m" "page_at (retire_pages R m) = page_at m" "word_at (retire_pages R m) = word_at m"
  "page_live (retire_pages R m) p = page_live m p" "content_kept round m0 p (retire_pages R m) = content_kept round m0 p m"
  "page_chain (retire_pages R m) a ps = page_chain m a ps"
proof -
  show u: "unit_at (retire_pages R m) = unit_at m" "page_at (retire_pages R m) = page_at m" "word_at (retire_pages R m) = word_at m"
    by (simp_all add: retire_pages_def)
  have "m_unit_size_in_page (alloc_at (retire_pages R m) a) = m_unit_size_in_page (alloc_at m a)" for a by (simp add: retire_pages_def)
  then show l: "page_live (retire_pages R m) p = page_live m p"
    by (simp add: page_live_def page_group_def live_units_def unit_life_of_def u)
  show "content_kept round m0 p (retire_pages R m) = content_kept round m0 p m" by (simp add: content_kept_def l u)
  have "page_links (retire_pages R m) = page_links m" by (simp add: fun_eq_iff page_links_def u)
  then show "page_chain (retire_pages R m) a ps = page_chain m a ps" by (simp add: page_chain_def)
qed

text \<open>
  A page that is lost: still allocated, but no thread holds it, no pool has it, and it is run out with no unit in use.
  \<open>in_pool\<close>: a page that a pool offers.
\<close>

definition leaked :: "'os heap \<Rightarrow> addr set \<Rightarrow> addr \<Rightarrow> bool" where
  "leaked h C p \<longleftrightarrow> (\<exists>g. unit_page h p g) \<and> p \<notin> C \<and> page_run_out (heap_mem h) p \<and> page_live (heap_mem h) p = {} \<and>
     (\<forall>g. p \<notin> set (m_free_pages h ! group_index g))"

definition in_pool :: "'os heap \<Rightarrow> addr \<Rightarrow> bool" where
  "in_pool h p \<longleftrightarrow> p \<noteq> 0 \<and> (\<exists>g. p \<in> set (m_free_pages h ! group_index g))"

lemma in_pool_page:
  assumes "heap_inv h C" "in_pool h p"
  shows "\<exists>g. unit_page h p g" "\<not> page_run_out (heap_mem h) p" "p \<notin> C" "p \<in> set (concat (m_free_pages h))"
proof -
  obtain g where g: "p \<noteq> 0" "p \<in> set (m_free_pages h ! group_index g)" using assms(2) by (auto simp: in_pool_def)
  note H = heap_invD(3) [OF assms(1) g(2,1)]
  show "\<exists>g. unit_page h p g" "\<not> page_run_out (heap_mem h) p" "p \<notin> C" using H by (auto simp: page_run_out_def run_out_of_def)
  have "m_free_pages h ! group_index g \<in> set (m_free_pages h)" using heap_invD(2) [OF assms(1)] group_index_max by simp
  then show "p \<in> set (concat (m_free_pages h))" using g(2) by auto
qed

lemma run_out_no_pool: "heap_inv h C \<Longrightarrow> page_run_out (heap_mem h) p \<Longrightarrow> \<not> in_pool h p"
  using in_pool_page(2) by blast

lemma retired_leaks:
  assumes inv: "heap_inv h C" and p: "unit_page h p g" "p \<notin> C" and l: "page_live (heap_mem h) p = {}"
    and r: "page_run_out (heap_mem h) p \<or> in_pool h p \<and> page_marked (heap_mem h) p"
  shows "leaked (remove_marked_run_out_pages h) C p"
proof -
  let ?R = "{p \<in> set (concat (m_free_pages h)). marked_page (heap_mem h) p}" and ?h = "remove_marked_run_out_pages h"
  note X = remove_marked_heap [OF inv]
  have nz: "p \<noteq> 0" using chunk_page_facts(2) [OF heap_invD(1) [OF inv]] p(1) by (auto simp: unit_page_def)
  have ro: "page_run_out (heap_mem ?h) p"
  proof (cases "p \<in> ?R")
    case True
    then show ?thesis unfolding X(1) by (simp add: page_run_out_def retire_pages_def)
  next
    case False
    then have "page_run_out (heap_mem h) p"
      using r in_pool_page(4) [OF inv, of p] nz by (auto simp: marked_page_def page_marked_def)
    then show ?thesis unfolding X(1) by (simp add: page_run_out_def retire_pages_def)
  qed
  have "page_live (heap_mem ?h) p = {}"
    using l unfolding X(1) by (simp add: page_live_def page_group_def live_units_def unit_life_of_def retire_pages_def)
  moreover have "p \<notin> set (m_free_pages ?h ! group_index g')" for g'
    using run_out_no_pool [OF X(2) ro] nz by (auto simp: in_pool_def)
  ultimately show ?thesis using X(3) p ro by (auto simp: leaked_def)
qed

lemma swept_leaks:
  assumes P: "pages_swept round ps C [] s s'" and inv: "heap_inv (sw_heap s) C" and q: "q \<in> set ps"
    and l: "in_pool (sw_heap s) q \<and> page_kept round (heap_mem (sw_heap s)) q = {} \<or> leaked (sw_heap s) C q"
  shows "leaked (remove_marked_run_out_pages (sw_heap s')) C q"
proof -
  let ?m = "heap_mem (sw_heap s)"
  note S = pages_sweptD [OF P]
  obtain g where g: "unit_page (sw_heap s) q g" "q \<notin> C" using l in_pool_page(1,3) [OF inv] unfolding leaked_def by blast
  then have c: "page_is_cut ?m q" by (simp add: unit_page_def page_is_cut_def)
  have k: "page_kept round ?m q = {}" using l by (auto simp: leaked_def page_kept_def page_live_def kept_units_def)
  have nd: "\<not> dropped round ?m q" "\<not> returned round ?m q"
    using l c k in_pool_page(2) [OF inv, of q] by (auto simp: dropped_def returned_def leaked_def)
  note V = S(4) [OF q nd(1), unfolded survived_def k]
  show ?thesis
  proof (rule retired_leaks [OF S(1) S(5) [OF q nd(1) g(1)] g(2)])
    show "page_live (heap_mem (sw_heap s')) q = {}" using V c by simp
    have "in_pool (sw_heap s') q" if "in_pool (sw_heap s) q" using that S(7) by (auto simp: in_pool_def)
    then show "page_run_out (heap_mem (sw_heap s')) q \<or> in_pool (sw_heap s') q \<and> page_marked (heap_mem (sw_heap s')) q"
      using V c nd(2) l by (cases "page_run_out ?m q") (auto simp: leaked_def)
  qed
qed

lemma collectedI:
  assumes r: "relinked S (heap_mem h) m1"
    and p: "pages_swept round ps C [] \<lparr>sw_heap = (upd_mem (\<lambda>_. m1) (h\<lparr>m_all_page_list := 0\<rparr>)), sw_freed = fr, sw_alive = a\<rparr>
      \<lparr>sw_heap = h2, sw_freed = fr', sw_alive = a'\<rparr>"
  shows "collected round ps C h (remove_marked_run_out_pages h2)"
    "fr' = concat (map (page_calls round (heap_mem h)) (rev ps)) @ fr"
    "heap_inv h C \<Longrightarrow> q \<in> set ps \<Longrightarrow> in_pool h q \<and> page_kept round (heap_mem h) q = {} \<or> leaked h C q \<Longrightarrow>
       leaked (remove_marked_run_out_pages h2) C q"
proof -
  let ?m = "heap_mem h" and ?h3 = "remove_marked_run_out_pages h2"
  note reads = relinked_reads [OF r]
  have r0: "relinked S (heap_mem (h\<lparr>m_all_page_list := 0\<rparr>)) m1" using r by simp
  have up: "unit_page (upd_mem (\<lambda>_. m1) (h\<lparr>m_all_page_list := 0\<rparr>)) p g = unit_page h p g" for p g
    using relinked_heap(1) [OF r0] by simp
  have m1: "word_at m1 = word_at ?m" "unit_at m1 = unit_at ?m" using r by (simp_all add: relinked_def)
  note P = pages_sweptD [OF p, simplified, unfolded up, simplified]
  note X = remove_marked_heap [OF P(1)]
  have d: "dropped round m1 = dropped round ?m" "page_calls round m1 = page_calls round ?m" by (simp_all add: fun_eq_iff reads)
  have keep: "content_kept round ?m q (heap_mem ?h3)" if "q \<in> set ps" "\<not> dropped round ?m q" for q
    using P(4) [of q] that unfolding X(1) retired_reads(5) d(1) reads(9) by (simp add: survived_def content_kept_def)
  have other: "unit_at (heap_mem ?h3) b = unit_at ?m b"
    if "(q, n) \<in> chunk_ranges (chunk_of (h_chunk h))" "q \<notin> set ps" "unat b \<in> range_bytes (q, 1)" for q n b
    using P(6) [of q n] that unfolding X(1) retired_reads(1) same_run_def m1(2) by simp
  have again: "sweepable ?h3 C q \<and> page_is_cut (heap_mem ?h3) q = page_is_cut ?m q" if "q \<in> set ps" "\<not> dropped round ?m q" for q
    using P(10,11) [of q] that d(1) remove_marked_sweepable [OF P(1)] reads(2) unfolding X(1) by (simp add: page_is_cut_def retired_reads)
  show "collected round ps C h ?h3"
    unfolding collected_def Let_def
    using X(1-5) P(2,3,5,8) keep other again by (auto simp: retired_reads d m1)
  show "fr' = concat (map (page_calls round ?m) (rev ps)) @ fr" using P(9) by (simp add: d)
  show "leaked ?h3 C q" if "heap_inv h C" "q \<in> set ps" "in_pool h q \<and> page_kept round ?m q = {} \<or> leaked h C q"
    using swept_leaks [OF p _ that(2)] relinked_heap(2) [OF r0, of C] that(1,3) by (auto simp: leaked_def in_pool_def up reads)
qed

text \<open>What a worker keeps of marking through a sweep.\<close>

definition marking_part :: "gc_worker \<Rightarrow> mpsc \<times> addr list \<times> bool" where
  "marking_part w = (m_gray_queue w, m_local_work w, m_is_draining w)"

lemma marking_part_eq:
  "map (\<lambda>w. w\<lparr>m_sweep_page_list := 0\<rparr>) ws' = map (\<lambda>w. w\<lparr>m_sweep_page_list := 0\<rparr>) ws \<Longrightarrow> map marking_part ws' = map marking_part ws"
  "map (\<lambda>w. w\<lparr>m_alive_memory_size_counter := 0\<rparr>) ws' = map (\<lambda>w. w\<lparr>m_alive_memory_size_counter := 0\<rparr>) ws \<Longrightarrow> map marking_part ws' = map marking_part ws"
proof -
  have m: "marking_part w = marking_part (w\<lparr>m_sweep_page_list := 0\<rparr>)" "marking_part w = marking_part (w\<lparr>m_alive_memory_size_counter := 0\<rparr>)" for w
    by (simp_all add: marking_part_def)
  have "map marking_part ws = map marking_part (map (\<lambda>w. w\<lparr>m_sweep_page_list := 0\<rparr>) ws)" 
    "map marking_part ws = map marking_part (map (\<lambda>w. w\<lparr>m_alive_memory_size_counter := 0\<rparr>) ws)" for ws
    by (simp_all add: m [symmetric] comp_def)
  then show "map (\<lambda>w. w\<lparr>m_sweep_page_list := 0\<rparr>) ws' = map (\<lambda>w. w\<lparr>m_sweep_page_list := 0\<rparr>) ws \<Longrightarrow> map marking_part ws' = map marking_part ws"
    "map (\<lambda>w. w\<lparr>m_alive_memory_size_counter := 0\<rparr>) ws' = map (\<lambda>w. w\<lparr>m_alive_memory_size_counter := 0\<rparr>) ws \<Longrightarrow> map marking_part ws' = map marking_part ws"
    by metis+
qed

text \<open>
  \<open>distribute_pages\<close> sets the lists of the workers only when there is a page. \<open>sweep_lists_fresh\<close>: no worker would sweep
  the list of an earlier cycle once more.
\<close>

definition sweep_lists_fresh :: "gc \<Rightarrow> 'os heap \<Rightarrow> bool" where
  "sweep_lists_fresh g h \<longleftrightarrow> m_all_page_list h \<noteq> 0 \<or> (\<forall>w \<in> set (m_gc_worker_threads g). m_sweep_page_list w = 0)"

lemma sweep_lists_fresh_cong:
  assumes "map m_sweep_page_list (m_gc_worker_threads g') = map m_sweep_page_list (m_gc_worker_threads g)"
    "m_all_page_list h' = m_all_page_list h"
  shows "sweep_lists_fresh g' h' = sweep_lists_fresh g h"
proof -
  have "(\<forall>w \<in> set ws. m_sweep_page_list w = 0) \<longleftrightarrow> (\<forall>a \<in> set (map m_sweep_page_list ws). a = 0)" for ws by simp
  then show ?thesis unfolding sweep_lists_fresh_def assms(2) by (metis assms(1))
qed

lemma distribute_handed_out:
  assumes ps: "page_chain (heap_mem h) (m_all_page_list h) ps" "length ps + 1 < 2 ^ 64"
    and ws: "m_gc_worker_threads g \<noteq> []" "length (m_gc_worker_threads g) < 2 ^ 64" and fr: "sweep_lists_fresh g h"
  shows "\<exists>ws m' pss. distribute_pages g h = Some (g\<lparr>m_gc_worker_threads := ws\<rparr>, upd_mem (\<lambda>_. m') (h\<lparr>m_all_page_list := 0\<rparr>)) \<and>
    concat pss = ps \<and> handed_out m' ws pss \<and> relinked (set ps) (heap_mem h) m' \<and>
    map (\<lambda>w. w\<lparr>m_sweep_page_list := 0\<rparr>) ws = map (\<lambda>w. w\<lparr>m_sweep_page_list := 0\<rparr>) (m_gc_worker_threads g)"
proof (cases "ps = []")
  case False
  then show ?thesis using distribute_pages_spec [OF ps(1) False ps(2) ws] by blast
next
  case True
  then have z: "m_all_page_list h = 0" using ps(1) by (simp add: page_chain_def)
  have "handed_out (heap_mem h) ws (map (\<lambda>_. []) ws)" if "\<forall>w \<in> set ws. m_sweep_page_list w = 0" for ws
    using that by (induction ws) (simp_all add: handed_out_def page_chain_def)
  then have "handed_out (heap_mem h) (m_gc_worker_threads g) (map (\<lambda>_. []) (m_gc_worker_threads g))"
    using fr z by (simp add: sweep_lists_fresh_def)
  moreover have "upd_mem (\<lambda>_. heap_mem h) (h\<lparr>m_all_page_list := 0\<rparr>) = h\<lparr>m_all_page_list := 0\<rparr>" by (simp add: upd_mem_def heap_mem_def)
  ultimately show ?thesis using True z
    by (intro exI [of _ "m_gc_worker_threads g"] exI [of _ "heap_mem h"] exI [of _ "map (\<lambda>_. []) (m_gc_worker_threads g)"])
      (simp add: distribute_pages_def relinked_refl)
qed

lemma gc_sweep_cycle_spec:
  assumes inv: "heap_inv h C" and ps: "page_chain (heap_mem h) (m_all_page_list h) ps" "sweep_lists_fresh g h" "length ps + 1 < 2 ^ 64"
    and sw: "\<forall>p \<in> set ps. sweepable h C p"
    and ws: "m_gc_worker_threads g \<noteq> []" "length (m_gc_worker_threads g) < 2 ^ 64"
  defines "round \<equiv> woomem_gc_marking_round_counter g"
  shows "\<exists>g' h'. gc_sweep_cycle g h = Some (g', h', concat (map (page_calls round (heap_mem h)) (rev ps))) \<and>
    collected round ps C h h' \<and> m_gc_cycle_count g' = m_gc_cycle_count g + 1 \<and>
    m_root_gc_unit_set g' = m_root_gc_unit_set g \<and> woomem_gc_marking_round_counter g' = woomem_gc_marking_round_counter g \<and>
    map marking_part (m_gc_worker_threads g') = map marking_part (m_gc_worker_threads g) \<and>
    (\<forall>q \<in> set ps. in_pool h q \<and> page_kept round (heap_mem h) q = {} \<or> leaked h C q \<longrightarrow> leaked h' C q)"
proof -
  obtain wk m1 pss where d: "distribute_pages g h = Some (g\<lparr>m_gc_worker_threads := wk\<rparr>, upd_mem (\<lambda>_. m1) (h\<lparr>m_all_page_list := 0\<rparr>))"
      "concat pss = ps" "handed_out m1 wk pss" "relinked (set ps) (heap_mem h) m1"
      "map (\<lambda>w. w\<lparr>m_sweep_page_list := 0\<rparr>) wk = map (\<lambda>w. w\<lparr>m_sweep_page_list := 0\<rparr>) (m_gc_worker_threads g)"
    using distribute_handed_out [OF ps(1,3) ws ps(2)] by blast
  let ?h1 = "upd_mem (\<lambda>_. m1) (h\<lparr>m_all_page_list := 0\<rparr>)"
  have r: "relinked (set ps) (heap_mem (h\<lparr>m_all_page_list := 0\<rparr>)) m1" using d(4) by simp
  have "sweepable (h\<lparr>m_all_page_list := 0\<rparr>) C p = sweepable h C p" for p by (simp add: sweepable_def run_out_of_def)
  then have "\<forall>p \<in> set (concat pss). sweepable ?h1 C p" using relinked_heap(3) [OF r] sw d(2) by simp
  moreover have "heap_inv ?h1 C" using relinked_heap(2) [OF r] inv by simp
  moreover have "distinct (concat pss)" using chain_distinct ps(1) d(2) unfolding page_chain_def by blast
  ultimately obtain wk' h2 fr where s: "sweep_phase round wk (?h1, []) = Some (wk', h2, fr)"
      "pages_swept round (concat pss) C [] \<lparr>sw_heap = ?h1, sw_freed = [], sw_alive = 0\<rparr> \<lparr>sw_heap = h2, sw_freed = fr, sw_alive = 0\<rparr>"
      "map (\<lambda>w. w\<lparr>m_alive_memory_size_counter := 0\<rparr>) wk' = map (\<lambda>w. w\<lparr>m_alive_memory_size_counter := 0\<rparr>) wk"
    using sweep_phase_spec [of ?h1 C wk pss "[]" round "[]"] d(3) by (auto simp: page_chain_def)
  from collectedI [OF d(4) s(2) [unfolded d(2)]]
  have c: "collected round ps C h (remove_marked_run_out_pages h2)" "fr = concat (map (page_calls round (heap_mem h)) (rev ps))"
      "\<forall>q \<in> set ps. in_pool h q \<and> page_kept round (heap_mem h) q = {} \<or> leaked h C q \<longrightarrow> leaked (remove_marked_run_out_pages h2) C q"
    using inv by auto
  have "map marking_part wk' = map marking_part (m_gc_worker_threads g)" using marking_part_eq(1) [OF d(5)] marking_part_eq(2) [OF s(3)] by simp
  then show ?thesis using d(1) s(1) c by (simp add: gc_sweep_cycle_def round_def Let_def)
qed

section \<open>Marking from the roots\<close>

definition all_work :: "nat \<Rightarrow> gc_worker list \<Rightarrow> addr list" where
  "all_work k ws = concat (map (worker_work k) ws)"

text \<open>The work of the workers is the gray units, each once.\<close>

definition gray_state :: "nat \<Rightarrow> mem \<Rightarrow> gc_worker list \<Rightarrow> bool" where
  "gray_state k m ws \<longleftrightarrow> (\<forall>w \<in> set ws. quiet k (m_gray_queue w)) \<and> distinct (all_work k ws) \<and>
     (\<forall>u \<in> set (all_work k ws). lives m u = SELF_MARKED)"

text \<open>The state of the collector but for its workers and the turn of the next one.\<close>

definition gc_rest :: "gc \<Rightarrow> gc" where
  "gc_rest g = g\<lparr>m_gc_worker_threads := [], m_gc_assigned_thread_idx := 0\<rparr>"

lemma all_work_update:
  assumes "i < length ws" "worker_work k w = u # worker_work k (ws ! i)"
  shows "mset (all_work k (ws[i := w])) = add_mset u (mset (all_work k ws))"
  using assms
proof (induction ws arbitrary: i)
  case (Cons x ws)
  then show ?case by (cases i) (auto simp: all_work_def)
qed simp

lemma mark_root_spec:
  assumes ws: "m_gc_worker_threads g \<noteq> []" "length (m_gc_worker_threads g) < 2 ^ 64" and fl: "woomem_gc_marking_state_flag g"
    and G: "gray_state k m (m_gc_worker_threads g)"
  shows "\<exists>g'. mark_root_unit_to_gray u (g, m) = Some (g', if lives m u = UNMARKED then with_lives ((lives m)(u := SELF_MARKED)) m else m) \<and>
    gray_state k (if lives m u = UNMARKED then with_lives ((lives m)(u := SELF_MARKED)) m else m) (m_gc_worker_threads g') \<and>
    set (all_work k (m_gc_worker_threads g')) = set (all_work k (m_gc_worker_threads g)) \<union> (if lives m u = UNMARKED then {u} else {}) \<and>
    length (m_gc_worker_threads g') = length (m_gc_worker_threads g) \<and> gc_rest g' = gc_rest g"
proof (cases "lives m u = UNMARKED")
  case False
  then show ?thesis using G by (simp add: mark_root_unit_to_gray_def mark_life_def lives_def)
next
  case True
  define wk where "wk = m_gc_worker_threads g"
  define i where "i = unat (m_gc_assigned_thread_idx g mod w64 (length wk))"
  define w where "w = (wk ! i)\<lparr>m_local_work := u # m_local_work (wk ! i)\<rparr>"
  define g' where "g' = g\<lparr>m_gc_assigned_thread_idx := m_gc_assigned_thread_idx g + 1, m_gc_worker_threads := wk[i := w]\<rparr>"
  have n: "unat (w64 (length wk)) = length wk" "0 < length wk" using ws by (simp_all add: wk_def unat_w64)
  then have i: "i < length wk" by (simp add: i_def unat_mod)
  have e: "upd_unit u (\<lambda>h. h\<lparr>m_life := SELF_MARKED\<rparr>) m = with_lives ((lives m)(u := SELF_MARKED)) m"
    using with_lives_simps(9) [of u SELF_MARKED "lives m" m] by simp
  have r: "mark_root_unit_to_gray u (g, m) = Some (g', with_lives ((lives m)(u := SELF_MARKED)) m)"
    using True [unfolded lives_def] fl i by (simp add: mark_root_unit_to_gray_def mark_life_def e fetch_thread_worker_def
      rd_in wr_in g'_def w_def i_def wk_def Let_def)
  have ms: "mset (all_work k (wk[i := w])) = add_mset u (mset (all_work k wk))"
    using i by (intro all_work_update) (simp_all add: w_def worker_work_def)
  then have set: "set (all_work k (wk[i := w])) = insert u (set (all_work k wk))" by (metis set_mset_add_mset_insert set_mset_mset)
  have nu: "u \<notin> set (all_work k wk)" using G True by (auto simp: gray_state_def wk_def)
  have "distinct (all_work k (wk[i := w]))"
    using mset_eq_imp_distinct_iff [of "all_work k (wk[i := w])" "u # all_work k wk"] ms nu G by (simp add: gray_state_def wk_def)
  moreover have "\<forall>x \<in> set (wk[i := w]). quiet k (m_gray_queue x)"
    using G i set_update_subset_insert [of wk i w] by (auto simp: gray_state_def w_def simp flip: wk_def)
  ultimately have "gray_state k (with_lives ((lives m)(u := SELF_MARKED)) m) (wk[i := w])"
    using G set by (auto simp: gray_state_def simp flip: wk_def)
  then show ?thesis using True r set by (intro exI [of _ g']) (simp add: g'_def gc_rest_def wk_def insert_commute)
qed

text \<open>All roots: the unmarked ones are gray and in the work of some worker.\<close>

definition grayed :: "addr set \<Rightarrow> mem \<Rightarrow> mem" where
  "grayed S m = with_lives (\<lambda>v. if v \<in> S \<and> lives m v = UNMARKED then SELF_MARKED else lives m v) m"

lemma grayed_simps:
  "lives (grayed S m) = (\<lambda>v. if v \<in> S \<and> lives m v = UNMARKED then SELF_MARKED else lives m v)" "grayed {} m = m"
  "grayed T (grayed S m) = grayed (S \<union> T) m"
  "(if lives m u = UNMARKED then with_lives ((lives m)(u := SELF_MARKED)) m else m) = grayed {u} m"
proof -
  show l: "lives (grayed S m) = (\<lambda>v. if v \<in> S \<and> lives m v = UNMARKED then SELF_MARKED else lives m v)" for S by (simp add: grayed_def)
  show "grayed {} m = m" by (simp add: grayed_def)
  have "(\<lambda>v. if v \<in> T \<and> lives (grayed S m) v = UNMARKED then SELF_MARKED else lives (grayed S m) v) =
      (\<lambda>v. if v \<in> S \<union> T \<and> lives m v = UNMARKED then SELF_MARKED else lives m v)" by (auto simp: l)
  then show "grayed T (grayed S m) = grayed (S \<union> T) m" unfolding grayed_def [of T] by (simp add: grayed_def)
  show "(if lives m u = UNMARKED then with_lives ((lives m)(u := SELF_MARKED)) m else m) = grayed {u} m"
  proof (cases "lives m u = UNMARKED")
    case True
    then have "(\<lambda>v. if v \<in> {u} \<and> lives m v = UNMARKED then SELF_MARKED else lives m v) = (lives m)(u := SELF_MARKED)" by auto
    then show ?thesis using True by (simp add: grayed_def)
  next
    case False
    then have "(\<lambda>v. if v \<in> {u} \<and> lives m v = UNMARKED then SELF_MARKED else lives m v) = lives m" by auto
    then show ?thesis using False unfolding grayed_def by simp
  qed
qed

lemma mark_root_set_spec:
  assumes "m_gc_worker_threads g \<noteq> []" "length (m_gc_worker_threads g) < 2 ^ 64" "woomem_gc_marking_state_flag g"
    "gray_state k m (m_gc_worker_threads g)"
  shows "\<exists>g'. mark_root_set us (g, m) = Some (g', grayed (set us) m) \<and> gray_state k (grayed (set us) m) (m_gc_worker_threads g') \<and>
    set (all_work k (m_gc_worker_threads g')) = set (all_work k (m_gc_worker_threads g)) \<union> {u \<in> set us. lives m u = UNMARKED} \<and>
    length (m_gc_worker_threads g') = length (m_gc_worker_threads g) \<and> gc_rest g' = gc_rest g"
  using assms
proof (induction us arbitrary: g m)
  case (Cons u us)
  from mark_root_spec [OF Cons.prems, of u] obtain g1 where
    g1: "mark_root_unit_to_gray u (g, m) = Some (g1, grayed {u} m)" "gray_state k (grayed {u} m) (m_gc_worker_threads g1)"
      "set (all_work k (m_gc_worker_threads g1)) = set (all_work k (m_gc_worker_threads g)) \<union> (if lives m u = UNMARKED then {u} else {})"
      "length (m_gc_worker_threads g1) = length (m_gc_worker_threads g)" "gc_rest g1 = gc_rest g"
    unfolding grayed_simps(4) by blast
  have "m_gc_worker_threads g1 \<noteq> []" "woomem_gc_marking_state_flag g1"
    using g1(4,5) Cons.prems(1,3) by (auto simp: gc_rest_def dest: arg_cong [of _ _ woomem_gc_marking_state_flag])
  from Cons.IH [OF this(1) _ this(2) g1(2)] Cons.prems(2) g1(4) obtain g' where
    g': "mark_root_set us (g1, grayed {u} m) = Some (g', grayed (set us) (grayed {u} m))"
      "gray_state k (grayed (set us) (grayed {u} m)) (m_gc_worker_threads g')"
      "set (all_work k (m_gc_worker_threads g')) = set (all_work k (m_gc_worker_threads g1)) \<union> {x \<in> set us. lives (grayed {u} m) x = UNMARKED}"
      "length (m_gc_worker_threads g') = length (m_gc_worker_threads g1)" "gc_rest g' = gc_rest g1" by auto
  have e: "grayed (set us) (grayed {u} m) = grayed (set (u # us)) m" by (simp add: grayed_simps(3))
  have "set (all_work k (m_gc_worker_threads g')) = set (all_work k (m_gc_worker_threads g)) \<union> {x \<in> set (u # us). lives m x = UNMARKED}"
    unfolding g'(3) g1(3) by (auto simp: grayed_simps(1))
  then show ?case using g1(1,4,5) g'(1,2,4,5) unfolding e by auto
qed (simp add: grayed_simps)

lemma root_calls_eq:
  assumes "chunk_inv c" "same_published (lives m0) (lives m)" "m = with_lives (lives m) m0"
    and "m_gc_worker_threads g \<noteq> []" "length (m_gc_worker_threads g) < 2 ^ 64" "woomem_gc_marking_state_flag g"
    "gray_state k m (m_gc_worker_threads g)"
  shows "root_calls_run c xs (g, m) = mark_root_set (call_units c m0 xs) (g, m)"
  using assms(2-)
proof (induction xs arbitrary: g m)
  case (Cons x xs)
  obtain p where p: "call_target c m0 x = Some p" using call_target_total [OF assms(1)] by blast
  have p': "call_target c m x = Some p"
    using call_target_lives [OF Cons.prems(1), of c m0 x] p Cons.prems(2) by simp
  have run: "root_calls_run c (x # xs) (g, m) = woomem_mark_root_unit_head p (g, m) \<bind> root_calls_run c xs"
    using p' by (cases x) (simp_all add: woomem_mark_root_fuzzy_unit_def woomem_mark_root_fuzzy_unit_head_def)
  show ?case
  proof (cases "p = 0")
    case True
    then show ?thesis using Cons p run by (simp add: woomem_mark_root_unit_head_def call_units_def)
  next
    case False
    let ?u = "p - sizeof_UnitHead"
    from mark_root_spec [OF Cons.prems(3-6), of ?u] obtain g1 where
      g1: "mark_root_unit_to_gray ?u (g, m) = Some (g1, grayed {?u} m)" "gray_state k (grayed {?u} m) (m_gc_worker_threads g1)"
        "length (m_gc_worker_threads g1) = length (m_gc_worker_threads g)" "gc_rest g1 = gc_rest g"
      unfolding grayed_simps(4) by blast
    have "m_gc_worker_threads g1 \<noteq> []" "length (m_gc_worker_threads g1) < 2 ^ 64" "woomem_gc_marking_state_flag g1"
      using g1(3,4) Cons.prems(3,4,5) by (auto simp: gc_rest_def dest: arg_cong [of _ _ woomem_gc_marking_state_flag])
    moreover have "same_published (lives m0) (lives (grayed {?u} m))"
      using Cons.prems(1) by (auto simp: same_published_def grayed_simps(1))
    moreover have "grayed {?u} m = with_lives (lives (grayed {?u} m)) m0"
    proof -
      have "grayed {?u} m = with_lives (lives (grayed {?u} m)) m" by (simp add: grayed_def)
      also have "\<dots> = with_lives (lives (grayed {?u} m)) (with_lives (lives m) m0)" using Cons.prems(2) by simp
      finally show ?thesis by simp
    qed
    ultimately have "root_calls_run c xs (g1, grayed {?u} m) = mark_root_set (call_units c m0 xs) (g1, grayed {?u} m)"
      using Cons.IH [of "grayed {?u} m" g1] g1(2) by simp
    then show ?thesis using g1(1) False p run by (simp add: woomem_mark_root_unit_head_def call_units_def)
  qed
qed (simp add: call_units_def)

section \<open>The marking of all workers\<close>

definition blackened :: "addr set \<Rightarrow> mem \<Rightarrow> mem" where
  "blackened R m = with_lives (\<lambda>u. if u \<in> R then FULL_MARKED else lives m u) m"

lemma blackened_simps:
  "lives (blackened R m) = (\<lambda>u. if u \<in> R then FULL_MARKED else lives m u)" "blackened {} m = m"
  "blackened S (blackened R m) = blackened (R \<union> S) m" "scannable (blackened R m) u = scannable m u"
proof -
  show l: "lives (blackened R m) = (\<lambda>u. if u \<in> R then FULL_MARKED else lives m u)" by (simp add: blackened_def)
  have "(\<lambda>u. if u \<in> S then FULL_MARKED else lives (blackened R m) u) = (\<lambda>u. if u \<in> R \<union> S then FULL_MARKED else lives m u)"
    by (auto simp: l)
  then show "blackened S (blackened R m) = blackened (R \<union> S) m" unfolding blackened_def [of S] by (simp add: blackened_def)
qed (simp_all add: blackened_def scannable_def)

lemma mark_edges_mono: "(\<And>v. L' v = UNMARKED \<Longrightarrow> L v = UNMARKED) \<Longrightarrow> S \<subseteq> S' \<Longrightarrow> reached T L' S \<subseteq> reached T L S'"
proof -
  assume a: "\<And>v. L' v = UNMARKED \<Longrightarrow> L v = UNMARKED" "S \<subseteq> S'"
  then have "mark_edges T L' \<subseteq> mark_edges T L" by (auto simp: mark_edges_def)
  then have "(mark_edges T L')\<^sup>* \<subseteq> (mark_edges T L)\<^sup>*" by (rule rtrancl_mono)
  then show "reached T L' S \<subseteq> reached T L S'" using a(2) by (auto simp: reached_def)
qed

text \<open>One worker after the other marks what all of them together would.\<close>

lemma reached_seq:
  defines "L1 \<equiv> \<lambda>S T L u. if u \<in> reached T L S then FULL_MARKED else L u"
  shows "reached T L S \<union> reached T (L1 S T L) S' = reached T L (S \<union> S')"
proof (intro subset_antisym subsetI)
  fix x assume "x \<in> reached T L S \<union> reached T (L1 S T L) S'"
  moreover have "reached T (L1 S T L) S' \<subseteq> reached T L (S \<union> S')" by (rule mark_edges_mono) (auto simp: L1_def split: if_splits)
  moreover have "reached T L S \<subseteq> reached T L (S \<union> S')" by (rule mark_edges_mono) auto
  ultimately show "x \<in> reached T L (S \<union> S')" by blast
next
  fix x assume "x \<in> reached T L (S \<union> S')"
  then show "x \<in> reached T L S \<union> reached T (L1 S T L) S'"
  proof (induction rule: reached_induct)
    case (start u)
    then show ?case using reached_refl [of S T L] reached_refl [of S' T "L1 S T L"] by auto
  next
    case (step u v)
    show ?case
    proof (cases "u \<in> reached T L S \<or> v \<in> reached T L S")
      case True
      then show ?thesis using reached_step [of u T L S v] step(2,3) by blast
    next
      case False
      then have "L1 S T L v = UNMARKED" using step(3) by (simp add: L1_def)
      then show ?thesis using False step(2,4) reached_step [of u T "L1 S T L" S' v] by blast
    qed
  qed
qed

lemma reached_gray:
  assumes "\<And>u. u \<in> S \<Longrightarrow> L u = UNMARKED"
  shows "reached T (\<lambda>v. if v \<in> S then SELF_MARKED else L v) S = reached T L S"
proof (intro subset_antisym)
  show "reached T (\<lambda>v. if v \<in> S then SELF_MARKED else L v) S \<subseteq> reached T L S"
    by (rule mark_edges_mono) (simp_all split: if_splits)
  show "reached T L S \<subseteq> reached T (\<lambda>v. if v \<in> S then SELF_MARKED else L v) S"
  proof
    fix x assume "x \<in> reached T L S"
    then show "x \<in> reached T (\<lambda>v. if v \<in> S then SELF_MARKED else L v) S"
    proof (induction rule: reached_induct)
      case (step u v)
      show ?case
      proof (cases "v \<in> S")
        case True
        then show ?thesis using reached_refl by fast
      next
        case False
        with step reached_step [of u T "\<lambda>v. if v \<in> S then SELF_MARKED else L v" S v] show ?thesis by simp
      qed
    qed (use reached_refl in fast)
  qed
qed

lemma reached_empty [simp]: "reached T L {} = {}"
  by (simp add: reached_def)

lemma targets_published:
  assumes "same_published (lives m) L"
  shows "unit_targets c cb (with_lives L m) = unit_targets c cb m"
proof
  fix u
  have "call_target c (with_lives L m) x = call_target c m x" for x
    using call_target_lives [OF assms, of c m x] by simp
  then show "unit_targets c cb (with_lives L m) u = unit_targets c cb m u"
    by (simp add: unit_targets_def call_units_def unit_calls_lives)
qed

lemma reached_published: "(\<And>u. u \<in> S \<Longrightarrow> PENDING < L u) \<Longrightarrow> u \<in> reached T L S \<Longrightarrow> PENDING < L u"
  by (rule reached_induct) auto

lemma mark_phase_spec:
  assumes "chunk_inv c" "gray_state k m ws"
    "\<forall>u \<in> reached (unit_targets c cb m) (lives m) (set (all_work k ws)). scannable m u"
  shows "\<exists>ws'. mark_phase k c cb ws m =
      Some (ws', blackened (reached (unit_targets c cb m) (lives m) (set (all_work k ws))) m) \<and> list_all2 (worker_idle k) ws ws'"
  using assms(2,3)
proof (induction ws arbitrary: m)
  case Nil
  then show ?case by (simp add: all_work_def blackened_simps)
next
  case (Cons w ws)
  let ?T = "unit_targets c cb m" and ?W = "set (worker_work k w)" and ?S = "set (all_work k ws)"
  let ?R = "reached ?T (lives m) ?W"
  have W: "set (all_work k (w # ws)) = ?W \<union> ?S" "distinct (worker_work k w)" "distinct (all_work k ws)" "?W \<inter> ?S = {}"
      "\<forall>u \<in> ?W \<union> ?S. lives m u = SELF_MARKED" "quiet k (m_gray_queue w)" "\<forall>w \<in> set ws. quiet k (m_gray_queue w)"
    using Cons.prems(1) by (auto simp: gray_state_def all_work_def)
  have sc: "\<forall>u \<in> ?R. scannable m u" using Cons.prems(2) mark_edges_mono [of "lives m" "lives m" ?W "?W \<union> ?S" ?T] unfolding W(1) by blast
  from process_spec [OF assms(1) W(6,2) _ sc] W(5) obtain w' where
    w': "process_gray_units k c cb (m, w) = Some (blackened ?R m, w')" "worker_idle k w w'" by (auto simp: blackened_def)
  let ?m = "blackened ?R m"
  have "PENDING < lives m u" if "u \<in> ?R" for u using reached_published [OF _ that] W(5) by auto
  then have pub: "same_published (lives m) (lives ?m)" by (auto simp: same_published_def blackened_simps(1))
  have T: "unit_targets c cb ?m = ?T" using targets_published [OF pub, of c cb] by (simp add: blackened_def)
  have "lives ?m u = SELF_MARKED" if u: "u \<in> ?S" for u
  proof -
    have "lives m x = SELF_MARKED \<and> x \<in> ?W \<or> lives m x = UNMARKED" if "x \<in> ?R" for x
      using that W(5) by (induction rule: reached_induct) auto
    then have "u \<notin> ?R" using u W(4,5) by force
    then show ?thesis using W(5) u by (simp add: blackened_simps(1))
  qed
  then have G: "gray_state k ?m ws" using W(3,7) by (simp add: gray_state_def)
  have seq: "?R \<union> reached ?T (lives ?m) ?S = reached ?T (lives m) (set (all_work k (w # ws)))"
    unfolding W(1) blackened_simps(1) by (rule reached_seq)
  then have "\<forall>u \<in> reached (unit_targets c cb ?m) (lives ?m) ?S. scannable ?m u"
    using Cons.prems(2) unfolding T blackened_simps(4) by blast
  from Cons.IH [OF G this] obtain ws' where
    "mark_phase k c cb ws ?m = Some (ws', blackened (reached ?T (lives ?m) ?S) ?m)" "list_all2 (worker_idle k) ws ws'"
    unfolding T by blast
  then show ?case using w' seq by (simp add: blackened_simps(3))
qed

section \<open>Steps 1 to 5 of a cycle\<close>

text \<open>The roots of a cycle, and the units reachable from them through unmarked units.\<close>

definition root_units :: "chunk \<Rightarrow> mem \<Rightarrow> mark_call list \<Rightarrow> gc \<Rightarrow> addr list" where
  "root_units c m begin_calls g = call_units c m begin_calls @ m_root_gc_unit_set g"

definition gc_reachable :: "chunk \<Rightarrow> (addr \<Rightarrow> mark_call list) \<Rightarrow> mem \<Rightarrow> addr list \<Rightarrow> addr set" where
  "gc_reachable c cb m us = reached (unit_targets c cb m) (lives m) {u \<in> set us. lives m u = UNMARKED}"

definition gc_idle :: "nat \<Rightarrow> gc \<Rightarrow> bool" where
  "gc_idle k g \<longleftrightarrow> m_gc_worker_threads g \<noteq> [] \<and> length (m_gc_worker_threads g) < 2 ^ 64 \<and>
     (\<forall>w \<in> set (m_gc_worker_threads g). quiet k (m_gray_queue w) \<and> worker_work k w = [])"

lemma gc_idle_cong:
  assumes "gc_idle k g" "map marking_part (m_gc_worker_threads g') = map marking_part (m_gc_worker_threads g)"
  shows "gc_idle k g'"
proof -
  let ?P = "\<lambda>(q, l, d :: bool). quiet k q \<and> l @ queued k q = []"
  have a: "(\<forall>w \<in> set ws. quiet k (m_gray_queue w) \<and> worker_work k w = []) \<longleftrightarrow> (\<forall>x \<in> set (map marking_part ws). ?P x)" for ws
    by (auto simp: marking_part_def worker_work_def)
  have "length (m_gc_worker_threads g') = length (m_gc_worker_threads g)" using arg_cong [OF assms(2), of length] by simp
  then show ?thesis using assms(1) unfolding gc_idle_def a assms(2) by auto
qed

lemma all_work_idle: "\<forall>w \<in> set ws. worker_work k w = [] \<Longrightarrow> all_work k ws = []"
  by (simp add: all_work_def)

lemma idle_workers:
  assumes "list_all2 (worker_idle k) ws ws'"
  shows "\<forall>w \<in> set ws'. quiet k (m_gray_queue w) \<and> worker_work k w = []" "length ws' = length ws"
proof -
  show "\<forall>w \<in> set ws'. quiet k (m_gray_queue w) \<and> worker_work k w = []"
    using assms by (induction rule: list_all2_induct) (auto simp: worker_idle_def)
  show "length ws' = length ws" using list_all2_lengthD [OF assms] by simp
qed

lemma mark_roots_spec:
  fixes m :: mem and begin_calls :: "mark_call list"
  assumes c: "chunk_inv c" and g: "gc_idle k g" "woomem_gc_marking_state_flag g"
  defines "us \<equiv> root_units c m begin_calls g"
  shows "\<exists>g'. (root_calls_run c begin_calls (g, m) \<bind> (\<lambda>(g, m). mark_root_set (m_root_gc_unit_set g) (g, m))) = Some (g', grayed (set us) m) \<and>
    gray_state k (grayed (set us) m) (m_gc_worker_threads g') \<and>
    set (all_work k (m_gc_worker_threads g')) = {u \<in> set us. lives m u = UNMARKED} \<and>
    length (m_gc_worker_threads g') = length (m_gc_worker_threads g) \<and> gc_rest g' = gc_rest g"
proof -
  let ?cs = "call_units c m begin_calls" and ?rs = "m_root_gc_unit_set g"
  have n: "m_gc_worker_threads g \<noteq> []" "length (m_gc_worker_threads g) < 2 ^ 64" using g(1) by (auto simp: gc_idle_def)
  have w0: "all_work k (m_gc_worker_threads g) = []" using g(1) by (intro all_work_idle) (simp add: gc_idle_def)
  then have G: "gray_state k m (m_gc_worker_threads g)" using g(1) by (simp add: gray_state_def gc_idle_def)
  have calls: "root_calls_run c begin_calls (g, m) = mark_root_set ?cs (g, m)"
    by (rule root_calls_eq [OF c _ _ n g(2) G]) (simp_all add: same_published_def)
  from mark_root_set_spec [OF n g(2) G, of ?cs] w0 obtain g1 where
    g1: "mark_root_set ?cs (g, m) = Some (g1, grayed (set ?cs) m)" "gray_state k (grayed (set ?cs) m) (m_gc_worker_threads g1)"
      "set (all_work k (m_gc_worker_threads g1)) = {u \<in> set ?cs. lives m u = UNMARKED}"
      "length (m_gc_worker_threads g1) = length (m_gc_worker_threads g)" "gc_rest g1 = gc_rest g" by auto
  have rest: "woomem_gc_marking_state_flag g1" "m_root_gc_unit_set g1 = ?rs"
    using g1(5) g(2) by (auto simp: gc_rest_def dest: arg_cong [of _ _ woomem_gc_marking_state_flag] arg_cong [of _ _ m_root_gc_unit_set])
  have "m_gc_worker_threads g1 \<noteq> []" using g1(4) n(1) by auto
  from mark_root_set_spec [OF this _ rest(1) g1(2), of ?rs] n(2) g1(4) obtain g' where
    g': "mark_root_set ?rs (g1, grayed (set ?cs) m) = Some (g', grayed (set ?rs) (grayed (set ?cs) m))"
      "gray_state k (grayed (set ?rs) (grayed (set ?cs) m)) (m_gc_worker_threads g')"
      "set (all_work k (m_gc_worker_threads g')) = set (all_work k (m_gc_worker_threads g1)) \<union> {u \<in> set ?rs. lives (grayed (set ?cs) m) u = UNMARKED}"
      "length (m_gc_worker_threads g') = length (m_gc_worker_threads g1)" "gc_rest g' = gc_rest g1" by auto
  have e: "grayed (set ?rs) (grayed (set ?cs) m) = grayed (set us) m" by (simp add: grayed_simps(3) us_def root_units_def)
  have "set (all_work k (m_gc_worker_threads g')) = {u \<in> set us. lives m u = UNMARKED}"
    unfolding g'(3) g1(3) by (auto simp: grayed_simps(1) us_def root_units_def)
  then show ?thesis using calls g1(1,4,5) g'(1,2,4,5) rest(2) unfolding e by simp
qed

text \<open>Marking leaves the sweep lists alone.\<close>

lemma mark_root_sweep_lists:
  assumes "mark_root_unit_to_gray u x = Some x'"
  shows "map m_sweep_page_list (m_gc_worker_threads (fst x')) = map m_sweep_page_list (m_gc_worker_threads (fst x))"
proof -
  have l: "map f (xs[i := y]) = map f xs" if "i < length xs" "f y = f (xs ! i)" for f :: "gc_worker \<Rightarrow> addr" and xs i y
    using that by (metis list_update_id map_update)
  show ?thesis
    using assms by (cases x) (auto simp: mark_root_unit_to_gray_def Let_def rd_def wr_def l split: prod.splits if_splits option.splits bind_splits)
qed

lemma root_calls_sweep_lists:
  "root_calls_run c xs x = Some x' \<Longrightarrow> map m_sweep_page_list (m_gc_worker_threads (fst x')) = map m_sweep_page_list (m_gc_worker_threads (fst x))"
proof (induction xs arbitrary: x)
  case (Cons y ys)
  then obtain x1 where "root_calls_run c ys x1 = Some x'" "x1 = x \<or> (\<exists>u. mark_root_unit_to_gray u x = Some x1)"
    by (auto simp: woomem_mark_root_unit_head_def woomem_mark_root_fuzzy_unit_def woomem_mark_root_fuzzy_unit_head_def
      split: mark_call.splits bind_splits if_splits)
  then show ?case using Cons.IH mark_root_sweep_lists by metis
qed simp

lemma root_set_sweep_lists:
  "mark_root_set us x = Some x' \<Longrightarrow> map m_sweep_page_list (m_gc_worker_threads (fst x')) = map m_sweep_page_list (m_gc_worker_threads (fst x))"
proof (induction us arbitrary: x)
  case (Cons u us)
  then obtain x1 where "mark_root_unit_to_gray u x = Some x1" "mark_root_set us x1 = Some x'" by (auto split: bind_splits)
  then show ?case using Cons.IH mark_root_sweep_lists by metis
qed simp

lemma idle_sweep_lists: "list_all2 (worker_idle k) ws ws' \<Longrightarrow> map m_sweep_page_list ws' = map m_sweep_page_list ws"
  by (induction rule: list_all2_induct) (auto simp: worker_idle_def)

lemma gc_mark_cycle_spec:
  fixes begin_calls :: "mark_call list" and cb :: "addr \<Rightarrow> mark_call list"
  assumes c: "chunk_inv (chunk_of (h_chunk h))" and g: "gc_idle k g"
  defines "us \<equiv> root_units (chunk_of (h_chunk h)) (heap_mem h) begin_calls g"
  defines "R \<equiv> gc_reachable (chunk_of (h_chunk h)) cb (heap_mem h) us"
  assumes sc: "\<forall>u \<in> R. scannable (heap_mem h) u"
  shows "\<exists>g'. gc_mark_cycle k cb begin_calls g h = Some (g', upd_mem (\<lambda>_. blackened R (heap_mem h)) h) \<and> gc_idle k g' \<and>
    woomem_gc_marking_round_counter g' = woomem_gc_marking_round_counter g + 1 \<and> \<not> woomem_gc_marking_state_flag g' \<and>
    m_root_gc_unit_set g' = m_root_gc_unit_set g \<and> m_gc_cycle_count g' = m_gc_cycle_count g \<and>
    map m_sweep_page_list (m_gc_worker_threads g') = map m_sweep_page_list (m_gc_worker_threads g)"
proof -
  let ?c = "chunk_of (h_chunk h)" and ?m = "heap_mem h" and ?S = "{u \<in> set us. lives (heap_mem h) u = UNMARKED}"
  let ?T = "unit_targets ?c cb ?m"
  define g0 where "g0 = g\<lparr>m_force_trigger_gc := False, woomem_gc_marking_round_counter := woomem_gc_marking_round_counter g + 1,
    woomem_gc_marking_state_flag := True\<rparr>"
  have g0: "gc_idle k g0" "woomem_gc_marking_state_flag g0" "root_units ?c ?m begin_calls g0 = us"
    using g by (simp_all add: gc_idle_def g0_def root_units_def us_def)
  from mark_roots_spec [OF c g0(1,2), where m = ?m and begin_calls = begin_calls] g0(3) obtain g1 where
    g1: "(root_calls_run ?c begin_calls (g0, ?m) \<bind> (\<lambda>(g, m). mark_root_set (m_root_gc_unit_set g) (g, m))) = Some (g1, grayed (set us) ?m)"
      "gray_state k (grayed (set us) ?m) (m_gc_worker_threads g1)" "set (all_work k (m_gc_worker_threads g1)) = ?S"
      "length (m_gc_worker_threads g1) = length (m_gc_worker_threads g0)" "gc_rest g1 = gc_rest g0" by auto
  let ?m1 = "grayed (set us) ?m"
  have l1: "lives ?m1 = (\<lambda>v. if v \<in> ?S then SELF_MARKED else lives ?m v)" by (auto simp: grayed_simps(1))
  have pub: "same_published (lives ?m) (lives ?m1)" by (auto simp: same_published_def grayed_simps(1))
  have T1: "unit_targets ?c cb ?m1 = ?T" using targets_published [OF pub, of ?c cb] by (simp add: grayed_def)
  have R: "reached (unit_targets ?c cb ?m1) (lives ?m1) ?S = R" unfolding T1 l1 R_def gc_reachable_def by (rule reached_gray) simp
  have b: "blackened R ?m1 = blackened R ?m"
  proof -
    have "?S \<subseteq> R" unfolding R_def gc_reachable_def by (rule reached_refl)
    then have "lives ?m1 u = lives ?m u" if "u \<notin> R" for u using that by (auto simp: grayed_simps(1))
    then have "(\<lambda>u. if u \<in> R then FULL_MARKED else lives ?m1 u) = (\<lambda>u. if u \<in> R then FULL_MARKED else lives ?m u)" by (intro ext) simp
    then show ?thesis unfolding blackened_def by (simp add: grayed_def)
  qed
  have "\<forall>u \<in> R. scannable ?m1 u" using sc by (simp add: scannable_def grayed_def)
  with mark_phase_spec [OF c g1(2), of cb] g1(3) R b obtain ws where
    ws: "mark_phase k ?c cb (m_gc_worker_threads g1) ?m1 = Some (ws, blackened R ?m)" "list_all2 (worker_idle k) (m_gc_worker_threads g1) ws"
    by auto
  note I = idle_workers [OF ws(2)]
  have w0: "all_work k ws = []" using I(1) by (intro all_work_idle) simp
  then have "gray_state k (blackened R ?m) ws" using I(1) by (simp add: gray_state_def)
  from mark_phase_spec [OF c this, of cb] w0 obtain ws' where
    ws': "mark_phase k ?c cb ws (blackened R ?m) = Some (ws', blackened R ?m)" "list_all2 (worker_idle k) ws ws'"
    by (auto simp: blackened_simps(2))
  note I' = idle_workers [OF ws'(2)]
  let ?g = "g1\<lparr>woomem_gc_marking_state_flag := False, m_gc_worker_threads := ws'\<rparr>"
  obtain ga ma where a: "root_calls_run ?c begin_calls (g0, ?m) = Some (ga, ma)" "mark_root_set (m_root_gc_unit_set ga) (ga, ma) = Some (g1, ?m1)"
    using g1(1) by (cases "root_calls_run ?c begin_calls (g0, ?m)") auto
  have run: "gc_mark_cycle k cb begin_calls g h = Some (?g, upd_mem (\<lambda>_. blackened R ?m) h)"
    using a ws(1) ws'(1) unfolding gc_mark_cycle_def Let_def g0_def [symmetric] by simp
  have "map m_sweep_page_list ws' = map m_sweep_page_list (m_gc_worker_threads g)"
    using root_calls_sweep_lists [OF a(1)] root_set_sweep_lists [OF a(2)] idle_sweep_lists [OF ws(2)] idle_sweep_lists [OF ws'(2)]
    by (simp add: g0_def)
  moreover have "gc_idle k ?g" using I I' g g1(4) by (auto simp: gc_idle_def g0_def)
  moreover have "woomem_gc_marking_round_counter g1 = woomem_gc_marking_round_counter g + 1" "m_root_gc_unit_set g1 = m_root_gc_unit_set g"
      "m_gc_cycle_count g1 = m_gc_cycle_count g"
    using g1(5) by (auto simp: gc_rest_def g0_def dest: arg_cong [of _ _ woomem_gc_marking_round_counter] arg_cong [of _ _ m_root_gc_unit_set]
      arg_cong [of _ _ m_gc_cycle_count])
  ultimately show ?thesis using run by simp
qed

section \<open>A whole cycle\<close>

lemma heap_lives:
  assumes L: "\<And>u. L u = RELEASED \<longleftrightarrow> lives (heap_mem h) u = RELEASED"
  defines "h' \<equiv> upd_mem (\<lambda>_. with_lives L (heap_mem h)) h"
  shows "unit_page h' p g = unit_page h p g" "heap_inv h C \<Longrightarrow> heap_inv h' C"
    "(\<And>u. L u = SELF_MARKED \<Longrightarrow> lives (heap_mem h) u = SELF_MARKED) \<Longrightarrow> sweepable h C p \<Longrightarrow> sweepable h' C p"
proof -
  have m: "heap_mem h' = with_lives L (heap_mem h)" "chunk_of (h_chunk h') = chunk_of (h_chunk h)" "m_free_pages h' = m_free_pages h"
    by (simp_all add: h'_def)
  have k: "unit_link (with_lives L (heap_mem h)) p = unit_link (heap_mem h) p" for p by (simp add: fun_eq_iff unit_link_def)
  have u: "unit_life_of (with_lives L (heap_mem h)) p off = L (unit_addr p off)" for p off by (simp add: unit_life_of_def)
  have r: "L (unit_addr p off) = RELEASED \<longleftrightarrow> unit_life_of (heap_mem h) p off = RELEASED" for p off using L by (simp add: unit_life_of_def lives_def)
  have "unit_lists (with_lives L (heap_mem h)) p g {} fs bs = unit_lists (heap_mem h) p g {} fs bs" for p g fs bs
    by (simp add: unit_lists_def k u r)
  then have up: "unit_page h' p g = unit_page h p g" "run_out_of h' p = run_out_of h p" for p g
    by (simp_all add: unit_page_def m page_inv_def run_out_of_def)
  then show "unit_page h' p g = unit_page h p g" by simp
  show "heap_inv h C \<Longrightarrow> heap_inv h' C" unfolding heap_inv_def up m by simp
  show "sweepable h C p \<Longrightarrow> sweepable h' C p" if "\<And>u. L u = SELF_MARKED \<Longrightarrow> lives (heap_mem h) u = SELF_MARKED"
    unfolding sweepable_def up huge_page_def m with_lives_simps u using that unfolding lives_def unit_life_of_def by blast
qed

text \<open>The reachable units were unmarked.\<close>

lemma gc_reachable_unmarked: "u \<in> gc_reachable c cb m us \<Longrightarrow> lives m u = UNMARKED"
  unfolding gc_reachable_def by (rule reached_induct) auto

lemma gc_cycle_spec:
  fixes begin_calls :: "mark_call list" and cb :: "addr \<Rightarrow> mark_call list" and s :: "'os alloc_state"
  defines "h \<equiv> al_heap s"
  assumes inv: "heap_inv h C" and ps: "page_chain (heap_mem h) (m_all_page_list h) ps" "sweep_lists_fresh g h" "length ps + 1 < 2 ^ 64"
    and sw: "\<forall>p \<in> set ps. sweepable h C p" and g: "gc_idle k g"
  defines "R \<equiv> gc_reachable (chunk_of (h_chunk h)) cb (heap_mem h) (root_units (chunk_of (h_chunk h)) (heap_mem h) begin_calls g)"
  assumes sc: "\<forall>u \<in> R. scannable (heap_mem h) u"
  defines "h1 \<equiv> upd_mem (\<lambda>_. blackened R (heap_mem h)) h" and "round \<equiv> woomem_gc_marking_round_counter g + 1"
  shows "\<exists>g' s'. gc_cycle k cb begin_calls (g, s) = Some (g', s', concat (map (page_calls round (heap_mem h1)) (rev ps))) \<and>
    collected round ps C h1 (al_heap s') \<and> m_gc_cycle_count g' = m_gc_cycle_count g + 1 \<and>
    m_new_allocated_size_since_last_gc s' = 0 \<and> woomem_gc_marking_round_counter g' = round \<and>
    gc_idle k g' \<and> m_root_gc_unit_set g' = m_root_gc_unit_set g \<and>
    (\<forall>q \<in> set ps. in_pool h1 q \<and> page_kept round (heap_mem h1) q = {} \<or> leaked h1 C q \<longrightarrow> leaked (al_heap s') C q)"
proof -
  from gc_mark_cycle_spec [OF heap_invD(1) [OF inv] g, of cb begin_calls] sc obtain g1 where
    g1: "gc_mark_cycle k cb begin_calls g h = Some (g1, h1)" "gc_idle k g1" "woomem_gc_marking_round_counter g1 = round"
      "m_gc_cycle_count g1 = m_gc_cycle_count g" "m_root_gc_unit_set g1 = m_root_gc_unit_set g"
      "map m_sweep_page_list (m_gc_worker_threads g1) = map m_sweep_page_list (m_gc_worker_threads g)" by (auto simp: R_def h1_def round_def)
  have bl: "blackened R (heap_mem h) = with_lives (\<lambda>u. if u \<in> R then FULL_MARKED else lives (heap_mem h) u) (heap_mem h)" by (simp add: blackened_def)
  have rel: "(if u \<in> R then FULL_MARKED else lives (heap_mem h) u) = RELEASED \<longleftrightarrow> lives (heap_mem h) u = RELEASED" for u
    using gc_reachable_unmarked [of u] by (simp add: R_def)
  note H = heap_lives [OF rel, folded bl, folded h1_def]
  have inv1: "heap_inv h1 C" using H(2) inv by blast
  have "lives (heap_mem h) u = SELF_MARKED" if "(if u \<in> R then FULL_MARKED else lives (heap_mem h) u) = SELF_MARKED" for u
    using that by (simp split: if_splits)
  then have sw1: "\<forall>p \<in> set ps. sweepable h1 C p" using H(3) sw by blast
  have ch1: "page_chain (heap_mem h1) (m_all_page_list h1) ps"
  proof -
    have "page_links (heap_mem h1) = page_links (heap_mem h)" by (simp add: fun_eq_iff page_links_def h1_def bl)
    then show ?thesis using ps(1) by (simp add: page_chain_def h1_def)
  qed
  have fr1: "sweep_lists_fresh g1 h1" using sweep_lists_fresh_cong [OF g1(6), of h1 h] ps(2) by (simp add: h1_def)
  from gc_sweep_cycle_spec [OF inv1 ch1 fr1 ps(3) sw1] g1(2-5) obtain g' h' where g':
    "gc_sweep_cycle g1 h1 = Some (g', h', concat (map (page_calls round (heap_mem h1)) (rev ps)))" "collected round ps C h1 h'"
    "m_gc_cycle_count g' = m_gc_cycle_count g + 1" "woomem_gc_marking_round_counter g' = round"
    "m_root_gc_unit_set g' = m_root_gc_unit_set g" "map marking_part (m_gc_worker_threads g') = map marking_part (m_gc_worker_threads g1)"
    "\<forall>q \<in> set ps. in_pool h1 q \<and> page_kept round (heap_mem h1) q = {} \<or> leaked h1 C q \<longrightarrow> leaked h' C q"
    by (auto simp: gc_idle_def)
  then show ?thesis using g1(1) gc_idle_cong [OF g1(2) g'(6)] by (simp add: gc_cycle_def Let_def h_def)
qed

lemma collected_again:
  assumes "collected round ps C h h'"
  shows "\<exists>ps'. page_chain (heap_mem h') (m_all_page_list h') ps' \<and> set ps' \<subseteq> set ps \<and> (\<forall>p \<in> set ps'. sweepable h' C p)"
  using assms unfolding collected_def Let_def
  by (intro exI [of _ "rev (filter (\<lambda>p. \<not> dropped round (heap_mem h) p) ps)"]) auto

text \<open>The units in use of a page.\<close>

definition unit_of_page :: "mem \<Rightarrow> addr \<Rightarrow> addr \<Rightarrow> bool" where
  "unit_of_page m p u \<longleftrightarrow> (if page_is_cut m p then \<exists>off \<in> page_live m p. u = unit_addr p off else u = p + sizeof_PageHead)"

text \<open>What blackening unmarked units does not change.\<close>

lemma blackened_reads:
  assumes R: "\<And>u. u \<in> R \<Longrightarrow> lives m u = UNMARKED"
  defines "m1 \<equiv> blackened R m"
  shows "aged (unit_at m1 v) = aged (unit_at m v)" "kept round (unit_at m1 v) \<longleftrightarrow> v \<in> R \<or> kept round (unit_at m v)"
    "page_is_cut m1 p = page_is_cut m p" "page_group m1 p = page_group m p" "page_live m1 p = page_live m p"
proof -
  have at: "alloc_at m1 = alloc_at m" "page_at m1 = page_at m" by (simp_all add: m1_def blackened_def)
  have un: "unit_at m1 v = (if v \<in> R then (unit_at m v)\<lparr>m_life := FULL_MARKED\<rparr> else unit_at m v)" for v
    by (simp add: m1_def blackened_def with_lives_def lives_def)
  have l: "m_life (unit_at m v) = UNMARKED" if "v \<in> R" for v using R [OF that] by (simp add: lives_def)
  then show "aged (unit_at m1 v) = aged (unit_at m v)" "kept round (unit_at m1 v) \<longleftrightarrow> v \<in> R \<or> kept round (unit_at m v)"
    by (cases "v \<in> R"; simp add: un aged_def kept_def)+
  have "m_life (unit_at m1 v) = RELEASED \<longleftrightarrow> m_life (unit_at m v) = RELEASED" for v using l [of v] by (simp add: un)
  then show "page_is_cut m1 p = page_is_cut m p" "page_group m1 p = page_group m p" "page_live m1 p = page_live m p"
    by (auto simp: page_is_cut_def page_group_def page_live_def live_units_def unit_life_of_def at)
qed

lemma collected_unit:
  assumes c: "collected round ps C (upd_mem (\<lambda>_. blackened R (heap_mem h)) h) h'" and p: "p \<in> set ps" "sweepable h C p" "heap_inv h C"
    and R: "\<And>u. u \<in> R \<Longrightarrow> lives (heap_mem h) u = UNMARKED" and u: "unit_of_page (heap_mem h) p u"
  shows "if u \<in> R \<or> kept round (unit_at (heap_mem h) u)
    then (\<exists>n. (p, n) \<in> chunk_ranges (chunk_of (h_chunk h'))) \<and> unit_at (heap_mem h') u = aged (unit_at (heap_mem h) u)
    else (\<forall>n. (p, n) \<notin> chunk_ranges (chunk_of (h_chunk h'))) \<or> m_life (unit_at (heap_mem h') u) = RELEASED"
proof -
  define m m1 m' where ms: "m = heap_mem h" "m1 = blackened R m" "m' = heap_mem h'"
  have C: "chunk_ranges (chunk_of (h_chunk h')) = {r \<in> chunk_ranges (chunk_of (h_chunk h)). \<not> (fst r \<in> set ps \<and> dropped round m1 (fst r))}"
      "\<not> dropped round m1 p \<Longrightarrow> content_kept round m1 p m'"
    using c p(1) by (auto simp: collected_def Let_def ms)
  obtain n where n: "(p, n) \<in> chunk_ranges (chunk_of (h_chunk h))" using sweepable_range [OF p(2)] by blast
  have ag: "aged (unit_at m1 v) = aged (unit_at m v)" "kept round (unit_at m1 v) \<longleftrightarrow> v \<in> R \<or> kept round (unit_at m v)" for v
    unfolding ms using blackened_reads(1,2) [of R "heap_mem h", OF R] by blast+
  have rel: "(if v \<in> R then FULL_MARKED else lives (heap_mem h) v) = RELEASED \<longleftrightarrow> lives (heap_mem h) v = RELEASED" for v
    using R [of v] by auto
  have up: "unit_page (upd_mem (\<lambda>_. m1) h) q g = unit_page h q g" for q g
    unfolding ms blackened_def by (rule heap_lives(1)) (rule rel)
  have cut: "page_is_cut m1 p = page_is_cut m p" "page_group m1 p = page_group m p" "page_live m1 p = page_live m p"
    unfolding ms using blackened_reads(3-5) [of R "heap_mem h", OF R] by blast+
  show ?thesis
  proof (cases "page_is_cut m p")
    case True
    then obtain off where off: "off \<in> page_live m p" "u = unit_addr p off" using u by (auto simp: unit_of_page_def ms)
    have k: "off \<in> page_kept round m1 p \<longleftrightarrow> u \<in> R \<or> kept round (unit_at m u)"
      using off ag(2) cut(3) by (auto simp: page_kept_def kept_units_def page_live_def)
    show ?thesis
    proof (cases "u \<in> R \<or> kept round (unit_at m u)")
      case yes: True
      then have "\<not> dropped round m1 p" using k True cut(1) by (auto simp: dropped_def)
      then have "(p, n) \<in> chunk_ranges (chunk_of (h_chunk h'))" "unit_at m' u = aged (unit_at m u)"
        using C n k yes True cut(1) off(2) ag(1) by (auto simp: content_kept_def)
      then show ?thesis using yes by (auto simp: ms)
    next
      case no: False
      have "m_life (unit_at m' u) = RELEASED" if nd: "\<not> dropped round m1 p"
      proof -
        have live: "page_live m' p = page_kept round m1 p" using C(2) [OF nd] True cut(1) by (simp add: content_kept_def)
        obtain g where g: "unit_page h p g" using p(2) True by (auto simp: sweepable_def huge_page_def page_is_cut_def ms)
        have "unit_page h' p g" using c p(1) nd g up by (auto simp: collected_def Let_def ms)
        then have "page_group m' p = page_group m p" using g page_group_eq by (auto simp: unit_page_def ms)
        moreover have "off \<notin> page_live m' p" unfolding live using k no by blast
        moreover have "off \<in> unit_offsets (page_group m p)" using off(1) by (simp add: page_live_def live_units_def)
        ultimately show ?thesis using off(2) by (simp add: page_live_def live_units_def unit_life_of_def)
      qed
      then show ?thesis using no C(1) p(1) by (auto simp: ms)
    qed
  next
    case False
    then have ue: "u = p + sizeof_PageHead" using u by (simp add: unit_of_page_def ms)
    have d: "dropped round m1 p \<longleftrightarrow> \<not> (u \<in> R \<or> kept round (unit_at m u))" using False cut(1) ag(2) ue by (simp add: dropped_def)
    show ?thesis
      using C n d p(1) False cut(1) ue ag(1) by (auto simp: content_kept_def ms [symmetric])
  qed
qed

section \<open>Properties\<close>

text \<open>C9: A collection cycle is exact, unless the chain of pages is empty while a worker still has the list of an earlier
  cycle (the last property of this theory is about that case). It comes to its end, the heap is in order afterwards and no payload has
  changed. For each unit in use of each page of the chain: if the unit is reachable from the roots (the
  registered ones and those of the begin callback) through unmarked units, or if it is being built, was
  published in this round or does not want to be swept, its page is still allocated and the unit is as
  before, white and one round older; otherwise it is released, or its page has gone back to the chunk.
  The state is ready for the next cycle: the workers have nothing to do, the pages of the new chain are pages of
  the old one and have no gray unit, and the root set is the same.\<close>

theorem gc_cycle_exact:
  fixes begin_calls :: "mark_call list" and cb :: "addr \<Rightarrow> mark_call list" and s :: "'os alloc_state" and g :: gc
  defines "h \<equiv> al_heap s"
  defines "R \<equiv> gc_reachable (chunk_of (h_chunk h)) cb (heap_mem h) (root_units (chunk_of (h_chunk h)) (heap_mem h) begin_calls g)"
  assumes "heap_inv h C" and "page_chain (heap_mem h) (m_all_page_list h) ps" and "sweep_lists_fresh g h" and "length ps + 1 < 2 ^ 64"
    and "\<forall>p \<in> set ps. sweepable h C p" and "gc_idle k g" and "\<forall>u \<in> R. scannable (heap_mem h) u"
  shows "\<exists>g' s' fr. gc_cycle k cb begin_calls (g, s) = Some (g', s', fr) \<and> heap_inv (al_heap s') C \<and>
    word_at (heap_mem (al_heap s')) = word_at (heap_mem h) \<and>
    (\<forall>p \<in> set ps. \<forall>u. unit_of_page (heap_mem h) p u \<longrightarrow>
      (if u \<in> R \<or> kept (woomem_gc_marking_round_counter g + 1) (unit_at (heap_mem h) u)
       then (\<exists>n. (p, n) \<in> chunk_ranges (chunk_of (h_chunk (al_heap s')))) \<and>
         unit_at (heap_mem (al_heap s')) u = aged (unit_at (heap_mem h) u)
       else (\<forall>n. (p, n) \<notin> chunk_ranges (chunk_of (h_chunk (al_heap s')))) \<or>
         m_life (unit_at (heap_mem (al_heap s')) u) = RELEASED)) \<and>
    gc_idle k g' \<and> m_root_gc_unit_set g' = m_root_gc_unit_set g \<and>
    (\<exists>ps'. page_chain (heap_mem (al_heap s')) (m_all_page_list (al_heap s')) ps' \<and> set ps' \<subseteq> set ps \<and>
       (\<forall>p \<in> set ps'. sweepable (al_heap s') C p))"
proof -
  let ?round = "woomem_gc_marking_round_counter g + 1" and ?m = "heap_mem h"
  from gc_cycle_spec [of s C ps g k cb begin_calls, folded h_def, folded R_def] assms(3-)
  obtain g' s' where c: "gc_cycle k cb begin_calls (g, s) =
      Some (g', s', concat (map (page_calls ?round (heap_mem (upd_mem (\<lambda>_. blackened R ?m) h))) (rev ps)))"
      "collected ?round ps C (upd_mem (\<lambda>_. blackened R ?m) h) (al_heap s')"
      "gc_idle k g'" "m_root_gc_unit_set g' = m_root_gc_unit_set g" by blast
  have R: "lives ?m u = UNMARKED" if "u \<in> R" for u using that gc_reachable_unmarked unfolding R_def by blast
  have "heap_inv (al_heap s') C" "word_at (heap_mem (al_heap s')) = word_at ?m"
    using c(2) by (simp_all add: collected_def Let_def blackened_def)
  moreover note collected_unit [OF c(2) _ _ assms(3) R] collected_again [OF c(2)]
  ultimately show ?thesis using c(1,3,4) assms(7) by blast
qed

text \<open>A collector with one worker and one registered root, the unit of \<open>demo_unit\<close>.\<close>

definition demo_gc :: gc where
  "demo_gc = register_root_unit_head 0x100020 (fst (GC 1 8 (\<lambda>_. (demo_raw, 0)) \<lparr>woomem_gc_marking_round_counter = 3, woomem_gc_marking_state_flag = False,
     woomem_gc_memory_size_after_last_round_sweep = 0, m_gc_worker_threads = [], m_gc_assigned_thread_idx = 0,
     m_force_trigger_gc = False, m_gc_cycle_count = 0, m_root_gc_unit_set = []\<rparr> []))"

lemma demo_gc_idle: "gc_idle 1 demo_gc"
proof -
  have "quiet 1 (m_gray_queue (GCWorker demo_raw 0))"
    using mpsc_ok_new [of 1 demo_raw] by (auto simp: GCWorker_def quiet_def demo_raw_def)
  then show ?thesis
    by (simp add: gc_idle_def demo_gc_def GC_def register_root_unit_head_def worker_work_def)
      (simp add: GCWorker_def queued_def MpscGrayQueue_def)
qed

lemma demo_unit_sweepable:
  "\<exists>D. heap_inv (al_heap demo_unit) D \<and> (\<forall>p \<in> set [0x100000]. sweepable (al_heap demo_unit) D p)"
proof -
  have "heap_inv (sw_heap demo_sweep) D = heap_inv (al_heap demo_unit) D"
    "sweepable (sw_heap demo_sweep) D p = sweepable (al_heap demo_unit) D p" for D p
    by (simp_all add: demo_sweep_def sweepable_def run_out_of_def)
  then show ?thesis using demo_sweep_ok by auto
qed

lemma demo_unit_gc_eval:
  "unit_targets (chunk_of (h_chunk (al_heap demo_unit))) (\<lambda>_. [Mark_fuzzy_unit 0x101234]) (heap_mem (al_heap demo_unit)) 0x100020 = [0x100020]"
  "lives (heap_mem (al_heap demo_unit)) 0x100020 = UNMARKED" "m_all_page_list (al_heap demo_unit) = 0x100000"
  "page_chain (heap_mem (al_heap demo_unit)) 0x100000 [0x100000]"
  by code_simp+

theorem gc_cycle_exact_witness:
  "\<exists>g' s' fr. gc_cycle 1 (\<lambda>_. [Mark_fuzzy_unit 0x101234]) [] (demo_gc, demo_unit) = Some (g', s', fr) \<and>
     (\<exists>n. (0x100000, n) \<in> chunk_ranges (chunk_of (h_chunk (al_heap s')))) \<and>
     m_life (unit_at (heap_mem (al_heap s')) 0x100020) = UNMARKED"
proof -
  let ?h = "al_heap demo_unit" and ?cb = "\<lambda>_ :: addr. [Mark_fuzzy_unit 0x101234]"
  let ?c = "chunk_of (h_chunk ?h)" and ?m = "heap_mem ?h"
  let ?R = "gc_reachable ?c ?cb ?m (root_units ?c ?m [] demo_gc)"
  obtain D where D: "heap_inv ?h D" "\<forall>p \<in> set [0x100000]. sweepable ?h D p" using demo_unit_sweepable by blast
  note e = demo_unit_gc_eval
  have r: "root_units ?c ?m [] demo_gc = [0x100020]"
    by (simp add: root_units_def call_units_def demo_gc_def register_root_unit_head_def GC_def)
  have ch: "page_chain ?m (m_all_page_list ?h) [0x100000]" using e(3,4) by simp
  have fl: "sweep_lists_fresh demo_gc ?h" using e(3) by (simp add: sweep_lists_fresh_def)
  have S: "{u \<in> set [0x100020]. lives ?m u = UNMARKED} = {0x100020 :: addr}" using e(2) by auto
  let ?R' = "reached (unit_targets ?c ?cb ?m) (lives ?m) {0x100020}"
  have "?R' \<subseteq> {0x100020}"
    by (rule reached_closed [OF order_refl]) (simp add: e(1))
  moreover have "0x100020 \<in> ?R'" by (rule subsetD [OF reached_refl]) simp
  ultimately have R: "?R \<subseteq> {0x100020}" "0x100020 \<in> ?R" unfolding gc_reachable_def r S .
  then have sc: "\<forall>u \<in> ?R. scannable ?m u" using demo_unit_eval(6) by (auto simp: scannable_def)
  have u: "page_group ?m 0x100000 = MIDIUM_10904" "page_is_cut ?m 0x100000" "unit_life_of ?m 0x100000 8 = UNMARKED"
    using demo_sweep_eval(2,4,6) by (simp_all add: demo_sweep_def)
  have "8 \<in> page_live ?m 0x100000" using u by (simp add: page_live_def live_units_def demo_offsets)
  moreover have "unit_addr 0x100000 8 = 0x100020" by (simp add: unit_addr_def alloc_head_def sizeof_defs)
  ultimately have up: "unit_of_page ?m 0x100000 0x100020" unfolding unit_of_page_def using u(2) by force
  from gc_cycle_exact [of demo_unit D "[0x100000]" demo_gc 1 ?cb "[]", OF D(1) ch fl _ D(2) demo_gc_idle sc]
  obtain g' s' fr where run: "gc_cycle 1 ?cb [] (demo_gc, demo_unit) = Some (g', s', fr)"
      "\<forall>p \<in> set [0x100000]. \<forall>u. unit_of_page ?m p u \<longrightarrow>
        (if u \<in> ?R \<or> kept (woomem_gc_marking_round_counter demo_gc + 1) (unit_at ?m u)
         then (\<exists>n. (p, n) \<in> chunk_ranges (chunk_of (h_chunk (al_heap s')))) \<and> unit_at (heap_mem (al_heap s')) u = aged (unit_at ?m u)
         else (\<forall>n. (p, n) \<notin> chunk_ranges (chunk_of (h_chunk (al_heap s')))) \<or> m_life (unit_at (heap_mem (al_heap s')) u) = RELEASED)"
    by (simp del: set_simps) blast
  from run(2) [rule_format, OF _ up] R(2) obtain n where "(0x100000, n) \<in> chunk_ranges (chunk_of (h_chunk (al_heap s')))"
      "unit_at (heap_mem (al_heap s')) 0x100020 = aged (unit_at ?m 0x100020)" by auto
  note run(1) this
  moreover have "m_life (aged (unit_at ?m 0x100020)) = UNMARKED" using e(2) by (simp add: aged_def lives_def)
  ultimately show ?thesis by auto
qed

text \<open>C21: The pages are handed out completely and evenly. With at least one page and one worker the whole chain is
  cut into consecutive pieces, one per worker, in order and without loss; of \<open>t\<close> pages and \<open>n\<close> workers each gets
  \<open>t div n\<close> pages and the first \<open>t mod n\<close> one more. Nothing but links of these pages changes.\<close>

theorem distribute_pages_balanced:
  assumes "page_chain (heap_mem h) (m_all_page_list h) ps" and "ps \<noteq> []" and "length ps + 1 < 2 ^ 64"
    and "m_gc_worker_threads g \<noteq> []" and "length (m_gc_worker_threads g) < 2 ^ 64"
  shows "\<exists>ws m' pss. distribute_pages g h = Some (g\<lparr>m_gc_worker_threads := ws\<rparr>, upd_mem (\<lambda>_. m') (h\<lparr>m_all_page_list := 0\<rparr>)) \<and>
    handed_out m' ws pss \<and> concat pss = ps \<and>
    map length pss = map (\<lambda>i. length ps div length (m_gc_worker_threads g) +
      (if i < length ps mod length (m_gc_worker_threads g) then 1 else 0)) [0..<length (m_gc_worker_threads g)] \<and>
    relinked (set ps) (heap_mem h) m' \<and>
    map (\<lambda>w. w\<lparr>m_sweep_page_list := 0\<rparr>) ws = map (\<lambda>w. w\<lparr>m_sweep_page_list := 0\<rparr>) (m_gc_worker_threads g)"
  using distribute_pages_spec [OF assms] by blast

text \<open>Three linked pages for two workers.\<close>

definition demo_linked :: "addr list heap" where
  "demo_linked = (upd_mem (\<lambda>m. upd_page 0x100000 (\<lambda>p. p\<lparr>m_next_page := 0x108000\<rparr>)
     (upd_page 0x108000 (\<lambda>p. p\<lparr>m_next_page := 0x110000\<rparr>) m)) demo_heap)\<lparr>m_all_page_list := 0x100000\<rparr>"

theorem distribute_pages_balanced_witness:
  "\<exists>ws m' pss. distribute_pages (fst (GC 2 8 (\<lambda>_. (demo_raw, 0)) demo_gc [])) demo_linked =
       Some ((fst (GC 2 8 (\<lambda>_. (demo_raw, 0)) demo_gc []))\<lparr>m_gc_worker_threads := ws\<rparr>, upd_mem (\<lambda>_. m') (demo_linked\<lparr>m_all_page_list := 0\<rparr>)) \<and>
     handed_out m' ws pss \<and> concat pss = [0x100000, 0x108000, 0x110000] \<and> map length pss = [2, 1]"
proof -
  let ?g = "fst (GC 2 8 (\<lambda>_. (demo_raw, 0)) demo_gc [])" and ?ps = "[0x100000, 0x108000, 0x110000] :: addr list"
  have c: "page_chain (heap_mem demo_linked) (m_all_page_list demo_linked) ?ps" by code_simp
  have n: "length (m_gc_worker_threads ?g) = 2" by (simp add: GC_def)
  have sh: "map (\<lambda>i. length ?ps div 2 + (if i < length ?ps mod 2 then 1 else 0)) [0..<2] = [2, 1]" by code_simp
  have h: "?ps \<noteq> []" "length ?ps + 1 < 2 ^ 64" "m_gc_worker_threads ?g \<noteq> []" "(2 :: nat) < 2 ^ 64" by (simp_all add: GC_def)
  show ?thesis using distribute_pages_balanced [OF c, of ?g, unfolded n, OF h, unfolded sh]
    by (elim exE conjE) (intro exI conjI; assumption)
qed

text \<open>C37: A stale sweep list. When the chain of pages is empty the lists of the workers are not reset. If a worker's list
  still starts with a huge page that an earlier sweep released and freed, the next sweep frees it again: the call
  violates the precondition of \<open>free_page\<close> and the cycle has no result.\<close>

theorem stale_sweep_list_faults:
  assumes "m_all_page_list h = 0" and "m_gc_worker_threads g = w # ws" and "m_sweep_page_list w = p" and "p \<noteq> 0"
    and "\<not> page_is_cut (heap_mem h) p" and "m_life (unit_at (heap_mem h) (p + sizeof_PageHead)) = RELEASED"
    and "validate p (chunk_of (h_chunk h)) \<noteq> Some p"
  shows "gc_sweep_cycle g h = None"
proof -
  have "distribute_pages g h = Some (g, h\<lparr>m_all_page_list := 0\<rparr>)" using assms(1) by (simp add: distribute_pages_def)
  moreover have "free_page p (chunk_of (h_chunk h)) = None" using assms(7) by (simp add: free_page_def)
  then have "sweep_units_in_page r p \<lparr>sw_heap = h\<lparr>m_all_page_list := 0\<rparr>, sw_freed = f, sw_alive = a\<rparr> = None" for r f a
    using assms(5,6) by (simp add: sweep_units_in_page_def page_is_cut_def sweep_huge_page_def check_and_free_unmarked_unit_def
      finish_page_def Let_def)
  then have "sweep_pages r p \<lparr>sw_heap = h\<lparr>m_all_page_list := 0\<rparr>, sw_freed = f, sw_alive = a\<rparr> = None" for r f a
    using assms(4) by (subst sweep_pages.simps) simp
  ultimately show ?thesis using assms(2,3) by (simp add: gc_sweep_cycle_def)
qed

text \<open>A heap with one huge unit, dead in the first cycle; nothing is allocated before the second.\<close>

definition demo_huge :: "addr list alloc_state" where
  "demo_huge = (case woomem_allocate_begin POSIX demo_sys 40000 demo_alloc of
     Some (a, s) \<Rightarrow> s\<lparr>al_heap := published 3 a 1 s\<rparr> | None \<Rightarrow> demo_alloc)"

definition demo_after_one :: "gc \<times> addr list alloc_state" where
  "demo_after_one = (case gc_cycle 1 (\<lambda>_. []) [] (unregister_root_unit_head 0x100020 demo_gc, demo_huge) of
     Some (g, s, _) \<Rightarrow> (g, s) | None \<Rightarrow> (demo_gc, demo_alloc))"

lemma demo_after_one_eval:
  "m_all_page_list (al_heap (snd demo_after_one)) = 0"
  "map m_sweep_page_list (m_gc_worker_threads (fst demo_after_one)) = [0x100000]"
  "page_is_cut (heap_mem (al_heap (snd demo_after_one))) 0x100000 = False"
  "m_life (unit_at (heap_mem (al_heap (snd demo_after_one))) (0x100000 + sizeof_PageHead)) = RELEASED"
  "validate 0x100000 (chunk_of (h_chunk (al_heap (snd demo_after_one)))) = Some 0"
  "m_gc_cycle_count (fst demo_after_one) = 1"
  by code_simp+

theorem stale_sweep_list_faults_witness:
  "m_gc_cycle_count (fst demo_after_one) = 1 \<and> gc_sweep_cycle (fst demo_after_one) (al_heap (snd demo_after_one)) = None"
proof -
  obtain w ws where "m_gc_worker_threads (fst demo_after_one) = w # ws" "m_sweep_page_list w = 0x100000"
    using demo_after_one_eval(2) by (cases "m_gc_worker_threads (fst demo_after_one)") auto
  from stale_sweep_list_faults [OF demo_after_one_eval(1) this] demo_after_one_eval(3-6) show ?thesis by simp
qed

end
