(* ===== verification/Woomem_Barrier.thy ===== *)
theory Woomem_Barrier
  imports Woomem_Prelude
begin

text \<open>
  The phases of a collection, \<^verbatim>\<open>src/woomem_gc.cpp\<close>: the main thread launches a phase and waits until all
  workers have finished it; the workers wait for the launch, run the phase and report. One mutex guards
  the state and one condition variable is shared by all waits. The critical sections are the steps; a
  thread that waits is checking its predicate or asleep on the condition variable. The destructor of the
  collector ends the main thread and then the workers.
\<close>

section \<open>State\<close>

datatype threshold_state = WPENDING | PARALLEL_MARK | FINAL_MARK | SWEEP

datatype wait_state = Checking | Asleep

text \<open>A worker waits for a phase, runs it, or has ended; the main thread is between two cycles, in
  \<open>launch_worker_and_wait_until_done\<close>, past it, or has ended.\<close>

datatype worker_pc = WaitFor threshold_state wait_state | Running threshold_state | Exited

datatype main_pc = Trigger | Launched threshold_state wait_state | Past threshold_state | Ended

text \<open>\<open>DSignal i\<close>: about to signal for worker \<open>i\<close>; \<open>DJoin i\<close>: joining its thread.\<close>

datatype destructor_pc = DNone | DJoinMain | DSignal nat | DJoin nat | DEnd

text \<open>\<open>launches\<close> and \<open>runs\<close> count the phases launched, and those each worker has finished.\<close>

record barrier =
  m_gc_worker_threshold_launch_state :: threshold_state
  m_gc_worker_threshold_finish_counter :: nat
  m_shutdown :: bool
  m_worker_shutdown :: bool
  main_pc :: main_pc
  worker_pc :: "nat \<Rightarrow> worker_pc"
  destructor_pc :: destructor_pc
  launches :: nat
  runs :: "nat \<Rightarrow> nat"

section \<open>Operations\<close>

fun wake :: "wait_state \<Rightarrow> wait_state" where
  "wake _ = Checking"

fun wake_worker :: "worker_pc \<Rightarrow> worker_pc" where
  "wake_worker (WaitFor ph w) = WaitFor ph (wake w)"
| "wake_worker pc = pc"

fun wake_main :: "main_pc \<Rightarrow> main_pc" where
  "wake_main (Launched ph w) = Launched ph (wake w)"
| "wake_main pc = pc"

definition notify_all :: "barrier \<Rightarrow> barrier" where
  "notify_all s = s\<lparr>main_pc := wake_main (main_pc s), worker_pc := wake_worker \<circ> worker_pc s\<rparr>"

text \<open>\<open>launch_worker_and_wait_until_done\<close> up to its wait, and one check of the wait.\<close>

definition launch_worker :: "threshold_state \<Rightarrow> barrier \<Rightarrow> barrier" where
  "launch_worker expected_state s =
     (notify_all (s\<lparr>m_gc_worker_threshold_finish_counter := 0, m_gc_worker_threshold_launch_state := expected_state\<rparr>))
       \<lparr>main_pc := Launched expected_state Checking, launches := launches s + 1\<rparr>"

definition wait_until_done :: "nat \<Rightarrow> threshold_state \<Rightarrow> barrier \<Rightarrow> barrier" where
  "wait_until_done n ph s =
     s\<lparr>main_pc := if m_gc_worker_threshold_finish_counter s = n then Past ph else Launched ph Asleep\<rparr>"

text \<open>One check of \<open>wait_for_worker_launch\<close> and of \<open>wait_for_worker_launch_or_shutdown\<close>.\<close>

definition wait_for_worker_launch :: "threshold_state \<Rightarrow> barrier \<Rightarrow> worker_pc" where
  "wait_for_worker_launch expected_state s =
     (if expected_state = m_gc_worker_threshold_launch_state s then Running expected_state else WaitFor expected_state Asleep)"

definition wait_for_worker_launch_or_shutdown :: "threshold_state \<Rightarrow> barrier \<Rightarrow> worker_pc" where
  "wait_for_worker_launch_or_shutdown expected_state s =
     (if expected_state = m_gc_worker_threshold_launch_state s \<or> m_worker_shutdown s
      then if m_worker_shutdown s then Exited else Running expected_state
      else WaitFor expected_state Asleep)"

text \<open>The loop of \<open>worker_thread_job\<close>: the wait at each point and the point after a phase.\<close>

definition worker_wait :: "threshold_state \<Rightarrow> barrier \<Rightarrow> worker_pc" where
  "worker_wait ph = (if ph = PARALLEL_MARK then wait_for_worker_launch_or_shutdown ph else wait_for_worker_launch ph)"

fun after_phase :: "threshold_state \<Rightarrow> threshold_state" where
  "after_phase PARALLEL_MARK = FINAL_MARK"
| "after_phase FINAL_MARK = SWEEP"
| "after_phase SWEEP = PARALLEL_MARK"
| "after_phase WPENDING = WPENDING"

definition worker_done_and_notify_main_gc_thread :: "nat \<Rightarrow> barrier \<Rightarrow> barrier" where
  "worker_done_and_notify_main_gc_thread n s =
     (let s = s\<lparr>m_gc_worker_threshold_finish_counter := m_gc_worker_threshold_finish_counter s + 1\<rparr>
      in if m_gc_worker_threshold_finish_counter s = n then notify_all s else s)"

definition worker_finish :: "nat \<Rightarrow> nat \<Rightarrow> threshold_state \<Rightarrow> barrier \<Rightarrow> barrier" where
  "worker_finish n i ph s =
     (let s = worker_done_and_notify_main_gc_thread n s
      in s\<lparr>worker_pc := (worker_pc s)(i := WaitFor (after_phase ph) Checking), runs := (runs s)(i := runs s i + 1)\<rparr>)"

text \<open>\<open>main_thread_job\<close> past a phase: the next launch, or the end of the cycle.\<close>

fun main_next :: "threshold_state \<Rightarrow> barrier \<Rightarrow> barrier" where
  "main_next SWEEP s = s\<lparr>m_gc_worker_threshold_launch_state := WPENDING, main_pc := Trigger\<rparr>"
| "main_next ph s = launch_worker (after_phase ph) s"

text \<open>The threads: \<open>n\<close> workers, the main thread and the thread that destroys the collector.\<close>

inductive barrier_step :: "nat \<Rightarrow> barrier \<Rightarrow> barrier \<Rightarrow> bool" for n :: nat where
  main_begin: "main_pc s = Trigger \<Longrightarrow> \<not> m_shutdown s \<Longrightarrow> barrier_step n s (launch_worker PARALLEL_MARK s)"
| main_end: "main_pc s = Trigger \<Longrightarrow> m_shutdown s \<Longrightarrow> barrier_step n s (s\<lparr>main_pc := Ended\<rparr>)"
| main_check: "main_pc s = Launched ph Checking \<Longrightarrow> barrier_step n s (wait_until_done n ph s)"
| main_past: "main_pc s = Past ph \<Longrightarrow> barrier_step n s (main_next ph s)"
| worker_check: "i < n \<Longrightarrow> worker_pc s i = WaitFor ph Checking \<Longrightarrow>
     barrier_step n s (s\<lparr>worker_pc := (worker_pc s)(i := worker_wait ph s)\<rparr>)"
| worker_done: "i < n \<Longrightarrow> worker_pc s i = Running ph \<Longrightarrow> barrier_step n s (worker_finish n i ph s)"
| destroy: "destructor_pc s = DNone \<Longrightarrow> barrier_step n s (s\<lparr>m_shutdown := True, destructor_pc := DJoinMain\<rparr>)"
| main_joined: "destructor_pc s = DJoinMain \<Longrightarrow> main_pc s = Ended \<Longrightarrow>
     barrier_step n s (s\<lparr>m_worker_shutdown := True, destructor_pc := DSignal 0\<rparr>)"
| signal: "destructor_pc s = DSignal i \<Longrightarrow> i < n \<Longrightarrow> barrier_step n s ((notify_all s)\<lparr>destructor_pc := DJoin i\<rparr>)"
| worker_joined: "destructor_pc s = DJoin i \<Longrightarrow> worker_pc s i = Exited \<Longrightarrow> barrier_step n s (s\<lparr>destructor_pc := DSignal (Suc i)\<rparr>)"
| destroyed: "destructor_pc s = DSignal n \<Longrightarrow> barrier_step n s (s\<lparr>destructor_pc := DEnd\<rparr>)"

text \<open>A wait may also wake up by itself.\<close>

inductive barrier_step_spurious :: "nat \<Rightarrow> barrier \<Rightarrow> barrier \<Rightarrow> bool" for n :: nat where
  orderly: "barrier_step n s t \<Longrightarrow> barrier_step_spurious n s t"
| main_wakes: "main_pc s = Launched ph Asleep \<Longrightarrow> barrier_step_spurious n s (s\<lparr>main_pc := Launched ph Checking\<rparr>)"
| worker_wakes: "worker_pc s i = WaitFor ph Asleep \<Longrightarrow>
     barrier_step_spurious n s (s\<lparr>worker_pc := (worker_pc s)(i := WaitFor ph Checking)\<rparr>)"

definition barrier_init :: "barrier \<Rightarrow> bool" where
  "barrier_init s \<longleftrightarrow> m_gc_worker_threshold_launch_state s = WPENDING \<and> m_gc_worker_threshold_finish_counter s = 0 \<and>
     \<not> m_shutdown s \<and> \<not> m_worker_shutdown s \<and> main_pc s = Trigger \<and> worker_pc s = (\<lambda>_. WaitFor PARALLEL_MARK Checking) \<and>
     destructor_pc s = DNone \<and> launches s = 0 \<and> runs s = (\<lambda>_. 0)"

text \<open>The state the constructor leaves, and a schedule of one worker in turn with the main thread.\<close>

definition barrier_start :: barrier where
  "barrier_start = \<lparr>m_gc_worker_threshold_launch_state = WPENDING, m_gc_worker_threshold_finish_counter = 0, m_shutdown = False,
     m_worker_shutdown = False, main_pc = Trigger, worker_pc = (\<lambda>_. WaitFor PARALLEL_MARK Checking), destructor_pc = DNone,
     launches = 0, runs = (\<lambda>_. 0)\<rparr>"

definition in_turn_next :: "nat \<Rightarrow> barrier \<Rightarrow> barrier" where
  "in_turn_next k s = (case (k mod 4, worker_pc s 0, main_pc s) of
     (0, WaitFor ph _, _) \<Rightarrow> s\<lparr>worker_pc := (worker_pc s)(0 := worker_wait ph s)\<rparr>
   | (Suc 0, Running ph, _) \<Rightarrow> worker_finish 1 0 ph s
   | (Suc (Suc 0), _, Launched ph _) \<Rightarrow> wait_until_done 1 ph s
   | (_, _, Past ph) \<Rightarrow> main_next ph s
   | _ \<Rightarrow> s)"

fun in_turn :: "nat \<Rightarrow> barrier" where
  "in_turn 0 = launch_worker PARALLEL_MARK barrier_start"
| "in_turn (Suc k) = in_turn_next k (in_turn k)"

section \<open>Invariant\<close>

definition waits :: "worker_pc \<Rightarrow> threshold_state \<Rightarrow> bool" where
  "waits pc ph \<longleftrightarrow> (\<exists>w. pc = WaitFor ph w)"

text \<open>Where the workers are, by the place of the main thread.\<close>

definition idle_worker :: "barrier \<Rightarrow> nat \<Rightarrow> bool" where
  "idle_worker s i \<longleftrightarrow> (waits (worker_pc s i) PARALLEL_MARK \<or> worker_pc s i = Exited \<and> m_worker_shutdown s) \<and> runs s i = launches s"

definition phase_worker :: "threshold_state \<Rightarrow> barrier \<Rightarrow> nat \<Rightarrow> bool" where
  "phase_worker ph s i \<longleftrightarrow> (if runs s i = launches s then waits (worker_pc s i) (after_phase ph)
     else Suc (runs s i) = launches s \<and> (waits (worker_pc s i) ph \<or> worker_pc s i = Running ph))"

definition finished :: "nat \<Rightarrow> barrier \<Rightarrow> nat set" where
  "finished n s = {i. i < n \<and> runs s i = launches s}"

definition phase_inv :: "nat \<Rightarrow> barrier \<Rightarrow> bool" where
  "phase_inv n s \<longleftrightarrow> (case main_pc s of
     Launched ph w \<Rightarrow> ph \<noteq> WPENDING \<and> m_gc_worker_threshold_launch_state s = ph \<and> (\<forall>i < n. phase_worker ph s i) \<and>
       m_gc_worker_threshold_finish_counter s = card (finished n s)
   | Past ph \<Rightarrow> ph \<noteq> WPENDING \<and> m_gc_worker_threshold_launch_state s = ph \<and>
       (\<forall>i < n. waits (worker_pc s i) (after_phase ph) \<and> runs s i = launches s)
   | _ \<Rightarrow> m_gc_worker_threshold_launch_state s = WPENDING \<and> (\<forall>i < n. idle_worker s i))"

text \<open>No thread sleeps through what it waits for.\<close>

fun signalled :: "destructor_pc \<Rightarrow> bool" where
  "signalled (DSignal i) = (0 < i)"
| "signalled (DJoin i) = True"
| "signalled DEnd = True"
| "signalled _ = False"

definition awake_inv :: "nat \<Rightarrow> barrier \<Rightarrow> bool" where
  "awake_inv n s \<longleftrightarrow> (\<forall>i < n. \<forall>ph. worker_pc s i = WaitFor ph Asleep \<longrightarrow>
       m_gc_worker_threshold_launch_state s \<noteq> ph \<and> (ph = PARALLEL_MARK \<longrightarrow> \<not> signalled (destructor_pc s))) \<and>
     (\<forall>ph. main_pc s = Launched ph Asleep \<longrightarrow> m_gc_worker_threshold_finish_counter s \<noteq> n)"

definition destructor_inv :: "nat \<Rightarrow> barrier \<Rightarrow> bool" where
  "destructor_inv n s \<longleftrightarrow> (m_shutdown s \<longleftrightarrow> destructor_pc s \<noteq> DNone) \<and> (main_pc s = Ended \<longrightarrow> m_shutdown s) \<and>
     (m_worker_shutdown s \<longleftrightarrow> destructor_pc s \<noteq> DNone \<and> destructor_pc s \<noteq> DJoinMain) \<and> (m_worker_shutdown s \<longrightarrow> main_pc s = Ended) \<and>
     (case destructor_pc s of DSignal i \<Rightarrow> i \<le> n \<and> (\<forall>j < i. worker_pc s j = Exited)
      | DJoin i \<Rightarrow> i < n \<and> (\<forall>j < i. worker_pc s j = Exited) | DEnd \<Rightarrow> \<forall>j < n. worker_pc s j = Exited | _ \<Rightarrow> True)"

definition barrier_inv :: "nat \<Rightarrow> barrier \<Rightarrow> bool" where
  "barrier_inv n s \<longleftrightarrow> phase_inv n s \<and> awake_inv n s \<and> destructor_inv n s"

lemma wake_simps [simp]:
  "waits (wake_worker pc) ph = waits pc ph" "wake_worker pc = Running ph \<longleftrightarrow> pc = Running ph" "wake_worker pc = Exited \<longleftrightarrow> pc = Exited"
  "wake_worker pc \<noteq> WaitFor ph Asleep" "wake_main mpc \<noteq> Launched ph Asleep"
  "waits (WaitFor ph w) ph' \<longleftrightarrow> ph = ph'" "\<not> waits (Running ph) ph'" "\<not> waits Exited ph'"
  by (cases pc; cases mpc; auto simp: waits_def)+

lemma after_phase_simps [simp]:
  "ph \<noteq> WPENDING \<Longrightarrow> after_phase ph \<noteq> ph" "ph \<noteq> WPENDING \<Longrightarrow> ph \<noteq> after_phase ph" "after_phase ph = WPENDING \<longleftrightarrow> ph = WPENDING"
  by (cases ph; simp)+

lemma waits_unique: "waits pc ph \<Longrightarrow> waits pc ph' \<Longrightarrow> ph = ph'"
  by (auto simp: waits_def)

lemma barrier_init_inv: "barrier_init s \<Longrightarrow> barrier_inv n s"
  by (simp add: barrier_init_def barrier_inv_def phase_inv_def awake_inv_def destructor_inv_def idle_worker_def)

lemma wake_main_cases: "main_pc (notify_all s) = wake_main (main_pc s)" "worker_pc (notify_all s) i = wake_worker (worker_pc s i)"
  by (simp_all add: notify_all_def)

lemma notify_all_simps [simp]:
  "m_gc_worker_threshold_launch_state (notify_all s) = m_gc_worker_threshold_launch_state s"
  "m_gc_worker_threshold_finish_counter (notify_all s) = m_gc_worker_threshold_finish_counter s"
  "m_shutdown (notify_all s) = m_shutdown s" "m_worker_shutdown (notify_all s) = m_worker_shutdown s"
  "destructor_pc (notify_all s) = destructor_pc s" "launches (notify_all s) = launches s" "runs (notify_all s) = runs s"
  by (simp_all add: notify_all_def)

lemma launch_inv:
  assumes inv: "barrier_inv n s" and m: "main_pc s \<noteq> Ended" "\<And>ph w. main_pc s \<noteq> Launched ph w"
    and ph: "ph \<noteq> WPENDING" "\<forall>i < n. waits (worker_pc s i) ph \<and> runs s i = launches s"
  shows "barrier_inv n (launch_worker ph s)"
proof -
  have ws: "\<not> m_worker_shutdown s" using inv m(1) by (auto simp: barrier_inv_def destructor_inv_def)
  have none: "finished n (launch_worker ph s) = {}" using ph(2) by (auto simp: finished_def launch_worker_def)
  have "phase_inv n (launch_worker ph s)"
    using ph none by (auto simp: phase_inv_def phase_worker_def launch_worker_def wake_main_cases)
  moreover have "awake_inv n (launch_worker ph s)" by (auto simp: awake_inv_def launch_worker_def wake_main_cases)
  moreover have "destructor_inv n (launch_worker ph s)"
    using inv ws by (auto simp: barrier_inv_def destructor_inv_def launch_worker_def wake_main_cases split: destructor_pc.splits)
  ultimately show ?thesis by (simp add: barrier_inv_def)
qed

lemma phase_workers:
  assumes "barrier_inv n s" "main_pc s = Launched ph w" "i < n" "worker_pc s i = Running ph'"
  shows "ph' = ph" "i \<notin> finished n s" "Suc (runs s i) = launches s"
  using assms by (auto simp: barrier_inv_def phase_inv_def phase_worker_def finished_def split: if_splits)

lemma running_launched:
  assumes "barrier_inv n s" "i < n" "worker_pc s i = Running ph"
  shows "\<exists>w. main_pc s = Launched ph w"
  using assms by (auto simp: barrier_inv_def phase_inv_def phase_worker_def idle_worker_def split: main_pc.splits if_splits)

lemma past_inv:
  assumes inv: "barrier_inv n s" and m: "main_pc s = Past ph"
  shows "barrier_inv n (main_next ph s)"
proof -
  have P: "ph \<noteq> WPENDING" "\<forall>i < n. waits (worker_pc s i) (after_phase ph) \<and> runs s i = launches s"
    using inv m by (simp_all add: barrier_inv_def phase_inv_def)
  show ?thesis
  proof (cases "ph = SWEEP")
    case True
    then show ?thesis
      using inv m P(2) by (auto simp: barrier_inv_def phase_inv_def awake_inv_def destructor_inv_def idle_worker_def waits_def
        split: destructor_pc.splits)
  next
    case False
    then have "main_next ph s = launch_worker (after_phase ph) s" using P(1) by (cases ph) simp_all
    then show ?thesis using launch_inv [OF inv, of "after_phase ph"] P m by simp
  qed
qed

lemma done_inv:
  assumes inv: "barrier_inv n s" and m: "main_pc s = Launched ph Checking"
  shows "barrier_inv n (wait_until_done n ph s)"
proof (cases "m_gc_worker_threshold_finish_counter s = n")
  case True
  then have "card (finished n s) = card {..<n}" using inv m by (simp add: barrier_inv_def phase_inv_def)
  then have "finished n s = {..<n}" by (intro card_subset_eq) (auto simp: finished_def)
  then have "runs s i = launches s" if "i < n" for i using that by (auto simp: finished_def)
  then show ?thesis
    using True inv m by (auto simp: wait_until_done_def barrier_inv_def phase_inv_def phase_worker_def awake_inv_def destructor_inv_def
      split: destructor_pc.splits)
next
  case False
  then show ?thesis
    using inv m by (auto simp: wait_until_done_def barrier_inv_def phase_inv_def phase_worker_def awake_inv_def destructor_inv_def finished_def
      split: destructor_pc.splits)
qed

lemma finish_inv:
  assumes inv: "barrier_inv n s" and i: "i < n" "worker_pc s i = Running ph"
  shows "barrier_inv n (worker_finish n i ph s)"
proof -
  obtain w where m: "main_pc s = Launched ph w" using running_launched [OF inv i] by blast
  note P = phase_workers [OF inv m i]
  let ?s = "worker_finish n i ph s"
  have fin: "finished n ?s = insert i (finished n s)"
    using P(3) i(1) by (auto simp: finished_def worker_finish_def worker_done_and_notify_main_gc_thread_def Let_def)
  have "finite (finished n s)" by (simp add: finished_def)
  then have c: "card (finished n ?s) = Suc (card (finished n s))" unfolding fin using P(2) by simp
  have I: "phase_inv n s" "awake_inv n s" "destructor_inv n s" using inv by (auto simp: barrier_inv_def)
  have ns: "\<not> m_worker_shutdown s" "\<not> signalled (destructor_pc s)"
    using I(3) m by (auto simp: destructor_inv_def split: destructor_pc.splits)
  have "phase_inv n ?s"
    using I(1) m c P(3) by (auto simp: phase_inv_def phase_worker_def worker_finish_def worker_done_and_notify_main_gc_thread_def Let_def wake_main_cases)
  moreover have "awake_inv n ?s"
    using I(2) m by (auto simp: awake_inv_def worker_finish_def worker_done_and_notify_main_gc_thread_def Let_def wake_main_cases)
  moreover have "destructor_inv n ?s"
    using I(3) m ns by (auto simp: destructor_inv_def worker_finish_def worker_done_and_notify_main_gc_thread_def Let_def wake_main_cases
      split: destructor_pc.splits)
  ultimately show ?thesis by (simp add: barrier_inv_def)
qed

text \<open>A worker that goes to sleep or wakes up is where it was.\<close>

lemma same_wait_inv:
  fixes b :: wait_state
  assumes w: "worker_pc s i = WaitFor ph a"
  defines "s' \<equiv> s\<lparr>worker_pc := (worker_pc s)(i := WaitFor ph b)\<rparr>"
  shows "phase_inv n s' = phase_inv n s" "destructor_inv n s' = destructor_inv n s"
proof -
  have e: "waits (worker_pc s' k) q = waits (worker_pc s k) q" "worker_pc s' k = Running q \<longleftrightarrow> worker_pc s k = Running q"
    "worker_pc s' k = Exited \<longleftrightarrow> worker_pc s k = Exited" for k q using w by (auto simp: s'_def)
  have o: "main_pc s' = main_pc s" "m_gc_worker_threshold_launch_state s' = m_gc_worker_threshold_launch_state s"
    "m_gc_worker_threshold_finish_counter s' = m_gc_worker_threshold_finish_counter s" "runs s' = runs s" "launches s' = launches s"
    "m_worker_shutdown s' = m_worker_shutdown s" "m_shutdown s' = m_shutdown s" "destructor_pc s' = destructor_pc s"
    by (simp_all add: s'_def)
  show "phase_inv n s' = phase_inv n s" unfolding phase_inv_def idle_worker_def phase_worker_def finished_def e o ..
  show "destructor_inv n s' = destructor_inv n s" unfolding destructor_inv_def e o ..
qed

lemma check_inv:
  assumes inv: "barrier_inv n s" and i: "i < n" "worker_pc s i = WaitFor ph Checking"
  shows "barrier_inv n (s\<lparr>worker_pc := (worker_pc s)(i := worker_wait ph s)\<rparr>)"
proof -
  let ?s = "s\<lparr>worker_pc := (worker_pc s)(i := worker_wait ph s)\<rparr>"
  have I: "phase_inv n s" "awake_inv n s" "destructor_inv n s" using inv by (auto simp: barrier_inv_def)
  have ww: "worker_wait ph s = WaitFor ph Asleep \<and> m_gc_worker_threshold_launch_state s \<noteq> ph \<and> (ph = PARALLEL_MARK \<longrightarrow> \<not> m_worker_shutdown s) \<or>
      worker_wait ph s = Running ph \<and> m_gc_worker_threshold_launch_state s = ph \<or>
      worker_wait ph s = Exited \<and> m_worker_shutdown s \<and> ph = PARALLEL_MARK"
    by (auto simp: worker_wait_def wait_for_worker_launch_def wait_for_worker_launch_or_shutdown_def)
  have ex: "worker_wait ph s = Exited \<Longrightarrow> main_pc s = Ended" using ww I(3) by (auto simp: destructor_inv_def)
  have past: "main_pc s = Past ph' \<Longrightarrow> after_phase ph' = ph" for ph' using I(1) i by (fastforce simp: phase_inv_def waits_def)
  have run: "worker_wait ph s = Running ph \<Longrightarrow> \<exists>w. main_pc s = Launched ph w"
    using ww I(1) i past by (auto simp: phase_inv_def idle_worker_def phase_worker_def split: main_pc.splits if_splits)
  have "phase_inv n ?s \<and> destructor_inv n ?s"
    using ww
  proof (elim disjE conjE)
    assume "worker_wait ph s = WaitFor ph Asleep"
    then show ?thesis using same_wait_inv [OF i(2), of n Asleep] I by simp
  next
    assume r: "worker_wait ph s = Running ph"
    then obtain w where m: "main_pc s = Launched ph w" using run by blast
    then have "phase_worker ph s i" "ph \<noteq> WPENDING" using I(1) i(1) by (simp_all add: phase_inv_def)
    then have "runs s i \<noteq> launches s" "Suc (runs s i) = launches s" using i(2) by (auto simp: phase_worker_def split: if_splits)
    then have "phase_inv n ?s" using I(1) m r by (auto simp: phase_inv_def phase_worker_def finished_def)
    moreover have "destructor_inv n ?s" using I(3) m by (auto simp: destructor_inv_def split: destructor_pc.splits)
    ultimately show ?thesis by simp
  next
    assume x: "worker_wait ph s = Exited" "m_worker_shutdown s"
    then have "main_pc s = Ended" using ex by blast
    then show ?thesis using I(1,3) x i by (auto simp: phase_inv_def idle_worker_def destructor_inv_def split: destructor_pc.splits)
  qed
  moreover have "awake_inv n ?s" using I(2,3) ww by (auto simp: awake_inv_def destructor_inv_def split: destructor_pc.splits)
  ultimately show ?thesis by (simp add: barrier_inv_def)
qed

lemma phase_inv_destructor [simp]:
  "phase_inv n (s\<lparr>destructor_pc := d\<rparr>) = phase_inv n s" "phase_inv n (s\<lparr>m_shutdown := b\<rparr>) = phase_inv n s"
  by (simp_all add: phase_inv_def idle_worker_def phase_worker_def finished_def cong: main_pc.case_cong)

lemma phase_inv_ended:
  assumes "main_pc s = Ended"
  shows "phase_inv n s \<Longrightarrow> phase_inv n (s\<lparr>m_worker_shutdown := True\<rparr>)" "phase_inv n (notify_all s) = phase_inv n s"
  using assms by (auto simp: phase_inv_def idle_worker_def wake_main_cases)

lemma destructor_steps_inv:
  assumes inv: "barrier_inv n s"
  shows "destructor_pc s = DNone \<Longrightarrow> barrier_inv n (s\<lparr>m_shutdown := True, destructor_pc := DJoinMain\<rparr>)"
    "destructor_pc s = DJoinMain \<Longrightarrow> main_pc s = Ended \<Longrightarrow> barrier_inv n (s\<lparr>m_worker_shutdown := True, destructor_pc := DSignal 0\<rparr>)"
    "destructor_pc s = DSignal i \<Longrightarrow> i < n \<Longrightarrow> barrier_inv n ((notify_all s)\<lparr>destructor_pc := DJoin i\<rparr>)"
    "destructor_pc s = DJoin i \<Longrightarrow> worker_pc s i = Exited \<Longrightarrow> barrier_inv n (s\<lparr>destructor_pc := DSignal (Suc i)\<rparr>)"
    "destructor_pc s = DSignal n \<Longrightarrow> barrier_inv n (s\<lparr>destructor_pc := DEnd\<rparr>)"
    "main_pc s = Trigger \<Longrightarrow> m_shutdown s \<Longrightarrow> barrier_inv n (s\<lparr>main_pc := Ended\<rparr>)"
proof -
  have I: "phase_inv n s" "awake_inv n s" "destructor_inv n s" using inv by (auto simp: barrier_inv_def)
  have ended: "main_pc s = Ended" if "m_worker_shutdown s" using I(3) that by (simp add: destructor_inv_def)
  show "destructor_pc s = DNone \<Longrightarrow> barrier_inv n (s\<lparr>m_shutdown := True, destructor_pc := DJoinMain\<rparr>)"
    using I by (simp add: barrier_inv_def awake_inv_def destructor_inv_def)
  show "destructor_pc s = DJoinMain \<Longrightarrow> main_pc s = Ended \<Longrightarrow> barrier_inv n (s\<lparr>m_worker_shutdown := True, destructor_pc := DSignal 0\<rparr>)"
    using I phase_inv_ended(1) [of s n] by (simp add: barrier_inv_def awake_inv_def destructor_inv_def)
  show "barrier_inv n ((notify_all s)\<lparr>destructor_pc := DJoin i\<rparr>)" if "destructor_pc s = DSignal i" "i < n"
  proof -
    have "main_pc s = Ended" using I(3) that(1) ended by (simp add: destructor_inv_def)
    then have "phase_inv n ((notify_all s)\<lparr>destructor_pc := DJoin i\<rparr>)" using I(1) phase_inv_ended(2) by simp
    moreover have "awake_inv n ((notify_all s)\<lparr>destructor_pc := DJoin i\<rparr>)" by (simp add: awake_inv_def wake_main_cases)
    moreover have "destructor_inv n ((notify_all s)\<lparr>destructor_pc := DJoin i\<rparr>)"
      using I(3) that \<open>main_pc s = Ended\<close> by (simp add: destructor_inv_def wake_main_cases)
    ultimately show ?thesis unfolding barrier_inv_def by blast
  qed
  show "destructor_pc s = DJoin i \<Longrightarrow> worker_pc s i = Exited \<Longrightarrow> barrier_inv n (s\<lparr>destructor_pc := DSignal (Suc i)\<rparr>)"
    using I by (auto simp: barrier_inv_def awake_inv_def destructor_inv_def less_Suc_eq)
  show "destructor_pc s = DSignal n \<Longrightarrow> barrier_inv n (s\<lparr>destructor_pc := DEnd\<rparr>)"
    using I by (cases "n = 0") (simp_all add: barrier_inv_def awake_inv_def destructor_inv_def)
  show "barrier_inv n (s\<lparr>main_pc := Ended\<rparr>)" if "main_pc s = Trigger" "m_shutdown s"
  proof -
    have "phase_inv n (s\<lparr>main_pc := Ended\<rparr>)" using I(1) that(1) by (simp add: phase_inv_def idle_worker_def)
    moreover have "destructor_pc s = DJoinMain" using I(3) that by (simp add: destructor_inv_def) blast
    ultimately show ?thesis using I(2,3) that by (simp add: barrier_inv_def awake_inv_def destructor_inv_def)
  qed
qed

lemma begin_inv:
  assumes "barrier_inv n s" "main_pc s = Trigger" "\<not> m_shutdown s"
  shows "barrier_inv n (launch_worker PARALLEL_MARK s)"
  using assms by (intro launch_inv) (auto simp: barrier_inv_def phase_inv_def idle_worker_def destructor_inv_def)

lemma spurious_inv:
  assumes inv: "barrier_inv n s"
  shows "main_pc s = Launched ph Asleep \<Longrightarrow> barrier_inv n (s\<lparr>main_pc := Launched ph Checking\<rparr>)"
    "worker_pc s i = WaitFor ph Asleep \<Longrightarrow> barrier_inv n (s\<lparr>worker_pc := (worker_pc s)(i := WaitFor ph Checking)\<rparr>)"
proof -
  have I: "phase_inv n s" "awake_inv n s" "destructor_inv n s" using inv by (auto simp: barrier_inv_def)
  show "main_pc s = Launched ph Asleep \<Longrightarrow> barrier_inv n (s\<lparr>main_pc := Launched ph Checking\<rparr>)"
    using I by (auto simp: barrier_inv_def phase_inv_def awake_inv_def destructor_inv_def phase_worker_def finished_def split: destructor_pc.splits)
  show "barrier_inv n (s\<lparr>worker_pc := (worker_pc s)(i := WaitFor ph Checking)\<rparr>)" if w: "worker_pc s i = WaitFor ph Asleep"
    using same_wait_inv [OF w, of n Checking] I by (auto simp: barrier_inv_def awake_inv_def)
qed

lemma barrier_step_inv: "barrier_inv n s \<Longrightarrow> barrier_step_spurious n s t \<Longrightarrow> barrier_inv n t"
proof (erule barrier_step_spurious.cases, goal_cases)
  case (1 s' t')
  from 1(4,1) show ?case unfolding 1(2,3)
    by cases (auto intro: begin_inv done_inv past_inv check_inv finish_inv destructor_steps_inv)
qed (auto intro: spurious_inv)

interpretation barrier: inductive_invariant barrier_init "barrier_step_spurious n" "barrier_inv n" for n
  by unfold_locales (auto intro: barrier_init_inv barrier_step_inv)

section \<open>Every phase ends\<close>

text \<open>What is left to do of a phase \<open>ph\<close>: a step of any thread makes it less.\<close>

fun worker_left :: "nat \<Rightarrow> threshold_state \<Rightarrow> worker_pc \<Rightarrow> nat" where
  "worker_left n ph (WaitFor q w) = (if q = ph then 2 * (n + 3) else if w = Checking then 1 else 0)"
| "worker_left n ph (Running q) = n + 3"
| "worker_left n ph Exited = 0"

fun main_left :: "main_pc \<Rightarrow> nat" where
  "main_left (Launched ph Checking) = 1"
| "main_left _ = 0"

definition phase_left :: "nat \<Rightarrow> threshold_state \<Rightarrow> barrier \<Rightarrow> nat" where
  "phase_left n ph s = (\<Sum>i < n. worker_left n ph (worker_pc s i)) + main_left (main_pc s) + (if destructor_pc s = DNone then 1 else 0)"

lemma sum_update:
  fixes f f' :: "nat \<Rightarrow> nat"
  assumes "i < n" "\<And>j. j \<noteq> i \<Longrightarrow> f' j \<le> f j + d"
  shows "(\<Sum>j < n. f' j) + f i \<le> (\<Sum>j < n. f j) + f' i + (n - 1) * d"
proof -
  have "(\<Sum>j \<in> {..<n} - {i}. f' j) \<le> (\<Sum>j \<in> {..<n} - {i}. f j + d)" using assms(2) by (intro sum_mono) auto
  also have "\<dots> = (\<Sum>j \<in> {..<n} - {i}. f j) + (n - 1) * d" using assms(1) by (simp add: sum.distrib)
  finally show ?thesis using sum.remove [of "{..<n}" i f] sum.remove [of "{..<n}" i f'] assms(1) by simp
qed

lemma phase_facts:
  assumes inv: "barrier_inv n s" and m: "main_pc s = Launched ph w"
  shows "m_gc_worker_threshold_launch_state s = ph" "ph \<noteq> WPENDING" "\<not> m_worker_shutdown s"
    "destructor_pc s = DNone \<or> destructor_pc s = DJoinMain"
    "i < n \<Longrightarrow> phase_worker ph s i" "m_gc_worker_threshold_finish_counter s = card (finished n s)"
  using inv m by (auto simp: barrier_inv_def phase_inv_def destructor_inv_def)

lemma worker_check_less:
  assumes inv: "barrier_inv n s" and m: "main_pc s = Launched ph w" and i: "i < n" "worker_pc s i = WaitFor q Checking"
  shows "phase_left n ph (s\<lparr>worker_pc := (worker_pc s)(i := worker_wait q s)\<rparr>) < phase_left n ph s"
proof -
  note F = phase_facts [OF inv m]
  have "worker_wait q s = (if q = ph then Running ph else WaitFor q Asleep)"
    using F(1,3) by (auto simp: worker_wait_def wait_for_worker_launch_def wait_for_worker_launch_or_shutdown_def)
  then have "worker_left n ph (worker_wait q s) < worker_left n ph (worker_pc s i)" using i(2) by simp
  with sum_update [OF i(1), of "\<lambda>j. worker_left n ph (((worker_pc s)(i := worker_wait q s)) j)" "\<lambda>j. worker_left n ph (worker_pc s j)" 0]
  show ?thesis by (simp add: phase_left_def)
qed

lemma worker_done_less:
  assumes inv: "barrier_inv n s" and m: "main_pc s = Launched ph w" and i: "i < n" "worker_pc s i = Running q"
  shows "phase_left n ph (worker_finish n i q s) < phase_left n ph s" "\<exists>w. main_pc (worker_finish n i q s) = Launched ph w"
proof -
  note F = phase_facts [OF inv m]
  have q: "q = ph" using phase_workers(1) [OF inv m i] .
  let ?s = "worker_finish n i q s"
  have main: "main_pc ?s = main_pc s \<or> main_pc ?s = wake_main (main_pc s)"
    and pc: "worker_pc ?s = (worker_pc s)(i := WaitFor (after_phase q) Checking) \<or>
      worker_pc ?s = (wake_worker \<circ> worker_pc s)(i := WaitFor (after_phase q) Checking)"
    and d: "destructor_pc ?s = destructor_pc s"
    by (auto simp: worker_finish_def worker_done_and_notify_main_gc_thread_def Let_def notify_all_def)
  from main m show "\<exists>w. main_pc ?s = Launched ph w" by auto
  have "main_left (main_pc ?s) \<le> main_left (main_pc s) + 1" using main m by (cases w) auto
  moreover have "worker_left n ph (wake_worker p) \<le> worker_left n ph p + 1" for p by (cases p) auto
  then have "worker_left n ph (worker_pc ?s j) \<le> worker_left n ph (worker_pc s j) + 1" if "j \<noteq> i" for j using pc that by auto
  from sum_update [OF i(1), of "\<lambda>j. worker_left n ph (worker_pc ?s j)" "\<lambda>j. worker_left n ph (worker_pc s j)" 1, OF this]
  have "(\<Sum>j < n. worker_left n ph (worker_pc ?s j)) + worker_left n ph (worker_pc s i) \<le>
      (\<Sum>j < n. worker_left n ph (worker_pc s j)) + worker_left n ph (worker_pc ?s i) + (n - 1)" by simp
  moreover have "worker_left n ph (worker_pc s i) = n + 3" "worker_left n ph (worker_pc ?s i) = 1" using pc i(2) q F(2) by auto
  ultimately show "phase_left n ph ?s < phase_left n ph s" using d i(1) unfolding phase_left_def by simp
qed

lemma phase_step:
  assumes inv: "barrier_inv n s" and m: "main_pc s = Launched ph w" and st: "barrier_step n s t"
  shows "main_pc t = Past ph \<or> (\<exists>w. main_pc t = Launched ph w) \<and> phase_left n ph t < phase_left n ph s"
  using st
proof cases
  case (main_check q)
  then show ?thesis using m by (auto simp: wait_until_done_def phase_left_def)
next
  case (worker_check i q)
  with worker_check_less [OF inv m worker_check(2,3)] m show ?thesis by simp
next
  case (worker_done i q)
  with worker_done_less [OF inv m worker_done(2,3)] show ?thesis by simp
qed (use m phase_facts(4) [OF inv m] in \<open>auto simp: phase_left_def\<close>)

lemma phase_enabled:
  assumes inv: "barrier_inv n s" and m: "main_pc s = Launched ph w"
  shows "\<exists>t. barrier_step n s t \<and> destructor_pc t = destructor_pc s"
proof (cases w)
  case Checking
  then show ?thesis using barrier_step.main_check [of s ph n] m by (auto simp: wait_until_done_def)
next
  case Asleep
  note F = phase_facts [OF inv m]
  have "card (finished n s) \<noteq> n" using inv m Asleep F(6) by (auto simp: barrier_inv_def awake_inv_def)
  then have "finished n s \<noteq> {..<n}" by (metis card_lessThan)
  then obtain i where i: "i < n" "runs s i \<noteq> launches s" by (auto simp: finished_def)
  then have "waits (worker_pc s i) ph \<or> worker_pc s i = Running ph" using F(5) [OF i(1)] by (simp add: phase_worker_def)
  then show ?thesis
  proof
    assume r: "worker_pc s i = Running ph"
    have "destructor_pc (worker_finish n i ph s) = destructor_pc s"
      by (simp add: worker_finish_def worker_done_and_notify_main_gc_thread_def Let_def)
    with barrier_step.worker_done [OF i(1) r] show ?thesis by blast
  next
    assume "waits (worker_pc s i) ph"
    moreover have "worker_pc s i \<noteq> WaitFor ph Asleep" using inv i(1) F(1) by (auto simp: barrier_inv_def awake_inv_def)
    ultimately have "worker_pc s i = WaitFor ph Checking" by (metis waits_def wait_state.exhaust)
    from barrier_step.worker_check [OF i(1) this] show ?thesis by (intro exI conjI) (assumption, simp)
  qed
qed

text \<open>After the main thread has ended, the destructor reaches its end.\<close>

lemma ended_enabled:
  assumes inv: "barrier_inv n s" and m: "main_pc s = Ended" "destructor_pc s \<noteq> DEnd"
  shows "\<exists>t. barrier_step n s t"
proof (cases "destructor_pc s")
  case (DSignal i)
  then have "i \<le> n" using inv by (auto simp: barrier_inv_def destructor_inv_def)
  then show ?thesis using DSignal barrier_step.signal [of s i n] barrier_step.destroyed [of s n] by (cases "i = n") auto
next
  case (DJoin i)
  have i: "i < n" "idle_worker s i" using inv m(1) DJoin by (auto simp: barrier_inv_def destructor_inv_def phase_inv_def)
  show ?thesis
  proof (cases "worker_pc s i = Exited")
    case True
    then show ?thesis using barrier_step.worker_joined [OF DJoin] by blast
  next
    case False
    then have "waits (worker_pc s i) PARALLEL_MARK" using i(2) by (simp add: idle_worker_def)
    moreover have "worker_pc s i \<noteq> WaitFor PARALLEL_MARK Asleep" using inv i(1) DJoin by (auto simp: barrier_inv_def awake_inv_def)
    ultimately have "worker_pc s i = WaitFor PARALLEL_MARK Checking" by (metis waits_def wait_state.exhaust)
    from barrier_step.worker_check [OF i(1) this] show ?thesis by blast
  qed
next
  case DNone
  then show ?thesis using barrier_step.destroy by blast
next
  case DJoinMain
  then show ?thesis using barrier_step.main_joined m(1) by blast
qed (use m(2) in simp)

lemma never_stuck:
  assumes inv: "barrier_inv n s" and d: "destructor_pc s \<noteq> DEnd"
  shows "\<exists>t. barrier_step n s t \<and> (destructor_pc s = DNone \<longrightarrow> destructor_pc t = DNone)"
proof (cases "main_pc s")
  case Trigger
  have "destructor_pc (launch_worker PARALLEL_MARK s) = destructor_pc s" by (simp add: launch_worker_def)
  moreover have "destructor_pc (s\<lparr>main_pc := Ended\<rparr>) = destructor_pc s" by simp
  ultimately show ?thesis using barrier_step.main_begin [OF Trigger] barrier_step.main_end [OF Trigger] by metis
next
  case (Launched ph w)
  then show ?thesis using phase_enabled [OF inv] by metis
next
  case (Past ph)
  have "destructor_pc (main_next ph s) = destructor_pc s" by (cases ph) (simp_all add: launch_worker_def)
  with barrier_step.main_past [OF Past] show ?thesis by metis
next
  case Ended
  have "destructor_pc s \<noteq> DNone" using inv Ended by (auto simp: barrier_inv_def destructor_inv_def)
  with ended_enabled [OF inv Ended d] show ?thesis by blast
qed

lemma phase_run:
  assumes "barrier_inv n (f 0)" "main_pc (f 0) = Launched ph w"
    and "\<And>k. k < K \<Longrightarrow> barrier_step n (f k) (f (Suc k))" "phase_left n ph (f 0) < K"
  shows "\<exists>k \<le> K. main_pc (f k) = Past ph"
  using assms
proof (induction K arbitrary: f w)
  case (Suc K)
  have st: "barrier_step n (f 0) (f (Suc 0))" using Suc.prems(3) by simp
  from phase_step [OF Suc.prems(1,2) st] show ?case
  proof
    assume "main_pc (f (Suc 0)) = Past ph"
    then show ?thesis by (intro exI [of _ "Suc 0"]) simp
  next
    assume "(\<exists>w. main_pc (f (Suc 0)) = Launched ph w) \<and> phase_left n ph (f (Suc 0)) < phase_left n ph (f 0)"
    then obtain w' where *: "main_pc (f (Suc 0)) = Launched ph w'" "phase_left n ph (f (Suc 0)) < K"
      using Suc.prems(4) by auto
    have "barrier_inv n (f (Suc 0))" using barrier_step_inv [OF Suc.prems(1)] st barrier_step_spurious.orderly by blast
    from Suc.IH [of "\<lambda>k. f (Suc k)", OF this *(1) _ *(2)] Suc.prems(3)
    obtain k where "k \<le> K" "main_pc (f (Suc k)) = Past ph" by auto
    then show ?thesis by (intro exI [of _ "Suc k"]) simp
  qed
qed simp

text \<open>One worker, scheduled in turn with the main thread through a whole cycle.\<close>

lemma in_turn_steps:
  "main_pc (in_turn 0) = Launched PARALLEL_MARK Checking" "worker_pc (in_turn 0) 0 = WaitFor PARALLEL_MARK Checking"
  "worker_pc (in_turn 1) 0 = Running PARALLEL_MARK" "main_pc (in_turn 2) = Launched PARALLEL_MARK Checking" 
  "main_pc (in_turn 3) = Past PARALLEL_MARK" "worker_pc (in_turn 4) 0 = WaitFor FINAL_MARK Checking"
  "worker_pc (in_turn 5) 0 = Running FINAL_MARK" "main_pc (in_turn 6) = Launched FINAL_MARK Checking"
  "main_pc (in_turn 7) = Past FINAL_MARK" "worker_pc (in_turn 8) 0 = WaitFor SWEEP Checking"
  "worker_pc (in_turn 9) 0 = Running SWEEP" "main_pc (in_turn 10) = Launched SWEEP Checking" "main_pc (in_turn 11) = Past SWEEP"
  by code_simp+


lemma in_turn_step:
  assumes "k < 12"
  shows "barrier_step 1 (in_turn k) (in_turn (Suc k))"
proof -
  have check: "barrier_step 1 s (s\<lparr>worker_pc := (worker_pc s)(0 := worker_wait ph s)\<rparr>)" if "worker_pc s 0 = WaitFor ph Checking" for s ph
    using barrier_step.worker_check [of 0 1 s ph] that by simp
  have finish: "barrier_step 1 s (worker_finish 1 0 ph s)" if "worker_pc s 0 = Running ph" for s ph
    using barrier_step.worker_done [of 0 1 s ph] that by simp
  note rules = check finish barrier_step.main_check [of _ _ 1] barrier_step.main_past [of _ _ 1]
  have unturn: "in_turn (Suc k) = in_turn_next k (in_turn k)" by simp
  consider "k = 0" | "k = 1" | "k = 2" | "k = 3" | "k = 4" | "k = 5" | "k = 6" | "k = 7" | "k = 8" | "k = 9" | "k = 10" | "k = 11"
  proof -
    have "[0..<12] = [0, 1, 2, 3, 4, 5, 6, 7, 8, 9, 10, 11 :: nat]" by code_simp
    moreover have "k \<in> set [0..<12]" using assms by simp
    ultimately show thesis using that by (auto simp del: set_upt)
  qed
  then show ?thesis unfolding unturn in_turn_next_def
    by cases (simp_all add: in_turn_steps [unfolded One_nat_def] rules [unfolded One_nat_def] del: in_turn.simps main_next.simps)
qed

lemma in_turn_reach: "k \<le> 12 \<Longrightarrow> reach barrier_init (barrier_step_spurious 1) (in_turn k)"
proof (induction k)
  case 0
  have "barrier_init barrier_start" by (simp add: barrier_init_def barrier_start_def)
  moreover have "barrier_step_spurious 1 barrier_start (in_turn 0)"
    using barrier_step.main_begin [of barrier_start 1] by (simp add: barrier_start_def barrier_step_spurious.orderly)
  ultimately show ?case by (rule reach.reach_step [OF reach.reach_init])
next
  case (Suc k)
  then show ?case using in_turn_step [of k] barrier_step_spurious.orderly reach.reach_step by (metis Suc_leD less_eq_Suc_le)
qed

section \<open>Properties\<close>

text \<open>C15: no worker runs a phase that the main thread has not launched or has left: a worker that runs \<open>ph\<close>
  runs it while the main thread waits in the launch of \<open>ph\<close>; once the main thread is past a launch, every
  worker has run every launched phase exactly once and none is running.\<close>

theorem barrier_phases:
  assumes "reach barrier_init (barrier_step_spurious n) s" "i < n"
  shows "(\<forall>ph. worker_pc s i = Running ph \<longrightarrow> (\<exists>w. main_pc s = Launched ph w) \<and> Suc (runs s i) = launches s) \<and>
    ((\<forall>ph w. main_pc s \<noteq> Launched ph w) \<longrightarrow> runs s i = launches s \<and> (\<forall>ph. worker_pc s i \<noteq> Running ph)) \<and>
    runs s i \<le> launches s \<and> launches s \<le> Suc (runs s i)"
proof -
  have inv: "barrier_inv n s" by (rule barrier.reach_inv [OF assms(1)])
  have run: "(\<exists>w. main_pc s = Launched ph w) \<and> Suc (runs s i) = launches s" if "worker_pc s i = Running ph" for ph
    using running_launched [OF inv assms(2) that] phase_workers(3) [OF inv _ assms(2) that] by blast
  have idle: "runs s i = launches s" if "\<And>ph w. main_pc s \<noteq> Launched ph w"
    using inv assms(2) that by (cases "main_pc s") (auto simp: barrier_inv_def phase_inv_def idle_worker_def)
  have "runs s i \<le> launches s \<and> launches s \<le> Suc (runs s i)"
  proof (cases "\<exists>ph w. main_pc s = Launched ph w")
    case True
    then show ?thesis using phase_facts(5) [OF inv _ assms(2)] by (auto simp: phase_worker_def split: if_splits)
  qed (use idle in auto)
  with run idle show ?thesis by blast
qed

lemma barrier_phases_witness:
  "worker_pc (in_turn 5) 0 = Running FINAL_MARK \<and> (\<exists>w. main_pc (in_turn 5) = Launched FINAL_MARK w) \<and>
   Suc (runs (in_turn 5) 0) = launches (in_turn 5) \<and> main_pc (in_turn 11) = Past SWEEP \<and> runs (in_turn 11) 0 = launches (in_turn 11)"
  using barrier_phases [OF in_turn_reach, of 5 0] barrier_phases [OF in_turn_reach, of 11 0] in_turn_steps by simp

text \<open>C20: the handshake does not lose a wake-up: in every reachable state some thread can take a step other than
  starting the destruction, until the destructor has returned; and whatever the order of the steps, a launched
  phase is over after at most \<open>phase_left\<close> + 1 of them, provided the waits wake up only when notified.\<close>

theorem barrier_phase_ends:
  assumes "reach barrier_init (barrier_step_spurious n) s"
  shows "(destructor_pc s \<noteq> DEnd \<longrightarrow>
      (\<exists>t. barrier_step n s t \<and> (destructor_pc s = DNone \<longrightarrow> destructor_pc t = DNone))) \<and>
    (\<forall>ph w f K. main_pc s = Launched ph w \<and> f 0 = s \<and> (\<forall>k < K. barrier_step n (f k) (f (Suc k))) \<and> phase_left n ph s < K \<longrightarrow>
      (\<exists>k \<le> K. main_pc (f k) = Past ph))"
proof (intro conjI impI allI)
  have inv: "barrier_inv n s" by (rule barrier.reach_inv [OF assms])
  show "\<exists>t. barrier_step n s t \<and> (destructor_pc s = DNone \<longrightarrow> destructor_pc t = DNone)" if "destructor_pc s \<noteq> DEnd"
    using never_stuck [OF inv that] .
  fix ph w f K
  assume run: "main_pc s = Launched ph w \<and> f 0 = s \<and> (\<forall>k < K. barrier_step n (f k) (f (Suc k))) \<and> phase_left n ph s < K"
  show "\<exists>k \<le> K. main_pc (f k) = Past ph" by (rule phase_run [of n f ph w K]) (use inv run in auto)
qed

lemma barrier_phase_ends_witness: "\<exists>k \<le> 12. main_pc (in_turn k) = Past PARALLEL_MARK"
proof -
  have "phase_left 1 PARALLEL_MARK (in_turn 0) < 12" by code_simp
  then show ?thesis using barrier_phase_ends [OF in_turn_reach, of 0] in_turn_steps(1) in_turn_step by blast
qed

end
