(* ===== verification/Woomem_Init.thy ===== *)
theory Woomem_Init
  imports Woomem_Gc_Cycle_Props
begin

text \<open>
  Start and end of the library, \<open>woomem_init\<close> and \<open>woomem_shutdown\<close> of \<^verbatim>\<open>src/woomem.cpp\<close>: the global context, the
  collector and the registered threads together. What \<open>malloc\<close>, \<open>hardware_concurrency\<close> and the raw storage of the
  workers give are arguments. The states they leave are those the theorems on allocation and collection start from.
\<close>

section \<open>State and operations\<close>

text \<open>The globals of the library; \<open>wm_gc_ctx\<close> says that \<open>g_gc_ctx\<close> is not null, and \<open>wm_gc\<close> is what it points to
  together with the globals of the collector, which outlive it.\<close>

record 'os woomem =
  wm_global :: "'os global_context"
  wm_gc :: gc
  wm_gc_ctx :: bool

definition woomem_init ::
  "target \<Rightarrow> 'os syscalls \<Rightarrow> bool \<Rightarrow> u64 \<Rightarrow> (nat \<Rightarrow> slot list \<times> u64) \<Rightarrow> u64 \<Rightarrow> 'os woomem \<Rightarrow> (bool \<times> 'os woomem) option" where
  "woomem_init tgt sys malloc_ok hardware_concurrency raw reserved_chunk_size s =
     (if m_globalcontext_inited (wm_global s) \<or> wm_gc_ctx s then None
      else do {
        (ok, g) \<leftarrow> global_init tgt sys reserved_chunk_size (wm_global s);
        if ok then
          if malloc_ok then
            let (gc, ts) = GC 0 hardware_concurrency raw (wm_gc s) (m_thread_entries g)
            in Some (True, s\<lparr>wm_global := g\<lparr>m_thread_entries := ts\<rparr>, wm_gc := gc, wm_gc_ctx := True\<rparr>)
          else global_shutdown sys g \<bind> (\<lambda>g. Some (False, s\<lparr>wm_global := g\<rparr>))
        else Some (False, s\<lparr>wm_global := g\<rparr>)
      })"

definition woomem_shutdown :: "'os syscalls \<Rightarrow> 'os woomem \<Rightarrow> 'os woomem option" where
  "woomem_shutdown sys s =
     (if \<not> wm_gc_ctx s then None
      else
        let g = wm_global s; g = g\<lparr>m_thread_entries := unassign_workers (m_thread_entries g)\<rparr>
        in global_shutdown sys g \<bind> (\<lambda>g. Some (s\<lparr>wm_global := g, wm_gc_ctx := False\<rparr>)))"

section \<open>The loops over the threads\<close>

definition fresh_thread :: "thread_context \<Rightarrow> bool" where
  "fresh_thread t \<longleftrightarrow> m_thread_page_collection t = ThreadPageCollection False"

definition attach :: "thread_context \<Rightarrow> thread_context" where
  "attach t = t\<lparr>m_thread_page_collection := ThreadPageCollection True\<rparr>"

lemma fresh_detached: "fresh_thread t \<Longrightarrow> t\<lparr>m_thread_page_collection := ThreadPageCollection False\<rparr> = t"
  by (simp add: fresh_thread_def)

lemma init_fresh_threads: "\<forall>t \<in> set ts. fresh_thread t \<Longrightarrow> init_threads ts = Some (map attach ts)"
  by (induction ts) (auto simp: fresh_thread_def attach_def init_manually_def ThreadPageCollection_def)

lemma return_cached_none: "\<forall>x \<in> set xs. fst x = 0 \<Longrightarrow> return_cached xs h = Some h"
  by (induction xs) auto

lemma shutdown_attached:
  assumes "\<forall>t \<in> set ts. m_thread_page_collection t = ThreadPageCollection True"
  shows "shutdown_threads ts h = Some (map (\<lambda>t. t\<lparr>m_thread_page_collection := ThreadPageCollection False\<rparr>) ts, h)"
  using assms
proof (induction ts)
  case (Cons t ts)
  have "return_cached (zip (replicate MAX_GROUP 0) all_groups) h = Some h"
    by (rule return_cached_none) (auto simp: set_zip)
  then have "shutdown_manually (ThreadPageCollection True) h = Some (ThreadPageCollection False, h)"
    by (simp add: shutdown_manually_def ThreadPageCollection_def)
  with Cons show ?case by simp
qed simp

lemma assign_workers_spec:
  assumes "n \<noteq> 0"
  shows "\<exists>ts' i'. assign_workers ts (i, n) = (ts', (i', n)) \<and>
    map (\<lambda>t. t\<lparr>m_gc_marking_context := None\<rparr>) ts' = map (\<lambda>t. t\<lparr>m_gc_marking_context := None\<rparr>) ts \<and>
    (\<forall>t \<in> set ts'. m_is_gc_worker_context t \<or> (\<exists>j < unat n. m_gc_marking_context t = Some j))"
proof (induction ts arbitrary: i)
  case (Cons t ts)
  have j: "unat (i mod n) < unat n" using assms by (simp add: unat_mod unat_gt_0)
  show ?case
  proof (cases "m_is_gc_worker_context t")
    case True
    then show ?thesis using Cons.IH [of i] by (auto split: prod.splits)
  next
    case False
    obtain ts' i' where "assign_workers ts (i + 1, n) = (ts', (i', n))"
      "map (\<lambda>t. t\<lparr>m_gc_marking_context := None\<rparr>) ts' = map (\<lambda>t. t\<lparr>m_gc_marking_context := None\<rparr>) ts"
      "\<forall>t \<in> set ts'. m_is_gc_worker_context t \<or> (\<exists>j < unat n. m_gc_marking_context t = Some j)"
      using Cons.IH [of "i + 1"] by blast
    then show ?thesis using False j by (auto simp: fetch_thread_worker_def)
  qed
qed simp

lemma worker_count_pos: "default_gc_worker_count hc \<noteq> 0"
  by (simp add: default_gc_worker_count_def Let_def)

lemma unmarked_threads:
  assumes "map (\<lambda>t. t\<lparr>m_gc_marking_context := None\<rparr>) ts' = map (\<lambda>t. t\<lparr>m_gc_marking_context := None\<rparr>) ts" "t' \<in> set ts'"
  shows "\<exists>t \<in> set ts. m_thread_page_collection t' = m_thread_page_collection t"
proof -
  have "t'\<lparr>m_gc_marking_context := None\<rparr> \<in> set (map (\<lambda>t. t\<lparr>m_gc_marking_context := None\<rparr>) ts)"
    using assms by (metis (no_types, lifting) image_eqI list.set_map)
  then obtain t where t: "t \<in> set ts" "t'\<lparr>m_gc_marking_context := None\<rparr> = t\<lparr>m_gc_marking_context := None\<rparr>" by auto
  from arg_cong [OF t(2), of m_thread_page_collection] t(1) show ?thesis by auto
qed

text \<open>The collector that the constructor leaves.\<close>

lemma GC_new:
  assumes k: "1 \<le> k" "k \<le> 32" and raw: "\<forall>i. length (fst (raw i)) = 2 ^ k" and gc: "GC 0 hc raw glob ts = (gc, ts')"
  shows "gc_idle k gc" "m_root_gc_unit_set gc = []"
    "map (\<lambda>t. t\<lparr>m_gc_marking_context := None\<rparr>) ts' = map (\<lambda>t. t\<lparr>m_gc_marking_context := None\<rparr>) ts"
    "\<forall>t \<in> set ts'. m_is_gc_worker_context t \<or> (\<exists>j < length (m_gc_worker_threads gc). m_gc_marking_context t = Some j)"
    "woomem_gc_marking_round_counter gc = woomem_gc_marking_round_counter glob"
proof -
  let ?n = "default_gc_worker_count hc"
  obtain ts1 i where a: "assign_workers ts (0, ?n) = (ts1, (i, ?n))"
    "map (\<lambda>t. t\<lparr>m_gc_marking_context := None\<rparr>) ts1 = map (\<lambda>t. t\<lparr>m_gc_marking_context := None\<rparr>) ts"
    "\<forall>t \<in> set ts1. m_is_gc_worker_context t \<or> (\<exists>j < unat ?n. m_gc_marking_context t = Some j)"
    using assign_workers_spec [OF worker_count_pos [of hc], of ts 0] by blast
  have g: "gc = glob\<lparr>m_gc_worker_threads := map (\<lambda>i. GCWorker (fst (raw i)) (snd (raw i))) [0..<unat ?n],
      m_gc_assigned_thread_idx := i, m_force_trigger_gc := False, m_gc_cycle_count := 0, m_root_gc_unit_set := []\<rparr>" "ts' = ts1"
    using gc a(1) by (auto simp: GC_def Let_def)
  have "quiet k (m_gray_queue (GCWorker r a)) \<and> worker_work k (GCWorker r a) = []" if "length r = 2 ^ k" for r a
    using mpsc_ok_new [OF k that] by (auto simp: GCWorker_def quiet_def worker_work_def queued_def MpscGrayQueue_def)
  then show "gc_idle k gc" using raw worker_count_pos [of hc] unat_u64_less [of ?n]
    by (auto simp: gc_idle_def g(1) unat_eq_zero)
  show "m_root_gc_unit_set gc = []" "woomem_gc_marking_round_counter gc = woomem_gc_marking_round_counter glob" by (simp_all add: g)
  show "map (\<lambda>t. t\<lparr>m_gc_marking_context := None\<rparr>) ts' = map (\<lambda>t. t\<lparr>m_gc_marking_context := None\<rparr>) ts" using a(2) g(2) by simp
  show "\<forall>t \<in> set ts'. m_is_gc_worker_context t \<or> (\<exists>j < length (m_gc_worker_threads gc). m_gc_marking_context t = Some j)"
    using a(3) by (simp add: g)
qed

section \<open>Start\<close>

definition reserves :: "target \<Rightarrow> 'os syscalls \<Rightarrow> u64 \<Rightarrow> 'os woomem \<Rightarrow> bool" where
  "reserves tgt sys sz s \<longleftrightarrow>
     fst (woomem_os_reserve_memory tgt sys (pages_for sz * NORMAL_PAGE_SIZE) (os_of (h_chunk (gx_heap (wm_global s))))) \<noteq> 0"

lemma Chunk_cases:
  assumes "mmap_documented sys" "chunk_size_ok sz"
  shows "\<exists>c os'. Chunk tgt sys sz os = Some (c, os') \<and>
    (if fst (woomem_os_reserve_memory tgt sys (pages_for sz * NORMAL_PAGE_SIZE) os) = 0 then is_init_failed c
     else \<not> is_init_failed c \<and> chunk_inv c \<and> blocks_of c = [Free ((unat sz + 32767) div 32768)])"
proof (cases "fst (woomem_os_reserve_memory tgt sys (pages_for sz * NORMAL_PAGE_SIZE) os) = 0")
  case True
  moreover have "sz \<noteq> 0" using assms(2) by (auto simp: chunk_size_ok_def)
  ultimately show ?thesis
    by (auto simp: Chunk_def pages_for_def Let_def is_init_failed_def null_chunk_def split: prod.splits)
next
  case False
  with Chunk_Some [OF assms(1) _ _ this] assms(2) show ?thesis by (auto simp: chunk_size_ok_def)
qed

lemma global_init_cases:
  assumes doc: "mmap_documented sys" and sz: "chunk_size_ok sz" and g: "\<not> m_globalcontext_inited (wm_global s)"
    and ts: "\<forall>t \<in> set (m_thread_entries (wm_global s)). fresh_thread t"
  shows "\<exists>h. global_init tgt sys sz (wm_global s) =
      Some (reserves tgt sys sz s, (wm_global s)\<lparr>gx_heap := h, m_globalcontext_inited := reserves tgt sys sz s,
        m_thread_entries := (if reserves tgt sys sz s then map attach else id) (m_thread_entries (wm_global s))\<rparr>) \<and>
    m_all_page_list h = m_all_page_list (gx_heap (wm_global s)) \<and>
    (reserves tgt sys sz s \<longrightarrow> heap_inv h {} \<and> thread_ok (ThreadPageCollection True) h {} \<and>
       blocks_of (chunk_of (h_chunk h)) = [Free ((unat sz + 32767) div 32768)])"
proof -
  let ?s = "h_chunk (gx_heap (wm_global s))"
  obtain c os' where c: "Chunk tgt sys sz (os_of ?s) = Some (c, os')"
      "if reserves tgt sys sz s then \<not> is_init_failed c \<and> chunk_inv c \<and> blocks_of c = [Free ((unat sz + 32767) div 32768)]
       else is_init_failed c"
    using Chunk_cases [OF doc sz, of tgt "os_of ?s"] by (auto simp: reserves_def split: if_splits)
  show ?thesis
  proof (cases "reserves tgt sys sz s")
    case True
    then have C: "\<not> is_init_failed c" "chunk_inv c" "blocks_of c = [Free ((unat sz + 32767) div 32768)]" using c(2) by simp_all
    let ?c = "?s\<lparr>chunk_of := c, os_of := os'\<rparr>"
    define h where "h = \<lparr>h_chunk = ?c, m_all_page_list = m_all_page_list (gx_heap (wm_global s)), m_free_pages = replicate MAX_GROUP []\<rparr>"
    have p: "GlobalPageCollection ?c (m_all_page_list (gx_heap (wm_global s))) = Some h" using C(1) by (simp add: GlobalPageCollection_def h_def)
    moreover have "chunk_inv (chunk_of ?c)" using C(2) by simp
    ultimately have "heap_inv h {}" "thread_ok (ThreadPageCollection True) h {}" using heap_inv_new by blast+
    then show ?thesis using True C g c(1) p init_fresh_threads [OF ts]
      by (intro exI [of _ h]) (simp add: global_init_def Let_def h_def)
  next
    case False
    have "(wm_global s)\<lparr>gx_heap := x\<rparr> = (wm_global s)\<lparr>gx_heap := x, m_globalcontext_inited := False\<rparr>" for x
      using g by (cases "wm_global s") simp
    then show ?thesis using False c g
      by (intro exI [of _ "(gx_heap (wm_global s))\<lparr>h_chunk := ?s\<lparr>chunk_of := c, os_of := Chunk_destroy sys c os'\<rparr>\<rparr>"])
        (simp add: global_init_def Let_def)
  qed
qed

section \<open>Properties\<close>

text \<open>C17: \<open>woomem_init\<close> establishes what the rest of the library relies on. Called before any unit was allocated, with a
  size for which the page count fits, it returns. It reports success exactly when the reservation and \<open>malloc\<close>
  succeed; then the heap is in order and one free block, every registered thread can allocate and has a worker of
  the collector, and the collector is idle with at least one worker. Otherwise the library is left as not
  initialised, so that it can be called again.\<close>

theorem woomem_init_correct:
  assumes "mmap_documented sys" and "chunk_size_ok sz" and "\<not> m_globalcontext_inited (wm_global s)" and "\<not> wm_gc_ctx s"
    and "\<forall>t \<in> set (m_thread_entries (wm_global s)). fresh_thread t"
    and "1 \<le> k" and "k \<le> 32" and "\<forall>i. length (fst (raw i)) = 2 ^ k"
  shows "\<exists>ok s'. woomem_init tgt sys malloc_ok hc raw sz s = Some (ok, s') \<and> (ok \<longleftrightarrow> reserves tgt sys sz s \<and> malloc_ok) \<and>
    (let h = gx_heap (wm_global s'); ts = m_thread_entries (wm_global s') in
     if ok then m_globalcontext_inited (wm_global s') \<and> wm_gc_ctx s' \<and> heap_inv h {} \<and>
       blocks_of (chunk_of (h_chunk h)) = [Free ((unat sz + 32767) div 32768)] \<and>
       gc_idle k (wm_gc s') \<and> m_root_gc_unit_set (wm_gc s') = [] \<and>
       (\<forall>t \<in> set ts. thread_ok (m_thread_page_collection t) h {} \<and>
          (m_is_gc_worker_context t \<or> (\<exists>j < length (m_gc_worker_threads (wm_gc s')). m_gc_marking_context t = Some j)))
     else \<not> m_globalcontext_inited (wm_global s') \<and> \<not> wm_gc_ctx s' \<and> ts = m_thread_entries (wm_global s))"
proof -
  let ?r = "reserves tgt sys sz s" and ?ts = "m_thread_entries (wm_global s)"
  obtain h where h: "global_init tgt sys sz (wm_global s) = Some (?r, (wm_global s)\<lparr>gx_heap := h, m_globalcontext_inited := ?r,
        m_thread_entries := (if ?r then map attach else id) ?ts\<rparr>)"
      "?r \<longrightarrow> heap_inv h {} \<and> thread_ok (ThreadPageCollection True) h {} \<and> blocks_of (chunk_of (h_chunk h)) = [Free ((unat sz + 32767) div 32768)]"
    using global_init_cases [OF assms(1-3,5), of tgt] by blast
  consider "\<not> ?r" | "?r" "malloc_ok" | "?r" "\<not> malloc_ok" by blast
  then show ?thesis
  proof cases
    case 1
    then show ?thesis using h(1) assms(3,4) by (intro exI [of _ False]) (simp add: woomem_init_def)
  next
    case 2
    obtain gc ts' where gc: "GC 0 hc raw (wm_gc s) (map attach ?ts) = (gc, ts')" by fastforce
    note G = GC_new [OF assms(6-8) gc]
    have "thread_ok (m_thread_page_collection t) h {}" if "t \<in> set ts'" for t
      using unmarked_threads [OF G(3) that] h(2) 2(1) by (auto simp: attach_def)
    then show ?thesis using 2 h gc assms(3,4) G(1,2,4) by (intro exI [of _ True]) (simp add: woomem_init_def)
  next
    case 3
    let ?g = "(wm_global s)\<lparr>gx_heap := h, m_globalcontext_inited := True, m_thread_entries := map attach ?ts\<rparr>"
    have "map (\<lambda>t. t\<lparr>m_thread_page_collection := ThreadPageCollection False\<rparr>) (map attach ?ts) = ?ts"
      using assms(5) fresh_detached by (simp add: attach_def map_idI)
    then have "shutdown_threads (map attach ?ts) h = Some (?ts, h)" using shutdown_attached [of "map attach ?ts" h] by (simp add: attach_def)
    then show ?thesis using 3 h(1) assms(3,4)
      by (intro exI [of _ False]) (simp add: woomem_init_def global_shutdown_def Let_def)
  qed
qed

text \<open>A library with one registered thread, started on the demonstration kernel.\<close>

definition demo_woomem :: "addr list woomem" where
  "demo_woomem = \<lparr>wm_global = (GlobalContext demo_heap)\<lparr>m_thread_entries :=
       [\<lparr>m_thread_page_collection = ThreadPageCollection False, m_gc_marking_context = None, m_is_gc_worker_context = False\<rparr>]\<rparr>,
     wm_gc = demo_gc, wm_gc_ctx = False\<rparr>"

lemma demo_woomem_ok:
  "\<not> m_globalcontext_inited (wm_global demo_woomem)" "\<not> wm_gc_ctx demo_woomem"
  "\<forall>t \<in> set (m_thread_entries (wm_global demo_woomem)). fresh_thread t" "chunk_size_ok 100000"
  "\<forall>i :: nat. length (fst (demo_raw, 0 :: u64)) = 2 ^ 1" "reserves POSIX demo_sys 100000 demo_woomem"
  by (simp_all add: demo_woomem_def GlobalContext_def fresh_thread_def chunk_size_ok_def demo_raw_def) code_simp

theorem woomem_init_correct_witness:
  "\<exists>s'. woomem_init POSIX demo_sys True 32 (\<lambda>_. (demo_raw, 0)) 100000 demo_woomem = Some (True, s') \<and>
     heap_inv (gx_heap (wm_global s')) {} \<and> gc_idle 1 (wm_gc s')"
  using woomem_init_correct [OF demo_sys_documented demo_woomem_ok(4,1-3) _ _ demo_woomem_ok(5), of POSIX True 32] demo_woomem_ok(6)
  by (auto simp: Let_def)

text \<open>C23: a shutdown undoes a start. Right after a successful \<open>woomem_init\<close>, \<open>woomem_shutdown\<close> returns and leaves the library
  as it was before, not initialised and without a collector, the threads detached from it; only the storage of the
  heap differs, and no registered thread names a worker any more.\<close>

theorem init_shutdown_roundtrip:
  assumes "mmap_documented sys" and "chunk_size_ok sz" and "\<forall>t \<in> set (m_thread_entries (wm_global s)). fresh_thread t"
    and "woomem_init tgt sys malloc_ok hc raw sz s = Some (True, s1)"
  shows "\<exists>s2. woomem_shutdown sys s1 = Some s2 \<and> \<not> wm_gc_ctx s2 \<and>
    wm_global s2 = (wm_global s)\<lparr>gx_heap := gx_heap (wm_global s2),
      m_thread_entries := map (\<lambda>t. t\<lparr>m_gc_marking_context := None\<rparr>) (m_thread_entries (wm_global s))\<rparr> \<and>
    m_all_page_list (gx_heap (wm_global s2)) = m_all_page_list (gx_heap (wm_global s)) \<and>
    woomem_gc_marking_round_counter (wm_gc s2) = woomem_gc_marking_round_counter (wm_gc s)"
proof -
  let ?ts = "m_thread_entries (wm_global s)" and ?un = "\<lambda>t. t\<lparr>m_gc_marking_context := None\<rparr>"
  have g: "\<not> m_globalcontext_inited (wm_global s)" "\<not> wm_gc_ctx s" using assms(4) by (auto simp: woomem_init_def split: if_splits)
  obtain h where h: "global_init tgt sys sz (wm_global s) = Some (reserves tgt sys sz s, (wm_global s)\<lparr>gx_heap := h,
        m_globalcontext_inited := reserves tgt sys sz s, m_thread_entries := (if reserves tgt sys sz s then map attach else id) ?ts\<rparr>)"
      "m_all_page_list h = m_all_page_list (gx_heap (wm_global s))"
    using global_init_cases [OF assms(1,2) g(1) assms(3), of tgt] by blast
  have r: "reserves tgt sys sz s" "malloc_ok" using assms(4) h(1) g by (auto simp: woomem_init_def split: if_splits bind_splits)
  obtain gc ts' where gc: "GC 0 hc raw (wm_gc s) (map attach ?ts) = (gc, ts')" by fastforce
  then have s1: "s1 = s\<lparr>wm_global := (wm_global s)\<lparr>gx_heap := h, m_globalcontext_inited := True, m_thread_entries := ts'\<rparr>,
      wm_gc := gc, wm_gc_ctx := True\<rparr>" using assms(4) h(1) g r by (simp add: woomem_init_def)
  have G: "map ?un ts' = map ?un (map attach ?ts)" "woomem_gc_marking_round_counter gc = woomem_gc_marking_round_counter (wm_gc s)"
    using assign_workers_spec [OF worker_count_pos [of hc], of "map attach ?ts" 0] gc by (auto simp: GC_def Let_def)
  have "(?un t)\<lparr>m_thread_page_collection := ThreadPageCollection False\<rparr> = ?un t" if "t \<in> set ?ts" for t
    using fresh_detached [of "?un t"] assms(3) that by (simp add: fresh_thread_def)
  then have "map (\<lambda>t. t\<lparr>m_thread_page_collection := ThreadPageCollection False\<rparr>) (map ?un (map attach ?ts)) = map ?un ?ts"
    by (simp add: attach_def)
  moreover have "\<forall>t \<in> set (map ?un (map attach ?ts)). m_thread_page_collection t = ThreadPageCollection True" by (simp add: attach_def)
  ultimately have sh: "shutdown_threads (map ?un ts') h = Some (map ?un ?ts, h)" unfolding G(1) using shutdown_attached by metis
  define s2 where "s2 = s1\<lparr>wm_global := (wm_global s)\<lparr>gx_heap := h\<lparr>h_chunk := (h_chunk h)\<lparr>os_of :=
      Chunk_destroy sys (chunk_of (h_chunk h)) (os_of (h_chunk h))\<rparr>\<rparr>, m_globalcontext_inited := False, m_thread_entries := map ?un ?ts\<rparr>, wm_gc_ctx := False\<rparr>"
  have "woomem_shutdown sys s1 = Some s2"
    using sh by (simp add: woomem_shutdown_def unassign_workers_def global_shutdown_def Let_def s1 s2_def)
  moreover have "(wm_global s)\<lparr>gx_heap := x, m_globalcontext_inited := False, m_thread_entries := t\<rparr> = (wm_global s)\<lparr>gx_heap := x, m_thread_entries := t\<rparr>" for x t
    using g(1) by (cases "wm_global s") simp
  ultimately show ?thesis using h(2) G(2) by (intro exI [of _ s2]) (simp add: s2_def s1)
qed

theorem init_shutdown_roundtrip_witness:
  "\<exists>s1 s2. woomem_init POSIX demo_sys True 32 (\<lambda>_. (demo_raw, 0)) 100000 demo_woomem = Some (True, s1) \<and>
     woomem_shutdown demo_sys s1 = Some s2 \<and> \<not> wm_gc_ctx s2 \<and> \<not> m_globalcontext_inited (wm_global s2) \<and>
     map m_gc_marking_context (m_thread_entries (wm_global s1)) = [Some 0] \<and>
     map m_gc_marking_context (m_thread_entries (wm_global s2)) = [None]"
proof -
  have "map_option (\<lambda>(ok, s). (ok, map m_gc_marking_context (m_thread_entries (wm_global s))))
    (woomem_init POSIX demo_sys True 32 (\<lambda>_. (demo_raw, 0)) 100000 demo_woomem) = Some (True, [Some 0])" by code_simp
  then obtain s1 where s1: "woomem_init POSIX demo_sys True 32 (\<lambda>_. (demo_raw, 0)) 100000 demo_woomem = Some (True, s1)"
    "map m_gc_marking_context (m_thread_entries (wm_global s1)) = [Some 0]" by auto
  from init_shutdown_roundtrip [OF demo_sys_documented demo_woomem_ok(4,3) s1(1)] obtain s2 where
    s2: "woomem_shutdown demo_sys s1 = Some s2" "\<not> wm_gc_ctx s2" "wm_global s2 = (wm_global demo_woomem)\<lparr>gx_heap := gx_heap (wm_global s2),
      m_thread_entries := map (\<lambda>t. t\<lparr>m_gc_marking_context := None\<rparr>) (m_thread_entries (wm_global demo_woomem))\<rparr>" by blast
  have "\<not> m_globalcontext_inited (wm_global s2)" "map m_gc_marking_context (m_thread_entries (wm_global s2)) = [None]"
    by (subst s2(3), simp add: demo_woomem_def GlobalContext_def)+
  then show ?thesis using s1 s2(1,2) by (intro exI [of _ s1] exI [of _ s2] conjI)
qed

end
