(* ===== verification/Woomem_Tidy.thy ===== *)
theory Woomem_Tidy
  imports Woomem_Init
begin

text \<open>
  Heaps in order. The pages of such a heap are exactly the runs of the chunk, all of them are in the chain, and the lives
  of their units are admissible for a predicate \<open>Q\<close>. A heap is tidy when no unit is gray: the next sweep can take every
  page. Allocation keeps a heap in order for every \<open>Q\<close> that admits free and pending units, and the units in use as they
  are, on the cached page, on a page of a pool, on a new page and for a huge unit; so does a thread that leaves. A
  collection keeps a heap tidy.
\<close>

section \<open>Heaps in order\<close>

abbreviation runs_of :: "'os heap \<Rightarrow> page_range set" where
  "runs_of h \<equiv> chunk_ranges (chunk_of (h_chunk h))"

text \<open>A page that can be swept as far as its place is concerned, with units whose lives \<open>Q\<close> admits; a huge unit has no offset.\<close>

definition sweepable_in :: "(addr \<Rightarrow> unit_life \<Rightarrow> bool) \<Rightarrow> 'os heap \<Rightarrow> addr set \<Rightarrow> addr \<Rightarrow> bool" where
  "sweepable_in Q h C p \<longleftrightarrow>
     (\<exists>g. unit_page h p g \<and> (run_out_of h p \<noteq> 0 \<longrightarrow> p \<notin> C) \<and>
        (\<forall>off \<in> unit_offsets g. Q (unit_addr p off) (unit_life_of (heap_mem h) p off))) \<or>
     (\<exists>n. huge_page (chunk_of (h_chunk h)) (heap_mem h) p n \<and>
        m_next_free_unit_offset (unit_at (heap_mem h) (p + sizeof_PageHead)) = 0 \<and>
        Q (p + sizeof_PageHead) (m_life (unit_at (heap_mem h) (p + sizeof_PageHead))))"

definition ordered :: "(addr \<Rightarrow> unit_life \<Rightarrow> bool) \<Rightarrow> 'os heap \<Rightarrow> addr set \<Rightarrow> bool" where
  "ordered Q h C \<longleftrightarrow> heap_inv h C \<and> 0 \<notin> C \<and> (\<forall>(q, n) \<in> runs_of h. sweepable_in Q h C q) \<and>
     (\<exists>ps. page_chain (heap_mem h) (m_all_page_list h) ps \<and> set ps = fst ` runs_of h)"

lemma orderedD:
  assumes "ordered Q h C"
  shows "heap_inv h C" "0 \<notin> C" "(q, n) \<in> runs_of h \<Longrightarrow> sweepable_in Q h C q"
    "\<exists>ps. page_chain (heap_mem h) (m_all_page_list h) ps \<and> set ps = fst ` runs_of h"
  using assms unfolding ordered_def by blast+

text \<open>Admitting free and pending units; admitting no others; no gray unit.\<close>

definition lax :: "(addr \<Rightarrow> unit_life \<Rightarrow> bool) \<Rightarrow> bool" where
  "lax Q \<longleftrightarrow> (\<forall>u. Q u RELEASED \<and> Q u PENDING)"

abbreviation unpublished :: "addr \<Rightarrow> unit_life \<Rightarrow> bool" where
  "unpublished \<equiv> \<lambda>_ l. l = RELEASED \<or> l = PENDING"

abbreviation ungray :: "addr \<Rightarrow> unit_life \<Rightarrow> bool" where
  "ungray \<equiv> \<lambda>_ l. l \<noteq> SELF_MARKED"

abbreviation tidy :: "'os heap \<Rightarrow> addr set \<Rightarrow> bool" where
  "tidy \<equiv> ordered ungray"

lemma lax_ungray [simp]: "lax ungray"
  by (simp add: lax_def)

lemma sweepable_ungray: "sweepable_in ungray h C p \<longleftrightarrow> sweepable h C p \<and>
    (m_page_count_if_huge (page_at (heap_mem h) p) \<noteq> 0 \<longrightarrow> m_next_free_unit_offset (unit_at (heap_mem h) (p + sizeof_PageHead)) = 0)"
  by (auto simp: sweepable_in_def sweepable_def unit_page_def huge_page_def)

lemma sweepable_in_mono:
  assumes "sweepable_in Q h C p" "\<And>u l. Q u l \<Longrightarrow> R u l"
  shows "sweepable_in R h C p"
  using assms unfolding sweepable_in_def by blast

lemma sweepable_in_range: "sweepable_in Q h C p \<Longrightarrow> \<exists>n. (p, n) \<in> runs_of h"
  by (auto simp: sweepable_in_def unit_page_def huge_page_def)

lemma ordered_mono:
  assumes "ordered Q h C" "\<And>u l. Q u l \<Longrightarrow> R u l"
  shows "ordered R h C"
  using assms(1) sweepable_in_mono [of Q h C _ R] assms(2) unfolding ordered_def by blast

text \<open>Unit heads in the old runs change only where a released unit becomes pending.\<close>

definition only_picked :: "'os heap \<Rightarrow> 'os heap \<Rightarrow> bool" where
  "only_picked h h' \<longleftrightarrow> (\<forall>(q, n) \<in> runs_of h. \<forall>a. unat a \<in> range_bytes (q, 1) \<longrightarrow>
     unit_at (heap_mem h') a = unit_at (heap_mem h) a \<or>
     m_life (unit_at (heap_mem h) a) = RELEASED \<and> m_life (unit_at (heap_mem h') a) = PENDING)"

lemma only_pickedD:
  "only_picked h h' \<Longrightarrow> (q, n) \<in> runs_of h \<Longrightarrow> unat a \<in> range_bytes (q, 1) \<Longrightarrow>
   unit_at (heap_mem h') a = unit_at (heap_mem h) a \<or>
   m_life (unit_at (heap_mem h) a) = RELEASED \<and> m_life (unit_at (heap_mem h') a) = PENDING"
  unfolding only_picked_def by blast

lemma only_picked_trans:
  assumes "only_picked h h1" "only_picked h1 h2" "runs_of h \<subseteq> runs_of h1"
  shows "only_picked h h2"
  unfolding only_picked_def
proof (intro ballI, clarify)
  fix q n a assume q: "(q, n) \<in> runs_of h" "unat (a :: addr) \<in> range_bytes (q, 1)"
    "\<not> (m_life (unit_at (heap_mem h) a) = RELEASED \<and> m_life (unit_at (heap_mem h2) a) = PENDING)"
  then have "(q, n) \<in> runs_of h1" using assms(3) by blast
  from only_pickedD [OF assms(1) q(1,2)] only_pickedD [OF assms(2) this q(2)] q(3)
  show "unit_at (heap_mem h2) a = unit_at (heap_mem h) a" by auto
qed

lemma only_picked_same: "unit_at (heap_mem h') = unit_at (heap_mem h) \<Longrightarrow> only_picked h h'"
  by (auto simp: only_picked_def)

text \<open>The chain stays, or a new page is put in front of it.\<close>

definition chain_step :: "'os heap \<Rightarrow> 'os heap \<Rightarrow> bool" where
  "chain_step h h' \<longleftrightarrow> runs_of h' = runs_of h \<and> m_all_page_list h' = m_all_page_list h \<or>
     (\<exists>p n. p \<noteq> 0 \<and> p \<notin> fst ` runs_of h \<and> runs_of h' = insert (p, n) (runs_of h) \<and>
        m_all_page_list h' = p \<and> m_next_page (page_at (heap_mem h') p) = m_all_page_list h \<and>
        (\<exists>D. sweepable_in unpublished h' D p))"

lemma sweepable_transfer:
  assumes s: "sweepable_in Q h C q" and r: "\<And>n. (q, n) \<in> runs_of h \<Longrightarrow> (q, n) \<in> runs_of h'" and inv: "heap_inv h C"
    and p: "page_at (heap_mem h') q = page_at (heap_mem h) q"
    and o: "m_next_free_unit_offset (unit_at (heap_mem h') (q + sizeof_PageHead)) = m_next_free_unit_offset (unit_at (heap_mem h) (q + sizeof_PageHead))"
    and u: "\<And>g. unit_page h q g \<Longrightarrow> unit_page h' q g"
    and ro: "q \<in> D \<Longrightarrow> run_out_of h' q \<noteq> 0 \<Longrightarrow> run_out_of h q \<noteq> 0 \<and> q \<in> C"
    and l: "\<And>a. unat a \<in> range_bytes (q, 1) \<Longrightarrow> Q a (m_life (unit_at (heap_mem h) a)) \<Longrightarrow> Q a (m_life (unit_at (heap_mem h') a))"
  shows "sweepable_in Q h' D q"
proof -
  obtain k where "(q, k) \<in> runs_of h" using sweepable_in_range [OF s] by blast
  then have f: "page_fits q" using chunk_page_facts(1) [OF heap_invD(1) [OF inv]] by blast
  show ?thesis using s unfolding sweepable_in_def [of Q h]
  proof (elim disjE exE conjE)
    fix g assume g: "unit_page h q g" "run_out_of h q \<noteq> 0 \<longrightarrow> q \<notin> C" "\<forall>off \<in> unit_offsets g. Q (unit_addr q off) (unit_life_of (heap_mem h) q off)"
    have "Q (unit_addr q off) (unit_life_of (heap_mem h') q off)" if "off \<in> unit_offsets g" for off
      using g(3) that l [OF unit_addr_range [OF f that]] by (auto simp: unit_life_of_def)
    then show ?thesis using u [OF g(1)] g(2) ro unfolding sweepable_in_def by blast
  next
    fix n assume n: "huge_page (chunk_of (h_chunk h)) (heap_mem h) q n" "m_next_free_unit_offset (unit_at (heap_mem h) (q + sizeof_PageHead)) = 0"
      "Q (q + sizeof_PageHead) (m_life (unit_at (heap_mem h) (q + sizeof_PageHead)))"
    then have "huge_page (chunk_of (h_chunk h')) (heap_mem h') q n" using r p by (simp add: huge_page_def)
    then show ?thesis using n(2,3) o l [OF head_range [OF f]] unfolding sweepable_in_def by auto
  qed
qed

lemma only_picked_lax:
  "lax Q \<Longrightarrow> only_picked h h' \<Longrightarrow> (q, n) \<in> runs_of h \<Longrightarrow> unat a \<in> range_bytes (q, 1) \<Longrightarrow>
   Q a (m_life (unit_at (heap_mem h) a)) \<Longrightarrow> Q a (m_life (unit_at (heap_mem h') a))"
  by (drule only_pickedD, assumption, assumption) (auto simp: lax_def)

text \<open>What allocation does to a heap, and that it keeps a heap tidy.\<close>

lemma tidy_step:
  assumes lx: "lax Q" and t: "ordered Q h C" and inv: "heap_inv h' D" "0 \<notin> D" and k: "keeps_runs h h'" "only_picked h h'" "chain_step h h'"
    and u: "\<And>q g. unit_page h q g \<Longrightarrow> unit_page h' q g"
    and ro: "\<And>q. q \<in> D \<Longrightarrow> run_out_of h' q \<noteq> 0 \<Longrightarrow> run_out_of h q \<noteq> 0 \<and> q \<in> C"
  shows "ordered Q h' D"
proof -
  note T = orderedD [OF t]
  have pg: "page_at (heap_mem h') q = page_at (heap_mem h) q"
      "m_next_free_unit_offset (unit_at (heap_mem h') (q + sizeof_PageHead)) = m_next_free_unit_offset (unit_at (heap_mem h) (q + sizeof_PageHead))"
    if "(q, n) \<in> runs_of h" for q n using k(1) that unfolding keeps_runs_def by fastforce+
  have sub: "runs_of h \<subseteq> runs_of h'" using k(1) by (simp add: keeps_runs_def)
  have old: "sweepable_in Q h' D q" if q: "(q, n) \<in> runs_of h" for q n
    using sweepable_transfer [OF T(3) [OF q] _ T(1) pg [OF q] u ro] sub only_picked_lax [OF lx k(2) q] by blast
  obtain ps where ps: "page_chain (heap_mem h) (m_all_page_list h) ps" "set ps = fst ` runs_of h" using T(4) by blast
  have ch: "page_chain (heap_mem h') (m_all_page_list h) ps"
    using ps unfolding page_chain_def by (subst chain_cong [of ps _ "page_links (heap_mem h)"]) (auto simp: page_links_def pg)
  show ?thesis using k(3) unfolding chain_step_def
  proof (elim disjE exE conjE)
    assume "runs_of h' = runs_of h" "m_all_page_list h' = m_all_page_list h"
    then show ?thesis using inv old ch ps(2) unfolding ordered_def by auto
  next
    fix p n D' assume p: "p \<noteq> 0" "p \<notin> fst ` runs_of h" "runs_of h' = insert (p, n) (runs_of h)" "m_all_page_list h' = p"
      "m_next_page (page_at (heap_mem h') p) = m_all_page_list h" "sweepable_in unpublished h' D' p"
    have sQ: "sweepable_in Q h' D' p" by (rule sweepable_in_mono [OF p(6)]) (use lx in \<open>auto simp: lax_def\<close>)
    have "p \<notin> C" using heap_invD(5) [OF T(1), of p] p(2) by (force simp: unit_page_def)
    then have "run_out_of h' p \<noteq> 0 \<longrightarrow> p \<notin> D" using ro by blast
    then have "sweepable_in Q h' D p" using sQ unfolding sweepable_in_def by blast
    moreover have "page_chain (heap_mem h') (m_all_page_list h') (p # ps)" using ch p(1,4,5) by (simp add: page_chain_def page_links_def)
    moreover have "set (p # ps) = fst ` runs_of h'" by (simp add: p(3) ps(2))
    moreover have "\<forall>(q, n) \<in> runs_of h'. sweepable_in Q h' D q" using old \<open>sweepable_in Q h' D p\<close> by (auto simp: p(3))
    ultimately show ?thesis using inv unfolding ordered_def by blast
  qed
qed

section \<open>Small units\<close>

lemma pick_unit_changes:
  assumes "pick_unit_from_page_without_init p m = Some (u, m')"
  shows "page_at m' = page_at m"
    "unit_at m' v = unit_at m v \<or> v = u \<and> m_life (unit_at m v) = RELEASED \<and> m_life (unit_at m' v) = PENDING"
    "u \<noteq> 0 \<Longrightarrow> m_run_out (alloc_at m' (alloc_head p)) = m_run_out (alloc_at m (alloc_head p))"
  using assms by (auto simp: pick_unit_from_page_without_init_def take_unit_def Let_def mem_defs split: if_splits)

text \<open>Taking a unit from a held page; a page that has none left is not held any more.\<close>

lemma tidy_pick:
  assumes lx: "lax Q" and t: "ordered Q h C" and p: "unit_page h p g" "p \<in> C"
    and pk: "pick_unit_from_page_without_init p (heap_mem h) = Some (u, m)"
  defines "h' \<equiv> upd_mem (\<lambda>_. m) h"
  shows "ordered Q h' (if u = 0 then C - {p} else C)" "only_picked h h'"
proof -
  note T = orderedD [OF t] and P = pick_unit_changes [OF pk]
  obtain u' m' where um: "pick_unit_from_page_without_init p (heap_mem h) = Some (u', m')" "heap_inv (upd_mem (\<lambda>_. m') h) C"
      "if u' = 0 then live_units (heap_mem h) p g = unit_offsets g \<and> keeps_units h (upd_mem (\<lambda>_. m') h)
       else served h g p (u' + sizeof_UnitHead) (upd_mem (\<lambda>_. m') h)"
    using pick_from_held [OF T(1) p] by blast
  have inv: "heap_inv h' C" and sv: "if u = 0 then keeps_units h h' else served h g p (u + sizeof_UnitHead) h'"
    using um pk by (auto simp: h'_def split: if_splits)
  have m': "heap_mem h' = m" "runs_of h' = runs_of h" "m_all_page_list h' = m_all_page_list h" by (simp_all add: h'_def)
  show op: "only_picked h h'" using P(2) by (auto simp: only_picked_def m')
  have cs: "chain_step h h'" using m' by (simp add: chain_step_def)
  have kr: "keeps_runs h h'" using sv by (auto simp: keeps_units_def served_def split: if_splits)
  have up: "unit_page h' q g'" if q: "unit_page h q g'" for q g'
  proof (cases "u = 0")
    case True
    then show ?thesis using sv q unit_page_range [OF q] by (simp add: keeps_units_def)
  next
    case False
    then have s: "served h g p (u + sizeof_UnitHead) h'" using sv by simp
    show ?thesis
    proof (cases "q = p")
      case True
      then have "g' = g" using q p(1) unit_page_group by blast
      with s True show ?thesis by (auto simp: served_def)
    next
      case False
      with s q show ?thesis by (auto simp: served_def)
    qed
  qed
  have other: "alloc_at m (alloc_head q) = alloc_at (heap_mem h) (alloc_head q)" if "q \<noteq> p" for q
  proof -
    have fit: "page_fits p" and pi: "page_inv (heap_mem h) p g {}"
      using p(1) chunk_page_facts(1) [OF heap_invD(1) [OF T(1)]] by (auto simp: unit_page_def)
    then show ?thesis using pick_unit_spec [OF pi fit] pk that by (auto simp: page_frame_def)
  qed
  let ?D = "if u = 0 then C - {p} else C"
  have D: "heap_inv h' ?D" "0 \<notin> ?D" using inv T(2) heap_inv_antimono [of h' C "C - {p}"] by (auto split: if_splits)
  have ro: "run_out_of h q \<noteq> 0 \<and> q \<in> C" if "q \<in> ?D" "run_out_of h' q \<noteq> 0" for q
    using that other [of q] P(3) by (cases "q = p") (auto simp: run_out_of_def m' split: if_splits)
  show "ordered Q h' ?D" by (rule tidy_step [OF lx t D kr op cs up ro])
qed

text \<open>A page from the pool: pages before it may be retired, but nobody holds them.\<close>

lemma pool_pick_frame:
  assumes inv: "heap_inv h C" "0 \<notin> C" and pk: "pick_free_page (m_free_pages h ! group_index g) (heap_mem h) = (p, rest, m)"
  shows "unit_at m = unit_at (heap_mem h)" "q \<in> C \<Longrightarrow> alloc_at m (alloc_head q) = alloc_at (heap_mem h) (alloc_head q)"
proof -
  note S = pick_free_page_spec [OF pk]
  show "unit_at m = unit_at (heap_mem h)" using S by (simp add: same_units_def)
  show "alloc_at m (alloc_head q) = alloc_at (heap_mem h) (alloc_head q)" if q: "q \<in> C"
  proof -
    have "q \<noteq> 0" using q inv(2) by blast
    then have "q \<notin> set (m_free_pages h ! group_index g)" using heap_invD(3) [OF inv(1), of q g] q by blast
    then show ?thesis using S by blast
  qed
qed

text \<open>A new page, before the chain is looked at.\<close>

lemma new_page_frame:
  assumes inv: "heap_inv h C" and al: "allocate_page tgt sys (h_chunk h) = Some (p, c)" "p \<noteq> 0"
    and ini: "init_page_for_unit_allocating p g (mem_of c, m_all_page_list h) = Some (m, a)"
  defines "h' \<equiv> h\<lparr>h_chunk := c\<lparr>mem_of := m\<rparr>, m_all_page_list := a\<rparr>"
  shows "run_out_of h' p = 0" "q \<in> C \<Longrightarrow> run_out_of h' q = run_out_of h q" "only_picked h h'" "chain_step h h'"
proof -
  note H = heap_invD [OF inv]
  have A: "chunk_inv (chunk_of c)" "chunk_ranges (chunk_of c) = insert (p, 1) (runs_of h)" "m_page_count_if_huge (page_at (mem_of c) p) = 0"
      "m_page_just_allocated (page_at (mem_of c) p)"
    using allocate_page_result [OF H(1), of tgt sys] al by auto
  obtain f where f: "mem_of c = upd_page p f (heap_mem h)" using allocate_page_frame(1) [OF H(1) al] by (auto simp: heap_mem_def)
  have new: "(p, 1) \<notin> runs_of h" using allocate_page_frame(2) [OF H(1) al] .
  have r: "(p, 1) \<in> chunk_ranges (chunk_of c)" using A(2) by simp
  have m: "m = upd_page p (\<lambda>q. q\<lparr>m_page_just_allocated := False, m_next_page := m_all_page_list h\<rparr>) (fresh_page (mem_of c) p g)" "a = p"
    using init_page_eq [OF A(4), of g] ini by auto
  have fr: "page_frame p g (mem_of c) (fresh_page (mem_of c) p g)" by (rule fresh_page_frame)
  have m': "heap_mem h' = m" "runs_of h' = insert (p, 1) (runs_of h)" "m_all_page_list h' = p" using A(2) m(2) by (simp_all add: h'_def)
  have ap: "apart q p" "q \<noteq> p" if "(q, n) \<in> runs_of h" for q n
  proof -
    have q: "(q, n) \<in> chunk_ranges (chunk_of c)" using that A(2) by blast
    show "q \<noteq> p" using chunk_runs_unique [OF A(1) r] q that new by blast
    then show "apart q p" by (rule chunk_runs_apart [OF A(1) q r])
  qed
  show r0: "run_out_of h' p = 0" using init_units_frame by (simp add: run_out_of_def m' m(1) fresh_page_def)
  show "run_out_of h' q = run_out_of h q" if "q \<in> C" for q
  proof -
    have "(q, 1) \<in> runs_of h" using H(5) [OF that] by (auto simp: unit_page_def)
    from apart_addrs(1) [OF ap(1) [OF this]] fr show ?thesis by (simp add: run_out_of_def m' m(1) page_frame_def f)
  qed
  have un: "unit_at m x = unit_at (heap_mem h) x" if "x \<notin> unit_addr p ` unit_offsets g" for x
    using fr that by (simp add: m(1) page_frame_def f)
  show "only_picked h h'"
    unfolding only_picked_def
  proof (intro ballI, clarify)
    fix q n x assume q: "(q, n) \<in> runs_of h" "unat (x :: addr) \<in> range_bytes (q, 1)"
    have "x \<notin> unit_addr p ` unit_offsets g"
    proof
      assume "x \<in> unit_addr p ` unit_offsets g"
      then have "unat x \<in> range_bytes (p, 1)" using unit_addr_range [OF chunk_page_facts(1) [OF A(1) r]] by blast
      then show False using ap(1) [OF q(1)] q(2) unfolding apart_def by blast
    qed
    then show "unit_at (heap_mem h') x = unit_at (heap_mem h) x" using un by (simp add: m')
  qed
  have sw: "sweepable_in unpublished h' {} p"
  proof -
    have L: "unit_lists m p g {} (map (unit_offset g) [0..<unit_count g]) []"
      unfolding m(1) using fresh_page_lists by (subst unit_lists_cong) simp_all
    have "page_at m p = (page_at (mem_of c) p)\<lparr>m_page_just_allocated := False, m_next_page := m_all_page_list h\<rparr>"
      using fr by (simp add: m(1) upd_page_def page_frame_def)
    then have "unit_page h' p g" using A(3) L by (auto simp: unit_page_def m' page_inv_def)
    moreover have "unpublished (unit_addr p off) (unit_life_of m p off)" if "off \<in> unit_offsets g" for off
      using unit_lists_sets(6) [OF L that] that by (auto simp: unit_offsets_def)
    ultimately show ?thesis unfolding sweepable_in_def m'(1) by blast
  qed
  have "m_next_page (page_at m p) = m_all_page_list h" by (simp add: m(1) upd_page_def)
  moreover have "p \<notin> fst ` runs_of h" using ap(2) by force
  ultimately show "chain_step h h'" using al(2) m' sw unfolding chain_step_def by blast
qed

lemma require_frame:
  assumes inv: "heap_inv h C" "0 \<notin> C" and rq: "require_normal_page tgt sys g h = Some (p, h')"
  shows "p \<noteq> 0 \<Longrightarrow> run_out_of h' p = 0" "q \<in> C \<Longrightarrow> run_out_of h' q = run_out_of h q" "only_picked h h'" "chain_step h h'"
proof -
  note H = heap_invD [OF inv(1)] and gi = group_index_max [of g]
  obtain p0 rest m where pk: "pick_free_page (m_free_pages h ! group_index g) (heap_mem h) = (p0, rest, m)" by (metis prod_cases3)
  define h1 where "h1 = upd_mem (\<lambda>_. m) h\<lparr>m_free_pages := (m_free_pages h)[group_index g := rest]\<rparr>"
  note F = pool_pick_frame [OF inv pk]
  have h1: "heap_mem h1 = m" "runs_of h1 = runs_of h" "m_all_page_list h1 = m_all_page_list h" by (simp_all add: h1_def)
  have one: "run_out_of h1 q = run_out_of h q" if "q \<in> C" for q using F(2) [OF that] by (simp add: run_out_of_def h1)
  have two: "only_picked h h1" using F(1) by (intro only_picked_same) (simp add: h1)
  have "((p \<noteq> 0 \<longrightarrow> run_out_of h' p = 0) \<and> (\<forall>q \<in> C. run_out_of h' q = run_out_of h q)) \<and> only_picked h h' \<and> chain_step h h'"
  proof (cases "p0 = 0")
    case False
    then have "h' = h1" "p = p0" "m_run_out (alloc_at m (alloc_head p0)) = 0"
      using rq pk gi H(2) by (auto simp: require_normal_page_def rd_in wr_in Let_def h1_def split: if_splits)
    then show ?thesis using one two h1 by (auto simp: run_out_of_def chain_step_def)
  next
    case True
    note E = pool_exhausted [OF inv(1) pk [unfolded True], folded h1_def]
    have req: "allocate_page tgt sys (h_chunk h1) \<bind>
        (\<lambda>(page, c). if page \<noteq> 0
          then init_page_for_unit_allocating page g (mem_of c, m_all_page_list h1) \<bind>
            (\<lambda>(m, a). Some (page, h1\<lparr>h_chunk := c\<lparr>mem_of := m\<rparr>, m_all_page_list := a\<rparr>))
          else Some (page, h1\<lparr>h_chunk := c\<rparr>)) = Some (p, h')"
      using rq unfolding h1_def using pk gi H(2) True by (simp add: require_normal_page_def rd_in wr_in Let_def)
    obtain c where al: "allocate_page tgt sys (h_chunk h1) = Some (p, c)" using req by (auto split: bind_splits if_splits)
    show ?thesis
    proof (cases "p = 0")
      case True
      then have "c = h_chunk h1" using allocate_page_result [OF heap_invD(1) [OF E(1)], of tgt sys] al by auto
      then have "h' = h1" using req al True by simp
      then show ?thesis using True one two h1 by (auto simp: chain_step_def)
    next
      case False
      obtain m2 a where m2: "init_page_for_unit_allocating p g (mem_of c, m_all_page_list h1) = Some (m2, a)"
          "h' = h1\<lparr>h_chunk := c\<lparr>mem_of := m2\<rparr>, m_all_page_list := a\<rparr>"
        using req al False by (auto split: bind_splits)
      note N = new_page_frame [OF E(1) al False m2(1), folded m2(2)]
      have "chain_step h h'" using N(4) unfolding chain_step_def h1 by simp
      moreover have "only_picked h h'" by (rule only_picked_trans [OF two N(3)]) (simp add: h1)
      ultimately show ?thesis using N(1,2) one by auto
    qed
  qed
  then show "p \<noteq> 0 \<Longrightarrow> run_out_of h' p = 0" "q \<in> C \<Longrightarrow> run_out_of h' q = run_out_of h q" "only_picked h h'" "chain_step h h'"
    by blast+
qed

lemma tidy_require:
  assumes lx: "lax Q" and t: "ordered Q h C" and rq: "require_normal_page tgt sys g h = Some (p, h')"
  shows "only_picked h h'" "runs_of h \<subseteq> runs_of h'"
    "if p = 0 then ordered Q h' C else ordered Q h' (insert p C) \<and> p \<notin> C \<and> unit_page h' p g"
proof -
  note T = orderedD [OF t] and R = require_frame [OF orderedD(1,2) [OF t] rq]
  obtain p' h2 where r: "require_normal_page tgt sys g h = Some (p', h2)" "keeps_units h h2"
    "if p' = 0 then heap_inv h2 C \<and> (\<forall>b \<in> set (blocks_of (chunk_of (h_chunk h))). \<not> is_Free b) else obtained h C g p' h2"
    using require_normal_page_spec [OF T(1)] by blast
  then have k: "keeps_units h h'" "p = 0 \<Longrightarrow> heap_inv h' C" "p \<noteq> 0 \<Longrightarrow> obtained h C g p h'" using rq by (auto split: if_splits)
  have kr: "keeps_runs h h'" using k(1) by (simp add: keeps_units_def)
  show "only_picked h h'" "runs_of h \<subseteq> runs_of h'" using R(3) kr by (simp_all add: keeps_runs_def)
  have up: "unit_page h' q g'" if "unit_page h q g'" for q g' using k(1) that unit_page_range [OF that] by (simp add: keeps_units_def)
  note step = tidy_step [OF lx t _ _ kr R(3,4) up]
  show "if p = 0 then ordered Q h' C else ordered Q h' (insert p C) \<and> p \<notin> C \<and> unit_page h' p g"
  proof (cases "p = 0")
    case True
    then show ?thesis using step [OF k(2) T(2)] R(2) by auto
  next
    case False
    then have o: "heap_inv h' (insert p C)" "p \<notin> C" "unit_page h' p g" using k(3) by (auto simp: obtained_def)
    have "0 \<notin> insert p C" using T(2) False by auto
    then have "ordered Q h' (insert p C)" by (rule step [OF o(1)]) (use R(1,2) False in auto)
    then show ?thesis using o False by simp
  qed
qed

text \<open>The whole loop: the heap stays tidy for the pages that are held afterwards, and the new page was nobody's.\<close>

definition loop_ok :: "(addr \<Rightarrow> unit_life \<Rightarrow> bool) \<Rightarrow> 'os heap \<Rightarrow> addr set \<Rightarrow> unit_alloc_group \<Rightarrow> addr \<Rightarrow> bool" where
  "loop_ok Q h C g cached \<longleftrightarrow> ordered Q h C \<and> (cached \<noteq> 0 \<longrightarrow> unit_page h cached g \<and> cached \<in> C)"

definition loop_done :: "(addr \<Rightarrow> unit_life \<Rightarrow> bool) \<Rightarrow> 'os heap \<Rightarrow> addr set \<Rightarrow> addr \<Rightarrow> addr \<Rightarrow> 'os heap \<Rightarrow> bool" where
  "loop_done Q h C cached c h' \<longleftrightarrow> ordered Q h' (swap_held C cached c) \<and> only_picked h h' \<and> runs_of h \<subseteq> runs_of h' \<and>
     (c = cached \<or> c = 0 \<or> c \<notin> C)"

lemma loop_retry:
  assumes lx: "lax Q" and l: "loop_ok Q h C g cached" and t: "ordered Q h1 (C - {cached})" "only_picked h h1" "runs_of h \<subseteq> runs_of h1"
    and rq: "require_normal_page tgt sys g h1 = Some (p, h2)"
  shows "p = 0 \<Longrightarrow> loop_done Q h C cached 0 h2"
    "p \<noteq> 0 \<Longrightarrow> loop_ok Q h2 (insert p (C - {cached})) g p"
    "p \<noteq> 0 \<Longrightarrow> loop_done Q h2 (insert p (C - {cached})) p c h' \<Longrightarrow> loop_done Q h C cached c h'"
proof -
  note R = tidy_require [OF lx t(1) rq]
  have op: "only_picked h h2" by (rule only_picked_trans [OF t(2) R(1) t(3)])
  have sub: "runs_of h \<subseteq> runs_of h2" using t(3) R(2) by blast
  have C: "cached \<noteq> 0 \<longrightarrow> cached \<in> C" "0 \<notin> C" using l orderedD(2) by (auto simp: loop_ok_def)
  show "loop_done Q h C cached 0 h2" if "p = 0"
    using R(3) that op sub C by (auto simp: loop_done_def swap_held_def)
  assume p: "p \<noteq> 0"
  then have o: "ordered Q h2 (insert p (C - {cached}))" "p \<notin> C - {cached}" "unit_page h2 p g" using R(3) by auto
  then show "loop_ok Q h2 (insert p (C - {cached})) g p" by (simp add: loop_ok_def)
  show "loop_done Q h C cached c h'" if d: "loop_done Q h2 (insert p (C - {cached})) p c h'"
  proof -
    have "only_picked h h'" using only_picked_trans [OF op _ sub] d by (simp add: loop_done_def)
    moreover have "swap_held (insert p (C - {cached})) p c = swap_held C cached c"
    proof (cases "p = cached")
      case True
      then show ?thesis using C(1) p by (simp add: insert_absorb)
    next
      case False
      then show ?thesis using swap_held_again [OF C] o(2) p by simp
    qed
    moreover have "c = cached \<or> c = 0 \<or> c \<notin> C" using d o(2) by (auto simp: loop_done_def)
    ultimately show ?thesis using d sub by (auto simp: loop_done_def)
  qed
qed

lemma pick_from_pages_tidy:
  assumes "pick_from_pages tgt sys g cached h = Some r" "loop_ok Q h C g cached" and lx: "lax Q"
  shows "loop_done Q h C cached (fst (snd r)) (snd (snd r))"
proof -
  have "\<forall>C. loop_ok Q h C g cached \<longrightarrow> loop_done Q h C cached (fst (snd r)) (snd (snd r))"
    using assms(1)
  proof (rule pick_from_pages.raw_induct [rotated], goal_cases)
    case (1 pick tgt sys g cached h r)
    note IH = 1(1) [THEN spec, THEN mp] and run = 1(2)
    show ?case
    proof (intro allI impI)
      fix C assume l: "loop_ok Q h C g cached"
      then have t: "ordered Q h C" "cached \<noteq> 0 \<Longrightarrow> unit_page h cached g \<and> cached \<in> C" by (auto simp: loop_ok_def)
      obtain u h1 where first: "(if cached \<noteq> 0
          then pick_unit_from_page_without_init cached (heap_mem h) \<bind> (\<lambda>um. Some (fst um, upd_mem (\<lambda>_. snd um) h))
          else Some (0, h)) = Some (u, h1)"
        and rest: "(if u \<noteq> 0 then Some (u + sizeof_UnitHead, cached, h1)
          else require_normal_page tgt sys g h1 \<bind> (\<lambda>ph. if fst ph = 0 then Some (0, 0, snd ph) else pick tgt sys g (fst ph) (snd ph))) = Some r"
        using iffD1 [OF bind_eq_Some_conv run] by (auto simp only: split_paired_all fst_conv snd_conv)
      have "ordered Q h1 (if u = 0 then C - {cached} else C) \<and> only_picked h h1 \<and> runs_of h1 = runs_of h"
      proof (cases "cached = 0")
        case True
        then have "u = 0" "h1 = h" "C - {cached} = C" using first orderedD(2) [OF t(1)] by auto
        then show ?thesis using t(1) by (simp add: only_picked_same)
      next
        case False
        then obtain m where "pick_unit_from_page_without_init cached (heap_mem h) = Some (u, m)" "h1 = upd_mem (\<lambda>_. m) h"
          using first by (cases "pick_unit_from_page_without_init cached (heap_mem h)") auto
        then show ?thesis using tidy_pick [OF lx t(1), of cached g u m] t(2) False by simp
      qed
      then have h1: "ordered Q h1 (if u = 0 then C - {cached} else C)" "only_picked h h1" "runs_of h1 = runs_of h" by blast+
      show "loop_done Q h C cached (fst (snd r)) (snd (snd r))"
      proof (cases "u = 0")
        case False
        then show ?thesis using rest h1 by (auto simp: loop_done_def swap_held_def)
      next
        case True
        obtain p h2 where rq: "require_normal_page tgt sys g h1 = Some (p, h2)"
          "(if p = 0 then Some (0, 0, h2) else pick tgt sys g p h2) = Some r"
          using rest True by (cases "require_normal_page tgt sys g h1") (auto cong: if_cong)
        have t1: "ordered Q h1 (C - {cached})" using h1(1) True by simp
        note L = loop_retry [OF lx l t1 h1(2) _ rq(1)]
        show ?thesis
        proof (cases "p = 0")
          case True
          then show ?thesis using L(1) rq(2) h1(3) by auto
        next
          case False
          then show ?thesis using L(2,3) rq(2) h1(3) IH [of tgt sys g p h2 r] by auto
        qed
      qed
    qed
  qed
  with assms(2) show ?thesis by blast
qed

section \<open>Units in use\<close>

definition unit_in :: "'os heap \<Rightarrow> addr \<Rightarrow> bool" where
  "unit_in h u \<longleftrightarrow> (\<exists>p n. (p, n) \<in> runs_of h \<and> unit_of_page (heap_mem h) p u)"

definition units_kept :: "'os heap \<Rightarrow> 'os heap \<Rightarrow> bool" where
  "units_kept h h' \<longleftrightarrow> (\<forall>u. unit_in h u \<longrightarrow> unit_in h' u \<and> unit_at (heap_mem h') u = unit_at (heap_mem h) u)"

lemma unit_inD:
  assumes t: "ordered Q h C" and u: "unit_in h u"
  obtains (cut) p g off where "unit_page h p g" "(p, 1) \<in> runs_of h" "page_fits p" "off \<in> unit_offsets g" "u = unit_addr p off"
      "m_life (unit_at (heap_mem h) u) \<noteq> RELEASED"
    | (huge) p n where "huge_page (chunk_of (h_chunk h)) (heap_mem h) p n" "(p, n) \<in> runs_of h" "page_fits p" "u = p + sizeof_PageHead"
proof -
  obtain p n where p: "(p, n) \<in> runs_of h" "unit_of_page (heap_mem h) p u" using u by (auto simp: unit_in_def)
  note f = chunk_page_facts(1) [OF heap_invD(1) [OF orderedD(1) [OF t]] p(1)]
  consider g where "unit_page h p g" | k where "huge_page (chunk_of (h_chunk h)) (heap_mem h) p k"
    using orderedD(3) [OF t p(1)] unfolding sweepable_in_def by blast
  then show thesis
  proof cases
    case 1
    then have "page_is_cut (heap_mem h) p" "page_group (heap_mem h) p = g" "(p, 1) \<in> runs_of h"
      using page_group_eq by (auto simp: unit_page_def page_is_cut_def)
    then show thesis using cut [OF 1 _ f] p(2) by (auto simp: unit_of_page_def page_live_def live_units_def unit_life_of_def)
  next
    case 2
    then have "\<not> page_is_cut (heap_mem h) p" "(p, k) \<in> runs_of h" by (auto simp: huge_page_def page_is_cut_def)
    then show thesis using huge [OF 2 _ f] p(2) by (auto simp: unit_of_page_def)
  qed
qed

lemma unit_in_cut:
  assumes "unit_page h p g" "off \<in> unit_offsets g" "m_life (unit_at (heap_mem h) (unit_addr p off)) \<noteq> RELEASED"
  shows "unit_in h (unit_addr p off)"
proof -
  have "page_is_cut (heap_mem h) p" "page_group (heap_mem h) p = g" "(p, 1) \<in> runs_of h"
    using assms(1) page_group_eq by (auto simp: unit_page_def page_is_cut_def)
  then show ?thesis using assms(2,3) unfolding unit_in_def unit_of_page_def page_live_def live_units_def unit_life_of_def by auto
qed

lemma unit_in_huge: "huge_page (chunk_of (h_chunk h)) (heap_mem h) p n \<Longrightarrow> unit_in h (p + sizeof_PageHead)"
  unfolding unit_in_def unit_of_page_def huge_page_def page_is_cut_def by auto

lemma units_kept_step:
  assumes t: "ordered Q h C" and k: "keeps_runs h h'" "only_picked h h'" and u: "\<And>q g. unit_page h q g \<Longrightarrow> unit_page h' q g"
  shows "units_kept h h'"
  unfolding units_kept_def
proof (intro allI impI)
  fix v assume v: "unit_in h v"
  from t v show "unit_in h' v \<and> unit_at (heap_mem h') v = unit_at (heap_mem h) v"
  proof (cases rule: unit_inD)
    case (cut p g off)
    have "unit_at (heap_mem h') v = unit_at (heap_mem h) v"
      using only_pickedD [OF k(2) cut(2), of v] unit_addr_range [OF cut(3,4)] cut(5,6) by auto
    then show ?thesis using unit_in_cut [OF u [OF cut(1)] cut(4)] cut(5,6) by simp
  next
    case (huge p n)
    have "(p, n) \<in> runs_of h'" "page_at (heap_mem h') p = page_at (heap_mem h) p" "unit_at (heap_mem h') v = unit_at (heap_mem h) v"
      using k(1) huge(2,4) unfolding keeps_runs_def by blast+
    then show ?thesis using unit_in_huge [of h' p n] huge by (simp add: huge_page_def)
  qed
qed

section \<open>Threads\<close>

definition held :: "thread_context list \<Rightarrow> addr set" where
  "held ts = {p. p \<noteq> 0 \<and> (\<exists>t \<in> set ts. p \<in> set (cached_of t))}"

text \<open>Every thread can allocate, and no two hold the same page.\<close>

definition threads_ok :: "'os heap \<Rightarrow> thread_context list \<Rightarrow> bool" where
  "threads_ok h ts \<longleftrightarrow> (\<forall>t \<in> set ts. thread_ok (m_thread_page_collection t) h (held ts)) \<and>
     (\<forall>i < length ts. \<forall>j < length ts. i \<noteq> j \<longrightarrow> set (cached_of (ts ! i)) \<inter> set (cached_of (ts ! j)) \<subseteq> {0})"

lemma threads_okD:
  assumes "threads_ok h ts"
  shows "t \<in> set ts \<Longrightarrow> thread_ok (m_thread_page_collection t) h (held ts)"
    "i < length ts \<Longrightarrow> j < length ts \<Longrightarrow> i \<noteq> j \<Longrightarrow> p \<in> set (cached_of (ts ! i)) \<Longrightarrow> p \<in> set (cached_of (ts ! j)) \<Longrightarrow> p = 0"
  using assms unfolding threads_ok_def by blast+

lemma threads_ok_transfer:
  assumes "threads_ok h ts" "\<And>q g. unit_page h q g \<Longrightarrow> unit_page h' q g"
  shows "threads_ok h' ts"
  using assms unfolding threads_ok_def thread_ok_def by blast

lemma pick_keeps_unit_page:
  assumes r: "pick_result h C g cached (Some (a, c, h'))" and q: "unit_page h q g'"
  shows "unit_page h' q g'"
proof (cases "a = 0")
  case True
  then show ?thesis using r q unit_page_range [OF q] by (simp add: pick_result_def keeps_units_def)
next
  case False
  then have s: "served h g c a h'" using r by (simp add: pick_result_def)
  show ?thesis
  proof (cases "q = c")
    case True
    then have "unit_page h q g" "unit_page h' q g" using s unit_page_range [OF q] by (auto simp: served_def)
    then show ?thesis using unit_page_group [OF q] by blast
  next
    case False
    then show ?thesis using s q by (auto simp: served_def)
  qed
qed

text \<open>A thread that replaces one of its pages by a page that nobody else holds.\<close>

definition recache :: "thread_context \<Rightarrow> unit_alloc_group \<Rightarrow> addr \<Rightarrow> thread_context" where
  "recache t g c = t\<lparr>m_thread_page_collection := (m_thread_page_collection t)\<lparr>m_cached_pages := (cached_of t)[group_index g := c]\<rparr>\<rparr>"

lemma cached_recache: "cached_of (recache t g c) = (cached_of t)[group_index g := c]"
  by (simp add: recache_def cached_of_def)

lemma set_recache:
  assumes "group_index g < length xs" "\<And>j. j < length xs \<Longrightarrow> j \<noteq> group_index g \<Longrightarrow> xs ! j = xs ! group_index g \<Longrightarrow> xs ! j = 0" "p \<noteq> 0"
  shows "p \<in> set (xs[group_index g := c]) \<longleftrightarrow> p = c \<or> p \<in> set xs \<and> p \<noteq> xs ! group_index g"
  using assms by (auto simp: in_set_conv_nth nth_list_update) metis+

lemma recache_members:
  assumes t: "thread_ok (m_thread_page_collection t) h C"
  shows "cached_of t ! group_index g \<in> set (cached_of t)"
    "p \<noteq> 0 \<Longrightarrow> p \<in> set (cached_of (recache t g c)) \<longleftrightarrow> p = c \<or> p \<in> set (cached_of t) \<and> p \<noteq> cached_of t ! group_index g"
proof -
  let ?xs = "cached_of t"
  have len: "length ?xs = MAX_GROUP" and pg: "\<And>g. ?xs ! group_index g \<noteq> 0 \<Longrightarrow> unit_page h (?xs ! group_index g) g"
    using t by (auto simp: thread_ok_def cached_of_def)
  have gi: "group_index g < length ?xs" using len group_index_max by simp
  then show "cached_of t ! group_index g \<in> set (cached_of t)" by simp
  have uniq: "?xs ! j = 0" if "j < length ?xs" "j \<noteq> group_index g" "?xs ! j = ?xs ! group_index g" for j
  proof (rule ccontr)
    assume nz: "?xs ! j \<noteq> 0"
    have "j < MAX_GROUP" using that(1) unfolding len .
    then obtain g' where g': "j = group_index g'" using index_group by blast
    have "unit_page h (?xs ! j) g'" using pg [of g'] nz unfolding g' by blast
    moreover have "unit_page h (?xs ! j) g" using pg [of g] nz unfolding that(3) by blast
    ultimately have "g' = g" by (rule unit_page_group)
    with g' that(2) show False by simp
  qed
  show "p \<in> set (cached_of (recache t g c)) \<longleftrightarrow> p = c \<or> p \<in> set ?xs \<and> p \<noteq> ?xs ! group_index g" if "p \<noteq> 0"
    unfolding cached_recache by (rule set_recache [OF gi uniq that])
qed

lemma held_iff: "p \<in> held ts \<longleftrightarrow> p \<noteq> 0 \<and> (\<exists>j < length ts. p \<in> set (cached_of (ts ! j)))"
  unfolding held_def by (simp add: Bex_def in_set_conv_nth [of _ ts] ex_simps) blast

lemma held_recache:
  assumes ok: "threads_ok h ts" and i: "i < length ts" and c: "c = cached_of (ts ! i) ! group_index g \<or> c = 0 \<or> c \<notin> held ts"
  defines "old \<equiv> cached_of (ts ! i) ! group_index g" and "ts' \<equiv> ts[i := recache (ts ! i) g c]"
  shows "held ts' = swap_held (held ts) old c"
    "\<forall>k < length ts'. \<forall>j < length ts'. k \<noteq> j \<longrightarrow> set (cached_of (ts' ! k)) \<inter> set (cached_of (ts' ! j)) \<subseteq> {0}"
    "j < length ts \<Longrightarrow> j \<noteq> i \<Longrightarrow> old \<in> set (cached_of (ts ! j)) \<Longrightarrow> old = 0"
proof -
  let ?xs = "cached_of (ts ! i)"
  have t: "thread_ok (m_thread_page_collection (ts ! i)) h (held ts)" using threads_okD(1) [OF ok] i by simp
  note old = recache_members(1) [OF t, of g, folded old_def] and mem = recache_members(2) [OF t, of _ g c, folded old_def]
  show alone: "old = 0" if "j < length ts" "j \<noteq> i" "old \<in> set (cached_of (ts ! j))" for j
    using threads_okD(2) [OF ok that(1) i that(2,3) old] .
  have other: "p \<noteq> c \<and> p \<noteq> old" if "j < length ts" "j \<noteq> i" "p \<in> set (cached_of (ts ! j))" "p \<noteq> 0" "c \<noteq> old" for j p
  proof -
    have "p \<in> held ts" using that nth_mem by (auto simp: held_def)
    then show ?thesis using c that(4,5) alone [OF that(1,2)] that(3) by (auto simp: old_def)
  qed
  show "held ts' = swap_held (held ts) old c"
  proof (cases "c = old")
    case True
    then have "recache (ts ! i) g c = ts ! i" by (simp add: recache_def old_def cached_of_def)
    then show ?thesis using True by (simp add: ts'_def swap_held_def)
  next
    case False
    have e: "p \<in> held ts' \<longleftrightarrow> p \<noteq> 0 \<and> (p = c \<or> p \<in> held ts \<and> p \<noteq> old)" for p
    proof (cases "p = 0")
      case nz: False
      let ?rest = "\<exists>j < length ts. j \<noteq> i \<and> p \<in> set (cached_of (ts ! j))"
      have "(\<exists>j < length ts'. p \<in> set (cached_of (ts' ! j))) \<longleftrightarrow> p \<in> set (cached_of (recache (ts ! i) g c)) \<or> ?rest"
        using i by (auto simp: ts'_def nth_list_update split: if_splits)
      moreover have "(\<exists>j < length ts. p \<in> set (cached_of (ts ! j))) \<longleftrightarrow> p \<in> set ?xs \<or> ?rest" using i by blast
      moreover have "?rest \<Longrightarrow> p \<noteq> old" using other nz False by blast
      ultimately show ?thesis unfolding held_iff using mem [OF nz] nz by blast
    qed (simp add: held_def)
    have z: "0 \<notin> held ts" by (simp add: held_def)
    show ?thesis unfolding swap_held_def using False z by (intro set_eqI) (auto simp only: e if_False insert_iff Diff_iff empty_iff split: if_split)
  qed
  show "\<forall>k < length ts'. \<forall>j < length ts'. k \<noteq> j \<longrightarrow> set (cached_of (ts' ! k)) \<inter> set (cached_of (ts' ! j)) \<subseteq> {0}"
  proof (intro allI impI subsetI)
    fix k j p assume a: "k < length ts'" "j < length ts'" "k \<noteq> j" "p \<in> set (cached_of (ts' ! k)) \<inter> set (cached_of (ts' ! j))"
    have one: "p = 0" if "j < length ts" "j \<noteq> i" "p \<in> set (cached_of (recache (ts ! i) g c))" "p \<in> set (cached_of (ts ! j))" for j
    proof (rule ccontr)
      assume nz: "p \<noteq> 0"
      show False
      proof (cases "c = old")
        case True
        then have "p \<in> set ?xs" using mem [OF nz] that(3) old by auto
        then show False using threads_okD(2) [OF ok that(1) i that(2,4)] nz by blast
      next
        case False
        then have "p \<noteq> c" using other [OF that(1,2,4) nz] by blast
        then have "p \<in> set ?xs" using mem [OF nz] that(3) by blast
        then show False using threads_okD(2) [OF ok that(1) i that(2,4)] nz by blast
      qed
    qed
    show "p \<in> {0}" using a one threads_okD(2) [OF ok, of k j p] i by (auto simp: ts'_def nth_list_update split: if_splits)
  qed
qed

section \<open>Allocation keeps the heap tidy\<close>

definition pending_unit :: "'os heap \<Rightarrow> addr \<Rightarrow> bool" where
  "pending_unit h a \<longleftrightarrow> unit_in h (a - sizeof_UnitHead) \<and> m_life (unit_at (heap_mem h) (a - sizeof_UnitHead)) = PENDING"

definition begun :: "(addr \<Rightarrow> unit_life \<Rightarrow> bool) \<Rightarrow> 'os heap \<Rightarrow> addr \<Rightarrow> thread_context list \<Rightarrow> 'os heap \<Rightarrow> bool" where
  "begun Q h a ts' h' \<longleftrightarrow> ordered Q h' (held ts') \<and> threads_ok h' ts' \<and> units_kept h h' \<and> keeps_runs h h' \<and>
     (\<forall>q g. unit_page h q g \<longrightarrow> unit_page h' q g) \<and>
     (a \<noteq> 0 \<longrightarrow> pending_unit h' a \<and> \<not> unit_in h (a - sizeof_UnitHead))"

text \<open>A unit in use lies in the page in which its head lies.\<close>

lemma unit_in_page:
  assumes t: "ordered Q h C" and u: "unit_in h u" and c: "chunk_inv (chunk_of (h_chunk h'))" "runs_of h \<subseteq> runs_of h'"
    and p: "(p, n) \<in> runs_of h'" "unat u \<in> range_bytes (p, 1)"
  shows "(p, n) \<in> runs_of h" "unit_of_page (heap_mem h) p u"
proof -
  obtain q k where q: "(q, k) \<in> runs_of h" "unit_of_page (heap_mem h) q u" using u by (auto simp: unit_in_def)
  have "unat u \<in> range_bytes (q, 1)"
  proof -
    note f = chunk_page_facts(1) [OF heap_invD(1) [OF orderedD(1) [OF t]] q(1)]
    show ?thesis
    proof (cases "page_is_cut (heap_mem h) q")
      case True
      then show ?thesis using q(2) unit_addr_range [OF f] by (auto simp: unit_of_page_def page_live_def live_units_def)
    next
      case False
      then show ?thesis using q(2) head_range [OF f] by (simp add: unit_of_page_def)
    qed
  qed
  moreover have q': "(q, k) \<in> runs_of h'" using q(1) c(2) by blast
  ultimately have e: "q = p" using chunk_runs_apart [OF c(1) q' p(1)] p(2) unfolding apart_def by blast
  then have "k = n" using chunk_runs_unique [OF c(1)] q' p(1) by blast
  with e q show "(p, n) \<in> runs_of h" "unit_of_page (heap_mem h) p u" by auto
qed

lemma recached_threads_ok:
  assumes ok: "threads_ok h ts" and i: "i < length ts" and d: "d = cached_of (ts ! i) ! group_index g \<or> d = 0 \<or> d \<notin> held ts"
    and r: "pick_result h (held ts) g (cached_of (ts ! i) ! group_index g) (Some (a, d, h'))"
  defines "ts' \<equiv> ts[i := recache (ts ! i) g d]"
  shows "threads_ok h' ts'"
proof -
  let ?c = "cached_of (ts ! i) ! group_index g"
  note H = held_recache [OF ok i d, folded ts'_def]
  have th: "thread_ok (m_thread_page_collection (ts ! i)) h (held ts)" using threads_okD(1) [OF ok] i by simp
  have "thread_ok (m_thread_page_collection t) h' (held ts')" if mem: "t \<in> set ts'" for t
  proof -
    obtain j where j: "j < length ts" "t = ts' ! j" using mem unfolding ts'_def in_set_conv_nth by auto
    show ?thesis
    proof (cases "j = i")
      case True
      then show ?thesis using thread_ok_pick [OF th refl, of g a d h'] r i j H(1) by (simp add: ts'_def recache_def cached_of_def)
    next
      case False
      then have t': "t = ts ! j" using j by (simp add: ts'_def)
      have o: "thread_ok (m_thread_page_collection t) h (held ts)" using threads_okD(1) [OF ok] j(1) t' by simp
      have "q \<in> held ts'" if q: "q = m_cached_pages (m_thread_page_collection t) ! group_index g'" "q \<noteq> 0" for q g'
      proof -
        have "q \<in> set (cached_of t)" using o q(1) group_index_max by (simp add: thread_ok_def cached_of_def)
        then have "q \<noteq> ?c" using H(3) [OF j(1) False] t' q(2) by auto
        moreover have "q \<in> held ts" using o q by (simp add: thread_ok_def)
        ultimately show ?thesis unfolding H(1) by (simp add: swap_held_def)
      qed
      then show ?thesis using o pick_keeps_unit_page [OF r] by (auto simp: thread_ok_def)
    qed
  qed
  then show ?thesis using H(2) by (simp add: threads_ok_def)
qed

text \<open>A unit that a page has served was not in use.\<close>

lemma served_fresh:
  assumes t: "ordered Q h C" and inv: "heap_inv h' D" and sv: "served h g p a h'"
  shows "pending_unit h' a" "\<not> unit_in h (a - sizeof_UnitHead)"
proof -
  obtain off where off: "off \<in> unit_offsets g" "a = unit_addr p off + sizeof_UnitHead" "unit_page h' p g"
      "m_life (unit_at (heap_mem h') (unit_addr p off)) = PENDING"
      "p \<in> page_ranges h \<Longrightarrow> unit_page h p g \<and> off \<notin> live_units (heap_mem h) p g" "keeps_runs h h'"
    using sv by (auto simp: served_def split: if_splits)
  then show "pending_unit h' a" using unit_in_cut [of h' p g off] by (simp add: pending_unit_def)
  have ci: "chunk_inv (chunk_of (h_chunk h'))" and sub: "runs_of h \<subseteq> runs_of h'" and pr: "(p, 1) \<in> runs_of h'"
    using heap_invD(1) [OF inv] off(3,6) by (simp_all add: keeps_runs_def unit_page_def)
  show "\<not> unit_in h (a - sizeof_UnitHead)"
  proof
    assume "unit_in h (a - sizeof_UnitHead)"
    then have u: "unit_in h (unit_addr p off)" using off(2) by simp
    note P = unit_in_page [OF t u ci sub pr unit_addr_range [OF chunk_page_facts(1) [OF ci pr] off(1)]]
    have d: "unit_page h p g" "off \<notin> live_units (heap_mem h) p g" using off(5) P(1) by (auto simp: page_ranges_def)
    then have "page_is_cut (heap_mem h) p" "page_group (heap_mem h) p = g" using page_group_eq by (auto simp: unit_page_def page_is_cut_def)
    with P(2) d(2) show False by (auto simp: unit_of_page_def page_live_def)
  qed
qed

lemma small_begin:
  assumes lx: "lax Q" and t: "ordered Q h (held ts)" and ok: "threads_ok h ts" and i: "i < length ts" and sz: "sz \<le> MAX_IN_PAGE_UNIT_SIZE"
  shows "\<exists>a t' h'. pick_unit_in_page tgt sys sz (m_thread_page_collection (ts ! i)) h = Some (a, t', h') \<and>
    begun Q h a (ts[i := (ts ! i)\<lparr>m_thread_page_collection := t'\<rparr>]) h'"
proof -
  let ?p = "m_thread_page_collection (ts ! i)"
  have th: "thread_ok ?p h (held ts)" using threads_okD(1) [OF ok] i by simp
  have b: "unat sz \<le> 16360" using sz by (simp add: MAX_IN_PAGE_UNIT_SIZE_def word_le_nat_alt)
  then obtain g where g: "eval_group_by_small_unit_size sz = Some g" using eval_group_ranges by blast
  let ?c = "cached_of (ts ! i) ! group_index g"
  have gi: "group_index g < length (m_cached_pages ?p)" and at: "m_attached ?p" using th group_index_max by (simp_all add: thread_ok_def)
  have c: "?c \<noteq> 0 \<Longrightarrow> unit_page h ?c g \<and> ?c \<in> held ts" using th by (auto simp: thread_ok_def cached_of_def)
  note T = orderedD [OF t]
  have "pick_result h (held ts) g ?c (pick_from_pages tgt sys g ?c h)" using T(1,2) c by (intro pick_from_pages_spec) auto
  then obtain a d h' where r: "pick_from_pages tgt sys g ?c h = Some (a, d, h')" "pick_result h (held ts) g ?c (Some (a, d, h'))"
    by (cases "pick_from_pages tgt sys g ?c h") (auto simp: pick_result_def)
  have "loop_ok Q h (held ts) g ?c" using t c by (simp add: loop_ok_def)
  from pick_from_pages_tidy [OF r(1) this lx]
  have L: "ordered Q h' (swap_held (held ts) ?c d)" "only_picked h h'" "d = ?c \<or> d = 0 \<or> d \<notin> held ts" by (auto simp: loop_done_def)
  define ts' where "ts' = ts[i := recache (ts ! i) g d]"
  note H = held_recache [OF ok i L(3), folded ts'_def]
  have run: "pick_unit_in_page tgt sys sz ?p h = Some (a, m_thread_page_collection (recache (ts ! i) g d), h')"
    using at sz g gi r(1) by (simp add: pick_unit_in_page_def rd_in wr_in recache_def cached_of_def)
  have kr: "keeps_runs h h'" using r(2) by (auto simp: pick_result_def keeps_units_def served_def split: if_splits)
  have "units_kept h h'" by (rule units_kept_step [OF t kr L(2) pick_keeps_unit_page [OF r(2)]])
  moreover have "served h g d a h'" if "a \<noteq> 0" using r(2) that by (simp add: pick_result_def)
  then have "a \<noteq> 0 \<longrightarrow> pending_unit h' a \<and> \<not> unit_in h (a - sizeof_UnitHead)" using served_fresh [OF t orderedD(1) [OF L(1)]] by blast
  moreover have ok': "threads_ok h' ts'" using recached_threads_ok [OF ok i L(3) r(2)] by (simp add: ts'_def)
  ultimately have "begun Q h a ts' h'" using L(1) ok' H(1) kr pick_keeps_unit_page [OF r(2)] by (simp add: begun_def)
  moreover have "(ts ! i)\<lparr>m_thread_page_collection := m_thread_page_collection (recache (ts ! i) g d)\<rparr> = recache (ts ! i) g d"
    by (simp add: recache_def)
  ultimately show ?thesis using run unfolding ts'_def by metis
qed

lemma huge_begin:
  fixes s :: "'os alloc_state"
  assumes lx: "lax Q" and t: "ordered Q (al_heap s) (held ts)" and ok: "threads_ok (al_heap s) ts" and big: "MAX_IN_PAGE_UNIT_SIZE < sz" and sz: "unat sz + 32799 < 2 ^ 64"
  shows "\<exists>a s'. woomem_allocate_begin tgt sys sz s = Some (a, s') \<and> al_thread s' = al_thread s \<and> begun Q (al_heap s) a ts (al_heap s')"
proof -
  have "sizeof_PageHead + sizeof_UnitHead + sz = w64 (unat sz + 32)" by (simp add: sizeof_PageHead_def sizeof_UnitHead_def)
  then have R: "unat (sizeof_PageHead + sizeof_UnitHead + sz) = unat sz + 32" using sz by (simp only: unat_w64)
  have R': "0 < unat sz + 32" "unat sz + 32 + 32767 < 2 ^ 64" using sz by simp_all
  note T = orderedD [OF t]
  from T(1) big R R' show ?thesis
  proof (rule allocate_begin_huge [of s "held ts" sz _ tgt sys])
    fix s' assume "woomem_allocate_begin tgt sys sz s = Some (0, s')" "al_heap s' = al_heap s" "al_thread s' = al_thread s"
    then show ?thesis using t ok by (auto simp: begun_def units_kept_def keeps_runs_def)
  next
    fix s' :: "'os alloc_state" and p n
    let ?h = "al_heap s" and ?h' = "al_heap s'" and ?u = "p + sizeof_PageHead"
    assume run: "woomem_allocate_begin tgt sys sz s = Some (?u + sizeof_UnitHead, s')" "al_thread s' = al_thread s"
      and inv: "heap_inv ?h' (held ts)" and kr: "keeps_runs ?h ?h'" and up: "\<And>q g. unit_page ?h q g \<Longrightarrow> unit_page ?h' q g"
      and hp: "huge_page (chunk_of (h_chunk ?h')) (heap_mem ?h') p n" and new: "(p, n) \<notin> runs_of ?h" "runs_of ?h' = insert (p, n) (runs_of ?h)"
      and nf: "m_next_free_unit_offset (unit_at (heap_mem ?h') ?u) = 0" and ch: "m_all_page_list ?h' = p" "m_next_page (page_at (heap_mem ?h') p) = m_all_page_list ?h"
      and lf: "m_life (unit_at (heap_mem ?h') ?u) = PENDING" and al: "alloc_at (heap_mem ?h') = alloc_at (heap_mem ?h)"
      and un: "\<And>v. v \<noteq> ?u \<Longrightarrow> unit_at (heap_mem ?h') v = unit_at (heap_mem ?h) v"
    note ci = heap_invD(1) [OF inv]
    have r: "(p, n) \<in> runs_of ?h'" using new(2) by blast
    note f = chunk_page_facts [OF ci r]
    have ap: "apart q p" "q \<noteq> p" if "(q, k) \<in> runs_of ?h" for q k
    proof -
      have q: "(q, k) \<in> runs_of ?h'" using that new(2) by blast
      show "q \<noteq> p" using chunk_runs_unique [OF ci r] q that new(1) by blast
      then show "apart q p" by (rule chunk_runs_apart [OF ci q r])
    qed
    have op: "only_picked ?h ?h'"
      unfolding only_picked_def
    proof (intro ballI, clarify)
      fix q k x assume q: "(q, k) \<in> runs_of ?h" "unat (x :: addr) \<in> range_bytes (q, 1)"
      have "x \<noteq> ?u" using head_range [OF f(1)] ap(1) [OF q(1)] q(2) unfolding apart_def by blast
      then show "unit_at (heap_mem ?h') x = unit_at (heap_mem ?h) x" by (rule un)
    qed
    have sw: "sweepable_in unpublished ?h' {} p" using hp lf nf unfolding sweepable_in_def by auto
    have "p \<notin> fst ` runs_of ?h" using ap(2) by force
    then have cs: "chain_step ?h ?h'" using f(2) new(2) ch sw unfolding chain_step_def by blast
    have "ordered Q ?h' (held ts)"
    proof (rule tidy_step [OF lx t inv T(2) kr op cs up])
      show "run_out_of ?h q \<noteq> 0 \<and> q \<in> held ts" if "q \<in> held ts" "run_out_of ?h' q \<noteq> 0" for q
        using that by (simp add: run_out_of_def al)
    qed
    moreover have "pending_unit ?h' (?u + sizeof_UnitHead)" using unit_in_huge [OF hp] lf by (simp add: pending_unit_def)
    moreover have "\<not> unit_in ?h ?u"
      using unit_in_page(1) [OF t _ ci _ r head_range [OF f(1)]] new by blast
    ultimately have "begun Q ?h (?u + sizeof_UnitHead) ts ?h'"
      using threads_ok_transfer [OF ok up] units_kept_step [OF t kr op up] kr up by (simp add: begun_def)
    then show ?thesis using run by blast
  qed
qed

lemma allocate_begin_tidy:
  assumes lx: "lax Q" and t: "ordered Q (al_heap s) (held ts)" and ok: "threads_ok (al_heap s) ts" and i: "i < length ts"
    and s: "al_thread s = m_thread_page_collection (ts ! i)" and sz: "unat sz + 32799 < 2 ^ 64"
  shows "\<exists>a s'. woomem_allocate_begin tgt sys sz s = Some (a, s') \<and>
    begun Q (al_heap s) a (ts[i := (ts ! i)\<lparr>m_thread_page_collection := al_thread s'\<rparr>]) (al_heap s')"
proof (cases "sz \<le> MAX_IN_PAGE_UNIT_SIZE")
  case True
  from small_begin [OF lx t ok i True, of tgt sys] obtain a t' h' where
    "pick_unit_in_page tgt sys sz (al_thread s) (al_heap s) = Some (a, t', h')"
    "begun Q (al_heap s) a (ts[i := (ts ! i)\<lparr>m_thread_page_collection := t'\<rparr>]) h'" unfolding s by blast
  then show ?thesis using True by (auto simp: woomem_allocate_begin_def Let_def)
next
  case False
  then have big: "MAX_IN_PAGE_UNIT_SIZE < sz" by simp
  from huge_begin [OF lx t ok big sz, of tgt sys] obtain a s' where
    r: "woomem_allocate_begin tgt sys sz s = Some (a, s')" "al_thread s' = al_thread s" "begun Q (al_heap s) a ts (al_heap s')" by blast
  have "ts[i := (ts ! i)\<lparr>m_thread_page_collection := al_thread s'\<rparr>] = ts" using s r(2) by simp
  with r show ?thesis by auto
qed

section \<open>Publishing and writing\<close>

lemma tidy_same:
  assumes t: "ordered Q h C" and inv: "heap_inv h' C" and c: "runs_of h' = runs_of h" "m_all_page_list h' = m_all_page_list h"
    and m: "page_at (heap_mem h') = page_at (heap_mem h)" "alloc_at (heap_mem h') = alloc_at (heap_mem h)"
    and u: "\<And>q g. unit_page h q g \<Longrightarrow> unit_page h' q g"
    and o: "\<And>a. m_next_free_unit_offset (unit_at (heap_mem h') a) = m_next_free_unit_offset (unit_at (heap_mem h) a)"
    and l: "\<And>a. Q a (m_life (unit_at (heap_mem h) a)) \<Longrightarrow> Q a (m_life (unit_at (heap_mem h') a))"
  shows "ordered Q h' C"
proof -
  note T = orderedD [OF t]
  have ro: "run_out_of h q \<noteq> 0 \<and> q \<in> C" if "q \<in> C" "run_out_of h' q \<noteq> 0" for q using that by (simp add: run_out_of_def m)
  have pl: "page_links (heap_mem h') = page_links (heap_mem h)" by (simp add: fun_eq_iff page_links_def m)
  have "sweepable_in Q h' C q" if q: "(q, n) \<in> runs_of h" for q n
    by (rule sweepable_transfer [OF T(3) [OF q] _ T(1) _ o u ro l]) (simp_all add: c m)
  then show ?thesis using T inv unfolding ordered_def c page_chain_def pl by blast
qed

lemma published_unit:
  fixes round :: u8 and attrib :: u32
  assumes t: "ordered Q h C" and a: "pending_unit h a" and q: "Q (a - sizeof_UnitHead) UNMARKED"
  defines "h' \<equiv> upd_mem (woomem_allocate_end round a attrib) h" and "u \<equiv> a - sizeof_UnitHead"
  shows "ordered Q h' C" "\<And>q g. unit_page h q g \<Longrightarrow> unit_page h' q g" "unit_in h v \<Longrightarrow> unit_in h' v"
    "v \<noteq> u \<Longrightarrow> unit_at (heap_mem h') v = unit_at (heap_mem h) v" "m_life (unit_at (heap_mem h') u) = UNMARKED"
proof -
  let ?f = "\<lambda>u. u\<lparr>m_age := 15, m_timing := round, m_attribute := ucast attrib, m_life := UNMARKED\<rparr>"
  have e: "h' = upd_mem (upd_unit u ?f) h" by (simp add: h'_def u_def woomem_allocate_end_def)
  note T = orderedD [OF t]
  have pend: "unit_in h u" "m_life (unit_at (heap_mem h) u) = PENDING" using a by (simp_all add: pending_unit_def u_def)
  note U = heap_inv_upd_unit [OF T(1), of ?f u, folded e]
  have inv: "heap_inv h' C" using pend(2) by (intro U(1)) simp_all
  show up: "unit_page h' q g" if "unit_page h q g" for q g by (rule conjunct1 [OF U(2)]) (use that pend(2) in simp_all)
  have m: "page_at (heap_mem h') = page_at (heap_mem h)" "alloc_at (heap_mem h') = alloc_at (heap_mem h)"
      "unit_at (heap_mem h') = (unit_at (heap_mem h))(u := ?f (unit_at (heap_mem h) u))"
    by (simp_all add: e upd_unit_def)
  show "ordered Q h' C" by (rule tidy_same [OF t inv _ _ m(1,2) up]) (use q in \<open>simp_all add: e u_def upd_unit_def\<close>)
  show "v \<noteq> u \<Longrightarrow> unit_at (heap_mem h') v = unit_at (heap_mem h) v" "m_life (unit_at (heap_mem h') u) = UNMARKED" by (simp_all add: m)
  show "unit_in h' v" if "unit_in h v"
    using t that
  proof (cases rule: unit_inD)
    case (cut p g off)
    then show ?thesis using unit_in_cut [OF up [OF cut(1)] cut(4)] by (simp add: m)
  next
    case (huge p n)
    then show ?thesis using unit_in_huge [of h' p n] by (simp add: huge_page_def m e)
  qed
qed

lemma written_units:
  defines "upd \<equiv> \<lambda>w h. upd_mem (\<lambda>m. m\<lparr>word_at := w\<rparr>) h"
  shows "ordered Q h C \<Longrightarrow> ordered Q (upd w h) C" "unit_in (upd w h) u = unit_in h u" "threads_ok (upd w h) ts = threads_ok h ts"
    "unit_at (heap_mem (upd w h)) = unit_at (heap_mem h)"
proof -
  note U = upd_words [where w = w and h = h, folded upd_def]
  show un: "unit_at (heap_mem (upd w h)) = unit_at (heap_mem h)" by (simp add: upd_def)
  show "ordered Q (upd w h) C" if t: "ordered Q h C"
    by (rule tidy_same [OF t]) (use orderedD(1) [OF t] U in \<open>simp_all add: upd_def\<close>)
  have "unit_of_page (heap_mem (upd w h)) p u = unit_of_page (heap_mem h) p u" for p
    by (simp add: unit_of_page_def page_is_cut_def page_live_def page_group_def live_units_def unit_life_of_def upd_def)
  then show "unit_in (upd w h) u = unit_in h u" by (simp add: unit_in_def upd_def)
  show "threads_ok (upd w h) ts = threads_ok h ts" by (simp add: threads_ok_def upd_def upd_words(3))
qed

section \<open>A collection\<close>

text \<open>Null or the address of a unit in use: what the precise marking functions may be called with.\<close>

definition calls_valid :: "chunk \<Rightarrow> mem \<Rightarrow> mark_call list \<Rightarrow> bool" where
  "calls_valid c m xs \<longleftrightarrow> (\<forall>p. Mark_unit_head p \<in> set xs \<longrightarrow> p = 0 \<or> woomem_validate_addr p c m = Some p)"

lemma tidy_formatted: "ordered Q h C \<Longrightarrow> formatted (chunk_of (h_chunk h)) (heap_mem h)"
  unfolding formatted_def
proof (intro ballI, clarify)
  fix p n assume t: "ordered Q h C" and p: "(p, n) \<in> runs_of h" "\<not> huge_page (chunk_of (h_chunk h)) (heap_mem h) p n"
  note ci = heap_invD(1) [OF orderedD(1) [OF t]]
  consider g where "unit_page h p g" | k where "huge_page (chunk_of (h_chunk h)) (heap_mem h) p k"
    using orderedD(3) [OF t p(1)] unfolding sweepable_in_def by blast
  then show "n = 1 \<and> (\<exists>g. cut_page (chunk_of (h_chunk h)) (heap_mem h) p g)"
  proof cases
    case 1
    then have "(p, 1) \<in> runs_of h" by (simp add: unit_page_def)
    then show ?thesis using unit_page_cut [OF 1] chunk_runs_unique [OF ci p(1)] by blast
  next
    case 2
    then have "(p, k) \<in> runs_of h" by (simp add: huge_page_def)
    then have "k = n" using chunk_runs_unique [OF ci p(1)] by blast
    with 2 p(2) show ?thesis by blast
  qed
qed

lemma validated_unit:
  assumes t: "ordered Q h C" and v: "woomem_validate_addr a (chunk_of (h_chunk h)) (heap_mem h) = Some p" "p \<noteq> 0"
  shows "unit_in h (p - sizeof_UnitHead)"
proof -
  note ci = heap_invD(1) [OF orderedD(1) [OF t]]
  obtain u where u: "in_unit (chunk_of (h_chunk h)) (heap_mem h) u a" using validate_addr_miss [OF ci tidy_formatted [OF t], of a] v by auto
  then have p: "p = u + sizeof_UnitHead" "PENDING < m_life (unit_at (heap_mem h) u)"
    using validate_addr_hit(1) [OF ci u] v by (auto split: if_splits)
  from ci u show ?thesis
  proof (cases rule: in_unit_run)
    case (cut q g off)
    have "\<not> huge_page (chunk_of (h_chunk h)) (heap_mem h) q k" for k using cut(1) by (simp add: cut_page_def huge_page_def)
    then obtain g' where g': "unit_page h q g'" using orderedD(3) [OF t cut(5)] unfolding sweepable_in_def by blast
    have "g' = g" using unit_page_cut [OF g'] cut(1) group_size_16 group_size_inj unfolding cut_page_def by metis
    moreover have "m_life (unit_at (heap_mem h) (unit_addr q off)) \<noteq> RELEASED" using p(2) cut(3) by (auto simp: less_unit_life_def)
    ultimately show ?thesis using unit_in_cut [OF g', of off] cut(2,3) p(1) by simp
  next
    case (huge q n)
    then show ?thesis using unit_in_huge p(1) by simp
  qed
qed

lemma unit_in_size:
  assumes t: "ordered Q h C" and u: "unit_in h u"
  shows "get_unit_available_size u (heap_mem h) \<noteq> None" "u + sizeof_UnitHead \<noteq> 0"
proof -
  have "get_unit_available_size u (heap_mem h) \<noteq> None \<and> u + sizeof_UnitHead \<noteq> 0"
    using t u
  proof (cases rule: unit_inD)
    case (cut p g off)
    obtain fs bs where L: "unit_lists (heap_mem h) p g {} fs bs" using cut(1) by (auto simp: unit_page_def page_inv_def)
    have "unit_link (heap_mem h) p off = off" using unit_lists_sets(6,7) [OF L cut(4)] cut(5,6) by (simp add: unit_life_of_def)
    moreover have "off \<noteq> 0" using cut(4) unit_offsets_nonzero by metis
    ultimately show ?thesis using cut(5) unit_payload_nonzero [OF cut(3,4)] by (simp add: get_unit_available_size_def unit_link_def)
  next
    case (huge p n)
    have "unat (u + sizeof_UnitHead) = unat p + 32" using storage_begin [OF huge(3)] by (simp add: huge(4) sizeof_defs)
    then have "u + sizeof_UnitHead \<noteq> 0" by (metis add_is_0 unsigned_0 zero_neq_numeral)
    with huge show ?thesis by (simp add: get_unit_available_size_def huge_page_def Let_def)
  qed
  then show "get_unit_available_size u (heap_mem h) \<noteq> None" "u + sizeof_UnitHead \<noteq> 0" by blast+
qed

lemma unit_in_scannable: "ordered Q h C \<Longrightarrow> unit_in h u \<Longrightarrow> scannable (heap_mem h) u"
  unfolding scannable_def using unit_in_size(1) by blast

lemma called_units:
  assumes t: "ordered Q h C" and v: "calls_valid (chunk_of (h_chunk h)) (heap_mem h) xs" and u: "u \<in> set (call_units (chunk_of (h_chunk h)) (heap_mem h) xs)"
  shows "unit_in h u"
proof -
  let ?c = "chunk_of (h_chunk h)" and ?m = "heap_mem h"
  note ci = heap_invD(1) [OF orderedD(1) [OF t]]
  obtain x p where x: "x \<in> set xs" "p = the (call_target ?c ?m x)" "p \<noteq> 0" "u = p - sizeof_UnitHead" using u by (auto simp: call_units_def)
  obtain q where "call_target ?c ?m x = Some q" using call_target_total [OF ci] by blast
  then have p: "call_target ?c ?m x = Some p" using x(2) by simp
  have "\<exists>a. woomem_validate_addr a ?c ?m = Some p"
    using p x(1,3) v by (cases x) (auto simp: calls_valid_def woomem_validate_addr_head_def split: if_splits)
  then show ?thesis using validated_unit [OF t _ x(3)] x(4) by blast
qed

lemma reachable_units:
  fixes cb :: "addr \<Rightarrow> mark_call list"
  assumes t: "ordered Q h C" and r: "\<forall>u \<in> set us. unit_in h u" and val: "\<forall>x. calls_valid (chunk_of (h_chunk h)) (heap_mem h) (cb x)"
    and u: "u \<in> gc_reachable (chunk_of (h_chunk h)) cb (heap_mem h) us"
  shows "unit_in h u"
  using u unfolding gc_reachable_def
proof (induction rule: reached_induct)
  case (start u)
  then show ?case using r by blast
next
  case (step u v)
  have "calls_valid (chunk_of (h_chunk h)) (heap_mem h) (unit_calls (heap_mem h) cb u)"
    using val by (auto simp: calls_valid_def unit_calls_def)
  then show ?case using called_units [OF t] step by (simp add: unit_targets_def)
qed

text \<open>The units in use after a collection are exactly those that were reachable or exempt.\<close>

lemma collected_units:
  assumes c: "collected round ps C (upd_mem (\<lambda>_. blackened R (heap_mem h)) h) h'" and ps: "set ps = fst ` runs_of h"
    and R: "\<And>u. u \<in> R \<Longrightarrow> lives (heap_mem h) u = UNMARKED"
  shows "unit_in h' u \<longleftrightarrow> unit_in h u \<and> (u \<in> R \<or> kept round (unit_at (heap_mem h) u))"
    "unit_in h' u \<Longrightarrow> unit_at (heap_mem h') u = aged (unit_at (heap_mem h) u)"
proof -
  define m m1 m' where ms: "m = heap_mem h" "m1 = blackened R m" "m' = heap_mem h'"
  have R': "lives m u = UNMARKED" if "u \<in> R" for u using R [OF that] by (simp add: ms)
  note B = blackened_reads [of R m, folded ms(2), OF R']
  have runs: "(p, n) \<in> runs_of h' \<longleftrightarrow> (p, n) \<in> runs_of h \<and> \<not> dropped round m1 p" for p n
  proof -
    have "runs_of h' = {r \<in> runs_of h. \<not> (fst r \<in> set ps \<and> dropped round m1 (fst r))}" using c by (simp add: collected_def Let_def ms)
    moreover have "(p, n) \<in> runs_of h \<Longrightarrow> p \<in> set ps" unfolding ps by force
    ultimately show ?thesis by auto
  qed
  have stay: "content_kept round m1 p m'" "page_is_cut m' p = page_is_cut m p" if "(p, n) \<in> runs_of h'" for p n
  proof -
    have "p \<in> set ps" "\<not> dropped round m1 p" using that unfolding runs ps by (auto intro: rev_image_eqI)
    then show "content_kept round m1 p m'" "page_is_cut m' p = page_is_cut m p" using c B(3) by (auto simp: collected_def Let_def ms)
  qed
  have kept1: "off \<in> page_kept round m1 p \<longleftrightarrow> off \<in> page_live m p \<and> (unit_addr p off \<in> R \<or> kept round (unit_at m (unit_addr p off)))" for p off
    using B(2,5) by (auto simp: page_kept_def kept_units_def page_live_def)
  have to: "unit_of_page m p u \<and> (u \<in> R \<or> kept round (unit_at m u)) \<and> unit_at m' u = aged (unit_at m u)"
    if p: "(p, n) \<in> runs_of h'" "unit_of_page m' p u" for p n
  proof (cases "page_is_cut m p")
    case True
    then obtain off where off: "off \<in> page_live m' p" "u = unit_addr p off" using p stay(2) by (auto simp: unit_of_page_def)
    have "page_live m' p = page_kept round m1 p" "\<forall>off \<in> page_kept round m1 p. unit_at m' (unit_addr p off) = aged (unit_at m1 (unit_addr p off))"
      using stay(1) [OF p(1)] True B(3) by (simp_all add: content_kept_def)
    then show ?thesis using off True kept1 B(1) by (auto simp: unit_of_page_def)
  next
    case False
    then have u: "u = p + sizeof_PageHead" using p stay(2) by (auto simp: unit_of_page_def)
    have "kept round (unit_at m1 u)" using p(1) False B(3) unfolding runs by (simp add: dropped_def u)
    then show ?thesis using stay(1) [OF p(1)] False B(1-3) u by (simp add: content_kept_def unit_of_page_def)
  qed
  have "\<exists>n. (p, n) \<in> runs_of h' \<and> unit_of_page m' p u"
    if p: "(p, n) \<in> runs_of h" "unit_of_page m p u" "u \<in> R \<or> kept round (unit_at m u)" for p n
  proof -
    have nd: "\<not> dropped round m1 p" using p(2,3) B(2,3) kept1 by (auto simp: dropped_def unit_of_page_def split: if_splits)
    then have r: "(p, n) \<in> runs_of h'" using p(1) unfolding runs by blast
    have "unit_of_page m' p u"
      using stay [OF r] p(2,3) kept1 B(3) by (auto simp: unit_of_page_def content_kept_def split: if_splits)
    with r show ?thesis by blast
  qed
  then show "unit_in h' u \<longleftrightarrow> unit_in h u \<and> (u \<in> R \<or> kept round (unit_at (heap_mem h) u))"
    using to runs unfolding unit_in_def ms by blast
  show "unit_in h' u \<Longrightarrow> unit_at (heap_mem h') u = aged (unit_at (heap_mem h) u)" using to unfolding unit_in_def ms by blast
qed

lemma run_count:
  assumes t: "ordered Q h C" and ps: "distinct ps" "set ps = fst ` runs_of h"
  shows "length ps + 1 < 2 ^ 64"
proof -
  let ?c = "chunk_of (h_chunk h)"
  note ci = heap_invD(1) [OF orderedD(1) [OF t]]
  have b: "unat (ch_base ?c) + bsizes (blocks_of ?c) * 32768 < 2 ^ 64" using ci by (simp add: chunk_inv_def)
  have "unat p \<in> (\<lambda>s. unat (ch_base ?c) + s * 32768) ` {..<bsizes (blocks_of ?c)}" if p: "p \<in> set ps" for p
  proof -
    obtain n where "(p, n) \<in> runs_of h" using p unfolding ps(2) by auto
    from chunk_rangesE [OF ci this] show ?thesis by (metis (no_types, lifting) add_lessD1 imageI lessThan_iff less_add_same_cancel1 order_less_le_trans)
  qed
  then have "unat ` set ps \<subseteq> (\<lambda>s. unat (ch_base ?c) + s * 32768) ` {..<bsizes (blocks_of ?c)}" by blast
  then have "card (unat ` set ps) \<le> card ((\<lambda>s. unat (ch_base ?c) + s * 32768) ` {..<bsizes (blocks_of ?c)})" by (intro card_mono) simp_all
  also have "\<dots> \<le> bsizes (blocks_of ?c)" using card_image_le [of "{..<bsizes (blocks_of ?c)}"] by simp
  finally have "card (unat ` set ps) \<le> bsizes (blocks_of ?c)" .
  moreover have "card (unat ` set ps) = length ps" using distinct_card [OF ps(1)] by (subst card_image) (auto intro!: inj_onI simp: word_unat_eq_iff)
  ultimately have "length ps \<le> bsizes (blocks_of ?c)" by simp
  with b show ?thesis by simp
qed

text \<open>A sweep of the whole chain after the units of \<open>R\<close> have been blackened: the heap is tidy again.\<close>

lemma collected_tidy:
  assumes t: "tidy h C" and ps: "page_chain (heap_mem h) (m_all_page_list h) ps" "set ps = fst ` runs_of h"
    and c: "collected round ps C (upd_mem (\<lambda>_. blackened R (heap_mem h)) h) h'"
    and un: "\<And>u. u \<in> R \<Longrightarrow> lives (heap_mem h) u = UNMARKED"
  shows "tidy h' C" "word_at (heap_mem h') = word_at (heap_mem h)" "q \<in> C \<Longrightarrow> unit_page h q g \<Longrightarrow> unit_page h' q g"
    "unit_in h' u \<longleftrightarrow> unit_in h u \<and> (u \<in> R \<or> kept round (unit_at (heap_mem h) u))"
    "unit_in h' u \<Longrightarrow> unit_at (heap_mem h') u = aged (unit_at (heap_mem h) u)"
proof -
  note T = orderedD [OF t]
  have U: "unit_in h' u \<longleftrightarrow> unit_in h u \<and> (u \<in> R \<or> kept round (unit_at (heap_mem h) u))"
      "unit_in h' u \<Longrightarrow> unit_at (heap_mem h') u = aged (unit_at (heap_mem h) u)" for u
    using collected_units [OF c ps(2) un] by blast+
  define m1 where "m1 = blackened R (heap_mem h)"
  have K: "heap_inv h' C" "word_at (heap_mem h') = word_at (heap_mem h)"
      "runs_of h' = {x \<in> runs_of h. \<not> (fst x \<in> set ps \<and> dropped round m1 (fst x))}"
      "page_chain (heap_mem h') (m_all_page_list h') (rev (filter (\<lambda>p. \<not> dropped round m1 p) ps))"
      "\<And>p. p \<in> set ps \<Longrightarrow> \<not> dropped round m1 p \<Longrightarrow> sweepable h' C p"
      "\<And>p g. p \<in> set ps \<Longrightarrow> \<not> dropped round m1 p \<Longrightarrow> unit_page (upd_mem (\<lambda>_. m1) h) p g \<Longrightarrow> unit_page h' p g"
    using c by (auto simp: collected_def Let_def m1_def blackened_def)
  have rel: "(if u \<in> R then FULL_MARKED else lives (heap_mem h) u) = RELEASED \<longleftrightarrow> lives (heap_mem h) u = RELEASED" for u
    using un [of u] by auto
  show "unit_page h' q g" if q: "q \<in> C" "unit_page h q g"
  proof -
    have "unit_page (upd_mem (\<lambda>_. m1) h) q g" using q(2) heap_lives(1) [OF rel] by (simp add: m1_def blackened_def)
    moreover have "(q, 1) \<in> runs_of h'" using heap_invD(5) [OF K(1) q(1)] by (auto simp: unit_page_def)
    then have "q \<in> set ps" "\<not> dropped round m1 q" using ps(2) unfolding K(3) by (auto intro: rev_image_eqI)
    ultimately show ?thesis using K(6) by blast
  qed
  show "tidy h' C"
    unfolding ordered_def
  proof (intro conjI)
    show "\<forall>(q, n) \<in> runs_of h'. sweepable_in ungray h' C q"
    proof (intro ballI, clarify)
      fix q n assume q': "(q, n) \<in> runs_of h'"
      then have q: "(q, n) \<in> runs_of h" "\<not> (q \<in> set ps \<and> dropped round m1 q)" unfolding K(3) by auto
      then have ps': "q \<in> set ps" unfolding ps(2) by (auto intro: rev_image_eqI)
      have "m_next_free_unit_offset (unit_at (heap_mem h') (q + sizeof_PageHead)) = 0" if "m_page_count_if_huge (page_at (heap_mem h') q) \<noteq> 0"
      proof -
        have "unit_in h' (q + sizeof_PageHead)" using q' that unfolding unit_in_def unit_of_page_def page_is_cut_def by auto
        from U(2) [OF this] have "m_next_free_unit_offset (unit_at (heap_mem h') (q + sizeof_PageHead)) =
            m_next_free_unit_offset (unit_at (heap_mem h) (q + sizeof_PageHead))" by (simp add: aged_def)
        moreover have "page_is_cut (heap_mem h') q = page_is_cut (heap_mem h) q" using c ps' q(2) by (simp add: collected_def Let_def m1_def blackened_def page_is_cut_def)
        then have "m_page_count_if_huge (page_at (heap_mem h) q) \<noteq> 0" using that by (simp add: page_is_cut_def)
        ultimately show ?thesis using T(3) [OF q(1)] unfolding sweepable_ungray by simp
      qed
      then show "sweepable_in ungray h' C q" using K(5) ps' q(2) unfolding sweepable_ungray by blast
    qed
    have "set (rev (filter (\<lambda>p. \<not> dropped round m1 p) ps)) = fst ` runs_of h'" unfolding K(3) by (auto simp: ps(2))
    with K(4) show "\<exists>ps. page_chain (heap_mem h') (m_all_page_list h') ps \<and> set ps = fst ` runs_of h'" by blast
  qed (use K(1) T(2) in simp_all)
  show "word_at (heap_mem h') = word_at (heap_mem h)" by (rule K(2))
  show "unit_in h' u \<longleftrightarrow> unit_in h u \<and> (u \<in> R \<or> kept round (unit_at (heap_mem h) u))" by (rule U(1))
  show "unit_in h' u \<Longrightarrow> unit_at (heap_mem h') u = aged (unit_at (heap_mem h) u)" by (rule U(2))
qed

text \<open>A page from which no unit survives, seen before and after marking.\<close>

lemma blackened_loses:
  assumes t: "tidy h C" and un: "\<And>u. u \<in> R \<Longrightarrow> lives (heap_mem h) u = UNMARKED"
    and l: "in_pool h q \<and> (\<forall>u. unit_of_page (heap_mem h) q u \<longrightarrow> \<not> (unit_in h u \<and> (u \<in> R \<or> kept round (unit_at (heap_mem h) u)))) \<or> leaked h C q"
  defines "h1 \<equiv> upd_mem (\<lambda>_. blackened R (heap_mem h)) h"
  shows "q \<in> fst ` runs_of h" "in_pool h1 q \<and> page_kept round (heap_mem h1) q = {} \<or> leaked h1 C q"
proof -
  note T = orderedD [OF t] and B = blackened_reads [of R "heap_mem h", OF un]
  obtain g where g: "unit_page h q g" using l in_pool_page(1) [OF T(1), of q] unfolding leaked_def by blast
  then have q: "(q, 1) \<in> runs_of h" "page_is_cut (heap_mem h) q" by (simp_all add: unit_page_def page_is_cut_def)
  then show "q \<in> fst ` runs_of h" by force
  have rel: "(if v \<in> R then FULL_MARKED else lives (heap_mem h) v) = RELEASED \<longleftrightarrow> lives (heap_mem h) v = RELEASED" for v
    using un [of v] by auto
  have up: "unit_page h1 p g = unit_page h p g" for p g unfolding h1_def blackened_def by (rule heap_lives(1)) (rule rel)
  have "unit_in h u" if "unit_of_page (heap_mem h) q u" for u using that q(1) by (auto simp: unit_in_def)
  moreover have "unit_of_page (heap_mem h) q (unit_addr q off)" if "off \<in> page_live (heap_mem h) q" for off
    using that q(2) by (auto simp: unit_of_page_def)
  ultimately have "page_kept round (heap_mem h1) q = {}"
    if "\<forall>u. unit_of_page (heap_mem h) q u \<longrightarrow> \<not> (unit_in h u \<and> (u \<in> R \<or> kept round (unit_at (heap_mem h) u)))"
    using that B by (auto simp: h1_def page_kept_def kept_units_def page_live_def)
  moreover have "page_run_out (heap_mem h1) q = page_run_out (heap_mem h) q" by (simp add: h1_def page_run_out_def blackened_def)
  ultimately show "in_pool h1 q \<and> page_kept round (heap_mem h1) q = {} \<or> leaked h1 C q"
    using l up B(5) by (auto simp: in_pool_def leaked_def h1_def)
qed

lemma chain_empty:
  assumes "ordered Q h C"
  shows "m_all_page_list h = 0 \<longleftrightarrow> runs_of h = {}"
proof -
  obtain ps where "page_chain (heap_mem h) (m_all_page_list h) ps" "set ps = fst ` runs_of h" using orderedD(4) [OF assms] by blast
  then show ?thesis by (cases ps) (auto simp: page_chain_def)
qed

lemma cycle_tidy:
  fixes begin_calls :: "mark_call list" and cb :: "addr \<Rightarrow> mark_call list" and s :: "'os alloc_state" and g :: gc
  defines "h \<equiv> al_heap s"
  defines "c \<equiv> chunk_of (h_chunk h)"
  defines "R \<equiv> gc_reachable c cb (heap_mem h) (root_units c (heap_mem h) begin_calls g)"
  assumes t: "tidy h C" and fresh: "sweep_lists_fresh g h" and g: "gc_idle k g"
    and roots: "\<forall>u \<in> set (m_root_gc_unit_set g). unit_in h u"
    and v: "calls_valid c (heap_mem h) begin_calls" "\<forall>x. calls_valid c (heap_mem h) (cb x)"
  shows "\<exists>g' s' fr. gc_cycle k cb begin_calls (g, s) = Some (g', s', fr) \<and> tidy (al_heap s') C \<and> gc_idle k g' \<and>
    m_root_gc_unit_set g' = m_root_gc_unit_set g \<and> word_at (heap_mem (al_heap s')) = word_at (heap_mem h) \<and>
    (\<forall>q \<in> C. \<forall>g. unit_page h q g \<longrightarrow> unit_page (al_heap s') q g) \<and>
    (\<forall>u. unit_in (al_heap s') u \<longleftrightarrow> unit_in h u \<and> (u \<in> R \<or> kept (woomem_gc_marking_round_counter g + 1) (unit_at (heap_mem h) u))) \<and>
    (\<forall>u. unit_in (al_heap s') u \<longrightarrow> unit_at (heap_mem (al_heap s')) u = aged (unit_at (heap_mem h) u)) \<and>
    (\<forall>q. in_pool h q \<and> (\<forall>u. unit_of_page (heap_mem h) q u \<longrightarrow> \<not> unit_in (al_heap s') u) \<or> leaked h C q \<longrightarrow> leaked (al_heap s') C q)"
proof -
  let ?round = "woomem_gc_marking_round_counter g + 1"
  note T = orderedD [OF t]
  obtain ps where ps: "page_chain (heap_mem h) (m_all_page_list h) ps" "set ps = fst ` runs_of h" using T(4) by blast
  have n: "length ps + 1 < 2 ^ 64" using run_count [OF t _ ps(2)] chain_distinct ps(1) unfolding page_chain_def by blast
  have sw: "\<forall>p \<in> set ps. sweepable h C p" using T(3) unfolding ps(2) sweepable_ungray by auto
  have ru: "\<forall>u \<in> set (root_units c (heap_mem h) begin_calls g). unit_in h u"
    using called_units [OF t] v(1) roots by (auto simp: root_units_def c_def)
  have sc: "\<forall>u \<in> R. scannable (heap_mem h) u"
    using reachable_units [OF t ru] v(2) unit_in_scannable [OF t] unfolding R_def c_def by blast
  from gc_cycle_spec [of s C ps g k cb begin_calls, folded h_def, folded c_def, folded R_def] T(1) ps(1) fresh n sw g sc
  obtain g' s' fr where r: "gc_cycle k cb begin_calls (g, s) = Some (g', s', fr)"
      "collected ?round ps C (upd_mem (\<lambda>_. blackened R (heap_mem h)) h) (al_heap s')"
      "gc_idle k g'" "m_root_gc_unit_set g' = m_root_gc_unit_set g"
      "\<forall>q \<in> set ps. in_pool (upd_mem (\<lambda>_. blackened R (heap_mem h)) h) q \<and>
          page_kept ?round (heap_mem (upd_mem (\<lambda>_. blackened R (heap_mem h)) h)) q = {} \<or>
        leaked (upd_mem (\<lambda>_. blackened R (heap_mem h)) h) C q \<longrightarrow> leaked (al_heap s') C q" by blast
  have un: "lives (heap_mem h) u = UNMARKED" if "u \<in> R" for u using that gc_reachable_unmarked unfolding R_def by blast
  note D = collected_tidy [OF t ps r(2), OF un]
  have lost: "leaked (al_heap s') C q"
    if "in_pool h q \<and> (\<forall>u. unit_of_page (heap_mem h) q u \<longrightarrow> \<not> unit_in (al_heap s') u) \<or> leaked h C q" for q
  proof -
    from that have l: "in_pool h q \<and> (\<forall>u. unit_of_page (heap_mem h) q u \<longrightarrow>
        \<not> (unit_in h u \<and> (u \<in> R \<or> kept ?round (unit_at (heap_mem h) u)))) \<or> leaked h C q" using D(4) by simp
    note B = blackened_loses [OF t un l]
    show ?thesis by (rule r(5) [rule_format, unfolded ps(2), OF B])
  qed
  show ?thesis using r(1,3,4) D lost by (intro exI [of _ g'] exI [of _ s'] exI [of _ fr]) blast
qed

section \<open>Threads that come and go\<close>

lemma distinct_filter_nth:
  assumes "\<And>a b. a < length xs \<Longrightarrow> b < length xs \<Longrightarrow> xs ! a = xs ! b \<Longrightarrow> P (xs ! a) \<Longrightarrow> a = b"
  shows "distinct (filter P xs)"
  using assms
proof (induction xs)
  case (Cons x xs)
  have "distinct (filter P xs)" using Cons.prems [of "Suc _" "Suc _"] by (intro Cons.IH) auto
  moreover have "x \<notin> set xs" if "P x" using Cons.prems [of 0 "Suc _"] that by (fastforce simp: in_set_conv_nth)
  ultimately show ?case by auto
qed simp

lemma unit_page_chunk: "h_chunk h' = h_chunk h \<Longrightarrow> unit_page h' p g = unit_page h p g"
  by (simp add: unit_page_def heap_mem_def)

lemma return_page_tidy:
  assumes t: "ordered Q h C" and p: "unit_page h p g" "p \<in> C"
  shows "\<exists>h'. return_page p g h = Some h' \<and> ordered Q h' (C - {p}) \<and> h_chunk h' = h_chunk h"
proof -
  note T = orderedD [OF t] and H = heap_invD [OF orderedD(1) [OF t]]
  define fp where "fp = (m_free_pages h)[group_index g := p # m_free_pages h ! group_index g]"
  define h' where "h' = h\<lparr>m_free_pages := fp\<rparr>"
  have gi: "group_index g < length (m_free_pages h)" using H(2) group_index_max by simp
  have run: "return_page p g h = Some h'" using gi by (simp add: return_page_def rd_in wr_in return_free_page_def h'_def fp_def)
  have same: "h_chunk h' = h_chunk h" "m_all_page_list h' = m_all_page_list h" "heap_mem h' = heap_mem h" by (simp_all add: h'_def)
  have up: "unit_page h' q g' = unit_page h q g'" "run_out_of h' q = run_out_of h q" for q g' by (simp_all add: unit_page_chunk [OF same(1)] run_out_of_def same(3))
  have "(p, 1) \<in> runs_of h" using p(1) by (simp add: unit_page_def)
  then have ro: "run_out_of h p = 0" using T(3) [of p 1] p by (auto simp: sweepable_in_def huge_page_def unit_page_def)
  have pool: "m_free_pages h' ! group_index g' = (if g' = g then p # m_free_pages h ! group_index g else m_free_pages h ! group_index g')" for g'
    using gi by (simp add: h'_def fp_def)
  have "heap_inv h' (C - {p})"
    unfolding heap_inv_def up
  proof (intro conjI allI ballI impI)
    fix g' x assume x: "x \<in> set (m_free_pages h' ! group_index g')" "x \<noteq> 0"
    have "x = p \<and> g' = g \<or> x \<in> set (m_free_pages h ! group_index g')" using x(1) unfolding pool by (auto split: if_splits)
    then show "unit_page h x g'" "run_out_of h x = 0" "x \<notin> C - {p}" using H(3) [of x g'] x(2) p(1) ro by auto
  next
    fix g' show "distinct (filter (\<lambda>p. p \<noteq> 0) (m_free_pages h' ! group_index g'))"
      using H(4) [of g'] H(3) [of p g] p(2) unfolding pool by auto
  qed (use H in \<open>auto simp: h'_def fp_def\<close>)
  moreover have "sweepable_in Q h' (C - {p}) q" if "(q, n) \<in> runs_of h" for q n
    using T(3) [OF that] unfolding sweepable_in_def up same by blast
  ultimately have "ordered Q h' (C - {p})" using T(2,4) unfolding ordered_def same by blast
  then show ?thesis using run same(1) by blast
qed

lemma return_cached_tidy:
  assumes "ordered Q h C" "\<forall>(p, g) \<in> set xs. p \<noteq> 0 \<longrightarrow> unit_page h p g \<and> p \<in> C" "distinct (filter (\<lambda>p. p \<noteq> 0) (map fst xs))"
  shows "\<exists>h'. return_cached xs h = Some h' \<and> ordered Q h' (C - set (map fst xs)) \<and> h_chunk h' = h_chunk h"
  using assms
proof (induction xs arbitrary: h C)
  case (Cons x xs)
  obtain p g where x: "x = (p, g)" by force
  show ?case
  proof (cases "p = 0")
    case True
    then have "C - set (map fst (x # xs)) = C - set (map fst xs)" using orderedD(2) [OF Cons.prems(1)] by (auto simp: x)
    then show ?thesis using Cons.IH [OF Cons.prems(1)] Cons.prems(2,3) True by (simp add: x)
  next
    case False
    then obtain h1 where h1: "return_page p g h = Some h1" "ordered Q h1 (C - {p})" "h_chunk h1 = h_chunk h"
      using return_page_tidy [OF Cons.prems(1), of p g] Cons.prems(2) by (auto simp: x)
    have "\<forall>(q, g) \<in> set xs. q \<noteq> 0 \<longrightarrow> unit_page h1 q g \<and> q \<in> C - {p}"
    proof (intro ballI, clarify, intro conjI)
      fix q g' assume q: "(q, g') \<in> set xs" "q \<noteq> 0"
      then have "q \<in> set (map fst xs)" by (auto intro: rev_image_eqI)
      then have "q \<noteq> p" using Cons.prems(3) False by (auto simp: x)
      then show "unit_page h1 q g'" "q \<in> C - {p}" using Cons.prems(2) q by (auto simp: unit_page_chunk [OF h1(3)])
    qed
    from Cons.IH [OF h1(2) this] Cons.prems(3) False obtain h2 where
      "return_cached xs h1 = Some h2" "ordered Q h2 (C - {p} - set (map fst xs))" "h_chunk h2 = h_chunk h1" by (auto simp: x)
    moreover have "C - {p} - set (map fst xs) = C - set (map fst (x # xs))" by (auto simp: x)
    ultimately show ?thesis using h1 False by (auto simp: x)
  qed
qed auto

lemma threads_without:
  assumes ok: "threads_ok h ts" and i: "i < length ts"
  defines "ts' \<equiv> take i ts @ drop (Suc i) ts"
  shows "held ts' = held ts - set (cached_of (ts ! i))" "threads_ok h ts'"
proof -
  let ?xs = "cached_of (ts ! i)"
  define f where "f k = (if k < i then k else Suc k)" for k
  have nth: "ts' ! k = ts ! f k" "f k < length ts" "f k \<noteq> i" if "k < length ts'" for k
    using that i by (auto simp: ts'_def f_def nth_append)
  have finj: "f k \<noteq> f j" if "k \<noteq> j" for k j using that by (auto simp: f_def split: if_splits)
  have sets: "set ts = insert (ts ! i) (set ts')"
    unfolding ts'_def using id_take_nth_drop [OF i] by (metis Un_insert_right list.simps(15) set_append)
  have apart: "p = 0" if tt: "t \<in> set ts'" and p: "p \<in> set (cached_of t)" "p \<in> set ?xs" for t p
  proof -
    obtain k where "k < length ts'" "t = ts' ! k" using tt by (auto simp: in_set_conv_nth)
    then show ?thesis using nth threads_okD(2) [OF ok _ i] p by metis
  qed
  show held: "held ts' = held ts - set ?xs"
    using apart unfolding held_def sets by auto
  show "threads_ok h ts'"
    unfolding threads_ok_def
  proof (intro conjI ballI allI impI)
    fix t assume tt: "t \<in> set ts'"
    have o: "thread_ok (m_thread_page_collection t) h (held ts)" using threads_okD(1) [OF ok] sets tt by blast
    have "q \<in> held ts'" if "q = m_cached_pages (m_thread_page_collection t) ! group_index g" "q \<noteq> 0" for q g
    proof -
      have "q \<in> set (cached_of t)" using o that(1) group_index_max by (simp add: thread_ok_def cached_of_def)
      then show ?thesis using tt that(2) by (auto simp: held_def)
    qed
    then show "thread_ok (m_thread_page_collection t) h (held ts')" using o by (auto simp: thread_ok_def)
  next
    fix k j assume kj: "k < length ts'" "j < length ts'" "k \<noteq> j"
    then show "set (cached_of (ts' ! k)) \<inter> set (cached_of (ts' ! j)) \<subseteq> {0}"
      using nth [OF kj(1)] nth [OF kj(2)] finj [OF kj(3)] threads_okD(2) [OF ok] by auto
  qed
qed

lemma thread_exit_tidy:
  assumes t: "ordered Q h (held ts)" and ok: "threads_ok h ts" and i: "i < length ts"
  defines "ts' \<equiv> take i ts @ drop (Suc i) ts"
  shows "\<exists>p h'. shutdown_manually (m_thread_page_collection (ts ! i)) h = Some (p, h') \<and> ordered Q h' (held ts') \<and> threads_ok h' ts' \<and>
    h_chunk h' = h_chunk h"
proof -
  let ?xs = "cached_of (ts ! i)" and ?p = "m_thread_page_collection (ts ! i)"
  have th: "thread_ok ?p h (held ts)" using threads_okD(1) [OF ok] i by simp
  have len: "length ?xs = MAX_GROUP" and at: "m_attached ?p" using th by (simp_all add: thread_ok_def cached_of_def)
  have gl: "length all_groups = MAX_GROUP" "map group_index all_groups = [0..<13]" by code_simp+
  have gix: "group_index (all_groups ! j) = j" if "j < MAX_GROUP" for j
    using arg_cong [OF gl(2), of "\<lambda>l. l ! j"] that gl(1) by (simp add: MAX_GROUP_def)
  have pg: "unit_page h (?xs ! j) (all_groups ! j) \<and> ?xs ! j \<in> held ts" if "j < MAX_GROUP" "?xs ! j \<noteq> 0" for j
    using th gix [OF that(1)] that(2) unfolding thread_ok_def cached_of_def by metis
  have z: "\<forall>(p, g) \<in> set (zip ?xs all_groups). p \<noteq> 0 \<longrightarrow> unit_page h p g \<and> p \<in> held ts"
    using pg len gl(1) by (auto simp: set_zip)
  have m: "map fst (zip ?xs all_groups) = ?xs" using len gl(1) by simp
  have d: "distinct (filter (\<lambda>p. p \<noteq> 0) ?xs)"
  proof (rule distinct_filter_nth)
    fix a b assume ab: "a < length ?xs" "b < length ?xs" "?xs ! a = ?xs ! b" "?xs ! a \<noteq> 0"
    then have "all_groups ! a = all_groups ! b" using pg [of a] pg [of b] len unit_page_group by metis
    then show "a = b" using gix ab(1,2) len by metis
  qed
  obtain h' where h': "return_cached (zip ?xs all_groups) h = Some h'" "ordered Q h' (held ts - set ?xs)" "h_chunk h' = h_chunk h"
    using return_cached_tidy [OF t z] d unfolding m by blast
  note W = threads_without [OF ok i, folded ts'_def]
  have "threads_ok h' ts'" by (rule threads_ok_transfer [OF W(2)]) (simp add: unit_page_chunk [OF h'(3)])
  moreover have "shutdown_manually ?p h = Some (?p\<lparr>m_attached := False\<rparr>, h')"
    using at h'(1) by (simp add: shutdown_manually_def cached_of_def)
  ultimately show ?thesis using h'(2,3) W(1) by simp
qed

lemma thread_start_ok:
  assumes ok: "threads_ok h ts" and t: "m_thread_page_collection t = ThreadPageCollection True"
  shows "threads_ok h (t # ts)" "held (t # ts) = held ts"
proof -
  have c: "cached_of t = replicate MAX_GROUP 0" using t by (simp add: cached_of_def ThreadPageCollection_def)
  then show held: "held (t # ts) = held ts" by (auto simp: held_def)
  have "thread_ok (ThreadPageCollection True) h C" for C using group_index_max by (simp add: thread_ok_def ThreadPageCollection_def)
  moreover have "set (cached_of ((t # ts) ! i)) \<inter> set (cached_of ((t # ts) ! j)) \<subseteq> {0}"
    if "i < length (t # ts)" "j < length (t # ts)" "i \<noteq> j" for i j
    using that threads_okD(2) [OF ok, of "i - 1" "j - 1"] c by (cases i; cases j) auto
  ultimately show "threads_ok h (t # ts)" using ok t unfolding threads_ok_def held by auto
qed

text \<open>At shutdown the threads leave one after the other.\<close>

lemma shutdown_threads_returns: "ordered Q h (held ts) \<Longrightarrow> threads_ok h ts \<Longrightarrow> shutdown_threads ts h \<noteq> None"
proof (induction ts arbitrary: h)
  case (Cons t ts)
  from thread_exit_tidy [OF Cons.prems, of 0] obtain p h' where
    "shutdown_manually (m_thread_page_collection t) h = Some (p, h')" "ordered Q h' (held ts)" "threads_ok h' ts" by auto
  with Cons.IH [of h'] show ?case by auto
qed simp

lemma unassigned_threads: "held (unassign_workers ts) = held ts" "threads_ok h (unassign_workers ts) = threads_ok h ts"
proof -
  have c: "cached_of (t\<lparr>m_gc_marking_context := None\<rparr>) = cached_of t" for t by (simp add: cached_of_def)
  then show e: "held (unassign_workers ts) = held ts" by (simp add: held_def unassign_workers_def)
  show "threads_ok h (unassign_workers ts) = threads_ok h ts" unfolding threads_ok_def e by (simp add: unassign_workers_def c cong: conj_cong)
qed

end
