(* ===== verification/Woomem_System.thy ===== *)
theory Woomem_System
  imports Woomem_Tidy
begin

text \<open>
  The library under a program: any number of threads that start, allocate in two phases, reallocate, write, register
  and remove roots and end, and collections in between, in any order, from \<open>woomem_init\<close> on. The step relation says
  what a program may do; the invariant says what it can rely on at every moment.
\<close>

section \<open>Programs\<close>

text \<open>
  The state: the globals of the library, the counter of newly allocated bytes, and the pointers that
  \<open>woomem_allocate_begin\<close> has returned and that are not yet published, which the program keeps.
\<close>

record 'os program =
  pr_library :: "'os woomem"
  pr_new_allocated :: u64
  pr_pending :: "addr list"

abbreviation pr_heap :: "'os program \<Rightarrow> 'os heap" where
  "pr_heap y \<equiv> gx_heap (wm_global (pr_library y))"

abbreviation pr_threads :: "'os program \<Rightarrow> thread_context list" where
  "pr_threads y \<equiv> m_thread_entries (wm_global (pr_library y))"

abbreviation pr_gc :: "'os program \<Rightarrow> gc" where
  "pr_gc y \<equiv> wm_gc (pr_library y)"

definition with_global :: "('os global_context \<Rightarrow> 'os global_context) \<Rightarrow> 'os program \<Rightarrow> 'os program" where
  "with_global f y = y\<lparr>pr_library := (pr_library y)\<lparr>wm_global := f (wm_global (pr_library y))\<rparr>\<rparr>"

definition with_heap :: "('os heap \<Rightarrow> 'os heap) \<Rightarrow> 'os program \<Rightarrow> 'os program" where
  "with_heap f = with_global (\<lambda>x. x\<lparr>gx_heap := f (gx_heap x)\<rparr>)"

definition with_gc :: "(gc \<Rightarrow> gc) \<Rightarrow> 'os program \<Rightarrow> 'os program" where
  "with_gc f y = y\<lparr>pr_library := (pr_library y)\<lparr>wm_gc := f (pr_gc y)\<rparr>\<rparr>"

text \<open>What a call of thread \<open>i\<close> works on, and the state after the call.\<close>

definition thread_state :: "nat \<Rightarrow> 'os program \<Rightarrow> 'os alloc_state" where
  "thread_state i y = \<lparr>al_thread = m_thread_page_collection (pr_threads y ! i), al_heap = pr_heap y,
     m_new_allocated_size_since_last_gc = pr_new_allocated y\<rparr>"

definition after_call :: "nat \<Rightarrow> 'os alloc_state \<Rightarrow> 'os program \<Rightarrow> 'os program" where
  "after_call i s y = (with_global (\<lambda>x. x\<lparr>gx_heap := al_heap s, m_thread_entries :=
       (m_thread_entries x)[i := (m_thread_entries x ! i)\<lparr>m_thread_page_collection := al_thread s\<rparr>]\<rparr>) y)
     \<lparr>pr_new_allocated := m_new_allocated_size_since_last_gc s\<rparr>"

text \<open>What the collector works on: it uses no thread's pages.\<close>

definition collector_state :: "'os program \<Rightarrow> 'os alloc_state" where
  "collector_state y = \<lparr>al_thread = ThreadPageCollection False, al_heap = pr_heap y,
     m_new_allocated_size_since_last_gc = pr_new_allocated y\<rparr>"

definition after_cycle :: "gc \<Rightarrow> 'os alloc_state \<Rightarrow> 'os program \<Rightarrow> 'os program" where
  "after_cycle g s y = (with_gc (\<lambda>_. g) (with_heap (\<lambda>_. al_heap s) y))\<lparr>pr_new_allocated := m_new_allocated_size_since_last_gc s\<rparr>"

lemma with_simps [simp]:
  "pr_heap (with_global f y) = gx_heap (f (wm_global (pr_library y)))" "pr_threads (with_global f y) = m_thread_entries (f (wm_global (pr_library y)))"
  "pr_gc (with_global f y) = pr_gc y" "pr_pending (with_global f y) = pr_pending y"
  "pr_heap (with_heap e y) = e (pr_heap y)" "pr_threads (with_heap e y) = pr_threads y" "pr_gc (with_heap e y) = pr_gc y"
  "pr_pending (with_heap e y) = pr_pending y"
  "pr_heap (with_gc d y) = pr_heap y" "pr_threads (with_gc d y) = pr_threads y" "pr_gc (with_gc d y) = d (pr_gc y)"
  "pr_pending (with_gc d y) = pr_pending y"
  "pr_heap (after_call i s y) = al_heap s" "pr_gc (after_call i s y) = pr_gc y" "pr_pending (after_call i s y) = pr_pending y"
  "pr_threads (after_call i s y) = (pr_threads y)[i := (pr_threads y ! i)\<lparr>m_thread_page_collection := al_thread s\<rparr>]"
  "al_heap (thread_state i y) = pr_heap y" "al_thread (thread_state i y) = m_thread_page_collection (pr_threads y ! i)"
  "pr_heap (after_cycle g s y) = al_heap s" "pr_threads (after_cycle g s y) = pr_threads y" "pr_gc (after_cycle g s y) = g"
  "pr_pending (after_cycle g s y) = pr_pending y" "al_heap (collector_state y) = pr_heap y"
  by (simp_all add: with_global_def with_heap_def with_gc_def after_call_def thread_state_def after_cycle_def collector_state_def)

lemma with_flags [simp]:
  "m_globalcontext_alive (wm_global (pr_library (with_heap e y))) = m_globalcontext_alive (wm_global (pr_library y))"
  "m_globalcontext_alive (wm_global (pr_library (with_gc d y))) = m_globalcontext_alive (wm_global (pr_library y))"
  "m_globalcontext_alive (wm_global (pr_library (after_call i s y))) = m_globalcontext_alive (wm_global (pr_library y))"
  "m_globalcontext_alive (wm_global (pr_library (after_cycle g s y))) = m_globalcontext_alive (wm_global (pr_library y))"
  "m_globalcontext_inited (wm_global (pr_library (with_heap e y))) = m_globalcontext_inited (wm_global (pr_library y))"
  "m_globalcontext_inited (wm_global (pr_library (with_gc d y))) = m_globalcontext_inited (wm_global (pr_library y))"
  "m_globalcontext_inited (wm_global (pr_library (after_call i s y))) = m_globalcontext_inited (wm_global (pr_library y))"
  "m_globalcontext_inited (wm_global (pr_library (after_cycle g s y))) = m_globalcontext_inited (wm_global (pr_library y))"
  "wm_global (pr_library (with_global f y)) = f (wm_global (pr_library y))" "wm_gc_ctx (pr_library (with_global f y)) = wm_gc_ctx (pr_library y)"
  "wm_gc_ctx (pr_library (with_heap e y)) = wm_gc_ctx (pr_library y)" "wm_gc_ctx (pr_library (with_gc d y)) = wm_gc_ctx (pr_library y)"
  "wm_gc_ctx (pr_library (after_call i s y)) = wm_gc_ctx (pr_library y)" "wm_gc_ctx (pr_library (after_cycle g s y)) = wm_gc_ctx (pr_library y)"
  by (simp_all add: with_global_def with_heap_def with_gc_def after_call_def after_cycle_def)

text \<open>
  The steps. \<open>Begin\<close>, \<open>End\<close>, \<open>End_root\<close>: the two phases of an allocation; a pointer is published once, after it was
  returned. \<open>Reallocate\<close>: on a published unit. \<open>Unroot\<close>, \<open>Write\<close>: at any time, a write anywhere in the payloads. \<open>Start\<close>, \<open>Exit\<close>: a thread
  of the program. \<open>Collect\<close>: a cycle of the collector, with callbacks that mark precisely only null or units in use, at any
  time but one: the source starts a cycle on an empty chain of pages as well, and if a worker then still has the list of an
  earlier cycle it sweeps pages it no longer owns, which breaks the heap or fails an assertion. Such a cycle is no step.
  Sizes stay 32799 bytes below \<open>2 ^ 64\<close>.
\<close>

inductive program_step :: "target \<Rightarrow> 'os syscalls \<Rightarrow> nat \<Rightarrow> 'os program \<Rightarrow> 'os program \<Rightarrow> bool"
  for tgt :: target and sys :: "'os syscalls" and k :: nat where
  Begin: "i < length (pr_threads y) \<Longrightarrow> unat sz + 32799 < 2 ^ 64 \<Longrightarrow>
    woomem_allocate_begin tgt sys sz (thread_state i y) = Some (a, s) \<Longrightarrow>
    program_step tgt sys k y ((after_call i s y)\<lparr>pr_pending := (if a = 0 then [] else [a]) @ pr_pending y\<rparr>)"
| End: "a \<in> set (pr_pending y) \<Longrightarrow>
    program_step tgt sys k y ((with_heap (upd_mem (woomem_allocate_end (woomem_gc_marking_round_counter (pr_gc y)) a attrib)) y)
      \<lparr>pr_pending := removeAll a (pr_pending y)\<rparr>)"
| End_root: "a \<in> set (pr_pending y) \<Longrightarrow> woomem_allocate_end_as_root a attrib (pr_gc y, heap_mem (pr_heap y)) = (g, m) \<Longrightarrow>
    program_step tgt sys k y ((with_gc (\<lambda>_. g) (with_heap (upd_mem (\<lambda>_. m)) y))\<lparr>pr_pending := removeAll a (pr_pending y)\<rparr>)"
| Unroot: "program_step tgt sys k y (with_gc (woomem_remove_from_root_set p) y)"
| Write: "program_step tgt sys k y (with_heap (upd_mem (\<lambda>m. m\<lparr>word_at := w\<rparr>)) y)"
| Reallocate: "i < length (pr_threads y) \<Longrightarrow> unat sz + 32799 < 2 ^ 64 \<Longrightarrow> unit_in (pr_heap y) (ptr - sizeof_UnitHead) \<Longrightarrow>
    woomem_reallocate tgt sys (woomem_gc_marking_round_counter (pr_gc y)) ptr sz (thread_state i y) = Some (new, s) \<Longrightarrow>
    program_step tgt sys k y (after_call i s y)"
| Start: "ThreadContext (Some (m_gc_assigned_thread_idx (pr_gc y), w64 (length (m_gc_worker_threads (pr_gc y))))) (wm_global (pr_library y)) =
      (t, Some (idx, n), x) \<Longrightarrow>
    program_step tgt sys k y (with_gc (\<lambda>g. g\<lparr>m_gc_assigned_thread_idx := idx\<rparr>) (with_global (\<lambda>_. x) y))"
| Exit: "i < length (pr_threads y) \<Longrightarrow> ThreadContext_destroy i (wm_global (pr_library y)) = Some x \<Longrightarrow>
    program_step tgt sys k y (with_global (\<lambda>_. x) y)"
| Collect: "sweep_lists_fresh (pr_gc y) (pr_heap y) \<Longrightarrow>
    calls_valid (chunk_of (h_chunk (pr_heap y))) (heap_mem (pr_heap y)) begin_calls \<Longrightarrow>
    \<forall>u. calls_valid (chunk_of (h_chunk (pr_heap y))) (heap_mem (pr_heap y)) (cb u) \<Longrightarrow>
    gc_cycle k cb begin_calls (pr_gc y, collector_state y) = Some (g, s, fr) \<Longrightarrow>
    program_step tgt sys k y (after_cycle g s y)"

text \<open>A program starts with a successful \<open>woomem_init\<close> and no page from an earlier life.\<close>

definition program_init :: "target \<Rightarrow> 'os syscalls \<Rightarrow> nat \<Rightarrow> 'os program \<Rightarrow> bool" where
  "program_init tgt sys k y \<longleftrightarrow> (\<exists>malloc_ok hc raw sz s.
     mmap_documented sys \<and> chunk_size_ok sz \<and> (\<forall>t \<in> set (m_thread_entries (wm_global s)). fresh_thread t) \<and>
     m_globalcontext_alive (wm_global s) \<and> m_all_page_list (gx_heap (wm_global s)) = 0 \<and>
     1 \<le> k \<and> k \<le> 32 \<and> (\<forall>i. length (fst (raw i)) = 2 ^ k) \<and>
     woomem_init tgt sys malloc_ok hc raw sz s = Some (True, pr_library y) \<and> pr_pending y = [])"

section \<open>The invariant\<close>

text \<open>
  The heap is tidy for the pages the threads hold, every thread can allocate, no two hold a page, the collector is idle,
  registered roots are published units, and pending pointers are pending units.
\<close>

definition program_inv :: "nat \<Rightarrow> 'os program \<Rightarrow> bool" where
  "program_inv k y \<longleftrightarrow> tidy (pr_heap y) (held (pr_threads y)) \<and> threads_ok (pr_heap y) (pr_threads y) \<and> gc_idle k (pr_gc y) \<and>
     (\<forall>u \<in> set (m_root_gc_unit_set (pr_gc y)). unit_in (pr_heap y) u \<and> m_life (unit_at (heap_mem (pr_heap y)) u) = UNMARKED) \<and>
     (\<forall>a \<in> set (pr_pending y). pending_unit (pr_heap y) a) \<and>
     m_globalcontext_alive (wm_global (pr_library y)) \<and> m_globalcontext_inited (wm_global (pr_library y)) \<and> wm_gc_ctx (pr_library y)"

definition roots_ok :: "'os heap \<Rightarrow> gc \<Rightarrow> bool" where
  "roots_ok h g \<longleftrightarrow> (\<forall>u \<in> set (m_root_gc_unit_set g). unit_in h u \<and> m_life (unit_at (heap_mem h) u) = UNMARKED)"

lemma program_invD:
  assumes "program_inv k y"
  shows "tidy (pr_heap y) (held (pr_threads y))" "threads_ok (pr_heap y) (pr_threads y)" "gc_idle k (pr_gc y)"
    "roots_ok (pr_heap y) (pr_gc y)" "a \<in> set (pr_pending y) \<Longrightarrow> pending_unit (pr_heap y) a"
    "m_globalcontext_alive (wm_global (pr_library y))" "m_globalcontext_inited (wm_global (pr_library y))" "wm_gc_ctx (pr_library y)"
  using assms unfolding program_inv_def roots_ok_def by blast+

lemma program_invI:
  assumes "tidy (pr_heap y) (held (pr_threads y))" "threads_ok (pr_heap y) (pr_threads y)" "gc_idle k (pr_gc y)"
    "roots_ok (pr_heap y) (pr_gc y)" "\<And>a. a \<in> set (pr_pending y) \<Longrightarrow> pending_unit (pr_heap y) a"
    "m_globalcontext_alive (wm_global (pr_library y))" "m_globalcontext_inited (wm_global (pr_library y))" "wm_gc_ctx (pr_library y)"
  shows "program_inv k y"
  using assms unfolding program_inv_def roots_ok_def by blast

lemma kept_units_ok:
  assumes "units_kept h h'"
  shows "roots_ok h g \<Longrightarrow> roots_ok h' g" "pending_unit h a \<Longrightarrow> pending_unit h' a"
  using assms by (auto simp: roots_ok_def pending_unit_def units_kept_def)

lemma allocate_begin_inv:
  assumes inv: "program_inv k y" and i: "i < length (pr_threads y)" and sz: "unat sz + 32799 < 2 ^ 64"
  shows "\<exists>a s. woomem_allocate_begin tgt sys sz (thread_state i y) = Some (a, s) \<and>
    program_inv k ((after_call i s y)\<lparr>pr_pending := (if a = 0 then [] else [a]) @ pr_pending y\<rparr>) \<and>
    units_kept (pr_heap y) (al_heap s) \<and> (a \<noteq> 0 \<longrightarrow> \<not> unit_in (pr_heap y) (a - sizeof_UnitHead))"
proof -
  note I = program_invD [OF inv]
  from allocate_begin_tidy [OF lax_ungray, of "thread_state i y" "pr_threads y" i sz tgt sys] I(1,2) i sz
  obtain a s where r: "woomem_allocate_begin tgt sys sz (thread_state i y) = Some (a, s)"
    "begun ungray (pr_heap y) a ((pr_threads y)[i := (pr_threads y ! i)\<lparr>m_thread_page_collection := al_thread s\<rparr>]) (al_heap s)" by auto
  have b: "units_kept (pr_heap y) (al_heap s)" "a \<noteq> 0 \<Longrightarrow> pending_unit (al_heap s) a" "a \<noteq> 0 \<Longrightarrow> \<not> unit_in (pr_heap y) (a - sizeof_UnitHead)" using r(2) by (auto simp: begun_def)
  have "program_inv k ((after_call i s y)\<lparr>pr_pending := (if a = 0 then [] else [a]) @ pr_pending y\<rparr>)"
    by (rule program_invI) (use r(2) I kept_units_ok [OF b(1)] b(2) in \<open>auto simp: begun_def split: if_splits\<close>)
  then show ?thesis using r(1) b by blast
qed

lemma publish_inv:
  fixes round :: u8 and attrib :: u32
  assumes inv: "program_inv k y" and a: "a \<in> set (pr_pending y)"
  defines "h' \<equiv> upd_mem (woomem_allocate_end round a attrib) (pr_heap y)"
  shows "tidy h' (held (pr_threads y))" "threads_ok h' (pr_threads y)" "roots_ok h' (pr_gc y)"
    "b \<in> set (removeAll a (pr_pending y)) \<Longrightarrow> pending_unit h' b"
    "unit_in h' (a - sizeof_UnitHead)" "m_life (unit_at (heap_mem h') (a - sizeof_UnitHead)) = UNMARKED"
proof -
  note I = program_invD [OF inv]
  note P = published_unit [OF I(1) I(5) [OF a] unit_life.distinct(15), where round = round and attrib = attrib, folded h'_def]
  show "tidy h' (held (pr_threads y))" by (rule P(1))
  show "threads_ok h' (pr_threads y)" by (rule threads_ok_transfer [OF I(2) P(2)])
  show "unit_in h' (a - sizeof_UnitHead)" using P(3) I(5) [OF a] by (simp add: pending_unit_def)
  show l: "m_life (unit_at (heap_mem h') (a - sizeof_UnitHead)) = UNMARKED" by (rule P(5))
  show "roots_ok h' (pr_gc y)" using I(4) P(3,4) l unfolding roots_ok_def by metis
  show "pending_unit h' b" if "b \<in> set (removeAll a (pr_pending y))"
  proof -
    have "b - sizeof_UnitHead \<noteq> a - sizeof_UnitHead" "pending_unit (pr_heap y) b" using that I(5) [of b] by auto
    then show ?thesis using P(3,4) by (simp add: pending_unit_def)
  qed
qed

lemma gc_idle_roots: "gc_idle k (register_root_unit_head u g) = gc_idle k g" "gc_idle k (unregister_root_unit_head u g) = gc_idle k g"
  by (simp_all add: gc_idle_def register_root_unit_head_def unregister_root_unit_head_def)

lemma publish_root_inv:
  assumes inv: "program_inv k y" and a: "a \<in> set (pr_pending y)"
    and r: "woomem_allocate_end_as_root a attrib (pr_gc y, heap_mem (pr_heap y)) = (g, m)"
  shows "program_inv k ((with_gc (\<lambda>_. g) (with_heap (upd_mem (\<lambda>_. m)) y))\<lparr>pr_pending := removeAll a (pr_pending y)\<rparr>)"
proof -
  let ?h = "upd_mem (woomem_allocate_end (woomem_gc_marking_round_counter (pr_gc y)) a attrib) (pr_heap y)"
  note I = program_invD [OF inv] and P = publish_inv [OF inv a, where round = "woomem_gc_marking_round_counter (pr_gc y)" and attrib = attrib]
  have e: "upd_mem (\<lambda>_. m) (pr_heap y) = ?h" "g = register_root_unit_head (a - sizeof_UnitHead) (pr_gc y)"
    using r by (auto simp: woomem_allocate_end_as_root_def upd_mem_def heap_mem_def)
  have "roots_ok ?h g" using P(3,5,6) unfolding e(2) roots_ok_def register_root_unit_head_def by auto
  then show ?thesis
    by (intro program_invI) (use I P e(1) in \<open>auto simp: e(2) gc_idle_roots\<close>)
qed

lemma write_inv:
  assumes inv: "program_inv k y"
  shows "program_inv k (with_heap (upd_mem (\<lambda>m. m\<lparr>word_at := w\<rparr>)) y)"
proof -
  note I = program_invD [OF inv]
  have u: "unit_in (upd_mem (\<lambda>m. m\<lparr>word_at := w\<rparr>) (pr_heap y)) v = unit_in (pr_heap y) v"
    "threads_ok (upd_mem (\<lambda>m. m\<lparr>word_at := w\<rparr>) (pr_heap y)) ts = threads_ok (pr_heap y) ts" for v ts
    by (rule written_units)+
  show ?thesis
    by (rule program_invI) (use I written_units(1) [OF I(1)] in \<open>auto simp: roots_ok_def pending_unit_def u\<close>)
qed

lemma realloc_returns:
  assumes inv: "program_inv k y" and i: "i < length (pr_threads y)" and sz: "unat sz + 32799 < 2 ^ 64"
    and p: "unit_in (pr_heap y) (ptr - sizeof_UnitHead)"
  shows "woomem_reallocate tgt sys round ptr sz (thread_state i y) \<noteq> None"
proof -
  from unit_in_size [OF program_invD(1) [OF inv] p] obtain space where
    "get_unit_available_size (ptr - sizeof_UnitHead) (heap_mem (pr_heap y)) = Some space" "ptr \<noteq> 0" by auto
  moreover obtain a s where "woomem_allocate_begin tgt sys sz (thread_state i y) = Some (a, s)" using allocate_begin_inv [OF inv i sz] by blast
  ultimately show ?thesis by (simp add: woomem_reallocate_def Let_def)
qed

lemma realloc_inv:
  assumes inv: "program_inv k y" and i: "i < length (pr_threads y)" and sz: "unat sz + 32799 < 2 ^ 64"
    and run: "woomem_reallocate tgt sys round ptr sz (thread_state i y) = Some (new, s)"
  shows "program_inv k (after_call i s y)"
proof -
  note I = program_invD [OF inv]
  let ?u = "ptr - sizeof_UnitHead"
  obtain space where sp: "ptr \<noteq> 0" "get_unit_available_size ?u (heap_mem (pr_heap y)) = Some space"
    "(if sz \<le> space then Some (ptr, thread_state i y)
      else woomem_allocate_begin tgt sys sz (thread_state i y) \<bind> (\<lambda>(new_ptr, s).
        if new_ptr = 0 then Some (0, s)
        else let m = copy_words new_ptr ptr (unat space div 8) (heap_mem (al_heap s));
            m = woomem_allocate_end round new_ptr (ucast (m_attribute (unit_at m ?u))) m
          in Some (new_ptr, s\<lparr>al_heap := upd_mem (\<lambda>_. m) (al_heap s)\<rparr>))) = Some (new, s)"
    using run by (auto simp: woomem_reallocate_def Let_def split: if_splits bind_splits)
  show ?thesis
  proof (cases "sz \<le> space")
    case True
    then have "s = thread_state i y" using sp(3) by simp
    moreover have "(pr_threads y)[i := (pr_threads y ! i)\<lparr>m_thread_page_collection := m_thread_page_collection (pr_threads y ! i)\<rparr>] = pr_threads y" by simp
    ultimately show ?thesis using I by (intro program_invI) simp_all
  next
    case False
    from allocate_begin_inv [OF inv i sz, of tgt sys] obtain a s1 where
      b: "woomem_allocate_begin tgt sys sz (thread_state i y) = Some (a, s1)"
        "program_inv k ((after_call i s1 y)\<lparr>pr_pending := (if a = 0 then [] else [a]) @ pr_pending y\<rparr>)"
        "a \<noteq> 0 \<Longrightarrow> \<not> unit_in (pr_heap y) (a - sizeof_UnitHead)" by blast
    let ?y1 = "(after_call i s1 y)\<lparr>pr_pending := (if a = 0 then [] else [a]) @ pr_pending y\<rparr>"
    show ?thesis
    proof (cases "a = 0")
      case True
      then have "s = s1" using sp(3) b(1) False by simp
      moreover have "?y1 = after_call i s1 y" using True by (simp add: after_call_def with_global_def)
      ultimately show ?thesis using b(2) by simp
    next
      case nz: False
      obtain w where w: "copy_words a ptr (unat space div 8) (heap_mem (al_heap s1)) = (heap_mem (al_heap s1))\<lparr>word_at := w\<rparr>"
        using copy_words_frame by blast
      let ?y2 = "with_heap (upd_mem (\<lambda>m. m\<lparr>word_at := w\<rparr>)) ?y1"
      define attr :: u32 where "attr = ucast (m_attribute (unit_at (heap_mem (al_heap s1)) ?u))"
      have inv2: "program_inv k ?y2" by (rule write_inv [OF b(2)])
      have a2: "a \<in> set (pr_pending ?y2)" using nz by simp
      note I2 = program_invD [OF inv2] and P = publish_inv [OF inv2 a2, where round = round and attrib = attr]
      have s: "al_thread s = al_thread s1" "al_heap s = upd_mem (woomem_allocate_end round a attr) (pr_heap ?y2)"
        using sp(3) b(1) False nz w by (auto simp: Let_def attr_def upd_mem_def heap_mem_def)
      have "a \<notin> set (pr_pending y)" using b(3) nz I(5) by (auto simp: pending_unit_def)
      then have pend: "removeAll a (pr_pending ?y2) = pr_pending y" using nz by simp
      show ?thesis
        by (rule program_invI) (use I I2(3,6-8) P(1-3) P(4) [unfolded pend] in \<open>simp_all add: s\<close>)
    qed
  qed
qed

lemma start_inv:
  assumes inv: "program_inv k y" and r: "ThreadContext gc (wm_global (pr_library y)) = (t, gc', x)"
  shows "program_inv k (with_gc (\<lambda>g. g\<lparr>m_gc_assigned_thread_idx := idx\<rparr>) (with_global (\<lambda>_. x) y))"
proof -
  note I = program_invD [OF inv]
  have x: "x = (wm_global (pr_library y))\<lparr>m_thread_entries := t # pr_threads y\<rparr>" "m_thread_page_collection t = ThreadPageCollection True"
    using r I(6,7) by (auto simp: ThreadContext_def Let_def split: prod.splits)
  note S = thread_start_ok [OF I(2) x(2)]
  show ?thesis
    by (rule program_invI) (use I S in \<open>auto simp: x(1) gc_idle_def roots_ok_def\<close>)
qed

lemma exit_inv:
  assumes inv: "program_inv k y" and i: "i < length (pr_threads y)"
  shows "\<exists>x. ThreadContext_destroy i (wm_global (pr_library y)) = Some x \<and> program_inv k (with_global (\<lambda>_. x) y) \<and>
    h_chunk (gx_heap x) = h_chunk (pr_heap y)"
proof -
  note I = program_invD [OF inv]
  let ?ts = "take i (pr_threads y) @ drop (Suc i) (pr_threads y)"
  obtain p h where h: "shutdown_manually (m_thread_page_collection (pr_threads y ! i)) (pr_heap y) = Some (p, h)"
      "tidy h (held ?ts)" "threads_ok h ?ts" "h_chunk h = h_chunk (pr_heap y)"
    using thread_exit_tidy [OF I(1,2) i] by blast
  let ?x = "(wm_global (pr_library y))\<lparr>m_thread_entries := ?ts, gx_heap := h\<rparr>"
  have run: "ThreadContext_destroy i (wm_global (pr_library y)) = Some ?x"
    using h(1) i I(6) by (simp add: ThreadContext_destroy_def rd_in)
  have m: "heap_mem h = heap_mem (pr_heap y)" "unit_in h u = unit_in (pr_heap y) u" for u using h(4) by (simp_all add: heap_mem_def unit_in_def)
  have "program_inv k (with_global (\<lambda>_. ?x) y)"
    by (rule program_invI) (use I h(2,3) in \<open>auto simp: roots_ok_def pending_unit_def m\<close>)
  then show ?thesis using run h(4) by auto
qed

lemma shutdown_returns:
  assumes "program_inv k y"
  shows "woomem_shutdown sys (pr_library y) \<noteq> None"
proof -
  note I = program_invD [OF assms]
  have "shutdown_threads (unassign_workers (pr_threads y)) (pr_heap y) \<noteq> None"
    by (rule shutdown_threads_returns) (use I(1,2) in \<open>simp_all only: unassigned_threads\<close>)
  then show ?thesis using I(7,8) by (auto simp: woomem_shutdown_def global_shutdown_def Let_def)
qed

text \<open>The units that the next cycle keeps: reachable, or exempt.\<close>

definition survivors :: "(addr \<Rightarrow> mark_call list) \<Rightarrow> mark_call list \<Rightarrow> 'os program \<Rightarrow> addr set" where
  "survivors cb begin_calls y = (let c = chunk_of (h_chunk (pr_heap y)); m = heap_mem (pr_heap y) in
     {u. unit_in (pr_heap y) u \<and> (u \<in> gc_reachable c cb m (root_units c m begin_calls (pr_gc y)) \<or>
        kept (woomem_gc_marking_round_counter (pr_gc y) + 1) (unit_at m u))})"

lemma root_survives:
  assumes inv: "program_inv k y" and u: "u \<in> set (m_root_gc_unit_set (pr_gc y))"
  shows "u \<in> survivors cb begin_calls y"
proof -
  let ?c = "chunk_of (h_chunk (pr_heap y))" and ?m = "heap_mem (pr_heap y)"
  let ?us = "root_units ?c ?m begin_calls (pr_gc y)"
  have l: "unit_in (pr_heap y) u" "lives ?m u = UNMARKED" using program_invD(4) [OF inv] u by (auto simp: roots_ok_def lives_def)
  then have "u \<in> {u \<in> set ?us. lives ?m u = UNMARKED}" using u by (simp add: root_units_def)
  then have "u \<in> gc_reachable ?c cb ?m ?us" unfolding gc_reachable_def by (rule subsetD [OF reached_refl])
  then show ?thesis using l(1) by (simp add: survivors_def Let_def)
qed

lemma collect_inv:
  fixes cb :: "addr \<Rightarrow> mark_call list" and begin_calls :: "mark_call list"
  assumes inv: "program_inv k y" and fresh: "sweep_lists_fresh (pr_gc y) (pr_heap y)"
    and v: "calls_valid (chunk_of (h_chunk (pr_heap y))) (heap_mem (pr_heap y)) begin_calls"
      "\<forall>u. calls_valid (chunk_of (h_chunk (pr_heap y))) (heap_mem (pr_heap y)) (cb u)"
  shows "\<exists>g s fr. gc_cycle k cb begin_calls (pr_gc y, collector_state y) = Some (g, s, fr) \<and> program_inv k (after_cycle g s y) \<and>
    (\<forall>u. unit_in (al_heap s) u \<longleftrightarrow> u \<in> survivors cb begin_calls y) \<and>
    (\<forall>u \<in> survivors cb begin_calls y. unit_at (heap_mem (al_heap s)) u = aged (unit_at (heap_mem (pr_heap y)) u)) \<and>
    word_at (heap_mem (al_heap s)) = word_at (heap_mem (pr_heap y)) \<and>
    (\<forall>q. in_pool (pr_heap y) q \<and> (\<forall>u \<in> survivors cb begin_calls y. \<not> unit_of_page (heap_mem (pr_heap y)) q u) \<or>
       leaked (pr_heap y) (held (pr_threads y)) q \<longrightarrow> leaked (al_heap s) (held (pr_threads y)) q)"
proof -
  note I = program_invD [OF inv]
  let ?h = "pr_heap y" and ?m = "heap_mem (pr_heap y)" and ?C = "held (pr_threads y)"
  have roots: "\<forall>u \<in> set (m_root_gc_unit_set (pr_gc y)). unit_in ?h u" using I(4) by (simp add: roots_ok_def)
  from cycle_tidy [of "collector_state y" ?C "pr_gc y" k begin_calls cb] I(1,3) fresh roots v
  obtain g s fr where r: "gc_cycle k cb begin_calls (pr_gc y, collector_state y) = Some (g, s, fr)" "tidy (al_heap s) ?C" "gc_idle k g"
      "m_root_gc_unit_set g = m_root_gc_unit_set (pr_gc y)" "word_at (heap_mem (al_heap s)) = word_at ?m"
      "\<forall>q \<in> ?C. \<forall>g. unit_page ?h q g \<longrightarrow> unit_page (al_heap s) q g"
      "\<forall>u. unit_in (al_heap s) u \<longleftrightarrow> u \<in> survivors cb begin_calls y"
      "\<forall>u. unit_in (al_heap s) u \<longrightarrow> unit_at (heap_mem (al_heap s)) u = aged (unit_at ?m u)"
      "\<forall>q. in_pool ?h q \<and> (\<forall>u. unit_of_page ?m q u \<longrightarrow> \<not> unit_in (al_heap s) u) \<or> leaked ?h ?C q \<longrightarrow> leaked (al_heap s) ?C q"
    by (auto simp: survivors_def Let_def)
  have ts: "threads_ok (al_heap s) (pr_threads y)" using I(2) r(6) unfolding threads_ok_def thread_ok_def by blast
  have S: "unit_in (al_heap s) u" "unit_at (heap_mem (al_heap s)) u = aged (unit_at ?m u)" if "u \<in> survivors cb begin_calls y" for u
    using r(7,8) that by blast+
  have "u \<in> survivors cb begin_calls y" if "u \<in> set (m_root_gc_unit_set (pr_gc y))" for u
    using root_survives [OF inv that] .
  then have ro: "roots_ok (al_heap s) g" using S I(4) unfolding roots_ok_def r(4) by (auto simp: aged_def)
  have pe: "pending_unit (al_heap s) a" if "a \<in> set (pr_pending y)" for a
  proof -
    have l: "unit_in ?h (a - sizeof_UnitHead)" "m_life (unit_at ?m (a - sizeof_UnitHead)) = PENDING"
      using I(5) [OF that] by (simp_all add: pending_unit_def)
    then have "a - sizeof_UnitHead \<in> survivors cb begin_calls y" by (simp add: survivors_def Let_def kept_def)
    then show ?thesis using S l(2) by (simp add: pending_unit_def aged_def)
  qed
  have "program_inv k (after_cycle g s y)"
    by (rule program_invI) (use I r(2,3) ts ro pe in \<open>simp_all\<close>)
  then show ?thesis using r(1,5,7,9) S by blast
qed

text \<open>A unit in use is in a page, and a page is in the chain.\<close>

lemma unit_fresh:
  assumes "program_inv k y" "unit_in (pr_heap y) u"
  shows "sweep_lists_fresh (pr_gc y) (pr_heap y)"
  using chain_empty [OF program_invD(1) [OF assms(1)]] assms(2) by (auto simp: sweep_lists_fresh_def unit_in_def)

lemma init_facts: "program_init tgt sys k y \<Longrightarrow> program_inv k y \<and> runs_of (pr_heap y) = {}"
  unfolding program_init_def
proof (elim exE conjE)
  fix malloc_ok hc raw sz s
  assume doc: "mmap_documented sys" "chunk_size_ok sz" and fr: "\<forall>t \<in> set (m_thread_entries (wm_global s)). fresh_thread t"
    and al: "m_globalcontext_alive (wm_global s)" and z: "m_all_page_list (gx_heap (wm_global s)) = 0"
    and k: "1 \<le> k" "k \<le> 32" and raw: "\<forall>i. length (fst (raw i)) = 2 ^ k"
    and run: "woomem_init tgt sys malloc_ok hc raw sz s = Some (True, pr_library y)" and pd: "pr_pending y = []"
  let ?ts = "m_thread_entries (wm_global s)"
  have g: "\<not> m_globalcontext_inited (wm_global s)" "\<not> wm_gc_ctx s" using run by (auto simp: woomem_init_def split: if_splits)
  obtain h where h: "global_init tgt sys sz (wm_global s) = Some (reserves tgt sys sz s, (wm_global s)\<lparr>gx_heap := h,
        m_globalcontext_inited := reserves tgt sys sz s, m_thread_entries := (if reserves tgt sys sz s then map attach else id) ?ts\<rparr>)"
      "m_all_page_list h = 0"
      "reserves tgt sys sz s \<Longrightarrow> heap_inv h {} \<and> blocks_of (chunk_of (h_chunk h)) = [Free ((unat sz + 32767) div 32768)]"
    using global_init_cases [OF doc g(1) fr, of tgt] z by auto
  have r: "reserves tgt sys sz s" "malloc_ok" using run h(1) g by (auto simp: woomem_init_def split: if_splits bind_splits)
  obtain gc ts' where gc: "GC 0 hc raw (wm_gc s) (map attach ?ts) = (gc, ts')" by fastforce
  have y: "pr_library y = s\<lparr>wm_global := (wm_global s)\<lparr>gx_heap := h, m_globalcontext_inited := True, m_thread_entries := ts'\<rparr>,
      wm_gc := gc, wm_gc_ctx := True\<rparr>" using run h(1) g r gc by (simp add: woomem_init_def)
  note G = GC_new [OF k raw gc]
  have H: "heap_inv h {}" "runs_of h = {}" using h(3) r(1) by (auto simp: chunk_ranges_def)
  have c: "m_thread_page_collection t = ThreadPageCollection True" if "t \<in> set ts'" for t
    using unmarked_threads [OF G(3) that] by (auto simp: attach_def)
  have T: "threads_ok h ts' \<and> held ts' = {}" using c
  proof (induction ts')
    case (Cons t ts)
    then show ?case using thread_start_ok [of h ts t] by simp
  qed (simp add: threads_ok_def held_def)
  have "tidy h {}" using H h(2) by (auto simp: ordered_def page_chain_def intro!: exI [of _ "[]"])
  then have "program_inv k y" using T G(1,2) al pd by (intro program_invI) (simp_all add: y roots_ok_def)
  then show "program_inv k y \<and> runs_of (pr_heap y) = {}" using H(2) by (simp add: y)
qed

lemmas init_inv = init_facts [THEN conjunct1]

lemma step_inv:
  assumes "program_inv k y" "program_step tgt sys k y y'"
  shows "program_inv k y'"
  using assms(2,1)
proof cases
  case (Begin i sz a s)
  then show ?thesis using allocate_begin_inv [OF assms(1) Begin(2,3), of tgt sys] by auto
next
  case (End a attrib)
  note P = publish_inv [OF assms(1) End(2), where round = "woomem_gc_marking_round_counter (pr_gc y)" and attrib = attrib]
  show ?thesis unfolding End(1) by (rule program_invI) (use P program_invD [OF assms(1)] in simp_all)
next
  case (End_root a attrib g m)
  then show ?thesis using publish_root_inv [OF assms(1)] by blast
next
  case (Unroot p)
  then show ?thesis using program_invD [OF assms(1)]
    by (intro program_invI) (auto simp: woomem_remove_from_root_set_def gc_idle_def roots_ok_def unregister_root_unit_head_def)
next
  case (Write w)
  then show ?thesis using write_inv [OF assms(1)] by blast
next
  case (Reallocate i sz ptr new s)
  then show ?thesis using realloc_inv [OF assms(1)] by blast
next
  case (Start t idx n x)
  then show ?thesis using start_inv [OF assms(1)] by blast
next
  case (Exit i x)
  then show ?thesis using exit_inv [OF assms(1) Exit(2)] by auto
next
  case (Collect begin_calls cb g s fr)
  then show ?thesis using collect_inv [OF assms(1) Collect(2-4)] by auto
qed

interpretation program: inductive_invariant "program_init tgt sys k" "program_step tgt sys k" "program_inv k"
  for tgt and sys :: "'os syscalls" and k
  by unfold_locales (fact init_inv, fact step_inv)

section \<open>Properties\<close>

text \<open>C1: A program never breaks the library. In every state that threads and collections reach from \<open>woomem_init\<close>, in any order
  but with no collection on an empty chain of pages while a worker has the list of an earlier cycle and with callbacks that mark
  precisely only null or units in use, the heap is in order, every page of it is in the chain and can be swept, no two threads
  hold a page, registered roots are published units and pending pointers are pending units. There, every next call returns, so no
  assertion of the sources fails: an allocation of any admissible size by any thread, which hands out null or a unit that was not
  in use and leaves all units in use as they are, a reallocation of any unit in use, the end of any thread, the shutdown, and a
  collection under the same two conditions. The first of them holds whenever a unit is in use.\<close>

theorem program_safe:
  assumes "reach (program_init tgt sys k) (program_step tgt sys k) y"
  shows "program_inv k y \<and>
    (\<forall>i sz. i < length (pr_threads y) \<and> unat sz + 32799 < 2 ^ 64 \<longrightarrow>
       (\<exists>a s. woomem_allocate_begin tgt sys sz (thread_state i y) = Some (a, s) \<and> units_kept (pr_heap y) (al_heap s) \<and>
          (a \<noteq> 0 \<longrightarrow> \<not> unit_in (pr_heap y) (a - sizeof_UnitHead) \<and> unit_in (al_heap s) (a - sizeof_UnitHead))) \<and>
       (\<forall>round ptr. unit_in (pr_heap y) (ptr - sizeof_UnitHead) \<longrightarrow>
          woomem_reallocate tgt sys round ptr sz (thread_state i y) \<noteq> None) \<and>
       ThreadContext_destroy i (wm_global (pr_library y)) \<noteq> None) \<and>
    woomem_shutdown sys (pr_library y) \<noteq> None \<and>
    (\<forall>cb begin_calls. sweep_lists_fresh (pr_gc y) (pr_heap y) \<and>
         calls_valid (chunk_of (h_chunk (pr_heap y))) (heap_mem (pr_heap y)) begin_calls \<and>
         (\<forall>u. calls_valid (chunk_of (h_chunk (pr_heap y))) (heap_mem (pr_heap y)) (cb u)) \<longrightarrow>
       gc_cycle k cb begin_calls (pr_gc y, collector_state y) \<noteq> None) \<and>
    ((\<exists>u. unit_in (pr_heap y) u) \<longrightarrow> sweep_lists_fresh (pr_gc y) (pr_heap y))"
proof -
  have inv: "program_inv k y" using assms by (rule program.reach_inv)
  have "\<exists>a s. woomem_allocate_begin tgt sys sz (thread_state i y) = Some (a, s) \<and> units_kept (pr_heap y) (al_heap s) \<and>
      (a \<noteq> 0 \<longrightarrow> \<not> unit_in (pr_heap y) (a - sizeof_UnitHead) \<and> unit_in (al_heap s) (a - sizeof_UnitHead))"
    if i: "i < length (pr_threads y)" "unat sz + 32799 < 2 ^ 64" for i sz
  proof -
    obtain a s where r: "woomem_allocate_begin tgt sys sz (thread_state i y) = Some (a, s)" "units_kept (pr_heap y) (al_heap s)"
        "program_inv k ((after_call i s y)\<lparr>pr_pending := (if a = 0 then [] else [a]) @ pr_pending y\<rparr>)"
        "a \<noteq> 0 \<longrightarrow> \<not> unit_in (pr_heap y) (a - sizeof_UnitHead)"
      using allocate_begin_inv [OF inv i, of tgt sys] by blast
    have "unit_in (al_heap s) (a - sizeof_UnitHead)" if "a \<noteq> 0" using program_invD(5) [OF r(3), of a] that by (simp add: pending_unit_def)
    then show ?thesis using r by blast
  qed
  moreover have "ThreadContext_destroy i (wm_global (pr_library y)) \<noteq> None" if "i < length (pr_threads y)" for i
    using exit_inv [OF inv that] by auto
  moreover have "woomem_shutdown sys (pr_library y) \<noteq> None" by (rule shutdown_returns [OF inv])
  moreover have "gc_cycle k cb begin_calls (pr_gc y, collector_state y) \<noteq> None"
    if "sweep_lists_fresh (pr_gc y) (pr_heap y)" "calls_valid (chunk_of (h_chunk (pr_heap y))) (heap_mem (pr_heap y)) begin_calls"
      "\<forall>u. calls_valid (chunk_of (h_chunk (pr_heap y))) (heap_mem (pr_heap y)) (cb u)" for cb begin_calls
    using collect_inv [OF inv that] by auto
  ultimately show ?thesis using inv realloc_returns [OF inv] unit_fresh [OF inv] by blast
qed

text \<open>One thread allocates 10000 bytes and publishes them as a root.\<close>

definition demo_started :: "addr list program" where
  "demo_started = \<lparr>pr_library = snd (the (woomem_init POSIX demo_sys True 32 (\<lambda>_. (demo_raw, 0)) 100000 demo_woomem)),
     pr_new_allocated = 0, pr_pending = []\<rparr>"

definition demo_begun :: "addr list program" where
  "demo_begun = (case woomem_allocate_begin POSIX demo_sys 10000 (thread_state 0 demo_started) of
     Some (a, s) \<Rightarrow> (after_call 0 s demo_started)\<lparr>pr_pending := (if a = 0 then [] else [a]) @ pr_pending demo_started\<rparr> | None \<Rightarrow> demo_started)"

definition demo_rooted :: "addr list program" where
  "demo_rooted = (case woomem_allocate_end_as_root 0x100028 1 (pr_gc demo_begun, heap_mem (pr_heap demo_begun)) of
     (g, m) \<Rightarrow> (with_gc (\<lambda>_. g) (with_heap (upd_mem (\<lambda>_. m)) demo_begun))\<lparr>pr_pending := removeAll 0x100028 (pr_pending demo_begun)\<rparr>)"

lemma demo_program_eval:
  "map_option fst (woomem_init POSIX demo_sys True 32 (\<lambda>_. (demo_raw, 0)) 100000 demo_woomem) = Some True"
  "length (pr_threads demo_started) = 1"
  "map_option fst (woomem_allocate_begin POSIX demo_sys 10000 (thread_state 0 demo_started)) = Some 0x100028"
  "pr_pending demo_begun = [0x100028]" "m_root_gc_unit_set (pr_gc demo_rooted) = [0x100020]" "m_all_page_list (pr_heap demo_rooted) = 0x100000"
  "length (pr_threads demo_rooted) = 1" "m_all_page_list (gx_heap (wm_global demo_woomem)) = 0"
  by code_simp+

lemma demo_program_init:
  assumes "woomem_init POSIX demo_sys True hc (\<lambda>_. (demo_raw, 0)) 100000 demo_woomem = Some (True, pr_library y)" "pr_pending y = []"
  shows "program_init POSIX demo_sys 1 y"
  unfolding program_init_def using demo_sys_documented demo_woomem_ok demo_program_eval(8) assms
  by (intro exI [of _ True] exI [of _ hc] exI [of _ "\<lambda>_. (demo_raw, 0)"] exI [of _ 100000] exI [of _ demo_woomem])
    (simp add: demo_woomem_def GlobalContext_def)

lemma demo_begun_reach: "reach (program_init POSIX demo_sys 1) (program_step POSIX demo_sys 1) demo_begun"
proof -
  have "woomem_init POSIX demo_sys True 32 (\<lambda>_. (demo_raw, 0)) 100000 demo_woomem = Some (True, pr_library demo_started)"
    using demo_program_eval(1) by (auto simp: demo_started_def)
  then have "program_init POSIX demo_sys 1 demo_started" by (rule demo_program_init) (simp add: demo_started_def)
  note r0 = reach.reach_init [of "program_init POSIX demo_sys 1", OF this, of "program_step POSIX demo_sys 1"]
  obtain s where s: "woomem_allocate_begin POSIX demo_sys 10000 (thread_state 0 demo_started) = Some (0x100028, s)"
    using demo_program_eval(3) by auto
  have "program_step POSIX demo_sys 1 demo_started demo_begun"
    using program_step.Begin [OF _ _ s, of 1] demo_program_eval(2) by (simp add: demo_begun_def s)
  with r0 show ?thesis by (rule reach.reach_step)
qed

lemma demo_reach: "reach (program_init POSIX demo_sys 1) (program_step POSIX demo_sys 1) demo_rooted"
proof -
  obtain g m where e: "woomem_allocate_end_as_root 0x100028 1 (pr_gc demo_begun, heap_mem (pr_heap demo_begun)) = (g, m)" by fastforce
  have "0x100028 \<in> set (pr_pending demo_begun)" by (simp add: demo_program_eval(4))
  from program_step.End_root [OF this e, of POSIX demo_sys 1]
  have "program_step POSIX demo_sys 1 demo_begun demo_rooted" by (simp only: demo_rooted_def e prod.case)
  with demo_begun_reach show ?thesis by (rule reach.reach_step)
qed

theorem program_safe_witness:
  "program_inv 1 demo_rooted \<and> m_root_gc_unit_set (pr_gc demo_rooted) = [0x100020] \<and>
   gc_cycle 1 (\<lambda>_. []) [] (pr_gc demo_rooted, collector_state demo_rooted) \<noteq> None \<and>
   (\<exists>a s. woomem_allocate_begin POSIX demo_sys 10000 (thread_state 0 demo_rooted) = Some (a, s) \<and> a - sizeof_UnitHead \<noteq> 0x100020)"
proof -
  note P = program_safe [OF demo_reach]
  then obtain a s where "woomem_allocate_begin POSIX demo_sys 10000 (thread_state 0 demo_rooted) = Some (a, s)"
      "a \<noteq> 0 \<longrightarrow> \<not> unit_in (pr_heap demo_rooted) (a - sizeof_UnitHead)"
    using demo_program_eval(7) by (auto dest!: spec [of _ 0] spec [of _ 10000])
  moreover have "unit_in (pr_heap demo_rooted) 0x100020" using P demo_program_eval(5) by (auto simp: program_inv_def)
  moreover have "gc_cycle 1 (\<lambda>_. []) [] (pr_gc demo_rooted, collector_state demo_rooted) \<noteq> None"
    using P calculation(3) by (auto simp: calls_valid_def)
  ultimately show ?thesis using P demo_program_eval(5) by (auto simp: sizeof_UnitHead_def)
qed

text \<open>C6: Collections in a running program. In every state a program reaches, unless the chain of pages is empty and a worker still
  has the list of an earlier cycle, a cycle with any callbacks that mark precisely only null or units in use comes to its end. The units in use after it are exactly the
  survivors: those in use before that the roots reach or that are exempt (being built, published in this round, or
  not to be swept). Each survivor is as before, white and a round older; no payload has changed.\<close>

theorem program_collects:
  fixes cb :: "addr \<Rightarrow> mark_call list" and begin_calls :: "mark_call list"
  assumes "reach (program_init tgt sys k) (program_step tgt sys k) y" and "sweep_lists_fresh (pr_gc y) (pr_heap y)"
    and "calls_valid (chunk_of (h_chunk (pr_heap y))) (heap_mem (pr_heap y)) begin_calls"
    and "\<forall>u. calls_valid (chunk_of (h_chunk (pr_heap y))) (heap_mem (pr_heap y)) (cb u)"
  shows "\<exists>g s fr. gc_cycle k cb begin_calls (pr_gc y, collector_state y) = Some (g, s, fr) \<and>
    (\<forall>u. unit_in (al_heap s) u \<longleftrightarrow> u \<in> survivors cb begin_calls y) \<and>
    (\<forall>u \<in> survivors cb begin_calls y. unit_at (heap_mem (al_heap s)) u = aged (unit_at (heap_mem (pr_heap y)) u)) \<and>
    word_at (heap_mem (al_heap s)) = word_at (heap_mem (pr_heap y))"
  using collect_inv [OF program.reach_inv [OF assms(1)] assms(2-4)] by blast

theorem program_collects_witness:
  "\<exists>g s fr. gc_cycle 1 (\<lambda>_. [Mark_fuzzy_unit 0x101234]) [] (pr_gc demo_rooted, collector_state demo_rooted) = Some (g, s, fr) \<and>
     unit_in (al_heap s) 0x100020 \<and> m_life (unit_at (heap_mem (al_heap s)) 0x100020) = UNMARKED"
proof -
  let ?cb = "\<lambda>_ :: addr. [Mark_fuzzy_unit 0x101234]"
  have ne: "sweep_lists_fresh (pr_gc demo_rooted) (pr_heap demo_rooted)" using demo_program_eval(6) by (simp add: sweep_lists_fresh_def)
  from program_collects [OF demo_reach ne, of "[]" ?cb] obtain g s fr where
    r: "gc_cycle 1 ?cb [] (pr_gc demo_rooted, collector_state demo_rooted) = Some (g, s, fr)"
      "\<forall>u. unit_in (al_heap s) u \<longleftrightarrow> u \<in> survivors ?cb [] demo_rooted"
      "\<forall>u \<in> survivors ?cb [] demo_rooted. unit_at (heap_mem (al_heap s)) u = aged (unit_at (heap_mem (pr_heap demo_rooted)) u)"
    by (auto simp: calls_valid_def)
  have inv: "program_inv 1 demo_rooted" using demo_reach by (rule program.reach_inv)
  have u: "unit_in (pr_heap demo_rooted) 0x100020" "m_life (unit_at (heap_mem (pr_heap demo_rooted)) 0x100020) = UNMARKED"
    using program_invD(4) [OF inv] demo_program_eval(5) by (auto simp: roots_ok_def)
  have "0x100020 \<in> survivors ?cb [] demo_rooted" using root_survives [OF inv] demo_program_eval(5) by simp
  then show ?thesis using r u(2) by (auto simp: aged_def)
qed

text \<open>C36: Empty pages of a pool are lost. In every state a program reaches, take a page that a pool offers and of which no unit
  survives the next cycle (callbacks as above). The sweep marks the page, \<open>remove_marked_run_out_pages\<close> takes it out of the
  pool and makes it run out, and nothing frees it: after the cycle it is still allocated, has no unit in use, is run out and
  is in no pool and held by no thread. The state after the cycle is a state of the program again and the same holds of a page
  that is already lost, so no later cycle frees it or brings it back.\<close>

theorem retired_page_leaks:
  fixes cb :: "addr \<Rightarrow> mark_call list" and begin_calls :: "mark_call list"
  assumes "reach (program_init tgt sys k) (program_step tgt sys k) y"
    and "calls_valid (chunk_of (h_chunk (pr_heap y))) (heap_mem (pr_heap y)) begin_calls"
    and "\<forall>u. calls_valid (chunk_of (h_chunk (pr_heap y))) (heap_mem (pr_heap y)) (cb u)"
    and "in_pool (pr_heap y) p \<and> (\<forall>u \<in> survivors cb begin_calls y. \<not> unit_of_page (heap_mem (pr_heap y)) p u) \<or>
      leaked (pr_heap y) (held (pr_threads y)) p"
  shows "\<exists>g s fr. gc_cycle k cb begin_calls (pr_gc y, collector_state y) = Some (g, s, fr) \<and>
    leaked (pr_heap (after_cycle g s y)) (held (pr_threads (after_cycle g s y))) p \<and>
    reach (program_init tgt sys k) (program_step tgt sys k) (after_cycle g s y)"
proof -
  have inv: "program_inv k y" using assms(1) by (rule program.reach_inv)
  note t = program_invD(1) [OF inv]
  obtain g where "unit_page (pr_heap y) p g"
    using assms(4) in_pool_page(1) [OF orderedD(1) [OF t], of p] unfolding leaked_def by blast
  then have "runs_of (pr_heap y) \<noteq> {}" by (auto simp: unit_page_def)
  then have f: "sweep_lists_fresh (pr_gc y) (pr_heap y)" using chain_empty [OF t] by (simp add: sweep_lists_fresh_def)
  from collect_inv [OF inv f assms(2,3)] assms(4) obtain g s fr where
    r: "gc_cycle k cb begin_calls (pr_gc y, collector_state y) = Some (g, s, fr)" "leaked (al_heap s) (held (pr_threads y)) p" by blast
  have "program_step tgt sys k y (after_cycle g s y)" by (rule program_step.Collect [OF f assms(2,3) r(1)])
  then have "reach (program_init tgt sys k) (program_step tgt sys k) (after_cycle g s y)" using assms(1) by (rule reach.reach_step [rotated])
  then show ?thesis using r by (intro exI [of _ g] exI [of _ s] exI [of _ fr]) simp
qed

text \<open>A thread publishes its unit, not as a root, and ends; its page goes to the pool.\<close>

definition demo_published :: "addr list program" where
  "demo_published = (with_heap (upd_mem (woomem_allocate_end (woomem_gc_marking_round_counter (pr_gc demo_begun)) 0x100028 1)) demo_begun)
     \<lparr>pr_pending := removeAll 0x100028 (pr_pending demo_begun)\<rparr>"

definition demo_left :: "addr list program" where
  "demo_left = (case ThreadContext_destroy 0 (wm_global (pr_library demo_published)) of
     Some x \<Rightarrow> with_global (\<lambda>_. x) demo_published | None \<Rightarrow> demo_published)"

lemma demo_left_eval:
  "length (pr_threads demo_published) = 1" "map_option m_thread_entries (ThreadContext_destroy 0 (wm_global (pr_library demo_published))) = Some []"
  "0x100000 \<in> set (m_free_pages (pr_heap demo_left) ! group_index MIDIUM_10904)" "m_root_gc_unit_set (pr_gc demo_left) = []"
  by code_simp+

lemma demo_published_page:
  "page_is_cut (heap_mem (pr_heap demo_published)) 0x100000" "page_group (heap_mem (pr_heap demo_published)) 0x100000 = MIDIUM_10904"
  "map (unit_life_of (heap_mem (pr_heap demo_published)) 0x100000) [8, 10920, 21832] = [UNMARKED, RELEASED, RELEASED]"
  "kept (woomem_gc_marking_round_counter (pr_gc demo_published) + 1) (unit_at (heap_mem (pr_heap demo_published)) 0x100020) = False"
  by code_simp+

lemma demo_left_reach:
  "reach (program_init POSIX demo_sys 1) (program_step POSIX demo_sys 1) demo_left"
  "heap_mem (pr_heap demo_left) = heap_mem (pr_heap demo_published)" "pr_gc demo_left = pr_gc demo_published" "held (pr_threads demo_left) = {}"
proof -
  have "program_step POSIX demo_sys 1 demo_begun demo_published"
    unfolding demo_published_def by (rule program_step.End) (simp add: demo_program_eval(4))
  note r = reach.reach_step [OF demo_begun_reach this]
  obtain x where x: "ThreadContext_destroy 0 (wm_global (pr_library demo_published)) = Some x" "m_thread_entries x = []"
    using demo_left_eval(2) by auto
  have "program_step POSIX demo_sys 1 demo_published demo_left"
    using program_step.Exit [OF _ x(1), of POSIX demo_sys 1] demo_left_eval(1) by (simp add: demo_left_def x(1))
  with r show "reach (program_init POSIX demo_sys 1) (program_step POSIX demo_sys 1) demo_left" by (rule reach.reach_step)
  have "h_chunk (gx_heap x) = h_chunk (pr_heap demo_published)"
    using exit_inv [OF program.reach_inv [OF r], of 0] x(1) demo_left_eval(1) by auto
  then show "heap_mem (pr_heap demo_left) = heap_mem (pr_heap demo_published)" by (simp add: demo_left_def x(1) heap_mem_def)
  show "pr_gc demo_left = pr_gc demo_published" "held (pr_threads demo_left) = {}" using x by (simp_all add: demo_left_def held_def)
qed

theorem retired_page_leaks_witness:
  "\<exists>g s fr g' s' fr'. gc_cycle 1 (\<lambda>_. []) [] (pr_gc demo_left, collector_state demo_left) = Some (g, s, fr) \<and>
     gc_cycle 1 (\<lambda>_. []) [] (g, collector_state (after_cycle g s demo_left)) = Some (g', s', fr') \<and>
     leaked (al_heap s') {} 0x100000"
proof -
  let ?y = demo_left and ?cb = "\<lambda>_ :: addr. [] :: mark_call list" and ?p = "0x100000 :: addr"
  let ?m = "heap_mem (pr_heap ?y)"
  have no: "calls_valid c m []" for c m by (simp add: calls_valid_def)
  note D = demo_left_reach and e = demo_published_page [folded demo_left_reach(2,3)]
  have "\<not> unit_of_page ?m ?p u" if "u \<in> survivors ?cb [] ?y" for u
  proof
    assume u: "unit_of_page ?m ?p u"
    have "u \<notin> gc_reachable c ?cb m (root_units c m [] (pr_gc ?y))" for c m
      using demo_left_eval(4) by (simp add: gc_reachable_def root_units_def call_units_def)
    then have k: "kept (woomem_gc_marking_round_counter (pr_gc ?y) + 1) (unit_at ?m u)" using that by (auto simp: survivors_def Let_def)
    have "u = unit_addr ?p 8" using u e(1-3) by (auto simp: unit_of_page_def page_live_def live_units_def demo_offsets)
    then have "u = 0x100020" by (simp add: unit_addr_def alloc_head_def sizeof_defs)
    with k e(4) show False by simp
  qed
  moreover have "in_pool (pr_heap ?y) ?p" using demo_left_eval(3) unfolding in_pool_def by (intro conjI exI [of _ MIDIUM_10904]) simp_all
  ultimately obtain g s fr where r: "gc_cycle 1 ?cb [] (pr_gc ?y, collector_state ?y) = Some (g, s, fr)"
      "leaked (pr_heap (after_cycle g s ?y)) (held (pr_threads (after_cycle g s ?y))) ?p"
      "reach (program_init POSIX demo_sys 1) (program_step POSIX demo_sys 1) (after_cycle g s ?y)"
    using retired_page_leaks [OF D(1) no, of ?cb ?p] no by blast
  from retired_page_leaks [OF r(3) no, of ?cb ?p] no r(2) obtain g' s' fr' where
    "gc_cycle 1 ?cb [] (pr_gc (after_cycle g s ?y), collector_state (after_cycle g s ?y)) = Some (g', s', fr')"
    "leaked (al_heap s') (held (pr_threads ?y)) ?p" by auto
  then show ?thesis using r(1) D(4) by auto
qed

end
