(* ===== verification/Woomem_Trigger.thy ===== *)
theory Woomem_Trigger
  imports Woomem_Gc_Cycle
begin

text \<open>
  Asking for a collection, \<open>trigger_gc\<close> of \<^verbatim>\<open>src/woomem_gc.cpp\<close>, against the waiting loop of \<open>main_thread_job\<close> and the
  destructor: any number of client threads below \<open>n\<close>, one step per access of the shared variables and per
  notification. A client checks its predicate under the mutex and then goes to sleep in one more step, because
  neither the main thread nor the destructor holds the mutex when it changes what the client waits for. The main
  thread waits with a timeout, so that it may look at its condition at any time.
\<close>

section \<open>State\<close>

text \<open>A client: not in a call, in an asynchronous call past its store, in a synchronous call with \<open>prev_count\<close> read,
  stored, checking the predicate, past a failed check, asleep, or returning.\<close>

datatype client_pc = TIdle | TAsync | TLoaded u64 | TStored u64 | TChecking u64 | TChecked u64 | TAsleep u64 | TReturned u64

text \<open>The main thread: in the waiting loop, past it, in the cycle, past the count of the cycle, ended.\<close>

datatype trigger_main = TMWait | TMBreak | TMRun | TMDone | TMEnded

record trigger =
  tr_gc :: gc
  tr_shutdown :: bool
  tr_main :: trigger_main
  tr_client :: "nat \<Rightarrow> client_pc"

abbreviation tr_count :: "trigger \<Rightarrow> u64" where
  "tr_count s \<equiv> m_gc_cycle_count (tr_gc s)"

abbreviation tr_force :: "trigger \<Rightarrow> bool" where
  "tr_force s \<equiv> m_force_trigger_gc (tr_gc s)"

section \<open>Operations\<close>

definition set_client :: "nat \<Rightarrow> client_pc \<Rightarrow> trigger \<Rightarrow> trigger" where
  "set_client t pc s = s\<lparr>tr_client := (tr_client s)(t := pc)\<rparr>"

definition force_trigger :: "bool \<Rightarrow> trigger \<Rightarrow> trigger" where
  "force_trigger b s = s\<lparr>tr_gc := (tr_gc s)\<lparr>m_force_trigger_gc := b\<rparr>\<rparr>"

fun wake_client :: "client_pc \<Rightarrow> client_pc" where
  "wake_client (TAsleep prev) = TChecking prev"
| "wake_client pc = pc"

definition trigger_pred :: "u64 \<Rightarrow> trigger \<Rightarrow> bool" where
  "trigger_pred prev_count s \<longleftrightarrow> prev_count < tr_count s \<or> tr_shutdown s"

text \<open>\<open>notify_one\<close>: a sleeping client, or the main thread, or nobody when nobody waits.\<close>

inductive notify_one :: "nat \<Rightarrow> trigger \<Rightarrow> trigger \<Rightarrow> bool" for n :: nat where
  wakes_client: "u < n \<Longrightarrow> tr_client s u = TAsleep p \<Longrightarrow> notify_one n s (set_client u (TChecking p) s)"
| wakes_main: "tr_main s = TMWait \<Longrightarrow> notify_one n s s"
| wakes_nobody: "(\<And>u p. u < n \<Longrightarrow> tr_client s u \<noteq> TAsleep p) \<Longrightarrow> notify_one n s s"

text \<open>The decision of the main thread after one wait.\<close>

definition main_decides :: "bool option \<Rightarrow> trigger_main" where
  "main_decides d = (case d of None \<Rightarrow> TMEnded | Some True \<Rightarrow> TMBreak | Some False \<Rightarrow> TMWait)"

inductive trigger_step :: "nat \<Rightarrow> trigger \<Rightarrow> trigger \<Rightarrow> bool" for n :: nat where
  async_store: "t < n \<Longrightarrow> tr_client s t = TIdle \<Longrightarrow> trigger_step n s (set_client t TAsync (force_trigger True s))"
| async_notify: "t < n \<Longrightarrow> tr_client s t = TAsync \<Longrightarrow> notify_one n (set_client t TIdle s) s' \<Longrightarrow> trigger_step n s s'"
| sync_load: "t < n \<Longrightarrow> tr_client s t = TIdle \<Longrightarrow> trigger_step n s (set_client t (TLoaded (tr_count s)) s)"
| sync_store: "t < n \<Longrightarrow> tr_client s t = TLoaded prev \<Longrightarrow> trigger_step n s (set_client t (TStored prev) (force_trigger True s))"
| sync_notify: "t < n \<Longrightarrow> tr_client s t = TStored prev \<Longrightarrow> notify_one n (set_client t (TChecking prev) s) s' \<Longrightarrow> trigger_step n s s'"
| sync_check: "t < n \<Longrightarrow> tr_client s t = TChecking prev \<Longrightarrow>
     trigger_step n s (set_client t (if trigger_pred prev s then TReturned prev else TChecked prev) s)"
| sync_sleep: "t < n \<Longrightarrow> tr_client s t = TChecked prev \<Longrightarrow> trigger_step n s (set_client t (TAsleep prev) s)"
| sync_return: "t < n \<Longrightarrow> tr_client s t = TReturned prev \<Longrightarrow> trigger_step n s (set_client t TIdle s)"
| main_wait: "tr_main s = TMWait \<Longrightarrow>
     trigger_step n s (s\<lparr>tr_main := main_decides (trigger_decision (tr_shutdown s) elapsed_10s new_alloc (tr_gc s))\<rparr>)"
| main_reset: "tr_main s = TMBreak \<Longrightarrow> trigger_step n s ((force_trigger False s)\<lparr>tr_main := TMRun\<rparr>)"
| main_cycle: "tr_main s = TMRun \<Longrightarrow> unat (tr_count s) + 1 < 2 ^ 64 \<Longrightarrow>
     trigger_step n s (s\<lparr>tr_gc := (tr_gc s)\<lparr>m_gc_cycle_count := tr_count s + 1\<rparr>, tr_main := TMDone\<rparr>)"
| main_notify: "tr_main s = TMDone \<Longrightarrow> trigger_step n s (s\<lparr>tr_main := TMWait, tr_client := wake_client \<circ> tr_client s\<rparr>)"
| destroy_gc: "\<not> tr_shutdown s \<Longrightarrow> trigger_step n s (s\<lparr>tr_shutdown := True\<rparr>)"

inductive trigger_step_spurious :: "nat \<Rightarrow> trigger \<Rightarrow> trigger \<Rightarrow> bool" for n :: nat where
  trigger_orderly: "trigger_step n s s' \<Longrightarrow> trigger_step_spurious n s s'"
| client_wakes: "tr_client s t = TAsleep prev \<Longrightarrow> trigger_step_spurious n s (set_client t (TChecking prev) s)"

definition trigger_init :: "trigger \<Rightarrow> bool" where
  "trigger_init s \<longleftrightarrow> \<not> tr_force s \<and> tr_count s = 0 \<and> \<not> tr_shutdown s \<and> tr_main s = TMWait \<and> tr_client s = (\<lambda>_. TIdle)"

section \<open>Invariant\<close>

text \<open>The count a call has read, and whether its request is in.\<close>

fun prev_of :: "client_pc \<Rightarrow> u64 option" where
  "prev_of (TLoaded p) = Some p"
| "prev_of (TStored p) = Some p"
| "prev_of (TChecking p) = Some p"
| "prev_of (TChecked p) = Some p"
| "prev_of (TAsleep p) = Some p"
| "prev_of (TReturned p) = Some p"
| "prev_of _ = None"

definition requested :: "client_pc \<Rightarrow> bool" where
  "requested pc \<longleftrightarrow> prev_of pc \<noteq> None \<and> (\<forall>p. pc \<noteq> TLoaded p)"

definition client_ok :: "trigger \<Rightarrow> client_pc \<Rightarrow> bool" where
  "client_ok s pc \<longleftrightarrow> (\<forall>p. prev_of pc = Some p \<longrightarrow> p \<le> tr_count s) \<and>
     (\<forall>p. pc = TReturned p \<longrightarrow> trigger_pred p s) \<and>
     (\<forall>p. requested pc \<and> prev_of pc = Some p \<longrightarrow>
        p < tr_count s \<or> tr_force s \<or> tr_main s = TMBreak \<or> tr_main s = TMRun \<or> tr_shutdown s \<and> tr_main s = TMEnded)"

definition trigger_inv :: "trigger \<Rightarrow> bool" where
  "trigger_inv s \<longleftrightarrow> (\<forall>t. client_ok s (tr_client s t)) \<and> (tr_main s = TMEnded \<longrightarrow> tr_shutdown s)"

lemma set_client_simps [simp]:
  "tr_gc (set_client t pc s) = tr_gc s" "tr_shutdown (set_client t pc s) = tr_shutdown s" "tr_main (set_client t pc s) = tr_main s"
  "tr_client (set_client t pc s) = (tr_client s)(t := pc)" "client_ok (set_client t pc s) = client_ok s"
  by (auto simp: set_client_def client_ok_def trigger_pred_def)

lemma force_trigger_simps [simp]:
  "tr_count (force_trigger b s) = tr_count s" "tr_force (force_trigger b s) = b" "tr_shutdown (force_trigger b s) = tr_shutdown s"
  "tr_main (force_trigger b s) = tr_main s" "tr_client (force_trigger b s) = tr_client s"
  by (simp_all add: force_trigger_def)

lemma wake_client_simps [simp]:
  "prev_of (wake_client pc) = prev_of pc" "requested (wake_client pc) = requested pc" "wake_client pc = TReturned p \<longleftrightarrow> pc = TReturned p"
  by (cases pc; simp add: requested_def)+

text \<open>A client keeps its condition when the shared state moves forward.\<close>

lemma client_ok_mono:
  assumes "client_ok s pc" "tr_count s \<le> tr_count s'" "tr_shutdown s \<longrightarrow> tr_shutdown s'"
    and "tr_force s \<or> tr_main s = TMBreak \<or> tr_main s = TMRun \<or> tr_shutdown s \<and> tr_main s = TMEnded \<Longrightarrow>
      tr_count s < tr_count s' \<or> tr_force s' \<or> tr_main s' = TMBreak \<or> tr_main s' = TMRun \<or> tr_shutdown s' \<and> tr_main s' = TMEnded"
  shows "client_ok s' pc"
proof -
  have "p < tr_count s' \<or> tr_force s' \<or> tr_main s' = TMBreak \<or> tr_main s' = TMRun \<or> tr_shutdown s' \<and> tr_main s' = TMEnded"
    if "requested pc" "prev_of pc = Some p" for p
  proof -
    have "p \<le> tr_count s" using assms(1) that(2) by (simp add: client_ok_def)
    with assms(1,4) that show ?thesis unfolding client_ok_def using assms(2) by (meson order_le_less_trans order_less_le_trans)
  qed
  moreover have "p \<le> tr_count s'" if "prev_of pc = Some p" for p
    using assms(1,2) that unfolding client_ok_def by (meson order_trans)
  moreover have "trigger_pred p s'" if "pc = TReturned p" for p
  proof -
    have "trigger_pred p s" using assms(1) that by (simp add: client_ok_def)
    then show ?thesis using assms(2,3) unfolding trigger_pred_def by (metis order_less_le_trans)
  qed
  ultimately show ?thesis unfolding client_ok_def by blast
qed

lemma trigger_inv_client:
  assumes "trigger_inv s" "client_ok s pc"
  shows "trigger_inv (set_client t pc s)"
  using assms by (simp add: trigger_inv_def)

lemma trigger_inv_force:
  assumes "trigger_inv s"
  shows "trigger_inv (force_trigger True s)"
  using assms client_ok_mono [of s _ "force_trigger True s"] by (auto simp: trigger_inv_def)

lemma client_ok_moved:
  assumes "client_ok s pc" "prev_of pc' = prev_of pc" "requested pc' = requested pc" "\<And>p. pc' = TReturned p \<Longrightarrow> trigger_pred p s"
  shows "client_ok s pc'"
proof -
  have "p \<le> tr_count s" if "prev_of pc' = Some p" for p using assms(1,2) that unfolding client_ok_def by simp
  moreover have "p < tr_count s \<or> tr_force s \<or> tr_main s = TMBreak \<or> tr_main s = TMRun \<or> tr_shutdown s \<and> tr_main s = TMEnded"
    if "requested pc'" "prev_of pc' = Some p" for p using assms(1-3) that unfolding client_ok_def by simp
  ultimately show ?thesis using assms(4) unfolding client_ok_def by blast
qed

lemma notify_one_inv: "notify_one n s s' \<Longrightarrow> trigger_inv s \<Longrightarrow> trigger_inv s'"
proof (induction rule: notify_one.induct)
  case (wakes_client u s p)
  have "client_ok s (tr_client s u)" using wakes_client(3) unfolding trigger_inv_def by blast
  then have "client_ok s (TChecking p)" unfolding wakes_client(2)
    by (rule client_ok_moved) (simp_all add: requested_def)
  then show ?case using wakes_client by (intro trigger_inv_client)
qed

text \<open>A client that moves on within its call, and the steps of the main thread.\<close>

lemma moved_inv:
  assumes "trigger_inv s" "tr_client s t = pc" "prev_of pc' = prev_of pc" "requested pc' = requested pc"
    "\<And>p. pc' = TReturned p \<Longrightarrow> trigger_pred p s"
  shows "trigger_inv (set_client t pc' s)"
proof -
  have "client_ok s pc" using assms(1,2) unfolding trigger_inv_def by blast
  from client_ok_moved [OF this assms(3-5)] show ?thesis by (rule trigger_inv_client [OF assms(1)])
qed

lemma idle_inv:
  assumes "trigger_inv s"
  shows "trigger_inv (set_client t TIdle s)" "trigger_inv (set_client t TAsync s)"
  by (rule trigger_inv_client [OF assms]; simp add: client_ok_def requested_def)+

lemma main_wait_inv:
  assumes inv: "trigger_inv s" and m: "tr_main s = TMWait"
  shows "trigger_inv (s\<lparr>tr_main := main_decides (trigger_decision (tr_shutdown s) e a (tr_gc s))\<rparr>)" (is "trigger_inv ?s")
proof -
  let ?d = "trigger_decision (tr_shutdown s) e a (tr_gc s)"
  have d: "?d = None \<longleftrightarrow> tr_shutdown s" by (auto simp: trigger_decision_def Let_def)
  moreover have "?d = Some True" if "tr_force s" "\<not> tr_shutdown s" using that by (simp add: trigger_decision_def)
  ultimately have "client_ok ?s (tr_client s t)" for t
    using client_ok_mono [of s "tr_client s t" ?s] inv m by (cases ?d) (auto simp: trigger_inv_def main_decides_def)
  then show ?thesis using d by (auto simp: trigger_inv_def main_decides_def split: option.splits bool.splits)
qed

lemma main_cycle_inv:
  assumes inv: "trigger_inv s" and m: "tr_main s = TMRun" "unat (tr_count s) + 1 < 2 ^ 64"
  shows "trigger_inv (s\<lparr>tr_gc := (tr_gc s)\<lparr>m_gc_cycle_count := tr_count s + 1\<rparr>, tr_main := TMDone\<rparr>)" (is "trigger_inv ?s")
proof -
  have "tr_count s < tr_count s + 1" using m(2) by (simp add: word_less_nat_alt unat_word_ariths(1))
  then show ?thesis using inv client_ok_mono [of s _ ?s] by (simp add: trigger_inv_def)
qed

lemma main_notify_inv:
  assumes inv: "trigger_inv s" and m: "tr_main s = TMDone"
  shows "trigger_inv (s\<lparr>tr_main := TMWait, tr_client := wake_client \<circ> tr_client s\<rparr>)" (is "trigger_inv ?s")
proof -
  have "client_ok ?s (wake_client (tr_client s t))" for t
  proof -
    have ok: "client_ok s (tr_client s t)" using inv unfolding trigger_inv_def by blast
    have "client_ok s (wake_client (tr_client s t))" by (rule client_ok_moved [OF ok]) (use ok in \<open>auto simp: client_ok_def\<close>)
    then show ?thesis using m client_ok_mono [of s _ ?s] by auto
  qed
  then show ?thesis by (simp add: trigger_inv_def)
qed

lemma sync_store_inv:
  assumes inv: "trigger_inv s" and t: "tr_client s t = TLoaded prev"
  shows "trigger_inv (set_client t (TStored prev) (force_trigger True s))"
proof -
  have "client_ok s (TLoaded prev)" using inv t unfolding trigger_inv_def by metis
  then have "client_ok (force_trigger True s) (TStored prev)" by (simp add: client_ok_def)
  then show ?thesis by (rule trigger_inv_client [OF trigger_inv_force [OF inv]])
qed

lemma main_other_inv:
  assumes "trigger_inv s"
  shows "tr_main s = TMBreak \<Longrightarrow> trigger_inv ((force_trigger False s)\<lparr>tr_main := TMRun\<rparr>)" "trigger_inv (s\<lparr>tr_shutdown := True\<rparr>)"
  using assms client_ok_mono [of s _ "(force_trigger False s)\<lparr>tr_main := TMRun\<rparr>"] client_ok_mono [of s _ "s\<lparr>tr_shutdown := True\<rparr>"]
  by (auto simp: trigger_inv_def)

lemma trigger_step_inv:
  assumes "trigger_inv s" "trigger_step_spurious n s s'"
  shows "trigger_inv s'"
  using assms(2)
proof cases
  case trigger_orderly
  note moved = moved_inv [OF assms(1)]
  from trigger_orderly show ?thesis
  proof cases
    case (sync_load t)
    have "client_ok s (TLoaded (tr_count s))" by (simp add: client_ok_def requested_def)
    then show ?thesis using sync_load trigger_inv_client [OF assms(1)] by simp
  next
    case (sync_notify t prev)
    have "trigger_inv (set_client t (TChecking prev) s)" by (rule moved [OF sync_notify(2)]) (simp_all add: requested_def)
    then show ?thesis using notify_one_inv [OF sync_notify(3)] by blast
  next
    case (sync_check t prev)
    show ?thesis unfolding sync_check(1) by (rule moved [OF sync_check(3)]) (auto simp: requested_def split: if_splits)
  next
    case (sync_sleep t prev)
    show ?thesis unfolding sync_sleep(1) by (rule moved [OF sync_sleep(3)]) (simp_all add: requested_def)
  qed (use assms(1) in \<open>auto intro: idle_inv trigger_inv_force sync_store_inv main_wait_inv main_cycle_inv main_notify_inv main_other_inv notify_one_inv\<close>)
next
  case (client_wakes t prev)
  show ?thesis unfolding client_wakes(1) by (rule moved_inv [OF assms(1) client_wakes(2)]) (simp_all add: requested_def)
qed

lemma trigger_init_inv: "trigger_init s \<Longrightarrow> trigger_inv s"
  by (simp add: trigger_init_def trigger_inv_def client_ok_def requested_def)

interpretation trigger: inductive_invariant trigger_init "trigger_step_spurious n" trigger_inv for n
  by unfold_locales (auto intro: trigger_init_inv trigger_step_inv)

section \<open>Properties\<close>

text \<open>C22: a request for a collection is not lost and is not answered early. In every reachable state, a synchronous
  call of \<open>trigger_gc\<close> that returns has seen a cycle end since it began, or the shutdown; and a call that has put its
  request in, while no cycle has ended since it began, finds the request still set, or the main thread on its way
  into a cycle or in one, unless the main thread has ended at the shutdown. A main thread that looks at a set request
  starts a cycle.\<close>

theorem trigger_not_lost:
  assumes "reach trigger_init (trigger_step_spurious n) s" and "prev_of (tr_client s t) = Some prev"
  shows "(tr_client s t = TReturned prev \<longrightarrow> prev < tr_count s \<or> tr_shutdown s) \<and>
    (tr_client s t \<noteq> TLoaded prev \<and> prev = tr_count s \<longrightarrow>
       tr_force s \<or> tr_main s = TMBreak \<or> tr_main s = TMRun \<or> tr_shutdown s \<and> tr_main s = TMEnded) \<and>
    (tr_force s \<and> \<not> tr_shutdown s \<longrightarrow> (\<forall>e a. main_decides (trigger_decision (tr_shutdown s) e a (tr_gc s)) = TMBreak))"
proof -
  have "client_ok s (tr_client s t)" using trigger.reach_inv [OF assms(1)] unfolding trigger_inv_def by blast
  moreover have "requested (tr_client s t)" if "tr_client s t \<noteq> TLoaded prev" using assms(2) that by (auto simp: requested_def)
  ultimately show ?thesis using assms(2) unfolding client_ok_def trigger_pred_def
    by (auto simp: trigger_decision_def main_decides_def)
qed

text \<open>One client that goes to sleep just when the collector is destroyed.\<close>

definition trigger_start :: "gc \<Rightarrow> trigger" where
  "trigger_start g = \<lparr>tr_gc = g\<lparr>m_force_trigger_gc := False, m_gc_cycle_count := 0\<rparr>, tr_shutdown = False, tr_main = TMWait, tr_client = (\<lambda>_. TIdle)\<rparr>"

definition trigger_waiting :: "gc \<Rightarrow> trigger" where
  "trigger_waiting g = set_client 0 (TChecked 0) (force_trigger True (trigger_start g))"

definition trigger_asleep :: "gc \<Rightarrow> trigger" where
  "trigger_asleep g = (set_client 0 (TAsleep 0) ((trigger_waiting g)\<lparr>tr_shutdown := True\<rparr>))\<lparr>tr_main := TMEnded\<rparr>"

lemma trigger_waiting_reach:
  assumes "\<And>s s'. trigger_step 1 s s' \<Longrightarrow> step s s'"
  shows "reach trigger_init step (trigger_waiting g)"
proof -
  let ?s = "trigger_start g" and ?f = "force_trigger True (trigger_start g)"
  have rule: "reach trigger_init step s \<Longrightarrow> trigger_step 1 s s' \<Longrightarrow> reach trigger_init step s'" for s s'
    using assms reach.reach_step by metis
  have "reach trigger_init step ?s" by (rule reach.reach_init) (simp add: trigger_init_def trigger_start_def)
  moreover have "trigger_step 1 ?s (set_client 0 (TLoaded 0) ?s)" using trigger_step.sync_load [of 0 1 ?s] by (simp add: trigger_start_def)
  moreover have "trigger_step 1 (set_client 0 (TLoaded 0) ?s) (set_client 0 (TStored 0) ?f)"
    using trigger_step.sync_store [of 0 1 "set_client 0 (TLoaded 0) ?s" 0] by (simp add: set_client_def force_trigger_def)
  moreover have "trigger_step 1 (set_client 0 (TStored 0) ?f) (set_client 0 (TChecking 0) ?f)"
    using trigger_step.sync_notify [of 0 1 "set_client 0 (TStored 0) ?f" 0, OF _ _ notify_one.wakes_main]
    by (simp add: set_client_def force_trigger_def trigger_start_def)
  moreover have "trigger_step 1 (set_client 0 (TChecking 0) ?f) (trigger_waiting g)"
    using trigger_step.sync_check [of 0 1 "set_client 0 (TChecking 0) ?f" 0]
    by (simp add: set_client_def force_trigger_def trigger_start_def trigger_waiting_def trigger_pred_def)
  ultimately show ?thesis using rule by blast
qed

theorem trigger_not_lost_witness:
  "\<forall>g. tr_client (trigger_waiting g) 0 = TChecked 0 \<and> tr_count (trigger_waiting g) = 0 \<and>
     (tr_force (trigger_waiting g) \<or> tr_main (trigger_waiting g) \<in> {TMBreak, TMRun, TMEnded})"
proof
  fix g
  have e: "tr_client (trigger_waiting g) 0 = TChecked 0" "tr_count (trigger_waiting g) = 0"
    by (simp_all add: trigger_waiting_def trigger_start_def)
  have "reach trigger_init (trigger_step_spurious 1) (trigger_waiting g)"
    by (rule trigger_waiting_reach) (rule trigger_step_spurious.trigger_orderly)
  from trigger_not_lost [OF this, of 0 0] e
  show "tr_client (trigger_waiting g) 0 = TChecked 0 \<and> tr_count (trigger_waiting g) = 0 \<and>
     (tr_force (trigger_waiting g) \<or> tr_main (trigger_waiting g) \<in> {TMBreak, TMRun, TMEnded})" by auto
qed

text \<open>C38: a synchronous call hangs when the collector is destroyed at the wrong moment. The destructor sets \<open>m_shutdown\<close>
  without notifying \<open>m_trigger_cv\<close>, and the main thread ends without notifying it either. There is a run in which a
  client has found its predicate false, the destructor sets the flag, the client goes to sleep and the main thread
  ends: the predicate the client sleeps on is true, and no thread can take a step any more.\<close>

theorem trigger_hangs_at_shutdown:
  "\<exists>s. reach trigger_init (trigger_step 1) s \<and> tr_client s 0 = TAsleep 0 \<and> trigger_pred 0 s \<and> tr_main s = TMEnded \<and>
     (\<forall>s'. \<not> trigger_step 1 s s')"
proof -
  fix g :: gc
  let ?w = "trigger_waiting g" and ?s = "trigger_asleep g"
  have m: "tr_main ?w = TMWait" "tr_client ?w 0 = TChecked 0" "\<not> tr_shutdown ?w" by (simp_all add: trigger_waiting_def trigger_start_def)
  have "reach trigger_init (trigger_step 1) ?w" by (rule trigger_waiting_reach)
  then have "reach trigger_init (trigger_step 1) (?w\<lparr>tr_shutdown := True\<rparr>)" using trigger_step.destroy_gc [OF m(3)] by (rule reach.reach_step)
  then have "reach trigger_init (trigger_step 1) (set_client 0 (TAsleep 0) (?w\<lparr>tr_shutdown := True\<rparr>))"
    by (rule reach.reach_step) (rule trigger_step.sync_sleep; simp add: m)
  moreover have "trigger_step 1 (set_client 0 (TAsleep 0) (?w\<lparr>tr_shutdown := True\<rparr>)) ?s"
    using trigger_step.main_wait [of "set_client 0 (TAsleep 0) (?w\<lparr>tr_shutdown := True\<rparr>)" 1 True 0] m(1)
    by (simp add: trigger_asleep_def trigger_decision_def main_decides_def set_client_def)
  ultimately have "reach trigger_init (trigger_step 1) ?s" by (rule reach.reach_step)
  moreover have f: "tr_client ?s 0 = TAsleep 0" "tr_main ?s = TMEnded" "tr_shutdown ?s" by (simp_all add: trigger_asleep_def)
  moreover have "\<not> trigger_step 1 ?s s'" for s'
  proof
    assume "trigger_step 1 ?s s'"
    then show False by cases (use f in auto)
  qed
  ultimately show ?thesis unfolding trigger_pred_def by blast
qed

end
