(* ===== verification/Woomem_Handoff.thy ===== *)
theory Woomem_Handoff
  imports Woomem_Memory "HOL-Library.Multiset"
begin

text \<open>
  Marking by the program's threads while a worker marks, \<open>mark_unit_to_gray\<close>, \<open>mark_root_unit_to_gray\<close> and
  \<open>process_gray_units\<close> of \<^verbatim>\<open>src/woomem_gc.cpp\<close> with one step per access of what they share: the life of the units,
  the gray queue, the lock \<open>m_local_work_spin_for_root\<close>, the flag \<open>m_is_draining\<close>, the vector \<open>m_local_work\<close>, which is
  not itself protected against concurrent access, and \<open>woomem_gc_marking_state_flag\<close>, which the collector's main thread
  sets and clears in its cycle. There is one worker; the queue is the bounded first-in first-out queue that
  \<open>Woomem_Mpsc_Props\<close> shows it to be; what a scan of a unit marks is arbitrary. A failed assertion is a state of its own.
\<close>

section \<open>State\<close>

text \<open>A thread of the program: in \<open>mark_unit_to_gray\<close> before the enqueue, after a failed one, wanting the lock, holding it,
  past the second check of the flag, and about to release the lock; in \<open>mark_root_unit_to_gray\<close> at the assertion, past it, and
  holding the lock; \<open>RAbort\<close> is a thread whose assertion has failed.\<close>

datatype ext_pc = EIdle | EEnqueue addr | EFull addr | EWant addr | ELocked addr | EPush addr | EUnlock
  | RAssert addr | RWant addr | RPush addr | RAbort addr

text \<open>The worker: outside, entering \<open>process_gray_units\<close>, and in its loop; \<open>HAbort\<close> after a failed assertion.\<close>

datatype handoff_worker = HIdle | HWant | HLocked | HSet | HLoop | HCheck | HScan addr | HExit | HAbort

text \<open>The main thread of the collector: between cycles or sweeping, marking roots, waiting for the parallel marking, stopping the
  marking, and waiting for the final marking.\<close>

datatype handoff_main = MIdle | MRoots | MParallel | MStop | MFinal

datatype lock_holder = Free_lock | Ext nat | Worker

record handoff =
  ho_life :: "addr \<Rightarrow> unit_life"
  ho_queue :: "addr list"
  ho_lock :: lock_holder
  ho_draining :: bool
  ho_local :: "addr list"
  ho_launched :: bool
  ho_flag :: bool
  ho_ext :: "nat \<Rightarrow> ext_pc"
  ho_worker :: handoff_worker
  ho_main :: handoff_main

abbreviation set_ext :: "nat \<Rightarrow> ext_pc \<Rightarrow> handoff \<Rightarrow> handoff" where
  "set_ext t pc s \<equiv> s\<lparr>ho_ext := (ho_ext s)(t := pc)\<rparr>"

text \<open>Who uses the vector next.\<close>

fun uses_local :: "handoff_worker \<Rightarrow> bool" where
  "uses_local HLoop = True"
| "uses_local HCheck = True"
| "uses_local (HScan u) = True"
| "uses_local _ = False"

fun pushes_local :: "ext_pc \<Rightarrow> bool" where
  "pushes_local (EPush u) = True"
| "pushes_local (RPush u) = True"
| "pushes_local _ = False"

fun marks_root :: "ext_pc \<Rightarrow> bool" where
  "marks_root (RAssert u) = True"
| "marks_root (RWant u) = True"
| "marks_root (RPush u) = True"
| "marks_root (RAbort u) = True"
| "marks_root _ = False"

section \<open>Steps\<close>

text \<open>\<open>mark_unit_to_gray\<close> in a thread of the program; \<open>cap\<close> is the capacity of the queue.\<close>

inductive ext_step :: "nat \<Rightarrow> handoff \<Rightarrow> handoff \<Rightarrow> bool" for cap :: nat where
  ext_mark: "ho_ext s t = EIdle \<Longrightarrow> ho_life s u = UNMARKED \<Longrightarrow>
     ext_step cap s (set_ext t (EEnqueue u) (s\<lparr>ho_life := (ho_life s)(u := SELF_MARKED)\<rparr>))"
| ext_enqueue: "ho_ext s t = EEnqueue u \<Longrightarrow> length (ho_queue s) < cap \<Longrightarrow>
     ext_step cap s (set_ext t EIdle (s\<lparr>ho_queue := ho_queue s @ [u]\<rparr>))"
| ext_full: "ho_ext s t = EEnqueue u \<Longrightarrow> \<not> length (ho_queue s) < cap \<Longrightarrow> ext_step cap s (set_ext t (EFull u) s)"
| ext_check: "ho_ext s t = EFull u \<Longrightarrow> ext_step cap s (set_ext t (if ho_draining s then EEnqueue u else EWant u) s)"
| ext_lock: "ho_ext s t = EWant u \<Longrightarrow> ho_lock s = Free_lock \<Longrightarrow> ext_step cap s (set_ext t (ELocked u) (s\<lparr>ho_lock := Ext t\<rparr>))"
| ext_recheck: "ho_ext s t = ELocked u \<Longrightarrow> \<not> ho_draining s \<Longrightarrow> ext_step cap s (set_ext t (EPush u) s)"
| ext_retry: "ho_ext s t = ELocked u \<Longrightarrow> ho_draining s \<Longrightarrow> ext_step cap s (set_ext t (EEnqueue u) (s\<lparr>ho_lock := Free_lock\<rparr>))"
| ext_push: "ho_ext s t = EPush u \<Longrightarrow> ext_step cap s (set_ext t EUnlock (s\<lparr>ho_local := u # ho_local s\<rparr>))"
| ext_unlock: "ho_ext s t = EUnlock \<Longrightarrow> ext_step cap s (set_ext t EIdle (s\<lparr>ho_lock := Free_lock\<rparr>))"

text \<open>
  \<open>mark_root_unit_to_gray\<close>: the exchange, the assertion, and the push under the lock. With \<open>strict\<close> it is called only in
  step 2 of the cycle, by the begin callback or the main thread itself; without it, at any time.
\<close>

inductive root_step :: "bool \<Rightarrow> handoff \<Rightarrow> handoff \<Rightarrow> bool" for strict :: bool where
  root_mark: "(strict \<longrightarrow> ho_main s = MRoots) \<Longrightarrow> ho_ext s t = EIdle \<Longrightarrow> ho_life s u = UNMARKED \<Longrightarrow>
     root_step strict s (set_ext t (RAssert u) (s\<lparr>ho_life := (ho_life s)(u := SELF_MARKED)\<rparr>))"
| root_assert: "ho_ext s t = RAssert u \<Longrightarrow> root_step strict s (set_ext t (if ho_flag s then RWant u else RAbort u) s)"
| root_lock: "ho_ext s t = RWant u \<Longrightarrow> ho_lock s = Free_lock \<Longrightarrow> root_step strict s (set_ext t (RPush u) (s\<lparr>ho_lock := Ext t\<rparr>))"
| root_push: "ho_ext s t = RPush u \<Longrightarrow> root_step strict s (set_ext t EUnlock (s\<lparr>ho_local := u # ho_local s\<rparr>))"

text \<open>\<open>process_gray_units\<close>, once per launch.\<close>

inductive worker_step :: "handoff \<Rightarrow> handoff \<Rightarrow> bool" where
  w_start: "ho_worker s = HIdle \<Longrightarrow> ho_launched s \<Longrightarrow> worker_step s (s\<lparr>ho_worker := HWant\<rparr>)"
| w_lock: "ho_worker s = HWant \<Longrightarrow> ho_lock s = Free_lock \<Longrightarrow> worker_step s (s\<lparr>ho_lock := Worker, ho_worker := HLocked\<rparr>)"
| w_set: "ho_worker s = HLocked \<Longrightarrow> worker_step s (s\<lparr>ho_draining := True, ho_worker := HSet\<rparr>)"
| w_unlock: "ho_worker s = HSet \<Longrightarrow> worker_step s (s\<lparr>ho_lock := Free_lock, ho_worker := HLoop\<rparr>)"
| w_drain: "ho_worker s = HLoop \<Longrightarrow> ho_local s = [] \<Longrightarrow>
     worker_step s (s\<lparr>ho_local := rev (take k (ho_queue s)), ho_queue := drop k (ho_queue s), ho_worker := HCheck\<rparr>)"
| w_has_work: "ho_worker s = HLoop \<Longrightarrow> ho_local s \<noteq> [] \<Longrightarrow> worker_step s (s\<lparr>ho_worker := HCheck\<rparr>)"
| w_pop: "ho_worker s = HCheck \<Longrightarrow> ho_local s = u # rest \<Longrightarrow> ho_life s u = SELF_MARKED \<Longrightarrow>
     worker_step s (s\<lparr>ho_local := rest, ho_worker := HScan u\<rparr>)"
| w_abort: "ho_worker s = HCheck \<Longrightarrow> ho_local s = u # rest \<Longrightarrow> ho_life s u \<noteq> SELF_MARKED \<Longrightarrow> worker_step s (s\<lparr>ho_worker := HAbort\<rparr>)"
| w_mark: "ho_worker s = HScan u \<Longrightarrow> ho_life s v = UNMARKED \<Longrightarrow>
     worker_step s (s\<lparr>ho_life := (ho_life s)(v := SELF_MARKED), ho_local := v # ho_local s\<rparr>)"
| w_black: "ho_worker s = HScan u \<Longrightarrow> worker_step s (s\<lparr>ho_life := (ho_life s)(u := FULL_MARKED), ho_worker := HLoop\<rparr>)"
| w_empty: "ho_worker s = HCheck \<Longrightarrow> ho_local s = [] \<Longrightarrow> worker_step s (s\<lparr>ho_worker := HExit\<rparr>)"
| w_exit: "ho_worker s = HExit \<Longrightarrow> worker_step s (s\<lparr>ho_draining := False, ho_launched := False, ho_worker := HIdle\<rparr>)"

text \<open>
  The cycle of \<open>main_thread_job\<close>: step 1 sets the flag, step 3 launches the parallel marking, with \<open>strict\<close> after all
  roots are marked, step 4 clears the flag when the worker is done, step 5 launches the final marking; afterwards the
  sweep makes black units white.
\<close>

inductive main_step :: "bool \<Rightarrow> handoff \<Rightarrow> handoff \<Rightarrow> bool" for strict :: bool where
  m_begin: "ho_main s = MIdle \<Longrightarrow> main_step strict s (s\<lparr>ho_flag := True, ho_main := MRoots\<rparr>)"
| m_launch: "ho_main s = MRoots \<Longrightarrow> (strict \<longrightarrow> (\<forall>t. \<not> marks_root (ho_ext s t))) \<Longrightarrow>
     main_step strict s (s\<lparr>ho_launched := True, ho_main := MParallel\<rparr>)"
| m_stop: "ho_main s = MParallel \<Longrightarrow> \<not> ho_launched s \<Longrightarrow> main_step strict s (s\<lparr>ho_flag := False, ho_main := MStop\<rparr>)"
| m_final: "ho_main s = MStop \<Longrightarrow> main_step strict s (s\<lparr>ho_launched := True, ho_main := MFinal\<rparr>)"
| m_sweep: "ho_main s = MFinal \<Longrightarrow> \<not> ho_launched s \<Longrightarrow>
     main_step strict s (s\<lparr>ho_life := (\<lambda>u. if ho_life s u = FULL_MARKED then UNMARKED else ho_life s u), ho_main := MIdle\<rparr>)"

definition handoff_step :: "nat \<Rightarrow> bool \<Rightarrow> handoff \<Rightarrow> handoff \<Rightarrow> bool" where
  "handoff_step cap strict s s' \<longleftrightarrow> ext_step cap s s' \<or> root_step strict s s' \<or> worker_step s s' \<or> main_step strict s s'"

definition handoff_init :: "handoff \<Rightarrow> bool" where
  "handoff_init s \<longleftrightarrow> (\<forall>u. ho_life s u \<noteq> SELF_MARKED) \<and> ho_queue s = [] \<and> ho_lock s = Free_lock \<and> \<not> ho_draining s \<and> ho_local s = [] \<and>
     \<not> ho_launched s \<and> \<not> ho_flag s \<and> ho_ext s = (\<lambda>_. EIdle) \<and> ho_worker s = HIdle \<and> ho_main s = MIdle"

section \<open>Gray units\<close>

text \<open>The unit a thread carries, and where the gray units are: each is carried by one thread, or it is once among the
  units the worker has or will get.\<close>

fun carried :: "ext_pc \<Rightarrow> addr option" where
  "carried EIdle = None"
| "carried EUnlock = None"
| "carried (EEnqueue u) = Some u"
| "carried (EFull u) = Some u"
| "carried (EWant u) = Some u"
| "carried (ELocked u) = Some u"
| "carried (EPush u) = Some u"
| "carried (RAssert u) = Some u"
| "carried (RWant u) = Some u"
| "carried (RAbort u) = Some u"
| "carried (RPush u) = Some u"

fun scanned :: "handoff_worker \<Rightarrow> addr list" where
  "scanned (HScan u) = [u]"
| "scanned _ = []"

definition worker_units :: "handoff \<Rightarrow> addr list" where
  "worker_units s = ho_local s @ ho_queue s @ scanned (ho_worker s)"

definition gray_inv :: "(addr \<Rightarrow> unit_life) \<Rightarrow> (nat \<Rightarrow> addr option) \<Rightarrow> addr list \<Rightarrow> bool" where
  "gray_inv life flight bag \<longleftrightarrow> distinct bag \<and>
     (\<forall>t u. flight t = Some u \<longrightarrow> u \<notin> set bag) \<and>
     (\<forall>t t' u. flight t = Some u \<longrightarrow> flight t' = Some u \<longrightarrow> t = t') \<and>
     (\<forall>u. life u = SELF_MARKED \<longleftrightarrow> u \<in> set bag \<or> (\<exists>t. flight t = Some u))"

lemma gray_perm: "gray_inv l f bag \<Longrightarrow> mset bag' = mset bag \<Longrightarrow> gray_inv l f bag'"
  unfolding gray_inv_def by (metis mset_eq_imp_distinct_iff mset_eq_setD)

lemma not_gray:
  assumes "gray_inv l f bag" "l u = UNMARKED"
  shows "u \<notin> set bag" "f t \<noteq> Some u"
  using assms unfolding gray_inv_def by (metis unit_life.distinct)+

lemma ex_upd: "(\<exists>t'. (f(t := x)) t' = Some v) \<longleftrightarrow> x = Some v \<or> (\<exists>t'. t' \<noteq> t \<and> f t' = Some v)"
  by (metis fun_upd_apply)

lemma gray_new_flight:
  assumes "gray_inv l f bag" "l u = UNMARKED" "f t = None"
  shows "gray_inv (l(u := SELF_MARKED)) (f(t := Some u)) bag"
proof -
  note n = not_gray [OF assms(1,2)]
  have "(\<exists>t'. t' \<noteq> t \<and> f t' = Some v) \<longleftrightarrow> (\<exists>t'. f t' = Some v)" for v using assms(3) by (metis option.distinct(1))
  then show ?thesis using assms(1) n unfolding gray_inv_def ex_upd by (auto split: if_splits)
qed

lemma gray_land:
  assumes "gray_inv l f bag" "f t = Some u"
  shows "gray_inv l (f(t := None)) (u # bag)"
proof -
  have u: "t' = t" if "f t' = Some u" for t' using assms that unfolding gray_inv_def by blast
  have "(\<exists>t'. t' \<noteq> t \<and> f t' = Some v) \<longleftrightarrow> v \<noteq> u \<and> (\<exists>t'. f t' = Some v)" for v using u assms(2) by (metis option.inject)
  moreover have "u \<notin> set bag" "l u = SELF_MARKED" using assms unfolding gray_inv_def by blast+
  ultimately show ?thesis using assms(1) u unfolding gray_inv_def ex_upd by (auto split: if_splits)
qed

lemma gray_new_bag:
  assumes "gray_inv l f bag" "l v = UNMARKED"
  shows "gray_inv (l(v := SELF_MARKED)) f (v # bag)"
  using assms(1) not_gray [OF assms] unfolding gray_inv_def by (auto split: if_splits)

lemma gray_black: "gray_inv l f (u # bag) \<Longrightarrow> gray_inv (l(u := FULL_MARKED)) f bag"
  unfolding gray_inv_def by (auto split: if_splits)

lemma gray_white: "gray_inv l f bag \<Longrightarrow> gray_inv (\<lambda>u. if l u = FULL_MARKED then UNMARKED else l u) f bag"
  unfolding gray_inv_def by (auto; metis unit_life.distinct)

definition units_inv :: "handoff \<Rightarrow> bool" where
  "units_inv s \<longleftrightarrow> gray_inv (ho_life s) (carried \<circ> ho_ext s) (worker_units s)"

lemma carried_upd [simp]: "carried \<circ> f(t := pc) = (carried \<circ> f)(t := carried pc)"
  by auto

lemma carried_same: "carried (f t) = c \<Longrightarrow> (carried \<circ> f)(t := c) = carried \<circ> f"
  by auto

lemma units_new:
  assumes "units_inv s" "ho_ext s t = EIdle" "ho_life s u = UNMARKED" "carried pc = Some u"
  shows "units_inv (set_ext t pc (s\<lparr>ho_life := (ho_life s)(u := SELF_MARKED)\<rparr>))"
  using assms gray_new_flight [of _ "carried \<circ> ho_ext s" _ u t] by (simp add: units_inv_def worker_units_def)

lemma units_push:
  assumes "units_inv s" "carried (ho_ext s t) = Some u"
  shows "units_inv (set_ext t EUnlock (s\<lparr>ho_local := u # ho_local s\<rparr>))"
  using assms gray_land by (simp add: units_inv_def worker_units_def)

lemma units_ext:
  assumes "units_inv s" "ext_step cap s s'"
  shows "units_inv s'"
  using assms(2)
proof cases
  case (ext_enqueue t u)
  then have "gray_inv (ho_life s) ((carried \<circ> ho_ext s)(t := None)) (u # worker_units s)"
    using assms(1) gray_land by (simp add: units_inv_def)
  then show ?thesis using ext_enqueue by (auto simp: units_inv_def worker_units_def elim!: gray_perm)
next
  case (ext_mark t u)
  then show ?thesis using units_new [OF assms(1)] by simp
next
  case (ext_push t u)
  then show ?thesis using units_push [OF assms(1)] by simp
qed (use assms(1) in \<open>auto simp: units_inv_def worker_units_def carried_same split: if_splits\<close>)

lemma units_root:
  assumes "units_inv s" "root_step strict s s'"
  shows "units_inv s'"
  using assms(2)
proof cases
  case (root_mark t u)
  then show ?thesis using units_new [OF assms(1)] by simp
next
  case (root_push t u)
  then show ?thesis using units_push [OF assms(1)] by simp
qed (use assms(1) in \<open>auto simp: units_inv_def worker_units_def carried_same split: if_splits\<close>)

lemma units_worker:
  assumes "units_inv s" "worker_step s s'"
  shows "units_inv s'"
  using assms(2)
proof cases
  case (w_mark u v)
  then show ?thesis using assms(1) gray_new_bag by (simp add: units_inv_def worker_units_def)
next
  case (w_black u)
  then have "gray_inv (ho_life s) (carried \<circ> ho_ext s) (u # ho_local s @ ho_queue s)"
    using assms(1) by (auto simp: units_inv_def worker_units_def elim!: gray_perm)
  then show ?thesis using w_black gray_black by (simp add: units_inv_def worker_units_def)
next
  case (w_pop u rest)
  then show ?thesis using assms(1) by (auto simp: units_inv_def worker_units_def elim!: gray_perm)
next
  case (w_drain k)
  have "mset (rev (take k (ho_queue s)) @ drop k (ho_queue s)) = mset (ho_queue s)" by (metis append_take_drop_id mset_append mset_rev)
  then show ?thesis using w_drain assms(1) by (auto simp: units_inv_def worker_units_def elim!: gray_perm)
qed (use assms(1) in \<open>auto simp: units_inv_def worker_units_def\<close>)

lemma units_main: "units_inv s \<Longrightarrow> main_step strict s s' \<Longrightarrow> units_inv s'"
  by (erule main_step.cases) (auto simp: units_inv_def worker_units_def gray_white)

section \<open>Exclusive access\<close>

fun holds_lock :: "ext_pc \<Rightarrow> bool" where
  "holds_lock (ELocked u) = True"
| "holds_lock (EPush u) = True"
| "holds_lock (RPush u) = True"
| "holds_lock EUnlock = True"
| "holds_lock _ = False"

definition worker_locks :: "handoff_worker \<Rightarrow> bool" where
  "worker_locks w \<longleftrightarrow> w = HLocked \<or> w = HSet"

definition drains :: "handoff_worker \<Rightarrow> bool" where
  "drains w \<longleftrightarrow> w \<noteq> HIdle \<and> w \<noteq> HWant \<and> w \<noteq> HLocked"

definition sync_inv :: "handoff \<Rightarrow> bool" where
  "sync_inv s \<longleftrightarrow> (\<forall>t. holds_lock (ho_ext s t) \<longleftrightarrow> ho_lock s = Ext t) \<and> (worker_locks (ho_worker s) \<longleftrightarrow> ho_lock s = Worker) \<and>
     (ho_draining s \<longleftrightarrow> drains (ho_worker s)) \<and> (\<forall>t u. ho_ext s t = EPush u \<longrightarrow> \<not> ho_draining s) \<and>
     (ho_worker s \<noteq> HIdle \<longrightarrow> ho_launched s) \<and> (ho_launched s \<longrightarrow> ho_main s = MParallel \<or> ho_main s = MFinal) \<and>
     (ho_flag s \<longleftrightarrow> ho_main s = MRoots \<or> ho_main s = MParallel) \<and> ho_worker s \<noteq> HAbort"

text \<open>With roots marked in step 2 only, no thread marks a root in another step and no assertion fails.\<close>

definition roots_inv :: "handoff \<Rightarrow> bool" where
  "roots_inv s \<longleftrightarrow> (\<forall>t. (marks_root (ho_ext s t) \<longrightarrow> ho_main s = MRoots) \<and> (\<forall>u. ho_ext s t \<noteq> RAbort u))"

lemma uses_local_drains: "uses_local w \<Longrightarrow> drains w"
  by (cases w) (simp_all add: drains_def)

lemmas sync_defs = sync_inv_def worker_locks_def drains_def

lemma sync_inv_ext:
  assumes "sync_inv s" "holds_lock (ho_ext s t) = holds_lock pc" "\<And>u. pc = EPush u \<Longrightarrow> \<not> ho_draining s"
    "ho_lock s' = ho_lock s" "ho_draining s' = ho_draining s" "ho_launched s' = ho_launched s" "ho_worker s' = ho_worker s"
    "ho_flag s' = ho_flag s" "ho_main s' = ho_main s" "ho_ext s' = (ho_ext s)(t := pc)"
  shows "sync_inv s'"
  using assms by (auto simp: sync_inv_def)

lemma sync_inv_lock:
  assumes "sync_inv s" "ho_lock s = Free_lock" "holds_lock pc" "\<And>u. pc \<noteq> EPush u"
  shows "sync_inv (set_ext t pc (s\<lparr>ho_lock := Ext t\<rparr>))"
  using assms by (auto simp: sync_inv_def)

lemma sync_inv_release:
  assumes "sync_inv s" "holds_lock (ho_ext s t)" "\<not> holds_lock pc" "\<And>u. pc \<noteq> EPush u"
  shows "sync_inv (set_ext t pc (s\<lparr>ho_lock := Free_lock\<rparr>))"
proof -
  have "ho_lock s = Ext t" using assms(1,2) by (simp add: sync_inv_def)
  then show ?thesis using assms by (auto simp: sync_inv_def)
qed

lemma sync_ext:
  assumes "sync_inv s" "ext_step cap s s'"
  shows "sync_inv s'"
  using assms(2)
proof cases
  case (ext_mark t u)
  then show ?thesis using sync_inv_ext [OF assms(1), of t "EEnqueue u" s'] by simp
next
  case (ext_enqueue t u)
  then show ?thesis using sync_inv_ext [OF assms(1), of t EIdle s'] by simp
next
  case (ext_full t u)
  then show ?thesis using sync_inv_ext [OF assms(1), of t "EFull u" s'] by simp
next
  case (ext_recheck t u)
  then show ?thesis using sync_inv_ext [OF assms(1), of t "EPush u" s'] by simp
next
  case (ext_push t u)
  then show ?thesis using sync_inv_ext [OF assms(1), of t EUnlock s'] by simp
next
  case (ext_check t u)
  then show ?thesis using sync_inv_ext [OF assms(1), of t "EEnqueue u" s'] sync_inv_ext [OF assms(1), of t "EWant u" s']
    by (cases "ho_draining s") simp_all
next
  case (ext_lock t u)
  then show ?thesis using sync_inv_lock [OF assms(1), of "ELocked u" t] by simp
next
  case (ext_retry t u)
  then show ?thesis using sync_inv_release [OF assms(1), of t "EEnqueue u"] by simp
next
  case (ext_unlock t)
  then show ?thesis using sync_inv_release [OF assms(1), of t EIdle] by simp
qed

lemma sync_root:
  assumes "sync_inv s" "root_step strict s s'"
  shows "sync_inv s'"
  using assms(2)
proof cases
  case (root_mark t u)
  then show ?thesis using sync_inv_ext [OF assms(1), of t "RAssert u" s'] by simp
next
  case (root_assert t u)
  then show ?thesis using sync_inv_ext [OF assms(1), of t "RWant u" s'] sync_inv_ext [OF assms(1), of t "RAbort u" s']
    by (cases "ho_flag s") simp_all
next
  case (root_lock t u)
  then show ?thesis using sync_inv_lock [OF assms(1), of "RPush u" t] by simp
next
  case (root_push t u)
  then show ?thesis using sync_inv_ext [OF assms(1), of t EUnlock s'] by simp
qed

lemma sync_worker:
  assumes "sync_inv s" "units_inv s" "worker_step s s'"
  shows "sync_inv s'"
  using assms(3)
proof cases
  case w_set
  have "\<not> holds_lock (ho_ext s t)" for t using assms(1) w_set(2) by (auto simp: sync_defs)
  then have "ho_ext s t \<noteq> EPush u" for t u by (metis holds_lock.simps(2))
  then show ?thesis using assms(1) w_set by (simp add: sync_defs)
next
  case (w_abort u rest)
  then show ?thesis using assms(2) by (auto simp: units_inv_def gray_inv_def worker_units_def)
qed (use assms(1) in \<open>auto simp: sync_defs split: if_splits\<close>)

lemma sync_main: "sync_inv s \<Longrightarrow> main_step strict s s' \<Longrightarrow> sync_inv s'"
  by (erule main_step.cases) (auto simp: sync_defs)

lemma roots_kept:
  assumes "roots_inv s" "ho_main s' = ho_main s" "ho_ext s' = (ho_ext s)(t := pc)" "marks_root pc \<Longrightarrow> ho_main s = MRoots" "\<And>u. pc \<noteq> RAbort u"
  shows "roots_inv s'"
  using assms by (auto simp: roots_inv_def)

lemma roots_root:
  assumes r: "roots_inv s" and y: "sync_inv s" and st: "root_step True s s'"
  shows "roots_inv s'"
  using st
proof cases
  case (root_mark t u)
  then show ?thesis using roots_kept [OF r, of s' t "RAssert u"] by simp
next
  case (root_assert t u)
  then have "ho_main s = MRoots" using r unfolding roots_inv_def by (metis marks_root.simps(1))
  then show ?thesis using root_assert y roots_kept [OF r, of s' t "RWant u"] by (simp add: sync_inv_def)
next
  case (root_lock t u)
  then have "ho_main s = MRoots" using r unfolding roots_inv_def by (metis marks_root.simps(2))
  then show ?thesis using root_lock roots_kept [OF r, of s' t "RPush u"] by simp
next
  case (root_push t u)
  then show ?thesis using roots_kept [OF r, of s' t EUnlock] by simp
qed

lemma roots_inv_step:
  assumes "roots_inv s" "sync_inv s" "handoff_step cap True s s'"
  shows "roots_inv s'"
  using assms(3) unfolding handoff_step_def
proof (elim disjE)
  assume "ext_step cap s s'"
  then show ?thesis by cases (use assms(1) in \<open>auto simp: roots_inv_def split: if_splits\<close>)
next
  assume "worker_step s s'"
  then show ?thesis by cases (use assms(1) in \<open>auto simp: roots_inv_def\<close>)
next
  assume "main_step True s s'"
  then show ?thesis
  proof cases
    case m_launch
    then show ?thesis using assms(1) by (auto simp: roots_inv_def)
  qed (use assms(1) in \<open>auto simp: roots_inv_def\<close>)
qed (rule roots_root [OF assms(1,2)])

interpretation handoff: inductive_invariant handoff_init "handoff_step cap True" "\<lambda>s. units_inv s \<and> sync_inv s \<and> roots_inv s" for cap
proof unfold_locales
  show "units_inv s \<and> sync_inv s \<and> roots_inv s" if "handoff_init s" for s
    using that by (auto simp: handoff_init_def units_inv_def gray_inv_def worker_units_def sync_defs roots_inv_def)
  show "units_inv s' \<and> sync_inv s' \<and> roots_inv s'" if "units_inv s \<and> sync_inv s \<and> roots_inv s" "handoff_step cap True s s'" for s s'
    using that roots_inv_step units_ext units_root units_worker units_main sync_ext sync_root sync_worker sync_main
    unfolding handoff_step_def by metis
qed

section \<open>Properties\<close>

text \<open>C16: marking by the program's threads and by a worker share \<open>m_local_work\<close> safely and lose no unit. Under every
  interleaving, over any number of cycles, in which roots are marked only in step 2 of a cycle: no thread is about to push
  into the vector while the worker uses it, nor two threads at once; the gray units are exactly those that a marking thread
  carries or that are in the vector, in the queue or being scanned; no unit is in two of these places; and no assertion of
  \<open>mark_root_unit_to_gray\<close> or \<open>process_gray_units\<close> fails.\<close>

theorem handoff_safe:
  assumes "reach handoff_init (handoff_step cap True) s"
  shows "(\<forall>t. pushes_local (ho_ext s t) \<longrightarrow> \<not> uses_local (ho_worker s) \<and> (\<forall>t'. pushes_local (ho_ext s t') \<longrightarrow> t' = t)) \<and>
    (\<forall>u. ho_life s u = SELF_MARKED \<longleftrightarrow> u \<in> set (worker_units s) \<or> (\<exists>t. carried (ho_ext s t) = Some u)) \<and>
    distinct (worker_units s) \<and>
    (\<forall>t u. carried (ho_ext s t) = Some u \<longrightarrow> u \<notin> set (worker_units s) \<and> (\<forall>t'. carried (ho_ext s t') = Some u \<longrightarrow> t' = t)) \<and>
    (\<forall>t u. ho_ext s t \<noteq> RAbort u) \<and> ho_worker s \<noteq> HAbort"
proof -
  have U: "units_inv s" and S: "sync_inv s" and R: "roots_inv s" using handoff.reach_inv [OF assms] by auto
  have lock: "ho_lock s = Ext t" if "pushes_local (ho_ext s t)" for t
  proof -
    have "holds_lock (ho_ext s t)" using that by (cases "ho_ext s t") simp_all
    then show ?thesis using S unfolding sync_inv_def by blast
  qed
  have idle: "\<not> uses_local (ho_worker s)" if "pushes_local (ho_ext s t)" for t
  proof
    assume "uses_local (ho_worker s)"
    then have "drains (ho_worker s)" by (rule uses_local_drains)
    then have "ho_draining s" "ho_main s \<noteq> MRoots" using S unfolding sync_inv_def drains_def by auto
    then have "ho_ext s t \<noteq> EPush u" "\<not> marks_root (ho_ext s t)" for u using S R unfolding sync_inv_def roots_inv_def by blast+
    then show False using that by (cases "ho_ext s t") auto
  qed
  have one: "t' = t" if "pushes_local (ho_ext s t)" "pushes_local (ho_ext s t')" for t t' using lock [OF that(1)] lock [OF that(2)] by simp
  have G: "distinct (worker_units s)" "\<forall>t u. carried (ho_ext s t) = Some u \<longrightarrow> u \<notin> set (worker_units s)"
    "\<forall>t t' u. carried (ho_ext s t) = Some u \<longrightarrow> carried (ho_ext s t') = Some u \<longrightarrow> t = t'"
    "\<forall>u. ho_life s u = SELF_MARKED \<longleftrightarrow> u \<in> set (worker_units s) \<or> (\<exists>t. carried (ho_ext s t) = Some u)"
    using U unfolding units_inv_def gray_inv_def comp_def by - (elim conjE; assumption)+
  show ?thesis
  proof (intro conjI)
    show "\<forall>t. pushes_local (ho_ext s t) \<longrightarrow> \<not> uses_local (ho_worker s) \<and> (\<forall>t'. pushes_local (ho_ext s t') \<longrightarrow> t' = t)"
      using idle one by blast
    show "\<forall>t u. carried (ho_ext s t) = Some u \<longrightarrow> u \<notin> set (worker_units s) \<and> (\<forall>t'. carried (ho_ext s t') = Some u \<longrightarrow> t' = t)"
      using G(2,3) by blast
    show "\<forall>t u. ho_ext s t \<noteq> RAbort u" using R unfolding roots_inv_def by blast
    show "ho_worker s \<noteq> HAbort" using S unfolding sync_inv_def by blast
  qed (fact G)+
qed

text \<open>A thread that finds the queue, here of one slot, full pushes into the vector of a worker that has not started.\<close>

definition handoff_start :: handoff where
  "handoff_start = \<lparr>ho_life = (\<lambda>_. UNMARKED), ho_queue = [], ho_lock = Free_lock, ho_draining = False, ho_local = [],
     ho_launched = False, ho_flag = False, ho_ext = (\<lambda>_. EIdle), ho_worker = HIdle, ho_main = MIdle\<rparr>"

definition handoff_full :: "lock_holder \<Rightarrow> ext_pc \<Rightarrow> handoff" where
  "handoff_full l pc = handoff_start\<lparr>ho_life := (\<lambda>_. UNMARKED)(16 := SELF_MARKED, 8 := SELF_MARKED), ho_queue := [16],
     ho_lock := l, ho_ext := (\<lambda>_. EIdle)(0 := pc)\<rparr>"

definition handoff_pushing :: handoff where
  "handoff_pushing = handoff_full (Ext 0) (EPush 8)"

lemma handoff_start_init: "handoff_init handoff_start"
  by (simp add: handoff_init_def handoff_start_def)

lemma handoff_pushing_reach: "reach handoff_init (handoff_step 1 strict) handoff_pushing"
proof -
  let ?m = "handoff_start\<lparr>ho_life := (\<lambda>_. UNMARKED)(16 := SELF_MARKED), ho_ext := (\<lambda>_. EIdle)(0 := EEnqueue 16)\<rparr>"
  let ?q = "handoff_start\<lparr>ho_life := (\<lambda>_. UNMARKED)(16 := SELF_MARKED), ho_queue := [16], ho_ext := (\<lambda>_. EIdle)(0 := EIdle)\<rparr>"
  note defs = handoff_start_def handoff_full_def handoff_pushing_def handoff_step_def
  note step = reach.reach_step [of handoff_init "handoff_step 1 strict"]
  have r: "reach handoff_init (handoff_step 1 strict) handoff_start" by (rule reach.reach_init) (rule handoff_start_init)
  have s1: "handoff_step 1 strict handoff_start ?m"
    using ext_step.ext_mark [of handoff_start 0 16 1] by (simp add: defs)
  have s2: "handoff_step 1 strict ?m ?q" using ext_step.ext_enqueue [of ?m 0 16 1] by (simp add: defs)
  have s3: "handoff_step 1 strict ?q (handoff_full Free_lock (EEnqueue 8))"
    using ext_step.ext_mark [of ?q 0 8 1] by (simp add: defs)
  have s4: "handoff_step 1 strict (handoff_full Free_lock (EEnqueue 8)) (handoff_full Free_lock (EFull 8))"
    using ext_step.ext_full [of "handoff_full Free_lock (EEnqueue 8)" 0 8 1] by (simp add: defs)
  have s5: "handoff_step 1 strict (handoff_full Free_lock (EFull 8)) (handoff_full Free_lock (EWant 8))"
    using ext_step.ext_check [of "handoff_full Free_lock (EFull 8)" 0 8 1] by (simp add: defs)
  have s6: "handoff_step 1 strict (handoff_full Free_lock (EWant 8)) (handoff_full (Ext 0) (ELocked 8))"
    using ext_step.ext_lock [of "handoff_full Free_lock (EWant 8)" 0 8 1] by (simp add: defs)
  have s7: "handoff_step 1 strict (handoff_full (Ext 0) (ELocked 8)) handoff_pushing"
    using ext_step.ext_recheck [of "handoff_full (Ext 0) (ELocked 8)" 0 8 1] by (simp add: defs)
  show ?thesis by (rule step [OF step [OF step [OF step [OF step [OF step [OF step [OF r s1] s2] s3] s4] s5] s6] s7])
qed

theorem handoff_safe_witness:
  "pushes_local (ho_ext handoff_pushing 0) \<and> \<not> uses_local (ho_worker handoff_pushing) \<and>
   (ho_life handoff_pushing 8 = SELF_MARKED \<longleftrightarrow> 8 \<in> set (worker_units handoff_pushing) \<or> (\<exists>t. carried (ho_ext handoff_pushing t) = Some 8))"
proof -
  have p: "pushes_local (ho_ext handoff_pushing 0)" by (simp add: handoff_pushing_def handoff_full_def)
  note S = handoff_safe [OF handoff_pushing_reach [of True]]
  have "\<not> uses_local (ho_worker handoff_pushing)" using conjunct1 [OF S] p by blast
  with p conjunct1 [OF conjunct2 [OF S]] show ?thesis by blast
qed

text \<open>C39: marking a root while a phase runs is a data race. \<open>mark_root_unit_to_gray\<close> pushes into \<open>m_local_work\<close> holding only the
  lock, without looking at \<open>m_is_draining\<close>, and its assertion \<open>woomem_gc_marking_state_flag\<close> holds during the whole of
  parallel marking. If roots may be marked at any time, there is a run in which the assertion has been passed, no assertion has
  failed, the flag is set, and one thread is about to push into the vector while the worker is popping from it. The
  assertion is not idle: in another run a thread that marks a root during the final marking fails it.\<close>

theorem root_marking_races:
  "(\<exists>s. reach handoff_init (handoff_step 8192 False) s \<and> ho_flag s \<and> ho_main s = MParallel \<and> ho_ext s 0 = RPush 8 \<and> ho_worker s = HLoop \<and>
     pushes_local (ho_ext s 0) \<and> uses_local (ho_worker s) \<and> (\<forall>t u. ho_ext s t \<noteq> RAbort u)) \<and>
   (\<exists>s. reach handoff_init (handoff_step 8192 False) s \<and> ho_main s = MFinal \<and> ho_ext s 0 = RAbort 8)"
proof -
  let ?s = "\<lambda>l d c f w m. handoff_start\<lparr>ho_lock := l, ho_draining := d, ho_launched := c, ho_flag := f, ho_worker := w, ho_main := m\<rparr>"
  let ?r = "\<lambda>s l pc. s\<lparr>ho_lock := l, ho_life := (\<lambda>_. UNMARKED)(8 := SELF_MARKED), ho_ext := (\<lambda>_. EIdle)(0 := pc)\<rparr>"
  let ?l = "?s Free_lock True True True HLoop MParallel" and ?f = "?s Free_lock False True False HIdle MFinal"
  note defs = handoff_start_def handoff_step_def
  let ?R = "reach handoff_init (handoff_step 8192 False)"
  note step = reach.reach_step [of handoff_init "handoff_step 8192 False"]
  have "?R handoff_start" by (rule reach.reach_init) (rule handoff_start_init)
  then have "?R (?s Free_lock False False True HIdle MRoots)"
    by (rule step) (use main_step.m_begin [of handoff_start False] in \<open>simp add: defs\<close>)
  then have "?R (?s Free_lock False True True HIdle MParallel)"
    by (rule step) (use main_step.m_launch [of "?s Free_lock False False True HIdle MRoots" False] in \<open>simp add: defs\<close>)
  then have "?R (?s Free_lock False True True HWant MParallel)"
    by (rule step) (use worker_step.w_start [of "?s Free_lock False True True HIdle MParallel"] in \<open>simp add: defs\<close>)
  then have "?R (?s Worker False True True HLocked MParallel)"
    by (rule step) (use worker_step.w_lock [of "?s Free_lock False True True HWant MParallel"] in \<open>simp add: defs\<close>)
  then have "?R (?s Worker True True True HSet MParallel)"
    by (rule step) (use worker_step.w_set [of "?s Worker False True True HLocked MParallel"] in \<open>simp add: defs\<close>)
  then have l: "?R (?s Free_lock True True True HLoop MParallel)"
    by (rule step) (use worker_step.w_unlock [of "?s Worker True True True HSet MParallel"] in \<open>simp add: defs\<close>)
  then have "?R (?r ?l Free_lock (RAssert 8))"
    by (rule step) (use root_step.root_mark [of False ?l 0 8] in \<open>simp add: defs\<close>)
  then have "?R (?r ?l Free_lock (RWant 8))"
    by (rule step) (use root_step.root_assert [of "?r ?l Free_lock (RAssert 8)" 0 8 False] in \<open>simp add: defs\<close>)
  then have race: "?R (?r ?l (Ext 0) (RPush 8))"
    by (rule step) (use root_step.root_lock [of "?r ?l Free_lock (RWant 8)" 0 8 False] in \<open>simp add: defs\<close>)
  from l have "?R (?s Free_lock True True True HCheck MParallel)"
    by (rule step) (use worker_step.w_drain [of ?l 0] in \<open>simp add: defs\<close>)
  then have "?R (?s Free_lock True True True HExit MParallel)"
    by (rule step) (use worker_step.w_empty [of "?s Free_lock True True True HCheck MParallel"] in \<open>simp add: defs\<close>)
  then have "?R (?s Free_lock False False True HIdle MParallel)"
    by (rule step) (use worker_step.w_exit [of "?s Free_lock True True True HExit MParallel"] in \<open>simp add: defs\<close>)
  then have "?R (?s Free_lock False False False HIdle MStop)"
    by (rule step) (use main_step.m_stop [of "?s Free_lock False False True HIdle MParallel" False] in \<open>simp add: defs\<close>)
  then have "?R (?s Free_lock False True False HIdle MFinal)"
    by (rule step) (use main_step.m_final [of "?s Free_lock False False False HIdle MStop" False] in \<open>simp add: defs\<close>)
  then have "?R (?r ?f Free_lock (RAssert 8))"
    by (rule step) (use root_step.root_mark [of False ?f 0 8] in \<open>simp add: defs\<close>)
  then have "?R (?r ?f Free_lock (RAbort 8))"
    by (rule step) (use root_step.root_assert [of "?r ?f Free_lock (RAssert 8)" 0 8 False] in \<open>simp add: defs\<close>)
  with race show ?thesis
    by (intro conjI exI [of _ "?r ?l (Ext 0) (RPush 8)"] exI [of _ "?r ?f Free_lock (RAbort 8)"]) (simp_all add: handoff_start_def)
qed

end
