(* ===== verification/Woomem_Os_Win32.thy ===== *)
theory Woomem_Os_Win32
  imports Woomem_Os
begin

text \<open>
  The operating-system layer of \<^verbatim>\<open>src/woomem_os_mmap_win32.c\<close>. The Windows calls it makes are the fields of
  the record \<open>win32_api\<close>, functions over an abstract kernel state; what is documented of them is
  \<open>win32_documented\<close>. The theory follows the memory of a chunk through the layer, from its reservation to its release.
\<close>

section \<open>Windows calls\<close>

datatype win_alloc_type = MEM_RESERVE | MEM_COMMIT

datatype win_free_type = MEM_DECOMMIT | MEM_RELEASE

datatype win_protect = PAGE_NOACCESS | PAGE_READWRITE

record 'os win32_api =
  VirtualAlloc :: "addr \<Rightarrow> u64 \<Rightarrow> win_alloc_type \<Rightarrow> win_protect \<Rightarrow> 'os \<Rightarrow> addr \<times> 'os"
  VirtualFree :: "addr \<Rightarrow> u64 \<Rightarrow> win_free_type \<Rightarrow> 'os \<Rightarrow> bool \<times> 'os"
  GetLastError :: "'os \<Rightarrow> u32"
  dwPageSize :: "'os \<Rightarrow> u32"

section \<open>The wrappers\<close>

definition win32_os_page_size :: "'os win32_api \<Rightarrow> 'os \<Rightarrow> u64" where
  "win32_os_page_size api os = ucast (dwPageSize api os)"

definition win32_os_reserve_memory :: "'os win32_api \<Rightarrow> u64 \<Rightarrow> 'os \<Rightarrow> addr \<times> 'os" where
  "win32_os_reserve_memory api sz os = VirtualAlloc api 0 sz MEM_RESERVE PAGE_NOACCESS os"

definition win32_os_commit_memory :: "'os win32_api \<Rightarrow> addr \<Rightarrow> u64 \<Rightarrow> 'os \<Rightarrow> u32 \<times> 'os" where
  "win32_os_commit_memory api a sz os =
     (let (result, os') = VirtualAlloc api a sz MEM_COMMIT PAGE_READWRITE os
      in (if result = 0 then GetLastError api os' else 0, os'))"

definition win32_os_decommit_memory :: "'os win32_api \<Rightarrow> addr \<Rightarrow> u64 \<Rightarrow> 'os \<Rightarrow> u32 \<times> 'os" where
  "win32_os_decommit_memory api a sz os =
     (let (result, os') = VirtualFree api a sz MEM_DECOMMIT os
      in (if \<not> result then GetLastError api os' else 0, os'))"

definition win32_os_release_memory :: "'os win32_api \<Rightarrow> addr \<Rightarrow> u64 \<Rightarrow> 'os \<Rightarrow> u32 \<times> 'os" where
  "win32_os_release_memory api a sz os =
     (let (result, os') = VirtualFree api a 0 MEM_RELEASE os
      in (if \<not> result then GetLastError api os' else 0, os'))"

section \<open>What is documented of the calls\<close>

text \<open>
  The kernel is seen through the set \<open>regs os\<close> of the reserved regions, each with its base and size, and the set \<open>acc os\<close>
  of the addresses that can be read and written. \<open>page_call\<close>: whole pages inside a region.
\<close>

definition span :: "addr \<Rightarrow> u64 \<Rightarrow> addr set" where
  "span a n = {x. unat a \<le> unat x \<and> unat x < unat a + unat n}"

definition page_call :: "u32 \<Rightarrow> (addr \<times> u64) set \<Rightarrow> addr \<Rightarrow> u64 \<Rightarrow> bool" where
  "page_call page_size regs a n \<longleftrightarrow> n \<noteq> 0 \<and> unat a mod unat page_size = 0 \<and> unat n mod unat page_size = 0 \<and>
     (\<exists>(b, k) \<in> regs. unat b \<le> unat a \<and> unat a + unat n \<le> unat b + unat k)"

text \<open>
  A reservation fails or gives a new region inside the address space that nobody can access yet. A commit fails, or gives the
  pages the protection asked for. A decommit fails, or takes the access away. A release needs the base of a region
  and the size 0, and then frees the region. After a failure nothing has changed and there is an error code.
\<close>

definition failed :: "'os win32_api \<Rightarrow> ('os \<Rightarrow> (addr \<times> u64) set) \<Rightarrow> ('os \<Rightarrow> addr set) \<Rightarrow> 'os \<Rightarrow> 'os \<Rightarrow> bool" where
  "failed api regs acc os os' \<longleftrightarrow> regs os' = regs os \<and> acc os' = acc os \<and> GetLastError api os' \<noteq> 0"

definition win32_documented :: "'os win32_api \<Rightarrow> ('os \<Rightarrow> (addr \<times> u64) set) \<Rightarrow> ('os \<Rightarrow> addr set) \<Rightarrow> bool" where
  "win32_documented api regs acc \<longleftrightarrow>
     (\<forall>n p os r os'. VirtualAlloc api 0 n MEM_RESERVE p os = (r, os') \<longrightarrow>
        (if r = 0 then failed api regs acc os os'
         else n \<noteq> 0 \<and> unat r + unat n < 2 ^ 64 \<and> regs os' = insert (r, n) (regs os) \<and> (r, n) \<notin> regs os \<and>
           acc os' = acc os \<and> span r n \<inter> acc os = {})) \<and>
     (\<forall>a n p os r os'. VirtualAlloc api a n MEM_COMMIT p os = (r, os') \<longrightarrow> page_call (dwPageSize api os) (regs os) a n \<longrightarrow>
        (if r = 0 then failed api regs acc os os'
         else regs os' = regs os \<and> acc os' = (case p of PAGE_READWRITE \<Rightarrow> acc os \<union> span a n | PAGE_NOACCESS \<Rightarrow> acc os - span a n))) \<and>
     (\<forall>a n os ok os'. VirtualFree api a n MEM_DECOMMIT os = (ok, os') \<longrightarrow> page_call (dwPageSize api os) (regs os) a n \<longrightarrow>
        (if ok then regs os' = regs os \<and> acc os' = acc os - span a n else failed api regs acc os os')) \<and>
     (\<forall>a n os ok os'. VirtualFree api a n MEM_RELEASE os = (ok, os') \<longrightarrow>
        (if n = 0 \<and> (\<exists>k. (a, k) \<in> regs os)
         then ok \<and> (\<forall>k. (a, k) \<in> regs os \<longrightarrow> regs os' = regs os - {(a, k)} \<and> acc os' = acc os - span a k)
         else \<not> ok \<and> failed api regs acc os os')) \<and>
     (\<forall>a n t p os. dwPageSize api (snd (VirtualAlloc api a n t p os)) = dwPageSize api os) \<and>
     (\<forall>a n t os. dwPageSize api (snd (VirtualFree api a n t os)) = dwPageSize api os)"

section \<open>Commits and decommits\<close>

datatype os_call = Commit addr u64 | Decommit addr u64

fun call_pages :: "os_call \<Rightarrow> addr \<times> u64" where
  "call_pages (Commit a n) = (a, n)"
| "call_pages (Decommit a n) = (a, n)"

fun win32_call :: "'os win32_api \<Rightarrow> os_call \<Rightarrow> 'os \<Rightarrow> u32 \<times> 'os" where
  "win32_call api (Commit a n) os = win32_os_commit_memory api a n os"
| "win32_call api (Decommit a n) os = win32_os_decommit_memory api a n os"

text \<open>Any sequence of calls, with the codes they return, and the accessible memory it should leave.\<close>

fun win32_calls :: "'os win32_api \<Rightarrow> os_call list \<Rightarrow> 'os \<Rightarrow> u32 list \<times> 'os" where
  "win32_calls api [] os = ([], os)"
| "win32_calls api (c # cs) os = (let (code, os) = win32_call api c os; (codes, os) = win32_calls api cs os in (code # codes, os))"

fun accessible :: "os_call list \<Rightarrow> u32 list \<Rightarrow> addr set \<Rightarrow> addr set" where
  "accessible (Commit a n # cs) (code # codes) A = accessible cs codes (if code = 0 then A \<union> span a n else A)"
| "accessible (Decommit a n # cs) (code # codes) A = accessible cs codes (if code = 0 then A - span a n else A)"
| "accessible _ _ A = A"

lemma documentedD:
  assumes "win32_documented api regs acc"
  shows "VirtualAlloc api 0 n MEM_RESERVE p os = (r, os') \<Longrightarrow> r \<noteq> 0 \<Longrightarrow> n \<noteq> 0 \<and> unat r + unat n < 2 ^ 64 \<and>
      regs os' = insert (r, n) (regs os) \<and> (r, n) \<notin> regs os \<and> acc os' = acc os \<and> span r n \<inter> acc os = {}"
    "VirtualAlloc api a n MEM_COMMIT PAGE_READWRITE os = (r, os') \<Longrightarrow> page_call (dwPageSize api os) (regs os) a n \<Longrightarrow>
      (if r = 0 then failed api regs acc os os' else regs os' = regs os \<and> acc os' = acc os \<union> span a n)"
    "VirtualFree api a n MEM_DECOMMIT os = (ok, os') \<Longrightarrow> page_call (dwPageSize api os) (regs os) a n \<Longrightarrow>
      (if ok then regs os' = regs os \<and> acc os' = acc os - span a n else failed api regs acc os os')"
    "VirtualFree api a 0 MEM_RELEASE os = (ok, os') \<Longrightarrow> (a, k) \<in> regs os \<Longrightarrow>
      ok \<and> regs os' = regs os - {(a, k)} \<and> acc os' = acc os - span a k"
    "VirtualAlloc api a n t p os = (r, os') \<Longrightarrow> dwPageSize api os' = dwPageSize api os"
    "VirtualFree api a n ft os = (ok, os') \<Longrightarrow> dwPageSize api os' = dwPageSize api os"
proof -
  note D = assms [unfolded win32_documented_def]
  show "VirtualAlloc api 0 n MEM_RESERVE p os = (r, os') \<Longrightarrow> r \<noteq> 0 \<Longrightarrow> n \<noteq> 0 \<and> unat r + unat n < 2 ^ 64 \<and>
      regs os' = insert (r, n) (regs os) \<and> (r, n) \<notin> regs os \<and> acc os' = acc os \<and> span r n \<inter> acc os = {}"
    using conjunct1 [OF D, rule_format, of n p os r os'] by simp
  show "VirtualAlloc api a n MEM_COMMIT PAGE_READWRITE os = (r, os') \<Longrightarrow> page_call (dwPageSize api os) (regs os) a n \<Longrightarrow>
      (if r = 0 then failed api regs acc os os' else regs os' = regs os \<and> acc os' = acc os \<union> span a n)"
    using conjunct1 [OF conjunct2 [OF D], rule_format, of a n PAGE_READWRITE os r os'] by simp
  show "VirtualFree api a n MEM_DECOMMIT os = (ok, os') \<Longrightarrow> page_call (dwPageSize api os) (regs os) a n \<Longrightarrow>
      (if ok then regs os' = regs os \<and> acc os' = acc os - span a n else failed api regs acc os os')"
    using conjunct1 [OF conjunct2 [OF conjunct2 [OF D]]] by blast
  show "VirtualFree api a 0 MEM_RELEASE os = (ok, os') \<Longrightarrow> (a, k) \<in> regs os \<Longrightarrow>
      ok \<and> regs os' = regs os - {(a, k)} \<and> acc os' = acc os - span a k"
    using conjunct1 [OF conjunct2 [OF conjunct2 [OF conjunct2 [OF D]]], THEN spec [of _ a], THEN spec [of _ 0], THEN spec [of _ os], THEN spec [of _ ok], THEN spec [of _ os']]
    by (cases "\<exists>k. (a, k) \<in> regs os") simp_all
  show "VirtualAlloc api a n t p os = (r, os') \<Longrightarrow> dwPageSize api os' = dwPageSize api os"
    using conjunct1 [OF conjunct2 [OF conjunct2 [OF conjunct2 [OF conjunct2 [OF D]]]]] by (metis snd_conv)
  show "VirtualFree api a n ft os = (ok, os') \<Longrightarrow> dwPageSize api os' = dwPageSize api os"
    using conjunct2 [OF conjunct2 [OF conjunct2 [OF conjunct2 [OF conjunct2 [OF D]]]]] by (metis snd_conv)
qed

lemma win32_call_spec:
  assumes "win32_documented api regs acc" "win32_call api c os = (code, os')"
    "page_call (dwPageSize api os) (regs os) (fst (call_pages c)) (snd (call_pages c))"
  shows "regs os' = regs os" "acc os' = accessible [c] [code] (acc os)" "dwPageSize api os' = dwPageSize api os"
proof -
  note D = documentedD [OF assms(1)]
  have "regs os' = regs os \<and> acc os' = accessible [c] [code] (acc os) \<and> dwPageSize api os' = dwPageSize api os"
  proof (cases c)
    case (Commit a n)
    obtain r os1 where r: "VirtualAlloc api a n MEM_COMMIT PAGE_READWRITE os = (r, os1)" by fastforce
    then show ?thesis using D(2,5) [OF r] assms(2,3) Commit
      by (auto simp: win32_os_commit_memory_def failed_def split: if_splits)
  next
    case (Decommit a n)
    obtain ok os1 where r: "VirtualFree api a n MEM_DECOMMIT os = (ok, os1)" by fastforce
    then show ?thesis using D(3,6) [OF r] assms(2,3) Decommit
      by (auto simp: win32_os_decommit_memory_def failed_def split: if_splits)
  qed
  then show "regs os' = regs os" "acc os' = accessible [c] [code] (acc os)" "dwPageSize api os' = dwPageSize api os" by auto
qed

lemma accessible_Cons: "accessible (c # cs) (code # codes) A = accessible cs codes (accessible [c] [code] A)"
  by (cases c) simp_all

lemma win32_calls_spec:
  assumes "win32_documented api regs acc" "win32_calls api cs os = (codes, os')"
    "\<forall>c \<in> set cs. page_call (dwPageSize api os) (regs os) (fst (call_pages c)) (snd (call_pages c))"
  shows "regs os' = regs os \<and> acc os' = accessible cs codes (acc os) \<and> length codes = length cs"
  using assms(2,3)
proof (induction cs arbitrary: os codes)
  case (Cons c cs)
  obtain code os1 rest where r: "win32_call api c os = (code, os1)" "win32_calls api cs os1 = (rest, os')" "codes = code # rest"
    using Cons.prems(1) by (auto simp: Let_def split: prod.splits)
  note S = win32_call_spec [OF assms(1) r(1)]
  from Cons.IH [OF r(2)] Cons.prems(2) S show ?case by (simp add: r(3) accessible_Cons [of c cs code rest])
qed simp

lemma accessible_within:
  assumes "\<forall>c \<in> set cs. span (fst (call_pages c)) (snd (call_pages c)) \<subseteq> S"
  shows "accessible cs codes A - S = A - S"
  using assms by (induction cs codes A rule: accessible.induct) auto

lemma accessible_on: "A \<inter> S = B \<inter> S \<Longrightarrow> accessible cs codes A \<inter> S = accessible cs codes B \<inter> S"
proof (induction cs codes A arbitrary: B rule: accessible.induct)
  case (1 a n cs code codes A)
  have "(if code = 0 then A \<union> span a n else A) \<inter> S = (if code = 0 then B \<union> span a n else B) \<inter> S" using 1(2) by (simp add: Int_Un_distrib2)
  then show ?case unfolding accessible.simps by (rule 1(1))
next
  case (2 a n cs code codes A)
  have "(if code = 0 then A - span a n else A) \<inter> S = (if code = 0 then B - span a n else B) \<inter> S" using 2(2) by (auto simp: set_eq_iff)
  then show ?case unfolding accessible.simps by (rule 2(1))
qed simp_all

section \<open>Properties\<close>

text \<open>C24: the Windows layer manages the memory of a chunk. Given what is documented of the Windows calls: when
  \<open>woomem_os_reserve_memory\<close> has given a region, any sequence of commits and decommits of whole pages in it leaves as
  accessible exactly the bytes that successful commits have made so and successful decommits have not taken away, a call being
  successful when it returns 0; no other memory and no other region is affected. At any point \<open>woomem_os_release_memory\<close> on
  the region, whatever size it is given, returns 0 and leaves regions and accessible memory as before the reservation.\<close>

theorem win32_region_lifecycle:
  assumes "win32_documented api regs acc" and "win32_os_reserve_memory api n os = (b, os1)" and "b \<noteq> 0"
    and "\<forall>c \<in> set cs. page_call (dwPageSize api os) {(b, n)} (fst (call_pages c)) (snd (call_pages c))"
    and "win32_calls api cs os1 = (codes, os2)"
  shows "n \<noteq> 0 \<and> unat b + unat n < 2 ^ 64 \<and> regs os2 = insert (b, n) (regs os) \<and>
    acc os2 \<inter> span b n = accessible cs codes {} \<inter> span b n \<and> acc os2 - span b n = acc os \<and>
    (\<exists>os3. win32_os_release_memory api b sz os2 = (0, os3) \<and> regs os3 = regs os \<and> acc os3 = acc os)"
proof -
  note D = documentedD [OF assms(1)]
  have r: "VirtualAlloc api 0 n MEM_RESERVE PAGE_NOACCESS os = (b, os1)" using assms(2) by (simp add: win32_os_reserve_memory_def)
  note R = D(1) [OF r assms(3)]
  have pc: "page_call (dwPageSize api os1) (regs os1) (fst (call_pages c)) (snd (call_pages c))" if "c \<in> set cs" for c
    using assms(4) that R D(5) [OF r] by (auto simp: page_call_def)
  have S: "regs os2 = regs os1" "acc os2 = accessible cs codes (acc os1)" using win32_calls_spec [OF assms(1,5)] pc by auto
  have sub: "\<forall>c \<in> set cs. span (fst (call_pages c)) (snd (call_pages c)) \<subseteq> span b n"
    using assms(4) by (fastforce simp: page_call_def span_def)
  have "acc os1 \<inter> span b n = {} \<inter> span b n" using R by auto
  from accessible_on [OF this] have in_span: "acc os2 \<inter> span b n = accessible cs codes {} \<inter> span b n" by (simp add: S(2))
  have out: "acc os2 - span b n = acc os" using accessible_within [OF sub] R by (auto simp: S(2))
  obtain ok os3 where f: "VirtualFree api b 0 MEM_RELEASE os2 = (ok, os3)" by fastforce
  have "(b, n) \<in> regs os2" using S(1) R by simp
  from D(4) [OF f this] have "win32_os_release_memory api b sz os2 = (0, os3)" "regs os3 = regs os" "acc os3 = acc os"
    using f R S(1) out by (auto simp: win32_os_release_memory_def)
  then show ?thesis using R S(1) in_span out by auto
qed

text \<open>
  A Windows kernel for the witness: one region at a time, at a fixed address, and the protection of each address; the calls
  fail outside of the region.
\<close>

type_synonym demo_kernel = "(addr \<times> u64) option \<times> (addr \<Rightarrow> bool)"

definition demo_win32 :: "demo_kernel win32_api" where
  "demo_win32 = \<lparr>
     VirtualAlloc = (\<lambda>a n t p (reg, f). case t of
         MEM_RESERVE \<Rightarrow> (if n = 0 \<or> 0x1000000000000 \<le> n \<or> reg \<noteq> None then (0, (reg, f)) else (demo_base, (Some (demo_base, n), \<lambda>_. False)))
       | MEM_COMMIT \<Rightarrow> (if reg = None then (0, (reg, f)) else (demo_base, (reg, \<lambda>x. if x \<in> span a n then p = PAGE_READWRITE else f x)))),
     VirtualFree = (\<lambda>a n t (reg, f). case t of
         MEM_DECOMMIT \<Rightarrow> (if reg = None then (False, (reg, f)) else (True, (reg, \<lambda>x. x \<notin> span a n \<and> f x)))
       | MEM_RELEASE \<Rightarrow> (if n = 0 \<and> map_option fst reg = Some a then (True, (None, f)) else (False, (reg, f)))),
     GetLastError = (\<lambda>_. 487), dwPageSize = (\<lambda>_. 4096)\<rparr>"

definition demo_regs :: "demo_kernel \<Rightarrow> (addr \<times> u64) set" where
  "demo_regs os = set_option (fst os)"

definition demo_acc :: "demo_kernel \<Rightarrow> addr set" where
  "demo_acc os = {x. snd os x \<and> (\<exists>(b, n) \<in> demo_regs os. x \<in> span b n)}"

lemma demo_win32_documented: "win32_documented demo_win32 demo_regs demo_acc"
proof -
  note defs = demo_win32_def demo_regs_def demo_acc_def failed_def demo_base_def
  have sub: "span a n \<subseteq> span b k" if "unat b \<le> unat a" "unat a + unat n \<le> unat b + unat k" for a b :: addr and n k :: u64
    using that by (auto simp: span_def)
  show ?thesis
    unfolding win32_documented_def
  proof (intro conjI allI impI, goal_cases)
    case (1 n p os r os')
    then show ?case by (cases os) (auto simp: defs word_le_nat_alt not_le split: if_splits)
  next
    case (2 a n p os r os')
    then show ?case by (cases os; cases p) (auto simp: defs page_call_def dest: subsetD [OF sub] split: if_splits)
  next
    case (3 a n os ok os')
    then show ?case by (cases os) (auto simp: defs page_call_def split: if_splits)
  next
    case (4 a n os ok os')
    then show ?case by (cases os) (auto simp: defs split: if_splits)
  qed (auto simp: demo_win32_def split: prod.splits win_alloc_type.splits win_free_type.splits)
qed

theorem win32_region_lifecycle_witness:
  "\<exists>os1 codes os2 os3. win32_os_reserve_memory demo_win32 0x10000 (None, \<lambda>_. False) = (0x100000, os1) \<and>
     win32_calls demo_win32 [Commit 0x100000 0x8000, Commit 0x108000 0x8000, Decommit 0x100000 0x8000] os1 = (codes, os2) \<and> codes = [0, 0, 0] \<and>
     0x108000 \<in> demo_acc os2 \<and> 0x100000 \<notin> demo_acc os2 \<and>
     win32_os_release_memory demo_win32 0x100000 0x10000 os2 = (0, os3) \<and> demo_regs os3 = {}"
proof -
  let ?os = "(None, \<lambda>_. False) :: demo_kernel" and ?cs = "[Commit 0x100000 0x8000, Commit 0x108000 0x8000, Decommit 0x100000 0x8000]"
  obtain os1 where r: "win32_os_reserve_memory demo_win32 0x10000 ?os = (0x100000, os1)"
    by (simp add: win32_os_reserve_memory_def demo_win32_def demo_base_def)
  obtain codes os2 where c: "win32_calls demo_win32 ?cs os1 = (codes, os2)" by (rule prod.exhaust)
  have codes: "codes = [0, 0, 0]"
    using r c by (auto simp: win32_os_reserve_memory_def win32_os_commit_memory_def win32_os_decommit_memory_def demo_win32_def demo_base_def)
  have pc: "\<forall>c \<in> set ?cs. page_call (dwPageSize demo_win32 ?os) {(0x100000, 0x10000)} (fst (call_pages c)) (snd (call_pages c))"
    by (simp add: page_call_def demo_win32_def)
  have nz: "0x100000 \<noteq> (0 :: addr)" by simp
  note L = win32_region_lifecycle [OF demo_win32_documented r nz pc c, of "0x10000"]
  have "(0x108000 :: addr) \<in> span 0x100000 0x10000" "(0x100000 :: addr) \<in> span 0x100000 0x10000"
    "(0x108000 :: addr) \<in> accessible ?cs codes {}" "(0x100000 :: addr) \<notin> accessible ?cs codes {}"
    by (simp_all add: codes span_def)
  then have a: "0x108000 \<in> demo_acc os2" "0x100000 \<notin> demo_acc os2" using L by blast+
  obtain os3 where "win32_os_release_memory demo_win32 0x100000 0x10000 os2 = (0, os3)" "demo_regs os3 = demo_regs ?os" using L by blast
  moreover have "demo_regs ?os = {}" by (simp add: demo_regs_def)
  ultimately show ?thesis using r c codes a by (intro exI [of _ os1] exI [of _ codes] exI [of _ os2] exI [of _ os3] conjI) simp_all
qed

end
