(* ===== verification/Woomem_Concurrent.thy ===== *)
theory Woomem_Concurrent
  imports Woomem_System
begin

text \<open>
  Marking while the program runs. A cycle of \<open>main_thread_job\<close> is not one step here: the workers pop units, load words and
  mark one step at a time, in any interleaving with each other and with a program that allocates, publishes, reads and
  writes. Writes to published units go through the barrier that the marking interface is for: the old value is
  marked before it is overwritten. A step is an action; \<open>enabled\<close> says what a program and the threads of the collector may
  do, \<open>perform\<close> what the library does then, with \<open>None\<close> for a failed assertion. Reallocation is a sequence of such
  actions: it begins an allocation, copies words and publishes.
\<close>

section \<open>State\<close>

text \<open>
  A marking thread of the collector in \<open>process_gray_units\<close>: waiting for the launch of the phase, at the head of the loop,
  scanning a unit with the calls of the marking interface that are due and the indices of the words not yet loaded,
  and done with the phase.
\<close>

datatype scan = Waiting | Looping | Scanning addr "mark_call list" "nat list" | Finished

text \<open>
  A store of a program thread behind the barrier: the old value has been loaded (the number of the worker the thread
  marks for, the address, the old value, the new value), or marked.
\<close>

datatype store = Loaded nat addr u64 u64 | Marked addr u64

fun stored_value :: "store \<Rightarrow> u64" where
  "stored_value (Loaded wk a x v) = v"
| "stored_value (Marked a v) = v"

datatype phase = Between | Parallel_mark | Final_mark

text \<open>
  The program with the values its threads hold in registers and on stacks, the stores in progress, the phase, and the
  user's mark callback as the calls it makes for the payload of a unit. \<open>rn_snapshot\<close> and \<open>rn_roots\<close> are for the proofs only: the
  heap when the cycle began, and the units that its roots name.
\<close>

record 'os running =
  rn_program :: "'os program"
  rn_held :: "u64 list"
  rn_stores :: "store list"
  rn_phase :: phase
  rn_scans :: "scan list"
  rn_callback :: "(addr \<times> mark_call list) list"
  rn_snapshot :: "'os heap"
  rn_roots :: "addr list"

abbreviation rn_heap :: "'os running \<Rightarrow> 'os heap" where
  "rn_heap y \<equiv> pr_heap (rn_program y)"

abbreviation rn_gc :: "'os running \<Rightarrow> gc" where
  "rn_gc y \<equiv> pr_gc (rn_program y)"

abbreviation rn_workers :: "'os running \<Rightarrow> gc_worker list" where
  "rn_workers y \<equiv> m_gc_worker_threads (rn_gc y)"

definition mark_callback :: "(addr \<times> mark_call list) list \<Rightarrow> addr \<Rightarrow> mark_call list" where
  "mark_callback cb p = (case map_of cb p of Some xs \<Rightarrow> xs | None \<Rightarrow> [])"

section \<open>What a program may use\<close>

text \<open>The payload that a value points into, or null; what a call marks; and the words of a unit.\<close>

definition resolve :: "'os heap \<Rightarrow> u64 \<Rightarrow> addr" where
  "resolve h x = (case woomem_validate_addr x (chunk_of (h_chunk h)) (heap_mem h) of Some p \<Rightarrow> p | None \<Rightarrow> 0)"

definition target_of :: "'os heap \<Rightarrow> mark_call \<Rightarrow> addr" where
  "target_of h x = (case call_target (chunk_of (h_chunk h)) (heap_mem h) x of Some p \<Rightarrow> p | None \<Rightarrow> 0)"

definition word_count :: "mem \<Rightarrow> addr \<Rightarrow> nat" where
  "word_count m u = (case get_unit_available_size u m of Some sz \<Rightarrow> unat (sz div 8) | None \<Rightarrow> 0)"

definition word_addr :: "addr \<Rightarrow> nat \<Rightarrow> addr" where
  "word_addr u i = u + sizeof_UnitHead + w64 (8 * i)"

text \<open>A value that the program holds, or that is no pointer to a published unit; the same for a call of its callback.\<close>

definition known :: "'os running \<Rightarrow> u64 \<Rightarrow> bool" where
  "known y v \<longleftrightarrow> v \<in> set (rn_held y) \<or> resolve (rn_heap y) v = 0"

fun known_call :: "'os running \<Rightarrow> mark_call \<Rightarrow> bool" where
  "known_call y (Mark_unit_head p) = (p = 0 \<or> p \<in> set (rn_held y) \<and> resolve (rn_heap y) p = p)"
| "known_call y (Mark_fuzzy_unit p) = known y p"
| "known_call y (Mark_fuzzy_unit_head p) = known y p"

text \<open>The program holds \<open>p\<close>, which points into a published unit that has a word \<open>i\<close>.\<close>

definition can_access :: "'os running \<Rightarrow> u64 \<Rightarrow> nat \<Rightarrow> bool" where
  "can_access y p i \<longleftrightarrow> p \<in> set (rn_held y) \<and> resolve (rn_heap y) p \<noteq> 0 \<and>
     i < word_count (heap_mem (rn_heap y)) (resolve (rn_heap y) p - sizeof_UnitHead)"

definition accessed :: "'os running \<Rightarrow> u64 \<Rightarrow> nat \<Rightarrow> addr" where
  "accessed y p i = word_addr (resolve (rn_heap y) p - sizeof_UnitHead) i"

text \<open>During a cycle a unit is initialised when it is published: what it refers to is known.\<close>

definition initialised :: "'os running \<Rightarrow> addr \<Rightarrow> u32 \<Rightarrow> bool" where
  "initialised y a attrib \<longleftrightarrow> (if rn_phase y = Between then True else
     \<forall>x \<in> set (unit_calls (woomem_allocate_end (woomem_gc_marking_round_counter (rn_gc y)) a attrib (heap_mem (rn_heap y)))
        (mark_callback (rn_callback y)) (a - sizeof_UnitHead)). known_call y x)"

text \<open>A marking thread that must spin: the unit is unmarked, the queue is full and the worker drains it.\<close>

definition must_wait :: "nat \<Rightarrow> 'os running \<Rightarrow> nat \<Rightarrow> u64 \<Rightarrow> bool" where
  "must_wait k y wk x \<longleftrightarrow> (let p = resolve (rn_heap y) x; w = rn_workers y ! wk in
     p \<noteq> 0 \<and> m_life (unit_at (heap_mem (rn_heap y)) (p - sizeof_UnitHead)) = UNMARKED \<and>
     length (queued k (m_gray_queue w)) = 2 ^ k \<and> m_is_draining w)"

section \<open>Actions\<close>

datatype action =
    Allocate_begin nat u64 | Allocate_end addr u32 | Allocate_end_as_root addr u32 | Remove_from_root_set addr
  | Thread_start | Thread_exit nat | Forget u64
  | Read u64 nat | Read_callback u64 nat | Fill addr nat u64
  | Store u64 nat u64 | Store_load nat u64 nat u64 | Store_mark nat | Store_write nat
  | Cycle_begin "mark_call list" "(addr \<times> mark_call list) list"
  | Worker_enter nat | Worker_next nat | Worker_mark nat | Worker_load nat | Worker_black nat
  | Stop_marking | Sweep_all

text \<open>
  A cycle may begin at any time. It may sweep unless the chain of pages is empty and a worker still has the list of an
  earlier cycle, which the source does not rule out. Marking stops when no store is in progress: the source leaves that to
  the stop callback. With \<open>careful\<close> the program does not write to published units between the end of parallel marking and the sweep; without
  it the program writes without a barrier whenever \<open>woomem_gc_marking_state_flag\<close> is not set.
\<close>

fun enabled :: "nat \<Rightarrow> bool \<Rightarrow> 'os running \<Rightarrow> action \<Rightarrow> bool" where
  "enabled k careful y (Allocate_begin i sz) = (i < length (pr_threads (rn_program y)) \<and> sz < - 32799)"
| "enabled k careful y (Allocate_end a attrib) = (a \<in> set (pr_pending (rn_program y)) \<and> initialised y a attrib)"
| "enabled k careful y (Allocate_end_as_root a attrib) = (a \<in> set (pr_pending (rn_program y)) \<and> initialised y a attrib)"
| "enabled k careful y (Remove_from_root_set p) = True"
| "enabled k careful y Thread_start = True"
| "enabled k careful y (Thread_exit i) = (i < length (pr_threads (rn_program y)))"
| "enabled k careful y (Forget v) = True"
| "enabled k careful y (Read p i) = (can_access y p i \<and>
     has_attrib (unit_at (heap_mem (rn_heap y)) (resolve (rn_heap y) p - sizeof_UnitHead)) WOOMEM_ATTRIB_AUTO_MARK)"
| "enabled k careful y (Read_callback p n) = (p \<in> set (rn_held y) \<and> resolve (rn_heap y) p \<noteq> 0 \<and>
     has_attrib (unit_at (heap_mem (rn_heap y)) (resolve (rn_heap y) p - sizeof_UnitHead)) WOOMEM_ATTRIB_MARK_CALLBACK \<and>
     n < length (mark_callback (rn_callback y) (resolve (rn_heap y) p)))"
| "enabled k careful y (Fill a i v) = (a \<in> set (pr_pending (rn_program y)) \<and>
     i < word_count (heap_mem (rn_heap y)) (a - sizeof_UnitHead))"
| "enabled k careful y (Store p i v) = ((rn_phase y = Between \<or> rn_phase y = Final_mark \<and> \<not> careful) \<and> can_access y p i \<and> known y v)"
| "enabled k careful y (Store_load wk p i v) = (rn_phase y = Parallel_mark \<and> wk < length (rn_workers y) \<and> can_access y p i \<and> known y v)"
| "enabled k careful y (Store_mark j) = (j < length (rn_stores y) \<and>
     (case rn_stores y ! j of Loaded wk a x v \<Rightarrow>
        m_enqueue_pos (m_gray_queue (rn_workers y ! wk)) < 0x8000000000000000 \<and> \<not> must_wait k y wk x
      | Marked a v \<Rightarrow> False))"
| "enabled k careful y (Store_write j) = (j < length (rn_stores y) \<and> (case rn_stores y ! j of Loaded wk a x v \<Rightarrow> False | Marked a v \<Rightarrow> True))"
| "enabled k careful y (Cycle_begin calls cb) = (rn_phase y = Between \<and>
     (\<forall>v \<in> set (rn_held y). Mark_fuzzy_unit v \<in> set calls) \<and>
     (\<forall>xs \<in> insert calls (snd ` set cb). \<forall>x \<in> set xs. case x of Mark_unit_head p \<Rightarrow> p = 0 \<or> resolve (rn_heap y) p = p | _ \<Rightarrow> True))"
| "enabled k careful y (Worker_enter j) = (rn_phase y \<noteq> Between \<and> j < length (rn_scans y) \<and> rn_scans y ! j = Waiting)"
| "enabled k careful y (Worker_next j) = (rn_phase y \<noteq> Between \<and> j < length (rn_scans y) \<and> rn_scans y ! j = Looping)"
| "enabled k careful y (Worker_mark j) = (rn_phase y \<noteq> Between \<and> j < length (rn_scans y) \<and>
     (case rn_scans y ! j of Scanning u (x # xs) is \<Rightarrow> True | _ \<Rightarrow> False))"
| "enabled k careful y (Worker_load j) = (rn_phase y \<noteq> Between \<and> j < length (rn_scans y) \<and>
     (case rn_scans y ! j of Scanning u [] (i # is) \<Rightarrow> True | _ \<Rightarrow> False))"
| "enabled k careful y (Worker_black j) = (rn_phase y \<noteq> Between \<and> j < length (rn_scans y) \<and>
     (case rn_scans y ! j of Scanning u [] [] \<Rightarrow> True | _ \<Rightarrow> False))"
| "enabled k careful y Stop_marking = (rn_phase y = Parallel_mark \<and> (\<forall>c \<in> set (rn_scans y). c = Finished) \<and> rn_stores y = [])"
| "enabled k careful y Sweep_all = (rn_phase y = Final_mark \<and> (\<forall>c \<in> set (rn_scans y). c = Finished) \<and>
     sweep_lists_fresh (rn_gc y) (rn_heap y))"

text \<open>Changing the program, its heap, a word of it, and a worker together with the memory it marks.\<close>

definition on_program :: "('os program \<Rightarrow> 'os program) \<Rightarrow> 'os running \<Rightarrow> 'os running" where
  "on_program f y = y\<lparr>rn_program := f (rn_program y)\<rparr>"

definition put_word :: "addr \<Rightarrow> u64 \<Rightarrow> 'os running \<Rightarrow> 'os running" where
  "put_word a v = on_program (with_heap (upd_mem (\<lambda>m. m\<lparr>word_at := (word_at m)(a := v)\<rparr>)))"

definition put_worker :: "nat \<Rightarrow> mem \<times> gc_worker \<Rightarrow> 'os running \<Rightarrow> 'os running" where
  "put_worker j mw = on_program (\<lambda>x. with_gc (\<lambda>g. g\<lparr>m_gc_worker_threads := (m_gc_worker_threads g)[j := snd mw]\<rparr>)
     (with_heap (upd_mem (\<lambda>_. fst mw)) x))"

definition put_scan :: "nat \<Rightarrow> scan \<Rightarrow> 'os running \<Rightarrow> 'os running" where
  "put_scan j c y = y\<lparr>rn_scans := (rn_scans y)[j := c]\<rparr>"

definition drop_nth :: "nat \<Rightarrow> 'a list \<Rightarrow> 'a list" where
  "drop_nth j xs = take j xs @ drop (Suc j) xs"

text \<open>One iteration of the loop of \<open>process_gray_units\<close> up to the scan: drain if there is no local work, take a unit or leave.\<close>

definition next_unit :: "nat \<Rightarrow> (addr \<Rightarrow> mark_call list) \<Rightarrow> mem \<Rightarrow> gc_worker \<Rightarrow> (scan \<times> gc_worker) option" where
  "next_unit k callback_user_mark m w =
     (if m_local_work w = [] then drain_queue_into_local k w else Some w) \<bind> (\<lambda>w.
     case m_local_work w of
       [] \<Rightarrow> Some (Finished, w\<lparr>m_is_draining := False\<rparr>)
     | unit # rest \<Rightarrow>
         if m_life (unit_at m unit) \<noteq> SELF_MARKED then None
         else (if has_attrib (unit_at m unit) WOOMEM_ATTRIB_AUTO_MARK
             then map_option (\<lambda>sz. [0..<unat (sz div 8)]) (get_unit_available_size unit m) else Some []) \<bind> (\<lambda>is.
           Some (Scanning unit
             (if has_attrib (unit_at m unit) WOOMEM_ATTRIB_MARK_CALLBACK then callback_user_mark (unit + sizeof_UnitHead) else []) is,
             w\<lparr>m_local_work := rest\<rparr>)))"

fun perform :: "target \<Rightarrow> 'os syscalls \<Rightarrow> nat \<Rightarrow> 'os running \<Rightarrow> action \<Rightarrow> 'os running option" where
  "perform tgt sys k y (Allocate_begin i sz) =
     woomem_allocate_begin tgt sys sz (thread_state i (rn_program y)) \<bind> (\<lambda>(a, s).
     Some (on_program (\<lambda>x. (after_call i s x)\<lparr>pr_pending := (if a = 0 then [] else [a]) @ pr_pending x\<rparr>) y))"
| "perform tgt sys k y (Allocate_end a attrib) =
     Some ((on_program (\<lambda>x. (with_heap (upd_mem (woomem_allocate_end (woomem_gc_marking_round_counter (pr_gc x)) a attrib)) x)
       \<lparr>pr_pending := removeAll a (pr_pending x)\<rparr>) y)\<lparr>rn_held := a # rn_held y\<rparr>)"
| "perform tgt sys k y (Allocate_end_as_root a attrib) =
     (let (g, m) = woomem_allocate_end_as_root a attrib (rn_gc y, heap_mem (rn_heap y))
      in Some ((on_program (\<lambda>x. (with_gc (\<lambda>_. g) (with_heap (upd_mem (\<lambda>_. m)) x))\<lparr>pr_pending := removeAll a (pr_pending x)\<rparr>) y)
        \<lparr>rn_held := a # rn_held y\<rparr>))"
| "perform tgt sys k y (Remove_from_root_set p) = Some (on_program (with_gc (woomem_remove_from_root_set p)) y)"
| "perform tgt sys k y Thread_start =
     (case ThreadContext (Some (m_gc_assigned_thread_idx (rn_gc y), w64 (length (rn_workers y)))) (wm_global (pr_library (rn_program y))) of
        (t, Some (idx, n), x) \<Rightarrow> Some (on_program (\<lambda>p. with_gc (\<lambda>g. g\<lparr>m_gc_assigned_thread_idx := idx\<rparr>) (with_global (\<lambda>_. x) p)) y)
      | (t, None, x) \<Rightarrow> Some (on_program (with_global (\<lambda>_. x)) y))"
| "perform tgt sys k y (Thread_exit i) =
     ThreadContext_destroy i (wm_global (pr_library (rn_program y))) \<bind> (\<lambda>x. Some (on_program (with_global (\<lambda>_. x)) y))"
| "perform tgt sys k y (Forget v) = Some (y\<lparr>rn_held := removeAll v (rn_held y)\<rparr>)"
| "perform tgt sys k y (Read p i) = Some (y\<lparr>rn_held := word_at (heap_mem (rn_heap y)) (accessed y p i) # rn_held y\<rparr>)"
| "perform tgt sys k y (Read_callback p n) =
     Some (y\<lparr>rn_held := target_of (rn_heap y) (mark_callback (rn_callback y) (resolve (rn_heap y) p) ! n) # rn_held y\<rparr>)"
| "perform tgt sys k y (Fill a i v) = Some (put_word (word_addr (a - sizeof_UnitHead) i) v y)"
| "perform tgt sys k y (Store p i v) = Some (put_word (accessed y p i) v y)"
| "perform tgt sys k y (Store_load wk p i v) =
     Some (y\<lparr>rn_stores := Loaded wk (accessed y p i) (word_at (heap_mem (rn_heap y)) (accessed y p i)) v # rn_stores y\<rparr>)"
| "perform tgt sys k y (Store_mark j) = (case rn_stores y ! j of
     Loaded wk a x v \<Rightarrow>
       woomem_mark_fuzzy_unit k False (chunk_of (h_chunk (rn_heap y))) x (heap_mem (rn_heap y), rn_workers y ! wk) \<bind> (\<lambda>mw.
       Some ((put_worker wk mw y)\<lparr>rn_stores := (rn_stores y)[j := Marked a v]\<rparr>))
   | Marked a v \<Rightarrow> Some y)"
| "perform tgt sys k y (Store_write j) = (case rn_stores y ! j of
     Loaded wk a x v \<Rightarrow> Some y
   | Marked a v \<Rightarrow> Some ((put_word a v y)\<lparr>rn_stores := drop_nth j (rn_stores y)\<rparr>))"
| "perform tgt sys k y (Cycle_begin calls cb) =
     (let h = rn_heap y; c = chunk_of (h_chunk h);
          g = (rn_gc y)\<lparr>m_force_trigger_gc := False,
            woomem_gc_marking_round_counter := woomem_gc_marking_round_counter (rn_gc y) + 1,
            woomem_gc_marking_state_flag := True\<rparr>
      in root_calls_run c calls (g, heap_mem h) \<bind> (\<lambda>(g, m).
        mark_root_set (m_root_gc_unit_set g) (g, m) \<bind> (\<lambda>(g, m).
        Some ((on_program (\<lambda>x. (with_gc (\<lambda>_. g) (with_heap (upd_mem (\<lambda>_. m)) x))\<lparr>pr_new_allocated := 0\<rparr>) y)
          \<lparr>rn_phase := Parallel_mark, rn_scans := replicate (length (rn_workers y)) Waiting, rn_callback := cb,
           rn_snapshot := h, rn_roots := root_units c (heap_mem h) calls (rn_gc y)\<rparr>))))"
| "perform tgt sys k y (Worker_enter j) =
     Some (put_scan j Looping (put_worker j (heap_mem (rn_heap y), (rn_workers y ! j)\<lparr>m_is_draining := True\<rparr>) y))"
| "perform tgt sys k y (Worker_next j) =
     next_unit k (mark_callback (rn_callback y)) (heap_mem (rn_heap y)) (rn_workers y ! j) \<bind> (\<lambda>(c, w).
     Some (put_scan j c (put_worker j (heap_mem (rn_heap y), w) y)))"
| "perform tgt sys k y (Worker_mark j) = (case rn_scans y ! j of
     Scanning u (x # xs) is \<Rightarrow>
       mark_call_run k True (chunk_of (h_chunk (rn_heap y))) x (heap_mem (rn_heap y), rn_workers y ! j) \<bind> (\<lambda>mw.
       Some (put_scan j (Scanning u xs is) (put_worker j mw y)))
   | _ \<Rightarrow> Some y)"
| "perform tgt sys k y (Worker_load j) = (case rn_scans y ! j of
     Scanning u [] (i # is) \<Rightarrow> Some (put_scan j (Scanning u [Mark_fuzzy_unit (word_at (heap_mem (rn_heap y)) (word_addr u i))] is) y)
   | _ \<Rightarrow> Some y)"
| "perform tgt sys k y (Worker_black j) = (case rn_scans y ! j of
     Scanning u [] [] \<Rightarrow>
       Some (put_scan j Looping (on_program (with_heap (upd_mem (upd_unit u (\<lambda>h. h\<lparr>m_life := FULL_MARKED\<rparr>)))) y))
   | _ \<Rightarrow> Some y)"
| "perform tgt sys k y Stop_marking =
     Some ((on_program (with_gc (\<lambda>g. g\<lparr>woomem_gc_marking_state_flag := False\<rparr>)) y)
       \<lparr>rn_phase := Final_mark, rn_scans := replicate (length (rn_workers y)) Waiting\<rparr>)"
| "perform tgt sys k y Sweep_all =
     gc_sweep_cycle (rn_gc y) (rn_heap y) \<bind> (\<lambda>(g, h, freed).
     Some ((on_program (\<lambda>x. with_gc (\<lambda>_. g) (with_heap (\<lambda>_. h) x)) y)\<lparr>rn_phase := Between\<rparr>))"

definition running_step :: "target \<Rightarrow> 'os syscalls \<Rightarrow> nat \<Rightarrow> bool \<Rightarrow> 'os running \<Rightarrow> 'os running \<Rightarrow> bool" where
  "running_step tgt sys k careful y y' \<longleftrightarrow> (\<exists>a. enabled k careful y a \<and> perform tgt sys k y a = Some y')"

definition running_init :: "target \<Rightarrow> 'os syscalls \<Rightarrow> nat \<Rightarrow> 'os running \<Rightarrow> bool" where
  "running_init tgt sys k y \<longleftrightarrow> program_init tgt sys k (rn_program y) \<and> rn_phase y = Between \<and> rn_stores y = []"

end
