(* ===== verification/Woomem_Extends.thy ===== *)
theory Woomem_Extends
  imports Woomem_Concurrent
begin

text \<open>
  Where values point while the heap grows. Units in use keep their place, their bytes and their size when the program
  allocates, publishes and writes and when units are marked, so a value that points into a published unit goes on to do
  so, and a value that comes to point into a unit points into a new one.
\<close>

section \<open>The bytes of units\<close>

abbreviation inside :: "'os heap \<Rightarrow> addr \<Rightarrow> u64 \<Rightarrow> bool" where
  "inside h \<equiv> in_unit (chunk_of (h_chunk h)) (heap_mem h)"

lemma in_unit_cut:
  assumes c: "chunk_inv c" and p: "cut_page c m p g" and off: "off \<in> unit_offsets g"
  shows "in_unit c m (unit_addr p off) a \<longleftrightarrow> unat a \<in> unit_bytes p g off"
proof
  have r: "(p, 1) \<in> chunk_ranges c" using p by (simp add: cut_page_def)
  note f = chunk_page_facts(1) [OF c r]
  assume "in_unit c m (unit_addr p off) a"
  with c show "unat a \<in> unit_bytes p g off"
  proof (cases rule: in_unit_run)
    case (cut q g' off')
    have "unat (unit_addr p off) \<in> range_bytes (q, 1)"
      using unit_addr_range [OF chunk_page_facts(1) [OF c cut(5)] cut(2)] cut(3) by simp
    then have e: "q = p" using chunk_runs_apart [OF c cut(5) r] unit_addr_range [OF f off] unfolding apart_def by blast
    then have "g' = g" using p cut(1) group_size_16 group_size_inj unfolding cut_page_def by metis
    with e cut(3,4) show ?thesis by simp
  next
    case (huge q n)
    have "unat (unit_addr p off) \<in> range_bytes (q, 1)" using head_range [OF chunk_page_facts(1) [OF c huge(3)]] huge(2) by simp
    then have "q = p" using chunk_runs_apart [OF c huge(3) r] unit_addr_range [OF f off] unfolding apart_def by blast
    then show ?thesis using p huge(1) by (simp add: cut_page_def huge_page_def)
  qed
next
  assume "unat a \<in> unit_bytes p g off"
  then show "in_unit c m (unit_addr p off) a" using p off unfolding in_unit_def by blast
qed

lemma in_unit_huge:
  assumes c: "chunk_inv c" and p: "huge_page c m p n"
  shows "in_unit c m (p + sizeof_PageHead) a \<longleftrightarrow> unat a \<in> range_bytes (p, n)"
proof
  have r: "(p, n) \<in> chunk_ranges c" using p by (simp add: huge_page_def)
  note f = chunk_page_facts(1) [OF c r]
  assume "in_unit c m (p + sizeof_PageHead) a"
  with c show "unat a \<in> range_bytes (p, n)"
  proof (cases rule: in_unit_run)
    case (cut q g off)
    have "unat (p + sizeof_PageHead) \<in> range_bytes (q, 1)"
      using unit_addr_range [OF chunk_page_facts(1) [OF c cut(5)] cut(2)] cut(3) by simp
    then have "q = p" using chunk_runs_apart [OF c cut(5) r] head_range [OF f] unfolding apart_def by blast
    then show ?thesis using p cut(1) by (simp add: cut_page_def huge_page_def)
  next
    case (huge q k)
    then have "q = p" by simp
    then show ?thesis using huge chunk_runs_unique [OF c r] by blast
  qed
next
  assume "unat a \<in> range_bytes (p, n)"
  then show "in_unit c m (p + sizeof_PageHead) a" using p unfolding in_unit_def by blast
qed

text \<open>No byte is in two units, whatever their lives.\<close>

lemma in_unit_lives: "in_unit c (with_lives L m) u a = in_unit c m u a"
  by (simp add: in_unit_def cut_page_def huge_page_def)

lemma in_unit_unique:
  assumes "chunk_inv c" "in_unit c m u a" "in_unit c m v a"
  shows "u = v"
proof -
  let ?m = "with_lives (\<lambda>_. UNMARKED) m"
  have v: "woomem_validate_addr a c ?m = Some (w + sizeof_UnitHead)" if "in_unit c m w a" for w
    using validate_addr_hit(1) [OF assms(1), of ?m w a] that by (simp add: in_unit_lives)
  have "Some (u + sizeof_UnitHead) = Some (v + sizeof_UnitHead)" by (rule trans [OF sym [OF v [OF assms(2)]] v [OF assms(3)]])
  then show ?thesis by simp
qed

section \<open>Sizes and words\<close>

text \<open>The size of a unit in use, and that its words lie in it.\<close>

lemma cut_size:
  assumes "unit_page h p g" "off \<in> unit_offsets g" "m_life (unit_at (heap_mem h) (unit_addr p off)) \<noteq> RELEASED"
  shows "get_unit_available_size (unit_addr p off) (heap_mem h) = Some (group_size g)"
proof -
  obtain fs bs where L: "unit_lists (heap_mem h) p g {} fs bs" using assms(1) by (auto simp: unit_page_def page_inv_def)
  have "unit_link (heap_mem h) p off = off" using unit_lists_sets(6,7) [OF L assms(2)] assms(3) by (simp add: unit_life_of_def)
  moreover have "off \<noteq> 0" using assms(2) unit_offsets_nonzero by metis
  ultimately show ?thesis using unit_listsD(1) [OF L] group_size_16 [of g]
    by (simp add: get_unit_available_size_def unit_link_def) (simp add: unit_addr_def)
qed

lemma huge_fits:
  assumes "chunk_inv c" "(p, n) \<in> chunk_ranges c"
  shows "unat p + n * 32768 < 2 ^ 64" "0 < n"
proof -
  obtain i where "unat p = unat (ch_base c) + i * 32768" "i + n \<le> bsizes (blocks_of c)" "0 < n"
    using chunk_rangesE [OF assms] by metis
  moreover have "unat (ch_base c) + bsizes (blocks_of c) * 32768 < 2 ^ 64" using assms(1) by (simp add: chunk_inv_def)
  ultimately show "unat p + n * 32768 < 2 ^ 64" "0 < n" by simp_all
qed

lemma huge_size:
  assumes c: "chunk_inv c" and p: "huge_page c m p n" "m_next_free_unit_offset (unit_at m (p + sizeof_PageHead)) = 0"
  shows "get_unit_available_size (p + sizeof_PageHead) m = Some (w64 (n * 32768 - 32))" "unat (w64 (n * 32768 - 32)) = n * 32768 - 32"
proof -
  have r: "(p, n) \<in> chunk_ranges c" using p by (simp add: huge_page_def)
  note f = huge_fits [OF c r]
  have n: "m_page_count_if_huge (page_at m p) = w64 n" "m_page_count_if_huge (page_at m p) \<noteq> 0" using p by (auto simp: huge_page_def)
  have "w64 n * NORMAL_PAGE_SIZE - (sizeof_PageHead + sizeof_UnitHead) = w64 (n * 32768 - 32)"
    using f(2) by (simp add: sizeof_defs of_nat_diff)
  then show "get_unit_available_size (p + sizeof_PageHead) m = Some (w64 (n * 32768 - 32))"
    using n p(2) by (simp add: get_unit_available_size_def Let_def)
  show "unat (w64 (n * 32768 - 32)) = n * 32768 - 32" using f by (intro unat_w64) simp
qed

text \<open>Where a unit in use is.\<close>

lemma unit_home:
  assumes t: "ordered Q h C" and u: "unit_in h u"
  obtains (cut) p g off where "unit_page h p g" "page_fits p" "off \<in> unit_offsets g" "u = unit_addr p off" "(p, 1) \<in> runs_of h"
      "m_life (unit_at (heap_mem h) u) \<noteq> RELEASED" "\<And>a. inside h u a \<longleftrightarrow> unat a \<in> unit_bytes p g off"
      "get_unit_available_size u (heap_mem h) = Some (group_size g)" "Q u (m_life (unit_at (heap_mem h) u))"
    | (huge) p n where "huge_page (chunk_of (h_chunk h)) (heap_mem h) p n" "page_fits p" "u = p + sizeof_PageHead" "(p, n) \<in> runs_of h"
      "\<And>a. inside h u a \<longleftrightarrow> unat a \<in> range_bytes (p, n)" "m_next_free_unit_offset (unit_at (heap_mem h) u) = 0"
      "get_unit_available_size u (heap_mem h) = Some (w64 (n * 32768 - 32))" "Q u (m_life (unit_at (heap_mem h) u))"
proof -
  note ci = heap_invD(1) [OF orderedD(1) [OF t]]
  from t u show thesis
  proof (cases rule: unit_inD)
    case (cut p g off)
    have "sweepable_in Q h C p" using orderedD(3) [OF t cut(2)] .
    moreover have "\<not> huge_page (chunk_of (h_chunk h)) (heap_mem h) p n" for n using cut(1) by (simp add: unit_page_def huge_page_def)
    ultimately obtain g' where g': "unit_page h p g'" "\<forall>off \<in> unit_offsets g'. Q (unit_addr p off) (unit_life_of (heap_mem h) p off)"
      unfolding sweepable_in_def by blast
    then have "g' = g" using cut(1) unit_page_group by blast
    then have "Q u (m_life (unit_at (heap_mem h) u))" using g'(2) cut(4,5) by (simp add: unit_life_of_def)
    then show thesis
      using that(1) [OF cut(1,3,4,5,2,6)] in_unit_cut [OF ci unit_page_cut [OF cut(1)] cut(4)] cut_size [OF cut(1,4)] cut(5,6) by simp
  next
    case (huge p n)
    have "\<not> unit_page h p g" for g using huge(1) by (simp add: unit_page_def huge_page_def)
    then have q: "m_next_free_unit_offset (unit_at (heap_mem h) u) = 0" "Q u (m_life (unit_at (heap_mem h) u))"
      using orderedD(3) [OF t huge(2)] huge(4) unfolding sweepable_in_def by auto
    then show thesis using that(2) [OF huge(1,3,4,2)] in_unit_huge [OF ci huge(1)] huge_size(1) [OF ci huge(1)] huge(4) by simp
  qed
qed

lemma unit_in_life: "ordered Q h C \<Longrightarrow> unit_in h u \<Longrightarrow> Q u (m_life (unit_at (heap_mem h) u))"
  by (erule (1) unit_home)

lemma word_inside:
  assumes t: "ordered Q h C" and u: "unit_in h u" and i: "i < word_count (heap_mem h) u"
  shows "inside h u (word_addr u i)"
  using t u
proof (cases rule: unit_home)
  case (cut p g off)
  have "8 * i < unat (group_size g)" using i cut(8) by (simp add: word_count_def unat_div)
  from payload_bytes [OF cut(2,3) this] show ?thesis using cut(4,7) by (simp add: word_addr_def)
next
  case (huge p n)
  note ci = heap_invD(1) [OF orderedD(1) [OF t]]
  note f = huge_fits [OF ci huge(4)] and s = huge_size(2) [OF ci huge(1)] huge(6)
  have b: "8 * i < n * 32768 - 32" using i huge(7) s huge(3) by (simp add: word_count_def unat_div)
  have "word_addr u i = p + w64 (32 + 8 * i)" by (simp add: word_addr_def huge(3) sizeof_defs)
  moreover have "unat p + (32 + 8 * i) < 2 ^ 64" using b f(1) by simp
  ultimately have "unat (word_addr u i) = unat p + (32 + 8 * i)" using unat_add_small by metis
  then show ?thesis using b unfolding huge(5) by (simp add: range_bytes_def)
qed

lemma payload_inside:
  assumes t: "ordered Q h C" and u: "unit_in h u"
  shows "inside h u (u + sizeof_UnitHead)"
proof -
  have "0 < word_count (heap_mem h) u"
    using t u
  proof (cases rule: unit_home)
    case (cut p g off)
    have "16 \<le> unat (group_size g)" using usz_bounds(1,4) [of g] by simp
    then show ?thesis using cut(8) by (simp add: word_count_def unat_div)
  next
    case (huge p n)
    note ci = heap_invD(1) [OF orderedD(1) [OF t]]
    show ?thesis using huge(7) huge_size(2) [OF ci huge(1)] huge(3,6) huge_fits(2) [OF ci huge(4)] by (simp add: word_count_def unat_div)
  qed
  from word_inside [OF t u this] show ?thesis by (simp add: word_addr_def)
qed

lemma words_apart:
  assumes t: "ordered Q h C" and u: "unit_in h u" "unit_in h v" and i: "i < word_count (heap_mem h) u" "j < word_count (heap_mem h) v"
    and e: "word_addr u i = word_addr v j"
  shows "u = v"
  using in_unit_unique [OF heap_invD(1) [OF orderedD(1) [OF t]] word_inside [OF t u(1) i(1)]] word_inside [OF t u(2) i(2)] e by simp

section \<open>Published units and the values that point into them\<close>

abbreviation life_in :: "'os heap \<Rightarrow> addr \<Rightarrow> unit_life" where
  "life_in h u \<equiv> m_life (unit_at (heap_mem h) u)"

definition is_published :: "'os heap \<Rightarrow> addr \<Rightarrow> bool" where
  "is_published h u \<longleftrightarrow> unit_in h u \<and> PENDING < life_in h u"

lemma resolve_hit:
  assumes "ordered Q h C" "is_published h u" "inside h u x"
  shows "resolve h x = u + sizeof_UnitHead" "u + sizeof_UnitHead \<noteq> 0"
  using validate_addr_hit [OF heap_invD(1) [OF orderedD(1) [OF assms(1)]] assms(3)] assms(2)
  by (simp_all add: resolve_def is_published_def)

lemma resolve_cases:
  assumes t: "ordered Q h C" and x: "resolve h x \<noteq> 0"
  obtains u where "resolve h x = u + sizeof_UnitHead" "inside h u x" "is_published h u"
proof -
  note ci = heap_invD(1) [OF orderedD(1) [OF t]]
  have v: "woomem_validate_addr x (chunk_of (h_chunk h)) (heap_mem h) = Some (resolve h x)"
    using x by (simp add: resolve_def split: option.splits)
  obtain u where u: "inside h u x" using validate_addr_miss [OF ci tidy_formatted [OF t], of x] v x by auto
  then have "resolve h x = u + sizeof_UnitHead" "PENDING < life_in h u" using validate_addr_hit(1) [OF ci u] v x by (auto split: if_splits)
  moreover from validated_unit [OF t v x] this(1) have "unit_in h u" by simp
  ultimately show thesis using that u by (simp add: is_published_def)
qed

lemma resolve_published: "ordered Q h C \<Longrightarrow> resolve h x \<noteq> 0 \<Longrightarrow> is_published h (resolve h x - sizeof_UnitHead)"
  by (erule (1) resolve_cases) simp

lemma resolve_payload:
  assumes "ordered Q h C" "is_published h u"
  shows "resolve h (u + sizeof_UnitHead) = u + sizeof_UnitHead"
  using resolve_hit(1) [OF assms payload_inside [OF assms(1)]] assms(2) by (simp add: is_published_def)

lemma resolve_null [simp]: "resolve h 0 = 0"
  by (auto simp: resolve_def woomem_validate_addr_def validate_def word_neq_0_conv)

text \<open>The target of a call: a fuzzy call names what its value points into, a precise one is trusted.\<close>

lemma target_of_simps [simp]:
  "target_of h (Mark_unit_head p) = p" "target_of h (Mark_fuzzy_unit x) = resolve h x"
  "target_of h (Mark_fuzzy_unit_head x) = (if x AND 7 = 0 then resolve h x else 0)"
  by (simp_all add: target_of_def resolve_def woomem_validate_addr_head_def)

lemma call_target_some:
  assumes "ordered Q h C"
  shows "call_target (chunk_of (h_chunk h)) (heap_mem h) x = Some (target_of h x)"
  using call_target_total [OF heap_invD(1) [OF orderedD(1) [OF assms]], of "heap_mem h" x] by (auto simp: target_of_def)

lemma call_units_targets:
  assumes "ordered Q h C"
  shows "set (call_units (chunk_of (h_chunk h)) (heap_mem h) xs) = {target_of h x - sizeof_UnitHead | x. x \<in> set xs \<and> target_of h x \<noteq> 0}"
  using call_target_some [OF assms] by (auto simp: call_units_def)

section \<open>Heaps that grow\<close>

text \<open>
  Units in use stay in use, in their place and of their size; published ones stay published and keep everything but the
  mark.
\<close>

definition extends :: "'os heap \<Rightarrow> 'os heap \<Rightarrow> bool" where
  "extends h h' \<longleftrightarrow> (\<forall>u. unit_in h u \<longrightarrow> unit_in h' u \<and> inside h' u = inside h u \<and>
     get_unit_available_size u (heap_mem h') = get_unit_available_size u (heap_mem h) \<and>
     (PENDING < life_in h u \<longrightarrow> PENDING < life_in h' u \<and>
        (unit_at (heap_mem h') u)\<lparr>m_life := UNMARKED\<rparr> = (unit_at (heap_mem h) u)\<lparr>m_life := UNMARKED\<rparr>))"

lemma extends_refl: "extends h h"
  by (simp add: extends_def)

lemma extends_trans: "extends h h1 \<Longrightarrow> extends h1 h2 \<Longrightarrow> extends h h2"
  unfolding extends_def by metis

lemma extendsD:
  assumes "extends h h'"
  shows "unit_in h u \<Longrightarrow> unit_in h' u" "unit_in h u \<Longrightarrow> inside h' u = inside h u"
    "unit_in h u \<Longrightarrow> word_count (heap_mem h') u = word_count (heap_mem h) u"
    "is_published h u \<Longrightarrow> is_published h' u"
    "is_published h u \<Longrightarrow> (unit_at (heap_mem h') u)\<lparr>m_life := UNMARKED\<rparr> = (unit_at (heap_mem h) u)\<lparr>m_life := UNMARKED\<rparr>"
  using assms by (auto simp: extends_def is_published_def word_count_def)

lemma extends_resolve:
  assumes e: "extends h h'" and t: "ordered Q h C" "ordered Q' h' C'"
  shows "resolve h x \<noteq> 0 \<Longrightarrow> resolve h' x = resolve h x"
    "resolve h' x \<noteq> 0 \<Longrightarrow> is_published h (resolve h' x - sizeof_UnitHead) \<Longrightarrow> resolve h x = resolve h' x"
proof -
  assume "resolve h x \<noteq> 0"
  with t(1) show "resolve h' x = resolve h x"
  proof (rule resolve_cases)
    fix u assume u: "resolve h x = u + sizeof_UnitHead" "inside h u x" "is_published h u"
    then have "inside h' u x" using extendsD(2) [OF e, of u] by (simp add: is_published_def)
    with resolve_hit(1) [OF t(2) extendsD(4) [OF e u(3)]] u(1) show ?thesis by simp
  qed
next
  assume nz: "resolve h' x \<noteq> 0" and p: "is_published h (resolve h' x - sizeof_UnitHead)"
  from t(2) nz show "resolve h x = resolve h' x"
  proof (rule resolve_cases)
    fix u assume u: "resolve h' x = u + sizeof_UnitHead" "inside h' u x"
    then have "is_published h u" using p by simp
    with u extendsD(2) [OF e, of u] resolve_hit(1) [OF t(1) this] show ?thesis by (simp add: is_published_def)
  qed
qed

lemma resolve_same:
  assumes e: "extends h h'" and t: "ordered Q h C" "ordered Q' h' C'" and p: "\<And>u. is_published h' u \<Longrightarrow> is_published h u"
  shows "resolve h' x = resolve h x"
proof (cases "resolve h x = 0")
  case True
  show ?thesis
  proof (rule ccontr)
    assume "resolve h' x \<noteq> resolve h x"
    then have nz: "resolve h' x \<noteq> 0" using True by simp
    from extends_resolve(2) [OF e t nz p [OF resolve_published [OF t(2) nz]]] nz True show False by simp
  qed
qed (rule extends_resolve(1) [OF e t])

lemma target_same: "(\<And>x. resolve h' x = resolve h x) \<Longrightarrow> target_of h' y = target_of h y"
  by (cases y) simp_all

lemma extends_target: "extends h h' \<Longrightarrow> ordered Q h C \<Longrightarrow> ordered Q' h' C' \<Longrightarrow> target_of h x \<noteq> 0 \<Longrightarrow> target_of h' x = target_of h x"
  using extends_resolve(1) by (cases x) (auto split: if_splits)

text \<open>The calls of a published unit, as far as they do not read words, do not change.\<close>

lemma extends_attrib: "extends h h' \<Longrightarrow> is_published h u \<Longrightarrow> has_attrib (unit_at (heap_mem h') u) b = has_attrib (unit_at (heap_mem h) u) b"
  using extendsD(5) [of h h' u] by (auto simp: has_attrib_def dest: arg_cong [of _ _ m_attribute])

text \<open>Marking: lives change among the published ones.\<close>

lemma lives_unit_in:
  assumes "\<And>u. L u = RELEASED \<longleftrightarrow> lives (heap_mem h) u = RELEASED"
  shows "unit_in (upd_mem (\<lambda>_. with_lives L (heap_mem h)) h) u = unit_in h u"
proof -
  have "page_group (with_lives L (heap_mem h)) p = page_group (heap_mem h) p" for p by (simp add: page_group_def)
  then have "unit_of_page (with_lives L (heap_mem h)) p u = unit_of_page (heap_mem h) p u" for p
    using assms by (simp add: unit_of_page_def page_is_cut_def page_live_def live_units_def unit_life_of_def lives_def)
  then show ?thesis by (simp add: unit_in_def)
qed

lemma extends_lives:
  assumes L: "\<And>u. L u = RELEASED \<longleftrightarrow> lives (heap_mem h) u = RELEASED" "\<And>u. PENDING < lives (heap_mem h) u \<Longrightarrow> PENDING < L u"
  shows "extends h (upd_mem (\<lambda>_. with_lives L (heap_mem h)) h)"
proof -
  have "(unit_at (with_lives L (heap_mem h)) u)\<lparr>m_life := UNMARKED\<rparr> = (unit_at (heap_mem h) u)\<lparr>m_life := UNMARKED\<rparr>" for u
    by (simp add: with_lives_def)
  then show ?thesis using lives_unit_in [OF L(1)] L(2) by (auto simp: extends_def lives_def in_unit_lives fun_eq_iff)
qed

lemma ordered_lives:
  assumes t: "ordered Q h C" and L: "\<And>u. L u = RELEASED \<longleftrightarrow> lives (heap_mem h) u = RELEASED"
    and q: "\<And>u. Q u (lives (heap_mem h) u) \<Longrightarrow> R u (L u)"
  defines "h' \<equiv> upd_mem (\<lambda>_. with_lives L (heap_mem h)) h"
  shows "ordered R h' C" "unit_page h' p g = unit_page h p g"
proof -
  note U = heap_lives(1,2) [OF L, folded h'_def]
  note T = orderedD [OF t]
  have m: "heap_mem h' = with_lives L (heap_mem h)" "chunk_of (h_chunk h') = chunk_of (h_chunk h)" "m_all_page_list h' = m_all_page_list h" by (simp_all add: h'_def)
  have ro: "run_out_of h' p = run_out_of h p" for p by (simp add: run_out_of_def m)
  have pl: "page_links (heap_mem h') = page_links (heap_mem h)" by (simp add: fun_eq_iff page_links_def m)
  have sw: "sweepable_in R h' C p" if "sweepable_in Q h C p" for p
    using that unfolding sweepable_in_def U(1) ro unfolding m huge_page_def with_lives_simps unit_life_of_def using q unfolding lives_def by blast
  show "ordered R h' C" using T U(2) sw unfolding ordered_def page_chain_def pl m(2,3) by blast
  show "unit_page h' p g = unit_page h p g" by (rule U(1))
qed

text \<open>Writing words.\<close>

lemma extends_words: "extends h (upd_mem (\<lambda>m. m\<lparr>word_at := w\<rparr>) h)"
proof -
  have "get_unit_available_size u (m\<lparr>word_at := w\<rparr>) = get_unit_available_size u m" for u m
    by (simp add: get_unit_available_size_def Let_def)
  then show ?thesis by (simp add: extends_def written_units(2) in_unit_def cut_page_def huge_page_def fun_eq_iff)
qed

text \<open>Publishing a pending unit.\<close>

lemma extends_publish:
  fixes round :: u8 and attrib :: u32
  assumes t: "ordered Q h C" and a: "pending_unit h a" and q: "Q (a - sizeof_UnitHead) UNMARKED"
  defines "h' \<equiv> upd_mem (woomem_allocate_end round a attrib) h"
  shows "extends h h'" "unit_in h' v = unit_in h v" "is_published h' v \<Longrightarrow> \<not> is_published h v \<Longrightarrow> v = a - sizeof_UnitHead"
    "is_published h' (a - sizeof_UnitHead)" "\<not> is_published h (a - sizeof_UnitHead)"
proof -
  note P = published_unit [OF t a q, where round = round and attrib = attrib, folded h'_def]
  have s: "get_unit_available_size u (heap_mem h') = get_unit_available_size u (heap_mem h)" "inside h' u = inside h u" for u
    by (simp_all add: h'_def woomem_allocate_end_def get_unit_available_size_def upd_unit_def Let_def in_unit_def cut_page_def huge_page_def fun_eq_iff)
  have pend: "unit_in h (a - sizeof_UnitHead)" "life_in h (a - sizeof_UnitHead) = PENDING" using a by (simp_all add: pending_unit_def)
  then have "\<not> PENDING < life_in h u" if "u = a - sizeof_UnitHead" for u using that by simp
  then show "extends h h'" unfolding extends_def s using P(3,4) by metis
  have e: "page_group (heap_mem h') p = page_group (heap_mem h) p" "page_is_cut (heap_mem h') p = page_is_cut (heap_mem h) p" for p
    by (simp_all add: h'_def page_group_def page_is_cut_def woomem_allocate_end_def upd_unit_def)
  have "unit_of_page (heap_mem h') p v = unit_of_page (heap_mem h) p v" if ne: "v \<noteq> a - sizeof_UnitHead" for p v
    unfolding unit_of_page_def page_live_def e using P(4) [OF ne] by (auto simp: live_units_def unit_life_of_def)
  then have "unit_in h' v = unit_in h v" if "v \<noteq> a - sizeof_UnitHead" for v using that by (simp add: unit_in_def h'_def)
  then show ui: "unit_in h' v = unit_in h v" for v using pend(1) P(3) by metis
  show "v = a - sizeof_UnitHead" if "is_published h' v" "\<not> is_published h v"
    using that P(4) [of v] ui [of v] by (cases "v = a - sizeof_UnitHead") (simp_all add: is_published_def)
  show "is_published h' (a - sizeof_UnitHead)" "\<not> is_published h (a - sizeof_UnitHead)" using pend P(5) ui by (simp_all add: is_published_def)
qed

text \<open>Beginning an allocation.\<close>

lemma extends_begun:
  assumes t: "ordered Q h C" and b: "begun Q' h a ts h'"
  shows "extends h h'"
  unfolding extends_def
proof (intro allI impI)
  fix u assume u: "unit_in h u"
  have B: "ordered Q' h' (held ts)" "unit_in h' u" "unit_at (heap_mem h') u = unit_at (heap_mem h) u" "keeps_runs h h'" "\<And>q g. unit_page h q g \<Longrightarrow> unit_page h' q g"
    using b u by (auto simp: begun_def units_kept_def)
  note ci' = heap_invD(1) [OF orderedD(1) [OF B(1)]]
  have "inside h' u = inside h u \<and> get_unit_available_size u (heap_mem h') = get_unit_available_size u (heap_mem h)"
    using t u
  proof (cases rule: unit_home)
    case (cut p g off)
    have "inside h' u x = inside h u x" for x
      using in_unit_cut [OF ci' unit_page_cut [OF B(5) [OF cut(1)]] cut(3), of x] cut(4,7) by simp
    moreover have "get_unit_available_size u (heap_mem h') = Some (group_size g)"
      using cut_size [OF B(5) [OF cut(1)] cut(3)] B(3) cut(4,6) by simp
    ultimately show ?thesis using cut(8) by (simp add: fun_eq_iff)
  next
    case (huge p n)
    have hp: "huge_page (chunk_of (h_chunk h')) (heap_mem h') p n" using B(4) huge(1,4) by (auto simp: huge_page_def keeps_runs_def)
    have "inside h' u x = inside h u x" for x using in_unit_huge [OF ci' hp, of x] huge(3,5) by simp
    then show ?thesis using huge_size(1) [OF ci' hp] huge(3,6,7) B(3) by (simp add: fun_eq_iff)
  qed
  then show "unit_in h' u \<and> inside h' u = inside h u \<and> get_unit_available_size u (heap_mem h') = get_unit_available_size u (heap_mem h) \<and>
      (PENDING < life_in h u \<longrightarrow> PENDING < life_in h' u \<and>
        (unit_at (heap_mem h') u)\<lparr>m_life := UNMARKED\<rparr> = (unit_at (heap_mem h) u)\<lparr>m_life := UNMARKED\<rparr>)"
    using B(2,3) by simp
qed

end
