(* ===== verification/Woomem_Snapshot.thy ===== *)
theory Woomem_Snapshot
  imports Woomem_Extends
begin

text \<open>
  The argument why marking may run while the program writes: every unit that was reachable when the cycle began is
  marked in the end, whatever the program has overwritten since, because the barrier marks what is overwritten; and the
  program can hold nothing but such units and units published since. The predicates compare the heap \<open>S\<close> of the
  beginning (the snapshot) with the present heap \<open>H\<close>.
\<close>

section \<open>Predicates\<close>

abbreviation any_life :: "addr \<Rightarrow> unit_life \<Rightarrow> bool" where
  "any_life \<equiv> \<lambda>_ _. True"

text \<open>A heap between two cycles: no marks, and a callback that names precisely only null or published units.\<close>

definition unmarked_heap :: "'os heap \<Rightarrow> bool" where
  "unmarked_heap h \<longleftrightarrow> (\<forall>u. unit_in h u \<longrightarrow> life_in h u \<in> {RELEASED, PENDING, UNMARKED})"

definition precise_ok :: "'os heap \<Rightarrow> mark_call list \<Rightarrow> bool" where
  "precise_ok h xs \<longleftrightarrow> (\<forall>p. Mark_unit_head p \<in> set xs \<longrightarrow> p = 0 \<or> resolve h p = p)"

definition snapshot_ok :: "'os heap \<Rightarrow> (addr \<Rightarrow> mark_call list) \<Rightarrow> addr list \<Rightarrow> bool" where
  "snapshot_ok S cb roots \<longleftrightarrow> (\<exists>C. ordered any_life S C) \<and> unmarked_heap S \<and> (\<forall>x. precise_ok S (cb x)) \<and> (\<forall>u \<in> set roots. is_published S u)"

text \<open>The unit with payload \<open>p\<close>, if it was published at the beginning, is marked now.\<close>

definition dark :: "'os heap \<Rightarrow> 'os heap \<Rightarrow> addr \<Rightarrow> bool" where
  "dark S H p \<longleftrightarrow> (p \<noteq> 0 \<longrightarrow> is_published S (p - sizeof_UnitHead) \<longrightarrow> life_in H (p - sizeof_UnitHead) \<noteq> UNMARKED)"

abbreviation old_word :: "'os heap \<Rightarrow> addr \<Rightarrow> u64" where
  "old_word S a \<equiv> word_at (heap_mem S) a"

text \<open>The address of a word of a unit that was published at the beginning.\<close>

definition old_slot :: "'os heap \<Rightarrow> addr \<Rightarrow> bool" where
  "old_slot S a \<longleftrightarrow> (\<exists>u i. is_published S u \<and> i < word_count (heap_mem S) u \<and> a = word_addr u i)"

text \<open>What a black unit referred to is marked; what has been overwritten is marked; and the roots are.\<close>

definition black_ok :: "'os heap \<Rightarrow> (addr \<Rightarrow> mark_call list) \<Rightarrow> 'os heap \<Rightarrow> bool" where
  "black_ok S cb H \<longleftrightarrow> (\<forall>u. is_published S u \<and> life_in H u = FULL_MARKED \<longrightarrow>
     (\<forall>x \<in> set (unit_calls (heap_mem S) cb u). dark S H (target_of S x)))"

definition words_ok :: "'os heap \<Rightarrow> 'os heap \<Rightarrow> bool" where
  "words_ok S H \<longleftrightarrow> (\<forall>a. old_slot S a \<longrightarrow> word_at (heap_mem H) a = old_word S a \<or> dark S H (resolve S (old_word S a)))"

definition roots_dark :: "'os heap \<Rightarrow> addr list \<Rightarrow> 'os heap \<Rightarrow> bool" where
  "roots_dark S roots H \<longleftrightarrow> (\<forall>u \<in> set roots. life_in H u \<noteq> UNMARKED)"

text \<open>A scan in progress, and a store in progress.\<close>

fun scan_ok :: "'os heap \<Rightarrow> (addr \<Rightarrow> mark_call list) \<Rightarrow> 'os heap \<Rightarrow> scan \<Rightarrow> bool" where
  "scan_ok S cb H (Scanning u xs is) \<longleftrightarrow> (is_published S u \<longrightarrow> (\<forall>x \<in> set (unit_calls (heap_mem S) cb u).
     dark S H (target_of S x) \<or> x \<in> set xs \<or> (\<exists>i \<in> set is. x = Mark_fuzzy_unit (old_word S (word_addr u i)) \<and> i < word_count (heap_mem S) u)))"
| "scan_ok S cb H _ \<longleftrightarrow> True"

fun store_ok :: "'os heap \<Rightarrow> 'os heap \<Rightarrow> store \<Rightarrow> bool" where
  "store_ok S H (Loaded wk a x v) \<longleftrightarrow> (old_slot S a \<longrightarrow> x = old_word S a \<or> dark S H (resolve S (old_word S a)))"
| "store_ok S H (Marked a v) \<longleftrightarrow> (old_slot S a \<longrightarrow> dark S H (resolve S (old_word S a)))"

text \<open>The units the program can come by: reachable at the beginning, or published since.\<close>

definition snap_reach :: "'os heap \<Rightarrow> (addr \<Rightarrow> mark_call list) \<Rightarrow> addr list \<Rightarrow> addr set" where
  "snap_reach S cb roots = gc_reachable (chunk_of (h_chunk S)) cb (heap_mem S) roots"

definition covered :: "'os heap \<Rightarrow> (addr \<Rightarrow> mark_call list) \<Rightarrow> addr list \<Rightarrow> 'os heap \<Rightarrow> addr set" where
  "covered S cb roots H = snap_reach S cb roots \<union> {u. is_published H u \<and> \<not> is_published S u}"

definition safe_value :: "addr set \<Rightarrow> 'os heap \<Rightarrow> u64 \<Rightarrow> bool" where
  "safe_value X H v \<longleftrightarrow> (resolve H v \<noteq> 0 \<longrightarrow> resolve H v - sizeof_UnitHead \<in> X)"

definition safe_call :: "addr set \<Rightarrow> 'os heap \<Rightarrow> mark_call \<Rightarrow> bool" where
  "safe_call X H x \<longleftrightarrow> (target_of H x \<noteq> 0 \<longrightarrow> target_of H x - sizeof_UnitHead \<in> X)"

definition closed_units :: "addr set \<Rightarrow> (addr \<Rightarrow> mark_call list) \<Rightarrow> 'os heap \<Rightarrow> bool" where
  "closed_units X cb H \<longleftrightarrow> (\<forall>u \<in> X. \<forall>x \<in> set (unit_calls (heap_mem H) cb u). safe_call X H x)"

definition new_young :: "'os heap \<Rightarrow> u8 \<Rightarrow> 'os heap \<Rightarrow> bool" where
  "new_young S round H \<longleftrightarrow> (\<forall>u. is_published H u \<and> \<not> is_published S u \<longrightarrow>
     m_age (unit_at (heap_mem H) u) = 15 \<and> m_timing (unit_at (heap_mem H) u) = round)"

section \<open>What was reachable at the beginning\<close>

lemma target_published:
  assumes "ordered Q S C" "precise_ok S xs" "x \<in> set xs" "target_of S x \<noteq> 0"
  shows "is_published S (target_of S x - sizeof_UnitHead)"
proof (cases x)
  case (Mark_unit_head p)
  then have "resolve S p = p" "p \<noteq> 0" using assms(2-4) by (auto simp: precise_ok_def)
  then show ?thesis using resolve_published [OF assms(1), of p] Mark_unit_head by simp
qed (use assms(4) resolve_published [OF assms(1)] in \<open>auto split: if_splits\<close>)

lemma unit_calls_precise: "(\<And>x. precise_ok S (cb x)) \<Longrightarrow> precise_ok S (unit_calls m cb u)"
  by (auto simp: precise_ok_def unit_calls_def)

lemma unmarked_published: "unmarked_heap S \<Longrightarrow> is_published S u \<Longrightarrow> life_in S u = UNMARKED"
  by (auto simp: unmarked_heap_def is_published_def)

lemma snap_reach_induct [consumes 2, case_names root step]:
  assumes ok: "snapshot_ok S cb roots" and u: "u \<in> snap_reach S cb roots"
    and root: "\<And>u. u \<in> set roots \<Longrightarrow> is_published S u \<Longrightarrow> P u"
    and step: "\<And>u x. u \<in> snap_reach S cb roots \<Longrightarrow> is_published S u \<Longrightarrow> P u \<Longrightarrow> x \<in> set (unit_calls (heap_mem S) cb u) \<Longrightarrow> target_of S x \<noteq> 0 \<Longrightarrow>
      is_published S (target_of S x - sizeof_UnitHead) \<Longrightarrow> P (target_of S x - sizeof_UnitHead)"
  shows "is_published S u \<and> P u"
proof -
  obtain C where t: "ordered any_life S C" using ok by (auto simp: snapshot_ok_def)
  have pr: "precise_ok S (unit_calls m cb u)" for m u using ok by (intro unit_calls_precise) (simp add: snapshot_ok_def)
  from u show ?thesis unfolding snap_reach_def gc_reachable_def
  proof (induction rule: reached_induct)
    case (start u)
    then show ?case using ok root by (auto simp: snapshot_ok_def)
  next
    case (step u v)
    then obtain x where x: "x \<in> set (unit_calls (heap_mem S) cb u)" "target_of S x \<noteq> 0" "v = target_of S x - sizeof_UnitHead"
      unfolding unit_targets_def call_units_targets [OF t] by auto
    then have "is_published S v" using target_published [OF t pr] by blast
    with x step(1,4) assms(4) show ?case unfolding snap_reach_def gc_reachable_def by blast
  qed
qed

lemma snap_reach_published: "snapshot_ok S cb roots \<Longrightarrow> u \<in> snap_reach S cb roots \<Longrightarrow> is_published S u"
  using snap_reach_induct [of S cb roots u "\<lambda>_. True"] by blast

lemma snap_reach_root:
  assumes "snapshot_ok S cb roots" "u \<in> set roots"
  shows "u \<in> snap_reach S cb roots"
proof -
  have "lives (heap_mem S) u = UNMARKED" using assms by (auto simp: snapshot_ok_def lives_def intro: unmarked_published)
  then have "u \<in> {u \<in> set roots. lives (heap_mem S) u = UNMARKED}" using assms(2) by simp
  then show ?thesis unfolding snap_reach_def gc_reachable_def by (rule subsetD [OF reached_refl])
qed

lemma snap_reach_step:
  assumes ok: "snapshot_ok S cb roots" and u: "u \<in> snap_reach S cb roots" "x \<in> set (unit_calls (heap_mem S) cb u)" "target_of S x \<noteq> 0"
  shows "target_of S x - sizeof_UnitHead \<in> snap_reach S cb roots"
proof -
  obtain C where t: "ordered any_life S C" using ok by (auto simp: snapshot_ok_def)
  have "precise_ok S (unit_calls (heap_mem S) cb u)" using ok by (intro unit_calls_precise) (simp add: snapshot_ok_def)
  from target_published [OF t this u(2,3)] have l: "lives (heap_mem S) (target_of S x - sizeof_UnitHead) = UNMARKED"
    using ok unmarked_published by (auto simp: snapshot_ok_def lives_def)
  have m: "target_of S x - sizeof_UnitHead \<in> set (unit_targets (chunk_of (h_chunk S)) cb (heap_mem S) u)"
    unfolding unit_targets_def call_units_targets [OF t] using u(2,3) by auto
  show ?thesis unfolding snap_reach_def gc_reachable_def
    by (rule reached_step [OF u(1) [unfolded snap_reach_def gc_reachable_def] m l])
qed

text \<open>When nothing is gray any more, everything that was reachable at the beginning is black.\<close>

lemma snap_reach_black:
  assumes ok: "snapshot_ok S cb roots" and e: "extends S H" and b: "black_ok S cb H" and r: "roots_dark S roots H"
    and g: "\<And>u. unit_in H u \<Longrightarrow> life_in H u \<noteq> SELF_MARKED" and u: "u \<in> snap_reach S cb roots"
  shows "life_in H u = FULL_MARKED"
proof -
  have full: "life_in H v = FULL_MARKED" if "is_published S v" "life_in H v \<noteq> UNMARKED" for v
    using extendsD(4) [OF e that(1)] g [of v] that(2) by (cases "life_in H v") (auto simp: is_published_def)
  from ok u have "is_published S u \<and> life_in H u = FULL_MARKED"
  proof (induction rule: snap_reach_induct)
    case (root u)
    then show ?case using full r by (simp add: roots_dark_def)
  next
    case (step u x)
    then have "dark S H (target_of S x)" using b by (auto simp: black_ok_def)
    with step(5,6) full show ?case by (simp add: dark_def)
  qed
  then show ?thesis by blast
qed

section \<open>The invariant and its steps\<close>

text \<open>\<open>vals\<close> are the values the program works with, \<open>rs\<close> its registered roots.\<close>

definition trace_inv ::
  "'os heap \<Rightarrow> addr list \<Rightarrow> (addr \<Rightarrow> mark_call list) \<Rightarrow> u8 \<Rightarrow> 'os heap \<Rightarrow> scan list \<Rightarrow> store list \<Rightarrow> u64 set \<Rightarrow> addr set \<Rightarrow> bool" where
  "trace_inv S roots cb round H scans stores vals rs \<longleftrightarrow> snapshot_ok S cb roots \<and> extends S H \<and>
     black_ok S cb H \<and> words_ok S H \<and> roots_dark S roots H \<and>
     (\<forall>c \<in> set scans. scan_ok S cb H c) \<and> (\<forall>st \<in> set stores. store_ok S H st) \<and>
     (\<forall>v \<in> vals. safe_value (covered S cb roots H) H v) \<and> rs \<subseteq> covered S cb roots H \<and>
     closed_units (covered S cb roots H) cb H \<and> new_young S round H"

lemma trace_invD:
  assumes "trace_inv S roots cb round H scans stores vals rs"
  shows "snapshot_ok S cb roots" "extends S H" "black_ok S cb H" "words_ok S H" "roots_dark S roots H"
    "c \<in> set scans \<Longrightarrow> scan_ok S cb H c" "st \<in> set stores \<Longrightarrow> store_ok S H st"
    "v \<in> vals \<Longrightarrow> safe_value (covered S cb roots H) H v" "rs \<subseteq> covered S cb roots H"
    "closed_units (covered S cb roots H) cb H" "new_young S round H"
  using assms unfolding trace_inv_def by blast+

lemma trace_invI:
  assumes "snapshot_ok S cb roots" "extends S H" "black_ok S cb H" "words_ok S H" "roots_dark S roots H"
    "\<And>c. c \<in> set scans \<Longrightarrow> scan_ok S cb H c" "\<And>st. st \<in> set stores \<Longrightarrow> store_ok S H st"
    "\<And>v. v \<in> vals \<Longrightarrow> safe_value (covered S cb roots H) H v" "rs \<subseteq> covered S cb roots H"
    "closed_units (covered S cb roots H) cb H" "new_young S round H"
  shows "trace_inv S roots cb round H scans stores vals rs"
  using assms unfolding trace_inv_def by blast

lemma trace_inv_parts:
  assumes "trace_inv S roots cb round H scans stores vals rs"
    and "\<And>c. c \<in> set scans' \<Longrightarrow> c \<in> set scans \<or> scan_ok S cb H c" "\<And>st. st \<in> set stores' \<Longrightarrow> st \<in> set stores \<or> store_ok S H st"
    and "\<And>v. v \<in> vals' \<Longrightarrow> v \<in> vals \<or> safe_value (covered S cb roots H) H v" "rs' \<subseteq> rs \<union> covered S cb roots H"
  shows "trace_inv S roots cb round H scans' stores' vals' rs'"
  by (rule trace_invI) (use trace_invD [OF assms(1)] assms(2-) in blast)+

lemma unit_calls_words:
  assumes "ordered Q h C" "unit_in h u"
  shows "unit_calls (heap_mem h) cb u =
    (if has_attrib (unit_at (heap_mem h) u) WOOMEM_ATTRIB_MARK_CALLBACK then cb (u + sizeof_UnitHead) else []) @
    (if has_attrib (unit_at (heap_mem h) u) WOOMEM_ATTRIB_AUTO_MARK
     then map (\<lambda>i. Mark_fuzzy_unit (word_at (heap_mem h) (word_addr u i))) [0..<word_count (heap_mem h) u] else [])"
  using unit_in_size(1) [OF assms] by (auto simp: unit_calls_def word_count_def word_addr_def)

lemma covered_published:
  "snapshot_ok S cb roots \<Longrightarrow> extends S H \<Longrightarrow> u \<in> covered S cb roots H \<Longrightarrow> is_published H u"
  using snap_reach_published extendsD(4) unfolding covered_def by blast

lemma covered_mono: "extends H H' \<Longrightarrow> covered S cb roots H \<subseteq> covered S cb roots H'"
  using extendsD(4) unfolding covered_def by blast

text \<open>A value stays safe while the heap grows: what it newly points into is new.\<close>

lemma safe_value_grown:
  assumes e: "extends S H" "extends H H'" and t: "ordered Q H C" "ordered Q' H' C'" and v: "safe_value (covered S cb roots H) H v"
  shows "safe_value (covered S cb roots H') H' v"
  unfolding safe_value_def
proof
  assume nz: "resolve H' v \<noteq> 0"
  let ?u = "resolve H' v - sizeof_UnitHead"
  show "?u \<in> covered S cb roots H'"
  proof (cases "is_published H ?u")
    case True
    then have "resolve H v = resolve H' v" by (rule extends_resolve(2) [OF e(2) t nz])
    then show ?thesis using v nz covered_mono [OF e(2)] by (auto simp: safe_value_def)
  next
    case False
    then have "\<not> is_published S ?u" using extendsD(4) [OF e(1)] by blast
    then show ?thesis using resolve_published [OF t(2) nz] by (simp add: covered_def)
  qed
qed

lemma safe_call_grown:
  assumes e: "extends S H" "extends H H'" and t: "ordered Q H C" "ordered Q' H' C'" and x: "safe_call (covered S cb roots H) H x"
  shows "safe_call (covered S cb roots H') H' x"
proof (cases x)
  case (Mark_unit_head p)
  then show ?thesis using x covered_mono [OF e(2)] by (auto simp: safe_call_def)
next
  case (Mark_fuzzy_unit v)
  then show ?thesis using x safe_value_grown [OF e t, of cb roots v] by (simp add: safe_call_def safe_value_def)
next
  case (Mark_fuzzy_unit_head v)
  then show ?thesis using x safe_value_grown [OF e t, of cb roots v] by (cases "v AND 7 = 0") (simp_all add: safe_call_def safe_value_def)
qed

lemma dark_mono: "(\<And>u. is_published S u \<Longrightarrow> life_in H u \<noteq> UNMARKED \<Longrightarrow> life_in H' u \<noteq> UNMARKED) \<Longrightarrow> dark S H p \<Longrightarrow> dark S H' p"
  by (auto simp: dark_def)

lemma scan_ok_mono: "(\<And>p. dark S H p \<Longrightarrow> dark S H' p) \<Longrightarrow> scan_ok S cb H c \<Longrightarrow> scan_ok S cb H' c"
  by (cases c) auto

lemma store_ok_mono: "(\<And>p. dark S H p \<Longrightarrow> dark S H' p) \<Longrightarrow> store_ok S H st \<Longrightarrow> store_ok S H' st"
  by (cases st) auto

text \<open>Marking, beginning and publishing: words stay, marks stay, and new units refer to safe units.\<close>

lemma trace_grown:
  assumes inv: "trace_inv S roots cb round H scans stores vals rs" and e: "extends H H'"
    and t: "ordered Q H C" "ordered Q' H' C'" and w: "word_at (heap_mem H') = word_at (heap_mem H)"
    and mono: "\<And>u. is_published S u \<Longrightarrow> life_in H u \<noteq> UNMARKED \<Longrightarrow> life_in H' u \<noteq> UNMARKED"
    and bl: "\<And>u. is_published S u \<Longrightarrow> life_in H' u = FULL_MARKED \<Longrightarrow>
      life_in H u = FULL_MARKED \<or> (\<forall>x \<in> set (unit_calls (heap_mem S) cb u). dark S H' (target_of S x))"
    and new: "\<And>u. is_published H' u \<Longrightarrow> \<not> is_published H u \<Longrightarrow>
      m_age (unit_at (heap_mem H') u) = 15 \<and> m_timing (unit_at (heap_mem H') u) = round \<and>
      (\<forall>x \<in> set (unit_calls (heap_mem H') cb u). safe_call (covered S cb roots H') H' x)"
  shows "trace_inv S roots cb round H' scans stores vals rs"
proof (rule trace_invI)
  note I = trace_invD [OF inv]
  have dk: "dark S H' p" if "dark S H p" for p by (rule dark_mono [OF mono that])
  show "snapshot_ok S cb roots" by (rule I(1))
  show "extends S H'" by (rule extends_trans [OF I(2) e])
  show "black_ok S cb H'" using I(3) bl dk unfolding black_ok_def by blast
  show "words_ok S H'" using I(4) dk unfolding words_ok_def w by blast
  have "is_published S u" if "u \<in> set roots" for u using I(1) that by (simp add: snapshot_ok_def)
  then show "roots_dark S roots H'" using I(5) mono by (simp add: roots_dark_def)
  show "scan_ok S cb H' c" if "c \<in> set scans" for c by (rule scan_ok_mono [OF dk I(6) [OF that]])
  show "store_ok S H' st" if "st \<in> set stores" for st by (rule store_ok_mono [OF dk I(7) [OF that]])
  show "safe_value (covered S cb roots H') H' v" if "v \<in> vals" for v by (rule safe_value_grown [OF I(2) e t I(8) [OF that]])
  show "rs \<subseteq> covered S cb roots H'" using I(9) covered_mono [OF e] by blast
  show "closed_units (covered S cb roots H') cb H'"
    unfolding closed_units_def
  proof (intro ballI)
    fix u x assume u: "u \<in> covered S cb roots H'" and x: "x \<in> set (unit_calls (heap_mem H') cb u)"
    show "safe_call (covered S cb roots H') H' x"
    proof (cases "is_published H u")
      case True
      then have "u \<in> covered S cb roots H" using u by (auto simp: covered_def)
      moreover have "unit_calls (heap_mem H') cb u = unit_calls (heap_mem H) cb u"
        using True extendsD(1,3) [OF e, of u] extends_attrib [OF e True]
        by (simp add: is_published_def unit_calls_words [OF t(1)] unit_calls_words [OF t(2)] w)
      ultimately show ?thesis using I(10) x safe_call_grown [OF I(2) e t] unfolding closed_units_def by metis
    next
      case False
      moreover have "is_published H' u" using covered_published [OF I(1) extends_trans [OF I(2) e] u] .
      ultimately show ?thesis using new x by blast
    qed
  qed
  show "new_young S round H'"
    unfolding new_young_def
  proof (intro allI impI)
    fix u assume u: "is_published H' u \<and> \<not> is_published S u"
    show "m_age (unit_at (heap_mem H') u) = 15 \<and> m_timing (unit_at (heap_mem H') u) = round"
    proof (cases "is_published H u")
      case True
      then have "m_age (unit_at (heap_mem H') u) = m_age (unit_at (heap_mem H) u)" "m_timing (unit_at (heap_mem H') u) = m_timing (unit_at (heap_mem H) u)"
        using extendsD(5) [OF e True] by (auto dest: arg_cong [of _ _ m_age] arg_cong [of _ _ m_timing])
      with True u I(11) show ?thesis by (simp add: new_young_def)
    qed (use u new in blast)
  qed
qed

text \<open>Writing a word: what is overwritten is marked already, and what is stored is safe.\<close>

lemma trace_written:
  assumes inv: "trace_inv S roots cb round H scans stores vals rs" and t: "ordered Q H C"
    and old: "old_slot S a \<Longrightarrow> dark S H (resolve S (old_word S a))"
    and v: "\<And>u i. u \<in> covered S cb roots H \<Longrightarrow> i < word_count (heap_mem H) u \<Longrightarrow> a = word_addr u i \<Longrightarrow> safe_value (covered S cb roots H) H v"
  shows "trace_inv S roots cb round (upd_mem (\<lambda>m. m\<lparr>word_at := (word_at m)(a := v)\<rparr>) H) scans stores vals rs"
proof -
  let ?H = "upd_mem (\<lambda>m. m\<lparr>word_at := (word_at m)(a := v)\<rparr>) H"
  have eq: "?H = upd_mem (\<lambda>m. m\<lparr>word_at := (word_at (heap_mem H))(a := v)\<rparr>) H" by (simp add: upd_mem_def heap_mem_def)
  note I = trace_invD [OF inv]
  have e: "extends H ?H" unfolding eq by (rule extends_words)
  have t': "ordered Q ?H C" unfolding eq by (rule written_units(1) [OF t])
  have un: "unit_at (heap_mem ?H) = unit_at (heap_mem H)" "word_at (heap_mem ?H) = (word_at (heap_mem H))(a := v)"
    "chunk_of (h_chunk ?H) = chunk_of (h_chunk H)" by simp_all
  have ui: "unit_in ?H u = unit_in H u" for u unfolding eq by (rule written_units(2))
  have pb: "is_published ?H u = is_published H u" for u by (simp add: is_published_def ui un)
  have rs': "resolve ?H x = resolve H x" for x
    by (rule resolve_same [OF e t t']) (simp add: pb)
  have tg: "target_of ?H x = target_of H x" for x by (rule target_same [OF rs'])
  have cv: "covered S cb roots ?H = covered S cb roots H" by (simp add: covered_def pb)
  have dk: "dark S ?H p = dark S H p" for p by (simp add: dark_def un)
  have sv: "safe_value X ?H x = safe_value X H x" "safe_call X ?H y = safe_call X H y" for X x y by (simp_all add: safe_value_def safe_call_def rs' tg)
  show ?thesis
  proof (rule trace_invI)
    show "extends S ?H" by (rule extends_trans [OF I(2) e])
    show "black_ok S cb ?H" using I(3) by (simp add: black_ok_def dk un)
    show "words_ok S ?H" using I(4) old by (auto simp: words_ok_def dk un)
    show "roots_dark S roots ?H" using I(5) by (simp add: roots_dark_def un)
    show "scan_ok S cb ?H c" if "c \<in> set scans" for c by (rule scan_ok_mono [OF _ I(6) [OF that]]) (simp add: dk)
    show "store_ok S ?H st" if "st \<in> set stores" for st by (rule store_ok_mono [OF _ I(7) [OF that]]) (simp add: dk)
    show "closed_units (covered S cb roots ?H) cb ?H"
      unfolding closed_units_def cv sv
    proof (intro ballI)
      fix u x assume u: "u \<in> covered S cb roots H" and x: "x \<in> set (unit_calls (heap_mem ?H) cb u)"
      have ui': "unit_in H u" using covered_published [OF I(1,2) u] by (simp add: is_published_def)
      have wc: "word_count (heap_mem ?H) u = word_count (heap_mem H) u" using extendsD(3) [OF e ui'] .
      have "x \<in> set (unit_calls (heap_mem H) cb u) \<or> (\<exists>i < word_count (heap_mem H) u. a = word_addr u i \<and> x = Mark_fuzzy_unit v)"
        using x unfolding unit_calls_words [OF t ui'] unit_calls_words [OF t' ui [THEN iffD2, OF ui']] un wc by (auto split: if_splits)
      then show "safe_call (covered S cb roots H) H x"
        using I(10) u v by (auto simp: closed_units_def safe_call_def safe_value_def)
    qed
    show "new_young S round ?H" using I(11) by (simp add: new_young_def pb un)
  qed (use I in \<open>simp_all add: cv sv\<close>)
qed

end
