(* ===== verification/Woomem_Running.thy ===== *)
theory Woomem_Running
  imports Woomem_Snapshot
begin

text \<open>
  The invariant of a program that runs while the collector marks, and that every action keeps it and succeeds.
\<close>

section \<open>The invariant\<close>

fun scan_units :: "scan \<Rightarrow> addr list" where
  "scan_units (Scanning u xs is) = [u]"
| "scan_units _ = []"

definition gray_work :: "nat \<Rightarrow> gc_worker list \<Rightarrow> scan list \<Rightarrow> addr list" where
  "gray_work k ws scans = all_work k ws @ concat (map scan_units scans)"

text \<open>The gray units are exactly those that some worker has, will get or scans, each once.\<close>

definition gray_ok :: "nat \<Rightarrow> 'os heap \<Rightarrow> gc_worker list \<Rightarrow> scan list \<Rightarrow> bool" where
  "gray_ok k H ws scans \<longleftrightarrow> distinct (gray_work k ws scans) \<and>
     (\<forall>u. u \<in> set (gray_work k ws scans) \<longleftrightarrow> unit_in H u \<and> life_in H u = SELF_MARKED)"

definition base_inv :: "nat \<Rightarrow> 'os program \<Rightarrow> bool" where
  "base_inv k p \<longleftrightarrow> ordered any_life (pr_heap p) (held (pr_threads p)) \<and> threads_ok (pr_heap p) (pr_threads p) \<and>
     m_gc_worker_threads (pr_gc p) \<noteq> [] \<and> length (m_gc_worker_threads (pr_gc p)) < 2 ^ 64 \<and>
     (\<forall>w \<in> set (m_gc_worker_threads (pr_gc p)). quiet k (m_gray_queue w)) \<and>
     (\<forall>u \<in> set (m_root_gc_unit_set (pr_gc p)). is_published (pr_heap p) u) \<and>
     (\<forall>a \<in> set (pr_pending p). pending_unit (pr_heap p) a) \<and>
     m_globalcontext_alive (wm_global (pr_library p)) \<and> m_globalcontext_inited (wm_global (pr_library p)) \<and> wm_gc_ctx (pr_library p)"

lemma base_invD:
  assumes "base_inv k p"
  shows "ordered any_life (pr_heap p) (held (pr_threads p))" "threads_ok (pr_heap p) (pr_threads p)"
    "m_gc_worker_threads (pr_gc p) \<noteq> []" "length (m_gc_worker_threads (pr_gc p)) < 2 ^ 64"
    "w \<in> set (m_gc_worker_threads (pr_gc p)) \<Longrightarrow> quiet k (m_gray_queue w)"
    "u \<in> set (m_root_gc_unit_set (pr_gc p)) \<Longrightarrow> is_published (pr_heap p) u" "a \<in> set (pr_pending p) \<Longrightarrow> pending_unit (pr_heap p) a"
    "m_globalcontext_alive (wm_global (pr_library p))" "m_globalcontext_inited (wm_global (pr_library p))" "wm_gc_ctx (pr_library p)"
  using assms unfolding base_inv_def by blast+

lemma base_invI:
  assumes "ordered any_life (pr_heap p) (held (pr_threads p))" "threads_ok (pr_heap p) (pr_threads p)"
    "m_gc_worker_threads (pr_gc p) \<noteq> []" "length (m_gc_worker_threads (pr_gc p)) < 2 ^ 64"
    "\<And>w. w \<in> set (m_gc_worker_threads (pr_gc p)) \<Longrightarrow> quiet k (m_gray_queue w)"
    "\<And>u. u \<in> set (m_root_gc_unit_set (pr_gc p)) \<Longrightarrow> is_published (pr_heap p) u" "\<And>a. a \<in> set (pr_pending p) \<Longrightarrow> pending_unit (pr_heap p) a"
    "m_globalcontext_alive (wm_global (pr_library p))" "m_globalcontext_inited (wm_global (pr_library p))" "wm_gc_ctx (pr_library p)"
  shows "base_inv k p"
  using assms unfolding base_inv_def by blast

text \<open>Between two cycles there are no marks and no work; during a cycle the gray units are the work, and the trace is right.\<close>

definition between_inv :: "nat \<Rightarrow> 'os running \<Rightarrow> bool" where
  "between_inv k y \<longleftrightarrow> unmarked_heap (rn_heap y) \<and> (\<forall>w \<in> set (rn_workers y). worker_work k w = []) \<and> rn_stores y = []"

definition values_of :: "'os running \<Rightarrow> u64 set" where
  "values_of y = set (rn_held y) \<union> stored_value ` set (rn_stores y)"

definition trace_of :: "'os running \<Rightarrow> bool" where
  "trace_of y \<longleftrightarrow> trace_inv (rn_snapshot y) (rn_roots y) (mark_callback (rn_callback y)) (woomem_gc_marking_round_counter (rn_gc y))
     (rn_heap y) (rn_scans y) (rn_stores y) (values_of y) (set (m_root_gc_unit_set (rn_gc y)))"

text \<open>The trace stays right when only scans, stores, values or roots change, to right ones.\<close>

lemma trace_of_parts:
  assumes t: "trace_of y"
    and s: "rn_heap y' = rn_heap y" "woomem_gc_marking_round_counter (rn_gc y') = woomem_gc_marking_round_counter (rn_gc y)"
      "rn_snapshot y' = rn_snapshot y" "rn_roots y' = rn_roots y" "rn_callback y' = rn_callback y"
    and X: "X = covered (rn_snapshot y) (mark_callback (rn_callback y)) (rn_roots y) (rn_heap y)"
    and c: "\<And>c. c \<in> set (rn_scans y') \<Longrightarrow> c \<in> set (rn_scans y) \<or> scan_ok (rn_snapshot y) (mark_callback (rn_callback y)) (rn_heap y) c"
    and st: "\<And>st. st \<in> set (rn_stores y') \<Longrightarrow> st \<in> set (rn_stores y) \<or> store_ok (rn_snapshot y) (rn_heap y) st"
    and v: "\<And>v. v \<in> values_of y' \<Longrightarrow> v \<in> values_of y \<or> safe_value X (rn_heap y) v"
    and r: "set (m_root_gc_unit_set (rn_gc y')) \<subseteq> set (m_root_gc_unit_set (rn_gc y)) \<union> X"
  shows "trace_of y'"
  unfolding trace_of_def s by (rule trace_inv_parts [OF t [unfolded trace_of_def]]) (use c st v r X in auto)

definition marking_inv :: "nat \<Rightarrow> 'os running \<Rightarrow> bool" where
  "marking_inv k y \<longleftrightarrow> trace_of y \<and> gray_ok k (rn_heap y) (rn_workers y) (rn_scans y) \<and>
     length (rn_scans y) = length (rn_workers y) \<and>
     (\<forall>wk a x v. Loaded wk a x v \<in> set (rn_stores y) \<longrightarrow> wk < length (rn_workers y)) \<and>
     (\<forall>u xs is. Scanning u xs is \<in> set (rn_scans y) \<longrightarrow> precise_ok (rn_snapshot y) xs) \<and>
     (rn_phase y = Final_mark \<longrightarrow> rn_stores y = [] \<and>
       (\<forall>j < length (rn_workers y). rn_scans y ! j = Finished \<longrightarrow> worker_work k (rn_workers y ! j) = []))"

definition running_inv :: "nat \<Rightarrow> 'os running \<Rightarrow> bool" where
  "running_inv k y \<longleftrightarrow> base_inv k (rn_program y) \<and> (if rn_phase y = Between then between_inv k y else marking_inv k y)"

lemma marking_invD:
  assumes "marking_inv k y"
  shows "trace_of y" "gray_ok k (rn_heap y) (rn_workers y) (rn_scans y)" "length (rn_scans y) = length (rn_workers y)"
    "Loaded wk a x v \<in> set (rn_stores y) \<Longrightarrow> wk < length (rn_workers y)"
    "rn_phase y = Final_mark \<Longrightarrow> rn_stores y = []"
    "rn_phase y = Final_mark \<Longrightarrow> j < length (rn_workers y) \<Longrightarrow> rn_scans y ! j = Finished \<Longrightarrow> worker_work k (rn_workers y ! j) = []"
    "Scanning u xs is \<in> set (rn_scans y) \<Longrightarrow> precise_ok (rn_snapshot y) xs"
  using assms unfolding marking_inv_def by blast+

lemma marking_invI:
  assumes "trace_of y" "gray_ok k (rn_heap y) (rn_workers y) (rn_scans y)" "length (rn_scans y) = length (rn_workers y)"
    "\<And>wk a x v. Loaded wk a x v \<in> set (rn_stores y) \<Longrightarrow> wk < length (rn_workers y)"
    "rn_phase y = Final_mark \<Longrightarrow> rn_stores y = []"
    "\<And>j. rn_phase y = Final_mark \<Longrightarrow> j < length (rn_workers y) \<Longrightarrow> rn_scans y ! j = Finished \<Longrightarrow> worker_work k (rn_workers y ! j) = []"
    "\<And>u xs is. Scanning u xs is \<in> set (rn_scans y) \<Longrightarrow> precise_ok (rn_snapshot y) xs"
  shows "marking_inv k y"
  using assms unfolding marking_inv_def by blast

lemma rn_simps [simp]:
  "rn_program (on_program f y) = f (rn_program y)" "rn_held (on_program f y) = rn_held y" "rn_stores (on_program f y) = rn_stores y"
  "rn_phase (on_program f y) = rn_phase y" "rn_scans (on_program f y) = rn_scans y" "rn_callback (on_program f y) = rn_callback y"
  "rn_snapshot (on_program f y) = rn_snapshot y" "rn_roots (on_program f y) = rn_roots y"
  "rn_program (put_scan j c y) = rn_program y" "rn_held (put_scan j c y) = rn_held y" "rn_stores (put_scan j c y) = rn_stores y"
  "rn_phase (put_scan j c y) = rn_phase y" "rn_scans (put_scan j c y) = (rn_scans y)[j := c]" "rn_callback (put_scan j c y) = rn_callback y"
  "rn_snapshot (put_scan j c y) = rn_snapshot y" "rn_roots (put_scan j c y) = rn_roots y"
  by (simp_all add: on_program_def put_scan_def)

section \<open>Order and lives\<close>

lemma ordered_strengthen:
  assumes t: "ordered Q h C" and r: "\<And>u. unit_in h u \<Longrightarrow> R u (life_in h u)" "\<And>u. R u RELEASED"
  shows "ordered R h C"
proof -
  note T = orderedD [OF t]
  have "sweepable_in R h C p" if p: "(p, n) \<in> runs_of h" for p n
    using T(3) [OF p] unfolding sweepable_in_def [of Q]
  proof (elim disjE exE conjE)
    fix g assume g: "unit_page h p g" "run_out_of h p \<noteq> 0 \<longrightarrow> p \<notin> C"
    have "R (unit_addr p off) (unit_life_of (heap_mem h) p off)" if "off \<in> unit_offsets g" for off
      using r(1) [OF unit_in_cut [OF g(1) that]] r(2) by (cases "unit_life_of (heap_mem h) p off = RELEASED") (simp_all add: unit_life_of_def)
    with g show ?thesis unfolding sweepable_in_def by blast
  next
    fix n assume "huge_page (chunk_of (h_chunk h)) (heap_mem h) p n" "m_next_free_unit_offset (unit_at (heap_mem h) (p + sizeof_PageHead)) = 0"
    then show ?thesis using r(1) [OF unit_in_huge] unfolding sweepable_in_def by blast
  qed
  then show ?thesis using T unfolding ordered_def by blast
qed

section \<open>Allocating, publishing, threads and roots\<close>

text \<open>The heap grows by units without marks; marks and words stay.\<close>

definition grows :: "'os heap \<Rightarrow> 'os heap \<Rightarrow> bool" where
  "grows H H' \<longleftrightarrow> extends H H' \<and> word_at (heap_mem H') = word_at (heap_mem H) \<and> runs_of H \<subseteq> runs_of H' \<and>
     (\<forall>u. is_published H u \<longrightarrow> life_in H' u = life_in H u) \<and>
     (\<forall>u. unit_in H' u \<longrightarrow> unit_in H u \<and> life_in H' u = life_in H u \<or> life_in H' u \<in> {RELEASED, PENDING, UNMARKED})"

lemma growsD:
  assumes "grows H H'"
  shows "extends H H'" "word_at (heap_mem H') = word_at (heap_mem H)" "runs_of H \<subseteq> runs_of H'"
    "is_published H u \<Longrightarrow> life_in H' u = life_in H u"
    "unit_in H' u \<Longrightarrow> unit_in H u \<and> life_in H' u = life_in H u \<or> life_in H' u \<in> {RELEASED, PENDING, UNMARKED}"
  using assms unfolding grows_def by blast+

lemma grows_gray:
  assumes "grows H H'"
  shows "gray_ok k H' ws scans = gray_ok k H ws scans"
proof -
  have "unit_in H' u \<and> life_in H' u = SELF_MARKED \<longleftrightarrow> unit_in H u \<and> life_in H u = SELF_MARKED" for u
    using growsD(4,5) [OF assms, of u] extendsD(1) [OF growsD(1) [OF assms], of u] by (auto simp: is_published_def)
  then show ?thesis by (simp add: gray_ok_def)
qed

lemma grown_running:
  assumes inv: "running_inv k y" and b: "base_inv k p" and g: "grows (rn_heap y) (pr_heap p)"
    and gc: "m_gc_worker_threads (pr_gc p) = rn_workers y" "woomem_gc_marking_round_counter (pr_gc p) = woomem_gc_marking_round_counter (rn_gc y)"
    and c: "X = covered (rn_snapshot y) (mark_callback (rn_callback y)) (rn_roots y) (pr_heap p)"
    and new: "\<And>u. rn_phase y \<noteq> Between \<Longrightarrow> is_published (pr_heap p) u \<Longrightarrow> \<not> is_published (rn_heap y) u \<Longrightarrow>
      m_age (unit_at (heap_mem (pr_heap p)) u) = 15 \<and>
      m_timing (unit_at (heap_mem (pr_heap p)) u) = woomem_gc_marking_round_counter (rn_gc y) \<and>
      (\<forall>x \<in> set (unit_calls (heap_mem (pr_heap p)) (mark_callback (rn_callback y)) u). safe_call X (pr_heap p) x)"
    and vs: "\<And>v. rn_phase y \<noteq> Between \<Longrightarrow> v \<in> set vs \<Longrightarrow> v \<in> set (rn_held y) \<or> safe_value X (pr_heap p) v"
    and rs: "rn_phase y \<noteq> Between \<Longrightarrow> set (m_root_gc_unit_set (pr_gc p)) \<subseteq> set (m_root_gc_unit_set (rn_gc y)) \<union> X"
  shows "running_inv k ((on_program (\<lambda>_. p) y)\<lparr>rn_held := vs\<rparr>)"
proof -
  let ?y = "(on_program (\<lambda>_. p) y)\<lparr>rn_held := vs\<rparr>" and ?cb = "mark_callback (rn_callback y)"
  note G = growsD [OF g]
  have t: "ordered any_life (rn_heap y) (held (pr_threads (rn_program y)))" "ordered any_life (pr_heap p) (held (pr_threads p))"
    using base_invD(1) inv b by (auto simp: running_inv_def)
  show ?thesis
  proof (cases "rn_phase y = Between")
    case True
    then have "between_inv k y" using inv by (simp add: running_inv_def)
    then have "between_inv k ?y" using G(5) unfolding between_inv_def unmarked_heap_def by (auto simp: gc(1)) fastforce
    then show ?thesis using True b by (simp add: running_inv_def)
  next
    case False
    then have m: "marking_inv k y" using inv by (simp add: running_inv_def)
    note M = marking_invD [OF m]
    have T: "trace_inv (rn_snapshot y) (rn_roots y) ?cb (woomem_gc_marking_round_counter (rn_gc y)) (rn_heap y) (rn_scans y) (rn_stores y)
        (values_of y) (set (m_root_gc_unit_set (rn_gc y)))" using M(1) by (simp add: trace_of_def)
    have S: "is_published (rn_heap y) u" if "is_published (rn_snapshot y) u" for u using extendsD(4) [OF trace_invD(2) [OF T] that] .
    have "trace_inv (rn_snapshot y) (rn_roots y) ?cb (woomem_gc_marking_round_counter (rn_gc y)) (pr_heap p) (rn_scans y) (rn_stores y)
        (values_of y) (set (m_root_gc_unit_set (rn_gc y)))"
      by (rule trace_grown [OF T G(1) t G(2)]) (use G(4) S new [OF False] in \<open>auto simp: c\<close>)
    then have "trace_inv (rn_snapshot y) (rn_roots y) ?cb (woomem_gc_marking_round_counter (rn_gc y)) (pr_heap p) (rn_scans y) (rn_stores y)
        (values_of ?y) (set (m_root_gc_unit_set (pr_gc p)))"
      by (rule trace_inv_parts) (use vs [OF False] rs [OF False] in \<open>auto simp: values_of_def c\<close>)
    then have "trace_of ?y" by (simp add: trace_of_def gc(2))
    then have "marking_inv k ?y"
      by (rule marking_invI) (use M G(3) in \<open>auto simp: gc(1) grows_gray [OF g]\<close>)
    then show ?thesis using False b by (simp add: running_inv_def)
  qed
qed

text \<open>Beginning an allocation.\<close>

lemma begin_base:
  assumes b: "base_inv k p" and i: "i < length (pr_threads p)" and sz: "unat sz + 32799 < 2 ^ 64"
  shows "\<exists>a s. woomem_allocate_begin tgt sys sz (thread_state i p) = Some (a, s) \<and>
    base_inv k ((after_call i s p)\<lparr>pr_pending := (if a = 0 then [] else [a]) @ pr_pending p\<rparr>) \<and>
    grows (pr_heap p) (al_heap s) \<and> (\<forall>u. is_published (al_heap s) u \<longrightarrow> is_published (pr_heap p) u)"
proof -
  note B = base_invD [OF b]
  let ?h = "pr_heap p"
  define Q where "Q u l \<longleftrightarrow> l = RELEASED \<or> l = PENDING \<or> unit_in ?h u \<and> l = life_in ?h u" for u l
  have lx: "lax Q" by (simp add: lax_def Q_def)
  have t: "ordered Q ?h (held (pr_threads p))" by (rule ordered_strengthen [OF B(1)]) (simp_all add: Q_def)
  from allocate_begin_tidy [OF lx, of "thread_state i p" "pr_threads p" i sz tgt sys] t B(2) i sz
  obtain a s where r: "woomem_allocate_begin tgt sys sz (thread_state i p) = Some (a, s)"
    "begun Q ?h a ((pr_threads p)[i := (pr_threads p ! i)\<lparr>m_thread_page_collection := al_thread s\<rparr>]) (al_heap s)" by auto
  let ?h' = "al_heap s" and ?ts = "(pr_threads p)[i := (pr_threads p ! i)\<lparr>m_thread_page_collection := al_thread s\<rparr>]"
  have N: "ordered Q ?h' (held ?ts)" "threads_ok ?h' ?ts" "units_kept ?h ?h'" "keeps_runs ?h ?h'" "a \<noteq> 0 \<Longrightarrow> pending_unit ?h' a"
    using r(2) by (auto simp: begun_def)
  have same: "unit_in ?h' u" "unit_at (heap_mem ?h') u = unit_at (heap_mem ?h) u" if "unit_in ?h u" for u using N(3) that by (auto simp: units_kept_def)
  have old: "life_in ?h' u = RELEASED \<or> life_in ?h' u = PENDING \<or> unit_in ?h u" if "unit_in ?h' u" for u
    using unit_in_life [OF N(1) that] by (auto simp: Q_def)
  have e: "extends ?h ?h'" by (rule extends_begun [OF B(1) r(2)])
  have pb: "is_published ?h' u \<longleftrightarrow> is_published ?h u" for u using old [of u] same [of u] by (auto simp: is_published_def)
  have nw: "unit_in ?h u \<and> life_in ?h' u = life_in ?h u \<or> life_in ?h' u \<in> {RELEASED, PENDING, UNMARKED}" if "unit_in ?h' u" for u
    using old [OF that] same(2) [of u] by auto
  have "grows ?h ?h'"
    unfolding grows_def using e N(4) nw same(2) by (simp add: keeps_runs_def is_published_def)
  moreover have "base_inv k ((after_call i s p)\<lparr>pr_pending := (if a = 0 then [] else [a]) @ pr_pending p\<rparr>)"
    by (rule base_invI) (use B N(2,5) ordered_mono [OF N(1), of any_life] pb same in \<open>auto simp: pending_unit_def split: if_splits\<close>)
  ultimately show ?thesis using r(1) pb by blast
qed

text \<open>The bound of the requests, on words and on numbers.\<close>

lemma admissible_size: "sz < - 32799 \<longleftrightarrow> unat sz + 32799 < 2 ^ 64" for sz :: u64
  by (simp add: word_less_nat_alt)

lemma perform_begin:
  assumes inv: "running_inv k y" and en: "enabled k True y (Allocate_begin i sz)"
  shows "\<exists>y'. perform tgt sys k y (Allocate_begin i sz) = Some y' \<and> running_inv k y'"
proof -
  have b: "base_inv k (rn_program y)" using inv by (simp add: running_inv_def)
  from begin_base [OF b, of i sz tgt sys] en admissible_size [of sz] obtain a s where r: "woomem_allocate_begin tgt sys sz (thread_state i (rn_program y)) = Some (a, s)"
    "base_inv k ((after_call i s (rn_program y))\<lparr>pr_pending := (if a = 0 then [] else [a]) @ pr_pending (rn_program y)\<rparr>)"
    "grows (rn_heap y) (al_heap s)" "\<forall>u. is_published (al_heap s) u \<longrightarrow> is_published (rn_heap y) u" by auto
  let ?p = "(after_call i s (rn_program y))\<lparr>pr_pending := (if a = 0 then [] else [a]) @ pr_pending (rn_program y)\<rparr>"
  have "running_inv k ((on_program (\<lambda>_. ?p) y)\<lparr>rn_held := rn_held y\<rparr>)"
    by (rule grown_running [OF inv r(2) _ _ _ refl]) (use r(3,4) in auto)
  moreover have "(on_program (\<lambda>_. ?p) y)\<lparr>rn_held := rn_held y\<rparr> =
      on_program (\<lambda>x. (after_call i s x)\<lparr>pr_pending := (if a = 0 then [] else [a]) @ pr_pending x\<rparr>) y"
    by (simp add: on_program_def)
  ultimately show ?thesis using r(1) by simp
qed

text \<open>Publishing.\<close>

lemma publish_base:
  fixes attrib :: u32 and round :: u8
  assumes b: "base_inv k p" and a: "a \<in> set (pr_pending p)"
  defines "h' \<equiv> upd_mem (woomem_allocate_end round a attrib) (pr_heap p)"
  shows "grows (pr_heap p) h'" "ordered any_life h' (held (pr_threads p))" "threads_ok h' (pr_threads p)"
    "is_published (pr_heap p) u \<Longrightarrow> is_published h' u" "b' \<in> set (removeAll a (pr_pending p)) \<Longrightarrow> pending_unit h' b'"
    "is_published h' u \<Longrightarrow> \<not> is_published (pr_heap p) u \<Longrightarrow> u = a - sizeof_UnitHead"
    "is_published h' (a - sizeof_UnitHead)" "\<not> is_published (pr_heap p) (a - sizeof_UnitHead)"
proof -
  note B = base_invD [OF b]
  let ?u = "a - sizeof_UnitHead"
  note P = published_unit [OF B(1) B(7) [OF a] TrueI, where round = round and attrib = attrib, folded h'_def]
  note E = extends_publish(1-4) [OF B(1) B(7) [OF a] TrueI, where round = round and attrib = attrib, folded h'_def] extends_publish(5) [OF B(1) B(7) [OF a] TrueI]
  show "ordered any_life h' (held (pr_threads p))" by (rule P(1))
  show "threads_ok h' (pr_threads p)" by (rule threads_ok_transfer [OF B(2) P(2)])
  show "is_published (pr_heap p) u \<Longrightarrow> is_published h' u" by (rule extendsD(4) [OF E(1)])
  show "pending_unit h' b'" if "b' \<in> set (removeAll a (pr_pending p))"
  proof -
    have "b' - sizeof_UnitHead \<noteq> ?u" "pending_unit (pr_heap p) b'" using that B(7) [of b'] by auto
    then show ?thesis using P(3,4) by (simp add: pending_unit_def)
  qed
  show "is_published h' u \<Longrightarrow> \<not> is_published (pr_heap p) u \<Longrightarrow> u = ?u" by (rule E(3))
  show "is_published h' ?u" "\<not> is_published (pr_heap p) ?u" by (rule E(4), rule E(5))
  have l: "life_in h' u = life_in (pr_heap p) u" if "u \<noteq> ?u" for u using P(4) [OF that] by simp
  have "life_in h' u = life_in (pr_heap p) u" if "is_published (pr_heap p) u" for u using l [of u] that E(5) by metis
  moreover have "unit_in (pr_heap p) u \<and> life_in h' u = life_in (pr_heap p) u \<or> life_in h' u \<in> {RELEASED, PENDING, UNMARKED}"
    if "unit_in h' u" for u using that E(2) [of u] l [of u] P(5) by (cases "u = ?u") simp_all
  ultimately show "grows (pr_heap p) h'" using E(1) by (simp add: grows_def) (simp add: h'_def woomem_allocate_end_def upd_unit_def)
qed

lemma known_safe:
  assumes t: "trace_of y" and X: "X = covered (rn_snapshot y) (mark_callback (rn_callback y)) (rn_roots y) (rn_heap y)"
  shows "known y v \<Longrightarrow> safe_value X (rn_heap y) v" "known_call y x \<Longrightarrow> safe_call X (rn_heap y) x"
proof -
  have h: "v \<in> set (rn_held y) \<Longrightarrow> safe_value X (rn_heap y) v" for v
    using trace_invD(8) [OF t [unfolded trace_of_def], of v] by (simp add: X values_of_def)
  then show v: "known y v \<Longrightarrow> safe_value X (rn_heap y) v" for v by (auto simp: known_def safe_value_def)
  show "known_call y x \<Longrightarrow> safe_call X (rn_heap y) x"
  proof (cases x)
    case (Mark_unit_head p)
    then show "known_call y x \<Longrightarrow> safe_call X (rn_heap y) x" using h [of p] by (auto simp: safe_call_def safe_value_def)
  qed (use v in \<open>auto simp: safe_call_def safe_value_def\<close>)
qed

lemma publish_running:
  assumes inv: "running_inv k y" and a: "a \<in> set (pr_pending (rn_program y))" and ini: "initialised y a attrib"
    and p: "pr_heap p = upd_mem (woomem_allocate_end (woomem_gc_marking_round_counter (rn_gc y)) a attrib) (rn_heap y)"
      "pr_threads p = pr_threads (rn_program y)" "pr_pending p = removeAll a (pr_pending (rn_program y))"
      "m_gc_worker_threads (pr_gc p) = rn_workers y" "woomem_gc_marking_round_counter (pr_gc p) = woomem_gc_marking_round_counter (rn_gc y)"
      "set (m_root_gc_unit_set (pr_gc p)) \<subseteq> insert (a - sizeof_UnitHead) (set (m_root_gc_unit_set (rn_gc y)))"
      "m_globalcontext_alive (wm_global (pr_library p))" "m_globalcontext_inited (wm_global (pr_library p))" "wm_gc_ctx (pr_library p)"
  shows "running_inv k ((on_program (\<lambda>_. p) y)\<lparr>rn_held := a # rn_held y\<rparr>)"
proof -
  have b: "base_inv k (rn_program y)" using inv by (simp add: running_inv_def)
  note B = base_invD [OF b] and P = publish_base(1-7) [OF b a, where round = "woomem_gc_marking_round_counter (rn_gc y)" and attrib = attrib, folded p(1)] publish_base(8) [OF b a]
  let ?u = "a - sizeof_UnitHead"
  define X where "X = covered (rn_snapshot y) (mark_callback (rn_callback y)) (rn_roots y) (pr_heap p)"
  have b': "base_inv k p" by (rule base_invI) (use B P(2-5,7) p in \<open>auto simp del: set_removeAll\<close>)
  have t: "trace_of y" if "rn_phase y \<noteq> Between" using inv that by (simp add: running_inv_def marking_inv_def)
  have uX: "?u \<in> X" if "rn_phase y \<noteq> Between"
    using P(7,8) extendsD(4) [OF trace_invD(2) [OF t [OF that, unfolded trace_of_def]]] by (auto simp: X_def covered_def)
  show ?thesis
  proof (rule grown_running [OF inv b' P(1) p(4,5) X_def])
    fix v assume ph: "rn_phase y \<noteq> Between" and v: "v \<in> set (a # rn_held y)"
    have "resolve (pr_heap p) a = a" using resolve_payload [OF P(2) P(7)] by simp
    then have "safe_value X (pr_heap p) a" using uX [OF ph] by (simp add: safe_value_def)
    with v show "v \<in> set (rn_held y) \<or> safe_value X (pr_heap p) v" by auto
  next
    fix u assume ph: "rn_phase y \<noteq> Between" and u: "is_published (pr_heap p) u" "\<not> is_published (rn_heap y) u"
    have ua: "u = ?u" using P(6) [OF u] .
    have "safe_call X (pr_heap p) x" if "x \<in> set (unit_calls (heap_mem (pr_heap p)) (mark_callback (rn_callback y)) u)" for x
    proof -
      have "known_call y x" using ini ph that unfolding initialised_def ua p(1) by simp
      from safe_call_grown [OF trace_invD(2) [OF t [OF ph, unfolded trace_of_def]] growsD(1) [OF P(1)] B(1) P(2) known_safe(2) [OF t [OF ph] refl this]]
      show ?thesis by (simp add: X_def)
    qed
    then show "m_age (unit_at (heap_mem (pr_heap p)) u) = 15 \<and>
        m_timing (unit_at (heap_mem (pr_heap p)) u) = woomem_gc_marking_round_counter (rn_gc y) \<and>
        (\<forall>x \<in> set (unit_calls (heap_mem (pr_heap p)) (mark_callback (rn_callback y)) u). safe_call X (pr_heap p) x)"
      by (simp add: p(1) ua woomem_allocate_end_def upd_unit_def)
  qed (use p(6) uX in auto)
qed

lemma perform_end:
  assumes inv: "running_inv k y" and en: "enabled k True y (Allocate_end a attrib)"
  shows "\<exists>y'. perform tgt sys k y (Allocate_end a attrib) = Some y' \<and> running_inv k y'"
proof -
  let ?p = "(with_heap (upd_mem (woomem_allocate_end (woomem_gc_marking_round_counter (rn_gc y)) a attrib)) (rn_program y))
    \<lparr>pr_pending := removeAll a (pr_pending (rn_program y))\<rparr>"
  have "base_inv k (rn_program y)" using inv by (simp add: running_inv_def)
  note B = base_invD [OF this]
  have "running_inv k ((on_program (\<lambda>_. ?p) y)\<lparr>rn_held := a # rn_held y\<rparr>)"
    by (rule publish_running [OF inv]) (use en B in auto)
  then show ?thesis by (simp add: on_program_def)
qed

lemma perform_end_root:
  assumes inv: "running_inv k y" and en: "enabled k True y (Allocate_end_as_root a attrib)"
  shows "\<exists>y'. perform tgt sys k y (Allocate_end_as_root a attrib) = Some y' \<and> running_inv k y'"
proof -
  let ?g = "register_root_unit_head (a - sizeof_UnitHead) (rn_gc y)"
  let ?m = "woomem_allocate_end (woomem_gc_marking_round_counter (rn_gc y)) a attrib (heap_mem (rn_heap y))"
  let ?p = "(with_gc (\<lambda>_. ?g) (with_heap (upd_mem (\<lambda>_. ?m)) (rn_program y)))\<lparr>pr_pending := removeAll a (pr_pending (rn_program y))\<rparr>"
  have "base_inv k (rn_program y)" using inv by (simp add: running_inv_def)
  note B = base_invD [OF this]
  have "running_inv k ((on_program (\<lambda>_. ?p) y)\<lparr>rn_held := a # rn_held y\<rparr>)"
    by (rule publish_running [OF inv]) (use en B in \<open>auto simp: register_root_unit_head_def upd_mem_def heap_mem_def\<close>)
  then show ?thesis by (simp add: on_program_def woomem_allocate_end_as_root_def)
qed

text \<open>Threads, roots and what the program forgets: no unit changes.\<close>

lemma grows_chunk:
  assumes "h_chunk H' = h_chunk H"
  shows "grows H H'" "is_published H' u = is_published H u"
proof -
  have e: "heap_mem H' = heap_mem H" "unit_in H' = unit_in H" using assms by (simp_all add: heap_mem_def unit_in_def fun_eq_iff)
  then show "is_published H' u = is_published H u" by (simp add: is_published_def)
  show "grows H H'" using extends_refl [of H] by (simp add: grows_def extends_def e assms)
qed

lemma bookkeeping_running:
  assumes inv: "running_inv k y" and o: "ordered any_life (pr_heap p) (held (pr_threads p))" "threads_ok (pr_heap p) (pr_threads p)"
    and p: "h_chunk (pr_heap p) = h_chunk (rn_heap y)" "pr_pending p = pr_pending (rn_program y)" "m_gc_worker_threads (pr_gc p) = rn_workers y"
      "woomem_gc_marking_round_counter (pr_gc p) = woomem_gc_marking_round_counter (rn_gc y)"
      "set (m_root_gc_unit_set (pr_gc p)) \<subseteq> set (m_root_gc_unit_set (rn_gc y))"
      "m_globalcontext_alive (wm_global (pr_library p))" "m_globalcontext_inited (wm_global (pr_library p))" "wm_gc_ctx (pr_library p)"
    and vs: "set vs \<subseteq> set (rn_held y)"
  shows "running_inv k ((on_program (\<lambda>_. p) y)\<lparr>rn_held := vs\<rparr>)"
proof -
  have "base_inv k (rn_program y)" using inv by (simp add: running_inv_def)
  note B = base_invD [OF this] and G = grows_chunk [OF p(1)]
  have m: "heap_mem (pr_heap p) = heap_mem (rn_heap y)" "unit_in (pr_heap p) u = unit_in (rn_heap y) u" for u
    using p(1) by (simp_all add: heap_mem_def unit_in_def)
  have "base_inv k p" by (rule base_invI) (use B o p in \<open>auto simp: G(2) pending_unit_def m\<close>)
  then show ?thesis by (rule grown_running [OF inv _ G(1) _ _ refl]) (use p vs G(2) in auto)
qed

lemma perform_remove_root:
  assumes inv: "running_inv k y"
  shows "\<exists>y'. perform tgt sys k y (Remove_from_root_set p) = Some y' \<and> running_inv k y'"
proof -
  have "base_inv k (rn_program y)" using inv by (simp add: running_inv_def)
  note B = base_invD [OF this]
  have "running_inv k ((on_program (\<lambda>_. with_gc (woomem_remove_from_root_set p) (rn_program y)) y)\<lparr>rn_held := rn_held y\<rparr>)"
    by (rule bookkeeping_running [OF inv]) (use B in \<open>auto simp: woomem_remove_from_root_set_def unregister_root_unit_head_def\<close>)
  then show ?thesis by (simp add: on_program_def)
qed

lemma perform_forget:
  assumes inv: "running_inv k y"
  shows "\<exists>y'. perform tgt sys k y (Forget v) = Some y' \<and> running_inv k y'"
proof -
  have "base_inv k (rn_program y)" using inv by (simp add: running_inv_def)
  note B = base_invD [OF this]
  have "running_inv k ((on_program (\<lambda>_. rn_program y) y)\<lparr>rn_held := removeAll v (rn_held y)\<rparr>)"
    by (rule bookkeeping_running [OF inv]) (use B in auto)
  then show ?thesis by (simp add: on_program_def)
qed

lemma perform_thread_start:
  assumes inv: "running_inv k y"
  shows "\<exists>y'. perform tgt sys k y Thread_start = Some y' \<and> running_inv k y'"
proof -
  have "base_inv k (rn_program y)" using inv by (simp add: running_inv_def)
  note B = base_invD [OF this]
  let ?g = "rn_gc y" and ?x = "wm_global (pr_library (rn_program y))"
  obtain t r x where r: "ThreadContext (Some (m_gc_assigned_thread_idx ?g, w64 (length (rn_workers y)))) ?x = (t, r, x)" by (metis prod_cases3)
  have x: "x = ?x\<lparr>m_thread_entries := t # pr_threads (rn_program y)\<rparr>" "m_thread_page_collection t = ThreadPageCollection True"
    using r B(8,9) by (auto simp: ThreadContext_def Let_def split: prod.splits)
  note S = thread_start_ok [OF B(2) x(2)]
  have R: "running_inv k ((on_program (\<lambda>_. with_gc f (with_global (\<lambda>_. x) (rn_program y))) y)\<lparr>rn_held := rn_held y\<rparr>)"
    if "f = id \<or> (\<exists>i. f = (\<lambda>g. g\<lparr>m_gc_assigned_thread_idx := i\<rparr>))" for f
    by (rule bookkeeping_running [OF inv]) (use B S that in \<open>auto simp: x(1)\<close>)
  have "with_gc id (with_global (\<lambda>_. x) (rn_program y)) = with_global (\<lambda>_. x) (rn_program y)" by (simp add: with_gc_def)
  then show ?thesis using r R [of id] R [of "\<lambda>g. g\<lparr>m_gc_assigned_thread_idx := i\<rparr>" for i] by (cases r) (auto simp: on_program_def)
qed

lemma perform_thread_exit:
  assumes inv: "running_inv k y" and en: "enabled k c y (Thread_exit i)"
  shows "\<exists>y'. perform tgt sys k y (Thread_exit i) = Some y' \<and> running_inv k y'"
proof -
  have "base_inv k (rn_program y)" using inv by (simp add: running_inv_def)
  note B = base_invD [OF this]
  have i: "i < length (pr_threads (rn_program y))" using en by simp
  let ?ts = "take i (pr_threads (rn_program y)) @ drop (Suc i) (pr_threads (rn_program y))"
  obtain p h where h: "shutdown_manually (m_thread_page_collection (pr_threads (rn_program y) ! i)) (rn_heap y) = Some (p, h)"
      "ordered any_life h (held ?ts)" "threads_ok h ?ts" "h_chunk h = h_chunk (rn_heap y)"
    using thread_exit_tidy [OF B(1,2) i] by blast
  let ?x = "(wm_global (pr_library (rn_program y)))\<lparr>m_thread_entries := ?ts, gx_heap := h\<rparr>"
  have run: "ThreadContext_destroy i (wm_global (pr_library (rn_program y))) = Some ?x"
    using h(1) i B(8) by (simp add: ThreadContext_destroy_def rd_in)
  have "running_inv k ((on_program (\<lambda>_. with_global (\<lambda>_. ?x) (rn_program y)) y)\<lparr>rn_held := rn_held y\<rparr>)"
    by (rule bookkeeping_running [OF inv]) (use B h in auto)
  then show ?thesis using run by (simp add: on_program_def)
qed

section \<open>Reading\<close>

lemma held_running:
  assumes inv: "running_inv k y" and vs: "\<And>v. rn_phase y \<noteq> Between \<Longrightarrow> v \<in> set vs \<Longrightarrow>
    v \<in> set (rn_held y) \<or> safe_value (covered (rn_snapshot y) (mark_callback (rn_callback y)) (rn_roots y) (rn_heap y)) (rn_heap y) v"
  shows "running_inv k (y\<lparr>rn_held := vs\<rparr>)"
proof -
  have b: "base_inv k (rn_program y)" using inv by (simp add: running_inv_def)
  have "running_inv k ((on_program (\<lambda>_. rn_program y) y)\<lparr>rn_held := vs\<rparr>)"
    by (rule grown_running [OF inv b grows_chunk(1) [OF refl] _ _ refl]) (use vs in auto)
  then show ?thesis by (simp add: on_program_def)
qed

text \<open>What a unit the program can come by refers to, the program can come by.\<close>

lemma followed_safe:
  assumes t: "trace_of y" and v: "p \<in> set (rn_held y)" "resolve (rn_heap y) p \<noteq> 0"
    and x: "x \<in> set (unit_calls (heap_mem (rn_heap y)) (mark_callback (rn_callback y)) (resolve (rn_heap y) p - sizeof_UnitHead))"
  shows "safe_call (covered (rn_snapshot y) (mark_callback (rn_callback y)) (rn_roots y) (rn_heap y)) (rn_heap y) x"
proof -
  note T = trace_invD [OF t [unfolded trace_of_def]]
  have "p \<in> values_of y" using v(1) by (simp add: values_of_def)
  then show ?thesis using T(8) [of p] T(10) v(2) x by (simp add: safe_value_def closed_units_def)
qed

lemma accessed_unit:
  assumes "base_inv k (rn_program y)" "can_access y p i"
  shows "is_published (rn_heap y) (resolve (rn_heap y) p - sizeof_UnitHead)"
    "i < word_count (heap_mem (rn_heap y)) (resolve (rn_heap y) p - sizeof_UnitHead)" "p \<in> set (rn_held y)" "resolve (rn_heap y) p \<noteq> 0"
  using resolve_published [OF base_invD(1) [OF assms(1)]] assms(2) by (auto simp: can_access_def)

lemma perform_read:
  assumes inv: "running_inv k y" and en: "enabled k c y (Read p i)"
  shows "\<exists>y'. perform tgt sys k y (Read p i) = Some y' \<and> running_inv k y'"
proof -
  have b: "base_inv k (rn_program y)" using inv by (simp add: running_inv_def)
  let ?u = "resolve (rn_heap y) p - sizeof_UnitHead" and ?x = "word_at (heap_mem (rn_heap y)) (accessed y p i)"
  have "can_access y p i" using en by simp
  note A = accessed_unit [OF b this]
  have u: "unit_in (rn_heap y) ?u" using A(1) by (simp add: is_published_def)
  have "Mark_fuzzy_unit ?x \<in> set (unit_calls (heap_mem (rn_heap y)) (mark_callback (rn_callback y)) ?u)"
    unfolding unit_calls_words [OF base_invD(1) [OF b] u] using A(2) en by (auto simp: accessed_def)
  then have "safe_value (covered (rn_snapshot y) (mark_callback (rn_callback y)) (rn_roots y) (rn_heap y)) (rn_heap y) ?x" if "rn_phase y \<noteq> Between"
    using followed_safe [OF _ A(3,4), of "Mark_fuzzy_unit ?x"] inv that by (simp add: running_inv_def marking_inv_def safe_call_def safe_value_def)
  then have "running_inv k (y\<lparr>rn_held := ?x # rn_held y\<rparr>)" by (intro held_running [OF inv]) auto
  then show ?thesis by simp
qed

lemma perform_read_callback:
  assumes inv: "running_inv k y" and en: "enabled k c y (Read_callback p n)"
  shows "\<exists>y'. perform tgt sys k y (Read_callback p n) = Some y' \<and> running_inv k y'"
proof -
  have b: "base_inv k (rn_program y)" using inv by (simp add: running_inv_def)
  let ?H = "rn_heap y" and ?cb = "mark_callback (rn_callback y)"
  let ?u = "resolve ?H p - sizeof_UnitHead" and ?x = "?cb (resolve ?H p) ! n"
  have P: "is_published ?H ?u" "p \<in> set (rn_held y)" "resolve ?H p \<noteq> 0" using resolve_published [OF base_invD(1) [OF b]] en by auto
  then have "?x \<in> set (unit_calls (heap_mem ?H) ?cb ?u)"
    using en by (subst unit_calls_words [OF base_invD(1) [OF b]]) (auto simp: is_published_def)
  then have s: "safe_call (covered (rn_snapshot y) ?cb (rn_roots y) ?H) ?H ?x" if "rn_phase y \<noteq> Between"
    using followed_safe [OF _ P(2,3)] inv that by (auto simp: running_inv_def marking_inv_def)
  have "safe_value (covered (rn_snapshot y) ?cb (rn_roots y) ?H) ?H (target_of ?H ?x)" if ph: "rn_phase y \<noteq> Between"
  proof -
    have t: "trace_of y" using inv ph by (simp add: running_inv_def marking_inv_def)
    note T = trace_invD [OF t [unfolded trace_of_def]]
    have "resolve ?H (target_of ?H ?x) = target_of ?H ?x" if "target_of ?H ?x \<noteq> 0"
    proof -
      have "is_published ?H (target_of ?H ?x - sizeof_UnitHead)" using s [OF ph] that covered_published [OF T(1,2)] by (simp add: safe_call_def)
      from resolve_payload [OF base_invD(1) [OF b] this] show ?thesis by simp
    qed
    then show ?thesis using s [OF ph] by (cases "target_of ?H ?x = 0") (auto simp: safe_call_def safe_value_def)
  qed
  then have "running_inv k (y\<lparr>rn_held := target_of ?H ?x # rn_held y\<rparr>)" by (intro held_running [OF inv]) auto
  then show ?thesis by simp
qed

section \<open>Writing\<close>

lemma put_word_heap:
  "rn_heap (put_word a v y) = upd_mem (\<lambda>m. m\<lparr>word_at := (word_at (heap_mem (rn_heap y)))(a := v)\<rparr>) (rn_heap y)"
  "rn_gc (put_word a v y) = rn_gc y" "pr_threads (rn_program (put_word a v y)) = pr_threads (rn_program y)"
  "pr_pending (rn_program (put_word a v y)) = pr_pending (rn_program y)" "rn_held (put_word a v y) = rn_held y"
  "rn_stores (put_word a v y) = rn_stores y" "rn_phase (put_word a v y) = rn_phase y" "rn_scans (put_word a v y) = rn_scans y"
  "rn_callback (put_word a v y) = rn_callback y" "rn_snapshot (put_word a v y) = rn_snapshot y" "rn_roots (put_word a v y) = rn_roots y"
  by (simp_all add: put_word_def upd_mem_def heap_mem_def)

lemma put_word_base:
  assumes b: "base_inv k (rn_program y)"
  shows "base_inv k (rn_program (put_word a v y))" "is_published (rn_heap (put_word a v y)) u = is_published (rn_heap y) u"
    "unit_in (rn_heap (put_word a v y)) u = unit_in (rn_heap y) u" "unit_at (heap_mem (rn_heap (put_word a v y))) = unit_at (heap_mem (rn_heap y))"
    "runs_of (rn_heap (put_word a v y)) = runs_of (rn_heap y)"
proof -
  note B = base_invD [OF b] and W = written_units [where h = "rn_heap y" and w = "(word_at (heap_mem (rn_heap y)))(a := v)"]
  show ui: "unit_in (rn_heap (put_word a v y)) u = unit_in (rn_heap y) u" for u unfolding put_word_heap by (rule W(2))
  show ua: "unit_at (heap_mem (rn_heap (put_word a v y))) = unit_at (heap_mem (rn_heap y))" unfolding put_word_heap by (rule W(4))
  show "runs_of (rn_heap (put_word a v y)) = runs_of (rn_heap y)" by (simp add: put_word_heap)
  show pb: "is_published (rn_heap (put_word a v y)) u = is_published (rn_heap y) u" for u by (simp add: is_published_def ui ua)
  have o: "ordered any_life (rn_heap (put_word a v y)) (held (pr_threads (rn_program y)))" unfolding put_word_heap by (rule W(1) [OF B(1)])
  have t: "threads_ok (rn_heap (put_word a v y)) (pr_threads (rn_program y))" unfolding put_word_heap W(3) by (rule B(2))
  have l: "m_globalcontext_alive (wm_global (pr_library (rn_program (put_word a v y))))"
    "m_globalcontext_inited (wm_global (pr_library (rn_program (put_word a v y))))" "wm_gc_ctx (pr_library (rn_program (put_word a v y)))"
    using B(8-10) by (simp_all add: put_word_def)
  show "base_inv k (rn_program (put_word a v y))"
    by (rule base_invI) (use B o t l in \<open>auto simp: put_word_heap(2-4) pb pending_unit_def ui ua\<close>)
qed

lemma written_running:
  assumes inv: "running_inv k y"
    and old: "rn_phase y \<noteq> Between \<Longrightarrow> old_slot (rn_snapshot y) a \<Longrightarrow> dark (rn_snapshot y) (rn_heap y) (resolve (rn_snapshot y) (old_word (rn_snapshot y) a))"
    and v: "\<And>u i. rn_phase y \<noteq> Between \<Longrightarrow> X = covered (rn_snapshot y) (mark_callback (rn_callback y)) (rn_roots y) (rn_heap y) \<Longrightarrow>
      u \<in> X \<Longrightarrow> is_published (rn_heap y) u \<Longrightarrow> i < word_count (heap_mem (rn_heap y)) u \<Longrightarrow> a = word_addr u i \<Longrightarrow> safe_value X (rn_heap y) v"
    and X: "X = covered (rn_snapshot y) (mark_callback (rn_callback y)) (rn_roots y) (rn_heap y)"
    and st: "set sts \<subseteq> set (rn_stores y)"
  shows "running_inv k ((put_word a v y)\<lparr>rn_stores := sts\<rparr>)"
proof -
  let ?y = "(put_word a v y)\<lparr>rn_stores := sts\<rparr>"
  have b: "base_inv k (rn_program y)" using inv by (simp add: running_inv_def)
  note P = put_word_base [OF b, where a = a and v = v]
  show ?thesis
  proof (cases "rn_phase y = Between")
    case True
    then have "between_inv k ?y" using inv st by (simp add: running_inv_def between_inv_def unmarked_heap_def P put_word_heap(2,6))
    then show ?thesis using True P(1) by (simp add: running_inv_def put_word_heap(7))
  next
    case False
    then have "marking_inv k y" using inv by (simp add: running_inv_def)
    note M = marking_invD [OF this]
    have T: "trace_inv (rn_snapshot y) (rn_roots y) (mark_callback (rn_callback y)) (woomem_gc_marking_round_counter (rn_gc y)) (rn_heap y) (rn_scans y)
        (rn_stores y) (values_of y) (set (m_root_gc_unit_set (rn_gc y)))" using M(1) by (simp add: trace_of_def)
    have "trace_inv (rn_snapshot y) (rn_roots y) (mark_callback (rn_callback y)) (woomem_gc_marking_round_counter (rn_gc y)) (rn_heap (put_word a v y)) (rn_scans y)
        (rn_stores y) (values_of y) (set (m_root_gc_unit_set (rn_gc y)))"
      using trace_written [OF T base_invD(1) [OF b] old [OF False], where v = v] v [OF False X] covered_published [OF trace_invD(1) [OF T] trace_invD(2) [OF T]]
      by (simp add: X put_word_def)
    then have "trace_inv (rn_snapshot y) (rn_roots y) (mark_callback (rn_callback y)) (woomem_gc_marking_round_counter (rn_gc y)) (rn_heap (put_word a v y)) (rn_scans y)
        sts (values_of ?y) (set (m_root_gc_unit_set (rn_gc y)))"
      by (rule trace_inv_parts) (use st in \<open>auto simp: values_of_def put_word_heap\<close>)
    then have "trace_of ?y" by (simp add: trace_of_def put_word_heap(2,8-11))
    then have "marking_inv k ?y" by (rule marking_invI) (use M st P in \<open>auto simp: put_word_heap(2,7,8,10) gray_ok_def\<close>)
    then show ?thesis using False P(1) by (simp add: running_inv_def put_word_heap(7))
  qed
qed

lemma perform_fill:
  assumes inv: "running_inv k y" and en: "enabled k c y (Fill a i v)"
  shows "\<exists>y'. perform tgt sys k y (Fill a i v) = Some y' \<and> running_inv k y'"
proof -
  have "base_inv k (rn_program y)" using inv by (simp add: running_inv_def)
  note B = base_invD [OF this]
  let ?u = "a - sizeof_UnitHead"
  have u: "unit_in (rn_heap y) ?u" "\<not> is_published (rn_heap y) ?u" "i < word_count (heap_mem (rn_heap y)) ?u"
    using B(7) [of a] en by (auto simp: pending_unit_def is_published_def)
  have apart: False if "is_published (rn_heap y) w" "j < word_count (heap_mem (rn_heap y)) w" "word_addr ?u i = word_addr w j" for w j
    using words_apart [OF B(1) u(1) _ u(3) that(2,3)] that(1) u(2) by (auto simp: is_published_def)
  have "\<not> old_slot (rn_snapshot y) (word_addr ?u i)" if ph: "rn_phase y \<noteq> Between"
  proof
    have "trace_of y" using inv ph by (simp add: running_inv_def marking_inv_def)
    note e = trace_invD(2) [OF this [unfolded trace_of_def]]
    assume "old_slot (rn_snapshot y) (word_addr ?u i)"
    then obtain w j where "is_published (rn_snapshot y) w" "j < word_count (heap_mem (rn_snapshot y)) w" "word_addr ?u i = word_addr w j"
      by (auto simp: old_slot_def)
    then show False using apart [of w j] extendsD(3,4) [OF e, of w] by (simp add: is_published_def)
  qed
  then have "running_inv k ((put_word (word_addr ?u i) v y)\<lparr>rn_stores := rn_stores y\<rparr>)"
    by (intro written_running [OF inv _ _ refl]) (use apart in blast)+
  then show ?thesis by (simp add: put_word_def on_program_def)
qed

lemma perform_store:
  assumes inv: "running_inv k y" and en: "enabled k True y (Store p i v)"
  shows "\<exists>y'. perform tgt sys k y (Store p i v) = Some y' \<and> running_inv k y'"
proof -
  have "running_inv k ((put_word (accessed y p i) v y)\<lparr>rn_stores := rn_stores y\<rparr>)"
    by (rule written_running [OF inv _ _ refl]) (use en in auto)
  then show ?thesis by (simp add: put_word_def on_program_def)
qed

lemma perform_store_load:
  assumes inv: "running_inv k y" and en: "enabled k c y (Store_load wk p i v)"
  shows "\<exists>y'. perform tgt sys k y (Store_load wk p i v) = Some y' \<and> running_inv k y'"
proof -
  have ph: "rn_phase y = Parallel_mark" and kv: "known y v" and wk: "wk < length (rn_workers y)" using en by auto
  let ?s = "Loaded wk (accessed y p i) (word_at (heap_mem (rn_heap y)) (accessed y p i)) v"
  let ?y = "y\<lparr>rn_stores := ?s # rn_stores y\<rparr>"
  have "marking_inv k y" using inv ph by (simp add: running_inv_def)
  note M = marking_invD [OF this]
  note T = trace_invD [OF M(1) [unfolded trace_of_def]]
  have "store_ok (rn_snapshot y) (rn_heap y) ?s" using T(4) by (auto simp: words_ok_def)
  then have "trace_of ?y" using known_safe(1) [OF M(1) refl kv] by (intro trace_of_parts [OF M(1) _ _ _ _ _ refl]) (auto simp: values_of_def)
  then have "marking_inv k ?y" by (rule marking_invI) (use M wk ph in auto)
  then show ?thesis using inv ph by (simp add: running_inv_def)
qed

lemma perform_store_write:
  assumes inv: "running_inv k y" and en: "enabled k c y (Store_write j)"
  shows "\<exists>y'. perform tgt sys k y (Store_write j) = Some y' \<and> running_inv k y'"
proof -
  obtain a v where s: "rn_stores y ! j = Marked a v" "Marked a v \<in> set (rn_stores y)"
    using en nth_mem [of j "rn_stores y"] by (cases "rn_stores y ! j") auto
  have t: "trace_inv (rn_snapshot y) (rn_roots y) (mark_callback (rn_callback y)) (woomem_gc_marking_round_counter (rn_gc y)) (rn_heap y) (rn_scans y)
      (rn_stores y) (values_of y) (set (m_root_gc_unit_set (rn_gc y)))" if "rn_phase y \<noteq> Between"
    using inv that by (simp add: running_inv_def marking_inv_def trace_of_def)
  have "v \<in> values_of y" using s(2) by (force simp: values_of_def)
  then have "running_inv k ((put_word a v y)\<lparr>rn_stores := drop_nth j (rn_stores y)\<rparr>)"
    by (intro written_running [OF inv _ _ refl])
      (use trace_invD(7) [OF t s(2)] trace_invD(8) [OF t, of v] in \<open>auto simp: drop_nth_def dest: in_set_takeD in_set_dropD\<close>)
  then show ?thesis by (simp add: s(1))
qed

end
