(* ===== verification/Woomem_Running_Mark.thy ===== *)
theory Woomem_Running_Mark
  imports Woomem_Running
begin

text \<open>
  Marking steps of a running program: the barrier of a program thread and the steps of the workers keep the invariant of
  \<open>Woomem_Running\<close>. All of them change marks only forward, one unit at a time, together with the work that is left.
\<close>

section \<open>Marks that go forward\<close>

definition marks :: "'os heap \<Rightarrow> (addr \<Rightarrow> unit_life) \<Rightarrow> bool" where
  "marks H L \<longleftrightarrow> (\<forall>u. L u = life_in H u \<or> is_published H u \<and>
     (life_in H u = UNMARKED \<and> L u = SELF_MARKED \<or> life_in H u = SELF_MARKED \<and> L u = FULL_MARKED))"

abbreviation remarked :: "(addr \<Rightarrow> unit_life) \<Rightarrow> 'os heap \<Rightarrow> 'os heap" where
  "remarked L H \<equiv> upd_mem (\<lambda>_. with_lives L (heap_mem H)) H"

lemma marks_id [simp]: "marks H (lives (heap_mem H))" "upd_mem (\<lambda>_. heap_mem H) H = H"
  by (simp_all add: marks_def lives_def upd_mem_def heap_mem_def)

lemma marks_upd:
  assumes "is_published H u" "life_in H u = UNMARKED \<and> l = SELF_MARKED \<or> life_in H u = SELF_MARKED \<and> l = FULL_MARKED"
  shows "marks H ((lives (heap_mem H))(u := l))"
  using assms by (auto simp: marks_def lives_def)

lemma marks_heap:
  assumes m: "marks H L"
  shows "extends H (remarked L H)" "ordered any_life H C \<Longrightarrow> ordered any_life (remarked L H) C" "threads_ok H ts \<Longrightarrow> threads_ok (remarked L H) ts"
    "unit_in (remarked L H) u = unit_in H u" "is_published (remarked L H) u = is_published H u" "pending_unit (remarked L H) a = pending_unit H a"
    "life_in H u \<noteq> UNMARKED \<Longrightarrow> PENDING < life_in H u \<Longrightarrow> L u \<noteq> UNMARKED" "runs_of (remarked L H) = runs_of H"
proof -
  have M: "L u = life_in H u \<or> is_published H u \<and>
      (life_in H u = UNMARKED \<and> L u = SELF_MARKED \<or> life_in H u = SELF_MARKED \<and> L u = FULL_MARKED)" for u using m unfolding marks_def by blast
  have r: "L u = RELEASED \<longleftrightarrow> lives (heap_mem H) u = RELEASED" and p: "L u = PENDING \<longleftrightarrow> life_in H u = PENDING"
    and b: "PENDING < L u \<longleftrightarrow> PENDING < life_in H u" for u
    using M [of u] by (auto simp: lives_def)
  show "extends H (remarked L H)" by (rule extends_lives) (simp_all add: r b [unfolded lives_def] lives_def)
  show "ordered any_life (remarked L H) C" if "ordered any_life H C" by (rule ordered_lives(1) [OF that r]) simp
  show "threads_ok (remarked L H) ts" if "threads_ok H ts"
    by (rule threads_ok_transfer [OF that]) (use heap_lives(1) [OF r] in blast)
  show ui: "unit_in (remarked L H) u = unit_in H u" for u by (rule lives_unit_in [OF r])
  show "is_published (remarked L H) u = is_published H u" by (simp add: is_published_def ui b)
  show "pending_unit (remarked L H) a = pending_unit H a" by (simp add: pending_unit_def ui p)
  show "L u \<noteq> UNMARKED" if "life_in H u \<noteq> UNMARKED" "PENDING < life_in H u" using M [of u] that by auto
  show "runs_of (remarked L H) = runs_of H" by simp
qed

text \<open>The state with other marks, workers, scans and stores.\<close>

definition remark :: "(addr \<Rightarrow> unit_life) \<Rightarrow> gc_worker list \<Rightarrow> scan list \<Rightarrow> store list \<Rightarrow> 'os running \<Rightarrow> 'os running" where
  "remark L ws scans stores y = (on_program (\<lambda>x. with_gc (\<lambda>g. g\<lparr>m_gc_worker_threads := ws\<rparr>)
     (with_heap (upd_mem (\<lambda>_. with_lives L (heap_mem (rn_heap y)))) x)) y)\<lparr>rn_scans := scans, rn_stores := stores\<rparr>"

lemma remark_simps [simp]:
  "rn_heap (remark L ws scans stores y) = remarked L (rn_heap y)" "rn_workers (remark L ws scans stores y) = ws"
  "woomem_gc_marking_round_counter (rn_gc (remark L ws scans stores y)) = woomem_gc_marking_round_counter (rn_gc y)"
  "m_root_gc_unit_set (rn_gc (remark L ws scans stores y)) = m_root_gc_unit_set (rn_gc y)"
  "pr_threads (rn_program (remark L ws scans stores y)) = pr_threads (rn_program y)"
  "pr_pending (rn_program (remark L ws scans stores y)) = pr_pending (rn_program y)"
  "rn_held (remark L ws scans stores y) = rn_held y" "rn_phase (remark L ws scans stores y) = rn_phase y"
  "rn_scans (remark L ws scans stores y) = scans" "rn_stores (remark L ws scans stores y) = stores"
  "rn_callback (remark L ws scans stores y) = rn_callback y" "rn_snapshot (remark L ws scans stores y) = rn_snapshot y"
  "rn_roots (remark L ws scans stores y) = rn_roots y"
  by (simp_all add: remark_def)

lemma put_worker_remark:
  "put_scan j c (put_worker j (with_lives L (heap_mem (rn_heap y)), w) y) =
     remark L ((rn_workers y)[j := w]) ((rn_scans y)[j := c]) (rn_stores y) y"
  "(put_worker j (with_lives L (heap_mem (rn_heap y)), w) y)\<lparr>rn_stores := sts\<rparr> = remark L ((rn_workers y)[j := w]) (rn_scans y) sts y"
  by (simp_all add: remark_def put_scan_def put_worker_def on_program_def with_gc_def)

lemma remark_running:
  assumes inv: "running_inv k y" and ph: "rn_phase y \<noteq> Between" and m: "marks (rn_heap y) L"
    and H: "H = remarked L (rn_heap y)" and S: "S = rn_snapshot y" and cb: "cb = mark_callback (rn_callback y)"
    and ws: "length ws = length (rn_workers y)" "\<And>w. w \<in> set ws \<Longrightarrow> quiet k (m_gray_queue w)"
    and g: "gray_ok k H ws scans" and len: "length scans = length (rn_scans y)"
    and bl: "\<And>u. is_published S u \<Longrightarrow> L u = FULL_MARKED \<Longrightarrow> life_in (rn_heap y) u = FULL_MARKED \<or>
      (\<forall>x \<in> set (unit_calls (heap_mem S) cb u). dark S H (target_of S x))"
    and sc: "\<And>c. c \<in> set scans \<Longrightarrow> c \<in> set (rn_scans y) \<or> scan_ok S cb H c \<and> (\<forall>u xs is. c = Scanning u xs is \<longrightarrow> precise_ok S xs)"
    and st: "\<And>s. s \<in> set stores \<Longrightarrow> s \<in> set (rn_stores y) \<or> store_ok S H s \<and> stored_value s \<in> values_of y \<and> (\<forall>wk a x v. s \<noteq> Loaded wk a x v)"
    and fin: "\<And>j. rn_phase y = Final_mark \<Longrightarrow> j < length ws \<Longrightarrow> scans ! j = Finished \<Longrightarrow> worker_work k (ws ! j) = []"
    and fs: "rn_phase y = Final_mark \<Longrightarrow> stores = []"
  shows "running_inv k (remark L ws scans stores y)"
proof -
  have b: "base_inv k (rn_program y)" and mi: "marking_inv k y" using inv ph by (simp_all add: running_inv_def)
  note B = base_invD [OF b] and M = marking_invD [OF mi] and K = marks_heap [OF m]
  have ne: "ws \<noteq> []" using B(3) ws(1) by auto
  have lb: "m_globalcontext_alive (wm_global (pr_library (rn_program (remark L ws scans stores y))))"
    "m_globalcontext_inited (wm_global (pr_library (rn_program (remark L ws scans stores y))))"
    "wm_gc_ctx (pr_library (rn_program (remark L ws scans stores y)))" using B(8-10) by (simp_all add: remark_def)
  have b': "base_inv k (rn_program (remark L ws scans stores y))"
    by (rule base_invI) (use B ws ne lb K in simp_all)
  have T: "trace_inv S (rn_roots y) cb (woomem_gc_marking_round_counter (rn_gc y)) (rn_heap y) (rn_scans y) (rn_stores y) (values_of y)
      (set (m_root_gc_unit_set (rn_gc y)))" using M(1) by (simp add: trace_of_def S cb)
  have P: "is_published (rn_heap y) u" if "is_published S u" for u by (rule extendsD(4) [OF trace_invD(2) [OF T] that])
  have T1: "trace_inv S (rn_roots y) cb (woomem_gc_marking_round_counter (rn_gc y)) H (rn_scans y) (rn_stores y) (values_of y)
      (set (m_root_gc_unit_set (rn_gc y)))"
    unfolding H
    by (rule trace_grown [OF T K(1) B(1) K(2) [OF B(1)]]) (use K(5,7) P bl in \<open>auto simp: H is_published_def\<close>)
  have vs: "values_of (remark L ws scans stores y) \<subseteq> values_of y"
  proof -
    have "stored_value s \<in> values_of y" if "s \<in> set stores" for s using st [OF that] by (auto simp: values_of_def)
    then show ?thesis by (auto simp: values_of_def)
  qed
  have "trace_inv S (rn_roots y) cb (woomem_gc_marking_round_counter (rn_gc y)) H scans stores (values_of (remark L ws scans stores y))
      (set (m_root_gc_unit_set (rn_gc y)))"
    by (rule trace_inv_parts [OF T1]) (use sc st vs in blast)+
  then have "trace_of (remark L ws scans stores y)" by (simp add: trace_of_def H S cb)
  then have "marking_inv k (remark L ws scans stores y)"
  proof (rule marking_invI)
    fix u xs "is" assume "Scanning u xs is \<in> set (rn_scans (remark L ws scans stores y))"
    then show "precise_ok (rn_snapshot (remark L ws scans stores y)) xs" using sc M(7) by (auto simp: S)
  next
    fix wk a x v assume "Loaded wk a x v \<in> set (rn_stores (remark L ws scans stores y))"
    then show "wk < length (rn_workers (remark L ws scans stores y))" using st [of "Loaded wk a x v"] M(4) ws(1) by auto
  qed (use M(3) K(8) g len ws(1) fin fs in \<open>auto simp: H\<close>)
  then show ?thesis using b' ph by (simp add: running_inv_def)
qed

section \<open>The work that is left\<close>

lemma mset_concat_update:
  "j < length xs \<Longrightarrow> mset (concat (map f (xs[j := x]))) + mset (f (xs ! j)) = mset (concat (map f xs)) + mset (f x)"
proof (induction xs arbitrary: j)
  case (Cons a xs)
  then show ?case by (cases j) (auto simp: ac_simps)
qed simp

lemma gray_work_update:
  assumes "i < length ws" "j < length scans"
  shows "mset (gray_work k (ws[i := w]) (scans[j := c])) + (mset (worker_work k (ws ! i)) + mset (scan_units (scans ! j))) =
    mset (gray_work k ws scans) + (mset (worker_work k w) + mset (scan_units c))"
    (is "?l = ?r")
proof (rule multiset_eqI)
  fix u
  show "count ?l u = count ?r u"
    using arg_cong [OF mset_concat_update [OF assms(1), of "worker_work k" w], of "\<lambda>M. count M u"]
      arg_cong [OF mset_concat_update [OF assms(2), of scan_units c], of "\<lambda>M. count M u"]
    by (simp add: gray_work_def all_work_def)
qed

lemma gray_ok_alt:
  "gray_ok k H ws scans \<longleftrightarrow> (\<forall>u. count (mset (gray_work k ws scans)) u = (if unit_in H u \<and> life_in H u = SELF_MARKED then 1 else 0))"
  (is "?l \<longleftrightarrow> (\<forall>u. ?c u)")
proof
  assume g: ?l
  then have "count (mset (gray_work k ws scans)) u = (if u \<in> set (gray_work k ws scans) then 1 else 0)" for u
    by (simp add: gray_ok_def distinct_count_atmost_1)
  with g show "\<forall>u. ?c u" by (simp add: gray_ok_def)
next
  assume c: "\<forall>u. ?c u"
  have s: "u \<in> set (gray_work k ws scans) \<longleftrightarrow> unit_in H u \<and> life_in H u = SELF_MARKED" for u
    using c [rule_format, of u] count_greater_zero_iff [of "mset (gray_work k ws scans)" u] by (auto split: if_splits)
  moreover have "distinct (gray_work k ws scans)"
    unfolding distinct_count_atmost_1 using c s by simp
  ultimately show ?l by (simp add: gray_ok_def)
qed

text \<open>The work changes as the marks do: \<open>new\<close> units become gray, \<open>old\<close> ones black.\<close>

lemma gray_ok_change:
  assumes g: "gray_ok k H ws scans" and m: "marks H L"
    and w: "mset (gray_work k ws' scans') + mset old = mset (gray_work k ws scans) + mset new"
    and n: "\<And>u. count (mset new) u = (if life_in H u = UNMARKED \<and> L u = SELF_MARKED then 1 else 0)"
    and o: "\<And>u. count (mset old) u = (if life_in H u = SELF_MARKED \<and> L u = FULL_MARKED then 1 else 0)"
  shows "gray_ok k (remarked L H) ws' scans'"
  unfolding gray_ok_alt
proof
  fix u
  have "count (mset (gray_work k ws' scans')) u + count (mset old) u = count (mset (gray_work k ws scans)) u + count (mset new) u"
    using arg_cong [OF w, of "\<lambda>M. count M u"] by simp
  then show "count (mset (gray_work k ws' scans')) u = (if unit_in (remarked L H) u \<and> life_in (remarked L H) u = SELF_MARKED then 1 else 0)"
    using g [unfolded gray_ok_alt, rule_format, of u] n [of u] o [of u] m [unfolded marks_def, rule_format, of u]
    by (auto simp: marks_heap(4) [OF m] is_published_def split: if_splits)
qed

lemma gray_ok_same:
  assumes "gray_ok k H ws scans" "mset (gray_work k ws' scans') = mset (gray_work k ws scans)"
  shows "gray_ok k H ws' scans'"
  using assms by (simp add: gray_ok_alt)

section \<open>Steps of the workers\<close>

lemma scan_in:
  assumes "marking_inv k y" "j < length (rn_scans y)"
  shows "rn_scans y ! j \<in> set (rn_scans y)" "j < length (rn_workers y)" "rn_workers y ! j \<in> set (rn_workers y)"
  using assms marking_invD(3) [OF assms(1)] by auto

lemma in_upd_list: "x \<in> set (xs[j := c]) \<Longrightarrow> x \<in> set xs \<or> x = c"
  using set_update_subset_insert [of xs j c] by blast

text \<open>A step of worker \<open>j\<close>: its own state and scan change, and the marks.\<close>

lemma worker_running:
  assumes inv: "running_inv k y" and ph: "rn_phase y \<noteq> Between" and j: "j < length (rn_scans y)" "rn_scans y ! j \<noteq> Finished"
    and m: "marks (rn_heap y) L" and q: "quiet k (m_gray_queue w)"
    and S: "S = rn_snapshot y" "cb = mark_callback (rn_callback y)" "H = remarked L (rn_heap y)"
    and work: "mset (worker_work k w) + mset (scan_units c) + mset old = mset (worker_work k (rn_workers y ! j)) + mset (scan_units (rn_scans y ! j)) + mset new"
    and n: "\<And>u. count (mset new) u = (if life_in (rn_heap y) u = UNMARKED \<and> L u = SELF_MARKED then 1 else 0)"
    and o: "\<And>u. count (mset old) u = (if life_in (rn_heap y) u = SELF_MARKED \<and> L u = FULL_MARKED then 1 else 0)"
    and bl: "\<And>u. is_published S u \<Longrightarrow> L u = FULL_MARKED \<Longrightarrow> life_in (rn_heap y) u = FULL_MARKED \<or>
      (\<forall>x \<in> set (unit_calls (heap_mem S) cb u). dark S H (target_of S x))"
    and sc: "scan_ok S cb H c" "\<And>u xs is. c = Scanning u xs is \<Longrightarrow> precise_ok S xs"
    and fin: "c = Finished \<Longrightarrow> worker_work k w = []"
  shows "running_inv k (remark L ((rn_workers y)[j := w]) ((rn_scans y)[j := c]) (rn_stores y) y)"
proof -
  have mi: "marking_inv k y" and b: "base_inv k (rn_program y)" using inv ph by (simp_all add: running_inv_def)
  note M = marking_invD [OF mi] and B = base_invD [OF b] and J = scan_in [OF mi j(1)]
  let ?ws = "(rn_workers y)[j := w]" and ?sc = "(rn_scans y)[j := c]"
  have "mset (gray_work k ?ws ?sc) + mset old = mset (gray_work k (rn_workers y) (rn_scans y)) + mset new"
  proof (rule multiset_eqI)
    fix u
    show "count (mset (gray_work k ?ws ?sc) + mset old) u = count (mset (gray_work k (rn_workers y) (rn_scans y)) + mset new) u"
      using arg_cong [OF gray_work_update [OF J(2) j(1), of k w c], of "\<lambda>M. count M u"] arg_cong [OF work, of "\<lambda>M. count M u"] by simp
  qed
  then have g: "gray_ok k H ?ws ?sc" unfolding S(3) by (rule gray_ok_change [OF M(2) m _ n o])
  show ?thesis
  proof (rule remark_running [OF inv ph m S(3,1,2) _ _ g])
    show "quiet k (m_gray_queue v)" if "v \<in> set ?ws" for v using in_upd_list [OF that] B(5) q by auto
    show "d \<in> set (rn_scans y) \<or> scan_ok S cb H d \<and> (\<forall>u xs is. d = Scanning u xs is \<longrightarrow> precise_ok S xs)" if "d \<in> set ?sc" for d
      using in_upd_list [OF that] sc by auto
    show "worker_work k (?ws ! i) = []" if "rn_phase y = Final_mark" "i < length ?ws" "?sc ! i = Finished" for i
      using M(3,6) that fin j(1) by (cases "i = j") auto
  qed (use bl M(5) in simp_all)
qed

text \<open>A step that marks nothing.\<close>

lemma still_running:
  assumes inv: "running_inv k y" and ph: "rn_phase y \<noteq> Between" and j: "j < length (rn_scans y)" "rn_scans y ! j \<noteq> Finished"
    and q: "quiet k (m_gray_queue w)" and S: "S = rn_snapshot y" "cb = mark_callback (rn_callback y)"
    and work: "mset (worker_work k w) + mset (scan_units c) = mset (worker_work k (rn_workers y ! j)) + mset (scan_units (rn_scans y ! j))"
    and sc: "scan_ok S cb (rn_heap y) c" "\<And>u xs is. c = Scanning u xs is \<Longrightarrow> precise_ok S xs"
    and fin: "c = Finished \<Longrightarrow> worker_work k w = []"
  shows "running_inv k (put_scan j c (put_worker j (heap_mem (rn_heap y), w) y))"
proof -
  have "running_inv k (remark (lives (heap_mem (rn_heap y))) ((rn_workers y)[j := w]) ((rn_scans y)[j := c]) (rn_stores y) y)"
    by (rule worker_running [OF inv ph j marks_id(1) q S refl, where old = "[]" and new = "[]"])
      (use work sc fin in \<open>auto simp: lives_def [symmetric]\<close>)
  then show ?thesis using put_worker_remark(1) [of j c "lives (heap_mem (rn_heap y))" y w] by simp
qed

lemma perform_worker_enter:
  assumes inv: "running_inv k y" and en: "enabled k c y (Worker_enter j)"
  shows "\<exists>y'. perform tgt sys k y (Worker_enter j) = Some y' \<and> running_inv k y'"
proof -
  have ph: "rn_phase y \<noteq> Between" and j: "j < length (rn_scans y)" "rn_scans y ! j = Waiting" using en by auto
  have mi: "marking_inv k y" and b: "base_inv k (rn_program y)" using inv ph by (simp_all add: running_inv_def)
  have "running_inv k (put_scan j Looping (put_worker j (heap_mem (rn_heap y), (rn_workers y ! j)\<lparr>m_is_draining := True\<rparr>) y))"
    by (rule still_running [OF inv ph j(1) _ _ refl refl]) (use j(2) base_invD(5) [OF b scan_in(3) [OF mi j(1)]] in \<open>auto simp: worker_work_def\<close>)
  then show ?thesis by simp
qed

lemma perform_worker_load:
  assumes inv: "running_inv k y" and en: "enabled k c y (Worker_load j)"
  shows "\<exists>y'. perform tgt sys k y (Worker_load j) = Some y' \<and> running_inv k y'"
proof -
  obtain u i "is" where ph: "rn_phase y \<noteq> Between" and j: "j < length (rn_scans y)" "rn_scans y ! j = Scanning u [] (i # is)"
    using en by (auto split: scan.splits list.splits)
  have mi: "marking_inv k y" and b: "base_inv k (rn_program y)" using inv ph by (simp_all add: running_inv_def)
  note J = scan_in [OF mi j(1)] and T = trace_invD [OF marking_invD(1) [OF mi, unfolded trace_of_def]]
  let ?S = "rn_snapshot y" and ?x = "word_at (heap_mem (rn_heap y)) (word_addr u i)"
  let ?c = "Scanning u [Mark_fuzzy_unit ?x] is"
  have old: "?x = old_word ?S (word_addr u i) \<or> dark ?S (rn_heap y) (resolve ?S (old_word ?S (word_addr u i)))"
    if "is_published ?S u" "i < word_count (heap_mem ?S) u" using T(4) that unfolding words_ok_def old_slot_def by blast
  have "scan_ok ?S (mark_callback (rn_callback y)) (rn_heap y) (Scanning u [] (i # is))" using T(6) [OF J(1)] by (simp add: j(2))
  then have s: "scan_ok ?S (mark_callback (rn_callback y)) (rn_heap y) ?c" using old by fastforce
  have "running_inv k (put_scan j ?c (put_worker j (heap_mem (rn_heap y), rn_workers y ! j) y))"
    by (rule still_running [OF inv ph j(1) _ _ refl refl]) (use j(2) base_invD(5) [OF b J(3)] s in \<open>auto simp: precise_ok_def\<close>)
  moreover have "put_worker j (heap_mem (rn_heap y), rn_workers y ! j) y = y"
    by (simp add: put_worker_def on_program_def with_gc_def with_heap_def with_global_def upd_mem_def heap_mem_def)
  ultimately show ?thesis by (simp add: j(2))
qed

text \<open>Taking the next unit: it is gray, so the assertion holds, and its size is known.\<close>

lemma perform_worker_next:
  assumes inv: "running_inv k y" and en: "enabled k c y (Worker_next j)"
  shows "\<exists>y'. perform tgt sys k y (Worker_next j) = Some y' \<and> running_inv k y'"
proof -
  have ph: "rn_phase y \<noteq> Between" and j: "j < length (rn_scans y)" "rn_scans y ! j = Looping" using en by auto
  have mi: "marking_inv k y" and b: "base_inv k (rn_program y)" using inv ph by (simp_all add: running_inv_def)
  note J = scan_in [OF mi j(1)] and T = trace_invD [OF marking_invD(1) [OF mi, unfolded trace_of_def]]
  let ?w = "rn_workers y ! j" and ?H = "rn_heap y" and ?S = "rn_snapshot y" and ?cb = "mark_callback (rn_callback y)"
  obtain w1 where w1: "(if m_local_work ?w = [] then drain_queue_into_local k ?w else Some ?w) = Some w1"
      "mset (worker_work k w1) = mset (worker_work k ?w)" "quiet k (m_gray_queue w1)" "m_local_work w1 = [] \<longrightarrow> worker_work k w1 = []"
    using drain_first [OF base_invD(5) [OF b J(3)]] by blast
  show ?thesis
  proof (cases "m_local_work w1")
    case Nil
    let ?w' = "w1\<lparr>m_is_draining := False\<rparr>"
    have "next_unit k ?cb (heap_mem ?H) ?w = Some (Finished, ?w')" unfolding next_unit_def w1(1) by (simp add: Nil)
    moreover have "worker_work k ?w' = []" "worker_work k ?w = []" using w1(2,4) Nil by (simp_all add: worker_work_def)
    then have "running_inv k (put_scan j Finished (put_worker j (heap_mem ?H, ?w') y))"
      by (intro still_running [OF inv ph j(1) _ _ refl refl]) (use j(2) w1(3) in auto)
    ultimately show ?thesis by simp
  next
    case (Cons u rest)
    let ?w' = "w1\<lparr>m_local_work := rest\<rparr>" and ?cs = "if has_attrib (unit_at (heap_mem ?H) u) WOOMEM_ATTRIB_MARK_CALLBACK then ?cb (u + sizeof_UnitHead) else []"
    let ?is = "if has_attrib (unit_at (heap_mem ?H) u) WOOMEM_ATTRIB_AUTO_MARK then [0..<word_count (heap_mem ?H) u] else []"
    have "u \<in># mset (worker_work k ?w)" unfolding w1(2) [symmetric] by (simp add: worker_work_def Cons)
    then have "u \<in> set (all_work k (rn_workers y))" using J(3) by (auto simp: all_work_def)
    then have u: "unit_in ?H u" "life_in ?H u = SELF_MARKED" using marking_invD(2) [OF mi] by (auto simp: gray_ok_def gray_work_def)
    have "next_unit k ?cb (heap_mem ?H) ?w = Some (Scanning u ?cs ?is, ?w')"
      unfolding next_unit_def w1(1) using unit_in_size(1) [OF base_invD(1) [OF b] u(1)] u(2) by (auto simp: Cons word_count_def)
    moreover have "scan_ok ?S ?cb ?H (Scanning u ?cs ?is)"
    proof (simp only: scan_ok.simps, intro impI ballI)
      fix x assume p: "is_published ?S u" and x: "x \<in> set (unit_calls (heap_mem ?S) ?cb u)"
      obtain C where C: "ordered any_life ?S C" using T(1) by (auto simp: snapshot_ok_def)
      have us: "unit_in ?S u" using p by (simp add: is_published_def)
      from x show "dark ?S ?H (target_of ?S x) \<or> x \<in> set ?cs \<or>
          (\<exists>i \<in> set ?is. x = Mark_fuzzy_unit (old_word ?S (word_addr u i)) \<and> i < word_count (heap_mem ?S) u)"
        unfolding unit_calls_words [OF C us] extends_attrib [OF T(2) p] extendsD(3) [OF T(2) us] by (auto split: if_splits)
    qed
    moreover have "precise_ok ?S ?cs" using T(1) by (auto simp: snapshot_ok_def precise_ok_def)
    moreover have "mset (worker_work k ?w') + {#u#} = mset (worker_work k ?w)"
      unfolding w1(2) [symmetric] by (simp add: worker_work_def Cons)
    ultimately have "running_inv k (put_scan j (Scanning u ?cs ?is) (put_worker j (heap_mem ?H, ?w') y))"
      by (intro still_running [OF inv ph j(1) _ _ refl refl]) (use j(2) w1(3) in simp_all)
    with \<open>next_unit k ?cb (heap_mem ?H) ?w = Some (Scanning u ?cs ?is, ?w')\<close> show ?thesis by simp
  qed
qed

text \<open>Making a call: its target, if it is unmarked, becomes gray and is left for the worker.\<close>

lemma call_published:
  assumes e: "extends S H" and t: "ordered Q S C" "ordered Q' H C'" and p: "precise_ok S xs" "x \<in> set xs" and nz: "target_of H x \<noteq> 0"
  shows "is_published H (target_of H x - sizeof_UnitHead)"
proof (cases x)
  case (Mark_unit_head q)
  then have "resolve S q = q" "q \<noteq> 0" using p nz by (auto simp: precise_ok_def)
  then show ?thesis using extendsD(4) [OF e] resolve_published [OF t(1), of q] Mark_unit_head by simp
qed (use nz resolve_published [OF t(2)] in \<open>auto split: if_splits\<close>)

lemma mark_own_call:
  assumes t: "ordered Q H C" and p: "target_of H x \<noteq> 0 \<Longrightarrow> is_published H (target_of H x - sizeof_UnitHead)"
  shows "\<exists>L new. mark_call_run k True (chunk_of (h_chunk H)) x (heap_mem H, w) = Some (with_lives L (heap_mem H), w\<lparr>m_local_work := new @ m_local_work w\<rparr>) \<and>
    marks H L \<and> (\<forall>u. count (mset new) u = (if life_in H u = UNMARKED \<and> L u = SELF_MARKED then 1 else 0)) \<and>
    (\<forall>u. L u = FULL_MARKED \<longrightarrow> life_in H u = FULL_MARKED) \<and> (target_of H x \<noteq> 0 \<longrightarrow> L (target_of H x - sizeof_UnitHead) \<noteq> UNMARKED)"
proof -
  let ?u = "target_of H x - sizeof_UnitHead" and ?L = "lives (heap_mem H)"
  have run: "mark_call_run k True (chunk_of (h_chunk H)) x (heap_mem H, w) = woomem_mark_unit_head k True (target_of H x) (with_lives ?L (heap_mem H), w)"
    by (simp add: mark_call_run_eq call_target_some [OF t])
  show ?thesis
  proof (cases "target_of H x \<noteq> 0 \<and> life_in H ?u = UNMARKED")
    case True
    have "marks H (?L(?u := SELF_MARKED))" using p True by (intro marks_upd) simp_all
    with True show ?thesis unfolding run mark_own_eq
      by (intro exI [of _ "?L(?u := SELF_MARKED)"] exI [of _ "[?u]"]) (auto simp: gray_eq lives_def)
  next
    case False
    then show ?thesis unfolding run mark_own_eq
      by (intro exI [of _ ?L] exI [of _ "[]"]) (auto simp: gray_eq lives_def [symmetric])
  qed
qed

lemma perform_worker_mark:
  assumes inv: "running_inv k y" and en: "enabled k c y (Worker_mark j)"
  shows "\<exists>y'. perform tgt sys k y (Worker_mark j) = Some y' \<and> running_inv k y'"
proof -
  obtain u x xs "is" where ph: "rn_phase y \<noteq> Between" and j: "j < length (rn_scans y)" "rn_scans y ! j = Scanning u (x # xs) is"
    using en by (auto split: scan.splits list.splits)
  have mi: "marking_inv k y" and b: "base_inv k (rn_program y)" using inv ph by (simp_all add: running_inv_def)
  note J = scan_in [OF mi j(1)] and T = trace_invD [OF marking_invD(1) [OF mi, unfolded trace_of_def]]
  let ?w = "rn_workers y ! j" and ?H = "rn_heap y" and ?S = "rn_snapshot y" and ?cb = "mark_callback (rn_callback y)"
  obtain C where C: "ordered any_life ?S C" using T(1) by (auto simp: snapshot_ok_def)
  have pr: "precise_ok ?S (x # xs)" using marking_invD(7) [OF mi] J(1) j(2) by metis
  obtain L new where m: "mark_call_run k True (chunk_of (h_chunk ?H)) x (heap_mem ?H, ?w) = Some (with_lives L (heap_mem ?H), ?w\<lparr>m_local_work := new @ m_local_work ?w\<rparr>)"
    "marks ?H L" "\<And>u. count (mset new) u = (if life_in ?H u = UNMARKED \<and> L u = SELF_MARKED then 1 else 0)"
    "\<And>u. L u = FULL_MARKED \<Longrightarrow> life_in ?H u = FULL_MARKED" "target_of ?H x \<noteq> 0 \<Longrightarrow> L (target_of ?H x - sizeof_UnitHead) \<noteq> UNMARKED"
    using mark_own_call [OF base_invD(1) [OF b], of x k ?w] call_published [OF T(2) C base_invD(1) [OF b] pr, of x] by auto
  note K = marks_heap [OF m(2)]
  have dk: "dark ?S (remarked L ?H) p" if "dark ?S ?H p" for p
    by (rule dark_mono [OF _ that]) (use K(7) extendsD(4) [OF T(2)] in \<open>auto simp: is_published_def\<close>)
  have dx: "dark ?S (remarked L ?H) (target_of ?S x)"
    using m(5) extends_target [OF T(2) C base_invD(1) [OF b], of x] by (cases "target_of ?S x = 0") (simp_all add: dark_def)
  have "scan_ok ?S ?cb ?H (Scanning u (x # xs) is)" using T(6) [OF J(1)] j(2) by simp
  then have sc: "scan_ok ?S ?cb (remarked L ?H) (Scanning u xs is)" using dk dx by fastforce
  let ?w' = "?w\<lparr>m_local_work := new @ m_local_work ?w\<rparr>"
  have "running_inv k (remark L ((rn_workers y)[j := ?w']) ((rn_scans y)[j := Scanning u xs is]) (rn_stores y) y)"
  proof (rule worker_running [OF inv ph j(1) _ m(2) _ refl refl refl, where old = "[]" and new = new])
    show "count (mset []) v = (if life_in ?H v = SELF_MARKED \<and> L v = FULL_MARKED then 1 else 0)" for v using m(4) [of v] by auto
  qed (use j(2) base_invD(5) [OF b J(3)] m(3,4) sc pr in \<open>auto simp: worker_work_def precise_ok_def\<close>)
  then show ?thesis using m(1) by (simp add: j(2) put_worker_remark)
qed

lemma perform_worker_black:
  assumes inv: "running_inv k y" and en: "enabled k c y (Worker_black j)"
  shows "\<exists>y'. perform tgt sys k y (Worker_black j) = Some y' \<and> running_inv k y'"
proof -
  obtain u where ph: "rn_phase y \<noteq> Between" and j: "j < length (rn_scans y)" "rn_scans y ! j = Scanning u [] []"
    using en by (auto split: scan.splits list.splits)
  have mi: "marking_inv k y" and b: "base_inv k (rn_program y)" using inv ph by (simp_all add: running_inv_def)
  note J = scan_in [OF mi j(1)] and T = trace_invD [OF marking_invD(1) [OF mi, unfolded trace_of_def]]
  let ?w = "rn_workers y ! j" and ?H = "rn_heap y" and ?S = "rn_snapshot y" and ?cb = "mark_callback (rn_callback y)"
  let ?L = "(lives (heap_mem ?H))(u := FULL_MARKED)"
  have "u \<in> set (scan_units (rn_scans y ! j))" by (simp add: j(2))
  then have "u \<in> set (gray_work k (rn_workers y) (rn_scans y))" using J(1) by (auto simp: gray_work_def)
  then have u: "unit_in ?H u" "life_in ?H u = SELF_MARKED" using marking_invD(2) [OF mi] by (auto simp: gray_ok_def)
  have m: "marks ?H ?L" by (rule marks_upd) (use u in \<open>simp_all add: is_published_def\<close>)
  note K = marks_heap [OF m]
  have dk: "dark ?S (remarked ?L ?H) p" if "dark ?S ?H p" for p
    by (rule dark_mono [OF _ that]) (use K(7) extendsD(4) [OF T(2)] in \<open>auto simp: is_published_def\<close>)
  have "scan_ok ?S ?cb ?H (Scanning u [] [])" using T(6) [OF J(1)] j(2) by simp
  then have bl: "\<forall>x \<in> set (unit_calls (heap_mem ?S) ?cb u). dark ?S (remarked ?L ?H) (target_of ?S x)" if "is_published ?S u" using dk that by auto
  have "running_inv k (remark ?L ((rn_workers y)[j := ?w]) ((rn_scans y)[j := Looping]) (rn_stores y) y)"
  proof (rule worker_running [OF inv ph j(1) _ m _ refl refl refl, where old = "[u]" and new = "[]"])
    show "count (mset [u]) v = (if life_in ?H v = SELF_MARKED \<and> ?L v = FULL_MARKED then 1 else 0)"
      "count (mset []) v = (if life_in ?H v = UNMARKED \<and> ?L v = SELF_MARKED then 1 else 0)" for v using u(2) by (auto simp: lives_def)
    show "life_in ?H v = FULL_MARKED \<or> (\<forall>x \<in> set (unit_calls (heap_mem ?S) ?cb v). dark ?S (remarked ?L ?H) (target_of ?S x))"
      if "is_published ?S v" "?L v = FULL_MARKED" for v using bl that by (cases "v = u") (auto simp: lives_def)
  qed (use j(2) base_invD(5) [OF b J(3)] in auto)
  moreover have "upd_unit u (\<lambda>h. h\<lparr>m_life := FULL_MARKED\<rparr>) (heap_mem ?H) = with_lives ?L (heap_mem ?H)"
    using with_lives_simps(9) [of u FULL_MARKED "lives (heap_mem ?H)" "heap_mem ?H"] by simp
  then have "remark ?L ((rn_workers y)[j := ?w]) ((rn_scans y)[j := Looping]) (rn_stores y) y =
      put_scan j Looping (on_program (with_heap (upd_mem (upd_unit u (\<lambda>h. h\<lparr>m_life := FULL_MARKED\<rparr>)))) y)"
    by (simp add: remark_def put_scan_def on_program_def with_gc_def with_heap_def with_global_def upd_mem_def heap_mem_def)
  ultimately show ?thesis by (simp add: j(2))
qed

section \<open>The barrier of a program thread\<close>

lemma quiet_room: "quiet k q \<Longrightarrow> length (queued k q) \<le> 2 ^ k"
  unfolding quiet_def using quiet_seq(3) by blast

lemma mark_other:
  assumes t: "ordered Q H C" and q: "quiet k (m_gray_queue w)" "unat (m_enqueue_pos (m_gray_queue w)) < 2 ^ 63"
    and wait: "\<not> (resolve H x \<noteq> 0 \<and> life_in H (resolve H x - sizeof_UnitHead) = UNMARKED \<and> length (queued k (m_gray_queue w)) = 2 ^ k \<and> m_is_draining w)"
  shows "\<exists>L w' new. woomem_mark_fuzzy_unit k False (chunk_of (h_chunk H)) x (heap_mem H, w) = Some (with_lives L (heap_mem H), w') \<and>
    quiet k (m_gray_queue w') \<and> mset (worker_work k w') = mset (worker_work k w) + mset new \<and> marks H L \<and>
    (\<forall>u. count (mset new) u = (if life_in H u = UNMARKED \<and> L u = SELF_MARKED then 1 else 0)) \<and>
    (\<forall>u. L u = FULL_MARKED \<longrightarrow> life_in H u = FULL_MARKED) \<and> (resolve H x \<noteq> 0 \<longrightarrow> L (resolve H x - sizeof_UnitHead) \<noteq> UNMARKED)"
proof -
  let ?u = "resolve H x - sizeof_UnitHead" and ?L = "lives (heap_mem H)" and ?q = "m_gray_queue w"
  have v: "woomem_validate_addr x (chunk_of (h_chunk H)) (heap_mem H) = Some (resolve H x)"
    using call_target_some [OF t, of "Mark_fuzzy_unit x"] by simp
  show ?thesis
  proof (cases "resolve H x \<noteq> 0 \<and> life_in H ?u = UNMARKED")
    case True
    let ?L' = "?L(?u := SELF_MARKED)"
    have m: "marks H ?L'" using True resolve_published [OF t] by (intro marks_upd) simp_all
    have l: "upd_unit ?u (\<lambda>h. h\<lparr>m_life := SELF_MARKED\<rparr>) (heap_mem H) = with_lives ?L' (heap_mem H)"
      using with_lives_simps(9) [of ?u SELF_MARKED ?L "heap_mem H"] by simp
    have "\<exists>w'. mark_unit_to_gray k False ?u (heap_mem H, w) = Some (with_lives ?L' (heap_mem H), w') \<and> quiet k (m_gray_queue w') \<and>
        mset (worker_work k w') = mset (worker_work k w) + mset [?u]"
    proof (cases "length (queued k ?q) = 2 ^ k")
      case full: True
      then have "\<not> m_is_draining w" using wait True by simp
      then show ?thesis using True gray.enq_full [OF q(1) full, of ?u] q(1) by (simp add: mark_unit_to_gray_def mark_life_def l worker_work_def)
    next
      case False
      then have r: "length (queued k ?q) < 2 ^ k" using quiet_room [OF q(1)] by simp
      obtain q' where "try_enqueue k ?u ?q = Some (True, q')" "quiet k q'" "queued k q' = queued k ?q @ [?u]"
        using gray.enq_room [OF q(1) r, of ?u] q(2) by auto
      then show ?thesis using True by (simp add: mark_unit_to_gray_def mark_life_def l worker_work_def)
    qed
    then obtain w' where "mark_unit_to_gray k False ?u (heap_mem H, w) = Some (with_lives ?L' (heap_mem H), w')" "quiet k (m_gray_queue w')"
      "mset (worker_work k w') = mset (worker_work k w) + mset [?u]" by blast
    with True m show ?thesis
      by (intro exI [of _ ?L'] exI [of _ w'] exI [of _ "[?u]"]) (auto simp: woomem_mark_fuzzy_unit_def v woomem_mark_unit_head_def lives_def)
  next
    case False
    then show ?thesis
      by (intro exI [of _ ?L] exI [of _ w] exI [of _ "[]"])
        (auto simp: woomem_mark_fuzzy_unit_def v woomem_mark_unit_head_def mark_unit_to_gray_def mark_life_def q(1) lives_def [symmetric])
  qed
qed

lemma store_phase: "running_inv k y \<Longrightarrow> rn_stores y \<noteq> [] \<Longrightarrow> rn_phase y \<noteq> Between"
  by (auto simp: running_inv_def between_inv_def split: if_splits)

lemma perform_store_mark:
  assumes inv: "running_inv k y" and en: "enabled k c y (Store_mark i)"
  shows "\<exists>y'. perform tgt sys k y (Store_mark i) = Some y' \<and> running_inv k y'"
proof -
  obtain wk a x v where i: "i < length (rn_stores y)" "rn_stores y ! i = Loaded wk a x v" "Loaded wk a x v \<in> set (rn_stores y)"
    and e: "unat (m_enqueue_pos (m_gray_queue (rn_workers y ! wk))) < 2 ^ 63" "\<not> must_wait k y wk x"
    using en nth_mem [of i "rn_stores y"] by (cases "rn_stores y ! i") (auto simp: word_less_nat_alt)
  have "rn_stores y \<noteq> []" using i(1) by auto
  then have pp: "rn_phase y \<noteq> Between" by (rule store_phase [OF inv])
  have mi: "marking_inv k y" and b: "base_inv k (rn_program y)" using inv pp by (simp_all add: running_inv_def)
  note M = marking_invD [OF mi] and B = base_invD [OF b]
  have ph: "rn_phase y \<noteq> Final_mark" using M(5) i(1) by auto
  note T = trace_invD [OF M(1) [unfolded trace_of_def]]
  let ?w = "rn_workers y ! wk" and ?H = "rn_heap y" and ?S = "rn_snapshot y" and ?cb = "mark_callback (rn_callback y)"
  have wk: "wk < length (rn_workers y)" "?w \<in> set (rn_workers y)" using M(4) [OF i(3)] by simp_all
  obtain L w' new where m: "woomem_mark_fuzzy_unit k False (chunk_of (h_chunk ?H)) x (heap_mem ?H, ?w) = Some (with_lives L (heap_mem ?H), w')"
    "quiet k (m_gray_queue w')" "mset (worker_work k w') = mset (worker_work k ?w) + mset new" "marks ?H L"
    "\<And>u. count (mset new) u = (if life_in ?H u = UNMARKED \<and> L u = SELF_MARKED then 1 else 0)"
    "\<And>u. L u = FULL_MARKED \<Longrightarrow> life_in ?H u = FULL_MARKED" "resolve ?H x \<noteq> 0 \<Longrightarrow> L (resolve ?H x - sizeof_UnitHead) \<noteq> UNMARKED"
    using mark_other [OF B(1) B(5) [OF wk(2)] e(1), of x] e(2) unfolding must_wait_def Let_def by blast
  note K = marks_heap [OF m(4)]
  let ?ws = "(rn_workers y)[wk := w']" and ?st = "(rn_stores y)[i := Marked a v]"
  obtain C where C: "ordered any_life ?S C" using T(1) by (auto simp: snapshot_ok_def)
  have dk: "dark ?S (remarked L ?H) p" if "dark ?S ?H p" for p
    by (rule dark_mono [OF _ that]) (use K(7) extendsD(4) [OF T(2)] in \<open>auto simp: is_published_def\<close>)
  have dx: "dark ?S (remarked L ?H) (resolve ?S x)"
    using m(7) extends_resolve(1) [OF T(2) C B(1), of x] by (cases "resolve ?S x = 0") (simp_all add: dark_def)
  have "store_ok ?S ?H (Loaded wk a x v)" using T(7) [OF i(3)] .
  then have so: "store_ok ?S (remarked L ?H) (Marked a v)" using dk dx by auto
  have vv: "v \<in> values_of y" using i(3) by (force simp: values_of_def)
  have g: "gray_ok k (remarked L ?H) ?ws (rn_scans y)"
  proof (rule gray_ok_change [OF M(2) m(4), where old = "[]" and new = new])
    have "mset (all_work k ?ws) = mset (all_work k (rn_workers y)) + mset new"
      using mset_concat_update [OF wk(1), of "worker_work k" w'] m(3) by (simp add: all_work_def)
    then show "mset (gray_work k ?ws (rn_scans y)) + mset [] = mset (gray_work k (rn_workers y) (rn_scans y)) + mset new" by (simp add: gray_work_def)
    show "count (mset []) u = (if life_in ?H u = SELF_MARKED \<and> L u = FULL_MARKED then 1 else 0)" for u using m(6) [of u] by auto
  qed (rule m(5))
  have "running_inv k (remark L ?ws (rn_scans y) ?st y)"
  proof (rule remark_running [OF inv pp m(4) refl refl refl _ _ g])
    show "quiet k (m_gray_queue u)" if "u \<in> set ?ws" for u using in_upd_list [OF that] B(5) m(2) by auto
    show "s \<in> set (rn_stores y) \<or> store_ok ?S (remarked L ?H) s \<and> stored_value s \<in> values_of y \<and> (\<forall>wk a x v. s \<noteq> Loaded wk a x v)"
      if "s \<in> set ?st" for s using in_upd_list [OF that] so vv by auto
  qed (use m(6) ph in auto)
  then show ?thesis using m(1) by (simp add: i(2) put_worker_remark)
qed

end
