(* ===== verification/Woomem_Running_Cycle.thy ===== *)
theory Woomem_Running_Cycle
  imports Woomem_Running_Mark
begin

text \<open>
  The turning points of a cycle: its beginning, the end of parallel marking and the sweep keep the invariant of
  \<open>Woomem_Running\<close>. So every action does, and no action fails.
\<close>

section \<open>The beginning\<close>

lemma trace_start:
  assumes ok: "snapshot_ok S cb roots" and t: "ordered any_life S C"
    and L: "L = (\<lambda>v. if v \<in> set roots \<and> life_in S v = UNMARKED then SELF_MARKED else life_in S v)"
    and rs: "rs \<subseteq> set roots" and vals: "\<And>v. v \<in> vals \<Longrightarrow> resolve S v \<noteq> 0 \<Longrightarrow> resolve S v - sizeof_UnitHead \<in> set roots"
    and sc: "\<And>c. c \<in> set scans \<Longrightarrow> c = Waiting"
  shows "marks S L" "trace_inv S roots cb round (remarked L S) scans [] vals rs"
proof -
  have R: "is_published S u" if "u \<in> set roots" for u using ok that by (simp add: snapshot_ok_def)
  show m: "marks S L" using R by (auto simp: marks_def L)
  note K = marks_heap [OF m]
  have rs': "resolve (remarked L S) x = resolve S x" for x by (rule resolve_same [OF K(1) t K(2) [OF t]]) (simp add: K(5))
  have tg: "target_of (remarked L S) x = target_of S x" for x by (rule target_same [OF rs'])
  have U: "life_in S u = UNMARKED" if "is_published S u" for u using ok that unmarked_published by (auto simp: snapshot_ok_def)
  have cv: "covered S cb roots (remarked L S) = snap_reach S cb roots" by (auto simp: covered_def K(5))
  have sr: "u \<in> snap_reach S cb roots" if "u \<in> set roots" for u using snap_reach_root [OF ok that] .
  show "trace_inv S roots cb round (remarked L S) scans [] vals rs"
  proof (rule trace_invI)
    show "black_ok S cb (remarked L S)" using U by (auto simp: black_ok_def L)
    show "words_ok S (remarked L S)" by (simp add: words_ok_def)
    show "roots_dark S roots (remarked L S)" by (auto simp: roots_dark_def L)
    show "scan_ok S cb (remarked L S) c" if "c \<in> set scans" for c using sc [OF that] by simp
    show "safe_value (covered S cb roots (remarked L S)) (remarked L S) v" if "v \<in> vals" for v
      using vals [OF that] sr unfolding safe_value_def cv rs' by blast
    show "rs \<subseteq> covered S cb roots (remarked L S)" using rs sr by (auto simp: cv)
    show "closed_units (covered S cb roots (remarked L S)) cb (remarked L S)"
      unfolding closed_units_def cv safe_call_def tg by (simp add: unit_calls_lives snap_reach_step [OF ok])
    show "new_young S round (remarked L S)" by (simp add: new_young_def K(5))
  qed (use ok K(1) in simp_all)
qed

lemma bind_pair: "a \<bind> (\<lambda>(g, m). f g m) = Some (g', m') \<Longrightarrow> a \<bind> (\<lambda>(g, m). f g m \<bind> (\<lambda>(g, m). h g m)) = h g' m'"
  by (cases a) auto

lemma perform_cycle_begin:
  assumes inv: "running_inv k y" and en: "enabled k c y (Cycle_begin calls cb)"
  shows "\<exists>y'. perform tgt sys k y (Cycle_begin calls cb) = Some y' \<and> running_inv k y'"
proof -
  have ph: "rn_phase y = Between" and hv: "\<forall>v \<in> set (rn_held y). Mark_fuzzy_unit v \<in> set calls" using en by auto
  let ?h = "rn_heap y"
  have G: "precise_ok ?h xs" if xs: "xs \<in> insert calls (snd ` set cb)" for xs
  proof -
    have "\<forall>x \<in> set xs. case x of Mark_unit_head p \<Rightarrow> p = 0 \<or> resolve ?h p = p | _ \<Rightarrow> True" using en xs unfolding enabled.simps by blast
    then show ?thesis by (auto simp: precise_ok_def dest: bspec)
  qed
  have pr: "precise_ok ?h calls" "precise_ok ?h (mark_callback cb x)" for x
  proof -
    show "precise_ok ?h calls" by (rule G) simp
    show "precise_ok ?h (mark_callback cb x)"
    proof (cases "map_of cb x")
      case None
      then show ?thesis by (simp add: mark_callback_def precise_ok_def)
    next
      case (Some xs)
      then have "xs \<in> insert calls (snd ` set cb)" by (force dest: map_of_SomeD)
      then show ?thesis using G Some by (simp add: mark_callback_def)
    qed
  qed
  have b: "base_inv k (rn_program y)" and bi: "between_inv k y" using inv ph by (simp_all add: running_inv_def)
  note B = base_invD [OF b]
  let ?c = "chunk_of (h_chunk ?h)"
  let ?g = "(rn_gc y)\<lparr>m_force_trigger_gc := False, woomem_gc_marking_round_counter := woomem_gc_marking_round_counter (rn_gc y) + 1,
    woomem_gc_marking_state_flag := True\<rparr>"
  define us where "us = root_units ?c (heap_mem ?h) calls (rn_gc y)"
  define L where "L = (\<lambda>v. if v \<in> set us \<and> life_in ?h v = UNMARKED then SELF_MARKED else life_in ?h v)"
  have idle: "gc_idle k ?g" using B(3-5) bi by (simp add: gc_idle_def between_inv_def)
  have gl: "grayed (set us) (heap_mem ?h) = with_lives L (heap_mem ?h)" by (simp add: grayed_def L_def lives_def cong: if_cong)
  have ci: "chunk_inv ?c" using heap_invD(1) [OF orderedD(1) [OF B(1)]] .
  have ru: "root_units ?c (heap_mem ?h) calls ?g = us" by (simp add: us_def root_units_def)
  from mark_roots_spec [OF ci idle, of calls "heap_mem ?h", unfolded ru gl]
  obtain g' where g': "root_calls_run ?c calls (?g, heap_mem ?h) \<bind> (\<lambda>(g, m). mark_root_set (m_root_gc_unit_set g) (g, m)) =
      Some (g', with_lives L (heap_mem ?h))" "gray_state k (with_lives L (heap_mem ?h)) (m_gc_worker_threads g')"
      "set (all_work k (m_gc_worker_threads g')) = {u \<in> set us. lives (heap_mem ?h) u = UNMARKED}"
      "length (m_gc_worker_threads g') = length (rn_workers y)" "gc_rest g' = gc_rest ?g"
    by auto
  have rest: "woomem_gc_marking_round_counter g' = woomem_gc_marking_round_counter ?g" "m_root_gc_unit_set g' = m_root_gc_unit_set (rn_gc y)"
    using g'(5) by (auto simp: gc_rest_def dest: arg_cong [of _ _ woomem_gc_marking_round_counter] arg_cong [of _ _ m_root_gc_unit_set])
  define y' where "y' = (on_program (\<lambda>x. (with_gc (\<lambda>_. g') (with_heap (upd_mem (\<lambda>_. with_lives L (heap_mem ?h))) x))\<lparr>pr_new_allocated := 0\<rparr>) y)
    \<lparr>rn_phase := Parallel_mark, rn_scans := replicate (length (rn_workers y)) Waiting, rn_callback := cb, rn_snapshot := ?h, rn_roots := us\<rparr>"
  have run: "perform tgt sys k y (Cycle_begin calls cb) = Some y'"
    unfolding perform.simps Let_def bind_pair [OF g'(1)] by (simp add: y'_def us_def)
  have cu: "set (call_units ?c (heap_mem ?h) calls) = {target_of ?h x - sizeof_UnitHead | x. x \<in> set calls \<and> target_of ?h x \<noteq> 0}"
    by (rule call_units_targets [OF B(1)])
  have "\<forall>u \<in> set us. is_published ?h u" using B(6) target_published [OF B(1) pr(1)] unfolding us_def root_units_def set_append cu by auto
  then have ok: "snapshot_ok ?h (mark_callback cb) us" using B(1) bi pr(2) by (auto simp: snapshot_ok_def between_inv_def)
  have hu: "resolve ?h v - sizeof_UnitHead \<in> set us" if "v \<in> set (rn_held y)" "resolve ?h v \<noteq> 0" for v
    unfolding us_def root_units_def set_append cu using hv that by (fastforce intro: exI [of _ "Mark_fuzzy_unit v"])
  note S = trace_start [OF ok B(1) L_def, of "set (m_root_gc_unit_set (rn_gc y))" "set (rn_held y)" "replicate (length (rn_workers y)) Waiting"]
  have m: "marks ?h L" and T: "trace_inv ?h us (mark_callback cb) (woomem_gc_marking_round_counter g') (remarked L ?h)
      (replicate (length (rn_workers y)) Waiting) [] (set (rn_held y)) (set (m_root_gc_unit_set (rn_gc y)))"
    using S hu by (auto simp: us_def root_units_def)
  note K = marks_heap [OF m]
  have st: "rn_stores y = []" using bi by (simp add: between_inv_def)
  have f: "rn_heap y' = remarked L ?h" "rn_gc y' = g'" "rn_stores y' = []" "rn_phase y' = Parallel_mark" "rn_scans y' = replicate (length (rn_workers y)) Waiting"
    "pr_threads (rn_program y') = pr_threads (rn_program y)" "pr_pending (rn_program y') = pr_pending (rn_program y)" "rn_held y' = rn_held y"
    "rn_callback y' = cb" "rn_snapshot y' = ?h" "rn_roots y' = us" "m_globalcontext_alive (wm_global (pr_library (rn_program y')))"
    "m_globalcontext_inited (wm_global (pr_library (rn_program y')))" "wm_gc_ctx (pr_library (rn_program y'))"
    using B(8-10) by (simp_all add: y'_def st)
  have b': "base_inv k (rn_program y')"
    by (rule base_invI) (use B K f g'(2,4) rest in \<open>auto simp: gray_state_def\<close>)
  have t: "trace_of y'" using T by (simp add: trace_of_def f values_of_def rest)
  have gw: "gray_work k (m_gc_worker_threads g') (replicate n Waiting) = all_work k (m_gc_worker_threads g')" for n by (simp add: gray_work_def)
  have "gray_ok k (remarked L ?h) (m_gc_worker_threads g') (rn_scans y')"
    using g'(2,3) bi K(4) ok unfolding gray_ok_def f gw
    by (auto simp: gray_state_def L_def lives_def snapshot_ok_def is_published_def between_inv_def unmarked_heap_def split: if_splits)
  then have "marking_inv k y'" by (intro marking_invI [OF t]) (use g'(4) in \<open>auto simp: f\<close>)
  then show ?thesis using run b' f(4) by (simp add: running_inv_def)
qed

section \<open>The end of parallel marking\<close>

lemma perform_stop_marking:
  assumes inv: "running_inv k y" and en: "enabled k c y Stop_marking"
  shows "\<exists>y'. perform tgt sys k y Stop_marking = Some y' \<and> running_inv k y'"
proof -
  have ph: "rn_phase y = Parallel_mark" "rn_stores y = []" and fin: "\<forall>c \<in> set (rn_scans y). c = Finished" using en by auto
  have mi: "marking_inv k y" and b: "base_inv k (rn_program y)" using inv ph by (simp_all add: running_inv_def)
  note M = marking_invD [OF mi] and B = base_invD [OF b]
  let ?y = "(on_program (with_gc (\<lambda>g. g\<lparr>woomem_gc_marking_state_flag := False\<rparr>)) y)
    \<lparr>rn_phase := Final_mark, rn_scans := replicate (length (rn_workers y)) Waiting\<rparr>"
  have b': "base_inv k (rn_program ?y)" by (rule base_invI) (use B in auto)
  have "trace_of ?y" by (rule trace_of_parts [OF M(1) _ _ _ _ _ refl]) (auto simp: values_of_def)
  moreover have "gray_ok k (rn_heap ?y) (rn_workers ?y) (rn_scans ?y)"
  proof -
    have "concat (map scan_units (rn_scans y)) = []" using fin by (induction "rn_scans y") auto
    then show ?thesis using M(2) by (simp add: gray_ok_def gray_work_def)
  qed
  ultimately have "marking_inv k ?y" by (rule marking_invI) (use M ph in auto)
  then show ?thesis using b' by (simp add: running_inv_def)
qed

section \<open>The sweep\<close>

text \<open>
  When the final marking is over nothing is gray, and the sweep keeps every unit the program can come by: those
  reachable at the beginning are black, those published since are young.
\<close>

lemma done_marking:
  assumes inv: "running_inv k y" and en: "enabled k c y Sweep_all"
  shows "tidy (rn_heap y) (held (pr_threads (rn_program y)))" "gc_idle k (rn_gc y)"
    "u \<in> covered (rn_snapshot y) (mark_callback (rn_callback y)) (rn_roots y) (rn_heap y) \<Longrightarrow>
      is_published (rn_heap y) u \<and> kept (woomem_gc_marking_round_counter (rn_gc y)) (unit_at (heap_mem (rn_heap y)) u)"
proof -
  have ph: "rn_phase y = Final_mark" and fin: "\<forall>c \<in> set (rn_scans y). c = Finished" using en by auto
  have mi: "marking_inv k y" and b: "base_inv k (rn_program y)" using inv ph by (simp_all add: running_inv_def)
  note M = marking_invD [OF mi] and B = base_invD [OF b]
  note T = trace_invD [OF M(1) [unfolded trace_of_def]]
  have w: "worker_work k w = []" if w: "w \<in> set (rn_workers y)" for w
  proof -
    obtain j where "j < length (rn_workers y)" "w = rn_workers y ! j" using w by (auto simp: in_set_conv_nth)
    then show ?thesis using M(6) [OF ph, of j] fin M(3) by simp
  qed
  then show "gc_idle k (rn_gc y)" using B(3-5) by (simp add: gc_idle_def)
  have "concat (map scan_units (rn_scans y)) = []" using fin by (induction "rn_scans y") auto
  then have "gray_work k (rn_workers y) (rn_scans y) = []" using all_work_idle [of "rn_workers y" k] w by (simp add: gray_work_def)
  then have ng: "life_in (rn_heap y) v \<noteq> SELF_MARKED" if "unit_in (rn_heap y) v" for v using M(2) that by (simp add: gray_ok_def)
  show "tidy (rn_heap y) (held (pr_threads (rn_program y)))" by (rule ordered_strengthen [OF B(1)]) (use ng in auto)
  assume u: "u \<in> covered (rn_snapshot y) (mark_callback (rn_callback y)) (rn_roots y) (rn_heap y)"
  have p: "is_published (rn_heap y) u" by (rule covered_published [OF T(1,2) u])
  show "is_published (rn_heap y) u \<and> kept (woomem_gc_marking_round_counter (rn_gc y)) (unit_at (heap_mem (rn_heap y)) u)"
  proof (cases "u \<in> snap_reach (rn_snapshot y) (mark_callback (rn_callback y)) (rn_roots y)")
    case True
    from snap_reach_black [OF T(1-3,5) ng True] p show ?thesis by (simp add: kept_def)
  next
    case False
    then have "m_age (unit_at (heap_mem (rn_heap y)) u) = 15" "m_timing (unit_at (heap_mem (rn_heap y)) u) = woomem_gc_marking_round_counter (rn_gc y)"
      using T(11) u by (auto simp: covered_def new_young_def)
    moreover have "life_in (rn_heap y) u \<in> {UNMARKED, FULL_MARKED}" using p ng [of u] by (cases "life_in (rn_heap y) u") (auto simp: is_published_def)
    ultimately show ?thesis using p by (auto simp: kept_def)
  qed
qed

lemma sweep_spec:
  assumes t: "tidy h C" and fresh: "sweep_lists_fresh g h" and g: "gc_idle k g"
  defines "round \<equiv> woomem_gc_marking_round_counter g"
  shows "\<exists>g' h' fr. gc_sweep_cycle g h = Some (g', h', fr) \<and> tidy h' C \<and> word_at (heap_mem h') = word_at (heap_mem h) \<and>
    (\<forall>q \<in> C. \<forall>g. unit_page h q g \<longrightarrow> unit_page h' q g) \<and> (\<forall>u. unit_in h' u \<longleftrightarrow> unit_in h u \<and> kept round (unit_at (heap_mem h) u)) \<and>
    (\<forall>u. unit_in h' u \<longrightarrow> unit_at (heap_mem h') u = aged (unit_at (heap_mem h) u)) \<and>
    gc_idle k g' \<and> m_root_gc_unit_set g' = m_root_gc_unit_set g"
proof -
  note T = orderedD [OF t]
  obtain ps where ps: "page_chain (heap_mem h) (m_all_page_list h) ps" "set ps = fst ` runs_of h" using T(4) by blast
  have n: "length ps + 1 < 2 ^ 64" using run_count [OF t _ ps(2)] chain_distinct ps(1) unfolding page_chain_def by blast
  have sw: "\<forall>p \<in> set ps. sweepable h C p" using T(3) unfolding ps(2) sweepable_ungray by auto
  have ws: "m_gc_worker_threads g \<noteq> []" "length (m_gc_worker_threads g) < 2 ^ 64" using g by (simp_all add: gc_idle_def)
  from gc_sweep_cycle_spec [OF T(1) ps(1) fresh n sw ws] obtain g' h' fr where r: "gc_sweep_cycle g h = Some (g', h', fr)"
    "collected round ps C h h'" "m_root_gc_unit_set g' = m_root_gc_unit_set g" "map marking_part (m_gc_worker_threads g') = map marking_part (m_gc_worker_threads g)"
    unfolding round_def by blast
  have "upd_mem (\<lambda>_. blackened {} (heap_mem h)) h = h" by (simp add: blackened_simps(2))
  then have c: "collected round ps C (upd_mem (\<lambda>_. blackened {} (heap_mem h)) h) h'" using r(2) by simp
  note D = collected_tidy [OF t ps c]
  show ?thesis using r(1,3) gc_idle_cong [OF g r(4)] D(1,2) D(3) D(4) D(5) by (intro exI [of _ g'] exI [of _ h'] exI [of _ fr]) simp
qed

lemma sweep_running:
  assumes inv: "running_inv k y" and en: "enabled k c y Sweep_all"
  shows "\<exists>y'. perform tgt sys k y Sweep_all = Some y' \<and> running_inv k y' \<and> rn_held y' = rn_held y \<and>
    word_at (heap_mem (rn_heap y')) = word_at (heap_mem (rn_heap y)) \<and> m_root_gc_unit_set (rn_gc y') = m_root_gc_unit_set (rn_gc y) \<and>
    (\<forall>u \<in> covered (rn_snapshot y) (mark_callback (rn_callback y)) (rn_roots y) (rn_heap y).
      unit_in (rn_heap y') u \<and> unit_at (heap_mem (rn_heap y')) u = aged (unit_at (heap_mem (rn_heap y)) u))"
proof -
  have ph: "rn_phase y = Final_mark" and fresh: "sweep_lists_fresh (rn_gc y) (rn_heap y)" using en by auto
  have mi: "marking_inv k y" and b: "base_inv k (rn_program y)" using inv ph by (simp_all add: running_inv_def)
  note M = marking_invD [OF mi] and B = base_invD [OF b] and D = done_marking [OF inv en]
  note T = trace_invD [OF M(1) [unfolded trace_of_def]]
  from sweep_spec [OF D(1) fresh D(2)] obtain g' h' fr where r: "gc_sweep_cycle (rn_gc y) (rn_heap y) = Some (g', h', fr)"
    "tidy h' (held (pr_threads (rn_program y)))" "word_at (heap_mem h') = word_at (heap_mem (rn_heap y))"
    "\<forall>q \<in> held (pr_threads (rn_program y)). \<forall>g. unit_page (rn_heap y) q g \<longrightarrow> unit_page h' q g"
    "\<And>u. unit_in h' u \<longleftrightarrow> unit_in (rn_heap y) u \<and> kept (woomem_gc_marking_round_counter (rn_gc y)) (unit_at (heap_mem (rn_heap y)) u)"
    "\<And>u. unit_in h' u \<Longrightarrow> unit_at (heap_mem h') u = aged (unit_at (heap_mem (rn_heap y)) u)"
    "gc_idle k g'" "m_root_gc_unit_set g' = m_root_gc_unit_set (rn_gc y)" by blast
  let ?y = "(on_program (\<lambda>x. with_gc (\<lambda>_. g') (with_heap (\<lambda>_. h') x)) y)\<lparr>rn_phase := Between\<rparr>"
  have K: "unit_in h' u" "unit_at (heap_mem h') u = aged (unit_at (heap_mem (rn_heap y)) u)" "is_published h' u"
    if "u \<in> covered (rn_snapshot y) (mark_callback (rn_callback y)) (rn_roots y) (rn_heap y)" for u
    using D(3) [OF that] r(5,6) [of u] by (auto simp: is_published_def aged_def)
  have pe: "pending_unit h' a" if "a \<in> set (pr_pending (rn_program y))" for a
    using B(7) [OF that] r(5,6) [of "a - sizeof_UnitHead"] by (auto simp: pending_unit_def kept_def aged_def)
  have ts: "threads_ok h' (pr_threads (rn_program y))" using B(2) r(4) unfolding threads_ok_def thread_ok_def by blast
  have "base_inv k (rn_program ?y)"
    by (rule base_invI) (use B(8-10) r(7,8) ordered_mono [OF r(2), of any_life] ts pe K(3) T(9) in \<open>auto simp: gc_idle_def\<close>)
  moreover have "between_inv k ?y"
    using r(6,7) M(5) [OF ph] by (auto simp: between_inv_def unmarked_heap_def gc_idle_def aged_def)
  ultimately have "running_inv k ?y" by (simp add: running_inv_def)
  then show ?thesis using r(1,3,8) K by simp
qed

text \<open>While a unit is in use there is a page to sweep.\<close>

lemma running_fresh:
  assumes "running_inv k y" "unit_in (rn_heap y) u"
  shows "sweep_lists_fresh (rn_gc y) (rn_heap y)"
proof -
  have "base_inv k (rn_program y)" using assms(1) by (simp add: running_inv_def)
  from chain_empty [OF base_invD(1) [OF this]] assms(2) show ?thesis by (auto simp: sweep_lists_fresh_def unit_in_def)
qed

section \<open>Every action\<close>

lemma perform_sweep_all:
  assumes "running_inv k y" "enabled k c y Sweep_all"
  shows "\<exists>y'. perform tgt sys k y Sweep_all = Some y' \<and> running_inv k y'"
  using sweep_running [OF assms, of tgt sys] by blast

lemmas perform_always = perform_remove_root perform_forget perform_thread_start

lemmas perform_enabled = perform_begin perform_end perform_end_root perform_thread_exit perform_read perform_read_callback perform_fill
  perform_store perform_store_load perform_store_mark perform_store_write perform_cycle_begin perform_worker_enter perform_worker_next
  perform_worker_mark perform_worker_load perform_worker_black perform_stop_marking perform_sweep_all

lemma perform_ok:
  assumes inv: "running_inv k y" and en: "enabled k True y a"
  shows "\<exists>y'. perform tgt sys k y a = Some y' \<and> running_inv k y'"
  using en by (induction a) (rule perform_always [OF inv] | erule perform_enabled [OF inv])+

end
