(* ===== verification/Woomem_Running_Props.thy ===== *)
theory Woomem_Running_Props
  imports Woomem_Running_Cycle
begin

text \<open>
  What holds of a program that runs while the collector marks: nothing fails, nothing the program can come by is lost,
  and marking ends.
\<close>

section \<open>Reachable states\<close>

lemma running_init_inv:
  assumes "running_init tgt sys k y"
  shows "running_inv k y"
proof -
  have P: "program_inv k (rn_program y)" "runs_of (rn_heap y) = {}" and y: "rn_phase y = Between" "rn_stores y = []"
    using assms init_facts unfolding running_init_def by blast+
  note I = program_invD [OF P(1)]
  have o: "ordered any_life (rn_heap y) (held (pr_threads (rn_program y)))" by (rule ordered_mono [OF I(1)]) simp
  have "base_inv k (rn_program y)"
    by (rule base_invI) (use I o in \<open>auto simp: gc_idle_def roots_ok_def is_published_def\<close>)
  moreover have "between_inv k y" using P(2) I(3) y(2) by (simp add: between_inv_def unmarked_heap_def unit_in_def gc_idle_def)
  ultimately show ?thesis using y(1) by (simp add: running_inv_def)
qed

interpretation running: inductive_invariant "running_init tgt sys k" "running_step tgt sys k True" "running_inv k"
  for tgt and sys :: "'os syscalls" and k
proof
  show "running_inv k t" if inv: "running_inv k s" and st: "running_step tgt sys k True s t" for s t :: "'os running"
  proof -
    obtain a where a: "enabled k True s a" "perform tgt sys k s a = Some t" using st by (auto simp: running_step_def)
    from perform_ok [OF inv a(1), of tgt sys] a(2) show ?thesis by simp
  qed
qed (rule running_init_inv)

text \<open>A sequence of actions.\<close>

fun run_actions :: "target \<Rightarrow> 'os syscalls \<Rightarrow> nat \<Rightarrow> bool \<Rightarrow> 'os running \<Rightarrow> action list \<Rightarrow> 'os running option" where
  "run_actions tgt sys k careful y [] = Some y"
| "run_actions tgt sys k careful y (a # as) =
     (if enabled k careful y a then perform tgt sys k y a \<bind> (\<lambda>y. run_actions tgt sys k careful y as) else None)"

lemma run_reach:
  assumes "reach (running_init tgt sys k) (running_step tgt sys k careful) y" "run_actions tgt sys k careful y as = Some y'"
  shows "reach (running_init tgt sys k) (running_step tgt sys k careful) y'"
  using assms
proof (induction "as" arbitrary: y)
  case (Cons a "as")
  then obtain y1 where "enabled k careful y a" "perform tgt sys k y a = Some y1" "run_actions tgt sys k careful y1 as = Some y'"
    by (auto split: if_splits bind_splits)
  moreover from this(1,2) have "running_step tgt sys k careful y y1" by (auto simp: running_step_def)
  ultimately show ?case using Cons.IH Cons.prems(1) reach.reach_step by metis
qed simp

section \<open>What the program can come by\<close>

inductive_set usable :: "'os running \<Rightarrow> addr set" for y :: "'os running" where
  held: "v \<in> set (rn_held y) \<Longrightarrow> resolve (rn_heap y) v \<noteq> 0 \<Longrightarrow> resolve (rn_heap y) v - sizeof_UnitHead \<in> usable y"
| root: "u \<in> set (m_root_gc_unit_set (rn_gc y)) \<Longrightarrow> u \<in> usable y"
| follow: "u \<in> usable y \<Longrightarrow> x \<in> set (unit_calls (heap_mem (rn_heap y)) (mark_callback (rn_callback y)) u) \<Longrightarrow>
    target_of (rn_heap y) x \<noteq> 0 \<Longrightarrow> target_of (rn_heap y) x - sizeof_UnitHead \<in> usable y"

lemma usable_covered:
  assumes t: "trace_of y" and u: "u \<in> usable y"
  shows "u \<in> covered (rn_snapshot y) (mark_callback (rn_callback y)) (rn_roots y) (rn_heap y)"
  using u
proof induction
  case (held v)
  then show ?case using trace_invD(8) [OF t [unfolded trace_of_def], of v] by (simp add: values_of_def safe_value_def)
next
  case (root u)
  then show ?case using trace_invD(9) [OF t [unfolded trace_of_def]] by blast
next
  case (follow u x)
  then show ?case using trace_invD(10) [OF t [unfolded trace_of_def]] by (auto simp: closed_units_def safe_call_def)
qed

section \<open>Marking ends\<close>

fun worker_action :: "action \<Rightarrow> bool" where
  "worker_action (Worker_enter j) = True"
| "worker_action (Worker_next j) = True"
| "worker_action (Worker_mark j) = True"
| "worker_action (Worker_load j) = True"
| "worker_action (Worker_black j) = True"
| "worker_action _ = False"

text \<open>What decreases: white units, then gray ones, then workers that do not scan, then what is left of the scans.\<close>

fun scan_idle :: "scan \<Rightarrow> nat" where
  "scan_idle Waiting = 2"
| "scan_idle Looping = 1"
| "scan_idle _ = 0"

fun scan_left :: "scan \<Rightarrow> nat" where
  "scan_left (Scanning u xs is) = length xs + 2 * length is"
| "scan_left _ = 0"

definition mark_rank :: "nat \<Rightarrow> 'os running \<Rightarrow> nat \<times> nat \<times> nat \<times> nat" where
  "mark_rank k y = (card {u. life_in (rn_heap y) u = UNMARKED}, length (gray_work k (rn_workers y) (rn_scans y)),
     sum_list (map scan_idle (rn_scans y)), sum_list (map scan_left (rn_scans y)))"

abbreviation rank_less :: "((nat \<times> nat \<times> nat \<times> nat) \<times> (nat \<times> nat \<times> nat \<times> nat)) set" where
  "rank_less \<equiv> less_than <*lex*> less_than <*lex*> less_than <*lex*> less_than"

lemma sum_list_upd: "j < length xs \<Longrightarrow> sum_list (map f (xs[j := x])) + f (xs ! j) = sum_list (map f xs) + (f x :: nat)"
proof (induction xs arbitrary: j)
  case (Cons a xs)
  then show ?case by (cases j) (auto simp: ac_simps)
qed simp

lemma gray_length:
  assumes "j < length ws" "j < length scans"
  shows "length (gray_work k (ws[j := w]) (scans[j := c])) + (length (worker_work k (ws ! j)) + length (scan_units (scans ! j))) =
    length (gray_work k ws scans) + (length (worker_work k w) + length (scan_units c))"
  using arg_cong [OF gray_work_update [OF assms, of k w c], of size] by simp

text \<open>A step of a worker, by what it does to the white units, the gray units and its scan.\<close>

lemma rank_step:
  assumes m: "marking_inv k y" and j: "j < length (rn_scans y)"
    and y': "rn_heap y' = remarked L (rn_heap y)" "rn_workers y' = (rn_workers y)[j := w]" "rn_scans y' = (rn_scans y)[j := c]"
    and L: "marks (rn_heap y) L"
    and less: "(\<exists>u. life_in (rn_heap y) u = UNMARKED \<and> L u \<noteq> UNMARKED) \<or>
      (let a = length (worker_work k w) + length (scan_units c); b = length (worker_work k (rn_workers y ! j)) + length (scan_units (rn_scans y ! j))
       in a < b \<or> a = b \<and> (scan_idle c < scan_idle (rn_scans y ! j) \<or>
         scan_idle c = scan_idle (rn_scans y ! j) \<and> scan_left c < scan_left (rn_scans y ! j)))"
  shows "(mark_rank k y', mark_rank k y) \<in> rank_less"
proof -
  let ?W = "{u. life_in (rn_heap y) u = UNMARKED}" and ?W' = "{u. L u = UNMARKED}"
  have jw: "j < length (rn_workers y)" using scan_in(2) [OF m j] .
  have sub: "?W' \<subseteq> ?W" using L by (force simp: marks_def)
  have W: "card ?W' < card ?W \<or> ?W' = ?W" using psubset_card_mono [of ?W ?W'] sub by auto
  note N = gray_length [OF jw j, of k w c] sum_list_upd [OF j, of scan_idle c] sum_list_upd [OF j, of scan_left c]
  show ?thesis
  proof (cases "card ?W' < card ?W")
    case True
    then show ?thesis by (simp add: mark_rank_def y')
  next
    case False
    then have "?W' = ?W" using W by simp
    then have "\<not> (\<exists>u. life_in (rn_heap y) u = UNMARKED \<and> L u \<noteq> UNMARKED)" by auto
    with less have l: "length (worker_work k w) + length (scan_units c) < length (worker_work k (rn_workers y ! j)) + length (scan_units (rn_scans y ! j)) \<or>
      length (worker_work k w) + length (scan_units c) = length (worker_work k (rn_workers y ! j)) + length (scan_units (rn_scans y ! j)) \<and>
      (scan_idle c < scan_idle (rn_scans y ! j) \<or> scan_idle c = scan_idle (rn_scans y ! j) \<and> scan_left c < scan_left (rn_scans y ! j))"
      unfolding Let_def by blast
    show ?thesis using l N \<open>?W' = ?W\<close> by (elim disjE conjE) (simp_all add: mark_rank_def y')
  qed
qed

lemma next_unit_work:
  assumes q: "quiet k (m_gray_queue w)" and r: "next_unit k cb m w = Some (c, w')"
  shows "length (worker_work k w') + length (scan_units c) = length (worker_work k w)" "scan_idle c = 0"
proof -
  obtain w1 where w1: "(if m_local_work w = [] then drain_queue_into_local k w else Some w) = Some w1"
      "mset (worker_work k w1) = mset (worker_work k w)" using drain_first [OF q] by blast
  have "length (worker_work k w1) = length (worker_work k w)" using arg_cong [OF w1(2), of size] by simp
  moreover have "length (worker_work k w') + length (scan_units c) = length (worker_work k w1) \<and> scan_idle c = 0"
    using r unfolding next_unit_def w1(1) by (cases "m_local_work w1") (auto simp: worker_work_def split: if_splits bind_splits)
  ultimately show "length (worker_work k w') + length (scan_units c) = length (worker_work k w)" "scan_idle c = 0" by simp_all
qed

lemma put_worker_simps:
  "rn_heap (put_worker j mw y) = upd_mem (\<lambda>_. fst mw) (rn_heap y)" "rn_workers (put_worker j mw y) = (rn_workers y)[j := snd mw]"
  "rn_scans (put_worker j mw y) = rn_scans y"
  by (simp_all add: put_worker_def)

text \<open>Every step of a worker decreases the rank.\<close>

lemma worker_rank:
  assumes inv: "running_inv k y" and a: "worker_action a" "enabled k c y a" and r: "perform tgt sys k y a = Some y'"
  shows "(mark_rank k y', mark_rank k y) \<in> rank_less"
proof -
  have ph: "rn_phase y \<noteq> Between" using a by (cases a) auto
  have mi: "marking_inv k y" and b: "base_inv k (rn_program y)" using inv ph by (simp_all add: running_inv_def)
  show ?thesis
  proof (cases a)
    case (Worker_enter j)
    then show ?thesis using a(2) r
      by (intro rank_step [OF mi _ _ _ _ marks_id(1), of j _ "(rn_workers y ! j)\<lparr>m_is_draining := True\<rparr>" Looping])
        (auto simp: put_worker_simps worker_work_def)
  next
    case (Worker_next j)
    then obtain d w where n: "next_unit k (mark_callback (rn_callback y)) (heap_mem (rn_heap y)) (rn_workers y ! j) = Some (d, w)"
      "y' = put_scan j d (put_worker j (heap_mem (rn_heap y), w) y)" "j < length (rn_scans y)" "rn_scans y ! j = Looping"
      using a(2) r by (auto split: bind_splits)
    then show ?thesis using next_unit_work [OF base_invD(5) [OF b scan_in(3) [OF mi n(3)]] n(1)]
      by (intro rank_step [OF mi n(3) _ _ _ marks_id(1), of _ w d]) (auto simp: put_worker_simps)
  next
    case (Worker_load j)
    then obtain u i "is" where n: "rn_scans y ! j = Scanning u [] (i # is)" "j < length (rn_scans y)"
      using a(2) by (auto split: scan.splits list.splits)
    have "y' = put_scan j (Scanning u [Mark_fuzzy_unit (word_at (heap_mem (rn_heap y)) (word_addr u i))] is) y" using r n(1) Worker_load by simp
    with n show ?thesis by (intro rank_step [OF mi n(2) _ _ _ marks_id(1), of _ "rn_workers y ! j"
        "Scanning u [Mark_fuzzy_unit (word_at (heap_mem (rn_heap y)) (word_addr u i))] is"]) auto
  next
    case (Worker_black j)
    then obtain u where n: "rn_scans y ! j = Scanning u [] []" "j < length (rn_scans y)" using a(2) by (auto split: scan.splits list.splits)
    have y': "y' = put_scan j Looping (on_program (with_heap (upd_mem (upd_unit u (\<lambda>h. h\<lparr>m_life := FULL_MARKED\<rparr>)))) y)"
      using r n(1) Worker_black by simp
    let ?L = "(lives (heap_mem (rn_heap y)))(u := FULL_MARKED)"
    have "u \<in> set (scan_units (rn_scans y ! j))" by (simp add: n(1))
    then have "u \<in> set (gray_work k (rn_workers y) (rn_scans y))" using scan_in(1) [OF mi n(2)] by (auto simp: gray_work_def)
    then have "unit_in (rn_heap y) u" "life_in (rn_heap y) u = SELF_MARKED" using marking_invD(2) [OF mi] by (auto simp: gray_ok_def)
    then have m: "marks (rn_heap y) ?L" by (intro marks_upd) (simp_all add: is_published_def)
    have h: "rn_heap y' = remarked ?L (rn_heap y)"
      using with_lives_simps(9) [of u FULL_MARKED "lives (heap_mem (rn_heap y))" "heap_mem (rn_heap y)"]
      by (simp add: y' upd_mem_def heap_mem_def)
    show ?thesis using n y' by (intro rank_step [OF mi n(2) h _ _ m, of "rn_workers y ! j" Looping]) auto
  next
    case (Worker_mark j)
    then obtain u x xs "is" where n0: "rn_scans y ! j = Scanning u (x # xs) is" "j < length (rn_scans y)"
      using a(2) by (auto split: scan.splits list.splits)
    then obtain mw where n: "rn_scans y ! j = Scanning u (x # xs) is" "j < length (rn_scans y)"
      "mark_call_run k True (chunk_of (h_chunk (rn_heap y))) x (heap_mem (rn_heap y), rn_workers y ! j) = Some mw"
      "y' = put_scan j (Scanning u xs is) (put_worker j mw y)"
      using r Worker_mark by (auto split: bind_splits)
    note T = trace_invD [OF marking_invD(1) [OF mi, unfolded trace_of_def]]
    obtain C where C: "ordered any_life (rn_snapshot y) C" using T(1) by (auto simp: snapshot_ok_def)
    have pr: "precise_ok (rn_snapshot y) (x # xs)" using marking_invD(7) [OF mi] scan_in(1) [OF mi n(2)] n(1) by metis
    let ?w = "rn_workers y ! j"
    obtain L new where m: "mw = (with_lives L (heap_mem (rn_heap y)), ?w\<lparr>m_local_work := new @ m_local_work ?w\<rparr>)" "marks (rn_heap y) L"
      "\<And>u. count (mset new) u = (if life_in (rn_heap y) u = UNMARKED \<and> L u = SELF_MARKED then 1 else 0)"
      using mark_own_call [OF base_invD(1) [OF b], of x k ?w] call_published [OF T(2) C base_invD(1) [OF b] pr, of x] n(3) by auto
    have "(\<exists>u. life_in (rn_heap y) u = UNMARKED \<and> L u \<noteq> UNMARKED) \<or> new = []"
    proof (cases new)
      case (Cons v vs)
      then have "life_in (rn_heap y) v = UNMARKED \<and> L v = SELF_MARKED" using m(3) [of v] by (auto split: if_splits)
      then show ?thesis by (intro disjI1 exI [of _ v]) simp
    qed simp
    then show ?thesis using n m(1)
      by (intro rank_step [OF mi n(2) _ _ _ m(2), of _ "snd mw" "Scanning u xs is"]) (auto simp: put_worker_simps worker_work_def)
  qed (use a(1) in simp_all)
qed

text \<open>A worker that is not done can go on.\<close>

lemma worker_goes_on:
  assumes inv: "running_inv k y" and ph: "rn_phase y \<noteq> Between" and nf: "\<not> (\<forall>c \<in> set (rn_scans y). c = Finished)"
  shows "\<exists>a. worker_action a \<and> enabled k c y a"
proof -
  obtain j where j: "j < length (rn_scans y)" "rn_scans y ! j \<noteq> Finished" using nf by (auto simp: in_set_conv_nth)
  consider "rn_scans y ! j = Waiting" | "rn_scans y ! j = Looping" | u x xs "is" where "rn_scans y ! j = Scanning u (x # xs) is"
    | u i "is" where "rn_scans y ! j = Scanning u [] (i # is)" | u where "rn_scans y ! j = Scanning u [] []"
    using j(2) by (cases "rn_scans y ! j") (metis list.exhaust)+
  then show ?thesis
  proof cases
    case 1 then show ?thesis using ph j(1) by (intro exI [of _ "Worker_enter j"]) simp
  next
    case 2 then show ?thesis using ph j(1) by (intro exI [of _ "Worker_next j"]) simp
  next
    case 3 then show ?thesis using ph j(1) by (intro exI [of _ "Worker_mark j"]) simp
  next
    case 4 then show ?thesis using ph j(1) by (intro exI [of _ "Worker_load j"]) simp
  next
    case 5 then show ?thesis using ph j(1) by (intro exI [of _ "Worker_black j"]) simp
  qed
qed

section \<open>Properties\<close>

text \<open>C4: A program that runs while the collector marks. From \<open>woomem_init\<close> on, cycles begin at any time, with callbacks that mark
  precisely only null or published units; threads allocate, publish, read, write, come and go
  in any interleaving with the workers, which pop units, load words and mark one at a time; stores to published units
  mark the value they overwrite. In every reachable state the invariant holds (the heap is in order; between cycles
  there are no marks; in a cycle the gray units are exactly what some worker has to scan, each once) and every action
  that a thread of the program or of the collector may take next succeeds: no assertion of the sources fails. The program
  is one that writes to no published unit between the end of parallel marking and the sweep, and the sweep may not start
  on an empty chain of pages while a worker has the list of an earlier cycle, which cannot be so while a unit is in use. All
  units in use when the cycle began are still in use, where they were.\<close>

theorem running_safe:
  assumes "reach (running_init tgt sys k) (running_step tgt sys k True) y"
  shows "running_inv k y \<and> (\<forall>a. enabled k True y a \<longrightarrow> perform tgt sys k y a \<noteq> None) \<and>
    (rn_phase y \<noteq> Between \<longrightarrow> extends (rn_snapshot y) (rn_heap y)) \<and>
    ((\<exists>u. unit_in (rn_heap y) u) \<longrightarrow> sweep_lists_fresh (rn_gc y) (rn_heap y))"
proof -
  have inv: "running_inv k y" using assms by (rule running.reach_inv)
  have "extends (rn_snapshot y) (rn_heap y)" if "rn_phase y \<noteq> Between"
  proof -
    have "trace_of y" using inv that by (simp add: running_inv_def marking_inv_def)
    then show ?thesis unfolding trace_of_def by (rule trace_invD(2))
  qed
  moreover have "perform tgt sys k y a \<noteq> None" if "enabled k True y a" for a using perform_ok [OF inv that, of tgt sys] by auto
  ultimately show ?thesis using inv running_fresh [OF inv] by blast
qed

text \<open>C3: Nothing is lost while the program runs. When the final marking is over, in any state reached as above, and unless the
  chain of pages is empty while a worker has the list of an earlier cycle, the sweep returns, and every unit that the program can come by at that moment (from the values its threads hold and the
  registered roots, over the references in the memory as it is now, not as it was when the cycle began) is still in
  use afterwards, as it was but white and a round older; no payload has changed. This covers units allocated and
  references moved while the workers were marking.\<close>

theorem running_keeps:
  assumes "reach (running_init tgt sys k) (running_step tgt sys k True) y" and "enabled k True y Sweep_all"
  shows "\<exists>y'. perform tgt sys k y Sweep_all = Some y' \<and> rn_held y' = rn_held y \<and>
    m_root_gc_unit_set (rn_gc y') = m_root_gc_unit_set (rn_gc y) \<and> word_at (heap_mem (rn_heap y')) = word_at (heap_mem (rn_heap y)) \<and>
    (\<forall>u \<in> usable y. unit_in (rn_heap y') u \<and> unit_at (heap_mem (rn_heap y')) u = aged (unit_at (heap_mem (rn_heap y)) u))"
proof -
  have inv: "running_inv k y" using assms(1) by (rule running.reach_inv)
  then have "trace_of y" using assms(2) by (simp add: running_inv_def marking_inv_def)
  then show ?thesis using sweep_running [OF inv assms(2), of tgt sys] usable_covered by blast
qed

text \<open>C5: Marking ends. Between two actions of the program the workers can take only finitely many steps, and as long as
  one of them is not done with the phase some worker can take a step.\<close>

theorem marking_ends:
  "wf {(y', y). reach (running_init tgt sys k) (running_step tgt sys k True) y \<and>
     (\<exists>a. worker_action a \<and> enabled k True y a \<and> perform tgt sys k y a = Some y')} \<and>
   (\<forall>y. reach (running_init tgt sys k) (running_step tgt sys k True) y \<and> rn_phase y \<noteq> Between \<and> \<not> (\<forall>c \<in> set (rn_scans y). c = Finished) \<longrightarrow>
     (\<exists>a. worker_action a \<and> enabled k True y a))"
proof
  show "wf {(y', y). reach (running_init tgt sys k) (running_step tgt sys k True) y \<and>
      (\<exists>a. worker_action a \<and> enabled k True y a \<and> perform tgt sys k y a = Some y')}"
    by (rule wf_subset [OF wf_inv_image [of rank_less "mark_rank k"]])
      (auto simp: inv_image_def simp del: in_lex_prod dest!: running.reach_inv intro: worker_rank)
  show "\<forall>y. reach (running_init tgt sys k) (running_step tgt sys k True) y \<and> rn_phase y \<noteq> Between \<and> \<not> (\<forall>c \<in> set (rn_scans y). c = Finished) \<longrightarrow>
      (\<exists>a. worker_action a \<and> enabled k True y a)"
    using worker_goes_on running.reach_inv by blast
qed

text \<open>
  A program with one worker: a root is published, a cycle begins, a second unit is begun, published while the worker
  is marking, and held.
\<close>

definition demo_one :: "addr list program" where
  "demo_one = \<lparr>pr_library = snd (the (woomem_init POSIX demo_sys True 1 (\<lambda>_. (demo_raw, 0)) 100000 demo_woomem)),
     pr_new_allocated = 0, pr_pending = []\<rparr>"

definition demo_running :: "addr list running" where
  "demo_running = \<lparr>rn_program = demo_one, rn_held = [], rn_stores = [], rn_phase = Between, rn_scans = [], rn_callback = [],
     rn_snapshot = pr_heap demo_one, rn_roots = []\<rparr>"

definition demo_cycle :: "action list" where
  "demo_cycle = [Allocate_begin 0 16000, Allocate_end_as_root 0x100028 1, Cycle_begin [Mark_fuzzy_unit 0x100028] []]"

definition demo_marking :: "action list" where
  "demo_marking = demo_cycle @ [Allocate_begin 0 16000, Worker_enter 0, Worker_next 0, Worker_black 0, Allocate_end 0x104018 1,
     Worker_next 0, Stop_marking, Worker_enter 0, Worker_next 0]"

lemma demo_running_eval:
  "map_option fst (woomem_init POSIX demo_sys True 1 (\<lambda>_. (demo_raw, 0)) 100000 demo_woomem) = Some True"
  "map_option (\<lambda>y. (rn_phase y, rn_scans y)) (run_actions POSIX demo_sys 1 True demo_running demo_cycle) = Some (Parallel_mark, [Waiting])"
  "map_option (\<lambda>y. (rn_phase y, rn_scans y, rn_held y, m_root_gc_unit_set (rn_gc y), resolve (rn_heap y) 0x104018))
     (run_actions POSIX demo_sys 1 True demo_running demo_marking) = Some (Final_mark, [Finished], [0x104018, 0x100028], [0x100020], 0x104018)"
  by code_simp+

lemma demo_running_reach: "reach (running_init POSIX demo_sys 1) (running_step POSIX demo_sys 1 c) demo_running"
proof (rule reach.reach_init)
  have "woomem_init POSIX demo_sys True 1 (\<lambda>_. (demo_raw, 0)) 100000 demo_woomem = Some (True, pr_library demo_one)"
    using demo_running_eval(1) by (auto simp: demo_one_def)
  from demo_program_init [OF this] show "running_init POSIX demo_sys 1 demo_running"
    by (simp add: running_init_def demo_running_def demo_one_def)
qed

lemma demo_marked:
  obtains y where "reach (running_init POSIX demo_sys 1) (running_step POSIX demo_sys 1 True) y" "rn_phase y = Final_mark" "rn_scans y = [Finished]"
    "rn_held y = [0x104018, 0x100028]" "m_root_gc_unit_set (rn_gc y) = [0x100020]" "resolve (rn_heap y) 0x104018 = 0x104018"
    "run_actions POSIX demo_sys 1 True demo_running demo_marking = Some y" "enabled 1 True y Sweep_all"
proof -
  obtain y where "run_actions POSIX demo_sys 1 True demo_running demo_marking = Some y" "rn_phase y = Final_mark" "rn_scans y = [Finished]"
      "rn_held y = [0x104018, 0x100028]" "m_root_gc_unit_set (rn_gc y) = [0x100020]" "resolve (rn_heap y) 0x104018 = 0x104018"
    using demo_running_eval(3) by auto
  note y = this and r = run_reach [OF demo_running_reach this(1)]
  have inv: "running_inv 1 y" using r by (rule running.reach_inv)
  then have "base_inv 1 (rn_program y)" by (simp add: running_inv_def)
  from base_invD(6) [OF this, of "0x100020"] y(5) have "unit_in (rn_heap y) 0x100020" by (simp add: is_published_def)
  then have "enabled 1 True y Sweep_all" using running_fresh [OF inv] y(2,3) by simp
  with that y r show thesis by blast
qed

theorem running_safe_witness:
  "\<exists>y. run_actions POSIX demo_sys 1 True demo_running demo_marking = Some y \<and> running_inv 1 y \<and>
     perform POSIX demo_sys 1 y Sweep_all \<noteq> None \<and> extends (rn_snapshot y) (rn_heap y)"
proof (rule demo_marked)
  fix y assume y: "reach (running_init POSIX demo_sys 1) (running_step POSIX demo_sys 1 True) y" "rn_phase y = Final_mark" "rn_scans y = [Finished]"
    "run_actions POSIX demo_sys 1 True demo_running demo_marking = Some y" "enabled 1 True y Sweep_all"
  note y(5)
  moreover have "rn_phase y \<noteq> Between" using y(2) by simp
  ultimately show ?thesis using running_safe [OF y(1)] y(4) by blast
qed

theorem running_keeps_witness:
  "\<exists>y y'. run_actions POSIX demo_sys 1 True demo_running demo_marking = Some y \<and> perform POSIX demo_sys 1 y Sweep_all = Some y' \<and>
     unit_in (rn_heap y') 0x100020 \<and> unit_in (rn_heap y') 0x104010"
proof (rule demo_marked)
  fix y assume y: "reach (running_init POSIX demo_sys 1) (running_step POSIX demo_sys 1 True) y" "rn_phase y = Final_mark" "rn_scans y = [Finished]"
    "rn_held y = [0x104018, 0x100028]" "m_root_gc_unit_set (rn_gc y) = [0x100020]" "resolve (rn_heap y) 0x104018 = 0x104018"
    "run_actions POSIX demo_sys 1 True demo_running demo_marking = Some y" and en: "enabled 1 True y Sweep_all"
  have "0x100020 \<in> usable y" by (rule usable.root) (simp add: y(5))
  moreover have "0x104010 \<in> usable y" using usable.held [of "0x104018" y] by (simp add: y(4,6) sizeof_UnitHead_def)
  ultimately show ?thesis using running_keeps [OF y(1) en] y(7) by blast
qed

theorem marking_ends_witness:
  "\<exists>y a. run_actions POSIX demo_sys 1 True demo_running demo_cycle = Some y \<and> worker_action a \<and> enabled 1 True y a"
proof -
  obtain y where y: "run_actions POSIX demo_sys 1 True demo_running demo_cycle = Some y" "rn_phase y = Parallel_mark" "rn_scans y = [Waiting]"
    using demo_running_eval(2) by auto
  with marking_ends [where tgt = POSIX and sys = demo_sys and k = 1] run_reach [OF demo_running_reach y(1)] show ?thesis by auto
qed

end
