(* ===== verification/Woomem_Careless.thy ===== *)
theory Woomem_Careless
  imports Woomem_Running_Props
begin

text \<open>
  What the protocol of the sources does not protect: a program that stops marking when it is told to (Step 4 of
  \<open>main_thread_job\<close> clears \<open>woomem_gc_marking_state_flag\<close> and notifies the threads) and goes on writing while the workers do
  the final marking. The theory follows one such run and shows that it loses a unit the program holds.
\<close>

section \<open>States of a cycle, by what differs from its beginning\<close>

text \<open>A worker by its local work, the contents of its queue, whether it drains, and the enqueues that are left.\<close>

definition worker_view :: "nat \<Rightarrow> gc_worker \<Rightarrow> addr list \<times> addr list \<times> bool \<times> nat" where
  "worker_view k w = (m_local_work w, queued k (m_gray_queue w), m_is_draining w, 2 ^ 63 - unat (m_enqueue_pos (m_gray_queue w)))"

record view =
  vw_lives :: "addr \<Rightarrow> unit_life"
  vw_words :: "addr \<Rightarrow> u64"
  vw_workers :: "(addr list \<times> addr list \<times> bool \<times> nat) list"
  vw_scans :: "scan list"
  vw_stores :: "store list"
  vw_held :: "u64 list"
  vw_phase :: phase

text \<open>The heap that differs from \<open>H\<close> by lives and words.\<close>

definition heap_with :: "'os heap \<Rightarrow> view \<Rightarrow> 'os heap" where
  "heap_with H v = upd_mem (\<lambda>_. with_lives (vw_lives v) ((heap_mem H)\<lparr>word_at := vw_words v\<rparr>)) H"

definition shows_view :: "nat \<Rightarrow> 'os heap \<Rightarrow> (addr \<Rightarrow> mark_call list) \<Rightarrow> u8 \<Rightarrow> 'os running \<Rightarrow> view \<Rightarrow> bool" where
  "shows_view k H cb round y v \<longleftrightarrow> rn_heap y = heap_with H v \<and> same_published (lives (heap_mem H)) (vw_lives v) \<and>
     (\<forall>w \<in> set (rn_workers y). quiet k (m_gray_queue w)) \<and> map (worker_view k) (rn_workers y) = vw_workers v \<and>
     rn_scans y = vw_scans v \<and> rn_stores y = vw_stores v \<and> rn_held y = vw_held v \<and> rn_phase y = vw_phase v \<and>
     mark_callback (rn_callback y) = cb \<and> woomem_gc_marking_round_counter (rn_gc y) = round"

definition seen :: "target \<Rightarrow> 'os syscalls \<Rightarrow> nat \<Rightarrow> 'os heap \<Rightarrow> (addr \<Rightarrow> mark_call list) \<Rightarrow> u8 \<Rightarrow> view \<Rightarrow> bool" where
  "seen tgt sys k H cb round v \<longleftrightarrow>
     (\<exists>y. reach (running_init tgt sys k) (running_step tgt sys k False) y \<and> shows_view k H cb round y v)"

lemma seen_step:
  assumes "seen tgt sys k H cb round v"
    and "\<And>y. shows_view k H cb round y v \<Longrightarrow> enabled k False y a \<and> (\<exists>y'. perform tgt sys k y a = Some y' \<and> shows_view k H cb round y' v')"
  shows "seen tgt sys k H cb round v'"
proof -
  obtain y where y: "reach (running_init tgt sys k) (running_step tgt sys k False) y" "shows_view k H cb round y v"
    using assms(1) by (auto simp: seen_def)
  obtain y' where "enabled k False y a" "perform tgt sys k y a = Some y'" "shows_view k H cb round y' v'" using assms(2) [OF y(2)] by blast
  then show ?thesis using reach.reach_step [OF y(1), of y'] by (auto simp: seen_def running_step_def)
qed

lemma with_lives_words: "(with_lives L m)\<lparr>word_at := f\<rparr> = with_lives L (m\<lparr>word_at := f\<rparr>)"
  by (simp add: with_lives_def)

lemma heap_with_simps [simp]:
  "h_chunk (heap_with H v) = (h_chunk H)\<lparr>mem_of := with_lives (vw_lives v) ((heap_mem H)\<lparr>word_at := vw_words v\<rparr>)\<rparr>"
  "heap_mem (heap_with H v) = with_lives (vw_lives v) ((heap_mem H)\<lparr>word_at := vw_words v\<rparr>)"
  "upd_mem (\<lambda>_. m) (heap_with H v) = upd_mem (\<lambda>_. m) H"
  by (simp_all add: heap_with_def upd_mem_def heap_mem_def)

lemma size_words [simp]: "get_unit_available_size u (m\<lparr>word_at := f\<rparr>) = get_unit_available_size u m"
  by (simp add: get_unit_available_size_def Let_def)

lemma validate_words: "woomem_validate_addr x c (m\<lparr>word_at := f\<rparr>) = woomem_validate_addr x c m"
  by (simp add: woomem_validate_addr_def Let_def cong: if_cong)

lemma validate_view:
  assumes "same_published (lives (heap_mem H)) (vw_lives v)"
  shows "woomem_validate_addr x c (with_lives (vw_lives v) ((heap_mem H)\<lparr>word_at := f\<rparr>)) = woomem_validate_addr x c (heap_mem H)"
proof -
  let ?m = "(heap_mem H)\<lparr>word_at := f\<rparr>"
  have "lives ?m = lives (heap_mem H)" by (simp add: lives_def [abs_def])
  then have "same_published (vw_lives v) (lives ?m)" using assms by (simp add: same_published_def)
  from validate_addr_lives [OF this, of x c ?m] show ?thesis by (simp add: validate_words)
qed

lemma view_facts:
  assumes "shows_view k H cb round y v"
  shows "rn_heap y = heap_with H v" "resolve (rn_heap y) x = resolve H x" "word_count (heap_mem (rn_heap y)) u = word_count (heap_mem H) u"
    "has_attrib (unit_at (heap_mem (rn_heap y)) u) b = has_attrib (unit_at (heap_mem H) u) b"
    "rn_scans y = vw_scans v" "rn_stores y = vw_stores v" "rn_held y = vw_held v" "rn_phase y = vw_phase v" "mark_callback (rn_callback y) = cb"
    "length (rn_workers y) = length (vw_workers v)" "map (worker_view k) (rn_workers y) = vw_workers v"
    "j < length (vw_workers v) \<Longrightarrow> quiet k (m_gray_queue (rn_workers y ! j))"
    "j < length (vw_workers v) \<Longrightarrow> worker_view k (rn_workers y ! j) = vw_workers v ! j"
    "woomem_validate_addr x (chunk_of (h_chunk (rn_heap y))) (heap_mem (rn_heap y)) = woomem_validate_addr x (chunk_of (h_chunk H)) (heap_mem H)"
proof -
  have m: "rn_heap y = heap_with H v" "same_published (lives (heap_mem H)) (vw_lives v)" "map (worker_view k) (rn_workers y) = vw_workers v"
    "\<forall>w \<in> set (rn_workers y). quiet k (m_gray_queue w)" using assms by (simp_all add: shows_view_def)
  then show "rn_heap y = heap_with H v" "map (worker_view k) (rn_workers y) = vw_workers v" by simp_all
  show val: "woomem_validate_addr x (chunk_of (h_chunk (rn_heap y))) (heap_mem (rn_heap y)) = woomem_validate_addr x (chunk_of (h_chunk H)) (heap_mem H)" for x
    by (simp add: m(1) validate_view [OF m(2)])
  show "resolve (rn_heap y) x = resolve H x" by (simp only: resolve_def val)
  show "word_count (heap_mem (rn_heap y)) u = word_count (heap_mem H) u" by (simp add: m(1) word_count_def)
  show "has_attrib (unit_at (heap_mem (rn_heap y)) u) b = has_attrib (unit_at (heap_mem H) u) b" by (simp add: m(1))
  show len: "length (rn_workers y) = length (vw_workers v)" using arg_cong [OF m(3), of length] by simp
  show "quiet k (m_gray_queue (rn_workers y ! j))" if "j < length (vw_workers v)" using m(4) that len by simp
  show "worker_view k (rn_workers y ! j) = vw_workers v ! j" if "j < length (vw_workers v)"
    using arg_cong [OF m(3), of "\<lambda>l. l ! j"] that len by simp
qed (use assms in \<open>simp_all add: shows_view_def\<close>)

section \<open>Actions\<close>

text \<open>What the helpers of \<open>perform\<close> change.\<close>

lemma helper_simps [simp]:
  "rn_held (put_worker j mw y) = rn_held y" "rn_stores (put_worker j mw y) = rn_stores y" "rn_phase (put_worker j mw y) = rn_phase y"
  "rn_callback (put_worker j mw y) = rn_callback y" "rn_scans (put_worker j mw y) = rn_scans y"
  "rn_workers (put_worker j mw y) = (rn_workers y)[j := snd mw]" "rn_heap (put_worker j mw y) = upd_mem (\<lambda>_. fst mw) (rn_heap y)"
  "woomem_gc_marking_round_counter (rn_gc (put_worker j mw y)) = woomem_gc_marking_round_counter (rn_gc y)"
  by (simp_all add: put_worker_def)

lemma same_published_upd:
  assumes "same_published L L'" "PENDING < L' u" "PENDING < l"
  shows "same_published L (L'(u := l))"
  using assms by (auto simp: same_published_def)

text \<open>A worker changes, and lives.\<close>

lemma shows_worker:
  assumes s: "shows_view k H cb round y v" and q: "quiet k (m_gray_queue w)" and p: "same_published (lives (heap_mem H)) L"
  shows "shows_view k H cb round (put_scan j c (put_worker j (with_lives L ((heap_mem H)\<lparr>word_at := vw_words v\<rparr>), w) y))
    (v\<lparr>vw_lives := L, vw_workers := (vw_workers v)[j := worker_view k w], vw_scans := (vw_scans v)[j := c]\<rparr>)"
  using s q p set_update_subset_insert [of "rn_workers y" j w] unfolding shows_view_def
  by (auto simp: map_update heap_with_def upd_mem_def)

lemma shows_word:
  assumes s: "shows_view k H cb round y v"
  shows "shows_view k H cb round ((put_word a x y)\<lparr>rn_stores := sts\<rparr>) (v\<lparr>vw_words := (vw_words v)(a := x), vw_stores := sts\<rparr>)"
  using s unfolding shows_view_def
  by (auto simp: put_word_heap(2-11) put_word_def heap_with_def upd_mem_def heap_mem_def with_lives_words)

lemma seen_enter:
  assumes s: "seen tgt sys k H cb round v" and j: "vw_phase v \<noteq> Between" "j < length (vw_scans v)" "j < length (vw_workers v)" "vw_scans v ! j = Waiting"
    and w: "vw_workers v ! j = (l, q, d, n)"
  shows "seen tgt sys k H cb round (v\<lparr>vw_workers := (vw_workers v)[j := (l, q, True, n)], vw_scans := (vw_scans v)[j := Looping]\<rparr>)"
  using s
proof (rule seen_step [where a = "Worker_enter j"])
  fix y assume y: "shows_view k H cb round y v"
  note V = view_facts [OF y]
  let ?w = "(rn_workers y ! j)\<lparr>m_is_draining := True\<rparr>"
  have "worker_view k ?w = (l, q, True, n)" using V(13) [OF j(3)] w by (simp add: worker_view_def)
  with shows_worker [OF y, of ?w "vw_lives v" j Looping] V(12) [OF j(3)] y
  have "shows_view k H cb round (put_scan j Looping (put_worker j (heap_mem (rn_heap y), ?w) y))
      (v\<lparr>vw_workers := (vw_workers v)[j := (l, q, True, n)], vw_scans := (vw_scans v)[j := Looping]\<rparr>)"
    by (simp add: shows_view_def V(1))
  then show "enabled k False y (Worker_enter j) \<and> (\<exists>y'. perform tgt sys k y (Worker_enter j) = Some y' \<and>
      shows_view k H cb round y' (v\<lparr>vw_workers := (vw_workers v)[j := (l, q, True, n)], vw_scans := (vw_scans v)[j := Looping]\<rparr>))"
    using j by (simp add: V(5,8))
qed

text \<open>Taking the next unit, from the queue if there is no local work.\<close>

lemma drained_view:
  assumes q: "quiet k (m_gray_queue w)" and w: "worker_view k w = (l, qs, d, n)" and len: "length qs \<le> 2 ^ k"
  shows "\<exists>w'. (if m_local_work w = [] then drain_queue_into_local k w else Some w) = Some w' \<and> quiet k (m_gray_queue w') \<and>
    worker_view k w' = (if l = [] then (rev qs, [], d, n) else (l, qs, d, n))"
proof (cases "m_local_work w = []")
  case True
  obtain q' where "drain k (2 ^ k) (m_gray_queue w) = Some (take (2 ^ k) (queued k (m_gray_queue w)), q')" "quiet k q'"
      "queued k q' = drop (2 ^ k) (queued k (m_gray_queue w))" "2 ^ 63 - unat (m_enqueue_pos q') = 2 ^ 63 - unat (m_enqueue_pos (m_gray_queue w))"
    using gray.drain_law [OF q, of "2 ^ k"] by auto
  then show ?thesis using True w len by (auto simp: drain_queue_into_local_def worker_view_def)
qed (use assms in \<open>auto simp: worker_view_def\<close>)

lemma seen_finish:
  assumes s: "seen tgt sys k H cb round v" and j: "vw_phase v \<noteq> Between" "j < length (vw_scans v)" "j < length (vw_workers v)" "vw_scans v ! j = Looping"
    and w: "vw_workers v ! j = ([], [], d, n)"
  shows "seen tgt sys k H cb round (v\<lparr>vw_workers := (vw_workers v)[j := ([], [], False, n)], vw_scans := (vw_scans v)[j := Finished]\<rparr>)"
  using s
proof (rule seen_step [where a = "Worker_next j"])
  fix y assume y: "shows_view k H cb round y v"
  note V = view_facts [OF y]
  obtain w1 where w1: "(if m_local_work (rn_workers y ! j) = [] then drain_queue_into_local k (rn_workers y ! j) else Some (rn_workers y ! j)) = Some w1"
      "quiet k (m_gray_queue w1)" "worker_view k w1 = ([], [], d, n)"
    using drained_view [OF V(12) [OF j(3)] V(13) [OF j(3), unfolded w]] by auto
  let ?w = "w1\<lparr>m_is_draining := False\<rparr>"
  have "worker_view k ?w = ([], [], False, n)" using w1(3) by (simp add: worker_view_def)
  with shows_worker [OF y, of ?w "vw_lives v" j Finished] w1(2) y
  have "shows_view k H cb round (put_scan j Finished (put_worker j (heap_mem (rn_heap y), ?w) y))
      (v\<lparr>vw_workers := (vw_workers v)[j := ([], [], False, n)], vw_scans := (vw_scans v)[j := Finished]\<rparr>)"
    by (simp add: shows_view_def V(1))
  moreover have "next_unit k (mark_callback (rn_callback y)) (heap_mem (rn_heap y)) (rn_workers y ! j) = Some (Finished, ?w)"
    unfolding next_unit_def w1(1) using w1(3) by (simp add: worker_view_def)
  ultimately show "enabled k False y (Worker_next j) \<and> (\<exists>y'. perform tgt sys k y (Worker_next j) = Some y' \<and>
      shows_view k H cb round y' (v\<lparr>vw_workers := (vw_workers v)[j := ([], [], False, n)], vw_scans := (vw_scans v)[j := Finished]\<rparr>))"
    using j by (simp add: V(5,8))
qed

definition due_calls :: "'os heap \<Rightarrow> (addr \<Rightarrow> mark_call list) \<Rightarrow> addr \<Rightarrow> mark_call list" where
  "due_calls H cb u = (if has_attrib (unit_at (heap_mem H) u) WOOMEM_ATTRIB_MARK_CALLBACK then cb (u + sizeof_UnitHead) else [])"

definition due_words :: "'os heap \<Rightarrow> addr \<Rightarrow> nat list" where
  "due_words H u = (if has_attrib (unit_at (heap_mem H) u) WOOMEM_ATTRIB_AUTO_MARK then [0..<word_count (heap_mem H) u] else [])"

lemma seen_take:
  assumes s: "seen tgt sys k H cb round v" and j: "vw_phase v \<noteq> Between" "j < length (vw_scans v)" "j < length (vw_workers v)" "vw_scans v ! j = Looping"
    and w: "vw_workers v ! j = (l, qs, d, n)" "length qs \<le> 2 ^ k" "(if l = [] then rev qs else l) = u # rest"
    and u: "vw_lives v u = SELF_MARKED" "get_unit_available_size u (heap_mem H) \<noteq> None"
  shows "seen tgt sys k H cb round (v\<lparr>vw_workers := (vw_workers v)[j := (rest, if l = [] then [] else qs, d, n)],
    vw_scans := (vw_scans v)[j := Scanning u (due_calls H cb u) (due_words H u)]\<rparr>)" (is "seen tgt sys k H cb round ?v")
  using s
proof (rule seen_step [where a = "Worker_next j"])
  fix y assume y: "shows_view k H cb round y v"
  note V = view_facts [OF y]
  obtain w1 where w1: "(if m_local_work (rn_workers y ! j) = [] then drain_queue_into_local k (rn_workers y ! j) else Some (rn_workers y ! j)) = Some w1"
      "quiet k (m_gray_queue w1)" "worker_view k w1 = (if l = [] then (rev qs, [], d, n) else (l, qs, d, n))"
    using drained_view [OF V(12) [OF j(3)] V(13) [OF j(3), unfolded w(1)] w(2)] by auto
  let ?w = "w1\<lparr>m_local_work := rest\<rparr>"
  have lw: "m_local_work w1 = u # rest" "worker_view k ?w = (rest, if l = [] then [] else qs, d, n)"
    using w1(3) w(3) by (auto simp: worker_view_def split: if_splits)
  with shows_worker [OF y, of ?w "vw_lives v" j "Scanning u (due_calls H cb u) (due_words H u)"] w1(2) y
  have "shows_view k H cb round (put_scan j (Scanning u (due_calls H cb u) (due_words H u)) (put_worker j (heap_mem (rn_heap y), ?w) y)) ?v"
    by (simp add: shows_view_def V(1))
  moreover have "next_unit k (mark_callback (rn_callback y)) (heap_mem (rn_heap y)) (rn_workers y ! j) = Some (Scanning u (due_calls H cb u) (due_words H u), ?w)"
    unfolding next_unit_def w1(1) V(9) using u by (auto simp: lw(1) V(1) due_calls_def due_words_def word_count_def)
  ultimately show "enabled k False y (Worker_next j) \<and> (\<exists>y'. perform tgt sys k y (Worker_next j) = Some y' \<and> shows_view k H cb round y' ?v)"
    using j by (simp add: V(5,8))
qed

text \<open>A call whose value points into no unit, or into one that is marked already.\<close>

lemma seen_skip:
  assumes s: "seen tgt sys k H cb round v" and j: "vw_phase v \<noteq> Between" "j < length (vw_scans v)" "j < length (vw_workers v)"
      "vw_scans v ! j = Scanning u (Mark_fuzzy_unit x # xs) is"
    and x: "woomem_validate_addr x (chunk_of (h_chunk H)) (heap_mem H) = Some p" "p = 0 \<or> vw_lives v (p - sizeof_UnitHead) \<noteq> UNMARKED"
  shows "seen tgt sys k H cb round (v\<lparr>vw_scans := (vw_scans v)[j := Scanning u xs is]\<rparr>)"
  using s
proof (rule seen_step [where a = "Worker_mark j"])
  fix y assume y: "shows_view k H cb round y v"
  note V = view_facts [OF y]
  let ?w = "rn_workers y ! j"
  have "mark_call_run k True (chunk_of (h_chunk (rn_heap y))) (Mark_fuzzy_unit x) (heap_mem (rn_heap y), ?w) = Some (heap_mem (rn_heap y), ?w)"
  proof -
    have "woomem_validate_addr x (chunk_of (h_chunk (rn_heap y))) (heap_mem (rn_heap y)) = Some p" unfolding V(14) by (rule x(1))
    moreover have "life_in (rn_heap y) (p - sizeof_UnitHead) = vw_lives v (p - sizeof_UnitHead)" by (simp add: V(1))
    ultimately show ?thesis
      using x(2) by (auto simp: woomem_mark_fuzzy_unit_def woomem_mark_unit_head_def mark_unit_to_gray_def mark_life_def)
  qed
  moreover have "shows_view k H cb round (put_scan j (Scanning u xs is) (put_worker j (heap_mem (rn_heap y), ?w) y))
      (v\<lparr>vw_scans := (vw_scans v)[j := Scanning u xs is]\<rparr>)"
    using shows_worker [OF y, of ?w "vw_lives v" j "Scanning u xs is"] V(12,13) [OF j(3)] y by (simp add: shows_view_def V(1))
  ultimately show "enabled k False y (Worker_mark j) \<and> (\<exists>y'. perform tgt sys k y (Worker_mark j) = Some y' \<and>
      shows_view k H cb round y' (v\<lparr>vw_scans := (vw_scans v)[j := Scanning u xs is]\<rparr>))"
    using j by (simp add: V(5,8))
qed

lemma shows_scan:
  assumes "shows_view k H cb round y v"
  shows "shows_view k H cb round (put_scan j c y) (v\<lparr>vw_scans := (vw_scans v)[j := c]\<rparr>)"
  using assms by (simp add: shows_view_def heap_with_def)

lemma seen_load:
  assumes s: "seen tgt sys k H cb round v" and j: "vw_phase v \<noteq> Between" "j < length (vw_scans v)" "vw_scans v ! j = Scanning u [] (i # is)"
  shows "seen tgt sys k H cb round (v\<lparr>vw_scans := (vw_scans v)[j := Scanning u [Mark_fuzzy_unit (vw_words v (word_addr u i))] is]\<rparr>)"
  using s
proof (rule seen_step [where a = "Worker_load j"])
  fix y assume y: "shows_view k H cb round y v"
  note V = view_facts [OF y]
  show "enabled k False y (Worker_load j) \<and> (\<exists>y'. perform tgt sys k y (Worker_load j) = Some y' \<and>
      shows_view k H cb round y' (v\<lparr>vw_scans := (vw_scans v)[j := Scanning u [Mark_fuzzy_unit (vw_words v (word_addr u i))] is]\<rparr>))"
    using j shows_scan [OF y] by (simp add: V(1,5,8))
qed

text \<open>A unit all of whose words are zero is scanned without a mark.\<close>

lemma seen_zeros:
  assumes "seen tgt sys k H cb round v" and "vw_phase v \<noteq> Between" "j < length (vw_scans v)" "j < length (vw_workers v)"
    and "vw_scans v ! j = Scanning u [] is" and "\<And>i. i \<in> set is \<Longrightarrow> vw_words v (word_addr u i) = 0"
    and "woomem_validate_addr 0 (chunk_of (h_chunk H)) (heap_mem H) = Some 0"
  shows "seen tgt sys k H cb round (v\<lparr>vw_scans := (vw_scans v)[j := Scanning u [] []]\<rparr>)"
  using assms
proof (induction "is" arbitrary: v)
  case Nil
  then have "v\<lparr>vw_scans := (vw_scans v)[j := Scanning u [] []]\<rparr> = v" by (metis list_update_id view.surjective view.update_convs(4))
  with Nil show ?case by simp
next
  case (Cons i "is")
  let ?v1 = "v\<lparr>vw_scans := (vw_scans v)[j := Scanning u [Mark_fuzzy_unit 0] is]\<rparr>"
  have "seen tgt sys k H cb round ?v1" using seen_load [OF Cons.prems(1-3,5)] Cons.prems(6) [of i] by simp
  then have "seen tgt sys k H cb round (?v1\<lparr>vw_scans := (vw_scans ?v1)[j := Scanning u [] is]\<rparr>)"
    by (rule seen_skip [where p = 0]) (use Cons.prems in simp_all)
  then have "seen tgt sys k H cb round (v\<lparr>vw_scans := (vw_scans v)[j := Scanning u [] is]\<rparr>)" by simp
  from Cons.IH [OF this] Cons.prems show ?case by simp
qed

lemma seen_black:
  assumes s: "seen tgt sys k H cb round v" and j: "vw_phase v \<noteq> Between" "j < length (vw_scans v)" "vw_scans v ! j = Scanning u [] []"
    and u: "PENDING < vw_lives v u"
  shows "seen tgt sys k H cb round (v\<lparr>vw_lives := (vw_lives v)(u := FULL_MARKED), vw_scans := (vw_scans v)[j := Looping]\<rparr>)"
  using s
proof (rule seen_step [where a = "Worker_black j"])
  fix y assume y: "shows_view k H cb round y v"
  note V = view_facts [OF y]
  have "same_published (lives (heap_mem H)) ((vw_lives v)(u := FULL_MARKED))"
    using y u by (intro same_published_upd) (simp_all add: shows_view_def)
  then have "shows_view k H cb round (put_scan j Looping (on_program (with_heap (upd_mem (upd_unit u (\<lambda>h. h\<lparr>m_life := FULL_MARKED\<rparr>)))) y))
      (v\<lparr>vw_lives := (vw_lives v)(u := FULL_MARKED), vw_scans := (vw_scans v)[j := Looping]\<rparr>)"
    using y by (simp add: shows_view_def heap_with_def upd_mem_def heap_mem_def)
  then show "enabled k False y (Worker_black j) \<and> (\<exists>y'. perform tgt sys k y (Worker_black j) = Some y' \<and>
      shows_view k H cb round y' (v\<lparr>vw_lives := (vw_lives v)(u := FULL_MARKED), vw_scans := (vw_scans v)[j := Looping]\<rparr>))"
    using j by (simp add: V(5,8))
qed

text \<open>What the program does.\<close>

lemma seen_read_callback:
  assumes s: "seen tgt sys k H cb round v" and p: "p \<in> set (vw_held v)" "resolve H p = u" "u \<noteq> 0"
    and u: "has_attrib (unit_at (heap_mem H) (u - sizeof_UnitHead)) WOOMEM_ATTRIB_MARK_CALLBACK" "cb u = [Mark_fuzzy_unit x]"
  shows "seen tgt sys k H cb round (v\<lparr>vw_held := resolve H x # vw_held v\<rparr>)"
  using s
proof (rule seen_step [where a = "Read_callback p 0"])
  fix y assume y: "shows_view k H cb round y v"
  note V = view_facts [OF y]
  have "shows_view k H cb round (y\<lparr>rn_held := resolve H x # rn_held y\<rparr>) (v\<lparr>vw_held := resolve H x # vw_held v\<rparr>)"
    using y by (simp add: shows_view_def heap_with_def)
  then show "enabled k False y (Read_callback p 0) \<and> (\<exists>y'. perform tgt sys k y (Read_callback p 0) = Some y' \<and>
      shows_view k H cb round y' (v\<lparr>vw_held := resolve H x # vw_held v\<rparr>))"
    using p u by (simp add: V(2,4,7,9) del: heap_with_simps)
qed

lemma view_access:
  assumes "shows_view k H cb round y v" "p \<in> set (vw_held v)" "resolve H p \<noteq> 0" "0 < word_count (heap_mem H) (resolve H p - sizeof_UnitHead)"
  shows "can_access y p 0" "accessed y p 0 = word_addr (resolve H p - sizeof_UnitHead) 0" "known y 0"
    "word_at (heap_mem (rn_heap y)) = vw_words v"
  using assms view_facts [OF assms(1)] by (simp_all add: can_access_def accessed_def known_def)

lemma seen_read:
  assumes s: "seen tgt sys k H cb round v" and p: "p \<in> set (vw_held v)" "resolve H p \<noteq> 0" "0 < word_count (heap_mem H) (resolve H p - sizeof_UnitHead)"
    and u: "has_attrib (unit_at (heap_mem H) (resolve H p - sizeof_UnitHead)) WOOMEM_ATTRIB_AUTO_MARK"
  shows "seen tgt sys k H cb round (v\<lparr>vw_held := vw_words v (word_addr (resolve H p - sizeof_UnitHead) 0) # vw_held v\<rparr>)"
  using s
proof (rule seen_step [where a = "Read p 0"])
  fix y assume y: "shows_view k H cb round y v"
  note V = view_facts [OF y] and A = view_access [OF y p]
  show "enabled k False y (Read p 0) \<and> (\<exists>y'. perform tgt sys k y (Read p 0) = Some y' \<and>
      shows_view k H cb round y' (v\<lparr>vw_held := vw_words v (word_addr (resolve H p - sizeof_UnitHead) 0) # vw_held v\<rparr>))"
    using y u A(1) unfolding enabled.simps perform.simps A(2,4) V(2,4) by (simp add: shows_view_def heap_with_def)
qed

lemma seen_store:
  assumes s: "seen tgt sys k H cb round v" and p: "p \<in> set (vw_held v)" "resolve H p \<noteq> 0" "0 < word_count (heap_mem H) (resolve H p - sizeof_UnitHead)"
    and ph: "vw_phase v = Final_mark"
  shows "seen tgt sys k H cb round (v\<lparr>vw_words := (vw_words v)(word_addr (resolve H p - sizeof_UnitHead) 0 := 0)\<rparr>)"
  using s
proof (rule seen_step [where a = "Store p 0 0"])
  fix y assume y: "shows_view k H cb round y v"
  note V = view_facts [OF y] and A = view_access [OF y p]
  have e: "(put_word a x y)\<lparr>rn_stores := rn_stores y\<rparr> = put_word a x y" for a x by (simp add: put_word_def on_program_def)
  show "enabled k False y (Store p 0 0) \<and> (\<exists>y'. perform tgt sys k y (Store p 0 0) = Some y' \<and>
      shows_view k H cb round y' (v\<lparr>vw_words := (vw_words v)(word_addr (resolve H p - sizeof_UnitHead) 0 := 0)\<rparr>))"
    using shows_word [OF y, where a = "accessed y p 0" and x = 0 and sts = "rn_stores y", unfolded e] A ph by (simp add: V(6,8))
qed

lemma seen_store_load:
  assumes s: "seen tgt sys k H cb round v" and p: "p \<in> set (vw_held v)" "resolve H p \<noteq> 0" "0 < word_count (heap_mem H) (resolve H p - sizeof_UnitHead)"
    and ph: "vw_phase v = Parallel_mark" "wk < length (vw_workers v)"
  shows "seen tgt sys k H cb round (v\<lparr>vw_stores := Loaded wk (word_addr (resolve H p - sizeof_UnitHead) 0)
    (vw_words v (word_addr (resolve H p - sizeof_UnitHead) 0)) 0 # vw_stores v\<rparr>)"
  using s
proof (rule seen_step [where a = "Store_load wk p 0 0"])
  fix y assume y: "shows_view k H cb round y v"
  note V = view_facts [OF y] and A = view_access [OF y p]
  show "enabled k False y (Store_load wk p 0 0) \<and> (\<exists>y'. perform tgt sys k y (Store_load wk p 0 0) = Some y' \<and>
      shows_view k H cb round y' (v\<lparr>vw_stores := Loaded wk (word_addr (resolve H p - sizeof_UnitHead) 0)
        (vw_words v (word_addr (resolve H p - sizeof_UnitHead) 0)) 0 # vw_stores v\<rparr>))"
    using y ph A(1,3) unfolding enabled.simps perform.simps A(2,4) by (simp add: V(8,10)) (simp add: shows_view_def heap_with_def)
qed

text \<open>The barrier: the unit becomes gray and goes into the queue of the worker.\<close>

lemma seen_store_mark:
  assumes s: "seen tgt sys k H cb round v" and st: "vw_stores v = [Loaded wk a x z]" and wk: "wk < length (vw_workers v)" "vw_workers v ! wk = (l, [], d, n)" "0 < n"
    and x: "woomem_validate_addr x (chunk_of (h_chunk H)) (heap_mem H) = Some p" "p \<noteq> 0" "vw_lives v (p - sizeof_UnitHead) = UNMARKED"
  shows "seen tgt sys k H cb round (v\<lparr>vw_lives := (vw_lives v)(p - sizeof_UnitHead := SELF_MARKED),
    vw_workers := (vw_workers v)[wk := (l, [p - sizeof_UnitHead], d, n - 1)], vw_stores := [Marked a z]\<rparr>)" (is "seen tgt sys k H cb round ?v")
  using s
proof (rule seen_step [where a = "Store_mark 0"])
  fix y assume y: "shows_view k H cb round y v"
  note V = view_facts [OF y]
  let ?w = "rn_workers y ! wk" and ?u = "p - sizeof_UnitHead" and ?L = "(vw_lives v)(p - sizeof_UnitHead := SELF_MARKED)"
  have vw: "m_local_work ?w = l" "queued k (m_gray_queue ?w) = []" "m_is_draining ?w = d" "2 ^ 63 - unat (m_enqueue_pos (m_gray_queue ?w)) = n"
    using V(13) [OF wk(1)] wk(2) by (simp_all add: worker_view_def)
  obtain q' where q': "try_enqueue k ?u (m_gray_queue ?w) = Some (True, q')" "quiet k q'" "queued k q' = [?u]" "2 ^ 63 - unat (m_enqueue_pos q') = n - 1"
    using gray.enq_room [OF V(12) [OF wk(1)], of ?u] vw wk(3) by auto
  have va: "woomem_validate_addr x (chunk_of (h_chunk (rn_heap y))) (heap_mem (rn_heap y)) = Some p" unfolding V(14) by (rule x(1))
  have "woomem_mark_fuzzy_unit k False (chunk_of (h_chunk (rn_heap y))) x (heap_mem (rn_heap y), ?w) =
      Some (with_lives ?L ((heap_mem H)\<lparr>word_at := vw_words v\<rparr>), ?w\<lparr>m_gray_queue := q'\<rparr>)"
  proof -
    have l: "life_in (rn_heap y) ?u = UNMARKED" using x(3) by (simp add: V(1))
    have "upd_unit ?u (\<lambda>h. h\<lparr>m_life := SELF_MARKED\<rparr>) (heap_mem (rn_heap y)) = with_lives ?L ((heap_mem H)\<lparr>word_at := vw_words v\<rparr>)" by (simp add: V(1))
    with l show ?thesis using x(2) by (simp add: woomem_mark_fuzzy_unit_def va woomem_mark_unit_head_def mark_unit_to_gray_def mark_life_def q'(1) del: heap_with_simps)
  qed
  moreover have "same_published (lives (heap_mem H)) ?L" using y x(3) by (intro same_published_upd) (simp_all add: shows_view_def)
  then have "shows_view k H cb round ((put_worker wk (with_lives ?L ((heap_mem H)\<lparr>word_at := vw_words v\<rparr>), ?w\<lparr>m_gray_queue := q'\<rparr>) y)\<lparr>rn_stores := [Marked a z]\<rparr>) ?v"
    using y q'(2-4) vw set_update_subset_insert [of "rn_workers y" wk "?w\<lparr>m_gray_queue := q'\<rparr>"] unfolding shows_view_def
    by (auto simp: map_update heap_with_def upd_mem_def worker_view_def)
  moreover have "m_enqueue_pos (m_gray_queue ?w) < 0x8000000000000000" using vw(4) wk(3) by (simp add: word_less_nat_alt)
  ultimately show "enabled k False y (Store_mark 0) \<and> (\<exists>y'. perform tgt sys k y (Store_mark 0) = Some y' \<and> shows_view k H cb round y' ?v)"
    using vw(2) by (simp add: V(6) st must_wait_def Let_def del: heap_with_simps)
qed

lemma seen_store_write:
  assumes s: "seen tgt sys k H cb round v" and st: "vw_stores v = [Marked a z]"
  shows "seen tgt sys k H cb round (v\<lparr>vw_words := (vw_words v)(a := z), vw_stores := []\<rparr>)"
  using s
proof (rule seen_step [where a = "Store_write 0"])
  fix y assume y: "shows_view k H cb round y v"
  note V = view_facts [OF y]
  show "enabled k False y (Store_write 0) \<and> (\<exists>y'. perform tgt sys k y (Store_write 0) = Some y' \<and>
      shows_view k H cb round y' (v\<lparr>vw_words := (vw_words v)(a := z), vw_stores := []\<rparr>))"
    using shows_word [OF y, where a = a and x = z and sts = "[]"] by (simp add: V(6) st drop_nth_def)
qed

lemma seen_stop:
  assumes s: "seen tgt sys k H cb round v" and v: "vw_phase v = Parallel_mark" "\<forall>c \<in> set (vw_scans v). c = Finished" "vw_stores v = []"
  shows "seen tgt sys k H cb round (v\<lparr>vw_phase := Final_mark, vw_scans := replicate (length (vw_workers v)) Waiting\<rparr>)"
  using s
proof (rule seen_step [where a = Stop_marking])
  fix y assume y: "shows_view k H cb round y v"
  note V = view_facts [OF y]
  show "enabled k False y Stop_marking \<and> (\<exists>y'. perform tgt sys k y Stop_marking = Some y' \<and>
      shows_view k H cb round y' (v\<lparr>vw_phase := Final_mark, vw_scans := replicate (length (vw_workers v)) Waiting\<rparr>))"
    using v y by (simp add: V(5,6,8,10)) (simp add: shows_view_def heap_with_def)
qed

text \<open>The sweep frees what is not kept.\<close>

lemma view_swept:
  assumes y: "shows_view k H cb round y v" and o: "ordered Q H C" and ne: "m_all_page_list H \<noteq> 0"
    and l: "\<And>u. vw_lives v u = RELEASED \<longleftrightarrow> lives (heap_mem H) u = RELEASED" "\<And>u. unit_in H u \<Longrightarrow> vw_lives v u \<noteq> SELF_MARKED"
    and w: "vw_workers v \<noteq> []" "length (vw_workers v) < 2 ^ 64" "\<forall>(a, b, d) \<in> set (vw_workers v). a = [] \<and> b = []"
    and f: "vw_phase v = Final_mark" "\<forall>c \<in> set (vw_scans v). c = Finished"
    and u: "\<not> kept round ((unit_at (heap_mem H) u)\<lparr>m_life := vw_lives v u\<rparr>)"
  shows "enabled k False y Sweep_all" "\<exists>y'. perform tgt sys k y Sweep_all = Some y' \<and> rn_held y' = vw_held v \<and> \<not> unit_in (rn_heap y') u"
proof -
  note V = view_facts [OF y]
  have "m_all_page_list (rn_heap y) \<noteq> 0" using ne by (simp add: V(1) heap_with_def)
  then have r: "sweep_lists_fresh (rn_gc y) (rn_heap y)" by (simp add: sweep_lists_fresh_def)
  then show "enabled k False y Sweep_all" using f by (simp add: V(5,8))
  let ?h = "upd_mem (\<lambda>m. m\<lparr>word_at := vw_words v\<rparr>) H"
  have hw: "rn_heap y = upd_mem (\<lambda>_. with_lives (vw_lives v) (heap_mem ?h)) ?h" by (simp add: V(1) heap_with_def upd_mem_def heap_mem_def)
  have li: "vw_lives v x = RELEASED \<longleftrightarrow> lives (heap_mem ?h) x = RELEASED" for x using l(1) by (simp add: lives_def)
  have o1: "ordered Q ?h C" using o by (rule written_units(1))
  have any: "ordered any_life (rn_heap y) C" unfolding hw by (rule ordered_lives(1) [OF o1 li]) simp_all
  have ui: "unit_in (rn_heap y) x = unit_in H x" for x unfolding hw lives_unit_in [OF li] by (rule written_units(2))
  have "life_in (rn_heap y) x = vw_lives v x" for x by (simp add: V(1))
  then have t: "tidy (rn_heap y) C" by (intro ordered_strengthen [OF any]) (use l(2) in \<open>simp_all add: ui\<close>)
  have "worker_work k x = []" if "x \<in> set (rn_workers y)" for x
  proof -
    have "worker_view k x \<in> set (vw_workers v)" using that V(11) by (metis image_eqI set_map)
    with w(3) show ?thesis by (auto simp: worker_view_def worker_work_def)
  qed
  then have "gc_idle k (rn_gc y)" using w(1,2) V(10) y by (auto simp: gc_idle_def shows_view_def)
  from sweep_spec [OF t r this] obtain g' h' fr where s: "gc_sweep_cycle (rn_gc y) (rn_heap y) = Some (g', h', fr)"
      "\<forall>x. unit_in h' x \<longleftrightarrow> unit_in (rn_heap y) x \<and> kept (woomem_gc_marking_round_counter (rn_gc y)) (unit_at (heap_mem (rn_heap y)) x)"
    by blast
  have "unit_at (heap_mem (rn_heap y)) u = (unit_at (heap_mem H) u)\<lparr>m_life := vw_lives v u\<rparr>" by (simp add: V(1) with_lives_def)
  moreover have "woomem_gc_marking_round_counter (rn_gc y) = round" using y by (simp add: shows_view_def)
  ultimately have "\<not> unit_in h' u" using s(2) u by auto
  with s(1) V(7) show "\<exists>y'. perform tgt sys k y Sweep_all = Some y' \<and> rn_held y' = vw_held v \<and> \<not> unit_in (rn_heap y') u"
    by (auto simp del: heap_with_simps)
qed

section \<open>A run that loses a unit\<close>

text \<open>
  Three published units: \<open>r\<close>, which the program holds and whose callback marks \<open>u\<close>; \<open>u\<close>, whose only non-null word points to \<open>w\<close>;
  and \<open>w\<close>. Worker 0 has nothing to do and is done at once. The program follows \<open>r\<close> to \<open>u\<close> and overwrites a reference to \<open>u\<close>: the
  barrier marks \<open>u\<close> into the queue of worker 0. Worker 1 scans \<open>r\<close> and finds \<open>u\<close> marked. Parallel marking ends with \<open>u\<close> gray.
  Now the program reads \<open>w\<close> from \<open>u\<close> and clears the word, without a barrier, since marking is over; the final marking scans
  \<open>u\<close> and finds nothing.
\<close>

lemma lost_run:
  fixes H :: "'os heap" and n :: nat
  assumes hr: "resolve H r = R + sizeof_UnitHead" "resolve H u = U + sizeof_UnitHead" and nz: "R + sizeof_UnitHead \<noteq> 0" "U + sizeof_UnitHead \<noteq> 0"
    and pu: "u = U + sizeof_UnitHead" and ne: "R \<noteq> U"
    and vr: "woomem_validate_addr u (chunk_of (h_chunk H)) (heap_mem H) = Some u" "woomem_validate_addr 0 (chunk_of (h_chunk H)) (heap_mem H) = Some 0"
    and at: "has_attrib (unit_at (heap_mem H) R) WOOMEM_ATTRIB_MARK_CALLBACK" "\<not> has_attrib (unit_at (heap_mem H) R) WOOMEM_ATTRIB_AUTO_MARK"
      "has_attrib (unit_at (heap_mem H) U) WOOMEM_ATTRIB_AUTO_MARK" "\<not> has_attrib (unit_at (heap_mem H) U) WOOMEM_ATTRIB_MARK_CALLBACK"
    and sz: "get_unit_available_size R (heap_mem H) \<noteq> None" "get_unit_available_size U (heap_mem H) \<noteq> None"
      "0 < word_count (heap_mem H) R" "0 < word_count (heap_mem H) U"
    and ws: "f (word_addr R 0) = u" "f (word_addr U 0) = w" "word_addr R 0 \<noteq> word_addr U 0"
      "\<And>i. 0 < i \<Longrightarrow> i < word_count (heap_mem H) U \<Longrightarrow> f (word_addr U i) = 0"
    and cb: "cb (R + sizeof_UnitHead) = [Mark_fuzzy_unit u]" and lu: "L U = UNMARKED" "L R = SELF_MARKED" and n: "0 < n"
    and start: "seen tgt sys k H cb round \<lparr>vw_lives = L, vw_words = f, vw_workers = [([], [], False, n), ([R], [], False, n)],
      vw_scans = [Waiting, Waiting], vw_stores = [], vw_held = [r], vw_phase = Parallel_mark\<rparr>"
  shows "\<exists>g. seen tgt sys k H cb round \<lparr>vw_lives = L(R := FULL_MARKED, U := FULL_MARKED), vw_words = g, vw_workers = [([], [], False, n - 1), ([], [], False, n)],
    vw_scans = [Finished, Finished], vw_stores = [], vw_held = [w, u, r], vw_phase = Final_mark\<rparr>"
proof -
  let ?S = "\<lambda>L f ws sc st vs ph. seen tgt sys k H cb round \<lparr>vw_lives = L, vw_words = f, vw_workers = ws, vw_scans = sc, vw_stores = st, vw_held = vs, vw_phase = ph\<rparr>"
  let ?L1 = "L(U := SELF_MARKED)" and ?f1 = "f(word_addr R 0 := 0)"
  let ?L2 = "?L1(R := FULL_MARKED)" and ?f2 = "?f1(word_addr U 0 := 0)"
  have z: "vw_words \<lparr>vw_lives = a, vw_words = ?f2, vw_workers = b, vw_scans = c, vw_stores = d, vw_held = e, vw_phase = p\<rparr> (word_addr U i) = 0"
    if "i \<in> set [0..<word_count (heap_mem H) U]" for i a b c d e p using ws(4) [of i] that by (cases "i = 0") simp_all
  have "?S L f [([], [], True, n), ([R], [], False, n)] [Looping, Waiting] [] [r] Parallel_mark"
    using seen_enter [OF start, of 0 "[]" "[]" False n] by simp
  then have "?S L f [([], [], False, n), ([R], [], False, n)] [Finished, Waiting] [] [r] Parallel_mark"
    using seen_finish [of tgt sys k H cb round _ 0 True n] by fastforce
  from seen_read_callback [OF this, of r _ u] hr nz(1) cb at(1)
  have "?S L f [([], [], False, n), ([R], [], False, n)] [Finished, Waiting] [] [u, r] Parallel_mark" by (simp add: pu)
  from seen_store_load [OF this, of r 0] hr(1) nz(1) sz(3) ws(1)
  have "?S L f [([], [], False, n), ([R], [], False, n)] [Finished, Waiting] [Loaded 0 (word_addr R 0) u 0] [u, r] Parallel_mark" by simp
  from seen_store_mark [OF this, of 0 "word_addr R 0" u 0 "[]" False n u] vr(1) lu(1) n nz(2)
  have "?S ?L1 f [([], [U], False, n - 1), ([R], [], False, n)] [Finished, Waiting] [Marked (word_addr R 0) 0] [u, r] Parallel_mark" by (simp add: pu)
  from seen_store_write [OF this, of "word_addr R 0" 0]
  have "?S ?L1 ?f1 [([], [U], False, n - 1), ([R], [], False, n)] [Finished, Waiting] [] [u, r] Parallel_mark" by simp
  from seen_enter [OF this, of 1 "[R]" "[]" False n]
  have "?S ?L1 ?f1 [([], [U], False, n - 1), ([R], [], True, n)] [Finished, Looping] [] [u, r] Parallel_mark" by simp
  from seen_take [OF this, of 1 "[R]" "[]" True n R "[]"] lu(2) sz(1) ne at(1,2) cb
  have "?S ?L1 ?f1 [([], [U], False, n - 1), ([], [], True, n)] [Finished, Scanning R [Mark_fuzzy_unit u] []] [] [u, r] Parallel_mark"
    by (simp add: due_calls_def due_words_def)
  from seen_skip [OF this, of 1 R u "[]" "[]" u] vr(1)
  have "?S ?L1 ?f1 [([], [U], False, n - 1), ([], [], True, n)] [Finished, Scanning R [] []] [] [u, r] Parallel_mark" by (simp add: pu)
  from seen_black [OF this, of 1 R] lu(2) ne
  have "?S ?L2 ?f1 [([], [U], False, n - 1), ([], [], True, n)] [Finished, Looping] [] [u, r] Parallel_mark" by simp
  from seen_finish [OF this, of 1 True n]
  have "?S ?L2 ?f1 [([], [U], False, n - 1), ([], [], False, n)] [Finished, Finished] [] [u, r] Parallel_mark" by simp
  from seen_stop [OF this]
  have "?S ?L2 ?f1 [([], [U], False, n - 1), ([], [], False, n)] [Waiting, Waiting] [] [u, r] Final_mark" by (simp add: numeral_2_eq_2)
  from seen_read [OF this, of u] hr(2) nz(2) sz(4) at(3) ws(2,3)
  have "?S ?L2 ?f1 [([], [U], False, n - 1), ([], [], False, n)] [Waiting, Waiting] [] [w, u, r] Final_mark" by simp
  from seen_store [OF this, of u] hr(2) nz(2) sz(4)
  have "?S ?L2 ?f2 [([], [U], False, n - 1), ([], [], False, n)] [Waiting, Waiting] [] [w, u, r] Final_mark" by simp
  from seen_enter [OF this, of 0 "[]" "[U]" False "n - 1"]
  have "?S ?L2 ?f2 [([], [U], True, n - 1), ([], [], False, n)] [Looping, Waiting] [] [w, u, r] Final_mark" by simp
  from seen_take [OF this, of 0 "[]" "[U]" True "n - 1" U "[]"] sz(2) ne at(3,4)
  have "?S ?L2 ?f2 [([], [], True, n - 1), ([], [], False, n)] [Scanning U [] [0..<word_count (heap_mem H) U], Waiting] [] [w, u, r] Final_mark"
    by (simp add: due_calls_def due_words_def)
  from seen_zeros [OF this _ _ _ _ z vr(2), of 0]
  have "?S ?L2 ?f2 [([], [], True, n - 1), ([], [], False, n)] [Scanning U [] [], Waiting] [] [w, u, r] Final_mark" by simp
  from seen_black [OF this, of 0 U] ne
  have "?S (?L2(U := FULL_MARKED)) ?f2 [([], [], True, n - 1), ([], [], False, n)] [Looping, Waiting] [] [w, u, r] Final_mark" by simp
  from seen_finish [OF this, of 0 True "n - 1"]
  have "?S (?L2(U := FULL_MARKED)) ?f2 [([], [], False, n - 1), ([], [], False, n)] [Finished, Waiting] [] [w, u, r] Final_mark" by simp
  from seen_enter [OF this, of 1 "[]" "[]" False n]
  have "?S (?L2(U := FULL_MARKED)) ?f2 [([], [], False, n - 1), ([], [], True, n)] [Finished, Looping] [] [w, u, r] Final_mark" by simp
  from seen_finish [OF this, of 1 True n]
  have "?S (?L2(U := FULL_MARKED)) ?f2 [([], [], False, n - 1), ([], [], False, n)] [Finished, Finished] [] [w, u, r] Final_mark" by simp
  moreover have "?L2(U := FULL_MARKED) = L(R := FULL_MARKED, U := FULL_MARKED)" using ne by (simp add: fun_eq_iff)
  ultimately show ?thesis by auto
qed

section \<open>The run from the start of the library\<close>

text \<open>Two workers; three units of 16360 bytes have been begun.\<close>

definition demo_two :: "addr list program" where
  "demo_two = \<lparr>pr_library = snd (the (woomem_init POSIX demo_sys True 16 (\<lambda>_. (demo_raw, 0)) 100000 demo_woomem)),
     pr_new_allocated = 0, pr_pending = []\<rparr>"

definition demo_pair :: "addr list running" where
  "demo_pair = \<lparr>rn_program = demo_two, rn_held = [], rn_stores = [], rn_phase = Between, rn_scans = [], rn_callback = [],
     rn_snapshot = pr_heap demo_two, rn_roots = []\<rparr>"

definition demo_begins :: "action list" where
  "demo_begins = replicate 3 (Allocate_begin 0 16000)"

lemma demo_pair_eval:
  "map_option fst (woomem_init POSIX demo_sys True 16 (\<lambda>_. (demo_raw, 0)) 100000 demo_woomem) = Some True"
  "map_option (\<lambda>y. (rn_phase y, rn_held y, pr_pending (rn_program y), m_all_page_list (rn_heap y) = 0, m_root_gc_unit_set (rn_gc y),
      m_gc_assigned_thread_idx (rn_gc y), woomem_gc_marking_round_counter (rn_gc y),
      map (\<lambda>w. (m_local_work w, m_is_draining w, m_enqueue_pos (m_gray_queue w))) (rn_workers y),
      map (\<lambda>u. get_unit_available_size u (heap_mem (rn_heap y))) [0x100020, 0x104010, 0x108020], word_at (heap_mem (rn_heap y)) x))
     (run_actions POSIX demo_sys 1 True demo_pair demo_begins) =
   Some (Between, [], [0x108028, 0x104018, 0x100028], False, [], 1, 3, [([], False, 0), ([], False, 0)], [Some 16360, Some 16360, Some 16360], 0)"
  by code_simp+

lemma reach_careless:
  assumes "reach (running_init tgt sys k) (running_step tgt sys k True) y"
  shows "reach (running_init tgt sys k) (running_step tgt sys k False) y"
proof -
  have "enabled k False y a" if "enabled k True y a" for y :: "'a running" and a using that by (cases a) auto
  then have c: "running_step tgt sys k False y z" if "running_step tgt sys k True y z" for y z using that unfolding running_step_def by blast
  from assms show ?thesis by (induction rule: reach.induct) (blast intro: reach.intros c)+
qed

text \<open>The units are filled and published: \<open>0x100028\<close> is \<open>r\<close>, \<open>0x108028\<close> is \<open>u\<close>, \<open>0x104018\<close> is \<open>w\<close>. The program keeps \<open>r\<close>.\<close>

definition demo_publish :: "action list" where
  "demo_publish = [Allocate_end 0x104018 1, Fill 0x108028 0 0x104018, Allocate_end 0x108028 3, Fill 0x100028 0 0x108028,
     Allocate_end 0x100028 5, Forget 0x104018, Forget 0x108028]"

definition demo_memory :: "mem \<Rightarrow> mem" where
  "demo_memory m = woomem_allocate_end 3 0x100028 5 (woomem_allocate_end 3 0x108028 3 (woomem_allocate_end 3 0x104018 1
     (m\<lparr>word_at := (word_at m)(0x108028 := 0x104018, 0x100028 := 0x108028)\<rparr>)))"

lemma size_publish [simp]: "get_unit_available_size u (woomem_allocate_end round a attrib m) = get_unit_available_size u m"
  by (simp add: woomem_allocate_end_def get_unit_available_size_def upd_unit_def Let_def)

lemma demo_memory_simps:
  "page_at (demo_memory m) = page_at m" "alloc_at (demo_memory m) = alloc_at m"
  "word_at (demo_memory m) = (word_at m)(0x108028 := 0x104018, 0x100028 := 0x108028)"
  "get_unit_available_size u (demo_memory m) = get_unit_available_size u m"
  "unit_at (demo_memory m) 0x100020 = (unit_at m 0x100020)\<lparr>m_age := 15, m_timing := 3, m_attribute := 5, m_life := UNMARKED\<rparr>"
  "unit_at (demo_memory m) 0x108020 = (unit_at m 0x108020)\<lparr>m_age := 15, m_timing := 3, m_attribute := 3, m_life := UNMARKED\<rparr>"
  "unit_at (demo_memory m) 0x104010 = (unit_at m 0x104010)\<lparr>m_age := 15, m_timing := 3, m_attribute := 1, m_life := UNMARKED\<rparr>"
  "u \<notin> {0x100020, 0x104010, 0x108020} \<Longrightarrow> unit_at (demo_memory m) u = unit_at m u"
  by (simp_all add: demo_memory_def) (simp_all add: woomem_allocate_end_def upd_unit_def sizeof_UnitHead_def)

lemma demo_published_run:
  assumes "rn_phase y = Between" "rn_held y = []" "pr_pending (rn_program y) = [0x108028, 0x104018, 0x100028]"
    and "woomem_gc_marking_round_counter (rn_gc y) = 3"
    and "get_unit_available_size 0x100020 (heap_mem (rn_heap y)) = Some 16360" "get_unit_available_size 0x108020 (heap_mem (rn_heap y)) = Some 16360"
  shows "\<exists>z. run_actions tgt sys k True y demo_publish = Some z \<and> rn_phase z = Between \<and> rn_held z = [0x100028] \<and> rn_gc z = rn_gc y \<and>
    rn_heap z = upd_mem (\<lambda>_. demo_memory (heap_mem (rn_heap y))) (rn_heap y)"
  using assms by (simp add: demo_publish_def initialised_def put_word_def word_count_def word_addr_def sizeof_UnitHead_def unat_div)
    (simp add: demo_memory_def upd_mem_def heap_mem_def woomem_allocate_end_def upd_unit_def sizeof_UnitHead_def fun_upd_twist)

text \<open>What holds when the cycle begins.\<close>

lemma unit_in_same:
  assumes "page_at m = page_at (heap_mem h)" "alloc_at m = alloc_at (heap_mem h)" "\<And>u. m_life (unit_at m u) = RELEASED \<longleftrightarrow> life_in h u = RELEASED"
  shows "unit_in (upd_mem (\<lambda>_. m) h) u = unit_in h u"
proof -
  have "page_group m p = page_group (heap_mem h) p" for p by (simp add: page_group_def assms(2))
  then have "unit_of_page m p u = unit_of_page (heap_mem h) p u" for p
    using assms by (simp add: unit_of_page_def page_is_cut_def page_live_def live_units_def unit_life_of_def)
  then show ?thesis by (simp add: unit_in_def)
qed

lemma demo_ready:
  obtains z where "reach (running_init POSIX demo_sys 1) (running_step POSIX demo_sys 1 True) z" "rn_phase z = Between" "rn_held z = [0x100028]"
    "m_all_page_list (rn_heap z) \<noteq> 0" "m_root_gc_unit_set (rn_gc z) = []" "m_gc_assigned_thread_idx (rn_gc z) = 1" "woomem_gc_marking_round_counter (rn_gc z) = 3"
    "map (\<lambda>w. (m_local_work w, m_is_draining w, m_enqueue_pos (m_gray_queue w))) (rn_workers z) = [([], False, 0), ([], False, 0)]"
    "get_unit_available_size 0x100020 (heap_mem (rn_heap z)) = Some 16360" "get_unit_available_size 0x108020 (heap_mem (rn_heap z)) = Some 16360"
    "word_at (heap_mem (rn_heap z)) = (\<lambda>_. 0)(0x108028 := 0x104018, 0x100028 := 0x108028)"
    "\<And>u. u \<in> {0x100020, 0x104010, 0x108020} \<Longrightarrow> is_published (rn_heap z) u \<and> life_in (rn_heap z) u = UNMARKED \<and> m_timing (unit_at (heap_mem (rn_heap z)) u) = 3"
    "m_attribute (unit_at (heap_mem (rn_heap z)) 0x100020) = 5" "m_attribute (unit_at (heap_mem (rn_heap z)) 0x104010) = 1"
    "m_attribute (unit_at (heap_mem (rn_heap z)) 0x108020) = 3"
proof -
  obtain y where y: "run_actions POSIX demo_sys 1 True demo_pair demo_begins = Some y" using demo_pair_eval(2) by auto
  note E = demo_pair_eval(2) [unfolded y, simplified]
  have "woomem_init POSIX demo_sys True 16 (\<lambda>_. (demo_raw, 0)) 100000 demo_woomem = Some (True, pr_library demo_two)"
    using demo_pair_eval(1) by (auto simp: demo_two_def)
  from demo_program_init [OF this] have "running_init POSIX demo_sys 1 demo_pair" by (simp add: running_init_def demo_pair_def demo_two_def)
  then have "reach (running_init POSIX demo_sys 1) (running_step POSIX demo_sys 1 True) demo_pair" by (rule reach.reach_init)
  then have ry: "reach (running_init POSIX demo_sys 1) (running_step POSIX demo_sys 1 True) y" using y by (rule run_reach)
  have f: "rn_phase y = Between" "rn_held y = []" "pr_pending (rn_program y) = [0x108028, 0x104018, 0x100028]" "woomem_gc_marking_round_counter (rn_gc y) = 3"
    "get_unit_available_size 0x100020 (heap_mem (rn_heap y)) = Some 16360" "get_unit_available_size 0x108020 (heap_mem (rn_heap y)) = Some 16360"
    using E by auto
  obtain z where z: "run_actions POSIX demo_sys 1 True y demo_publish = Some z" "rn_phase z = Between" "rn_held z = [0x100028]" "rn_gc z = rn_gc y"
      "rn_heap z = upd_mem (\<lambda>_. demo_memory (heap_mem (rn_heap y))) (rn_heap y)"
    using demo_published_run [OF f, of POSIX demo_sys 1] by auto
  have "running_inv 1 y" using ry by (rule running.reach_inv)
  then have "pending_unit (rn_heap y) a" if "a \<in> {0x100028, 0x104018, 0x108028}" for a
    using base_invD(7) [of 1 "rn_program y" a] that f(3) by (auto simp: running_inv_def)
  from this [of "0x100028"] this [of "0x104018"] this [of "0x108028"]
  have pu: "unit_in (rn_heap y) u \<and> life_in (rn_heap y) u = PENDING" if "u \<in> {0x100020, 0x104010, 0x108020}" for u
    using that by (auto simp: pending_unit_def sizeof_UnitHead_def)
  have hm: "heap_mem (rn_heap z) = demo_memory (heap_mem (rn_heap y))" by (simp add: z(5))
  have "unit_in (rn_heap z) u = unit_in (rn_heap y) u" for u
    unfolding z(5)
  proof (rule unit_in_same)
    show "m_life (unit_at (demo_memory (heap_mem (rn_heap y))) v) = RELEASED \<longleftrightarrow> life_in (rn_heap y) v = RELEASED" for v
      using pu [of v] demo_memory_simps(8) [of v] by (cases "v \<in> {0x100020, 0x104010, 0x108020}") (auto simp: demo_memory_simps(5-7))
  qed (simp_all add: demo_memory_simps)
  then have "is_published (rn_heap z) u \<and> life_in (rn_heap z) u = UNMARKED \<and> m_timing (unit_at (heap_mem (rn_heap z)) u) = 3" if "u \<in> {0x100020, 0x104010, 0x108020}" for u
    using pu [OF that] that by (auto simp: is_published_def hm demo_memory_simps(5-7))
  moreover have "word_at (heap_mem (rn_heap y)) = (\<lambda>_. 0)" using demo_pair_eval(2) y by (auto simp: fun_eq_iff)
  ultimately show thesis using that [OF run_reach [OF ry z(1)] z(2,3)] E z(4) f by (simp add: hm z(5) demo_memory_simps)
qed

lemma demo_begin_view:
  assumes inv: "running_inv k z" and re: "reach (running_init tgt sys k) (running_step tgt sys k False) z"
    and f: "rn_phase z = Between" "rn_held z = [r]" "m_all_page_list (rn_heap z) \<noteq> 0" "m_root_gc_unit_set (rn_gc z) = []" "m_gc_assigned_thread_idx (rn_gc z) = 1"
    and ws: "map (\<lambda>w. (m_local_work w, m_is_draining w, m_enqueue_pos (m_gray_queue w))) (rn_workers z) = [([], False, 0), ([], False, 0)]"
    and r: "woomem_validate_addr r (chunk_of (h_chunk (rn_heap z))) (heap_mem (rn_heap z)) = Some r" "r \<noteq> 0" "life_in (rn_heap z) (r - sizeof_UnitHead) = UNMARKED"
  shows "seen tgt sys k (rn_heap z) (mark_callback [(r, [Mark_fuzzy_unit u])]) (woomem_gc_marking_round_counter (rn_gc z) + 1)
    \<lparr>vw_lives = (lives (heap_mem (rn_heap z)))(r - sizeof_UnitHead := SELF_MARKED), vw_words = word_at (heap_mem (rn_heap z)),
     vw_workers = [([], [], False, 2 ^ 63), ([r - sizeof_UnitHead], [], False, 2 ^ 63)], vw_scans = [Waiting, Waiting], vw_stores = [],
     vw_held = [r], vw_phase = Parallel_mark\<rparr>" (is "seen tgt sys k ?H ?cb ?round ?v")
proof -
  obtain wa wb where w: "rn_workers z = [wa, wb]" "m_local_work wa = []" "m_local_work wb = []" "\<not> m_is_draining wa" "\<not> m_is_draining wb"
      "m_enqueue_pos (m_gray_queue wa) = 0" "m_enqueue_pos (m_gray_queue wb) = 0"
    using ws by (auto simp: map_eq_Cons_conv)
  have b: "base_inv k (rn_program z)" and bi: "between_inv k z" using inv f(1) by (simp_all add: running_inv_def)
  have q: "quiet k (m_gray_queue wa)" "quiet k (m_gray_queue wb)" "queued k (m_gray_queue wa) = []" "queued k (m_gray_queue wb) = []" "rn_stores z = []"
    using base_invD(5) [OF b] bi w(1) by (auto simp: between_inv_def worker_work_def)
  let ?R = "r - sizeof_UnitHead" and ?g = "(rn_gc z)\<lparr>m_force_trigger_gc := False, woomem_gc_marking_round_counter := ?round, woomem_gc_marking_state_flag := True\<rparr>"
  let ?L = "(lives (heap_mem ?H))(?R := SELF_MARKED)" and ?wb = "wb\<lparr>m_local_work := [?R]\<rparr>"
  let ?g' = "?g\<lparr>m_gc_assigned_thread_idx := 2, m_gc_worker_threads := [wa, ?wb]\<rparr>"
  have "upd_unit ?R (\<lambda>h. h\<lparr>m_life := SELF_MARKED\<rparr>) (heap_mem ?H) = with_lives ?L (heap_mem ?H)"
    using with_lives_simps(9) [of ?R SELF_MARKED "lives (heap_mem ?H)" "heap_mem ?H"] by simp
  then have m: "root_calls_run (chunk_of (h_chunk ?H)) [Mark_fuzzy_unit r] (?g, heap_mem ?H) = Some (?g', with_lives ?L (heap_mem ?H))"
    using r w(1,3) f(5) by (simp add: woomem_mark_root_fuzzy_unit_def woomem_mark_root_unit_head_def mark_root_unit_to_gray_def mark_life_def
      fetch_thread_worker_def rd_def wr_def)
  define y where "y = (on_program (\<lambda>x. (with_gc (\<lambda>_. ?g') (with_heap (upd_mem (\<lambda>_. with_lives ?L (heap_mem ?H))) x))\<lparr>pr_new_allocated := 0\<rparr>) z)
    \<lparr>rn_phase := Parallel_mark, rn_scans := [Waiting, Waiting], rn_callback := [(r, [Mark_fuzzy_unit u])], rn_snapshot := ?H,
     rn_roots := root_units (chunk_of (h_chunk ?H)) (heap_mem ?H) [Mark_fuzzy_unit r] (rn_gc z)\<rparr>"
  have run: "perform tgt sys k z (Cycle_begin [Mark_fuzzy_unit r] [(r, [Mark_fuzzy_unit u])]) = Some y"
    unfolding perform.simps Let_def m using f(4) w(1) by (simp add: y_def numeral_2_eq_2)
  have "enabled k False z (Cycle_begin [Mark_fuzzy_unit r] [(r, [Mark_fuzzy_unit u])])" using f(1-3) by simp
  with run have "running_step tgt sys k False z y" unfolding running_step_def by blast
  with re have ry: "reach (running_init tgt sys k) (running_step tgt sys k False) y" by (rule reach.reach_step)
  have p: "same_published (lives (heap_mem ?H)) ?L" using r(3) by (auto simp: same_published_def lives_def)
  have "shows_view k ?H ?cb ?round y ?v"
    using p q w f(2) by (simp add: shows_view_def y_def heap_with_def worker_view_def upd_mem_def)
  with ry show ?thesis by (auto simp: seen_def)
qed

text \<open>C40: Writes during the final marking lose units. The library tells the threads of the program to stop marking when
  the parallel marking is over, and then marks on. In a run with two workers that follows this (stores mark what they
  overwrite while \<open>woomem_gc_marking_state_flag\<close> is set, and do not when it is not), a thread holds a pointer to a published
  unit when the sweep begins, and the sweep frees the unit.\<close>

theorem final_marking_loses:
  "\<exists>y y' p. reach (running_init POSIX demo_sys 1) (running_step POSIX demo_sys 1 False) y \<and> enabled 1 False y Sweep_all \<and>
     perform POSIX demo_sys 1 y Sweep_all = Some y' \<and> p \<in> set (rn_held y) \<and> resolve (rn_heap y) p = p \<and> p \<noteq> 0 \<and>
     p \<in> set (rn_held y') \<and> \<not> unit_in (rn_heap y') (p - sizeof_UnitHead)"
proof (rule demo_ready)
  fix z :: "addr list running"
  assume z: "reach (running_init POSIX demo_sys 1) (running_step POSIX demo_sys 1 True) z" "rn_phase z = Between" "rn_held z = [0x100028]"
    "m_all_page_list (rn_heap z) \<noteq> 0" "m_root_gc_unit_set (rn_gc z) = []" "m_gc_assigned_thread_idx (rn_gc z) = 1" "woomem_gc_marking_round_counter (rn_gc z) = 3"
    "map (\<lambda>w. (m_local_work w, m_is_draining w, m_enqueue_pos (m_gray_queue w))) (rn_workers z) = [([], False, 0), ([], False, 0)]"
    and sz: "get_unit_available_size 0x100020 (heap_mem (rn_heap z)) = Some 16360" "get_unit_available_size 0x108020 (heap_mem (rn_heap z)) = Some 16360"
    and wd: "word_at (heap_mem (rn_heap z)) = (\<lambda>_. 0)(0x108028 := 0x104018, 0x100028 := 0x108028)"
    and un: "\<And>u. u \<in> {0x100020, 0x104010, 0x108020} \<Longrightarrow> is_published (rn_heap z) u \<and> life_in (rn_heap z) u = UNMARKED \<and> m_timing (unit_at (heap_mem (rn_heap z)) u) = 3"
    and at: "m_attribute (unit_at (heap_mem (rn_heap z)) 0x100020) = 5" "m_attribute (unit_at (heap_mem (rn_heap z)) 0x104010) = 1"
      "m_attribute (unit_at (heap_mem (rn_heap z)) 0x108020) = 3"
  let ?H = "rn_heap z" and ?cb = "mark_callback [(0x100028, [Mark_fuzzy_unit 0x108028])]" and ?L = "(lives (heap_mem (rn_heap z)))(0x100020 := SELF_MARKED)"
  have inv: "running_inv 1 z" using z(1) by (rule running.reach_inv)
  then have b: "base_inv 1 (rn_program z)" and bi: "between_inv 1 z" using z(2) by (simp_all add: running_inv_def)
  note o = base_invD(1) [OF b]
  have rs: "resolve ?H 0x100028 = 0x100028" "resolve ?H 0x104018 = 0x104018" "resolve ?H 0x108028 = 0x108028"
    using resolve_payload [OF o, of "0x100020"] resolve_payload [OF o, of "0x104010"] resolve_payload [OF o, of "0x108020"] un by (simp_all add: sizeof_UnitHead_def)
  have va: "woomem_validate_addr x (chunk_of (h_chunk ?H)) (heap_mem ?H) = Some (resolve ?H x)" for x
    using call_target_some [OF o, of "Mark_fuzzy_unit x"] by simp
  have wc: "word_count (heap_mem ?H) 0x100020 = 2045" "word_count (heap_mem ?H) 0x108020 = 2045" using sz by (simp_all add: word_count_def unat_div)
  have start: "seen POSIX demo_sys 1 ?H ?cb 4 \<lparr>vw_lives = ?L, vw_words = word_at (heap_mem ?H),
      vw_workers = [([], [], False, 2 ^ 63), ([0x100020], [], False, 2 ^ 63)], vw_scans = [Waiting, Waiting], vw_stores = [],
      vw_held = [0x100028], vw_phase = Parallel_mark\<rparr>"
    using demo_begin_view [OF inv reach_careless [OF z(1)] z(2-6,8), of "0x108028"] va rs(1) un z(7) by (simp add: sizeof_UnitHead_def)
  have wa: "word_addr 0x108020 i = 0x108028 + w64 (8 * i)" "word_addr 0x100020 0 = 0x100028" for i by (simp_all add: word_addr_def sizeof_UnitHead_def)
  have zero: "word_at (heap_mem ?H) (word_addr 0x108020 i) = 0" if "0 < i" "i < word_count (heap_mem ?H) 0x108020" for i
  proof -
    have "unat (word_addr 0x108020 i) = unat (0x108028 :: u64) + 8 * i" unfolding wa using that wc(2) by (intro unat_add_small) simp
    with that(1) have "word_addr 0x108020 i \<noteq> 0x108028" "word_addr 0x108020 i \<noteq> 0x100028" by auto
    then show ?thesis by (simp add: wd)
  qed
  have an: "has_attrib (unit_at (heap_mem ?H) 0x100020) WOOMEM_ATTRIB_MARK_CALLBACK" "\<not> has_attrib (unit_at (heap_mem ?H) 0x100020) WOOMEM_ATTRIB_AUTO_MARK"
      "has_attrib (unit_at (heap_mem ?H) 0x108020) WOOMEM_ATTRIB_AUTO_MARK" "\<not> has_attrib (unit_at (heap_mem ?H) 0x108020) WOOMEM_ATTRIB_MARK_CALLBACK"
      "has_attrib (unit_at (heap_mem ?H) 0x104010) WOOMEM_ATTRIB_NEED_SWEEP"
    using at by (simp_all add: has_attrib_def WOOMEM_ATTRIB_MARK_CALLBACK_def WOOMEM_ATTRIB_AUTO_MARK_def WOOMEM_ATTRIB_NEED_SWEEP_def)
  let ?v = "\<lambda>g. \<lparr>vw_lives = ?L(0x100020 := FULL_MARKED, 0x108020 := FULL_MARKED), vw_words = g, vw_workers = [([], [], False, 2 ^ 63 - 1), ([], [], False, 2 ^ 63)],
    vw_scans = [Finished, Finished], vw_stores = [], vw_held = [0x104018, 0x108028, 0x100028], vw_phase = Final_mark\<rparr>"
  have fd: "word_at (heap_mem ?H) (word_addr 0x100020 0) = 0x108028" "word_at (heap_mem ?H) (word_addr 0x108020 0) = 0x104018" by (simp_all add: wd wa)
  have "\<exists>g. seen POSIX demo_sys 1 ?H ?cb 4 (?v g)"
  proof (rule lost_run [where r = "0x100028" and u = "0x108028" and f = "word_at (heap_mem ?H)" and w = "0x104018"])
    show "woomem_validate_addr 0 (chunk_of (h_chunk ?H)) (heap_mem ?H) = Some 0" using va [of 0] by simp
    show "woomem_validate_addr 0x108028 (chunk_of (h_chunk ?H)) (heap_mem ?H) = Some 0x108028" using va rs(3) by simp
    show "word_addr 0x100020 0 \<noteq> word_addr 0x108020 0" by (simp add: wa)
    show "?L 0x108020 = UNMARKED" using un [of "0x108020"] by (simp add: lives_def)
    show "mark_callback [(0x100028, [Mark_fuzzy_unit 0x108028])] (0x100020 + sizeof_UnitHead) = [Mark_fuzzy_unit 0x108028]" by (simp add: mark_callback_def sizeof_UnitHead_def)
  qed (use rs sz wc start in \<open>simp_all add: sizeof_UnitHead_def an fd zero\<close>)
  then obtain g y where y: "reach (running_init POSIX demo_sys 1) (running_step POSIX demo_sys 1 False) y" "shows_view 1 ?H ?cb 4 y (?v g)"
    by (auto simp: seen_def)
  have um: "unmarked_heap ?H" using bi by (simp add: between_inv_def)
  have l: "vw_lives (?v g) u = RELEASED \<longleftrightarrow> lives (heap_mem ?H) u = RELEASED" for u using un by (auto simp: lives_def)
  have ng: "vw_lives (?v g) u \<noteq> SELF_MARKED" if "unit_in ?H u" for u using um that by (auto simp: unmarked_heap_def lives_def)
  have "\<not> kept 4 ((unit_at (heap_mem ?H) 0x104010)\<lparr>m_life := vw_lives (?v g) 0x104010\<rparr>)"
    using un [of "0x104010"] an(5) by (simp add: kept_def lives_def has_attrib_def)
  note S = view_swept [OF y(2) o z(4) l ng _ _ _ _ _ this]
  have "enabled 1 False y Sweep_all" by (rule S(1)) simp_all
  moreover obtain y' where "perform POSIX demo_sys 1 y Sweep_all = Some y'" "rn_held y' = vw_held (?v g)" "\<not> unit_in (rn_heap y') 0x104010"
    using S(2) [of POSIX demo_sys] by auto
  moreover have "resolve (rn_heap y) 0x104018 = 0x104018" "rn_held y = vw_held (?v g)" using view_facts(2,7) [OF y(2)] rs(2) by simp_all
  ultimately show ?thesis using y(1) by (intro exI [of _ y] exI [of _ y'] exI [of _ "0x104018"]) (simp add: sizeof_UnitHead_def del: perform.simps)
qed

end
