(* ===== verification/Spec2Isabelle.thy ===== *)
theory Spec2Isabelle
  imports Woomem_Chunk_Safety Woomem_Api_Props Woomem_Mpsc_Props Woomem_Locks Woomem_Gc_Cycle_Props Woomem_Barrier
    Woomem_System Woomem_Trigger Woomem_Handoff Woomem_Os_Win32 Woomem_Running_Props Woomem_Careless
begin

text \<open>
  A verification library for woomem, a memory manager with a concurrent mark-and-sweep collector (C++, \<^verbatim>\<open>src/src\<close>
  and \<^verbatim>\<open>src/include\<close>).

  \<^bold>\<open>The program.\<close> A \<^emph>\<open>chunk\<close> (\<^verbatim>\<open>woomem_chunk.cpp\<close>) reserves one range of address space from the operating system and
  hands out runs of pages of 32 KiB by first fit over a sorted list of free blocks. A page is either cut into equal
  \<^emph>\<open>units\<close> of one of 13 sizes (\<^verbatim>\<open>woomem_page_unit_alloc\<close>) or the head of a huge unit. Pages with free units are kept in
  global pools (\<^verbatim>\<open>woomem_global_page_collection.hpp\<close>) and one page per size is cached by each thread
  (\<^verbatim>\<open>woomem_thread_page_collection.hpp\<close>); all pages are also in one lock-free chain. The interface (\<^verbatim>\<open>woomem.cpp\<close>) allocates in
  two phases and resolves arbitrary addresses to units. The collector (\<^verbatim>\<open>woomem_gc.cpp\<close>) has a main thread and
  workers: it marks what the roots reach, through per-worker gray queues (\<^verbatim>\<open>woomem_mpsc_queue.hpp\<close>), hands the chain of
  pages out to the workers and sweeps it. Spinlocks and a read-write lock protect the shared parts.

  \<^bold>\<open>Theories.\<close>
  \<^item> \<open>Woomem_Prelude\<close>: word types, checked reads and writes of arrays (\<open>rd\<close>, \<open>wr\<close>), reachability and the locale
    \<open>inductive_invariant\<close> that every state machine below interprets.
  \<^item> \<open>Woomem_Os\<close>, \<open>Woomem_Os_Win32\<close>: \<^verbatim>\<open>woomem_os_mmap_unix.c\<close> and \<^verbatim>\<open>woomem_os_mmap_win32.c\<close>. The kernel's calls are parameters with
    their documented behaviour (\<open>mmap_documented\<close>, \<open>win32_documented\<close>) as hypotheses. The theories on the chunk and above it use the
    POSIX layer; of the Windows layer it is shown what becomes of a region from its reservation to its release.
  \<^item> \<open>Woomem_Memory\<close>: the structures that live in managed memory, as one typed heap (\<open>mem\<close>).
  \<^item> \<open>Woomem_Chunk\<close> models the chunk operation by operation on its count and link arrays; \<open>Woomem_Blocks\<close> is the abstract
    specification, a sequence of free and used blocks with first fit and coalescing; \<open>Woomem_Chunk_Rep\<close> and
    \<open>Woomem_Chunk_Refine\<close> relate the two; \<open>Woomem_Chunk_Props\<close> and \<open>Woomem_Chunk_Safety\<close> hold the refinement theorems, the locale of
    a range allocator with its interpretation on the chunk, round trip, exclusiveness and the behaviour at the limits.
  \<^item> \<open>Woomem_Chain\<close>: the lock-free chains as interleaved steps. \<open>Woomem_Page_Unit\<close>, \<open>Woomem_Page_Unit_Props\<close>: sizes, the layout that
    a new page gets, and the two free lists of a page.
  \<^item> \<open>Woomem_Pools\<close>, \<open>Woomem_Pools_Props\<close>: pools, thread caches, global and thread contexts; \<open>heap_inv\<close> and \<open>thread_ok\<close> are the invariants
    of the heap and of a thread.
  \<^item> \<open>Woomem_Api\<close>, \<open>Woomem_Api_Props\<close>: allocation, reallocation and resolution of addresses, on every size.
  \<^item> \<open>Woomem_Locks\<close>: the spinlock and the read-write lock as state machines, with a locale for lock protocols.
  \<^item> \<open>Woomem_Mpsc\<close>, \<open>Woomem_Mpsc_Props\<close>: the gray queue, alone and with interleaved producers and consumer.
  \<^item> \<open>Woomem_Gc\<close>, \<open>Woomem_Gc_Mark_Props\<close>, \<open>Woomem_Gc_Sweep_Props\<close>: a worker. The marking loop is an abstract marking of a graph
    (\<open>gray\<close>, \<open>blacken\<close>) carried out on the memory; it ends and reaches exactly what is reachable. Sweeping a list of
    pages keeps and frees exactly the units it should (\<open>pages_swept\<close>).
  \<^item> \<open>Woomem_Gc_Cycle\<close>, \<open>Woomem_Gc_Cycle_Props\<close>: roots, the trigger policy, the distribution of pages and a whole cycle.
  \<^item> \<open>Woomem_Barrier\<close>: the phases of a cycle as a handshake of the main thread, the workers and the destructor, safe and
    without lost wake-ups. \<open>Woomem_Handoff\<close>: threads of the program that mark units and roots while a worker drains and the main
    thread sets and clears \<open>woomem_gc_marking_state_flag\<close>. \<open>Woomem_Trigger\<close>: asking
    for a collection. \<open>Woomem_Init\<close>: start and end of the library, which establish the invariants above.
  \<^item> \<open>Woomem_Tidy\<close>, \<open>Woomem_System\<close>: the whole library under a program, as a state machine whose steps are calls of its threads
    and collections in any order (\<open>program_step\<close>). Its invariant holds in every reachable state, where every next call
    returns and every collection keeps exactly the units it should. Two conditions remain on a collection: its callbacks mark
    precisely only null or units in use, and it does not run on an empty chain of pages while a worker still has the list of
    an earlier cycle (\<open>sweep_lists_fresh\<close>). The source starts cycles by a timer and does not ensure the second condition, which
    holds as long as a unit is in use; what happens otherwise is among the defects. \<open>Woomem_System\<close> also shows that
    the empty pages of a pool are lost. \<open>Woomem_Tidy\<close> holds what is true of such a heap (\<open>ordered\<close>: chain, pools and the lives that units may have) and what allocation, writes and the
    sweep keep of it.
  \<^item> \<open>Woomem_Concurrent\<close> opens the cycle: the workers scan a unit word by word (\<open>scan\<close>, \<open>next_unit\<close>) while a program reads, writes,
    allocates and publishes units (\<open>action\<close>, \<open>perform\<close>), behind a barrier that marks the overwritten value through
    \<open>woomem_mark_fuzzy_unit\<close>: load, mark and write are steps of their own. The barrier is the client's, not code of the
    library, which offers the call and the flag for it. \<open>enabled\<close> says which actions are possible: a cycle may begin at any time,
    the marking stops when no store is in progress, which the source leaves to the stop callback, and the sweep starts
    under the condition on the lists of the workers above. \<open>Woomem_Extends\<close>: heaps that keep the units of another one.
    \<open>Woomem_Snapshot\<close>: what was reachable when the cycle began is marked, gray or still to be scanned, whatever the program
    does. \<open>Woomem_Running\<close>, \<open>Woomem_Running_Mark\<close>, \<open>Woomem_Running_Cycle\<close>: every action keeps the invariant. \<open>Woomem_Running_Props\<close>: no
    action fails, the sweep keeps all that the program can reach, and the marking ends.
  \<^item> \<open>Woomem_Careless\<close>: a run from the start of the library in which a program that writes without a barrier during the final
    marking loses a unit it holds.

  \<^bold>\<open>How code becomes definitions.\<close> A function of the source is a definition of the same name over explicit state. \<open>None\<close>
  is a failed assertion or an access out of range, so a theorem that a call returns \<open>Some\<close> also says that no assertion
  of the source fails; null pointers are the address 0. Loops whose end is not evident are \<open>partial_function (option)\<close>,
  and the theorems prove that they end: no fuel is used anywhere. Machine integers are words of their width.
  Operations guarded by a lock are single steps, which \<open>Woomem_Locks\<close> justifies; lock-free code is modelled access by
  access. The user's callbacks are parameters: what they mark is a list of calls of the marking interface.

  \<^bold>\<open>Bounds.\<close> Fewer than \<open>2 ^ 31\<close> threads wait for the read-write lock; a chunk has at most \<open>2 ^ 31 - 1\<close> pages; a queue has \<open>2 ^ k\<close> slots
  with \<open>k\<close> from 1 to 32 (13 in the source) and serves fewer than \<open>2 ^ 63\<close> enqueues; sizes of requests stay 32799 bytes below
  \<open>2 ^ 64\<close>; fewer than \<open>2 ^ 64\<close> workers, pages and cycles. Each bound is where the source's arithmetic would wrap, and what
  happens beyond the bounds a caller can reach is stated as a property of its own.

  \<^bold>\<open>Defects found.\<close> Theorems with the kind of error show behaviour the source does not intend: requests that wrap around,
  state that survives a shutdown, pages that are never returned, a stale list of pages that is swept again, a
  synchronous trigger that hangs at shutdown, root marking that races with a worker, and threads that are told to
  stop marking before the final marking, which then misses a unit they hold.

  \<^bold>\<open>Not modelled.\<close> Memory orders weaker than sequential consistency; the creation of threads, with it the contexts that the
  workers register for themselves, and \<open>malloc\<close>; the bytes of user data, except the machine words that reallocation copies and automatic marking reads. Within a phase of \<open>gc_cycle\<close>
  the workers run one after the other; their interleaving is the subject of \<open>Woomem_Running\<close>, of \<open>Woomem_Handoff\<close> and of the
  queue. In \<open>Woomem_System\<close> a call and a cycle are single steps; in \<open>Woomem_Running\<close> a cycle is interleaved with the program, but
  a call of the allocator, an enqueue and the sweep are single steps. A thread that would spin on a full queue in
  \<open>mark_unit_to_gray\<close> waits there until the action is possible; in \<open>Woomem_Gc\<close>, where nobody drains the queue meanwhile, the call has
  no result. There is one worker in \<open>Woomem_Handoff\<close>. In \<open>Woomem_Running\<close> the mark callback of a unit makes the same
  calls throughout a cycle, and the program of the safety theorems (\<open>careful\<close>) does not write published units between
  the end of the parallel marking and the sweep, which \<open>Woomem_Careless\<close> shows to be necessary. The tests and the build
  files are left out.
\<close>

end
